(* ===== verification/Prelude.thy ===== *)
theory Prelude
  imports Main "HOL-Library.Word"
begin

unbundle bit_operations_syntax

text \<open>
  The shared basis of the development: the machine types of \<^verbatim>\<open>src/src/include/common/type.h\<close>,
  the values that stand for C++ exceptions and for undefined behaviour, the state-and-error
  computations every stateful component is written in, and the byte-level memory operations
  (\<open>peek\<close>, \<open>poke\<close> and their checked forms, the models of \<^verbatim>\<open>memcpy\<close> on a page buffer) with the
  little-endian encoding of integers.  The target is a 64-bit little-endian machine, so
  \<^verbatim>\<open>size_t\<close> is a 64-bit word, \<^verbatim>\<open>int\<close> a 32-bit word read as a signed number.
\<close>

section \<open>Machine types\<close>

type_synonym byte = "8 word"
type_synonym u8 = "8 word"
type_synonym u16 = "16 word"
type_synonym u32 = "32 word"
type_synonym u64 = "64 word"
type_synonym entry_id = "64 word"
type_synonym page_id_t = "64 word"
type_synonym row_id_t = "64 word"
type_synonym tx_id_t = "64 word"
type_synonym lsn_t = "64 word"
type_synonym bytes = "byte list"

section \<open>Exceptions and computations\<close>

text \<open>
  \<open>RuntimeError\<close> and \<open>InvalidArgument\<close> are thrown by the source with a message (the model keeps
  the part that names the place), \<open>BadVariantAccess\<close> is what \<^verbatim>\<open>std::get\<close> throws,
  \<open>BadArrayLength\<close> what the allocation of an array of negative length throws.
  \<open>MemoryFault\<close> and \<open>SignedOverflow\<close> are no exceptions of the program: they stand for an access
  outside a buffer and for the overflow of a signed addition, which C++ leaves undefined.
\<close>

datatype err =
    RuntimeError string
  | InvalidArgument string
  | BadVariantAccess
  | BadArrayLength
  | MemoryFault
  | SignedOverflow
  | OutOfFuel

type_synonym 'a res = "err + 'a"

text \<open>A computation over a state: an exception leaves the state as it was changed so far.\<close>

type_synonym ('s, 'a) comp = "'s \<Rightarrow> 'a res \<times> 's"

definition ret :: "'a \<Rightarrow> ('s, 'a) comp" where
  "ret a = (\<lambda>s. (Inr a, s))"

definition throw :: "err \<Rightarrow> ('s, 'a) comp" where
  "throw e = (\<lambda>s. (Inl e, s))"

definition bnd :: "('s, 'a) comp \<Rightarrow> ('a \<Rightarrow> ('s, 'b) comp) \<Rightarrow> ('s, 'b) comp" where
  "bnd m f = (\<lambda>s. case m s of (Inl e, t) \<Rightarrow> (Inl e, t) | (Inr a, t) \<Rightarrow> f a t)"

definition thn :: "('s, 'a) comp \<Rightarrow> ('s, 'b) comp \<Rightarrow> ('s, 'b) comp" where
  "thn m k = bnd m (\<lambda>_. k)"

definition gets :: "('s \<Rightarrow> 'a) \<Rightarrow> ('s, 'a) comp" where
  "gets f = (\<lambda>s. (Inr (f s), s))"

definition modify :: "('s \<Rightarrow> 's) \<Rightarrow> ('s, unit) comp" where
  "modify f = (\<lambda>s. (Inr (), f s))"

definition of_res :: "'a res \<Rightarrow> ('s, 'a) comp" where
  "of_res r = (\<lambda>s. (r, s))"

definition on_cond :: "bool \<Rightarrow> ('s, unit) comp \<Rightarrow> ('s, unit) comp" where
  "on_cond b m = (if b then m else ret ())"

text \<open>A computation on a part of the state, run on the whole state.\<close>

definition zoom :: "('s \<Rightarrow> 't) \<Rightarrow> ('t \<Rightarrow> 's \<Rightarrow> 's) \<Rightarrow> ('t, 'a) comp \<Rightarrow> ('s, 'a) comp" where
  "zoom get put m = (\<lambda>s. case m (get s) of (r, t) \<Rightarrow> (r, put t s))"

text \<open>A loop over a list, left at the first exception.\<close>

fun for_each :: "'a list \<Rightarrow> ('a \<Rightarrow> ('s, unit) comp) \<Rightarrow> ('s, unit) comp" where
  "for_each [] f = ret ()"
| "for_each (x # xs) f = thn (f x) (for_each xs f)"

named_theorems comp_simps "equations that run a computation"

lemma ret_run [comp_simps]: "ret a s = (Inr a, s)"
  by (simp add: ret_def)

lemma throw_run [comp_simps]: "throw e s = (Inl e, s)"
  by (simp add: throw_def)

lemma gets_run [comp_simps]: "gets f s = (Inr (f s), s)"
  by (simp add: gets_def)

lemma modify_run [comp_simps]: "modify f s = (Inr (), f s)"
  by (simp add: modify_def)

lemma of_res_run [comp_simps]: "of_res r s = (r, s)"
  by (simp add: of_res_def)

lemma bnd_run_Inr [comp_simps]: "m s = (Inr a, t) \<Longrightarrow> bnd m f s = f a t"
  by (simp add: bnd_def)

lemma bnd_run_Inl [comp_simps]: "m s = (Inl e, t) \<Longrightarrow> bnd m f s = (Inl e, t)"
  by (simp add: bnd_def)

lemma thn_run_Inr [comp_simps]: "m s = (Inr a, t) \<Longrightarrow> thn m k s = k t"
  by (simp add: thn_def bnd_def)

lemma thn_run_Inl [comp_simps]: "m s = (Inl e, t) \<Longrightarrow> thn m k s = (Inl e, t)"
  by (simp add: thn_def bnd_def)

lemma on_cond_run [comp_simps]: "on_cond b m s = (if b then m s else (Inr (), s))"
  by (simp add: on_cond_def ret_def)

lemma if_run [comp_simps]: "(if b then m else n) s = (if b then m s else n s)"
  by simp

lemma bnd_Inr_iff: "bnd m f s = (Inr b, u) \<longleftrightarrow> (\<exists>a t. m s = (Inr a, t) \<and> f a t = (Inr b, u))"
  by (auto simp: bnd_def split: prod.splits sum.splits)

lemma thn_Inr_iff: "thn m k s = (Inr b, u) \<longleftrightarrow> (\<exists>a t. m s = (Inr a, t) \<and> k t = (Inr b, u))"
  by (auto simp: thn_def bnd_Inr_iff)

lemma zoom_Inr_iff: "zoom get put m s = (Inr b, u) \<longleftrightarrow> (\<exists>t. m (get s) = (Inr b, t) \<and> u = put t s)"
  by (auto simp: zoom_def split: prod.splits)

lemma zoom_run [comp_simps]: "m (get s) = (r, t) \<Longrightarrow> zoom get put m s = (r, put t s)"
  by (simp add: zoom_def)

section \<open>Numbers as little-endian bytes\<close>

fun bytes_of_nat :: "nat \<Rightarrow> nat \<Rightarrow> bytes" where
  "bytes_of_nat 0 k = []"
| "bytes_of_nat (Suc n) k = word_of_nat k # bytes_of_nat n (k div 256)"

fun nat_of_bytes :: "bytes \<Rightarrow> nat" where
  "nat_of_bytes [] = 0"
| "nat_of_bytes (b # bs) = unat b + 256 * nat_of_bytes bs"

text \<open>The object representation of an unsigned integer of \<open>n\<close> bytes, and its inverse.\<close>

definition le_bytes :: "nat \<Rightarrow> 'a::len word \<Rightarrow> bytes" where
  "le_bytes n w = bytes_of_nat n (unat w)"

definition le_word :: "bytes \<Rightarrow> 'a::len word" where
  "le_word bs = word_of_nat (nat_of_bytes bs)"

lemma length_bytes_of_nat [simp]: "length (bytes_of_nat n k) = n"
  by (induction n arbitrary: k) auto

lemma length_le_bytes [simp]: "length (le_bytes n w) = n"
  by (simp add: le_bytes_def)

lemma bytes_of_nat_0: "bytes_of_nat n 0 = replicate n 0"
  by (induction n) simp_all

lemma nat_of_bytes_of_nat: "nat_of_bytes (bytes_of_nat n k) = k mod 256 ^ n"
proof (induction n arbitrary: k)
  case (Suc n)
  have "nat_of_bytes (bytes_of_nat (Suc n) k) = k mod 256 + 256 * (k div 256 mod 256 ^ n)"
    using Suc.IH by (simp add: unat_of_nat take_bit_eq_mod)
  also have "\<dots> = k mod (256 * 256 ^ n)"
    by (simp add: mod_mult2_eq)
  finally show ?case by simp
qed simp

lemma unat_less_2p: "unat (w :: 'a::len word) < 2 ^ LENGTH('a)"
  by (rule unsigned_less)

lemma unat_add_small:
  "unat a + unat b < 2 ^ LENGTH('a) \<Longrightarrow> unat (a + b) = unat a + unat (b :: 'a::len word)"
  by (simp add: unat_word_ariths)

lemma unat_add_u64: "unat a + unat b < 2 ^ 64 \<Longrightarrow> unat (a + b) = unat a + unat (b :: u64)"
  by (rule unat_add_small) simp

lemma unat_ucast_widen:
  assumes "LENGTH('a::len) \<le> LENGTH('b::len)"
  shows "unat (ucast (w :: 'a word) :: 'b word) = unat w"
proof -
  have "unat w < 2 ^ LENGTH('b)"
    using unat_less_2p [of w] power_increasing [OF assms, of "2 :: nat"] by linarith
  then show ?thesis by (simp add: unsigned_ucast_eq take_bit_eq_mod)
qed

lemma unat_ucast_simps [simp]:
  "unat (ucast (h :: u16) :: u32) = unat h" "unat (ucast (h :: u16) :: u64) = unat h"
  "unat (ucast (i :: u32) :: u64) = unat i"
  by (simp_all add: unat_ucast_widen)

lemma sum_mod_zero:
  assumes "(a + b) mod n = 0" "0 < b" "a < n" "b < (n :: nat)"
  shows "a + b = n"
proof (cases "a + b < n")
  case False
  then have "(a + b) mod n = (a + b - n) mod n" by (simp add: le_mod_geq)
  then show ?thesis using False assms by simp
qed (use assms in simp)

lemma unat_of_signed:
  shows "0 \<le> sint w \<Longrightarrow> int (unat (w :: u64)) = sint w"
    and "sint w < 0 \<Longrightarrow> int (unat w) = sint w + 2 ^ 64"
proof -
  have u: "int (unat w) = sint w mod 2 ^ 64" using uint_sint [of w] by (simp add: take_bit_eq_mod)
  have b: "- (2 ^ 63) \<le> sint w" "sint w < 2 ^ 63" using sint_ge [of w] sint_lt [of w] by simp_all
  show "int (unat w) = sint w" if "0 \<le> sint w" using u b that by (simp add: mod_pos_pos_trivial)
  show "int (unat w) = sint w + 2 ^ 64" if "sint w < 0"
  proof -
    have "sint w mod 2 ^ 64 = (sint w + 2 ^ 64) mod 2 ^ 64" by (rule mod_add_self2 [symmetric])
    also have "\<dots> = sint w + 2 ^ 64" using b that by (intro mod_pos_pos_trivial) simp_all
    finally show ?thesis by (simp only: u)
  qed
qed

lemma sint_u32_small: "unat w < 2 ^ 31 \<Longrightarrow> sint (w :: u32) = int (unat w)"
proof -
  assume "unat w < 2 ^ 31"
  then have "int (unat w) < 2 ^ 31" by (simp only: of_nat_less_iff [symmetric, where 'a = int] of_nat_power of_nat_numeral)
  moreover have "- (2 ^ 31) \<le> int (unat w)" by (rule order_trans [of _ 0]) (simp, rule of_nat_0_le_iff)
  ultimately have "signed_take_bit 31 (int (unat w)) = int (unat w)" by (intro signed_take_bit_int_eq_self)
  then show ?thesis by (simp add: sint_uint)
qed

lemma unat_less_pow256: "LENGTH('a) \<le> 8 * n \<Longrightarrow> unat (w :: 'a::len word) < 256 ^ n"
proof -
  assume "LENGTH('a) \<le> 8 * n"
  then have "(2::nat) ^ LENGTH('a) \<le> 2 ^ (8 * n)"
    by (rule power_increasing) simp
  moreover have "(2::nat) ^ (8 * n) = 256 ^ n"
    by (simp add: power_mult)
  ultimately show ?thesis
    using unat_less_2p [of w] by linarith
qed

lemma le_word_le_bytes: "LENGTH('a) \<le> 8 * n \<Longrightarrow> le_word (le_bytes n w) = (w :: 'a::len word)"
  by (simp add: le_word_def le_bytes_def nat_of_bytes_of_nat unat_less_pow256)

lemma le_word_le_bytes_simps [simp]:
  "le_word (le_bytes 1 b) = (b :: 8 word)"
  "le_word (le_bytes 2 h) = (h :: 16 word)"
  "le_word (le_bytes 4 i) = (i :: 32 word)"
  "le_word (le_bytes 8 w) = (w :: 64 word)"
  by (simp_all add: le_word_le_bytes)

lemma nat_of_bytes_bound: "nat_of_bytes bs < 256 ^ length bs"
proof (induction bs)
  case (Cons b bs)
  have "unat b < 256" using unat_less_2p [of b] by simp
  with Cons.IH show ?case by simp
qed simp

lemma bytes_of_nat_of_bytes: "bytes_of_nat (length bs) (nat_of_bytes bs) = bs"
proof (induction bs)
  case (Cons b bs)
  have "unat b < 256" using unat_less_2p [of b] by simp
  then have "word_of_nat (unat b + 256 * nat_of_bytes bs) = b"
    by (simp only: word_unat_eq_iff unat_of_nat) simp
  then show ?case using Cons.IH \<open>unat b < 256\<close> by simp
qed simp

lemma le_bytes_le_word:
  assumes "length bs = n" "8 * n = LENGTH('a::len)"
  shows "le_bytes n (le_word bs :: 'a word) = bs"
proof -
  have "nat_of_bytes bs < 2 ^ LENGTH('a)"
    using nat_of_bytes_bound [of bs] power_mult [of "2 :: nat" 8 n] assms by simp
  then have "unat (le_word bs :: 'a word) = nat_of_bytes bs"
    by (simp add: le_word_def unat_of_nat take_bit_eq_mod)
  then show ?thesis using bytes_of_nat_of_bytes [of bs] assms(1) by (simp add: le_bytes_def)
qed

lemma le_bytes_le_word_simps [simp]:
  "length bs = 2 \<Longrightarrow> le_bytes 2 (le_word bs :: 16 word) = bs"
  "length bs = 4 \<Longrightarrow> le_bytes 4 (le_word bs :: 32 word) = bs"
  "length bs = 8 \<Longrightarrow> le_bytes 8 (le_word bs :: 64 word) = bs"
  by (simp_all add: le_bytes_le_word)

section \<open>Page memory\<close>

text \<open>
  \<open>peek off n d\<close> are the \<open>n\<close> bytes at offset \<open>off\<close> of the buffer \<open>d\<close>, \<open>poke off bs d\<close> is the
  buffer after \<open>bs\<close> has been copied to offset \<open>off\<close>.  The checked forms model \<^verbatim>\<open>memcpy\<close>: an
  access that does not lie in the buffer is a \<open>MemoryFault\<close>.
\<close>

definition peek :: "nat \<Rightarrow> nat \<Rightarrow> bytes \<Rightarrow> bytes" where
  "peek off n d = take n (drop off d)"

definition poke :: "nat \<Rightarrow> bytes \<Rightarrow> bytes \<Rightarrow> bytes" where
  "poke off bs d = take off d @ bs @ drop (off + length bs) d"

definition mem_read :: "nat \<Rightarrow> nat \<Rightarrow> bytes \<Rightarrow> bytes res" where
  "mem_read off n d = (if off + n \<le> length d then Inr (peek off n d) else Inl MemoryFault)"

definition mem_write :: "nat \<Rightarrow> bytes \<Rightarrow> bytes \<Rightarrow> bytes res" where
  "mem_write off bs d = (if off + length bs \<le> length d then Inr (poke off bs d) else Inl MemoryFault)"

lemma length_poke [simp]: "off + length bs \<le> length d \<Longrightarrow> length (poke off bs d) = length d"
  by (simp add: poke_def)

lemma length_peek [simp]: "off + n \<le> length d \<Longrightarrow> length (peek off n d) = n"
  by (simp add: peek_def)

lemma nth_poke:
  "off + length bs \<le> length d \<Longrightarrow> i < length d \<Longrightarrow>
   poke off bs d ! i = (if off \<le> i \<and> i < off + length bs then bs ! (i - off) else d ! i)"
  by (auto simp: poke_def nth_append min_def)

lemma nth_peek: "off + n \<le> length d \<Longrightarrow> i < n \<Longrightarrow> peek off n d ! i = d ! (off + i)"
  by (simp add: peek_def)

lemma peek_poke_same: "off + length bs \<le> length d \<Longrightarrow> n = length bs \<Longrightarrow> peek off n (poke off bs d) = bs"
  by (simp add: peek_def poke_def)

lemma peek_poke_disjoint:
  assumes "off + length bs \<le> length d" "o2 + n \<le> length d" "o2 + n \<le> off \<or> off + length bs \<le> o2"
  shows "peek o2 n (poke off bs d) = peek o2 n d"
  using assms by (intro nth_equalityI) (auto simp: nth_peek nth_poke)

lemma peek_poke_inside:
  assumes "off + length bs \<le> length d" "off \<le> o2" "o2 + n \<le> off + length bs"
  shows "peek o2 n (poke off bs d) = peek (o2 - off) n bs"
  using assms by (intro nth_equalityI) (auto simp: nth_peek nth_poke)

lemma poke_peek_id: "off + n \<le> length d \<Longrightarrow> poke off (peek off n d) d = d"
  by (intro nth_equalityI) (auto simp: nth_poke nth_peek)

lemma poke_poke_same:
  "off + length bs \<le> length d \<Longrightarrow> length as = length bs \<Longrightarrow> poke off as (poke off bs d) = poke off as d"
  by (intro nth_equalityI) (auto simp: nth_poke)

lemma poke_commute:
  "off + length bs \<le> length d \<Longrightarrow> o2 + length as \<le> length d \<Longrightarrow>
   o2 + length as \<le> off \<or> off + length bs \<le> o2 \<Longrightarrow>
   poke off bs (poke o2 as d) = poke o2 as (poke off bs d)"
  by (intro nth_equalityI) (auto simp: nth_poke)

lemma peek_peek: "o2 + n \<le> m \<Longrightarrow> peek o2 n (peek off m d) = peek (off + o2) n d"
  by (simp add: peek_def drop_take add.commute min_def)

lemma peek_appendD:
  assumes "peek off n d = a @ b" "n = length a + length b"
  shows "peek off (length a) d = a" "peek (off + length a) (length b) d = b"
proof -
  have "peek off (length a) d = peek 0 (length a) (peek off n d)"
    using assms(2) by (simp add: peek_peek)
  then show "peek off (length a) d = a" by (simp add: assms(1)) (simp add: peek_def)
  have "peek (off + length a) (length b) d = peek (length a) (length b) (peek off n d)"
    using assms(2) by (simp add: peek_peek)
  then show "peek (off + length a) (length b) d = b" by (simp add: assms(1)) (simp add: peek_def)
qed

lemma peek_poke_around:
  assumes "off \<le> o2" "o2 + length bs \<le> off + n" "off + n \<le> length d"
  shows "peek off n (poke o2 bs d) = poke (o2 - off) bs (peek off n d)"
  using assms by (intro nth_equalityI) (auto simp: nth_peek nth_poke add.commute)

lemma poke_append_mid:
  assumes "k + length bs \<le> length b" "off = length a + k"
  shows "poke off bs (a @ b @ c) = a @ poke k bs b @ c"
  using assms by (simp add: poke_def)

lemma poke_append_right: "off = length a + k \<Longrightarrow> poke off bs (a @ b) = a @ poke k bs b"
  by (simp add: poke_def)

lemma poke_append_left: "k + length bs \<le> length b \<Longrightarrow> poke k bs (b @ c) = poke k bs b @ c"
  by (simp add: poke_def)

lemma poke_0_replace: "length bs = length d \<Longrightarrow> poke 0 bs d = bs"
  by (simp add: poke_def)

lemma peek_adjacent: "peek off m d @ peek (off + m) n d = peek off (m + n) d"
  by (simp add: peek_def take_add drop_drop add.commute)

text \<open>Two adjacent writes are one.\<close>

lemma poke_poke_adjacent:
  assumes "off + length a + length b \<le> length d"
  shows "poke (off + length a) b (poke off a d) = poke off (a @ b) d"
  using assms by (intro nth_equalityI) (auto simp: nth_poke nth_append)

lemma peek_0_all: "n = length d \<Longrightarrow> peek 0 n d = d"
  by (simp add: peek_def)

lemma peek_append_left: "off + n \<le> length a \<Longrightarrow> peek off n (a @ b) = peek off n a"
  by (simp add: peek_def)

lemma peek_append_right: "length a \<le> off \<Longrightarrow> peek off n (a @ b) = peek (off - length a) n b"
  by (simp add: peek_def)

lemma mem_read_ok [simp]: "off + n \<le> length d \<Longrightarrow> mem_read off n d = Inr (peek off n d)"
  by (simp add: mem_read_def)

lemma mem_write_ok [simp]: "off + length bs \<le> length d \<Longrightarrow> mem_write off bs d = Inr (poke off bs d)"
  by (simp add: mem_write_def)

text \<open>\<open>holds_at off bs d\<close>: the buffer \<open>d\<close> holds the bytes \<open>bs\<close> at offset \<open>off\<close>.\<close>

definition holds_at :: "nat \<Rightarrow> bytes \<Rightarrow> bytes \<Rightarrow> bool" where
  "holds_at off bs d \<longleftrightarrow> off + length bs \<le> length d \<and> peek off (length bs) d = bs"

lemma holds_at_append [simp]:
  "holds_at off (a @ b) d \<longleftrightarrow> holds_at off a d \<and> holds_at (off + length a) b d"
  using peek_appendD [of off "length a + length b" d a b]
  by (auto simp: holds_at_def peek_def take_add drop_drop add.commute add.left_commute)

lemma holds_at_Nil [simp]: "holds_at off [] d \<longleftrightarrow> off \<le> length d"
  by (simp add: holds_at_def peek_def)

lemma holds_at_len: "holds_at off bs d \<Longrightarrow> off + length bs \<le> length d"
  by (simp add: holds_at_def)

lemma holds_at_read: "holds_at off bs d \<Longrightarrow> n = length bs \<Longrightarrow> mem_read off n d = Inr bs"
  by (simp add: holds_at_def)

lemma holds_at_peek: "holds_at off bs d \<Longrightarrow> n = length bs \<Longrightarrow> peek off n d = bs"
  by (simp add: holds_at_def)

lemma holds_at_peek_self: "off + n \<le> length d \<Longrightarrow> holds_at off (peek off n d) d"
  by (simp add: holds_at_def)

lemma holds_at_unique: "holds_at off a d \<Longrightarrow> holds_at off b d \<Longrightarrow> length a = length b \<Longrightarrow> a = b"
  by (simp add: holds_at_def)

lemma holds_at_poke_same: "off + length bs \<le> length d \<Longrightarrow> holds_at off bs (poke off bs d)"
  by (simp add: holds_at_def peek_poke_same)

lemma holds_at_poke_disjoint:
  assumes "holds_at off a d" "o2 + length bs \<le> length d" "off + length a \<le> o2 \<or> o2 + length bs \<le> off"
  shows "holds_at off a (poke o2 bs d)"
  using assms by (auto simp: holds_at_def peek_poke_disjoint)

lemma holds_at_slice: "holds_at off bs d \<Longrightarrow> k + n \<le> length bs \<Longrightarrow> holds_at (off + k) (peek k n bs) d"
  unfolding holds_at_def using peek_peek [of k n "length bs" off d] by auto

text \<open>Overwriting a field in the middle of a held byte string.\<close>

lemma holds_at_poke_field:
  assumes "holds_at off (a @ f @ b) d" "length g = length f" "o2 = off + length a"
  shows "holds_at off (a @ g @ b) (poke o2 g d)"
proof -
  from assms(1) have a: "holds_at off a d" and f: "holds_at o2 f d" and b: "holds_at (o2 + length f) b d"
    by (simp_all add: assms(3) add.assoc)
  have "o2 + length g \<le> length d" using holds_at_len [OF f] assms(2) by simp
  then have "holds_at off a (poke o2 g d)" "holds_at o2 g (poke o2 g d)" "holds_at (o2 + length g) b (poke o2 g d)"
    using a b assms(2,3) by (auto intro: holds_at_poke_disjoint holds_at_poke_same)
  then show ?thesis by (simp add: assms(3) add.assoc)
qed

section \<open>Strings\<close>

text \<open>The bytes of a \<^verbatim>\<open>std::string\<close> used as a name.\<close>

definition str_bytes :: "string \<Rightarrow> bytes" where
  "str_bytes s = map (\<lambda>c. word_of_nat (of_char c)) s"

definition bytes_str :: "bytes \<Rightarrow> string" where
  "bytes_str bs = map (\<lambda>b. char_of (unat b)) bs"

lemma length_str_bytes [simp]: "length (str_bytes s) = length s"
  by (simp add: str_bytes_def)

lemma bytes_str_str_bytes [simp]: "bytes_str (str_bytes s) = s"
proof -
  have "char_of (unat (word_of_nat (of_char c) :: byte)) = c" for c
  proof -
    have "(of_char c :: nat) < 256" by (rule nat_of_char_less_256)
    then have "unat (word_of_nat (of_char c) :: byte) = of_char c"
      by (simp add: unat_of_nat take_bit_eq_mod)
    then show ?thesis by simp
  qed
  then show ?thesis by (simp add: bytes_str_def str_bytes_def comp_def)
qed

lemma next_word_less:
  assumes "n + 1 \<noteq> (0 :: u64)"
  shows "x < n + 1 \<longleftrightarrow> x < n \<or> x = n"
proof -
  have "unat (n + 1) = unat n + 1" using assms by (simp add: unatSuc add.commute)
  then show ?thesis by (auto simp: word_less_nat_alt word_unat_eq_iff)
qed


lemma unat_word_of_nat_u64: "n < 2 ^ 64 \<Longrightarrow> unat (word_of_nat n :: 64 word) = n"
  by (simp add: unat_of_nat take_bit_eq_mod)

end
