(* ===== verification/Disk.thy ===== *)
theory Disk
  imports Prelude
begin

text \<open>
  Pages and files: the page frame of \<^verbatim>\<open>include/buffer/page.h\<close>, the page file of
  \<^verbatim>\<open>storage/posix_disk_manager.cpp\<close> with the state of its \<^verbatim>\<open>std::fstream\<close> (open, fail bit), and
  the append-only log file of \<^verbatim>\<open>storage/log_disk_manager.cpp\<close>.  A device that fails to write
  (disk full) is not modelled.  The locale \<open>page_device\<close> states what the buffer pool relies on.
\<close>

section \<open>Pages\<close>

abbreviation PAGE_SIZE :: nat where "PAGE_SIZE \<equiv> 4096"
abbreviation BUFFER_MAX_PAGE :: nat where "BUFFER_MAX_PAGE \<equiv> 128"
abbreviation INVALID_PAGE_ID :: page_id_t where "INVALID_PAGE_ID \<equiv> 0"

record Page =
  pg_dirty :: bool
  pg_id :: page_id_t
  pg_data :: bytes

definition Page_Reset :: "Page \<Rightarrow> Page" where
  "Page_Reset p = p\<lparr>pg_data := replicate PAGE_SIZE 0, pg_id := 0\<rparr>"

section \<open>The page file\<close>

record PosixDisk =
  fs_open :: bool
  fs_fail :: bool
  fs_file :: bytes

text \<open>The constructor opens the file with the contents it finds.\<close>

definition PosixDiskManager_new :: "bytes \<Rightarrow> PosixDisk" where
  "PosixDiskManager_new contents = \<lparr>fs_open = True, fs_fail = False, fs_file = contents\<rparr>"

definition PosixDiskManager_Size :: "(PosixDisk, nat) comp" where
  "PosixDiskManager_Size = (\<lambda>d.
     if \<not> fs_open d then (Inl (RuntimeError ''PosixDiskManager::Read: File is not open''), d)
     else (Inr (length (fs_file d)), d))"

definition PosixDiskManager_Close :: "PosixDisk \<Rightarrow> PosixDisk" where
  "PosixDiskManager_Close d = (if fs_open d then d\<lparr>fs_open := False\<rparr> else d)"

text \<open>
  The byte offset is \<^verbatim>\<open>page_id * PAGE_SIZE\<close> in \<^verbatim>\<open>size_t\<close>, converted to a signed stream offset; a
  negative one makes the seek fail.  \<^verbatim>\<open>seekg\<close> and \<^verbatim>\<open>read\<close> do nothing on a stream whose fail bit is
  set, and \<^verbatim>\<open>read\<close> sets it when fewer bytes are left than asked for; what was read stays.
\<close>

definition page_offset :: "page_id_t \<Rightarrow> u64" where
  "page_offset pid = pid * 4096"

definition PosixDiskManager_Read :: "page_id_t \<Rightarrow> Page \<Rightarrow> (PosixDisk, Page) comp" where
  "PosixDiskManager_Read pid p = (\<lambda>d.
     if \<not> fs_open d then (Inl (RuntimeError ''PosixDiskManager::Read: File is not open''), d)
     else if fs_fail d \<or> 2 ^ 63 \<le> unat (page_offset pid) then (Inr p, d\<lparr>fs_fail := True\<rparr>)
     else let got = take PAGE_SIZE (drop (unat (page_offset pid)) (fs_file d)) in
       (Inr (p\<lparr>pg_data := got @ drop (length got) (pg_data p)\<rparr>),
        d\<lparr>fs_fail := length got < PAGE_SIZE\<rparr>))"

text \<open>Writing at an offset past the end of the file fills the gap with zeros.\<close>

definition write_at :: "nat \<Rightarrow> bytes \<Rightarrow> bytes \<Rightarrow> bytes" where
  "write_at off bs f = take off f @ replicate (off - length f) 0 @ bs @ drop (off + length bs) f"

definition PosixDiskManager_Write :: "Page \<Rightarrow> (PosixDisk, unit) comp" where
  "PosixDiskManager_Write p = (\<lambda>d.
     if \<not> fs_open d then (Inl (RuntimeError ''PosixDiskManager::Write: File is not open''), d)
     else if 2 ^ 63 \<le> unat (page_offset (pg_id p)) then (Inr (), d\<lparr>fs_fail := True\<rparr>)
     else (Inr (), d\<lparr>fs_fail := False,
       fs_file := write_at (unat (page_offset (pg_id p))) (take PAGE_SIZE (pg_data p)) (fs_file d)\<rparr>))"

section \<open>The log file\<close>

record LogDisk =
  log_open :: bool
  log_file :: bytes

definition LogDiskManager_new :: "bytes \<Rightarrow> LogDisk" where
  "LogDiskManager_new contents = \<lparr>log_open = True, log_file = contents\<rparr>"

definition LogDiskManager_Write :: "bytes \<Rightarrow> (LogDisk, unit) comp" where
  "LogDiskManager_Write bs = (\<lambda>d.
     if \<not> log_open d then (Inl (RuntimeError ''LogDiskManager::Write log_file is not open.''), d)
     else (Inr (), d\<lparr>log_file := log_file d @ bs\<rparr>))"

definition LogDiskManager_Size :: "LogDisk \<Rightarrow> nat" where
  "LogDiskManager_Size d = length (log_file d)"

definition LogDiskManager_ReadAll :: "LogDisk \<Rightarrow> bytes" where
  "LogDiskManager_ReadAll d = (let sz = LogDiskManager_Size d in
     if sz = 0 then [] else take sz (log_file d))"

section \<open>What a page device promises\<close>

text \<open>
  \<open>stored d pid\<close> is the contents of a page that lies completely in the file; \<open>ready\<close> says that the
  next read is served.  A page id is \<open>addressable\<close> when its byte offset fits a stream offset.
\<close>

definition stored :: "PosixDisk \<Rightarrow> page_id_t \<Rightarrow> bytes option" where
  "stored d pid = (if unat pid * PAGE_SIZE + PAGE_SIZE \<le> length (fs_file d)
     then Some (peek (unat pid * PAGE_SIZE) PAGE_SIZE (fs_file d)) else None)"

definition ready :: "PosixDisk \<Rightarrow> bool" where
  "ready d \<longleftrightarrow> fs_open d \<and> \<not> fs_fail d"

definition addressable :: "page_id_t \<Rightarrow> bool" where
  "addressable pid \<longleftrightarrow> unat pid < 2 ^ 51"

locale page_device =
  fixes opened :: "'d \<Rightarrow> bool"
    and serving :: "'d \<Rightarrow> bool"
    and contents :: "'d \<Rightarrow> page_id_t \<Rightarrow> bytes option"
    and rd :: "page_id_t \<Rightarrow> Page \<Rightarrow> ('d, Page) comp"
    and wr :: "Page \<Rightarrow> ('d, unit) comp"
  assumes serving_opened: "serving d \<Longrightarrow> opened d"
    and rd_stored: "serving d \<Longrightarrow> addressable pid \<Longrightarrow> contents d pid = Some bs \<Longrightarrow>
      length (pg_data p) = PAGE_SIZE \<Longrightarrow> rd pid p d = (Inr (p\<lparr>pg_data := bs\<rparr>), d)"
    and wr_serving: "opened d \<Longrightarrow> addressable (pg_id p) \<Longrightarrow> length (pg_data p) = PAGE_SIZE \<Longrightarrow>
      wr p d = (r, d') \<Longrightarrow> r = Inr () \<and> serving d'"
    and wr_same: "opened d \<Longrightarrow> addressable (pg_id p) \<Longrightarrow> length (pg_data p) = PAGE_SIZE \<Longrightarrow>
      wr p d = (r, d') \<Longrightarrow> contents d' (pg_id p) = Some (pg_data p)"
    and wr_other: "opened d \<Longrightarrow> addressable (pg_id p) \<Longrightarrow> length (pg_data p) = PAGE_SIZE \<Longrightarrow>
      wr p d = (r, d') \<Longrightarrow> pid \<noteq> pg_id p \<Longrightarrow> contents d pid = Some bs \<Longrightarrow> contents d' pid = Some bs"
begin

text \<open>What was written last is what is read, whatever the state of the stream before the write.\<close>

lemma write_then_read:
  assumes "opened d" "addressable (pg_id p)" "length (pg_data p) = PAGE_SIZE" "wr p d = (r, d')"
    and "length (pg_data q) = PAGE_SIZE"
  shows "rd (pg_id p) q d' = (Inr (q\<lparr>pg_data := pg_data p\<rparr>), d')"
  using assms by (intro rd_stored) (auto dest: wr_serving wr_same)

lemma write_other_then_read:
  assumes "opened d" "addressable (pg_id p)" "length (pg_data p) = PAGE_SIZE" "wr p d = (r, d')"
    and "addressable pid" "pid \<noteq> pg_id p" "contents d pid = Some bs" "length (pg_data q) = PAGE_SIZE"
  shows "rd pid q d' = (Inr (q\<lparr>pg_data := bs\<rparr>), d')"
  using assms by (intro rd_stored) (auto dest: wr_serving wr_other)

end

subsection \<open>The page file is such a device\<close>

lemma length_write_at: "length (write_at off bs f) = max (length f) (off + length bs)"
  by (auto simp: write_at_def)

lemma nth_write_at:
  "i < max (length f) (off + length bs) \<Longrightarrow>
   write_at off bs f ! i = (if off \<le> i \<and> i < off + length bs then bs ! (i - off)
     else if i < length f then f ! i else 0)"
  by (auto simp: write_at_def nth_append min_def)

lemma page_offset_addressable:
  assumes "addressable pid"
  shows "unat (page_offset pid) = unat pid * PAGE_SIZE" and "unat (page_offset pid) < 2 ^ 63"
proof -
  have small: "unat pid * PAGE_SIZE < 2 ^ 63"
    using assms by (simp add: addressable_def)
  then show *: "unat (page_offset pid) = unat pid * PAGE_SIZE"
    by (simp add: page_offset_def unat_word_ariths)
  with small show "unat (page_offset pid) < 2 ^ 63" by simp
qed

lemma stored_write_same:
  "addressable pid \<Longrightarrow> length bs = PAGE_SIZE \<Longrightarrow>
   stored (d\<lparr>fs_fail := x, fs_file := write_at (unat pid * PAGE_SIZE) bs f\<rparr>) pid = Some bs"
  unfolding stored_def
  by (auto simp: length_write_at intro!: nth_equalityI simp: nth_peek nth_write_at)

lemma stored_write_other:
  assumes "length bs = PAGE_SIZE" "q \<noteq> pid" "stored d q = Some cs"
  shows "stored (d\<lparr>fs_fail := x, fs_file := write_at (unat pid * PAGE_SIZE) bs (fs_file d)\<rparr>) q = Some cs"
proof -
  have "unat q \<noteq> unat pid" using assms(2) by (simp add: word_unat_eq_iff)
  then have apart: "unat q * PAGE_SIZE + PAGE_SIZE \<le> unat pid * PAGE_SIZE \<or>
    unat pid * PAGE_SIZE + PAGE_SIZE \<le> unat q * PAGE_SIZE" by arith
  have inside: "unat q * PAGE_SIZE + PAGE_SIZE \<le> length (fs_file d)"
    and cs: "cs = peek (unat q * PAGE_SIZE) PAGE_SIZE (fs_file d)"
    using assms(3) by (auto simp: stored_def split: if_splits)
  have "peek (unat q * PAGE_SIZE) PAGE_SIZE (write_at (unat pid * PAGE_SIZE) bs (fs_file d)) = cs"
    unfolding cs using inside apart assms(1)
    by (intro nth_equalityI) (auto simp: nth_peek nth_write_at length_write_at)
  then show ?thesis using inside by (simp add: stored_def length_write_at)
qed

interpretation posix: page_device fs_open ready stored PosixDiskManager_Read PosixDiskManager_Write
proof
  fix d :: PosixDisk and pid bs and p :: Page
  assume "ready d" "addressable pid" "stored d pid = Some bs" "length (pg_data p) = PAGE_SIZE"
  then show "PosixDiskManager_Read pid p d = (Inr (p\<lparr>pg_data := bs\<rparr>), d)"
    using page_offset_addressable [of pid]
    by (auto simp: PosixDiskManager_Read_def ready_def stored_def peek_def split: if_splits)
next
  fix d d' :: PosixDisk and p :: Page and r
  assume *: "fs_open d" "addressable (pg_id p)" "length (pg_data p) = PAGE_SIZE"
    "PosixDiskManager_Write p d = (r, d')"
  then have d': "d' = d\<lparr>fs_fail := False, fs_file := write_at (unat (pg_id p) * PAGE_SIZE) (pg_data p) (fs_file d)\<rparr>"
    and r: "r = Inr ()"
    using page_offset_addressable [OF *(2)] by (auto simp: PosixDiskManager_Write_def)
  show "r = Inr () \<and> ready d'" using r d' *(1) by (simp add: ready_def)
  show "stored d' (pg_id p) = Some (pg_data p)" using d' * by (simp add: stored_write_same)
  show "stored d' pid = Some bs" if "pid \<noteq> pg_id p" "stored d pid = Some bs" for pid bs
    using stored_write_other [OF *(3) that] d' by simp
qed (simp add: ready_def)

text \<open>A read past the end of the file leaves the stream failed, and then every read is dropped.\<close>

lemma read_past_end_fails:
  assumes "ready d" "addressable pid" "stored d pid = None" "PosixDiskManager_Read pid p d = (r, d')"
  shows "fs_fail d' \<and> fs_file d' = fs_file d \<and> fs_open d'"
  using assms page_offset_addressable [OF assms(2)]
  by (auto simp: PosixDiskManager_Read_def ready_def stored_def Let_def split: if_splits)

lemma read_on_failed_stream:
  "fs_open d \<Longrightarrow> fs_fail d \<Longrightarrow> PosixDiskManager_Read pid p d = (Inr p, d)"
  by (simp add: PosixDiskManager_Read_def)

lemma read_open: "PosixDiskManager_Read pid p d = (r, d') \<Longrightarrow> fs_open d' = fs_open d"
  by (auto simp: PosixDiskManager_Read_def Let_def split: if_splits)

lemma read_file: "PosixDiskManager_Read pid p d = (r, d') \<Longrightarrow> fs_file d' = fs_file d"
  by (auto simp: PosixDiskManager_Read_def Let_def split: if_splits)

lemma read_page_fields:
  "PosixDiskManager_Read pid p d = (Inr q, d') \<Longrightarrow>
   pg_dirty q = pg_dirty p \<and> pg_id q = pg_id p \<and>
   (length (pg_data p) = PAGE_SIZE \<longrightarrow> length (pg_data q) = PAGE_SIZE)"
  by (auto simp: PosixDiskManager_Read_def Let_def split: if_splits)

lemma write_opened: "PosixDiskManager_Write p d = (r, d') \<Longrightarrow> fs_open d' = fs_open d"
  by (auto simp: PosixDiskManager_Write_def split: if_splits)

lemma write_total: "fs_open d \<Longrightarrow> \<exists>d'. PosixDiskManager_Write p d = (Inr (), d') \<and> fs_open d'"
  by (simp add: PosixDiskManager_Write_def)

lemma read_total: "fs_open d \<Longrightarrow> \<exists>q d'. PosixDiskManager_Read pid p d = (Inr q, d') \<and> fs_open d'"
  by (simp add: PosixDiskManager_Read_def Let_def)

text \<open>The log file only grows, and reading it back gives everything appended.\<close>

lemma log_append_ReadAll:
  "log_open d \<Longrightarrow> LogDiskManager_Write bs d = (r, d') \<Longrightarrow>
   r = Inr () \<and> log_open d' \<and> LogDiskManager_ReadAll d' = LogDiskManager_ReadAll d @ bs"
  by (auto simp: LogDiskManager_Write_def LogDiskManager_ReadAll_def LogDiskManager_Size_def)

end
