(* ===== verification/Lru.thy ===== *)
theory Lru
  imports Prelude
begin

text \<open>
  The replacement policy of \<^verbatim>\<open>include/buffer/lru_manager.h\<close>: pin counts, and the list of frames
  whose count dropped to zero, most recently released first.  \<open>lru_map\<close> models the index
  \<^verbatim>\<open>map_\<close> from a frame to its list node; frames occur at most once in the list (\<open>lru_inv\<close>), so the
  frame itself identifies the node.  A missing entry of \<^verbatim>\<open>pin_count_\<close> reads as 0, as
  \<^verbatim>\<open>operator[]\<close> does.  The counts are of type \<^verbatim>\<open>int\<close>: \<open>count_to\<close> stores a new count and notes in \<open>lru_overflow\<close>
  when it is outside that type.  From there on the C++ program is undefined, and the model only says that it happened;
  it takes at least \<open>2 ^ 31\<close> calls (\<open>no_overflow\<close>).  The locale \<open>replacer\<close> is the interface the buffer pool uses.
\<close>

type_synonym frame_id = nat

record LRUManager =
  pin_count :: "frame_id \<Rightarrow> int"
  lru_list :: "frame_id list"
  lru_map :: "frame_id set"
  lru_overflow :: bool

definition LRU_new :: LRUManager where
  "LRU_new = \<lparr>pin_count = (\<lambda>_. 0), lru_list = [], lru_map = {}, lru_overflow = False\<rparr>"

definition in_int :: "int \<Rightarrow> bool" where
  "in_int i \<longleftrightarrow> - (2 ^ 31) \<le> i \<and> i < 2 ^ 31"

definition count_to :: "frame_id \<Rightarrow> int \<Rightarrow> LRUManager \<Rightarrow> LRUManager" where
  "count_to f i l = l\<lparr>pin_count := (pin_count l)(f := i), lru_overflow := lru_overflow l \<or> \<not> in_int i\<rparr>"

definition LRU_Pin :: "frame_id \<Rightarrow> LRUManager \<Rightarrow> LRUManager" where
  "LRU_Pin f l =
     (let l1 = count_to f (pin_count l f + 1) l
      in if f \<in> lru_map l1
         then l1\<lparr>lru_list := remove1 f (lru_list l1), lru_map := lru_map l1 - {f}\<rparr> else l1)"

definition LRU_UnPin :: "frame_id \<Rightarrow> LRUManager \<Rightarrow> LRUManager" where
  "LRU_UnPin f l =
     (let l1 = count_to f (pin_count l f - 1) l
      in if pin_count l1 f = 0
         then l1\<lparr>lru_list := f # lru_list l1, lru_map := insert f (lru_map l1)\<rparr> else l1)"

definition LRU_Touch :: "frame_id \<Rightarrow> LRUManager \<Rightarrow> LRUManager" where
  "LRU_Touch f l =
     (if f \<in> lru_map l then l\<lparr>lru_list := f # remove1 f (lru_list l)\<rparr> else l)"

definition LRU_GetPinCount :: "frame_id \<Rightarrow> LRUManager \<Rightarrow> int" where
  "LRU_GetPinCount f l = pin_count l f"

definition LRU_Evict :: "LRUManager \<Rightarrow> frame_id res" where
  "LRU_Evict l = (if lru_list l = [] then Inl (RuntimeError ''LRU manager is empty'')
     else Inr (last (lru_list l)))"

section \<open>The invariant\<close>

definition lru_inv :: "LRUManager \<Rightarrow> bool" where
  "lru_inv l \<longleftrightarrow> distinct (lru_list l) \<and> lru_map l = set (lru_list l) \<and>
     (\<forall>f\<in>set (lru_list l). pin_count l f \<le> 0)"

lemma lru_inv_new: "lru_inv LRU_new"
  by (simp add: lru_inv_def LRU_new_def)

lemma lru_inv_Pin: "lru_inv l \<Longrightarrow> lru_inv (LRU_Pin f l)"
  by (auto simp: lru_inv_def LRU_Pin_def count_to_def Let_def)

lemma lru_inv_UnPin: "lru_inv l \<Longrightarrow> lru_inv (LRU_UnPin f l)"
  by (fastforce simp: lru_inv_def LRU_UnPin_def count_to_def Let_def)

lemma lru_inv_Touch: "lru_inv l \<Longrightarrow> lru_inv (LRU_Touch f l)"
  by (auto simp: lru_inv_def LRU_Touch_def)

section \<open>The interface of a replacement policy\<close>

locale replacer =
  fixes inv :: "'r \<Rightarrow> bool"
    and pins :: "'r \<Rightarrow> frame_id \<Rightarrow> int"
    and cands :: "'r \<Rightarrow> frame_id list"
    and pin :: "frame_id \<Rightarrow> 'r \<Rightarrow> 'r"
    and unpin :: "frame_id \<Rightarrow> 'r \<Rightarrow> 'r"
    and touch :: "frame_id \<Rightarrow> 'r \<Rightarrow> 'r"
    and evict :: "'r \<Rightarrow> frame_id res"
  assumes inv_pin: "inv r \<Longrightarrow> inv (pin f r)"
    and inv_unpin: "inv r \<Longrightarrow> inv (unpin f r)"
    and inv_touch: "inv r \<Longrightarrow> inv (touch f r)"
    and cands_unpinned: "inv r \<Longrightarrow> f \<in> set (cands r) \<Longrightarrow> pins r f \<le> 0"
    and pins_pin: "pins (pin f r) = (pins r)(f := pins r f + 1)"
    and pins_unpin: "pins (unpin f r) = (pins r)(f := pins r f - 1)"
    and pins_touch: "pins (touch f r) = pins r"
    and cands_pin: "inv r \<Longrightarrow> cands (pin f r) = removeAll f (cands r)"
    and cands_unpin: "inv r \<Longrightarrow> cands (unpin f r) = (if pins r f = 1 then f # cands r else cands r)"
    and cands_touch: "inv r \<Longrightarrow> cands (touch f r) =
      (if f \<in> set (cands r) then f # removeAll f (cands r) else cands r)"
    and evict_empty: "cands r = [] \<Longrightarrow> \<exists>e. evict r = Inl e"
    and evict_last: "cands r \<noteq> [] \<Longrightarrow> evict r = Inr (last (cands r))"
begin

lemma pinned_not_cand: "inv r \<Longrightarrow> 0 < pins r f \<Longrightarrow> f \<notin> set (cands r)"
  using cands_unpinned by fastforce

text \<open>Releasing frames one after the other: the victim is the one released first.\<close>

lemma cands_unpin_all:
  "inv r \<Longrightarrow> distinct fs \<Longrightarrow> \<forall>f\<in>set fs. pins r f = 1 \<Longrightarrow>
   inv (fold unpin fs r) \<and> cands (fold unpin fs r) = rev fs @ cands r"
proof (induction fs arbitrary: r)
  case (Cons f fs)
  have "inv (unpin f r)" using Cons.prems(1) by (rule inv_unpin)
  moreover have "\<forall>g\<in>set fs. pins (unpin f r) g = 1"
    using Cons.prems(2,3) by (auto simp: pins_unpin)
  ultimately have "inv (fold unpin fs (unpin f r)) \<and>
    cands (fold unpin fs (unpin f r)) = rev fs @ cands (unpin f r)"
    using Cons.IH Cons.prems(2) by simp
  then show ?case using Cons.prems(1,3) by (simp add: cands_unpin)
qed simp

lemma victim_released_first:
  assumes "inv r" "cands r = []" "distinct (f # fs)" "\<forall>g\<in>set (f # fs). pins r g = 1"
  shows "evict (fold unpin (f # fs) r) = Inr f"
  using cands_unpin_all [OF assms(1,3,4)] assms(2) by (simp add: evict_last)

text \<open>A use between release and eviction saves a frame: the next in line becomes the victim.\<close>

lemma touched_not_victim:
  assumes "inv r" "cands r = gs @ [g, f]" "distinct (cands r)"
  shows "evict (touch f r) = Inr g"
proof -
  have "cands (touch f r) = f # gs @ [g]"
    using assms cands_touch [OF assms(1), of f] by simp
  then show ?thesis by (simp add: evict_last)
qed

end

lemma pin_count_Pin [simp]: "pin_count (LRU_Pin f l) = (pin_count l)(f := pin_count l f + 1)"
  by (simp add: LRU_Pin_def count_to_def Let_def)

lemma pin_count_UnPin [simp]: "pin_count (LRU_UnPin f l) = (pin_count l)(f := pin_count l f - 1)"
  by (simp add: LRU_UnPin_def count_to_def Let_def)

lemma pin_count_Touch [simp]: "pin_count (LRU_Touch f l) = pin_count l"
  by (simp add: LRU_Touch_def)

lemma remove1_removeAll: "distinct xs \<Longrightarrow> remove1 x xs = removeAll x xs"
  by (rule distinct_remove1_removeAll)

interpretation lru: replacer lru_inv pin_count lru_list LRU_Pin LRU_UnPin LRU_Touch LRU_Evict
proof
  fix l f
  assume inv: "lru_inv l"
  show "lru_list (LRU_Pin f l) = removeAll f (lru_list l)"
    using inv by (auto simp: LRU_Pin_def count_to_def Let_def lru_inv_def remove1_removeAll)
  show "lru_list (LRU_UnPin f l) = (if pin_count l f = 1 then f # lru_list l else lru_list l)"
    by (auto simp: LRU_UnPin_def count_to_def Let_def)
  show "lru_list (LRU_Touch f l) =
      (if f \<in> set (lru_list l) then f # removeAll f (lru_list l) else lru_list l)"
    using inv by (auto simp: LRU_Touch_def lru_inv_def remove1_removeAll)
  show "f \<in> set (lru_list l) \<Longrightarrow> pin_count l f \<le> 0"
    using inv by (simp add: lru_inv_def)
qed (auto simp: lru_inv_Pin lru_inv_UnPin lru_inv_Touch LRU_Evict_def)

section \<open>Properties\<close>

datatype lru_op = OpPin frame_id | OpUnPin frame_id | OpTouch frame_id

fun lru_run :: "lru_op list \<Rightarrow> LRUManager \<Rightarrow> LRUManager" where
  "lru_run [] l = l"
| "lru_run (OpPin f # xs) l = lru_run xs (LRU_Pin f l)"
| "lru_run (OpUnPin f # xs) l = lru_run xs (LRU_UnPin f l)"
| "lru_run (OpTouch f # xs) l = lru_run xs (LRU_Touch f l)"

lemma lru_run_inv: "lru_inv l \<Longrightarrow> lru_inv (lru_run xs l)"
  by (induction xs l rule: lru_run.induct) (auto simp: lru_inv_Pin lru_inv_UnPin lru_inv_Touch)

text \<open>The pin count of a frame is the number of its \<open>Pin\<close> calls less the number of its \<open>UnPin\<close> calls.\<close>

definition balance :: "lru_op list \<Rightarrow> frame_id \<Rightarrow> int" where
  "balance xs f = int (count_list xs (OpPin f)) - int (count_list xs (OpUnPin f))"

lemma lru_run_counts: "pin_count (lru_run xs l) f = pin_count l f + balance xs f"
  by (induction xs l rule: lru_run.induct) (auto simp: balance_def)

lemma balance_bound: "\<bar>balance xs f\<bar> \<le> int (length xs)"
  using count_le_length [of xs "OpPin f"] count_le_length [of xs "OpUnPin f"] unfolding balance_def by linarith

lemma overflow_Pin: "lru_overflow (LRU_Pin f l) \<longleftrightarrow> lru_overflow l \<or> \<not> in_int (pin_count l f + 1)"
  by (simp add: LRU_Pin_def count_to_def Let_def)

lemma overflow_UnPin: "lru_overflow (LRU_UnPin f l) \<longleftrightarrow> lru_overflow l \<or> \<not> in_int (pin_count l f - 1)"
  by (simp add: LRU_UnPin_def count_to_def Let_def)

lemma overflow_Touch: "lru_overflow (LRU_Touch f l) = lru_overflow l"
  by (simp add: LRU_Touch_def)

lemmas overflow_simps = overflow_Pin overflow_UnPin overflow_Touch

lemma lru_run_small:
  "\<not> lru_overflow l \<Longrightarrow> \<forall>f. \<bar>pin_count l f\<bar> + int (length xs) < 2 ^ 31 \<Longrightarrow> \<not> lru_overflow (lru_run xs l)"
proof (induction xs l rule: lru_run.induct)
  case (2 f xs l)
  have "\<bar>pin_count (LRU_Pin f l) g\<bar> + int (length xs) < 2 ^ 31" for g using spec [OF 2(3), of g] by auto
  moreover have "in_int (pin_count l f + 1)" using spec [OF 2(3), of f] unfolding in_int_def by auto
  ultimately show ?case using 2(1,2) by (simp add: overflow_simps)
next
  case (3 f xs l)
  have "\<bar>pin_count (LRU_UnPin f l) g\<bar> + int (length xs) < 2 ^ 31" for g using spec [OF 3(3), of g] by auto
  moreover have "in_int (pin_count l f - 1)" using spec [OF 3(3), of f] unfolding in_int_def by auto
  ultimately show ?case using 3(1,2) by (simp add: overflow_simps)
next
  case (4 f xs l)
  have "\<bar>pin_count l g\<bar> + int (length xs) < 2 ^ 31" for g using spec [OF 4(3), of g] by simp
  then show ?case using 4(1,2) by (simp add: overflow_simps)
qed simp

lemma no_overflow: "length xs < 2 ^ 31 \<Longrightarrow> \<not> lru_overflow (lru_run xs LRU_new)"
  using lru_run_small [of LRU_new xs] of_nat_less_iff [of "length xs" "2 ^ 31", where 'a = int] by (simp add: LRU_new_def)

text \<open>
  C28. Fewer than \<open>2 ^ 31\<close> calls on a new replacement policy, in any order, also unbalanced ones, never take a pin count out of
  the range of \<^verbatim>\<open>int\<close>.  After them the count of a frame is the number of its \<open>Pin\<close> calls less the number of its \<open>UnPin\<close>
  calls, the list holds no frame twice, the index agrees with the list, and \<open>Evict\<close> throws on an empty list and otherwise
  returns a frame whose count is not positive.
\<close>

theorem lru_never_evicts_pinned:
  assumes "length xs < 2 ^ 31"
  shows "\<not> lru_overflow (lru_run xs LRU_new) \<and>
   (\<forall>f. pin_count (lru_run xs LRU_new) f = int (count_list xs (OpPin f)) - int (count_list xs (OpUnPin f))) \<and>
   distinct (lru_list (lru_run xs LRU_new)) \<and>
   lru_map (lru_run xs LRU_new) = set (lru_list (lru_run xs LRU_new)) \<and>
   (case LRU_Evict (lru_run xs LRU_new) of Inl e \<Rightarrow> lru_list (lru_run xs LRU_new) = []
    | Inr f \<Rightarrow> f \<in> lru_map (lru_run xs LRU_new) \<and> pin_count (lru_run xs LRU_new) f \<le> 0)"
proof -
  have "lru_inv (lru_run xs LRU_new)"
    by (rule lru_run_inv [OF lru_inv_new])
  moreover have "pin_count (lru_run xs LRU_new) f = balance xs f" for f
    by (simp add: lru_run_counts) (simp add: LRU_new_def)
  ultimately show ?thesis using no_overflow [OF assms] by (auto simp: lru_inv_def LRU_Evict_def balance_def)
qed

theorem lru_never_evicts_pinned_witness:
  "\<not> lru_overflow (lru_run [OpPin 3, OpPin 4, OpUnPin 3, OpUnPin 5] LRU_new) \<and>
   LRU_Evict (lru_run [OpPin 3, OpPin 4, OpUnPin 3, OpUnPin 5] LRU_new) = Inr 3 \<and>
   pin_count (lru_run [OpPin 3, OpPin 4, OpUnPin 3, OpUnPin 5] LRU_new) 5 = - 1"
  using lru_never_evicts_pinned [of "[OpPin 3, OpPin 4, OpUnPin 3, OpUnPin 5]"]
  by (simp add: LRU_Evict_def LRU_Pin_def LRU_UnPin_def LRU_new_def count_to_def)

text \<open>
  Least recently used: when frames are released one after the other from a policy without
  candidates, the victim is the frame released first.
\<close>

theorem lru_victim_is_oldest:
  assumes "lru_inv l" "lru_list l = []" "distinct (f # fs)" "\<forall>g\<in>set (f # fs). pin_count l g = 1"
  shows "LRU_Evict (fold LRU_UnPin (f # fs) l) = Inr f"
  using assms by (rule lru.victim_released_first)

theorem lru_victim_is_oldest_witness:
  "LRU_Evict (fold LRU_UnPin [3, 1, 2] (LRU_Pin 1 (LRU_Pin 2 (LRU_Pin 3 LRU_new)))) = Inr 3"
proof (rule lru_victim_is_oldest)
  show "lru_inv (LRU_Pin 1 (LRU_Pin 2 (LRU_Pin 3 LRU_new)))"
    by (intro lru_inv_Pin lru_inv_new)
qed (simp_all add: LRU_Pin_def LRU_new_def count_to_def)

end
