(* ===== verification/Buffer_Pool.thy ===== *)
theory Buffer_Pool
  imports Disk Lru
begin

text \<open>
  The buffer pool of \<^verbatim>\<open>buffer/buffer_manager.cpp\<close> and the page-id counter of
  \<^verbatim>\<open>common/util/page_id_util.h\<close>.  A \<^verbatim>\<open>Page*\<close> handed out by the pool is the index of its frame, so
  that aliasing is explicit: whoever holds the index sees what others write to the frame.
  Shown here: the pool's invariant is kept by every operation under its precondition, and what is left of it for calls
  without any; which releases keep the contents of all pages and which drop a page; and that eviction is never possible.
\<close>

record BufferManager =
  bm_disk :: PosixDisk
  bm_lru :: LRUManager
  bm_frames :: "Page list"
  bm_free :: "frame_id list"
  bm_pages :: "page_id_t \<Rightarrow> frame_id option"
  bm_next_id :: page_id_t

text \<open>The frames of a new pool hold whatever \<^verbatim>\<open>new char[PAGE_SIZE]\<close> returned.\<close>

definition BufferManager_new :: "PosixDisk \<Rightarrow> page_id_t \<Rightarrow> bytes \<Rightarrow> BufferManager" where
  "BufferManager_new disk next junk =
     \<lparr>bm_disk = disk, bm_lru = LRU_new,
      bm_frames = replicate BUFFER_MAX_PAGE \<lparr>pg_dirty = False, pg_id = 0, pg_data = junk\<rparr>,
      bm_free = [0..<BUFFER_MAX_PAGE], bm_pages = (\<lambda>_. None), bm_next_id = next\<rparr>"

section \<open>Access to frames\<close>

definition frame_of :: "frame_id \<Rightarrow> BufferManager \<Rightarrow> Page" where
  "frame_of f s = bm_frames s ! f"

definition set_frame :: "frame_id \<Rightarrow> Page \<Rightarrow> BufferManager \<Rightarrow> BufferManager" where
  "set_frame f p s = s\<lparr>bm_frames := (bm_frames s)[f := p]\<rparr>"

definition on_frame :: "frame_id \<Rightarrow> (Page \<Rightarrow> Page) \<Rightarrow> BufferManager \<Rightarrow> BufferManager" where
  "on_frame f g s = set_frame f (g (frame_of f s)) s"

definition pin_frame :: "frame_id \<Rightarrow> BufferManager \<Rightarrow> BufferManager" where
  "pin_frame f s = s\<lparr>bm_lru := LRU_Pin f (bm_lru s)\<rparr>"

definition map_page :: "page_id_t \<Rightarrow> frame_id \<Rightarrow> BufferManager \<Rightarrow> BufferManager" where
  "map_page pid f s = s\<lparr>bm_pages := (bm_pages s)(pid \<mapsto> f)\<rparr>"

text \<open>\<^verbatim>\<open>disk_manager_->Write(&frames_[f])\<close> and \<^verbatim>\<open>disk_manager_->Read(pid, &frames_[f])\<close>.\<close>

definition disk_write :: "frame_id \<Rightarrow> (BufferManager, unit) comp" where
  "disk_write f = (\<lambda>s. case PosixDiskManager_Write (frame_of f s) (bm_disk s) of
     (r, d) \<Rightarrow> (r, s\<lparr>bm_disk := d\<rparr>))"

definition disk_read :: "page_id_t \<Rightarrow> frame_id \<Rightarrow> (BufferManager, unit) comp" where
  "disk_read pid f = (\<lambda>s. case PosixDiskManager_Read pid (frame_of f s) (bm_disk s) of
     (Inl e, d) \<Rightarrow> (Inl e, s\<lparr>bm_disk := d\<rparr>)
   | (Inr p, d) \<Rightarrow> (Inr (), set_frame f p (s\<lparr>bm_disk := d\<rparr>)))"

definition write_if_dirty :: "frame_id \<Rightarrow> (BufferManager, unit) comp" where
  "write_if_dirty f = bnd (gets (\<lambda>s. pg_dirty (frame_of f s))) (\<lambda>d. on_cond d (disk_write f))"

definition evict_frame :: "(BufferManager, frame_id) comp" where
  "evict_frame = bnd (gets (\<lambda>s. LRU_Evict (bm_lru s))) of_res"

section \<open>The operations\<close>

definition BM_CurrFileSize :: "(BufferManager, nat) comp" where
  "BM_CurrFileSize = zoom bm_disk (\<lambda>d s. s\<lparr>bm_disk := d\<rparr>) PosixDiskManager_Size"

definition BM_ReadPage :: "page_id_t \<Rightarrow> frame_id \<Rightarrow> (BufferManager, bool) comp" where
  "BM_ReadPage pid f = thn (disk_read pid f)
     (thn (modify (on_frame f (\<lambda>p. p\<lparr>pg_dirty := False\<rparr>))) (ret True))"

definition BM_Flush :: "page_id_t \<Rightarrow> (BufferManager, unit) comp" where
  "BM_Flush pid = bnd (gets (\<lambda>s. bm_pages s pid)) (\<lambda>m. case m of
     None \<Rightarrow> throw (RuntimeError ''BufferManager::Flush: Page not found'')
   | Some f \<Rightarrow> bnd (gets (\<lambda>s. pg_dirty (frame_of f s))) (\<lambda>d.
       on_cond d (thn (disk_write f) (modify (on_frame f (\<lambda>p. p\<lparr>pg_dirty := False\<rparr>))))))"

definition BM_Release :: "page_id_t \<Rightarrow> (BufferManager, unit) comp" where
  "BM_Release pid = bnd (gets (\<lambda>s. bm_pages s pid)) (\<lambda>m. case m of
     None \<Rightarrow> throw (RuntimeError ''BufferManager::Release: Page not found'')
   | Some f \<Rightarrow>
       thn (modify (\<lambda>s. s\<lparr>bm_lru := LRU_UnPin f (bm_lru s)\<rparr>))
       (thn (bnd (gets (\<lambda>s. pg_dirty (frame_of f s))) (\<lambda>d.
              on_cond d (thn (disk_write f) (modify (on_frame f (\<lambda>p. p\<lparr>pg_dirty := False\<rparr>))))))
       (bnd (gets (\<lambda>s. LRU_GetPinCount f (bm_lru s))) (\<lambda>c.
          on_cond (c = 0) (modify (\<lambda>s. s\<lparr>bm_free := f # bm_free s, bm_pages := (bm_pages s)(pid := None)\<rparr>))))))"

text \<open>\<^verbatim>\<open>PageIdUtil::GetNextPageId\<close>: fetch and increment, wrapping around.\<close>

definition GetNextPageId :: "(BufferManager, page_id_t) comp" where
  "GetNextPageId = bnd (gets bm_next_id) (\<lambda>i.
     thn (modify (\<lambda>s. s\<lparr>bm_next_id := i + 1\<rparr>)) (ret i))"

definition BM_NewPage :: "(BufferManager, frame_id) comp" where
  "BM_NewPage = bnd (gets bm_free) (\<lambda>free.
     bnd (if free \<noteq> [] then
            (let f = last free in
             thn (modify (\<lambda>s. s\<lparr>bm_free := butlast free\<rparr>))
             (thn (modify (pin_frame f)) (thn (write_if_dirty f) (ret f))))
          else bnd evict_frame (\<lambda>f.
             thn (modify (pin_frame f)) (thn (write_if_dirty f) (ret f))))
     (\<lambda>f. thn (modify (on_frame f Page_Reset))
       (bnd GetNextPageId (\<lambda>i.
         thn (modify (on_frame f (\<lambda>p. p\<lparr>pg_id := i, pg_dirty := False\<rparr>)))
         (thn (modify (map_page i f)) (ret f))))))"

definition BM_FetchPage :: "page_id_t \<Rightarrow> (BufferManager, frame_id) comp" where
  "BM_FetchPage pid = bnd (gets (\<lambda>s. (bm_pages s pid, bm_free s))) (\<lambda>(m, free).
     bnd (case m of
            Some f \<Rightarrow> thn (modify (pin_frame f)) (ret f)
          | None \<Rightarrow>
              (if free \<noteq> [] then
                 (let f = last free in
                  thn (modify (\<lambda>s. s\<lparr>bm_free := butlast free\<rparr>))
                  (thn (write_if_dirty f) (thn (disk_read pid f)
                  (thn (modify (pin_frame f)) (thn (modify (map_page pid f)) (ret f))))))
               else bnd evict_frame (\<lambda>f.
                  thn (write_if_dirty f) (bnd (BM_ReadPage pid f) (\<lambda>ok.
                  if \<not> ok then throw (RuntimeError ''Failed to read page'')
                  else thn (modify (pin_frame f)) (thn (modify (map_page pid f)) (ret f)))))))
     (\<lambda>f. thn (modify (on_frame f (\<lambda>p. p\<lparr>pg_id := pid\<rparr>))) (ret f)))"

definition BM_TouchPage :: "page_id_t \<Rightarrow> (BufferManager, unit) comp" where
  "BM_TouchPage pid = bnd (gets (\<lambda>s. bm_pages s pid)) (\<lambda>m. case m of
     None \<Rightarrow> throw (RuntimeError ''BufferManager::TouchPage: Page not found'')
   | Some f \<Rightarrow> modify (\<lambda>s. s\<lparr>bm_lru := LRU_Touch f (bm_lru s)\<rparr>))"

text \<open>
  What a client does with a frame it holds: it changes the bytes through the \<^verbatim>\<open>Page*\<close> and marks the
  page dirty.
\<close>

definition client_write :: "frame_id \<Rightarrow> bytes \<Rightarrow> BufferManager \<Rightarrow> BufferManager" where
  "client_write f bs = on_frame f (\<lambda>p. p\<lparr>pg_data := bs, pg_dirty := True\<rparr>)"

section \<open>The invariant of the pool\<close>

definition bm_inv :: "BufferManager \<Rightarrow> bool" where
  "bm_inv s \<longleftrightarrow> fs_open (bm_disk s) \<and> lru_inv (bm_lru s) \<and>
     length (bm_frames s) = BUFFER_MAX_PAGE \<and>
     (\<forall>f<BUFFER_MAX_PAGE. length (pg_data (frame_of f s)) = PAGE_SIZE) \<and>
     distinct (bm_free s) \<and>
     (\<forall>f<BUFFER_MAX_PAGE. f \<in> set (bm_free s) \<or> f \<in> ran (bm_pages s)) \<and>
     (\<forall>f\<in>set (bm_free s). f < BUFFER_MAX_PAGE \<and> pin_count (bm_lru s) f = 0 \<and> \<not> pg_dirty (frame_of f s)) \<and>
     (\<forall>pid f. bm_pages s pid = Some f \<longrightarrow> f < BUFFER_MAX_PAGE \<and> 0 < pin_count (bm_lru s) f \<and>
        pg_id (frame_of f s) = pid \<and> addressable pid) \<and>
     set (lru_list (bm_lru s)) \<subseteq> set (bm_free s)"

text \<open>The contents of a page: what the pool holds, or what is in the file.\<close>

definition page_content :: "BufferManager \<Rightarrow> page_id_t \<Rightarrow> bytes option" where
  "page_content s pid = (case bm_pages s pid of
     Some f \<Rightarrow> Some (pg_data (frame_of f s)) | None \<Rightarrow> stored (bm_disk s) pid)"

text \<open>A page whose frame is clean but was never written (a new page nobody marked dirty) is lost when released.\<close>

definition backed :: "BufferManager \<Rightarrow> page_id_t \<Rightarrow> bool" where
  "backed s pid \<longleftrightarrow> (case bm_pages s pid of None \<Rightarrow> True
     | Some f \<Rightarrow> pg_dirty (frame_of f s) \<or> stored (bm_disk s) pid = Some (pg_data (frame_of f s)))"

named_theorems frame_simps "how frame updates show through the pool's fields"

lemma set_frame_fields [frame_simps]:
  "bm_disk (set_frame f p s) = bm_disk s" "bm_lru (set_frame f p s) = bm_lru s"
  "bm_free (set_frame f p s) = bm_free s" "bm_pages (set_frame f p s) = bm_pages s"
  "bm_next_id (set_frame f p s) = bm_next_id s"
  "length (bm_frames (set_frame f p s)) = length (bm_frames s)"
  by (simp_all add: set_frame_def)

lemma on_frame_fields [frame_simps]:
  "bm_disk (on_frame f g s) = bm_disk s" "bm_lru (on_frame f g s) = bm_lru s"
  "bm_free (on_frame f g s) = bm_free s" "bm_pages (on_frame f g s) = bm_pages s"
  "bm_next_id (on_frame f g s) = bm_next_id s"
  "length (bm_frames (on_frame f g s)) = length (bm_frames s)"
  by (simp_all add: on_frame_def frame_simps)

lemma frame_of_set_frame [frame_simps]:
  "f < length (bm_frames s) \<Longrightarrow> frame_of g (set_frame f p s) = (if g = f then p else frame_of g s)"
  by (simp add: frame_of_def set_frame_def)

lemma frame_of_on_frame [frame_simps]:
  "f < length (bm_frames s) \<Longrightarrow> frame_of g (on_frame f h s) = (if g = f then h (frame_of f s) else frame_of g s)"
  by (simp add: on_frame_def frame_simps)

lemma frame_of_other_fields [frame_simps]:
  "frame_of f (s\<lparr>bm_disk := d\<rparr>) = frame_of f s" "frame_of f (s\<lparr>bm_lru := l\<rparr>) = frame_of f s"
  "frame_of f (s\<lparr>bm_free := fr\<rparr>) = frame_of f s" "frame_of f (s\<lparr>bm_pages := m\<rparr>) = frame_of f s"
  "frame_of f (s\<lparr>bm_next_id := i\<rparr>) = frame_of f s"
  by (simp_all add: frame_of_def)

lemma pin_frame_fields [frame_simps]:
  "bm_disk (pin_frame f s) = bm_disk s" "bm_lru (pin_frame f s) = LRU_Pin f (bm_lru s)"
  "bm_free (pin_frame f s) = bm_free s" "bm_pages (pin_frame f s) = bm_pages s"
  "bm_next_id (pin_frame f s) = bm_next_id s" "bm_frames (pin_frame f s) = bm_frames s"
  "frame_of g (pin_frame f s) = frame_of g s"
  by (simp_all add: pin_frame_def frame_of_def)

lemma map_page_fields [frame_simps]:
  "bm_disk (map_page pid f s) = bm_disk s" "bm_lru (map_page pid f s) = bm_lru s"
  "bm_free (map_page pid f s) = bm_free s" "bm_pages (map_page pid f s) = (bm_pages s)(pid \<mapsto> f)"
  "bm_next_id (map_page pid f s) = bm_next_id s" "bm_frames (map_page pid f s) = bm_frames s"
  "frame_of g (map_page pid f s) = frame_of g s"
  by (simp_all add: map_page_def frame_of_def)

text \<open>The parts of the invariant, by name.\<close>

lemma bm_invD:
  assumes "bm_inv s"
  shows "fs_open (bm_disk s)" "lru_inv (bm_lru s)" "length (bm_frames s) = BUFFER_MAX_PAGE"
    "f < BUFFER_MAX_PAGE \<Longrightarrow> length (pg_data (frame_of f s)) = PAGE_SIZE"
    "distinct (bm_free s)"
    "f < BUFFER_MAX_PAGE \<Longrightarrow> f \<in> set (bm_free s) \<or> f \<in> ran (bm_pages s)"
    "f \<in> set (bm_free s) \<Longrightarrow> f < BUFFER_MAX_PAGE \<and> pin_count (bm_lru s) f = 0 \<and> \<not> pg_dirty (frame_of f s)"
    "bm_pages s pid = Some f \<Longrightarrow> f < BUFFER_MAX_PAGE \<and> 0 < pin_count (bm_lru s) f \<and>
        pg_id (frame_of f s) = pid \<and> addressable pid"
    "set (lru_list (bm_lru s)) \<subseteq> set (bm_free s)"
  using assms unfolding bm_inv_def by auto

lemma mapped_inj: "bm_inv s \<Longrightarrow> bm_pages s p = Some f \<Longrightarrow> bm_pages s q = Some f \<Longrightarrow> p = q"
  by (metis bm_invD(8))

lemma mapped_not_free: "bm_inv s \<Longrightarrow> bm_pages s p = Some f \<Longrightarrow> f \<notin> set (bm_free s)"
  using bm_invD(7,8) by fastforce

lemma bm_inv_new: "fs_open d \<Longrightarrow> length junk = PAGE_SIZE \<Longrightarrow> bm_inv (BufferManager_new d n junk)"
  by (auto simp: bm_inv_def BufferManager_new_def frame_of_def lru_inv_new)
    (simp_all add: LRU_new_def)

text \<open>The part of the invariant that no use of page ids can break.\<close>

definition frames_inv :: "BufferManager \<Rightarrow> bool" where
  "frames_inv s \<longleftrightarrow> fs_open (bm_disk s) \<and> lru_inv (bm_lru s) \<and> length (bm_frames s) = BUFFER_MAX_PAGE \<and>
     distinct (bm_free s) \<and>
     (\<forall>f\<in>set (bm_free s). f < BUFFER_MAX_PAGE \<and> pin_count (bm_lru s) f = 0 \<and> \<not> pg_dirty (frame_of f s)) \<and>
     (\<forall>f<BUFFER_MAX_PAGE. f \<in> set (bm_free s) \<or> 0 < pin_count (bm_lru s) f) \<and>
     (\<forall>pid f. bm_pages s pid = Some f \<longrightarrow> f < BUFFER_MAX_PAGE \<and> 0 < pin_count (bm_lru s) f \<and> pg_id (frame_of f s) = pid) \<and>
     set (lru_list (bm_lru s)) \<subseteq> set (bm_free s)"

lemma frames_invD:
  assumes "frames_inv s"
  shows "fs_open (bm_disk s)" "lru_inv (bm_lru s)" "length (bm_frames s) = BUFFER_MAX_PAGE" "distinct (bm_free s)"
    "f \<in> set (bm_free s) \<Longrightarrow> f < BUFFER_MAX_PAGE \<and> pin_count (bm_lru s) f = 0 \<and> \<not> pg_dirty (frame_of f s)"
    "f < BUFFER_MAX_PAGE \<Longrightarrow> f \<in> set (bm_free s) \<or> 0 < pin_count (bm_lru s) f"
    "bm_pages s pid = Some f \<Longrightarrow> f < BUFFER_MAX_PAGE \<and> 0 < pin_count (bm_lru s) f \<and> pg_id (frame_of f s) = pid"
    "set (lru_list (bm_lru s)) \<subseteq> set (bm_free s)"
  using assms unfolding frames_inv_def by auto

lemma frames_inv_new: "fs_open d \<Longrightarrow> frames_inv (BufferManager_new d n junk)"
  by (auto simp: frames_inv_def BufferManager_new_def frame_of_def lru_inv_new) (simp_all add: LRU_new_def)

lemma bm_frames_inv: "bm_inv s \<Longrightarrow> frames_inv s"
  unfolding frames_inv_def using bm_invD(1-3,5,7-9) [of s] bm_invD(6) [of s] by (simp add: ran_def) blast

lemma frames_mapped_not_free: "frames_inv s \<Longrightarrow> bm_pages s p = Some f \<Longrightarrow> f \<notin> set (bm_free s)"
  using frames_invD(5,7) by fastforce

lemma frames_mapped_inj: "frames_inv s \<Longrightarrow> bm_pages s p = Some f \<Longrightarrow> bm_pages s q = Some f \<Longrightarrow> p = q"
  by (metis frames_invD(7))

lemma frames_last_free:
  assumes "frames_inv s" "bm_free s \<noteq> []"
  shows "last (bm_free s) < BUFFER_MAX_PAGE" "\<not> pg_dirty (frame_of (last (bm_free s)) s)"
    "pin_count (bm_lru s) (last (bm_free s)) = 0" "last (bm_free s) \<notin> ran (bm_pages s)"
  using frames_invD(5) [OF assms(1), of "last (bm_free s)"] frames_mapped_not_free [OF assms(1)] last_in_set [OF assms(2)]
  by (auto simp: ran_def)

lemma frames_ran_unmap:
  assumes "frames_inv s" "bm_pages s pid = Some f"
  shows "ran ((bm_pages s)(pid := None)) = ran (bm_pages s) - {f}"
proof (intro set_eqI iffI)
  fix g assume "g \<in> ran ((bm_pages s)(pid := None))"
  then obtain q where "q \<noteq> pid" "bm_pages s q = Some g" by (auto simp: ran_def split: if_splits)
  then show "g \<in> ran (bm_pages s) - {f}"
    using frames_mapped_inj [OF assms(1) _ assms(2)] by (auto intro: ranI)
next
  fix g assume "g \<in> ran (bm_pages s) - {f}"
  then obtain q where "bm_pages s q = Some g" "g \<noteq> f" by (auto simp: ran_def)
  then have "((bm_pages s)(pid := None)) q = Some g" using assms(2) by auto
  then show "g \<in> ran ((bm_pages s)(pid := None))" by (rule ranI)
qed

lemmas ran_unmap = frames_ran_unmap [OF bm_frames_inv]

section \<open>Effect of the operations\<close>

text \<open>The state after a frame has been written back.\<close>

definition wrote :: "frame_id \<Rightarrow> BufferManager \<Rightarrow> BufferManager" where
  "wrote f s = s\<lparr>bm_disk := snd (PosixDiskManager_Write (frame_of f s) (bm_disk s))\<rparr>"

definition cleaned :: "frame_id \<Rightarrow> BufferManager \<Rightarrow> BufferManager" where
  "cleaned f s = (if pg_dirty (frame_of f s)
     then on_frame f (\<lambda>p. p\<lparr>pg_dirty := False\<rparr>) (wrote f s) else s)"

lemma disk_write_run [comp_simps]: "fs_open (bm_disk s) \<Longrightarrow> disk_write f s = (Inr (), wrote f s)"
  using write_total [of "bm_disk s" "frame_of f s"]
  by (auto simp: disk_write_def wrote_def split: prod.splits)

lemma wrote_fields [frame_simps]:
  "bm_lru (wrote f s) = bm_lru s" "bm_free (wrote f s) = bm_free s" "bm_pages (wrote f s) = bm_pages s"
  "bm_next_id (wrote f s) = bm_next_id s" "bm_frames (wrote f s) = bm_frames s"
  "frame_of g (wrote f s) = frame_of g s"
  by (simp_all add: wrote_def frame_simps)

lemma wrote_open [frame_simps]: "fs_open (bm_disk (wrote f s)) = fs_open (bm_disk s)"
  using write_opened [of "frame_of f s" "bm_disk s"]
  by (cases "PosixDiskManager_Write (frame_of f s) (bm_disk s)") (auto simp: wrote_def)

lemma cleaned_fields [frame_simps]:
  "bm_lru (cleaned f s) = bm_lru s" "bm_free (cleaned f s) = bm_free s" "bm_pages (cleaned f s) = bm_pages s"
  "bm_next_id (cleaned f s) = bm_next_id s" "length (bm_frames (cleaned f s)) = length (bm_frames s)"
  "fs_open (bm_disk (cleaned f s)) = fs_open (bm_disk s)"
  by (simp_all add: cleaned_def frame_simps)

lemma frame_of_cleaned [frame_simps]:
  "f < length (bm_frames s) \<Longrightarrow>
   frame_of g (cleaned f s) = (if g = f then (frame_of f s)\<lparr>pg_dirty := False\<rparr> else frame_of g s)"
  by (simp add: cleaned_def frame_simps)

text \<open>Cleaning the frame of a mapped page stores its bytes and keeps every other stored page.\<close>

lemma stored_wrote_same:
  assumes "fs_open (bm_disk s)" "addressable (pg_id (frame_of f s))" "length (pg_data (frame_of f s)) = PAGE_SIZE"
  shows "stored (bm_disk (wrote f s)) (pg_id (frame_of f s)) = Some (pg_data (frame_of f s))"
    "ready (bm_disk (wrote f s))"
  using posix.wr_same [OF assms] posix.wr_serving [OF assms] unfolding wrote_def by (auto simp: prod_eq_iff)

lemma stored_wrote_other:
  assumes "fs_open (bm_disk s)" "addressable (pg_id (frame_of f s))" "length (pg_data (frame_of f s)) = PAGE_SIZE"
    and "q \<noteq> pg_id (frame_of f s)" "stored (bm_disk s) q = Some bs"
  shows "stored (bm_disk (wrote f s)) q = Some bs"
  using posix.wr_other [OF assms(1-3) _ assms(4,5)] unfolding wrote_def by (auto simp: prod_eq_iff)

lemma BM_Flush_run [comp_simps]:
  "fs_open (bm_disk s) \<Longrightarrow> bm_pages s pid = Some f \<Longrightarrow> BM_Flush pid s = (Inr (), cleaned f s)"
  by (simp add: BM_Flush_def comp_simps cleaned_def frame_simps)

lemma BM_Flush_unmapped [comp_simps]: "bm_pages s pid = None \<Longrightarrow>
    BM_Flush pid s = (Inl (RuntimeError ''BufferManager::Flush: Page not found''), s)"
  by (simp add: BM_Flush_def comp_simps)

definition released :: "page_id_t \<Rightarrow> frame_id \<Rightarrow> BufferManager \<Rightarrow> BufferManager" where
  "released pid f s =
     (let s1 = cleaned f (s\<lparr>bm_lru := LRU_UnPin f (bm_lru s)\<rparr>)
      in if pin_count (bm_lru s) f = 1
         then s1\<lparr>bm_free := f # bm_free s, bm_pages := (bm_pages s)(pid := None)\<rparr> else s1)"

lemma BM_Release_run [comp_simps]:
  "fs_open (bm_disk s) \<Longrightarrow> bm_pages s pid = Some f \<Longrightarrow> BM_Release pid s = (Inr (), released pid f s)"
  by (simp add: BM_Release_def comp_simps cleaned_def frame_simps released_def LRU_GetPinCount_def)

lemma BM_Release_unmapped [comp_simps]: "bm_pages s pid = None \<Longrightarrow>
    BM_Release pid s = (Inl (RuntimeError ''BufferManager::Release: Page not found''), s)"
  by (simp add: BM_Release_def comp_simps)

text \<open>Taking the last free frame for a new page, and for a page that is read from the file.\<close>

definition allocated :: "frame_id \<Rightarrow> BufferManager \<Rightarrow> BufferManager" where
  "allocated f s = map_page (bm_next_id s) f
     (on_frame f (\<lambda>p. p\<lparr>pg_data := replicate PAGE_SIZE 0, pg_id := bm_next_id s, pg_dirty := False\<rparr>)
       (pin_frame f (s\<lparr>bm_free := butlast (bm_free s), bm_next_id := bm_next_id s + 1\<rparr>)))"

definition loaded :: "page_id_t \<Rightarrow> frame_id \<Rightarrow> BufferManager \<Rightarrow> BufferManager" where
  "loaded pid f s =
     (case PosixDiskManager_Read pid (frame_of f s) (bm_disk s) of
        (Inl e, d) \<Rightarrow> s
      | (Inr p, d) \<Rightarrow> map_page pid f (pin_frame f
          (set_frame f (p\<lparr>pg_id := pid\<rparr>) (s\<lparr>bm_disk := d, bm_free := butlast (bm_free s)\<rparr>))))"

lemma write_if_dirty_clean [comp_simps]: "\<not> pg_dirty (frame_of f s) \<Longrightarrow> write_if_dirty f s = (Inr (), s)"
  by (simp add: write_if_dirty_def comp_simps)

lemma frames_NewPage_run:
  assumes "frames_inv s" "bm_free s \<noteq> []"
  shows "BM_NewPage s = (Inr (last (bm_free s)), allocated (last (bm_free s)) s)"
proof -
  have f: "last (bm_free s) < length (bm_frames s)" "\<not> pg_dirty (frame_of (last (bm_free s)) s)"
    using frames_last_free [OF assms] frames_invD(3) [OF assms(1)] by auto
  show ?thesis
    using assms(2) f
    by (simp add: BM_NewPage_def comp_simps frame_simps GetNextPageId_def allocated_def Let_def)
      (rule BufferManager.equality;
       simp add: Page_Reset_def on_frame_def set_frame_def frame_of_def pin_frame_def map_page_def)
qed

lemma frames_FetchPage_mapped:
  assumes "frames_inv s" "bm_pages s pid = Some f"
  shows "BM_FetchPage pid s = (Inr f, pin_frame f s)"
proof -
  have "on_frame f (\<lambda>p. p\<lparr>pg_id := pid\<rparr>) (pin_frame f s) = pin_frame f s"
    using frames_invD(3,7) [OF assms(1)] assms(2)
    by (intro BufferManager.equality; auto simp: on_frame_def set_frame_def frame_of_def pin_frame_def list_update_same_conv)
  then show ?thesis using assms(2) by (simp add: BM_FetchPage_def comp_simps)
qed

lemma frames_FetchPage_load:
  assumes "frames_inv s" "bm_pages s pid = None" "bm_free s \<noteq> []"
  shows "BM_FetchPage pid s = (Inr (last (bm_free s)), loaded pid (last (bm_free s)) s)"
proof -
  let ?f = "last (bm_free s)"
  have f: "?f < length (bm_frames s)" "\<not> pg_dirty (frame_of ?f s)"
    using frames_last_free [OF assms(1,3)] frames_invD(3) [OF assms(1)] by auto
  obtain q d where r: "PosixDiskManager_Read pid (frame_of ?f s) (bm_disk s) = (Inr q, d)"
    using read_total frames_invD(1) [OF assms(1)] by blast
  show ?thesis
    using assms(2,3) f r
    by (simp add: BM_FetchPage_def comp_simps frame_simps disk_read_def loaded_def Let_def)
      (rule BufferManager.equality; simp add: on_frame_def set_frame_def frame_of_def pin_frame_def map_page_def)
qed

lemma frames_no_candidates: "frames_inv s \<Longrightarrow> bm_free s = [] \<Longrightarrow> lru_list (bm_lru s) = []"
  using frames_invD(8) by fastforce

lemma evict_frame_throws [comp_simps]: "lru_list (bm_lru s) = [] \<Longrightarrow>
    evict_frame s = (Inl (RuntimeError ''LRU manager is empty''), s)"
  by (simp add: evict_frame_def comp_simps LRU_Evict_def)

lemma frames_full:
  assumes "frames_inv s" "bm_free s = []"
  shows "BM_NewPage s = (Inl (RuntimeError ''LRU manager is empty''), s)"
    "bm_pages s pid = None \<Longrightarrow> BM_FetchPage pid s = (Inl (RuntimeError ''LRU manager is empty''), s)"
  using assms by (simp_all add: BM_NewPage_def BM_FetchPage_def comp_simps frames_no_candidates)

lemmas last_free = frames_last_free [OF bm_frames_inv]
lemmas BM_NewPage_run [comp_simps] = frames_NewPage_run [OF bm_frames_inv]
lemmas BM_FetchPage_mapped [comp_simps] = frames_FetchPage_mapped [OF bm_frames_inv]
lemmas BM_FetchPage_load [comp_simps] = frames_FetchPage_load [OF bm_frames_inv]
lemmas no_free_no_candidates = frames_no_candidates [OF bm_frames_inv]
lemmas BM_NewPage_full [comp_simps] = frames_full(1) [OF bm_frames_inv]
lemmas BM_FetchPage_full [comp_simps] = frames_full(2) [OF bm_frames_inv]

section \<open>The invariant is kept\<close>

lemma frames_free_butlast:
  assumes "xs \<noteq> []" "distinct xs"
  shows "set (butlast xs) = set xs - {last xs}"
proof -
  have "xs = butlast xs @ [last xs]" using assms(1) by simp
  then have "set xs = insert (last xs) (set (butlast xs)) \<and> last xs \<notin> set (butlast xs)"
    using assms(2) by (metis distinct_append distinct_butlast insert_is_Un inf_commute
        list.set(1) list.set(2) set_append sup_commute disjoint_insert(1))
  then show ?thesis by blast
qed

lemma set_lru_Pin: "lru_inv l \<Longrightarrow> set (lru_list (LRU_Pin f l)) = set (lru_list l) - {f}"
  by (simp add: lru.cands_pin)

lemma set_lru_UnPin: "lru_inv l \<Longrightarrow>
    set (lru_list (LRU_UnPin f l)) = (if pin_count l f = 1 then insert f (set (lru_list l)) else set (lru_list l))"
  by (simp add: lru.cands_unpin)

lemma set_lru_Touch: "lru_inv l \<Longrightarrow> set (lru_list (LRU_Touch f l)) = set (lru_list l)"
  by (auto simp: lru.cands_touch)

lemma ran_map_upd_new: "m p = None \<Longrightarrow> ran (m(p \<mapsto> f)) = insert f (ran m)"
  by (rule ran_map_upd)

lemma bm_inv_take_free:
  assumes inv: "bm_inv s" and free: "bm_free s \<noteq> []" and f: "f = last (bm_free s)"
    and new: "bm_pages s pid = None" and addr: "addressable pid"
    and disk: "fs_open (bm_disk t)" and frames: "length (bm_frames t) = BUFFER_MAX_PAGE"
    and same: "\<And>g. g \<noteq> f \<Longrightarrow> frame_of g t = frame_of g s"
    and ff: "pg_id (frame_of f t) = pid" "length (pg_data (frame_of f t)) = PAGE_SIZE"
    and lru: "bm_lru t = LRU_Pin f (bm_lru s)" and fr: "bm_free t = butlast (bm_free s)"
    and pages: "bm_pages t = (bm_pages s)(pid \<mapsto> f)"
  shows "bm_inv t"
proof -
  note d = bm_invD [OF inv] and fl = last_free [OF inv free, folded f]
  have fset: "set (bm_free t) = set (bm_free s) - {f}"
    using d(5) free by (simp add: fr f frames_free_butlast)
  have mapped: "g < BUFFER_MAX_PAGE \<and> 0 < pin_count (bm_lru t) g \<and> pg_id (frame_of g t) = p \<and> addressable p"
    if "bm_pages t p = Some g" for p g
  proof (cases "p = pid")
    case False
    then have m: "bm_pages s p = Some g" using that pages by simp
    then have "g \<noteq> f" using fl(4) by (auto simp: ran_def)
    then show ?thesis using d(8) [OF m] same lru by simp
  qed (use that pages ff fl addr lru in auto)
  have "distinct (bm_free t)" using d(5) by (simp add: fr distinct_butlast)
  moreover have "length (pg_data (frame_of g t)) = PAGE_SIZE" if "g < BUFFER_MAX_PAGE" for g
    using that d(4) ff(2) same by (cases "g = f") auto
  moreover have "g \<in> set (bm_free t) \<or> g \<in> ran (bm_pages t)" if "g < BUFFER_MAX_PAGE" for g
    using d(6) [OF that] new by (auto simp: fset pages ran_map_upd_new)
  moreover have "g < BUFFER_MAX_PAGE \<and> pin_count (bm_lru t) g = 0 \<and> \<not> pg_dirty (frame_of g t)"
    if "g \<in> set (bm_free t)" for g
    using that d(7) [of g] same [of g] lru by (auto simp: fset)
  moreover have "set (lru_list (bm_lru t)) \<subseteq> set (bm_free t)"
    using d(9) by (auto simp: lru set_lru_Pin [OF d(2)] fset)
  moreover have "lru_inv (bm_lru t)" using d(2) by (simp add: lru lru_inv_Pin)
  ultimately show ?thesis
    unfolding bm_inv_def using disk frames mapped by blast
qed

lemma bm_inv_allocated:
  assumes "bm_inv s" "bm_free s \<noteq> []" "bm_pages s (bm_next_id s) = None" "addressable (bm_next_id s)"
  shows "bm_inv (allocated (last (bm_free s)) s)"
  using assms last_free(1) [OF assms(1,2)] bm_invD(1,3) [OF assms(1)]
  by (intro bm_inv_take_free [OF assms(1,2) refl assms(3,4)])
    (auto simp: allocated_def frame_simps)

lemma bm_inv_loaded:
  assumes "bm_inv s" "bm_free s \<noteq> []" "bm_pages s pid = None" "addressable pid"
  shows "bm_inv (loaded pid (last (bm_free s)) s)"
proof -
  let ?f = "last (bm_free s)"
  obtain q d where r: "PosixDiskManager_Read pid (frame_of ?f s) (bm_disk s) = (Inr q, d)" "fs_open d"
    using read_total bm_invD(1) [OF assms(1)] by blast
  show ?thesis
    using assms last_free(1) [OF assms(1,2)] bm_invD(3) [OF assms(1)] bm_invD(4) [OF assms(1), of ?f]
      r read_page_fields [OF r(1)]
    by (intro bm_inv_take_free [OF assms(1,2) refl assms(3,4)]) (auto simp: loaded_def frame_simps)
qed

lemma bm_inv_pin_mapped:
  assumes "bm_inv s" "bm_pages s pid = Some f"
  shows "bm_inv (pin_frame f s)"
proof -
  note d = bm_invD [OF assms(1)]
  have "0 < pin_count (LRU_Pin f (bm_lru s)) g" if "bm_pages s p = Some g" for p g
    using d(8) [OF that] by auto
  moreover have "pin_count (LRU_Pin f (bm_lru s)) g = 0" if "g \<in> set (bm_free s)" for g
    using d(7) [OF that] mapped_not_free [OF assms] that by auto
  ultimately show ?thesis
    using assms(1) unfolding bm_inv_def
    by (simp add: frame_simps lru_inv_Pin set_lru_Pin del: pin_count_Pin) blast
qed

lemma bm_inv_touch: "bm_inv s \<Longrightarrow> bm_inv (s\<lparr>bm_lru := LRU_Touch f (bm_lru s)\<rparr>)"
  unfolding bm_inv_def by (auto simp: frame_simps lru_inv_Touch set_lru_Touch)

lemma bm_inv_cleaned: "bm_inv s \<Longrightarrow> f < BUFFER_MAX_PAGE \<Longrightarrow> bm_inv (cleaned f s)"
  unfolding bm_inv_def by (auto simp: frame_simps)

lemma bm_inv_client_write:
  "bm_inv s \<Longrightarrow> bm_pages s pid = Some f \<Longrightarrow> length bs = PAGE_SIZE \<Longrightarrow> bm_inv (client_write f bs s)"
  using mapped_not_free [of s pid f] bm_invD(8) [of s pid f]
  unfolding bm_inv_def client_write_def by (auto simp: frame_simps)

lemma bm_inv_released:
  assumes "bm_inv s" "bm_pages s pid = Some f"
  shows "bm_inv (released pid f s)"
proof -
  note d = bm_invD [OF assms(1)] and m = bm_invD(8) [OF assms]
  have f: "f < length (bm_frames s)" using m d(3) by simp
  note fs = frame_simps lru_inv_UnPin [OF d(2)] set_lru_UnPin [OF d(2)] m f
  show ?thesis
  proof (cases "pin_count (bm_lru s) f = 1")
    case True
    have "g \<noteq> f" if "bm_pages s p = Some g" "p \<noteq> pid" for p g
      using mapped_inj [OF assms(1) that(1)] assms(2) that(2) by blast
    then show ?thesis
      using True mapped_not_free [OF assms] d ran_unmap [OF assms]
      unfolding bm_inv_def released_def Let_def
      by (auto simp: fs)
  next
    case False
    then have "1 < pin_count (bm_lru s) f" using m by linarith
    moreover have "g \<noteq> f" if "g \<in> set (bm_free s)" for g
      using mapped_not_free [OF assms] that by blast
    moreover have "p = pid" if "bm_pages s p = Some f" for p
      using mapped_inj [OF assms(1) that assms(2)] .
    ultimately show ?thesis
      using False d unfolding bm_inv_def released_def Let_def by (auto simp: fs)
  qed
qed

section \<open>The contents of pages are kept\<close>

lemma page_content_mapped: "bm_pages s pid = Some f \<Longrightarrow> page_content s pid = Some (pg_data (frame_of f s))"
  by (simp add: page_content_def)

lemma stored_cleaned:
  assumes "bm_inv s" "bm_pages s pid = Some f" "stored (bm_disk s) q = Some bs" "q \<noteq> pid"
  shows "stored (bm_disk (cleaned f s)) q = Some bs"
  using stored_wrote_other [of s f q bs] bm_invD(1,4,8) [OF assms(1)] assms(2-)
  by (auto simp: cleaned_def frame_simps)

lemma stored_cleaned_self:
  assumes "bm_inv s" "bm_pages s pid = Some f" "backed s pid"
  shows "stored (bm_disk (cleaned f s)) pid = Some (pg_data (frame_of f s))"
  using stored_wrote_same(1) [of s f] bm_invD(1,4,8) [OF assms(1)] assms(2-)
  by (auto simp: cleaned_def frame_simps backed_def)

lemma page_content_cleaned:
  assumes "bm_inv s" "bm_pages s pid = Some f" "page_content s q = Some bs"
  shows "page_content (cleaned f s) q = Some bs"
proof (cases "bm_pages s q")
  case None
  then have "q \<noteq> pid" using assms(2) by auto
  with None show ?thesis
    using stored_cleaned [OF assms(1,2)] assms(3) by (simp add: page_content_def frame_simps)
next
  case (Some g)
  then show ?thesis
    using assms bm_invD(3,8) [OF assms(1)] by (auto simp: page_content_def frame_simps)
qed

lemma released_pages: "bm_pages (released pid f s) =
    (if pin_count (bm_lru s) f = 1 then (bm_pages s)(pid := None) else bm_pages s)"
  by (simp add: released_def Let_def frame_simps)

lemma released_disk: "bm_disk (released pid f s) = bm_disk (cleaned f s)"
  by (simp add: released_def Let_def cleaned_def wrote_def frame_simps)

lemma released_frame:
  "f < length (bm_frames s) \<Longrightarrow> pg_data (frame_of g (released pid f s)) = pg_data (frame_of g s)"
  by (simp add: released_def Let_def frame_simps)

lemma page_content_released_exact:
  assumes inv: "bm_inv s" and m: "bm_pages s pid = Some f" and c: "page_content s q = Some bs"
  shows "page_content (released pid f s) q =
    (if q = pid \<and> \<not> backed s pid \<and> pin_count (bm_lru s) f = 1 then stored (bm_disk s) pid else Some bs)"
proof (cases "bm_pages (released pid f s) q")
  case None
  show ?thesis
  proof (cases "q = pid")
    case True
    then have one: "pin_count (bm_lru s) f = 1" using None m by (auto simp: released_pages split: if_splits)
    have "cleaned f s = s" if "\<not> backed s pid" using that m by (simp add: backed_def cleaned_def)
    then show ?thesis
      using True None one stored_cleaned_self [OF inv m] c m by (auto simp: page_content_def released_disk)
  next
    case False
    then have "bm_pages s q = None" using None by (auto simp: released_pages split: if_splits)
    then show ?thesis
      using None False stored_cleaned [OF inv m] c by (simp add: page_content_def released_disk)
  qed
next
  case (Some g)
  then have "bm_pages s q = Some g" "q = pid \<longrightarrow> pin_count (bm_lru s) f \<noteq> 1" by (auto simp: released_pages split: if_splits)
  then show ?thesis
    using Some c bm_invD(3,8) [OF inv] m by (auto simp: page_content_def released_frame)
qed

lemma page_content_released:
  assumes "bm_inv s" "bm_pages s pid = Some f" "backed s pid" "page_content s q = Some bs"
  shows "page_content (released pid f s) q = Some bs"
  using page_content_released_exact [OF assms(1,2,4)] assms(3) by simp

lemma loaded_ready:
  assumes "bm_inv s" "bm_free s \<noteq> []" "bm_pages s pid = None" "addressable pid"
    and "ready (bm_disk s)" "stored (bm_disk s) pid = Some bs"
  shows "loaded pid (last (bm_free s)) s = map_page pid (last (bm_free s)) (pin_frame (last (bm_free s))
    (set_frame (last (bm_free s)) ((frame_of (last (bm_free s)) s)\<lparr>pg_data := bs, pg_id := pid\<rparr>)
      (s\<lparr>bm_free := butlast (bm_free s)\<rparr>)))"
proof -
  have "PosixDiskManager_Read pid (frame_of (last (bm_free s)) s) (bm_disk s) =
    (Inr ((frame_of (last (bm_free s)) s)\<lparr>pg_data := bs\<rparr>), bm_disk s)"
    using assms bm_invD(4) [OF assms(1)] last_free(1) [OF assms(1,2)] by (intro posix.rd_stored) auto
  then show ?thesis by (simp add: loaded_def)
qed

lemma page_content_fetched:
  assumes inv: "bm_inv s" and addr: "addressable pid" and rdy: "ready (bm_disk s)"
    and c: "page_content s pid = Some bs" and run: "BM_FetchPage pid s = (Inr f, t)"
  shows "pg_data (frame_of f t) = bs \<and> bm_pages t pid = Some f \<and>
    (\<forall>q cs. page_content s q = Some cs \<longrightarrow> page_content t q = Some cs)"
proof (cases "bm_pages s pid")
  case None
  have free: "bm_free s \<noteq> []" using run BM_FetchPage_full [OF inv _ None] by auto
  let ?f = "last (bm_free s)"
  have st: "stored (bm_disk s) pid = Some bs" using c None by (simp add: page_content_def)
  have t: "f = ?f" "t = loaded pid ?f s" using run BM_FetchPage_load [OF inv None free] by auto
  have lf: "?f < length (bm_frames s)" using last_free(1) [OF inv free] bm_invD(3) [OF inv] by simp
  have "g \<noteq> ?f" if "bm_pages s q = Some g" for q g
    using last_free(4) [OF inv free] that by (auto simp: ran_def)
  then show ?thesis
    using lf st None unfolding t loaded_ready [OF inv free None addr rdy st]
    by (auto simp: frame_simps page_content_def split: option.splits)
next
  case (Some g)
  then have "f = g" "t = pin_frame g s" using run BM_FetchPage_mapped [OF inv Some] by auto
  then show ?thesis using Some c by (auto simp: page_content_def frame_simps split: option.splits)
qed

lemma page_content_allocated:
  assumes inv: "bm_inv s" and free: "bm_free s \<noteq> []" and new: "bm_pages s (bm_next_id s) = None"
    and c: "page_content s q = Some bs" and "q \<noteq> bm_next_id s"
  shows "page_content (allocated (last (bm_free s)) s) q = Some bs"
proof -
  have "g \<noteq> last (bm_free s)" if "bm_pages s q = Some g" for q g
    using last_free(4) [OF inv free] that by (auto simp: ran_def)
  then show ?thesis
    using assms last_free(1) [OF inv free] bm_invD(3) [OF inv]
    by (auto simp: allocated_def page_content_def frame_simps split: option.splits)
qed

section \<open>Runs of the pool\<close>

text \<open>
  The calls that are made on the pool, and the writes of clients to frames that are pinned.  Nothing is asked of the page ids:
  the counter may hand out the id of a page in the pool, and any id may be fetched.
\<close>

datatype pool_call = Call_New | Call_Fetch page_id_t | Call_Release page_id_t | Call_Flush page_id_t
  | Call_Touch page_id_t | Call_Write frame_id bytes

fun pool_do :: "pool_call \<Rightarrow> BufferManager \<Rightarrow> BufferManager" where
  "pool_do Call_New s = snd (BM_NewPage s)"
| "pool_do (Call_Fetch pid) s = snd (BM_FetchPage pid s)"
| "pool_do (Call_Release pid) s = snd (BM_Release pid s)"
| "pool_do (Call_Flush pid) s = snd (BM_Flush pid s)"
| "pool_do (Call_Touch pid) s = snd (BM_TouchPage pid s)"
| "pool_do (Call_Write f bs) s =
     (if f < BUFFER_MAX_PAGE \<and> 0 < pin_count (bm_lru s) f then client_write f bs s else s)"

fun pool_run :: "pool_call list \<Rightarrow> BufferManager \<Rightarrow> BufferManager" where
  "pool_run [] s = s"
| "pool_run (c # cs) s = pool_run cs (pool_do c s)"

lemma pool_run_append: "pool_run (cs @ ds) s = pool_run ds (pool_run cs s)"
  by (induction cs s rule: pool_run.induct) simp_all

lemma BM_TouchPage_run [comp_simps]: "BM_TouchPage pid s = (case bm_pages s pid of
    None \<Rightarrow> (Inl (RuntimeError ''BufferManager::TouchPage: Page not found''), s)
  | Some f \<Rightarrow> (Inr (), s\<lparr>bm_lru := LRU_Touch f (bm_lru s)\<rparr>))"
  by (simp add: BM_TouchPage_def comp_simps split: option.splits)

lemma bm_inv_NewPage: "bm_inv s \<Longrightarrow> bm_pages s (bm_next_id s) = None \<Longrightarrow> addressable (bm_next_id s) \<Longrightarrow>
    BM_NewPage s = (r, t) \<Longrightarrow> bm_inv t"
  by (cases "bm_free s = []") (auto simp: comp_simps bm_inv_allocated)

lemma bm_inv_FetchPage: "bm_inv s \<Longrightarrow> addressable pid \<Longrightarrow> BM_FetchPage pid s = (r, t) \<Longrightarrow> bm_inv t"
  by (cases "bm_free s = []"; cases "bm_pages s pid")
    (auto simp: comp_simps bm_inv_loaded bm_inv_pin_mapped)

lemma bm_inv_Release: "bm_inv s \<Longrightarrow> BM_Release pid s = (r, t) \<Longrightarrow> bm_inv t"
  by (cases "bm_pages s pid") (auto simp: comp_simps bm_inv_released bm_invD(1))

lemma bm_inv_Flush: "bm_inv s \<Longrightarrow> BM_Flush pid s = (r, t) \<Longrightarrow> bm_inv t"
  using bm_invD(8) [of s pid]
  by (cases "bm_pages s pid") (auto simp: comp_simps bm_invD(1) intro: bm_inv_cleaned)

lemma bm_inv_TouchPage: "bm_inv s \<Longrightarrow> BM_TouchPage pid s = (r, t) \<Longrightarrow> bm_inv t"
  by (auto simp: comp_simps bm_inv_touch split: option.splits)

section \<open>Frames, whatever ids are used\<close>

text \<open>Taking the last free frame, for any id, mapped or not.\<close>

lemma frames_take_free:
  assumes inv: "frames_inv s" and free: "bm_free s \<noteq> []" and f: "f = last (bm_free s)"
    and disk: "fs_open (bm_disk t)" and frames: "length (bm_frames t) = BUFFER_MAX_PAGE"
    and same: "\<And>g. g \<noteq> f \<Longrightarrow> frame_of g t = frame_of g s" and id: "pg_id (frame_of f t) = pid"
    and lru: "bm_lru t = LRU_Pin f (bm_lru s)" and fr: "bm_free t = butlast (bm_free s)"
    and pages: "bm_pages t = (bm_pages s)(pid \<mapsto> f)"
  shows "frames_inv t"
proof -
  note d = frames_invD [OF inv] and fl = frames_last_free [OF inv free, folded f]
  have fset: "set (bm_free t) = set (bm_free s) - {f}"
    using d(4) free by (simp add: fr f frames_free_butlast)
  have mapped: "g < BUFFER_MAX_PAGE \<and> 0 < pin_count (bm_lru t) g \<and> pg_id (frame_of g t) = p"
    if "bm_pages t p = Some g" for p g
  proof (cases "p = pid")
    case False
    then have m: "bm_pages s p = Some g" using that pages by simp
    then have "g \<noteq> f" using fl(4) by (auto simp: ran_def)
    then show ?thesis using d(7) [OF m] same lru by simp
  qed (use that pages id fl lru in auto)
  have "distinct (bm_free t)" using d(4) by (simp add: fr distinct_butlast)
  moreover have "g \<in> set (bm_free t) \<or> 0 < pin_count (bm_lru t) g" if "g < BUFFER_MAX_PAGE" for g
    using d(6) [OF that] fl(3) by (auto simp: fset lru)
  moreover have "g < BUFFER_MAX_PAGE \<and> pin_count (bm_lru t) g = 0 \<and> \<not> pg_dirty (frame_of g t)"
    if "g \<in> set (bm_free t)" for g
    using that d(5) [of g] same [of g] lru by (auto simp: fset)
  moreover have "set (lru_list (bm_lru t)) \<subseteq> set (bm_free t)"
    using d(8) by (auto simp: lru set_lru_Pin [OF d(2)] fset)
  moreover have "lru_inv (bm_lru t)" using d(2) by (simp add: lru lru_inv_Pin)
  ultimately show ?thesis
    unfolding frames_inv_def using disk frames mapped by blast
qed

lemma loaded_fields:
  assumes "frames_inv s" "bm_free s \<noteq> []"
  shows "bm_lru (loaded pid (last (bm_free s)) s) = LRU_Pin (last (bm_free s)) (bm_lru s)"
    "bm_free (loaded pid (last (bm_free s)) s) = butlast (bm_free s)"
    "bm_pages (loaded pid (last (bm_free s)) s) = (bm_pages s)(pid \<mapsto> last (bm_free s))"
    "bm_next_id (loaded pid (last (bm_free s)) s) = bm_next_id s"
    "frames_inv (loaded pid (last (bm_free s)) s)"
proof -
  let ?f = "last (bm_free s)" and ?t = "loaded pid (last (bm_free s)) s"
  obtain q d where r: "PosixDiskManager_Read pid (frame_of ?f s) (bm_disk s) = (Inr q, d)" "fs_open d"
    using read_total frames_invD(1) [OF assms(1)] by blast
  show f: "bm_lru ?t = LRU_Pin ?f (bm_lru s)" "bm_free ?t = butlast (bm_free s)" "bm_pages ?t = (bm_pages s)(pid \<mapsto> ?f)"
    "bm_next_id ?t = bm_next_id s"
    using r by (simp_all add: loaded_def frame_simps)
  show "frames_inv ?t"
    using assms frames_last_free(1) [OF assms] frames_invD(3) [OF assms(1)] r read_page_fields [OF r(1)]
    by (intro frames_take_free [OF assms refl _ _ _ _ f(1-3)]) (auto simp: loaded_def frame_simps)
qed

lemma allocated_fields:
  assumes "frames_inv s" "bm_free s \<noteq> []"
  shows "bm_lru (allocated (last (bm_free s)) s) = LRU_Pin (last (bm_free s)) (bm_lru s)"
    "bm_free (allocated (last (bm_free s)) s) = butlast (bm_free s)"
    "bm_pages (allocated (last (bm_free s)) s) = (bm_pages s)(bm_next_id s \<mapsto> last (bm_free s))"
    "bm_next_id (allocated (last (bm_free s)) s) = bm_next_id s + 1"
    "frames_inv (allocated (last (bm_free s)) s)"
proof -
  let ?f = "last (bm_free s)" and ?t = "allocated (last (bm_free s)) s"
  show f: "bm_lru ?t = LRU_Pin ?f (bm_lru s)" "bm_free ?t = butlast (bm_free s)"
    "bm_pages ?t = (bm_pages s)(bm_next_id s \<mapsto> ?f)" "bm_next_id ?t = bm_next_id s + 1"
    by (simp_all add: allocated_def frame_simps)
  show "frames_inv ?t"
    using assms frames_last_free(1) [OF assms] frames_invD(1,3) [OF assms(1)]
    by (intro frames_take_free [OF assms refl _ _ _ _ f(1-3)]) (auto simp: allocated_def frame_simps)
qed

lemma frames_inv_pin_mapped:
  assumes "frames_inv s" "bm_pages s pid = Some f"
  shows "frames_inv (pin_frame f s)"
proof -
  note d = frames_invD [OF assms(1)]
  have "0 < pin_count (LRU_Pin f (bm_lru s)) g" if "bm_pages s p = Some g" for p g
    using d(7) [OF that] by auto
  moreover have "pin_count (LRU_Pin f (bm_lru s)) g = 0" if "g \<in> set (bm_free s)" for g
    using d(5) [OF that] frames_mapped_not_free [OF assms] that by auto
  moreover have "g \<in> set (bm_free s) \<or> 0 < pin_count (LRU_Pin f (bm_lru s)) g" if "g < BUFFER_MAX_PAGE" for g
    using d(6) [OF that] by auto
  ultimately show ?thesis
    using assms(1) unfolding frames_inv_def
    by (simp add: frame_simps lru_inv_Pin set_lru_Pin del: pin_count_Pin) blast
qed

lemma frames_inv_cleaned: "frames_inv s \<Longrightarrow> f < BUFFER_MAX_PAGE \<Longrightarrow> frames_inv (cleaned f s)"
  unfolding frames_inv_def by (auto simp: frame_simps)

lemma frames_inv_released:
  assumes "frames_inv s" "bm_pages s pid = Some f"
  shows "frames_inv (released pid f s)"
proof -
  note d = frames_invD [OF assms(1)] and m = frames_invD(7) [OF assms]
  have f: "f < length (bm_frames s)" using m d(3) by simp
  note fs = frame_simps lru_inv_UnPin [OF d(2)] set_lru_UnPin [OF d(2)] m f
  show ?thesis
  proof (cases "pin_count (bm_lru s) f = 1")
    case True
    have "g \<noteq> f" if "bm_pages s p = Some g" "p \<noteq> pid" for p g
      using frames_mapped_inj [OF assms(1) that(1)] assms(2) that(2) by blast
    then show ?thesis
      using True frames_mapped_not_free [OF assms] d
      unfolding frames_inv_def released_def Let_def
      by (auto simp: fs)
  next
    case False
    then have "1 < pin_count (bm_lru s) f" using m by linarith
    moreover have "g \<noteq> f" if "g \<in> set (bm_free s)" for g
      using frames_mapped_not_free [OF assms] that by blast
    moreover have "p = pid" if "bm_pages s p = Some f" for p
      using frames_mapped_inj [OF assms(1) that assms(2)] .
    ultimately show ?thesis
      using False d unfolding frames_inv_def released_def Let_def by (auto simp: fs)
  qed
qed

lemma frames_inv_touch: "frames_inv s \<Longrightarrow> frames_inv (s\<lparr>bm_lru := LRU_Touch f (bm_lru s)\<rparr>)"
  unfolding frames_inv_def by (auto simp: frame_simps lru_inv_Touch set_lru_Touch)

lemma frames_inv_client_write:
  "frames_inv s \<Longrightarrow> f < BUFFER_MAX_PAGE \<Longrightarrow> 0 < pin_count (bm_lru s) f \<Longrightarrow> frames_inv (client_write f bs s)"
  unfolding frames_inv_def client_write_def by (auto simp: frame_simps)

text \<open>The state after a call: every call makes at most one call on the replacement policy.\<close>

inductive pool_effect :: "BufferManager \<Rightarrow> pool_call \<Rightarrow> BufferManager \<Rightarrow> bool" where
  eff_new: "bm_free s \<noteq> [] \<Longrightarrow> pool_effect s Call_New (allocated (last (bm_free s)) s)"
| eff_pin: "bm_pages s pid = Some f \<Longrightarrow> pool_effect s (Call_Fetch pid) (pin_frame f s)"
| eff_load: "bm_pages s pid = None \<Longrightarrow> bm_free s \<noteq> [] \<Longrightarrow> pool_effect s (Call_Fetch pid) (loaded pid (last (bm_free s)) s)"
| eff_release: "bm_pages s pid = Some f \<Longrightarrow> pool_effect s (Call_Release pid) (released pid f s)"
| eff_flush: "bm_pages s pid = Some f \<Longrightarrow> pool_effect s (Call_Flush pid) (cleaned f s)"
| eff_touch: "bm_pages s pid = Some f \<Longrightarrow> pool_effect s (Call_Touch pid) (s\<lparr>bm_lru := LRU_Touch f (bm_lru s)\<rparr>)"
| eff_write: "f < BUFFER_MAX_PAGE \<Longrightarrow> 0 < pin_count (bm_lru s) f \<Longrightarrow> pool_effect s (Call_Write f bs) (client_write f bs s)"
| eff_none: "c = Call_New \<and> bm_free s = [] \<or> c \<noteq> Call_New \<Longrightarrow> pool_effect s c s"

lemma pool_do_effect: "frames_inv s \<Longrightarrow> pool_effect s c (pool_do c s)"
proof (cases c)
  case Call_New
  then show "frames_inv s \<Longrightarrow> ?thesis"
    by (cases "bm_free s = []") (auto simp: frames_NewPage_run frames_full intro: pool_effect.intros)
next
  case (Call_Fetch pid)
  then show "frames_inv s \<Longrightarrow> ?thesis"
    by (cases "bm_free s = []"; cases "bm_pages s pid")
      (auto simp: frames_FetchPage_mapped frames_FetchPage_load frames_full intro: pool_effect.intros)
next
  case (Call_Release pid)
  then show "frames_inv s \<Longrightarrow> ?thesis"
    by (cases "bm_pages s pid") (auto simp: comp_simps frames_invD(1) intro: pool_effect.intros)
next
  case (Call_Flush pid)
  then show "frames_inv s \<Longrightarrow> ?thesis"
    by (cases "bm_pages s pid") (auto simp: comp_simps frames_invD(1) intro: pool_effect.intros)
next
  case (Call_Touch pid)
  then show "frames_inv s \<Longrightarrow> ?thesis"
    by (cases "bm_pages s pid") (auto simp: comp_simps intro: pool_effect.intros)
qed (auto intro: pool_effect.intros)

lemma pool_effect_frames: "pool_effect s c t \<Longrightarrow> frames_inv s \<Longrightarrow> frames_inv t"
  by (induction rule: pool_effect.induct)
    (auto simp: allocated_fields(5) loaded_fields(5) frames_inv_pin_mapped frames_inv_released frames_inv_touch
      frames_inv_client_write intro: frames_inv_cleaned dest: frames_invD(7))

lemma pool_run_frames: "frames_inv s \<Longrightarrow> frames_inv (pool_run cs s)"
  by (induction cs s rule: pool_run.induct) (auto intro: pool_effect_frames pool_do_effect)

lemma released_lru: "bm_lru (released pid f s) = LRU_UnPin f (bm_lru s)"
  by (simp add: released_def Let_def frame_simps)

lemma pool_effect_lru:
  assumes "pool_effect s c t" "frames_inv s"
  shows "\<exists>xs. bm_lru t = lru_run xs (bm_lru s) \<and> length xs \<le> 1"
proof -
  have one: "bm_lru t = lru_run [x] l \<Longrightarrow> \<exists>xs. bm_lru t = lru_run xs l \<and> length xs \<le> 1" for x l
    by (rule exI [of _ "[x]"]) simp
  from assms show ?thesis
  proof (cases rule: pool_effect.cases)
    case eff_new
    then show ?thesis using assms(2) by (intro one [of "OpPin (last (bm_free s))"]) (simp add: allocated_fields(1))
  next
    case (eff_pin pid f)
    then show ?thesis by (intro one [of "OpPin f"]) (simp add: frame_simps)
  next
    case (eff_load pid)
    then show ?thesis using assms(2) by (intro one [of "OpPin (last (bm_free s))"]) (simp add: loaded_fields(1))
  next
    case (eff_release pid f)
    then show ?thesis by (intro one [of "OpUnPin f"]) (simp add: released_lru)
  next
    case (eff_touch pid f)
    then show ?thesis by (intro one [of "OpTouch f"]) simp
  qed (auto simp: frame_simps client_write_def intro!: exI [of _ "[]"])
qed

lemma lru_run_append: "lru_run (xs @ ys) l = lru_run ys (lru_run xs l)"
  by (induction xs l rule: lru_run.induct) simp_all

lemma pool_run_lru: "frames_inv s \<Longrightarrow> \<exists>xs. bm_lru (pool_run cs s) = lru_run xs (bm_lru s) \<and> length xs \<le> length cs"
proof (induction cs s rule: pool_run.induct)
  case (1 s)
  then show ?case by (intro exI [of _ "[]"]) simp
next
  case (2 c cs s)
  note e = pool_do_effect [OF 2(2), of c]
  obtain ys where ys: "bm_lru (pool_run cs (pool_do c s)) = lru_run ys (bm_lru (pool_do c s))" "length ys \<le> length cs"
    using 2(1) [OF pool_effect_frames [OF e 2(2)]] by blast
  obtain xs where "bm_lru (pool_do c s) = lru_run xs (bm_lru s)" "length xs \<le> 1"
    using pool_effect_lru [OF e 2(2)] by blast
  then show ?case using ys by (intro exI [of _ "xs @ ys"]) (simp add: lru_run_append)
qed

lemma pool_no_overflow:
  assumes "frames_inv s" "bm_lru s = LRU_new" "length cs < 2 ^ 31"
  shows "\<not> lru_overflow (bm_lru (pool_run cs s))"
proof -
  obtain xs where "bm_lru (pool_run cs s) = lru_run xs LRU_new" "length xs \<le> length cs"
    using pool_run_lru [OF assms(1), of cs] assms(2) by auto
  then show ?thesis using no_overflow [of xs] assms(3) by simp
qed

text \<open>
  A run is orderly when it fetches only ids that the counter has passed, and the counter does not start over.  A frame that is
  neither free nor found by its page is lost: no call finds it or frees it again.
\<close>

fun orderly :: "pool_call list \<Rightarrow> BufferManager \<Rightarrow> bool" where
  "orderly [] s = True"
| "orderly (Call_New # cs) s = (bm_next_id s \<noteq> - 1 \<and> orderly cs (pool_do Call_New s))"
| "orderly (Call_Fetch pid # cs) s = (pid < bm_next_id s \<and> orderly cs (pool_do (Call_Fetch pid) s))"
| "orderly (c # cs) s = orderly cs (pool_do c s)"

definition known_inv :: "BufferManager \<Rightarrow> bool" where
  "known_inv s \<longleftrightarrow> (\<forall>f<BUFFER_MAX_PAGE. f \<in> set (bm_free s) \<or> f \<in> ran (bm_pages s)) \<and>
     (\<forall>pid f. bm_pages s pid = Some f \<longrightarrow> pid < bm_next_id s)"

definition lost :: "BufferManager \<Rightarrow> frame_id \<Rightarrow> bool" where
  "lost s f \<longleftrightarrow> f < BUFFER_MAX_PAGE \<and> f \<notin> set (bm_free s) \<and> f \<notin> ran (bm_pages s)"

lemma next_id_less: "i \<noteq> - 1 \<Longrightarrow> i < (i :: page_id_t) + 1"
  using unatSuc [of i] by (simp add: word_less_nat_alt add.commute eq_neg_iff_add_eq_0)

lemma released_free: "bm_free (released pid f s) = (if pin_count (bm_lru s) f = 1 then f # bm_free s else bm_free s)"
  "bm_next_id (released pid f s) = bm_next_id s"
  by (simp_all add: released_def Let_def frame_simps)

lemma known_take:
  assumes inv: "frames_inv s" and k: "known_inv s" and free: "bm_free s \<noteq> []" and new: "bm_pages s pid = None"
    and t: "bm_free t = butlast (bm_free s)" "bm_pages t = (bm_pages s)(pid \<mapsto> last (bm_free s))"
    and id: "pid < bm_next_id t" "bm_next_id s \<le> bm_next_id t"
  shows "known_inv t"
proof -
  have "f \<in> set (bm_free t) \<or> f \<in> ran (bm_pages t)" if "f < BUFFER_MAX_PAGE" for f
    using k that frames_free_butlast [OF free frames_invD(4) [OF inv]] new
    unfolding known_inv_def by (auto simp: t ran_map_upd_new)
  moreover have "p < bm_next_id t" if "bm_pages t p = Some f" for p f
    using k that id unfolding known_inv_def by (auto simp: t split: if_splits dest: less_le_trans)
  ultimately show ?thesis unfolding known_inv_def by blast
qed

lemma pool_effect_known:
  assumes "pool_effect s c t" "frames_inv s" "known_inv s" "orderly [c] s"
  shows "known_inv t"
  using assms
proof (cases rule: pool_effect.cases)
  case eff_new
  have lt: "bm_next_id s < bm_next_id s + 1" using assms(4) eff_new by (intro next_id_less) simp
  have "bm_pages s (bm_next_id s) = None"
    using assms(3) unfolding known_inv_def by (cases "bm_pages s (bm_next_id s)") auto
  then show ?thesis
    using eff_new assms(2,3) lt by (intro known_take [OF assms(2,3), of "bm_next_id s"]) (auto simp: allocated_fields)
next
  case (eff_load pid)
  then show ?thesis
    using assms(2-4) by (intro known_take [OF assms(2,3), of pid]) (auto simp: loaded_fields)
next
  case (eff_release pid f)
  then show ?thesis
    using assms(3) frames_ran_unmap [OF assms(2)] unfolding known_inv_def
    by (auto simp: released_free released_pages split: if_splits)
qed (auto simp: known_inv_def frame_simps client_write_def)

lemma orderly_Cons: "orderly (c # cs) s \<longleftrightarrow> orderly [c] s \<and> orderly cs (pool_do c s)"
  by (cases c) auto

lemma pool_run_known: "frames_inv s \<Longrightarrow> known_inv s \<Longrightarrow> orderly cs s \<Longrightarrow> known_inv (pool_run cs s)"
proof (induction cs arbitrary: s)
  case (Cons c cs)
  note e = pool_do_effect [OF Cons.prems(1), of c]
  have o: "orderly [c] s" "orderly cs (pool_do c s)" using Cons.prems(3) orderly_Cons by blast+
  show ?case
    using Cons.IH [OF pool_effect_frames [OF e Cons.prems(1)] pool_effect_known [OF e Cons.prems(1,2) o(1)] o(2)] by simp
qed simp

lemma pool_effect_lost:
  assumes "pool_effect s c t" "frames_inv s" "lost s f"
  shows "lost t f"
  using assms
proof (cases rule: pool_effect.cases)
  case eff_new
  then show ?thesis using assms(2,3) frames_last_free(4) [OF assms(2)] last_in_set [of "bm_free s"]
    by (auto simp: lost_def allocated_fields ran_def dest: in_set_butlastD split: if_splits)
next
  case (eff_load pid)
  then show ?thesis using assms(2,3) frames_last_free(4) [OF assms(2)] last_in_set [of "bm_free s"]
    by (auto simp: lost_def loaded_fields ran_def dest: in_set_butlastD split: if_splits)
next
  case (eff_release pid g)
  then show ?thesis using assms(3) by (auto simp: lost_def released_free released_pages ran_def split: if_splits)
qed (auto simp: lost_def frame_simps client_write_def)

lemma pool_run_lost: "frames_inv s \<Longrightarrow> lost s f \<Longrightarrow> lost (pool_run cs s) f"
  by (induction cs s rule: pool_run.induct) (auto intro: pool_effect_lost pool_effect_frames pool_do_effect)

section \<open>Properties\<close>

text \<open>
  C27. After any calls on a new pool over an open file (failing ones included, with any page ids, together with writes of clients to
  pinned frames), every frame is either free (unpinned, clean, belonging to no page) or pinned and belonging to at most the
  page whose id it carries.  In an orderly run, which fetches only ids that the counter has passed, a frame that is
  not free is always found by its page.  The number of calls is below \<open>2 ^ 31\<close>, so that no pin count overflows.
\<close>

theorem pool_frames_free_or_pinned:
  assumes "fs_open d" "length cs < 2 ^ 31" "s = pool_run cs (BufferManager_new d n junk)" "f < BUFFER_MAX_PAGE"
  shows "\<not> lru_overflow (bm_lru s) \<and>
    (f \<in> set (bm_free s) \<and> f \<notin> ran (bm_pages s) \<and> pin_count (bm_lru s) f = 0 \<and> \<not> pg_dirty (frame_of f s)
     \<or> f \<notin> set (bm_free s) \<and> 0 < pin_count (bm_lru s) f \<and> (\<forall>pid. bm_pages s pid = Some f \<longrightarrow> pid = pg_id (frame_of f s))) \<and>
    (orderly cs (BufferManager_new d n junk) \<and> f \<notin> set (bm_free s) \<longrightarrow> bm_pages s (pg_id (frame_of f s)) = Some f)"
proof -
  let ?s0 = "BufferManager_new d n junk"
  note i0 = frames_inv_new [OF assms(1), of n junk]
  have inv: "frames_inv s" unfolding assms(3) by (rule pool_run_frames [OF i0])
  have "known_inv ?s0" by (simp add: known_inv_def BufferManager_new_def)
  then have "known_inv s" if "orderly cs ?s0" unfolding assms(3) using that by (rule pool_run_known [OF i0])
  then have "bm_pages s (pg_id (frame_of f s)) = Some f" if "orderly cs ?s0" "f \<notin> set (bm_free s)"
    using that assms(4) frames_invD(7) [OF inv] unfolding known_inv_def ran_def by fastforce
  moreover have "\<not> lru_overflow (bm_lru s)"
    unfolding assms(3) by (rule pool_no_overflow [OF i0 _ assms(2)]) (simp add: BufferManager_new_def)
  moreover have "f \<in> set (bm_free s) \<longrightarrow> f \<notin> ran (bm_pages s)"
    using frames_mapped_not_free [OF inv] by (auto simp: ran_def)
  ultimately show ?thesis using frames_invD(5-7) [OF inv] assms(4) by blast
qed

theorem pool_frames_free_or_pinned_witness:
  "let s = pool_run [Call_New] (BufferManager_new (PosixDiskManager_new []) 1 (replicate PAGE_SIZE 0))
   in 127 \<notin> set (bm_free s) \<and> bm_pages s (pg_id (frame_of 127 s)) = Some 127"
proof -
  let ?s0 = "BufferManager_new (PosixDiskManager_new []) 1 (replicate PAGE_SIZE 0)"
  have i: "frames_inv ?s0" by (rule frames_inv_new) (simp add: PosixDiskManager_new_def)
  have n: "bm_free ?s0 \<noteq> []" "last (bm_free ?s0) = 127" "bm_next_id ?s0 = 1" by (simp_all add: BufferManager_new_def)
  have e: "pool_run [Call_New] ?s0 = allocated 127 ?s0"
    using frames_NewPage_run [OF i n(1)] n(2) by simp
  have "127 \<notin> set (bm_free (allocated 127 ?s0))"
    using allocated_fields(2) [OF i n(1)] frames_free_butlast [OF n(1)] by (simp add: n(2) BufferManager_new_def)
  moreover have "orderly [Call_New] ?s0" using n(3) by simp
  moreover have "fs_open (PosixDiskManager_new [])" by (simp add: PosixDiskManager_new_def)
  ultimately show ?thesis
    using pool_frames_free_or_pinned [of "PosixDiskManager_new []" "[Call_New]" "pool_run [Call_New] ?s0" 1 "replicate PAGE_SIZE 0" 127]
    unfolding e Let_def by simp
qed

text \<open>
  The counter starts at 1 with the process.  When a server that was started again has fetched page 1 of its file, the next new page gets
  the id 1 too: the frame of the old page 1 stays pinned, and no later call finds it or frees it.
\<close>

definition restarted_pool :: BufferManager where
  "restarted_pool = BufferManager_new (PosixDiskManager_new (replicate 8192 7)) 1 (replicate PAGE_SIZE 0)"

lemma restart_loses_frame: "lost (pool_run (Call_Fetch 1 # Call_New # cs) restarted_pool) 127"
proof -
  let ?t = "loaded 1 127 restarted_pool"
  have i: "frames_inv restarted_pool"
    unfolding restarted_pool_def by (rule frames_inv_new) (simp add: PosixDiskManager_new_def)
  have n: "bm_free restarted_pool = [0..<126] @ [126, 127]" "bm_pages restarted_pool = (\<lambda>_. None)" "bm_next_id restarted_pool = 1"
    using upt_add_eq_append [of 0 126 2]
    by (simp_all add: restarted_pool_def BufferManager_new_def upt_rec [of 126] upt_rec [of 127])
  have one: "pool_do (Call_Fetch 1) restarted_pool = ?t"
    using frames_FetchPage_load [OF i, of 1] by (simp add: n)
  have t: "frames_inv ?t" "bm_free ?t = [0..<126] @ [126]" "bm_pages ?t = [1 \<mapsto> 127]" "bm_next_id ?t = 1"
    using loaded_fields [OF i, of 1] by (simp_all add: n butlast_append)
  have two: "pool_do Call_New ?t = allocated 126 ?t" using frames_NewPage_run [OF t(1)] t(2) by simp
  have u: "frames_inv (allocated 126 ?t)" "lost (allocated 126 ?t) 127"
    using allocated_fields [OF t(1)] by (simp_all add: t lost_def)
  from pool_run_lost [OF this] show ?thesis by (simp add: one two del: pool_do.simps)
qed

text \<open>
  Eviction is dead code: the replacement list only ever holds free frames, so when no frame is
  free, \<^verbatim>\<open>NewPage\<close> and the fetch of a page that is not in the pool throw "LRU manager is empty" and
  change nothing, and all 128 frames are pinned.
\<close>

theorem pool_full_throws:
  assumes "fs_open d" "s = pool_run cs (BufferManager_new d n junk)" "bm_free s = []" "bm_pages s pid = None"
  shows "BM_NewPage s = (Inl (RuntimeError ''LRU manager is empty''), s) \<and>
    BM_FetchPage pid s = (Inl (RuntimeError ''LRU manager is empty''), s) \<and>
    (\<forall>f<BUFFER_MAX_PAGE. 0 < pin_count (bm_lru s) f)"
proof -
  have inv: "frames_inv s" unfolding assms(2) by (rule pool_run_frames [OF frames_inv_new [OF assms(1)]])
  then show ?thesis using frames_full [OF inv assms(3)] frames_invD(6) [OF inv] assms(3,4) by auto
qed

text \<open>Filling a new pool with new pages, for the witness.\<close>

definition empty_pool :: BufferManager where
  "empty_pool = BufferManager_new (PosixDiskManager_new []) 1 (replicate PAGE_SIZE 0)"

lemma empty_pool_inv: "bm_inv empty_pool"
  unfolding empty_pool_def by (rule bm_inv_new) (simp_all add: PosixDiskManager_new_def)

lemma fill_pool:
  "n \<le> BUFFER_MAX_PAGE \<Longrightarrow> length (bm_free (pool_run (replicate n Call_New) empty_pool)) = BUFFER_MAX_PAGE - n \<and>
     bm_next_id (pool_run (replicate n Call_New) empty_pool) = word_of_nat (Suc n) \<and>
     (\<forall>p. bm_pages (pool_run (replicate n Call_New) empty_pool) p \<noteq> None \<longrightarrow> unat p \<le> n)"
proof (induction n)
  case 0
  then show ?case by (simp add: empty_pool_def BufferManager_new_def)
next
  case (Suc n)
  let ?s = "pool_run (replicate n Call_New) empty_pool"
  let ?t = "allocated (last (bm_free ?s)) ?s"
  have s: "length (bm_free ?s) = BUFFER_MAX_PAGE - n" "bm_next_id ?s = word_of_nat (Suc n)"
    "\<forall>p. bm_pages ?s p \<noteq> None \<longrightarrow> unat p \<le> n" using Suc by simp_all
  have inv: "frames_inv ?s" by (rule pool_run_frames [OF bm_frames_inv [OF empty_pool_inv]])
  have free: "bm_free ?s \<noteq> []" using s(1) Suc.prems by auto
  note al = allocated_fields [OF inv free]
  have id: "unat (bm_next_id ?s) = Suc n"
    using Suc.prems by (simp add: s(2) unat_of_nat take_bit_eq_mod del: of_nat_Suc)
  have "pool_run (replicate (Suc n) Call_New) empty_pool = ?t"
    using pool_run_append [of "replicate n Call_New" "[Call_New]"] frames_NewPage_run [OF inv free]
    by (simp add: replicate_append_same)
  moreover have "unat p \<le> Suc n" if "bm_pages ?t p \<noteq> None" for p
    using that s(3) id by (auto simp: al le_SucI split: if_splits)
  ultimately show ?case using s(1,2) by (simp add: al)
qed

theorem pool_full_throws_witness:
  "BM_NewPage (pool_run (replicate 128 Call_New) empty_pool) =
     (Inl (RuntimeError ''LRU manager is empty''), pool_run (replicate 128 Call_New) empty_pool)"
proof -
  let ?s = "pool_run (replicate 128 Call_New) empty_pool"
  have f: "bm_free ?s = []" "\<forall>p. bm_pages ?s p \<noteq> None \<longrightarrow> unat p \<le> 128"
    using fill_pool [of BUFFER_MAX_PAGE] by simp_all
  have "bm_pages ?s 200 = None" using f(2) by force
  then show ?thesis
    using pool_full_throws [of "PosixDiskManager_new []" ?s "replicate 128 Call_New" 1 "replicate PAGE_SIZE 0" 200] f(1)
    by (simp add: empty_pool_def PosixDiskManager_new_def)
qed

text \<open>
  C15. The pool is a faithful cache: for every page that has contents, fetching it (in a pool with a
  stream that can be read) gives a frame with exactly these contents, and no fetch changes the
  contents of any page.
\<close>

theorem fetch_returns_contents:
  assumes "bm_inv s" "addressable pid" "ready (bm_disk s)" "page_content s pid = Some bs"
    and "BM_FetchPage pid s = (Inr f, t)"
  shows "pg_data (frame_of f t) = bs \<and> bm_pages t pid = Some f \<and> bm_inv t \<and>
    (\<forall>q cs. page_content s q = Some cs \<longrightarrow> page_content t q = Some cs)"
  using page_content_fetched [OF assms] bm_inv_FetchPage [OF assms(1,2,5)] by blast

definition two_page_pool :: BufferManager where
  "two_page_pool = BufferManager_new (PosixDiskManager_new (replicate 8192 7)) 5 (replicate PAGE_SIZE 0)"

lemma two_page_pool_facts:
  "bm_inv two_page_pool" "ready (bm_disk two_page_pool)" "bm_free two_page_pool \<noteq> []"
  "bm_pages two_page_pool p = None" "page_content two_page_pool 1 = Some (replicate PAGE_SIZE 7)"
proof -
  show "bm_inv two_page_pool"
    unfolding two_page_pool_def by (rule bm_inv_new) (simp_all add: PosixDiskManager_new_def)
qed (simp_all add: two_page_pool_def BufferManager_new_def PosixDiskManager_new_def ready_def
    page_content_def stored_def peek_def)

theorem fetch_returns_contents_witness:
  "\<exists>f t. BM_FetchPage 1 two_page_pool = (Inr f, t) \<and> pg_data (frame_of f t) = replicate PAGE_SIZE 7"
proof -
  note p = two_page_pool_facts
  have "BM_FetchPage 1 two_page_pool = (Inr (last (bm_free two_page_pool)),
      loaded 1 (last (bm_free two_page_pool)) two_page_pool)"
    by (rule BM_FetchPage_load [OF p(1,4,3)])
  with fetch_returns_contents [OF p(1) _ p(2,5)] show ?thesis by (auto simp: addressable_def)
qed

text \<open>
  C16. What a release does to the contents of pages, in every case.  The release of a page in the pool returns.  Every other page keeps
  its contents, and so does the released page if it is dirty (it is written to the file before its frame can be reused), if the file
  holds the same bytes (\<open>backed\<close> covers both), or if somebody else still holds it.  In the remaining case, the last release of a clean page
  whose bytes are not in the file (such as a page from \<^verbatim>\<open>NewPage\<close> that nobody marked dirty), the bytes in the frame are dropped:
  the page then reads as the file had it before, or not at all.
\<close>

theorem release_keeps_contents:
  assumes "bm_inv s" "bm_pages s pid = Some f" "page_content s q = Some bs"
  shows "\<exists>t. BM_Release pid s = (Inr (), t) \<and> bm_inv t \<and>
    page_content t q = (if q = pid \<and> \<not> backed s pid \<and> pin_count (bm_lru s) f = 1 then stored (bm_disk s) pid else Some bs)"
  using page_content_released_exact [OF assms] bm_inv_released [OF assms(1,2)] bm_invD(1) [OF assms(1)] assms(2)
  by (simp add: comp_simps)

definition written_pool :: BufferManager where
  "written_pool = client_write 127 (replicate PAGE_SIZE 9) (allocated 127 empty_pool)"

lemma written_pool_facts:
  "bm_inv written_pool" "bm_pages written_pool 1 = Some 127" "backed written_pool 1"
  "page_content written_pool 1 = Some (replicate PAGE_SIZE 9)"
proof -
  have e: "bm_free empty_pool = [0..<BUFFER_MAX_PAGE]" "bm_next_id empty_pool = 1"
    "bm_pages empty_pool = (\<lambda>_. None)" "length (bm_frames empty_pool) = BUFFER_MAX_PAGE"
    by (simp_all add: empty_pool_def BufferManager_new_def)
  have "bm_inv (allocated (last (bm_free empty_pool)) empty_pool)"
    by (rule bm_inv_allocated [OF empty_pool_inv]) (simp_all add: e addressable_def)
  then have a: "bm_inv (allocated 127 empty_pool)" by (simp add: e)
  have m: "bm_pages (allocated 127 empty_pool) 1 = Some 127"
    by (simp add: allocated_def frame_simps e)
  show "bm_inv written_pool"
    unfolding written_pool_def by (rule bm_inv_client_write [OF a m]) simp
qed (simp_all add: written_pool_def client_write_def allocated_def frame_simps empty_pool_def
    BufferManager_new_def backed_def page_content_def)

theorem release_keeps_contents_witness:
  "\<exists>t. BM_Release 1 written_pool = (Inr (), t) \<and> page_content t 1 = Some (replicate PAGE_SIZE 9)"
  using release_keeps_contents [OF written_pool_facts(1,2,4)] written_pool_facts(3) by auto

text \<open>The other case: a new page that is released before anybody marks it dirty is gone.\<close>

lemma clean_new_page_is_lost:
  "\<exists>t u. BM_NewPage empty_pool = (Inr 127, t) \<and> page_content t 1 = Some (replicate PAGE_SIZE 0) \<and>
     BM_Release 1 t = (Inr (), u) \<and> page_content u 1 = None"
proof -
  let ?t = "allocated 127 empty_pool"
  have e: "bm_free empty_pool = [0..<BUFFER_MAX_PAGE]" "bm_next_id empty_pool = 1"
    "bm_pages empty_pool = (\<lambda>_. None)" "length (bm_frames empty_pool) = BUFFER_MAX_PAGE" "bm_lru empty_pool = LRU_new"
    "stored (bm_disk empty_pool) 1 = None"
    by (simp_all add: empty_pool_def BufferManager_new_def PosixDiskManager_new_def stored_def)
  have a: "bm_inv ?t" using bm_inv_allocated [OF empty_pool_inv] by (simp add: e addressable_def)
  have m: "bm_pages ?t 1 = Some 127" "page_content ?t 1 = Some (replicate PAGE_SIZE 0)" "stored (bm_disk ?t) 1 = None"
    "\<not> pg_dirty (frame_of 127 ?t)" "pin_count (bm_lru ?t) 127 = 1"
    by (simp_all add: allocated_def frame_simps e page_content_def) (simp add: LRU_new_def)
  have "BM_NewPage empty_pool = (Inr 127, ?t)" using BM_NewPage_run [OF empty_pool_inv] by (simp add: e)
  moreover have "BM_Release 1 ?t = (Inr (), released 1 127 ?t)" by (rule BM_Release_run [OF bm_invD(1) [OF a] m(1)])
  moreover have "page_content (released 1 127 ?t) 1 = None"
    using page_content_released_exact [OF a m(1,2)] m by (simp add: backed_def)
  ultimately show ?thesis using m(2) by blast
qed

text \<open>
  A page can be lost to the stream's state: after a fetch of a page that lies past the end of the
  file, the stream stays failed, and the next fetch of a page that is in the file returns the bytes
  the reused frame held before instead of the page (\<^verbatim>\<open>Read\<close> never clears the stream's state).
\<close>

lemma fetch_after_short_read_is_stale:
  assumes "bm_inv s" "ready (bm_disk s)" "addressable p" "addressable q" "p \<noteq> q"
    and "stored (bm_disk s) p = None" "bm_pages s p = None" "bm_pages s q = None"
    and "bm_free s = gs @ [g, f]"
  shows "\<exists>t u. BM_FetchPage p s = (Inr f, t) \<and> BM_FetchPage q t = (Inr g, u) \<and>
    pg_data (frame_of g u) = pg_data (frame_of g s)"
proof -
  let ?t = "loaded p f s"
  have l: "last (bm_free s) = f" "bm_free s \<noteq> []" using assms(9) by auto
  have run1: "BM_FetchPage p s = (Inr f, ?t)" using BM_FetchPage_load [OF assms(1,7) l(2)] l by simp
  have inv: "bm_inv ?t" using bm_inv_loaded [OF assms(1) l(2) assms(7,3)] l by simp
  obtain pg d where rd: "PosixDiskManager_Read p (frame_of f s) (bm_disk s) = (Inr pg, d)"
    using read_total bm_invD(1) [OF assms(1)] by blast
  have d: "fs_fail d" "fs_open d" using read_past_end_fails [OF assms(2,3,6) rd] by auto
  have ft: "f < length (bm_frames s)" "g < length (bm_frames s)" "g \<noteq> f"
    using bm_invD(3,5,7) [OF assms(1)] assms(9) by auto
  have t: "bm_free ?t = gs @ [g]" "bm_pages ?t q = None" "bm_disk ?t = d" "frame_of g ?t = frame_of g s"
    "length (bm_frames ?t) = length (bm_frames s)"
    using rd assms(5,8,9) ft by (simp_all add: loaded_def frame_simps butlast_append)
  have "BM_FetchPage q ?t = (Inr g, loaded q g ?t)"
    using BM_FetchPage_load [OF inv t(2)] t(1) by simp
  moreover have "pg_data (frame_of g (loaded q g ?t)) = pg_data (frame_of g s)"
    using read_on_failed_stream [OF d(2,1)] t ft by (simp add: loaded_def [of q] frame_simps)
  ultimately show ?thesis using run1 by blast
qed

theorem fetch_after_short_read_is_stale_witness:
  "\<exists>t u. BM_FetchPage 9 two_page_pool = (Inr 127, t) \<and> BM_FetchPage 1 t = (Inr 126, u) \<and>
     pg_data (frame_of 126 u) = replicate PAGE_SIZE 0"
proof -
  have "bm_free two_page_pool = [0..<126] @ [126, 127]"
    using upt_add_eq_append [of 0 126 2]
    by (simp add: two_page_pool_def BufferManager_new_def upt_rec [of 126] upt_rec [of 127])
  moreover have "stored (bm_disk two_page_pool) 9 = None"
    by (simp add: two_page_pool_def BufferManager_new_def PosixDiskManager_new_def stored_def)
  moreover have "pg_data (frame_of 126 two_page_pool) = replicate PAGE_SIZE 0"
    by (simp add: two_page_pool_def BufferManager_new_def frame_of_def)
  ultimately show ?thesis
    using fetch_after_short_read_is_stale [OF two_page_pool_facts(1,2) _ _ _ _ two_page_pool_facts(4,4),
        of 9 1 "[0..<126]" 126 127]
    by (simp add: addressable_def)
qed

end
