(* ===== verification/Frame_Access.thy ===== *)
theory Frame_Access
  imports Buffer_Pool
begin

text \<open>
  Access to the bytes of a frame.  The clients of the pool (catalog page, table pages, undo pages) hold
  a pointer to a \<^verbatim>\<open>Page\<close> and copy bytes from and into its array; a pointer is the number of the frame.
  \<open>only_frame\<close> says what such a client may change: the bytes of its own frame, and nothing else.
\<close>

section \<open>Reading and writing through a page pointer\<close>

definition fr_read :: "frame_id \<Rightarrow> nat \<Rightarrow> nat \<Rightarrow> (BufferManager, bytes) comp" where
  "fr_read f off n = bnd (gets (\<lambda>s. mem_read off n (pg_data (frame_of f s)))) of_res"

definition fr_write :: "frame_id \<Rightarrow> nat \<Rightarrow> bytes \<Rightarrow> (BufferManager, unit) comp" where
  "fr_write f off bs = bnd (gets (\<lambda>s. mem_write off bs (pg_data (frame_of f s)))) (\<lambda>r.
     bnd (of_res r) (\<lambda>d. modify (on_frame f (\<lambda>p. p\<lparr>pg_data := d\<rparr>))))"

definition fr_dirty :: "frame_id \<Rightarrow> (BufferManager, unit) comp" where
  "fr_dirty f = modify (on_frame f (\<lambda>p. p\<lparr>pg_dirty := True\<rparr>))"

definition fdata :: "frame_id \<Rightarrow> BufferManager \<Rightarrow> bytes" where
  "fdata f b = pg_data (frame_of f b)"

lemma fr_write_run: "off + length bs \<le> length (fdata f b) \<Longrightarrow>
    fr_write f off bs b = (Inr (), on_frame f (\<lambda>p. p\<lparr>pg_data := poke off bs (fdata f b)\<rparr>) b)"
  by (simp add: fr_write_def comp_simps fdata_def)

lemma fr_read_run [comp_simps]: "off + n \<le> length (fdata f b) \<Longrightarrow>
    fr_read f off n b = (Inr (peek off n (fdata f b)), b)"
  by (simp add: fr_read_def comp_simps fdata_def)

lemma fr_dirty_run [comp_simps]: "fr_dirty f b = (Inr (), on_frame f (\<lambda>p. p\<lparr>pg_dirty := True\<rparr>) b)"
  by (simp add: fr_dirty_def comp_simps)

section \<open>Writing a frame back\<close>

lemma length_file_wrote:
  assumes "addressable (pg_id (frame_of f b))" "length (pg_data (frame_of f b)) = PAGE_SIZE" "fs_open (bm_disk b)"
  shows "length (fs_file (bm_disk (wrote f b))) =
    max (length (fs_file (bm_disk b))) (unat (pg_id (frame_of f b)) * PAGE_SIZE + PAGE_SIZE)"
proof -
  have "unat (page_offset (pg_id (frame_of f b))) = unat (pg_id (frame_of f b)) * 4096"
    using assms(1) by (simp add: page_offset_def addressable_def unat_word_ariths)
  then show ?thesis
    using assms by (simp add: wrote_def PosixDiskManager_Write_def addressable_def length_write_at)
qed

lemma backed_cleaned:
  assumes "bm_inv b" "bm_pages b pid = Some f" "backed b q"
  shows "backed (cleaned f b) q"
proof (cases "bm_pages b q")
  case (Some g)
  note inv = bm_invD(3,8) [OF assms(1)]
  show ?thesis
  proof (cases "q = pid")
    case True
    then have "g = f" using Some assms(2) by simp
    then show ?thesis
      using True Some stored_cleaned_self [OF assms(1,2)] assms(3) inv(2) [OF assms(2)] inv(1) by (simp add: backed_def frame_simps)
  next
    case False
    then have "g \<noteq> f" using mapped_inj [OF assms(1) Some, of pid] assms(2) by auto
    then show ?thesis
      using False Some assms(3) stored_cleaned [OF assms(1,2) _ False] inv(2) [OF assms(2)] inv(1) by (auto simp: backed_def frame_simps)
  qed
qed (simp add: backed_def frame_simps)

section \<open>What a client changes\<close>

text \<open>A held frame: it is mapped, so it is inside the pool and not free.\<close>

definition held :: "page_id_t \<Rightarrow> frame_id \<Rightarrow> BufferManager \<Rightarrow> bool" where
  "held pid f b \<longleftrightarrow> bm_inv b \<and> bm_pages b pid = Some f"

definition only_frame :: "frame_id \<Rightarrow> BufferManager \<Rightarrow> BufferManager \<Rightarrow> bool" where
  "only_frame f b c \<longleftrightarrow> bm_inv c \<and> bm_pages c = bm_pages b \<and> bm_free c = bm_free b \<and>
     bm_lru c = bm_lru b \<and> bm_next_id c = bm_next_id b \<and>
     (\<forall>g. g \<noteq> f \<longrightarrow> frame_of g c = frame_of g b) \<and>
     (\<forall>q bs. bm_pages b q \<noteq> Some f \<longrightarrow> page_content b q = Some bs \<longrightarrow> page_content c q = Some bs) \<and>
     (ready (bm_disk b) \<longrightarrow> ready (bm_disk c)) \<and>
     (\<forall>q. bm_pages b q \<noteq> Some f \<longrightarrow> backed b q \<longrightarrow> backed c q) \<and> pg_id (frame_of f c) = pg_id (frame_of f b) \<and>
     (\<forall>n. length (fs_file (bm_disk b)) \<le> n * PAGE_SIZE \<longrightarrow> unat (pg_id (frame_of f b)) < n \<longrightarrow> length (fs_file (bm_disk c)) \<le> n * PAGE_SIZE)"

lemma only_frame_refl: "bm_inv b \<Longrightarrow> only_frame f b b"
  by (simp add: only_frame_def)

lemma only_frame_trans: "only_frame f b c \<Longrightarrow> only_frame f c d \<Longrightarrow> only_frame f b d"
  by (simp add: only_frame_def)

lemma only_frameD:
  assumes "only_frame f b c"
  shows "bm_inv c" "bm_pages c = bm_pages b" "bm_next_id c = bm_next_id b" "bm_free c = bm_free b"
    "bm_lru c = bm_lru b" "g \<noteq> f \<Longrightarrow> frame_of g c = frame_of g b"
    "g \<noteq> f \<Longrightarrow> fdata g c = fdata g b"
    "bm_pages b q \<noteq> Some f \<Longrightarrow> page_content b q = Some bs \<Longrightarrow> page_content c q = Some bs"
    "ready (bm_disk b) \<Longrightarrow> ready (bm_disk c)"
    "bm_pages b q \<noteq> Some f \<Longrightarrow> backed b q \<Longrightarrow> backed c q"
    "length (fs_file (bm_disk b)) \<le> n * PAGE_SIZE \<Longrightarrow> unat (pg_id (frame_of f b)) < n \<Longrightarrow> length (fs_file (bm_disk c)) \<le> n * PAGE_SIZE"
  using assms by (simp_all add: only_frame_def fdata_def)

lemma only_frame_held: "only_frame f b c \<Longrightarrow> held pid g b \<Longrightarrow> held pid g c"
  by (simp add: held_def only_frame_def)

lemma heldD:
  assumes "held pid f b"
  shows "bm_inv b" "bm_pages b pid = Some f" "f < BUFFER_MAX_PAGE" "f < length (bm_frames b)"
    "length (fdata f b) = PAGE_SIZE" "pg_id (frame_of f b) = pid" "fs_open (bm_disk b)" "addressable pid"
    "f \<notin> set (bm_free b)"
proof -
  show i: "bm_inv b" and m: "bm_pages b pid = Some f" using assms by (simp_all add: held_def)
  from bm_invD(8) [OF i m] show f: "f < BUFFER_MAX_PAGE" and "pg_id (frame_of f b) = pid" and "addressable pid"
    by blast+
  show "f < length (bm_frames b)" using f bm_invD(3) [OF i] by linarith
  show "length (fdata f b) = PAGE_SIZE" unfolding fdata_def by (rule bm_invD(4) [OF i f])
  show "fs_open (bm_disk b)" by (rule bm_invD(1) [OF i])
  show "f \<notin> set (bm_free b)" by (rule mapped_not_free [OF i m])
qed

lemma held_inj: "held p f b \<Longrightarrow> held q g b \<Longrightarrow> p \<noteq> q \<Longrightarrow> f \<noteq> g"
  using mapped_inj by (auto simp: held_def)

lemma on_frame_bytes_inv:
  assumes "held pid f b" "\<And>p. length (pg_data p) = PAGE_SIZE \<Longrightarrow> length (pg_data (g p)) = PAGE_SIZE"
    "\<And>p. pg_id (g p) = pg_id p"
  shows "bm_inv (on_frame f g b)"
  using assms(2,3) heldD [OF assms(1)]
  unfolding bm_inv_def by (auto simp: frame_simps)

lemma page_content_on_frame:
  assumes "held pid f b" "bm_pages b q \<noteq> Some f"
  shows "page_content (on_frame f g b) q = page_content b q"
  using assms(2) heldD(4) [OF assms(1)]
  by (cases "bm_pages b q") (auto simp: page_content_def frame_simps)

lemma backed_on_frame: "held pid f b \<Longrightarrow> bm_pages b q \<noteq> Some f \<Longrightarrow> backed (on_frame f g b) q = backed b q"
  using heldD(4) [of pid f b] by (cases "bm_pages b q") (auto simp: backed_def frame_simps)

lemma only_frame_on_frame:
  assumes "held pid f b" "\<And>p. length (pg_data p) = PAGE_SIZE \<Longrightarrow> length (pg_data (g p)) = PAGE_SIZE"
    "\<And>p. pg_id (g p) = pg_id p"
  shows "only_frame f b (on_frame f g b)"
  using on_frame_bytes_inv [of pid f b g] assms page_content_on_frame [OF assms(1)] heldD(4) [OF assms(1)] backed_on_frame [OF assms(1)]
  unfolding only_frame_def by (simp add: frame_simps)

text \<open>The state after some bytes of a held frame have been overwritten.\<close>

definition put :: "frame_id \<Rightarrow> bytes \<Rightarrow> BufferManager \<Rightarrow> BufferManager" where
  "put f d b = on_frame f (\<lambda>p. p\<lparr>pg_data := d\<rparr>) b"

lemma only_frame_put: "held pid f b \<Longrightarrow> length d = PAGE_SIZE \<Longrightarrow> only_frame f b (put f d b)"
  unfolding put_def by (rule only_frame_on_frame) simp_all

lemma fdata_put [simp]: "held pid f b \<Longrightarrow> fdata f (put f d b) = d"
  using heldD(4) by (simp add: put_def fdata_def frame_simps)

lemma put_put [simp]: "put f d (put f e b) = put f d b"
  by (cases "f < length (bm_frames b)")
    (simp_all add: put_def on_frame_def set_frame_def frame_of_def list_update_beyond)

lemma put_same: "held pid f b \<Longrightarrow> put f (fdata f b) b = b"
  by (simp add: put_def on_frame_def set_frame_def frame_of_def fdata_def)

lemma fr_write_put:
  assumes "held pid f b" "off + length bs \<le> PAGE_SIZE"
  shows "fr_write f off bs b = (Inr (), put f (poke off bs (fdata f b)) b)"
  using assms heldD(5) [OF assms(1)] by (simp add: fr_write_run put_def)

lemma only_frame_dirty: "held pid f b \<Longrightarrow> only_frame f b (on_frame f (\<lambda>p. p\<lparr>pg_dirty := True\<rparr>) b)"
  by (rule only_frame_on_frame) simp_all

lemma fdata_dirty: "held pid f b \<Longrightarrow> fdata f (on_frame f (\<lambda>p. p\<lparr>pg_dirty := True\<rparr>) b) = fdata f b"
  using heldD(4) by (simp add: fdata_def frame_simps)

lemma only_frame_cleaned:
  assumes "held pid f b"
  shows "only_frame f b (cleaned f b)" "fdata f (cleaned f b) = fdata f b"
proof -
  note h = heldD [OF assms]
  have "ready (bm_disk (cleaned f b))" if "ready (bm_disk b)"
    using that h(5-8) stored_wrote_same(2) [of b f] by (auto simp: cleaned_def frame_simps fdata_def)
  moreover have "length (fs_file (bm_disk (cleaned f b))) \<le> n * PAGE_SIZE" if "length (fs_file (bm_disk b)) \<le> n * PAGE_SIZE" "unat (pg_id (frame_of f b)) < n" for n
  proof -
    have "unat pid * 4096 + 4096 \<le> n * 4096" using that(2) h(6) by simp
    then show ?thesis using that(1) length_file_wrote [of f b] h(5-8) by (simp add: cleaned_def frame_simps fdata_def)
  qed
  ultimately show "only_frame f b (cleaned f b)"
    using bm_inv_cleaned [OF h(1,3)] page_content_cleaned [OF h(1,2)] h(4) backed_cleaned [OF h(1,2)]
    unfolding only_frame_def by (simp add: frame_simps)
  show "fdata f (cleaned f b) = fdata f b" using h(4) by (simp add: fdata_def frame_simps)
qed

text \<open>Marking the page dirty and flushing it, the tail of every write of the catalog: afterwards the
  page is in the file as it is in memory.\<close>

definition flushed :: "frame_id \<Rightarrow> BufferManager \<Rightarrow> BufferManager" where
  "flushed f b = cleaned f (on_frame f (\<lambda>p. p\<lparr>pg_dirty := True\<rparr>) b)"

lemma flushed_facts:
  assumes "held pid f b"
  shows "only_frame f b (flushed f b)" "fdata f (flushed f b) = fdata f b"
    "stored (bm_disk (flushed f b)) pid = Some (fdata f b)"
proof -
  let ?u = "on_frame f (\<lambda>p. p\<lparr>pg_dirty := True\<rparr>) b"
  note u = only_frame_dirty [OF assms]
  note hu = only_frame_held [OF u assms]
  show "only_frame f b (flushed f b)"
    unfolding flushed_def by (rule only_frame_trans [OF u only_frame_cleaned(1) [OF hu]])
  show "fdata f (flushed f b) = fdata f b"
    unfolding flushed_def by (simp add: only_frame_cleaned(2) [OF hu] fdata_dirty [OF assms])
  have "backed ?u pid" using heldD(2,4) [OF assms] by (simp add: backed_def frame_simps)
  from stored_cleaned_self [OF heldD(1,2) [OF hu] this]
  show "stored (bm_disk (flushed f b)) pid = Some (fdata f b)"
    by (simp add: flushed_def fdata_dirty [OF assms] flip: fdata_def)
qed

lemma flush_run:
  assumes "held pid f b"
  shows "BM_Flush pid (on_frame f (\<lambda>p. p\<lparr>pg_dirty := True\<rparr>) b) = (Inr (), flushed f b)"
  using heldD [OF only_frame_held [OF only_frame_dirty [OF assms] assms]]
  by (simp add: comp_simps flushed_def)

end
