(* ===== verification/Row_Codec.thy ===== *)
theory Row_Codec
  imports Prelude
begin

unbundle bit_operations_syntax

text \<open>
  Values, columns, tuples and the record format: \<^verbatim>\<open>include/common/types/column_types.h\<close>,
  \<^verbatim>\<open>catalog/column_entry.cpp\<close>, \<^verbatim>\<open>include/storage/page/tuple.h\<close> and \<^verbatim>\<open>storage/page/row.cpp\<close>.  A record is
  \<open>trx_id | roll_ptr | flags\<close>, one byte \<^verbatim>\<open>'0'\<close> or \<^verbatim>\<open>'1'\<close> per column, and the values of the columns
  that are not null.  Shown: a serialized row has exactly the size the first pass computes and is
  read back unchanged for the column types SQL can create, and where the two directions disagree.
\<close>

section \<open>Values\<close>

datatype ColumnTypes =
  CT_INVALID | CT_INTEGER | CT_BOOL | CT_DOUBLE | CT_VARCHAR | CT_VARCHAR2 | CT_TIMESTAMP | CT_NULLTYPE

fun ColumnTypes_code :: "ColumnTypes \<Rightarrow> u8" where
  "ColumnTypes_code CT_INVALID = 0"
| "ColumnTypes_code CT_INTEGER = 1"
| "ColumnTypes_code CT_BOOL = 2"
| "ColumnTypes_code CT_DOUBLE = 3"
| "ColumnTypes_code CT_VARCHAR = 4"
| "ColumnTypes_code CT_VARCHAR2 = 5"
| "ColumnTypes_code CT_TIMESTAMP = 6"
| "ColumnTypes_code CT_NULLTYPE = 7"

text \<open>
  The alternatives of the \<^verbatim>\<open>std::variant\<close>; \<^verbatim>\<open>int\<close> and \<^verbatim>\<open>long long\<close> are kept as their bits, a
  \<^verbatim>\<open>std::string\<close> as its bytes and a \<^verbatim>\<open>double\<close> as its bit pattern.
\<close>

datatype variant = VInt u32 | VBool bool | VString bytes | VLong u64 | VDouble u64

record Value =
  v_null :: bool
  v_val :: variant

text \<open>The default constructor: null, with the first alternative of the variant value-initialised.\<close>

definition Value_null :: Value where
  "Value_null = \<lparr>v_null = True, v_val = VInt 0\<rparr>"

definition Value_of :: "variant \<Rightarrow> Value" where
  "Value_of x = \<lparr>v_null = False, v_val = x\<rparr>"

definition GetInt :: "Value \<Rightarrow> u32 res" where
  "GetInt v = (case v_val v of VInt i \<Rightarrow> Inr i | _ \<Rightarrow> Inl BadVariantAccess)"

definition GetBool :: "Value \<Rightarrow> bool res" where
  "GetBool v = (case v_val v of VBool b \<Rightarrow> Inr b | _ \<Rightarrow> Inl BadVariantAccess)"

definition GetString :: "Value \<Rightarrow> bytes res" where
  "GetString v = (case v_val v of VString s \<Rightarrow> Inr s | _ \<Rightarrow> Inl BadVariantAccess)"

definition GetTimestamp :: "Value \<Rightarrow> u64 res" where
  "GetTimestamp v = (case v_val v of VLong l \<Rightarrow> Inr l | _ \<Rightarrow> Inl BadVariantAccess)"

definition GetDouble :: "Value \<Rightarrow> u64 res" where
  "GetDouble v = (case v_val v of VDouble d \<Rightarrow> Inr d | _ \<Rightarrow> Inl BadVariantAccess)"

section \<open>Columns, schemas and tuples\<close>

record ColumnEntry =
  ce_id :: entry_id
  ce_name :: string
  ce_type :: ColumnTypes
  ce_default :: Value

fun ColumnEntry_new :: "entry_id \<Rightarrow> string \<Rightarrow> ColumnTypes \<Rightarrow> ColumnEntry res" where
  "ColumnEntry_new i n CT_BOOL = Inr \<lparr>ce_id = i, ce_name = n, ce_type = CT_BOOL, ce_default = Value_of (VBool False)\<rparr>"
| "ColumnEntry_new i n CT_TIMESTAMP = Inr \<lparr>ce_id = i, ce_name = n, ce_type = CT_TIMESTAMP, ce_default = Value_of (VInt 0)\<rparr>"
| "ColumnEntry_new i n CT_INTEGER = Inr \<lparr>ce_id = i, ce_name = n, ce_type = CT_INTEGER, ce_default = Value_of (VInt 0)\<rparr>"
| "ColumnEntry_new i n CT_VARCHAR = Inr \<lparr>ce_id = i, ce_name = n, ce_type = CT_VARCHAR, ce_default = Value_of (VString [])\<rparr>"
| "ColumnEntry_new i n CT_VARCHAR2 = Inr \<lparr>ce_id = i, ce_name = n, ce_type = CT_VARCHAR2, ce_default = Value_of (VString [])\<rparr>"
| "ColumnEntry_new i n _ = Inl (RuntimeError ''unknow column type.'')"

type_synonym Schema = "ColumnEntry list"

text \<open>A pointer into the undo log, and the header of a record.\<close>

record UndoPointer =
  up_page :: page_id_t
  up_slot :: u32

definition UndoPointer_IsNull :: "UndoPointer \<Rightarrow> bool" where
  "UndoPointer_IsNull p \<longleftrightarrow> up_page p = 0"

abbreviation null_ptr :: UndoPointer where "null_ptr \<equiv> \<lparr>up_page = 0, up_slot = 0\<rparr>"

record RecordHeader =
  rh_trx_id :: tx_id_t
  rh_roll_ptr :: UndoPointer
  rh_flags :: u16

abbreviation (input) RECORD_DEL :: u16 where "RECORD_DEL \<equiv> 1"
abbreviation (input) RECORD_DEAD :: u16 where "RECORD_DEAD \<equiv> 2"
abbreviation (input) REC_TRX_OFFSET :: nat where "REC_TRX_OFFSET \<equiv> 0"
abbreviation (input) REC_ROLLPTR_OFFSET :: nat where "REC_ROLLPTR_OFFSET \<equiv> 8"
abbreviation (input) REC_FLAGS_OFFSET :: nat where "REC_FLAGS_OFFSET \<equiv> 20"
abbreviation (input) REC_HEADER_SIZE :: nat where "REC_HEADER_SIZE \<equiv> 22"
abbreviation (input) PAYLOAD_OFFSET :: nat where "PAYLOAD_OFFSET \<equiv> REC_HEADER_SIZE"

record Tuple =
  t_schema :: Schema
  t_data :: "bytes option"
  t_size :: u16
  t_query_result :: "Value list"

definition Tuple_new :: Tuple where
  "Tuple_new = \<lparr>t_schema = [], t_data = None, t_size = 0, t_query_result = []\<rparr>"

text \<open>
  Copying a tuple (copy constructor, assignment and \<^verbatim>\<open>Copy\<close>) duplicates \<^verbatim>\<open>tuple_size_\<close> bytes, and
  drops the data of a tuple whose size is 0.
\<close>

definition Tuple_Copy :: "Tuple \<Rightarrow> Tuple res" where
  "Tuple_Copy t = (case t_data t of
     None \<Rightarrow> Inr t
   | Some d \<Rightarrow> if t_size t = 0 then Inr (t\<lparr>t_data := None\<rparr>)
       else (case mem_read 0 (unat (t_size t)) d of
               Inl e \<Rightarrow> Inl e | Inr bs \<Rightarrow> Inr (t\<lparr>t_data := Some bs\<rparr>)))"

text \<open>A tuple whose buffer is exactly the record \<open>r\<close>.\<close>

definition tuple_holds :: "Tuple \<Rightarrow> bytes \<Rightarrow> bool" where
  "tuple_holds t r \<longleftrightarrow> t_data t = Some r \<and> unat (t_size t) = length r"

section \<open>Rows\<close>

definition header_bytes :: "RecordHeader \<Rightarrow> bytes" where
  "header_bytes h = le_bytes 8 (rh_trx_id h) @ le_bytes 8 (up_page (rh_roll_ptr h)) @
     le_bytes 4 (up_slot (rh_roll_ptr h)) @ le_bytes 2 (rh_flags h)"

definition read_header :: "bytes \<Rightarrow> RecordHeader" where
  "read_header d = \<lparr>rh_trx_id = le_word (peek REC_TRX_OFFSET 8 d),
     rh_roll_ptr = \<lparr>up_page = le_word (peek REC_ROLLPTR_OFFSET 8 d),
                    up_slot = le_word (peek (REC_ROLLPTR_OFFSET + 8) 4 d)\<rparr>,
     rh_flags = le_word (peek REC_FLAGS_OFFSET 2 d)\<rparr>"

text \<open>The first loop of \<^verbatim>\<open>Row::Serialize\<close>: the null bytes, and the size of the values.\<close>

definition value_size :: "ColumnTypes \<Rightarrow> Value \<Rightarrow> nat res" where
  "value_size c v = (case c of
     CT_BOOL \<Rightarrow> Inr 1
   | CT_INTEGER \<Rightarrow> Inr 4
   | CT_TIMESTAMP \<Rightarrow> Inr 8
   | CT_VARCHAR2 \<Rightarrow> (case GetString v of Inl e \<Rightarrow> Inl e | Inr s \<Rightarrow> Inr (8 + length s))
   | CT_VARCHAR \<Rightarrow> (case GetString v of Inl e \<Rightarrow> Inl e | Inr s \<Rightarrow> Inr (8 + length s))
   | _ \<Rightarrow> Inl (InvalidArgument ''[Row::Serialize()] invalid column type''))"

fun ser_meta :: "ColumnTypes list \<Rightarrow> Value list \<Rightarrow> (bytes \<times> nat) res" where
  "ser_meta [] vs = Inr ([], 0)"
| "ser_meta (c # cs) [] = Inl MemoryFault"
| "ser_meta (c # cs) (v # vs) =
     (case (if v_null v then Inr (48, 0)
            else case value_size c v of Inl e \<Rightarrow> Inl e | Inr n \<Rightarrow> Inr (49, n)) of
        Inl e \<Rightarrow> Inl e
      | Inr (b, n) \<Rightarrow> (case ser_meta cs vs of Inl e \<Rightarrow> Inl e | Inr (m, k) \<Rightarrow> Inr (b # m, n + k)))"

text \<open>The second loop: the bytes of the values, one after the other.\<close>

definition value_bytes :: "ColumnTypes \<Rightarrow> Value \<Rightarrow> bytes res" where
  "value_bytes c v = (case c of
     CT_BOOL \<Rightarrow> (case GetBool v of Inl e \<Rightarrow> Inl e | Inr b \<Rightarrow> Inr [if b then 49 else 48])
   | CT_INTEGER \<Rightarrow> (case GetInt v of Inl e \<Rightarrow> Inl e | Inr i \<Rightarrow> Inr (le_bytes 4 i))
   | CT_TIMESTAMP \<Rightarrow> (case GetTimestamp v of Inl e \<Rightarrow> Inl e | Inr l \<Rightarrow> Inr (le_bytes 8 l))
   | CT_VARCHAR2 \<Rightarrow> (case GetString v of Inl e \<Rightarrow> Inl e
        | Inr s \<Rightarrow> Inr (le_bytes 8 (word_of_nat (length s) :: u64) @ s))
   | CT_VARCHAR \<Rightarrow> (case GetString v of Inl e \<Rightarrow> Inl e
        | Inr s \<Rightarrow> Inr (le_bytes 8 (word_of_nat (length s) :: u64) @ s))
   | _ \<Rightarrow> Inl (InvalidArgument ''[Row::Serialize()] invalid column type''))"

fun ser_payload :: "ColumnTypes list \<Rightarrow> Value list \<Rightarrow> bytes res" where
  "ser_payload [] vs = Inr []"
| "ser_payload (c # cs) [] = Inl MemoryFault"
| "ser_payload (c # cs) (v # vs) =
     (case (if v_null v then Inr [] else value_bytes c v) of
        Inl e \<Rightarrow> Inl e
      | Inr b \<Rightarrow> (case ser_payload cs vs of Inl e \<Rightarrow> Inl e | Inr bs \<Rightarrow> Inr (b @ bs)))"

text \<open>\<^verbatim>\<open>Row::Serialize\<close> returns the record; its size is left in \<^verbatim>\<open>use_size_\<close>.\<close>

definition Row_Serialize :: "Schema \<Rightarrow> RecordHeader \<Rightarrow> Value list \<Rightarrow> (bytes \<times> nat) res" where
  "Row_Serialize sch h vs = (case ser_meta (map ce_type sch) vs of
     Inl e \<Rightarrow> Inl e
   | Inr (meta, sz) \<Rightarrow> (case ser_payload (map ce_type sch) vs of
       Inl e \<Rightarrow> Inl e
     | Inr pl \<Rightarrow> Inr (header_bytes h @ meta @ pl, length sch + sz + PAYLOAD_OFFSET)))"

text \<open>
  \<^verbatim>\<open>Row::Deserialize\<close>.  A \<^verbatim>\<open>bool\<close> is overwritten with one byte of the record; any byte but 0 then
  tests as true.
\<close>

definition read_value :: "ColumnTypes \<Rightarrow> nat \<Rightarrow> bytes \<Rightarrow> (Value \<times> nat) res" where
  "read_value c off d = (case c of
     CT_BOOL \<Rightarrow> (case mem_read off 1 d of Inl e \<Rightarrow> Inl e
        | Inr bs \<Rightarrow> Inr (Value_of (VBool ((le_word bs :: u8) \<noteq> 0)), off + 1))
   | CT_INTEGER \<Rightarrow> (case mem_read off 4 d of Inl e \<Rightarrow> Inl e
        | Inr bs \<Rightarrow> Inr (Value_of (VInt (le_word bs)), off + 4))
   | CT_TIMESTAMP \<Rightarrow> (case mem_read off 8 d of Inl e \<Rightarrow> Inl e
        | Inr bs \<Rightarrow> Inr (Value_of (VLong (le_word bs)), off + 8))
   | CT_VARCHAR \<Rightarrow> (case mem_read off 8 d of Inl e \<Rightarrow> Inl e
        | Inr bs \<Rightarrow> (let n = unat (le_word bs :: u64) in
            case mem_read (off + 8) n d of Inl e \<Rightarrow> Inl e
            | Inr s \<Rightarrow> Inr (Value_of (VString s), off + 8 + n)))
   | _ \<Rightarrow> Inl (InvalidArgument ''Invalid column type''))"

text \<open>\<open>i\<close> is the index of the first column of the list, \<open>off\<close> the offset of its value.\<close>

fun read_values :: "ColumnTypes list \<Rightarrow> nat \<Rightarrow> nat \<Rightarrow> bytes \<Rightarrow> Value list res" where
  "read_values [] i off d = Inr []"
| "read_values (c # cs) i off d =
     (case mem_read (PAYLOAD_OFFSET + i) 1 d of
        Inl e \<Rightarrow> Inl e
      | Inr nb \<Rightarrow>
          (case (if nb = [48] then Inr (Value_null, off) else read_value c off d) of
             Inl e \<Rightarrow> Inl e
           | Inr (v, off') \<Rightarrow> (case read_values cs (Suc i) off' d of
               Inl e \<Rightarrow> Inl e | Inr vs \<Rightarrow> Inr (v # vs))))"

definition Row_Deserialize :: "Schema \<Rightarrow> bytes \<Rightarrow> (RecordHeader \<times> Value list) res" where
  "Row_Deserialize sch d =
     (if length d < REC_HEADER_SIZE then Inl MemoryFault
      else case read_values (map ce_type sch) 0 (PAYLOAD_OFFSET + length sch) d of
             Inl e \<Rightarrow> Inl e | Inr vs \<Rightarrow> Inr (read_header d, vs))"

definition Row_GetValue :: "Schema \<Rightarrow> Value list \<Rightarrow> nat \<Rightarrow> Value res" where
  "Row_GetValue sch vs i =
     (if length sch \<le> i then Inl (InvalidArgument ''index out of range'')
      else if length vs \<le> i then Inl MemoryFault
      else Inr (if v_null (vs ! i) then ce_default (sch ! i) else vs ! i))"

fun column_index :: "Schema \<Rightarrow> string \<Rightarrow> nat option" where
  "column_index [] n = None"
| "column_index (c # cs) n = (if ce_name c = n then Some 0 else map_option Suc (column_index cs n))"

definition Row_GetValue_by_name :: "Schema \<Rightarrow> Value list \<Rightarrow> string \<Rightarrow> Value res" where
  "Row_GetValue_by_name sch vs n = (case column_index sch n of
     None \<Rightarrow> Inl (InvalidArgument ''[Row::GetValue]column not found'')
   | Some i \<Rightarrow> Row_GetValue sch vs i)"

definition Row_SetValue :: "Schema \<Rightarrow> Value list \<Rightarrow> nat \<Rightarrow> Value \<Rightarrow> Value list res" where
  "Row_SetValue sch vs i v =
     (if length sch \<le> i then Inl (InvalidArgument ''index out of range'')
      else if length vs \<le> i then Inl MemoryFault
      else Inr (vs[i := v]))"

definition Row_IsDel :: "RecordHeader \<Rightarrow> bool" where
  "Row_IsDel h \<longleftrightarrow> rh_flags h AND RECORD_DEL \<noteq> 0"

section \<open>Sizes\<close>

lemma length_header_bytes [simp]: "length (header_bytes h) = REC_HEADER_SIZE"
  by (simp add: header_bytes_def)

lemma value_bytes_size: "value_size c v = Inr n \<Longrightarrow> value_bytes c v = Inr b \<Longrightarrow> length b = n"
  by (auto simp: value_size_def value_bytes_def split: ColumnTypes.splits sum.splits)

lemma ser_sizes:
  "ser_meta cs vs = Inr (m, n) \<Longrightarrow> ser_payload cs vs = Inr pl \<Longrightarrow> length m = length cs \<and> length pl = n"
proof (induction cs arbitrary: vs m n pl)
  case (Cons c cs)
  obtain v vs' where vs: "vs = v # vs'" using Cons.prems(1) by (cases vs) auto
  obtain m' k pl' where r: "ser_meta cs vs' = Inr (m', k)" "ser_payload cs vs' = Inr pl'"
    using Cons.prems vs by (auto split: sum.splits if_splits)
  then show ?case
    using Cons.IH [OF r] Cons.prems vs value_bytes_size [of c v] by (auto split: sum.splits if_splits)
qed simp

lemma read_header_bytes: "read_header (header_bytes h @ rest) = h"
  by (simp add: read_header_def header_bytes_def peek_def)

section \<open>Round trip\<close>

text \<open>
  A value fits a column when it is null or of the alternative the column type stores.  These are the
  types both directions handle alike.
\<close>

fun fits :: "ColumnTypes \<Rightarrow> Value \<Rightarrow> bool" where
  "fits CT_INTEGER v = (v = Value_null \<or> (\<exists>i. v = Value_of (VInt i)))"
| "fits CT_TIMESTAMP v = (v = Value_null \<or> (\<exists>l. v = Value_of (VLong l)))"
| "fits CT_VARCHAR v = (v = Value_null \<or> (\<exists>s. v = Value_of (VString s) \<and> length s < 2 ^ 64))"
| "fits _ v = (v = Value_null)"

definition null_byte :: "Value \<Rightarrow> byte" where
  "null_byte v = (if v_null v then 48 else 49)"

lemma fits_value:
  assumes "fits c v" "\<not> v_null v"
  obtains n b where "value_size c v = Inr n" "value_bytes c v = Inr b"
    "\<And>off d. off + length b \<le> length d \<Longrightarrow> peek off (length b) d = b \<Longrightarrow>
       read_value c off d = Inr (v, off + length b)"
proof -
  consider (i) i where "c = CT_INTEGER" "v = Value_of (VInt i)"
    | (t) l where "c = CT_TIMESTAMP" "v = Value_of (VLong l)"
    | (s) s where "c = CT_VARCHAR" "v = Value_of (VString s)" "length s < 2 ^ 64"
    using assms by (cases "(c, v)" rule: fits.cases) (auto simp: Value_null_def)
  then show ?thesis
  proof cases
    case i
    then show ?thesis
      by (intro that [of 4 "le_bytes 4 i"])
        (auto simp: value_size_def value_bytes_def read_value_def GetInt_def Value_of_def)
  next
    case t
    then show ?thesis
      by (intro that [of 8 "le_bytes 8 l"])
        (auto simp: value_size_def value_bytes_def read_value_def GetTimestamp_def Value_of_def)
  next
    case s
    let ?b = "le_bytes 8 (word_of_nat (length s) :: u64) @ s"
    have len: "unat (word_of_nat (length s) :: u64) = length s"
      using s(3) by (simp add: unat_of_nat take_bit_eq_mod)
    have "read_value c off d = Inr (v, off + length ?b)"
      if *: "off + length ?b \<le> length d" "peek off (length ?b) d = ?b" for off d
    proof -
      have "peek off 8 d = le_bytes 8 (word_of_nat (length s) :: u64)" "peek (off + 8) (length s) d = s"
        using peek_appendD [OF *(2)] by simp_all
      then show ?thesis using s len *(1) by (simp add: read_value_def)
    qed
    then show ?thesis
      using s by (intro that [of "8 + length s" ?b])
        (auto simp: value_size_def value_bytes_def GetString_def Value_of_def)
  qed
qed

text \<open>
  What \<^verbatim>\<open>Serialize\<close> takes, and what \<^verbatim>\<open>Deserialize\<close> makes of it: booleans are stored as the characters \<^verbatim>\<open>'0'\<close> and \<^verbatim>\<open>'1'\<close> and
  that byte is copied into a \<^verbatim>\<open>bool\<close>, so that every boolean comes back as true; \<^verbatim>\<open>VARCHAR2\<close> is written but not read.
\<close>

definition typed_value :: "ColumnTypes \<Rightarrow> Value \<Rightarrow> bool" where
  "typed_value c v \<longleftrightarrow> fits c v \<or> c = CT_BOOL \<and> (\<exists>b. v = Value_of (VBool b)) \<or>
     c = CT_VARCHAR2 \<and> (\<exists>s. v = Value_of (VString s) \<and> length s < 2 ^ 64)"

definition reads_back :: "ColumnTypes \<Rightarrow> Value \<Rightarrow> Value" where
  "reads_back c v = (if c = CT_BOOL \<and> \<not> v_null v then Value_of (VBool True) else v)"

definition unreadable :: "ColumnTypes \<Rightarrow> Value \<Rightarrow> bool" where
  "unreadable c v \<longleftrightarrow> c = CT_VARCHAR2 \<and> \<not> v_null v"

abbreviation (input) bad_type :: err where "bad_type \<equiv> InvalidArgument ''Invalid column type''"

lemma fits_null: "fits c v \<Longrightarrow> v_null v \<Longrightarrow> v = Value_null"
  by (cases "(c, v)" rule: fits.cases) (auto simp: Value_of_def)

lemma typed_null: "typed_value c v \<Longrightarrow> v_null v \<Longrightarrow> v = Value_null"
  using fits_null [of c v] by (auto simp: typed_value_def Value_of_def)

lemma fits_reads_back: "fits c v \<Longrightarrow> reads_back c v = v \<and> \<not> unreadable c v"
  by (cases "(c, v)" rule: fits.cases) (auto simp: reads_back_def unreadable_def Value_null_def)

lemma typed_payload:
  assumes "typed_value c v" "\<not> v_null v"
  obtains n b where "value_size c v = Inr n" "value_bytes c v = Inr b"
    "\<And>off d. off + length b \<le> length d \<Longrightarrow> peek off (length b) d = b \<Longrightarrow>
       read_value c off d = (if unreadable c v then Inl bad_type else Inr (reads_back c v, off + length b))"
proof -
  consider (f) "fits c v" | (b) b where "c = CT_BOOL" "v = Value_of (VBool b)" | (s) s where "c = CT_VARCHAR2" "v = Value_of (VString s)"
    using assms(1) by (auto simp: typed_value_def)
  then show ?thesis
  proof cases
    case f
    obtain n b where "value_size c v = Inr n" "value_bytes c v = Inr b" "\<And>off d. off + length b \<le> length d \<Longrightarrow> peek off (length b) d = b \<Longrightarrow>
       read_value c off d = Inr (v, off + length b)" using fits_value [OF f assms(2)] by metis
    then show ?thesis using that fits_reads_back [OF f] by simp
  next
    case (b b)
    then show ?thesis
      by (intro that [of 1 "[if b then 49 else 48]"])
        (auto simp: value_size_def value_bytes_def read_value_def GetBool_def Value_of_def unreadable_def reads_back_def le_word_def)
  next
    case (s s)
    then show ?thesis
      by (intro that [of "8 + length s" "le_bytes 8 (word_of_nat (length s) :: u64) @ s"])
        (auto simp: value_size_def value_bytes_def read_value_def GetString_def Value_of_def unreadable_def)
  qed
qed

lemma ser_typed:
  "list_all2 typed_value cs vs \<Longrightarrow> \<exists>n pl. ser_meta cs vs = Inr (map null_byte vs, n) \<and> ser_payload cs vs = Inr pl"
proof (induction rule: list_all2_induct)
  case (Cons c cs v vs)
  then obtain n pl where IH: "ser_meta cs vs = Inr (map null_byte vs, n)" "ser_payload cs vs = Inr pl" by blast
  show ?case
  proof (cases "v_null v")
    case False
    then obtain k b where "value_size c v = Inr k" "value_bytes c v = Inr b"
      using typed_payload [OF Cons(1)] by metis
    then show ?thesis using False IH by (simp add: null_byte_def)
  qed (use IH in \<open>simp add: null_byte_def\<close>)
qed simp

lemma read_values_typed:
  "list_all2 typed_value cs vs \<Longrightarrow> ser_payload cs vs = Inr pl \<Longrightarrow>
   PAYLOAD_OFFSET + i + length cs \<le> length d \<Longrightarrow> off + length pl \<le> length d \<Longrightarrow>
   peek (PAYLOAD_OFFSET + i) (length cs) d = map null_byte vs \<Longrightarrow> peek off (length pl) d = pl \<Longrightarrow>
   read_values cs i off d = (if list_ex (\<lambda>(c, v). unreadable c v) (zip cs vs) then Inl bad_type else Inr (map2 reads_back cs vs))"
proof (induction cs vs arbitrary: i off pl rule: list_all2_induct)
  case (Cons c cs v vs)
  have len: "length vs = length cs" using Cons(2) by (simp add: list_all2_lengthD)
  have nb: "peek (PAYLOAD_OFFSET + i) 1 d = [null_byte v]"
    and rest: "peek (PAYLOAD_OFFSET + Suc i) (length cs) d = map null_byte vs"
    using peek_appendD [of "PAYLOAD_OFFSET + i" "length (c # cs)" d "[null_byte v]" "map null_byte vs"]
      Cons.prems(4) len by simp_all
  show ?case
  proof (cases "v_null v")
    case True
    then have "v = Value_null" by (rule typed_null [OF Cons(1)])
    then show ?thesis
      using True nb rest Cons.prems Cons.IH [of pl "Suc i" off]
      by (auto simp: null_byte_def Value_null_def unreadable_def reads_back_def split: sum.splits)
  next
    case False
    then obtain n b where b: "value_bytes c v = Inr b"
      and rd: "\<And>off d. off + length b \<le> length d \<Longrightarrow> peek off (length b) d = b \<Longrightarrow>
       read_value c off d = (if unreadable c v then Inl bad_type else Inr (reads_back c v, off + length b))"
      using typed_payload [OF Cons(1)] by metis
    obtain pl' where pl': "ser_payload cs vs = Inr pl'" "pl = b @ pl'"
      using Cons.prems(1) False b by (auto split: sum.splits)
    have pb: "peek off (length b) d = b" "peek (off + length b) (length pl') d = pl'"
      using peek_appendD [of off "length pl" d b pl'] Cons.prems(5) pl'(2) by simp_all
    then have r1: "read_value c off d = (if unreadable c v then Inl bad_type else Inr (reads_back c v, off + length b))"
      using rd Cons.prems(3) pl'(2) by simp
    have "read_values cs (Suc i) (off + length b) d =
        (if list_ex (\<lambda>(c, v). unreadable c v) (zip cs vs) then Inl bad_type else Inr (map2 reads_back cs vs))"
      using Cons.IH [of pl' "Suc i" "off + length b"] Cons.prems(2,3) pl' rest pb by simp
    then show ?thesis using nb r1 False Cons.prems(2) by (simp add: null_byte_def)
  qed
qed simp

text \<open>The special case of rows that fit.\<close>

lemma fits_typed: "list_all2 fits cs vs \<Longrightarrow> list_all2 typed_value cs vs"
  by (erule list_all2_mono) (simp add: typed_value_def)

lemma fits_read_back: "list_all2 fits cs vs \<Longrightarrow> map2 reads_back cs vs = vs \<and> \<not> list_ex (\<lambda>(c, v). unreadable c v) (zip cs vs)"
  by (induction rule: list_all2_induct) (auto simp: fits_reads_back)

lemmas ser_ok = ser_typed [OF fits_typed]

lemma read_values_ser:
  "list_all2 fits cs vs \<Longrightarrow> ser_payload cs vs = Inr pl \<Longrightarrow>
   PAYLOAD_OFFSET + i + length cs \<le> length d \<Longrightarrow> off + length pl \<le> length d \<Longrightarrow>
   peek (PAYLOAD_OFFSET + i) (length cs) d = map null_byte vs \<Longrightarrow> peek off (length pl) d = pl \<Longrightarrow>
   read_values cs i off d = Inr vs"
  using read_values_typed [OF fits_typed] fits_read_back by simp

text \<open>
  C30. What becomes of a row that is serialized and read again.  For values of the types of their columns, or null, \<^verbatim>\<open>Serialize\<close> succeeds and
  fills exactly \<^verbatim>\<open>use_size_\<close> bytes.  If they are integers, timestamps, strings of \<^verbatim>\<open>VARCHAR\<close> columns and nulls, \<^verbatim>\<open>Deserialize\<close> gives back the record
  header and every value.  In general it gives back the header and the values with every boolean turned into true, or, if a \<^verbatim>\<open>VARCHAR2\<close> column
  holds a string, throws.
\<close>

theorem row_roundtrip:
  assumes "list_all2 typed_value (map ce_type sch) vs"
  shows "\<exists>d n. Row_Serialize sch h vs = Inr (d, n) \<and> length d = n \<and>
    (list_all2 fits (map ce_type sch) vs \<longrightarrow> Row_Deserialize sch d = Inr (h, vs)) \<and>
    Row_Deserialize sch d = (if list_ex (\<lambda>(c, v). unreadable c v) (zip (map ce_type sch) vs) then Inl bad_type
      else Inr (h, map2 reads_back (map ce_type sch) vs))"
proof -
  obtain n pl where s: "ser_meta (map ce_type sch) vs = Inr (map null_byte vs, n)"
    "ser_payload (map ce_type sch) vs = Inr pl" using ser_typed [OF assms] by blast
  let ?d = "header_bytes h @ map null_byte vs @ pl" and ?cs = "map ce_type sch"
  have len: "length vs = length sch" "length pl = n"
    using ser_sizes [OF s] by simp_all
  have r: "read_values ?cs 0 (PAYLOAD_OFFSET + length sch) ?d =
      (if list_ex (\<lambda>(c, v). unreadable c v) (zip ?cs vs) then Inl bad_type else Inr (map2 reads_back ?cs vs))"
    by (rule read_values_typed [OF assms s(2)]) (simp_all add: len peek_def)
  then show ?thesis
    using s len fits_read_back [of ?cs vs] by (simp add: Row_Serialize_def Row_Deserialize_def read_header_bytes)
qed

definition user_schema :: Schema where
  "user_schema = [\<lparr>ce_id = 0, ce_name = ''name'', ce_type = CT_VARCHAR, ce_default = Value_of (VString [])\<rparr>,
                  \<lparr>ce_id = 1, ce_name = ''age'', ce_type = CT_INTEGER, ce_default = Value_of (VInt 0)\<rparr>]"

theorem row_roundtrip_witness:
  "\<exists>d n. Row_Serialize user_schema \<lparr>rh_trx_id = 7, rh_roll_ptr = null_ptr, rh_flags = 0\<rparr>
      [Value_of (VString [65, 66]), Value_null] = Inr (d, n) \<and> length d = n \<and>
    Row_Deserialize user_schema d = Inr (\<lparr>rh_trx_id = 7, rh_roll_ptr = null_ptr, rh_flags = 0\<rparr>,
      [Value_of (VString [65, 66]), Value_null])"
proof -
  have f: "list_all2 fits (map ce_type user_schema) [Value_of (VString [65, 66]), Value_null]" by (simp add: user_schema_def) auto
  then have "list_all2 typed_value (map ce_type user_schema) [Value_of (VString [65, 66]), Value_null]" by (rule fits_typed)
  from row_roundtrip [OF this] f show ?thesis by metis
qed

text \<open>
  The two directions disagree on booleans: \<^verbatim>\<open>Serialize\<close> stores the characters \<^verbatim>\<open>'0'\<close> and
  \<^verbatim>\<open>'1'\<close>, \<^verbatim>\<open>Deserialize\<close> copies that byte into a \<^verbatim>\<open>bool\<close>, so false comes back as true.
\<close>

lemma bool_false_reads_true:
  assumes "ce_type c = CT_BOOL"
  shows "\<exists>d n. Row_Serialize [c] h [Value_of (VBool False)] = Inr (d, n) \<and>
    Row_Deserialize [c] d = Inr (h, [Value_of (VBool True)])"
proof -
  let ?d = "header_bytes h @ [49, 48]"
  have "mem_read PAYLOAD_OFFSET 1 ?d = Inr [49]" "mem_read (PAYLOAD_OFFSET + 1) 1 ?d = Inr [48]"
    by (simp_all add: peek_def)
  then show ?thesis
    using assms read_header_bytes [of h "[49, 48]"]
    by (simp add: Row_Serialize_def Row_Deserialize_def value_size_def value_bytes_def GetBool_def
        Value_of_def read_value_def le_word_def)
qed

theorem bool_false_reads_true_witness:
  "\<exists>d n. Row_Serialize [\<lparr>ce_id = 0, ce_name = ''b'', ce_type = CT_BOOL, ce_default = Value_of (VBool False)\<rparr>]
      \<lparr>rh_trx_id = 1, rh_roll_ptr = null_ptr, rh_flags = 0\<rparr> [Value_of (VBool False)] = Inr (d, n) \<and>
    Row_Deserialize [\<lparr>ce_id = 0, ce_name = ''b'', ce_type = CT_BOOL, ce_default = Value_of (VBool False)\<rparr>] d =
      Inr (\<lparr>rh_trx_id = 1, rh_roll_ptr = null_ptr, rh_flags = 0\<rparr>, [Value_of (VBool True)])"
  by (rule bool_false_reads_true) simp

end
