(* ===== verification/Meta_Page.thy ===== *)
theory Meta_Page
  imports Frame_Access Row_Codec "HOL-Library.AList"
begin

text \<open>
  The catalog page of \<^verbatim>\<open>buffer/meta_page.cpp\<close>: page 0 of the file holds \<open>version | table_size |
  last_point\<close> and then one item per table (name, first page, row count, table id, last page, offset,
  columns).  \<^verbatim>\<open>MetaPage\<close> keeps the items in memory as well and writes every change through.  The page
  is accessed through the frame the pool handed out, so all operations run over the store (pool and
  catalog page together).
\<close>

section \<open>State\<close>

record MetaColumnItem =
  mc_name :: string
  mc_type :: ColumnTypes
  mc_flags :: u8
  mc_id :: entry_id

record MetaItem =
  mi_first :: page_id_t
  mi_name :: string
  mi_rows :: u64
  mi_id :: entry_id
  mi_last :: page_id_t
  mi_offset :: u64
  mi_items :: "MetaColumnItem list"

text \<open>\<open>mp_frame\<close> is the pointer \<^verbatim>\<open>meta_page_\<close>; \<open>mp_items\<close> lists the entries of the hash map \<^verbatim>\<open>items_\<close>.\<close>

record MetaPage =
  mp_version :: u64
  mp_table_size :: u64
  mp_last_point :: u64
  mp_frame :: frame_id
  mp_name_tables :: "string \<Rightarrow> page_id_t option"
  mp_id_tables :: "entry_id \<Rightarrow> page_id_t option"
  mp_items :: "(entry_id \<times> MetaItem) list"

record Store =
  st_bm :: BufferManager
  st_meta :: MetaPage

abbreviation (input) META_PAGE_ID :: page_id_t where "META_PAGE_ID \<equiv> 0"
abbreviation (input) ITEMS_OFFSET_BEGIN :: u64 where "ITEMS_OFFSET_BEGIN \<equiv> 24"
abbreviation (input) ITEM_FIXED_SIZE :: u64 where "ITEM_FIXED_SIZE \<equiv> 40"

section \<open>The pool and the catalog page as one state\<close>

definition in_bm :: "(BufferManager, 'a) comp \<Rightarrow> (Store, 'a) comp" where
  "in_bm = zoom st_bm (\<lambda>b s. s\<lparr>st_bm := b\<rparr>)"

definition on_meta :: "(MetaPage \<Rightarrow> MetaPage) \<Rightarrow> (Store, unit) comp" where
  "on_meta g = modify (\<lambda>s. s\<lparr>st_meta := g (st_meta s)\<rparr>)"

section \<open>Operations\<close>

text \<open>The constructor fetches page 0 and keeps it pinned.\<close>

definition MetaPage_new :: "BufferManager \<Rightarrow> Store res" where
  "MetaPage_new b = (case BM_FetchPage META_PAGE_ID b of
     (Inl e, _) \<Rightarrow> Inl e
   | (Inr f, b') \<Rightarrow> Inr \<lparr>st_bm = b',
       st_meta = \<lparr>mp_version = 0, mp_table_size = 0, mp_last_point = ITEMS_OFFSET_BEGIN, mp_frame = f,
                  mp_name_tables = (\<lambda>_. None), mp_id_tables = (\<lambda>_. None), mp_items = []\<rparr>\<rparr>)"

definition mp_write :: "nat \<Rightarrow> bytes \<Rightarrow> (Store, unit) comp" where
  "mp_write off bs = bnd (gets (\<lambda>s. mp_frame (st_meta s))) (\<lambda>f. in_bm (fr_write f off bs))"

definition mp_read :: "nat \<Rightarrow> nat \<Rightarrow> (Store, bytes) comp" where
  "mp_read off n = bnd (gets (\<lambda>s. mp_frame (st_meta s))) (\<lambda>f. in_bm (fr_read f off n))"

text \<open>The tail of every change: mark the page dirty and flush it.\<close>

definition mp_flush :: "(Store, unit) comp" where
  "mp_flush = bnd (gets (\<lambda>s. mp_frame (st_meta s))) (\<lambda>f.
     thn (in_bm (fr_dirty f)) (bnd (gets (\<lambda>s. pg_id (frame_of f (st_bm s)))) (\<lambda>i. in_bm (BM_Flush i))))"

definition MP_WriteLastPoint :: "(Store, unit) comp" where
  "MP_WriteLastPoint = bnd (gets (\<lambda>s. mp_last_point (st_meta s))) (\<lambda>lp.
     thn (mp_write 16 (le_bytes 8 lp)) mp_flush)"

definition MP_UpdateTableSize :: "u64 \<Rightarrow> (Store, unit) comp" where
  "MP_UpdateTableSize change =
     thn (on_meta (\<lambda>m. m\<lparr>mp_table_size := mp_table_size m + change\<rparr>))
     (bnd (gets (\<lambda>s. mp_table_size (st_meta s))) (\<lambda>ts. thn (mp_write 8 (le_bytes 8 ts)) mp_flush))"

subsection \<open>Reading the page\<close>

text \<open>An underlying value that is no enumerator behaves like \<open>CT_INVALID\<close>: every switch takes its default.\<close>

definition ColumnTypes_of :: "u8 \<Rightarrow> ColumnTypes" where
  "ColumnTypes_of b =
     (if b = 1 then CT_INTEGER else if b = 2 then CT_BOOL else if b = 3 then CT_DOUBLE
      else if b = 4 then CT_VARCHAR else if b = 5 then CT_VARCHAR2 else if b = 6 then CT_TIMESTAMP
      else if b = 7 then CT_NULLTYPE else CT_INVALID)"

definition read_u64 :: "nat \<Rightarrow> bytes \<Rightarrow> u64 res" where
  "read_u64 off d = (case mem_read off 8 d of Inl e \<Rightarrow> Inl e | Inr bs \<Rightarrow> Inr (le_word bs))"

definition read_column :: "nat \<Rightarrow> bytes \<Rightarrow> (MetaColumnItem \<times> nat) res" where
  "read_column off d = (case read_u64 off d of
     Inl e \<Rightarrow> Inl e
   | Inr len \<Rightarrow> (let o1 = off + 8; o2 = o1 + unat len in
       case (mem_read o1 (unat len) d, mem_read o2 1 d, mem_read (o2 + 1) 1 d, read_u64 (o2 + 2) d) of
         (Inr n, Inr ty, Inr fl, Inr i) \<Rightarrow>
           Inr (\<lparr>mc_name = bytes_str n, mc_type = ColumnTypes_of (le_word ty), mc_flags = le_word fl, mc_id = i\<rparr>,
                o2 + 10)
       | _ \<Rightarrow> Inl MemoryFault))"

fun read_columns :: "nat \<Rightarrow> nat \<Rightarrow> bytes \<Rightarrow> (MetaColumnItem list \<times> nat) res" where
  "read_columns 0 off d = Inr ([], off)"
| "read_columns (Suc k) off d = (case read_column off d of
     Inl e \<Rightarrow> Inl e
   | Inr (c, o1) \<Rightarrow> (case read_columns k o1 d of
       Inl e \<Rightarrow> Inl e | Inr (cs, o2) \<Rightarrow> Inr (c # cs, o2)))"

definition read_item :: "nat \<Rightarrow> bytes \<Rightarrow> (MetaItem \<times> nat) res" where
  "read_item off d = (case read_u64 off d of
     Inl e \<Rightarrow> Inl e
   | Inr len \<Rightarrow> (let o1 = off + 8; o2 = o1 + unat len in
       case (mem_read o1 (unat len) d, read_u64 o2 d, read_u64 (o2 + 8) d, read_u64 (o2 + 16) d,
             read_u64 (o2 + 24) d, read_u64 (o2 + 40) d) of
         (Inr n, Inr first, Inr rows, Inr i, Inr lst, Inr ncols) \<Rightarrow>
           (case read_columns (unat ncols) (o2 + 48) d of
              Inl e \<Rightarrow> Inl e
            | Inr (cs, o3) \<Rightarrow>
                Inr (\<lparr>mi_first = first, mi_name = bytes_str n, mi_rows = rows, mi_id = i, mi_last = lst,
                      mi_offset = word_of_nat off, mi_items = cs\<rparr>, o3))
       | _ \<Rightarrow> Inl MemoryFault))"

definition remember_item :: "MetaItem \<Rightarrow> MetaPage \<Rightarrow> MetaPage" where
  "remember_item it m = m\<lparr>mp_name_tables := (mp_name_tables m)(mi_name it \<mapsto> mi_first it),
     mp_id_tables := (mp_id_tables m)(mi_id it \<mapsto> mi_first it),
     mp_items := AList.update (mi_id it) it (mp_items m)\<rparr>"

text \<open>The loop of \<^verbatim>\<open>ReadMata\<close> over \<^verbatim>\<open>table_size_\<close> items; what was read before a fault stays.\<close>

fun read_items :: "nat \<Rightarrow> nat \<Rightarrow> bytes \<Rightarrow> (MetaPage, nat) comp" where
  "read_items 0 off d = ret off"
| "read_items (Suc k) off d = bnd (of_res (read_item off d)) (\<lambda>(it, o1).
     thn (modify (remember_item it)) (read_items k o1 d))"

definition MP_ReadMata :: "(Store, unit) comp" where
  "MP_ReadMata =
     bnd (mp_read 0 8) (\<lambda>v. bnd (mp_read 8 8) (\<lambda>ts. bnd (mp_read 16 8) (\<lambda>lp.
     thn (on_meta (\<lambda>m. m\<lparr>mp_version := le_word v, mp_table_size := le_word ts, mp_last_point := le_word lp\<rparr>))
     (if (le_word ts :: u64) = 0 then ret ()
      else bnd (gets (\<lambda>s. pg_data (frame_of (mp_frame (st_meta s)) (st_bm s)))) (\<lambda>d.
        bnd (zoom st_meta (\<lambda>m s. s\<lparr>st_meta := m\<rparr>) (read_items (unat (le_word ts :: u64)) 24 d)) (\<lambda>off.
        on_meta (\<lambda>m. m\<lparr>mp_last_point := word_of_nat off\<rparr>)))))))"

definition MP_Init :: "(Store, unit) comp" where
  "MP_Init = bnd (mp_read 8 8) (\<lambda>ts. bnd (in_bm BM_CurrFileSize) (\<lambda>sz.
     if 0 < sz \<and> 0 < (le_word ts :: u64) then MP_ReadMata
     else thn (on_meta (\<lambda>m. m\<lparr>mp_version := 0, mp_table_size := 0, mp_last_point := 24\<rparr>))
       (thn (mp_write 0 (le_bytes 8 (0 :: u64))) (thn (mp_write 8 (le_bytes 8 (0 :: u64)))
       (thn (mp_write 16 (le_bytes 8 (24 :: u64))) mp_flush)))))"

subsection \<open>Lookups and updates\<close>

definition MP_GetFirstPageId_by_name :: "string \<Rightarrow> (Store, page_id_t) comp" where
  "MP_GetFirstPageId_by_name n = bnd (gets (\<lambda>s. mp_name_tables (st_meta s) n)) (\<lambda>r. case r of
     None \<Rightarrow> throw (RuntimeError ''MetaPage::GetFirstPageId for tableName does not exist'') | Some i \<Rightarrow> ret i)"

definition MP_GetFirstPageId :: "entry_id \<Rightarrow> (Store, page_id_t) comp" where
  "MP_GetFirstPageId t = bnd (gets (\<lambda>s. mp_id_tables (st_meta s) t)) (\<lambda>r. case r of
     None \<Rightarrow> throw (RuntimeError ''MetaPage::GetFirstPageId for tableId does not exist'') | Some i \<Rightarrow> ret i)"

definition mp_item :: "entry_id \<Rightarrow> Store \<Rightarrow> MetaItem option" where
  "mp_item t s = map_of (mp_items (st_meta s)) t"

definition set_item :: "entry_id \<Rightarrow> MetaItem \<Rightarrow> (Store, unit) comp" where
  "set_item t it = on_meta (\<lambda>m. m\<lparr>mp_items := AList.update t it (mp_items m)\<rparr>)"

definition MP_GetNameLen :: "MetaItem \<Rightarrow> (Store, u64) comp" where
  "MP_GetNameLen it = bnd (mp_read (unat (mi_offset it)) 8) (\<lambda>bs. ret (le_word bs))"

text \<open>
  \<open>rows_after\<close> is the new row count: a decrease below zero stops at zero.  The code adds in \<^verbatim>\<open>int64_t\<close>; that this overflows
  from \<open>2 ^ 63\<close> rows on is not modelled, the sum wraps.
\<close>

definition rows_after :: "u64 \<Rightarrow> u64 \<Rightarrow> u64" where
  "rows_after rows change = (if sint change < 0 \<and> rows < - change then 0 else rows + change)"

definition MP_UpdateTableRows :: "entry_id \<Rightarrow> u64 \<Rightarrow> (Store, unit) comp" where
  "MP_UpdateTableRows t change = bnd (gets (mp_item t)) (\<lambda>r. case r of
     None \<Rightarrow> throw (RuntimeError ''MetaPage::UpdateTableRows don`t find target table_id'')
   | Some it \<Rightarrow> (let it' = it\<lparr>mi_rows := rows_after (mi_rows it) change\<rparr> in
       thn (set_item t it') (bnd (MP_GetNameLen it') (\<lambda>len.
       thn (mp_write (unat (mi_offset it' + 8 + len + 8)) (le_bytes 8 (mi_rows it'))) mp_flush))))"

definition MP_UpdateTableFirstId :: "entry_id \<Rightarrow> page_id_t \<Rightarrow> (Store, unit) comp" where
  "MP_UpdateTableFirstId t pid = bnd (gets (mp_item t)) (\<lambda>r. case r of
     None \<Rightarrow> throw (RuntimeError ''MetaPage::UpdateTableLastId don`t find target table_id'')
   | Some it \<Rightarrow> (let it' = it\<lparr>mi_first := pid\<rparr> in
       thn (set_item t it')
       (thn (on_meta (\<lambda>m. m\<lparr>mp_name_tables := (mp_name_tables m)(mi_name it' \<mapsto> pid),
                             mp_id_tables := (mp_id_tables m)(t \<mapsto> pid)\<rparr>))
       (bnd (MP_GetNameLen it') (\<lambda>len.
       thn (mp_write (unat (mi_offset it' + 8 + len)) (le_bytes 8 (mi_first it'))) mp_flush)))))"

definition MP_UpdateTableLastId :: "entry_id \<Rightarrow> page_id_t \<Rightarrow> (Store, unit) comp" where
  "MP_UpdateTableLastId t pid = bnd (gets (mp_item t)) (\<lambda>r. case r of
     None \<Rightarrow> throw (RuntimeError ''MetaPage::UpdateTableLastId don`t find target table_id'')
   | Some it \<Rightarrow> (let it' = it\<lparr>mi_last := pid\<rparr> in
       thn (set_item t it') (bnd (MP_GetNameLen it') (\<lambda>len.
       thn (mp_write (unat (mi_offset it' + 8 + len + 8 + 8 + 8)) (le_bytes 8 (mi_last it'))) mp_flush))))"

subsection \<open>Adding a table\<close>

text \<open>One \<^verbatim>\<open>memcpy\<close> at \<^verbatim>\<open>last_point_\<close>, which then moves behind it.\<close>

definition mp_emit :: "bytes \<Rightarrow> (Store, unit) comp" where
  "mp_emit bs = bnd (gets (\<lambda>s. mp_last_point (st_meta s))) (\<lambda>lp.
     thn (mp_write (unat lp) bs) (on_meta (\<lambda>m. m\<lparr>mp_last_point := lp + word_of_nat (length bs)\<rparr>)))"

definition column_chunks :: "MetaColumnItem \<Rightarrow> bytes list" where
  "column_chunks c = [le_bytes 8 (word_of_nat (length (mc_name c)) :: u64), str_bytes (mc_name c),
     [ColumnTypes_code (mc_type c)], [mc_flags c], le_bytes 8 (mc_id c)]"

definition item_chunks :: "MetaItem \<Rightarrow> bytes list" where
  "item_chunks it = [le_bytes 8 (word_of_nat (length (mi_name it)) :: u64), str_bytes (mi_name it),
     le_bytes 8 (mi_first it), le_bytes 8 (mi_rows it), le_bytes 8 (mi_id it), le_bytes 8 (mi_last it),
     le_bytes 8 (mi_offset it), le_bytes 8 (word_of_nat (length (mi_items it)) :: u64)] @
     concat (map column_chunks (mi_items it))"

definition MP_AddTable :: "MetaItem \<Rightarrow> (Store, unit) comp" where
  "MP_AddTable item = bnd (gets (\<lambda>s. mp_last_point (st_meta s))) (\<lambda>lp.
     (let it = item\<lparr>mi_offset := (if lp = 0 then ITEMS_OFFSET_BEGIN else lp)\<rparr>;
          need = ITEM_FIXED_SIZE + word_of_nat (length (mi_name it)) in
      if 4096 \<le> lp + need
      then throw (RuntimeError ''MetaPage::AddTable: Not enough space for last page'')
      else thn (for_each (item_chunks it) mp_emit)
        (thn (on_meta (remember_item it)) (thn MP_WriteLastPoint (MP_UpdateTableSize 1)))))"

section \<open>The catalog page in the pool\<close>

definition store_ok :: "Store \<Rightarrow> bool" where
  "store_ok s \<longleftrightarrow> held META_PAGE_ID (mp_frame (st_meta s)) (st_bm s)"

definition mdata :: "Store \<Rightarrow> bytes" where
  "mdata s = fdata (mp_frame (st_meta s)) (st_bm s)"

definition mput :: "bytes \<Rightarrow> Store \<Rightarrow> Store" where
  "mput d s = s\<lparr>st_bm := put (mp_frame (st_meta s)) d (st_bm s)\<rparr>"

definition mflush :: "Store \<Rightarrow> Store" where
  "mflush s = s\<lparr>st_bm := flushed (mp_frame (st_meta s)) (st_bm s)\<rparr>"

text \<open>A change of page 0 only.\<close>

definition meta_only :: "Store \<Rightarrow> Store \<Rightarrow> bool" where
  "meta_only s t \<longleftrightarrow> only_frame (mp_frame (st_meta s)) (st_bm s) (st_bm t) \<and>
     mp_frame (st_meta t) = mp_frame (st_meta s)"

lemma meta_only_trans: "meta_only s t \<Longrightarrow> meta_only t u \<Longrightarrow> meta_only s u"
  by (auto simp: meta_only_def intro: only_frame_trans)

lemma meta_only_ok: "store_ok s \<Longrightarrow> meta_only s t \<Longrightarrow> store_ok t"
  by (auto simp: meta_only_def store_ok_def intro: only_frame_held)

lemma meta_only_refl: "store_ok s \<Longrightarrow> meta_only s s"
  by (simp add: meta_only_def store_ok_def held_def only_frame_refl)

lemma length_mdata: "store_ok s \<Longrightarrow> length (mdata s) = PAGE_SIZE"
  by (simp add: store_ok_def mdata_def heldD)

lemma mput_facts:
  assumes "store_ok s" "length d = PAGE_SIZE"
  shows "meta_only s (mput d s)" "mdata (mput d s) = d" "st_meta (mput d s) = st_meta s"
  using assms fdata_put by (auto simp: mput_def meta_only_def store_ok_def mdata_def intro: only_frame_put)

lemma mput_mput [simp]: "mput d (mput e s) = mput d s"
  by (simp add: mput_def)

lemma mput_same: "store_ok s \<Longrightarrow> mput (mdata s) s = s"
  by (simp add: mput_def mdata_def store_ok_def put_same)

lemma mflush_facts:
  assumes "store_ok s"
  shows "meta_only s (mflush s)" "mdata (mflush s) = mdata s" "st_meta (mflush s) = st_meta s"
    "stored (bm_disk (st_bm (mflush s))) META_PAGE_ID = Some (mdata s)"
  using flushed_facts [OF assms [unfolded store_ok_def]] by (simp_all add: mflush_def meta_only_def mdata_def)

lemma in_bm_run [comp_simps]: "m (st_bm s) = (r, b) \<Longrightarrow> in_bm m s = (r, s\<lparr>st_bm := b\<rparr>)"
  by (simp add: in_bm_def zoom_def)

lemma on_meta_run [comp_simps]: "on_meta g s = (Inr (), s\<lparr>st_meta := g (st_meta s)\<rparr>)"
  by (simp add: on_meta_def comp_simps)

lemma mp_read_run:
  assumes "store_ok s" "off + n \<le> PAGE_SIZE"
  shows "mp_read off n s = (Inr (peek off n (mdata s)), s)"
  using assms length_mdata [OF assms(1)] by (simp add: mp_read_def comp_simps mdata_def)

lemma mp_read_held:
  "store_ok s \<Longrightarrow> holds_at off bs (mdata s) \<Longrightarrow> n = length bs \<Longrightarrow> mp_read off n s = (Inr bs, s)"
  using length_mdata [of s] holds_at_len [of off bs "mdata s"] holds_at_peek [of off bs "mdata s"]
  by (simp add: mp_read_run)

lemma mp_write_run:
  assumes "store_ok s" "off + length bs \<le> PAGE_SIZE"
  shows "mp_write off bs s = (Inr (), mput (poke off bs (mdata s)) s)"
  using assms fr_write_put [of 0 "mp_frame (st_meta s)" "st_bm s"]
  by (simp add: mp_write_def comp_simps mdata_def mput_def store_ok_def)

lemma mp_flush_run:
  assumes "store_ok s"
  shows "mp_flush s = (Inr (), mflush s)"
proof -
  let ?u = "s\<lparr>st_bm := on_frame (mp_frame (st_meta s)) (\<lambda>p. p\<lparr>pg_dirty := True\<rparr>) (st_bm s)\<rparr>"
  have h: "held 0 (mp_frame (st_meta s)) (st_bm s)" using assms by (simp add: store_ok_def)
  have "pg_id (frame_of (mp_frame (st_meta s)) (st_bm ?u)) = 0"
    using heldD(6) [OF only_frame_held [OF only_frame_dirty [OF h] h]] by simp
  then show ?thesis
    using flush_run [OF h] by (simp add: mp_flush_def comp_simps mflush_def)
qed

lemma store_ok_with_meta [simp]:
  "mp_frame (g (st_meta s)) = mp_frame (st_meta s) \<Longrightarrow> store_ok (s\<lparr>st_meta := g (st_meta s)\<rparr>) = store_ok s"
  by (simp add: store_ok_def)

section \<open>The bytes of an item\<close>

definition column_bytes :: "MetaColumnItem \<Rightarrow> bytes" where
  "column_bytes c = concat (column_chunks c)"

definition item_bytes :: "MetaItem \<Rightarrow> bytes" where
  "item_bytes it = concat (item_chunks it)"

definition items_bytes :: "MetaItem list \<Rightarrow> bytes" where
  "items_bytes its = concat (map item_bytes its)"

lemma item_bytes_split: "item_bytes it =
    le_bytes 8 (word_of_nat (length (mi_name it)) :: u64) @ str_bytes (mi_name it) @
    le_bytes 8 (mi_first it) @ le_bytes 8 (mi_rows it) @ le_bytes 8 (mi_id it) @ le_bytes 8 (mi_last it) @
    le_bytes 8 (mi_offset it) @ le_bytes 8 (word_of_nat (length (mi_items it)) :: u64) @
    concat (map column_bytes (mi_items it))"
proof -
  have "concat (concat (map column_chunks cs)) = concat (map column_bytes cs)" for cs
    by (induction cs) (simp_all add: column_bytes_def)
  then show ?thesis by (simp add: item_bytes_def item_chunks_def)
qed

lemma column_bytes_split: "column_bytes c =
    le_bytes 8 (word_of_nat (length (mc_name c)) :: u64) @ str_bytes (mc_name c) @
    [ColumnTypes_code (mc_type c)] @ [mc_flags c] @ le_bytes 8 (mc_id c)"
  by (simp add: column_bytes_def column_chunks_def)

lemma items_bytes_simps [simp]: "items_bytes [] = []" "items_bytes (it # its) = item_bytes it @ items_bytes its"
  "items_bytes (xs @ ys) = items_bytes xs @ items_bytes ys"
  by (simp_all add: items_bytes_def)

lemma ColumnTypes_of_code [simp]: "ColumnTypes_of (ColumnTypes_code c) = c"
  by (cases c) (simp_all add: ColumnTypes_of_def)

lemma le_word_single [simp]: "le_word [b] = (b :: u8)"
  by (simp add: le_word_def)

lemma unat_small: "n \<le> 4096 \<Longrightarrow> unat (word_of_nat n :: u64) = n"
  by (simp add: unat_of_nat take_bit_eq_mod)

lemma read_u64_held: "holds_at off (le_bytes 8 w) d \<Longrightarrow> read_u64 off d = Inr w"
  using holds_at_read [of off "le_bytes 8 w" d 8] by (simp add: read_u64_def)

lemma read_column_held:
  assumes "holds_at off (column_bytes c) d" "length d \<le> 4096"
  shows "read_column off d = Inr (c, off + length (column_bytes c))"
proof -
  let ?n = "length (mc_name c)"
  note h = assms(1) [unfolded column_bytes_split holds_at_append length_le_bytes length_str_bytes]
  have n: "unat (word_of_nat ?n :: u64) = ?n" using h assms(2) by (intro unat_small) (auto dest: holds_at_len)
  from h have "read_u64 off d = Inr (word_of_nat ?n)" by (blast intro: read_u64_held)
  moreover from h have "mem_read (off + 8) ?n d = Inr (str_bytes (mc_name c))"
    by (auto intro!: holds_at_read)
  moreover from h have "mem_read (off + 8 + ?n) 1 d = Inr [ColumnTypes_code (mc_type c)]"
    by (auto intro!: holds_at_read simp del: One_nat_def)
  moreover from h have "mem_read (off + 8 + ?n + 1) 1 d = Inr [mc_flags c]"
    by (auto intro!: holds_at_read simp del: One_nat_def simp: add_ac)
  moreover from h have "read_u64 (off + 8 + ?n + 2) d = Inr (mc_id c)"
    by (auto intro!: read_u64_held simp: add_ac)
  ultimately show ?thesis
    by (simp add: read_column_def n Let_def column_bytes_split del: One_nat_def)
qed

lemma read_columns_held:
  assumes "holds_at off (concat (map column_bytes cs)) d" "length d \<le> 4096"
  shows "read_columns (length cs) off d = Inr (cs, off + length (concat (map column_bytes cs)))"
  using assms(1)
proof (induction cs arbitrary: off)
  case (Cons c cs)
  then have "read_column off d = Inr (c, off + length (column_bytes c))"
    by (intro read_column_held assms(2)) simp
  moreover have "holds_at (off + length (column_bytes c)) (concat (map column_bytes cs)) d"
    using Cons.prems by simp
  ultimately show ?case using Cons.IH by simp
qed simp

lemma columns_le_bytes: "length cs \<le> length (concat (map column_bytes cs))"
  by (induction cs) (auto simp: column_bytes_def column_chunks_def)

lemma read_item_held:
  assumes "holds_at off (item_bytes it) d" "length d \<le> 4096" "mi_offset it = word_of_nat off"
  shows "read_item off d = Inr (it, off + length (item_bytes it))"
proof -
  let ?n = "length (mi_name it)" and ?k = "length (mi_items it)"
  note h = assms(1) [unfolded item_bytes_split holds_at_append length_le_bytes length_str_bytes]
  have n: "unat (word_of_nat ?n :: u64) = ?n" using h assms(2) by (intro unat_small) (auto dest: holds_at_len)
  have "off + ?n + 56 + length (concat (map column_bytes (mi_items it))) \<le> 4096"
    using holds_at_len [OF assms(1)] assms(2) by (simp add: item_bytes_split)
  then have k: "unat (word_of_nat ?k :: u64) = ?k"
    using columns_le_bytes [of "mi_items it"] by (intro unat_small) linarith
  from h have "read_u64 off d = Inr (word_of_nat ?n)" by (blast intro: read_u64_held)
  moreover from h have "mem_read (off + 8) ?n d = Inr (str_bytes (mi_name it))" by (auto intro!: holds_at_read)
  moreover from h have "read_u64 (off + 8 + ?n) d = Inr (mi_first it)" by (auto intro!: read_u64_held)
  moreover from h have "read_u64 (off + 8 + ?n + 8) d = Inr (mi_rows it)"
    "read_u64 (off + 8 + ?n + 16) d = Inr (mi_id it)" "read_u64 (off + 8 + ?n + 24) d = Inr (mi_last it)"
    "read_u64 (off + 8 + ?n + 40) d = Inr (word_of_nat ?k)"
    by (auto intro!: read_u64_held simp: add_ac)
  moreover from h have "read_columns ?k (off + 8 + ?n + 48) d =
      Inr (mi_items it, off + 8 + ?n + 48 + length (concat (map column_bytes (mi_items it))))"
    by (intro read_columns_held assms(2)) (simp add: add_ac)
  ultimately show ?thesis
    using assms(3) by (simp add: read_item_def n k Let_def item_bytes_split)
qed

section \<open>The catalog as a list of items\<close>

text \<open>
  \<open>meta_rep s its\<close>: the catalog consists of the items \<open>its\<close>, in the order they were added, both in
  the bytes of page 0 and in the tables in memory.
\<close>

fun layout :: "nat \<Rightarrow> MetaItem list \<Rightarrow> bool" where
  "layout off [] = True"
| "layout off (it # its) = (mi_offset it = word_of_nat off \<and> layout (off + length (item_bytes it)) its)"

definition header_words :: "u64 \<Rightarrow> MetaItem list \<Rightarrow> bytes" where
  "header_words v its = le_bytes 8 v @ le_bytes 8 (word_of_nat (length its) :: u64) @
     le_bytes 8 (word_of_nat (24 + length (items_bytes its)) :: u64)"

definition tables_of :: "MetaItem list \<Rightarrow> MetaPage \<Rightarrow> bool" where
  "tables_of its m \<longleftrightarrow> distinct (map mi_id its) \<and> distinct (map mi_name its) \<and>
     mp_items m = map (\<lambda>it. (mi_id it, it)) its \<and>
     mp_id_tables m = map_of (map (\<lambda>it. (mi_id it, mi_first it)) its) \<and>
     mp_name_tables m = map_of (map (\<lambda>it. (mi_name it, mi_first it)) its)"

definition page_rep :: "u64 \<Rightarrow> MetaItem list \<Rightarrow> bytes \<Rightarrow> bool" where
  "page_rep v its d \<longleftrightarrow> length d = PAGE_SIZE \<and> layout 24 its \<and>
     holds_at 0 (header_words v its @ items_bytes its) d"

definition meta_rep :: "Store \<Rightarrow> MetaItem list \<Rightarrow> bool" where
  "meta_rep s its \<longleftrightarrow> store_ok s \<and> page_rep (mp_version (st_meta s)) its (mdata s) \<and>
     tables_of its (st_meta s) \<and> mp_table_size (st_meta s) = word_of_nat (length its) \<and>
     mp_last_point (st_meta s) = word_of_nat (24 + length (items_bytes its))"

lemma length_header_words [simp]: "length (header_words v its) = 24"
  by (simp add: header_words_def)

lemma layout_append: "layout off (xs @ ys) \<longleftrightarrow> layout off xs \<and> layout (off + length (items_bytes xs)) ys"
  by (induction xs arbitrary: off) (simp_all add: add.assoc)

lemma map_upd_as_add: "m k = None \<Longrightarrow> [k \<mapsto> v] ++ m = m(k \<mapsto> v)"
  by (auto simp: fun_eq_iff map_add_def split: option.split)

lemma AList_update_fresh: "k \<notin> fst ` set xs \<Longrightarrow> AList.update k v xs = xs @ [(k, v)]"
  by (induction xs) auto

lemma tables_of_remember:
  assumes "tables_of its m" "mi_id it \<notin> mi_id ` set its" "mi_name it \<notin> mi_name ` set its"
  shows "tables_of (its @ [it]) (remember_item it m)"
  using assms by (auto simp: tables_of_def remember_item_def AList_update_fresh map_upd_as_add map_of_eq_None_iff image_iff)

lemma items_le_bytes: "length its \<le> length (items_bytes its)"
  by (induction its) (auto simp: item_bytes_split)

text \<open>Reading the items back rebuilds the tables.\<close>

lemma read_items_held:
  assumes "holds_at off (items_bytes its) d" "length d \<le> 4096" "layout off its"
  shows "read_items (length its) off d m = (Inr (off + length (items_bytes its)), fold remember_item its m)"
  using assms(1,3)
proof (induction its arbitrary: off m)
  case (Cons it its)
  then have "read_item off d = Inr (it, off + length (item_bytes it))"
    by (intro read_item_held assms(2)) auto
  then show ?case
    using Cons.IH [of "off + length (item_bytes it)" "remember_item it m"] Cons.prems
    by (simp add: comp_simps add.assoc)
qed (simp add: comp_simps)

lemma tables_of_fold:
  assumes "tables_of xs m" "distinct (map mi_id (xs @ its))" "distinct (map mi_name (xs @ its))"
  shows "tables_of (xs @ its) (fold remember_item its m)"
  using assms
proof (induction its arbitrary: xs m)
  case (Cons it its)
  then have "tables_of (xs @ [it]) (remember_item it m)" by (intro tables_of_remember) auto
  from Cons.IH [OF this] Cons.prems show ?case by simp
qed simp

lemma fold_remember_fields [simp]:
  "mp_version (fold remember_item its m) = mp_version m"
  "mp_table_size (fold remember_item its m) = mp_table_size m"
  "mp_last_point (fold remember_item its m) = mp_last_point m"
  "mp_frame (fold remember_item its m) = mp_frame m"
  by (induction its arbitrary: m) (simp_all add: remember_item_def)

lemma page_repD:
  assumes "page_rep v its d"
  shows "length d = PAGE_SIZE" "layout 24 its" "holds_at 24 (items_bytes its) d"
    "holds_at 0 (le_bytes 8 v) d" "holds_at 8 (le_bytes 8 (word_of_nat (length its) :: u64)) d"
    "holds_at 16 (le_bytes 8 (word_of_nat (24 + length (items_bytes its)) :: u64)) d"
    "24 + length (items_bytes its) \<le> 4096" "length its \<le> 4096"
proof -
  show l: "length d = PAGE_SIZE" "layout 24 its" and h: "holds_at 24 (items_bytes its) d"
    and "holds_at 0 (le_bytes 8 v) d" "holds_at 8 (le_bytes 8 (word_of_nat (length its) :: u64)) d"
    "holds_at 16 (le_bytes 8 (word_of_nat (24 + length (items_bytes its)) :: u64)) d"
    using assms unfolding page_rep_def holds_at_append length_header_words by (simp_all add: header_words_def)
  show b: "24 + length (items_bytes its) \<le> 4096" using holds_at_len [OF h] l by simp
  show "length its \<le> 4096" using b items_le_bytes [of its] by linarith
qed

lemma ReadMata_run:
  assumes "store_ok s" "page_rep v its (mdata s)"
  shows "MP_ReadMata s = (Inr (), s\<lparr>st_meta := (fold remember_item its (st_meta s))\<lparr>mp_version := v,
     mp_table_size := word_of_nat (length its), mp_last_point := word_of_nat (24 + length (items_bytes its))\<rparr>\<rparr>)"
proof -
  note p = page_repD [OF assms(2)]
  let ?m = "(st_meta s)\<lparr>mp_version := v, mp_table_size := word_of_nat (length its),
     mp_last_point := word_of_nat (24 + length (items_bytes its))\<rparr>"
  have fr: "pg_data (frame_of (mp_frame (st_meta s)) (st_bm s)) = mdata s" by (simp add: mdata_def fdata_def)
  have ts: "unat (word_of_nat (length its) :: u64) = length its" using p(8) by (rule unat_small)
  then have z: "(word_of_nat (length its) :: u64) = 0 \<longleftrightarrow> its = []" by (auto simp: word_unat_eq_iff)
  have rd: "read_items (length its) 24 (mdata s) ?m = (Inr (24 + length (items_bytes its)), fold remember_item its ?m)"
    using p by (intro read_items_held) simp_all
  have pk: "mp_read 0 8 s = (Inr (le_bytes 8 v), s)"
    "mp_read 8 8 s = (Inr (le_bytes 8 (word_of_nat (length its) :: u64)), s)"
    "mp_read 16 8 s = (Inr (le_bytes 8 (word_of_nat (24 + length (items_bytes its)) :: u64)), s)"
    by (rule mp_read_held [OF assms(1)], fact p, simp)+
  have comm: "fold remember_item its (m\<lparr>mp_version := a, mp_table_size := b, mp_last_point := c\<rparr>) =
      (fold remember_item its m)\<lparr>mp_version := a, mp_table_size := b, mp_last_point := c\<rparr>" for m a b c
  proof (induction its arbitrary: m)
    case (Cons it its)
    have "remember_item it (m\<lparr>mp_version := a, mp_table_size := b, mp_last_point := c\<rparr>) =
        (remember_item it m)\<lparr>mp_version := a, mp_table_size := b, mp_last_point := c\<rparr>"
      by (simp add: remember_item_def)
    then show ?case by (simp add: Cons.IH)
  qed simp
  show ?thesis
  proof (cases "its = []")
    case True
    then show ?thesis using pk by (simp add: MP_ReadMata_def comp_simps z)
  next
    case False
    then show ?thesis using pk rd by (simp add: MP_ReadMata_def comp_simps z ts fr comm)
  qed
qed

section \<open>Adding a table\<close>

definition wr :: "bytes \<Rightarrow> u64 \<Rightarrow> Store \<Rightarrow> Store" where
  "wr d lp s = (mput d s)\<lparr>st_meta := (st_meta s)\<lparr>mp_last_point := lp\<rparr>\<rparr>"

lemma wr_facts:
  assumes "store_ok s" "length d = PAGE_SIZE"
  shows "meta_only s (wr d lp s)" "store_ok (wr d lp s)" "mdata (wr d lp s) = d"
    "st_meta (wr d lp s) = (st_meta s)\<lparr>mp_last_point := lp\<rparr>"
proof -
  note m = mput_facts [OF assms]
  show "meta_only s (wr d lp s)" using m(1) by (simp add: wr_def meta_only_def)
  then show "store_ok (wr d lp s)" by (rule meta_only_ok [OF assms(1)])
  show "mdata (wr d lp s) = d" "st_meta (wr d lp s) = (st_meta s)\<lparr>mp_last_point := lp\<rparr>"
    using m(2,3) by (simp_all add: wr_def mdata_def)
qed

lemma wr_wr: "wr d lp (wr e lq s) = wr d lp s"
  by (simp add: wr_def mput_def)

lemma wr_same: "store_ok s \<Longrightarrow> wr (mdata s) (mp_last_point (st_meta s)) s = s"
  by (simp add: wr_def mput_same)

lemma mp_emit_run:
  assumes "store_ok s" "unat (mp_last_point (st_meta s)) + length bs \<le> PAGE_SIZE"
  shows "mp_emit bs s = (Inr (), wr (poke (unat (mp_last_point (st_meta s))) bs (mdata s))
    (mp_last_point (st_meta s) + word_of_nat (length bs)) s)"
  using assms by (simp add: mp_emit_def comp_simps mp_write_run wr_def mput_def)

lemma emit_all_run:
  assumes "store_ok s" "unat (mp_last_point (st_meta s)) + length (concat cs) \<le> PAGE_SIZE"
  shows "for_each cs mp_emit s = (Inr (), wr (poke (unat (mp_last_point (st_meta s))) (concat cs) (mdata s))
    (mp_last_point (st_meta s) + word_of_nat (length (concat cs))) s)"
  using assms
proof (induction cs arbitrary: s)
  case Nil
  then show ?case by (simp add: comp_simps poke_def wr_same)
next
  case (Cons c cs)
  let ?lp = "mp_last_point (st_meta s)"
  let ?t = "wr (poke (unat ?lp) c (mdata s)) (?lp + word_of_nat (length c)) s"
  note l = length_mdata [OF Cons.prems(1)]
  have len: "length (poke (unat ?lp) c (mdata s)) = PAGE_SIZE" using Cons.prems l by simp
  note t = wr_facts [OF Cons.prems(1) len, of "?lp + word_of_nat (length c)"]
  have u: "unat (?lp + word_of_nat (length c)) = unat ?lp + length c"
    using Cons.prems(2) by (simp add: unat_word_ariths unat_of_nat take_bit_eq_mod)
  have "for_each cs mp_emit ?t = (Inr (), wr (poke (unat ?lp + length c) (concat cs) (poke (unat ?lp) c (mdata s)))
      (?lp + word_of_nat (length c) + word_of_nat (length (concat cs))) ?t)"
    using Cons.IH [OF t(2)] Cons.prems(2) by (simp add: t(3,4) u)
  then show ?case
    using Cons.prems l by (simp add: comp_simps mp_emit_run wr_wr poke_poke_adjacent add.assoc)
qed

lemma WriteLastPoint_run:
  assumes "store_ok s"
  shows "MP_WriteLastPoint s = (Inr (), mflush (mput (poke 16 (le_bytes 8 (mp_last_point (st_meta s))) (mdata s)) s))"
proof -
  have "store_ok (mput (poke 16 (le_bytes 8 (mp_last_point (st_meta s))) (mdata s)) s)"
    using length_mdata [OF assms] meta_only_ok [OF assms mput_facts(1) [OF assms]] by simp
  then show ?thesis using assms by (simp add: MP_WriteLastPoint_def comp_simps mp_write_run mp_flush_run)
qed

lemma UpdateTableSize_run:
  assumes "store_ok s" and m_def: "m = (st_meta s)\<lparr>mp_table_size := mp_table_size (st_meta s) + n\<rparr>"
  shows "MP_UpdateTableSize n s = (Inr (),
    mflush (mput (poke 8 (le_bytes 8 (mp_table_size m)) (mdata s)) (s\<lparr>st_meta := m\<rparr>)))"
proof -
  let ?s = "s\<lparr>st_meta := m\<rparr>"
  have s: "store_ok ?s" "mdata ?s = mdata s" using assms by (simp_all add: store_ok_def mdata_def)
  then have "store_ok (mput (poke 8 (le_bytes 8 (mp_table_size m)) (mdata s)) ?s)"
    using length_mdata [OF assms(1)] meta_only_ok [OF s(1) mput_facts(1) [OF s(1)]] by simp
  then show ?thesis using s by (simp add: MP_UpdateTableSize_def comp_simps mp_write_run mp_flush_run m_def)
qed

lemma AddTable_effect:
  assumes ok: "store_ok s" and fit: "unat (mp_last_point (st_meta s)) + length (item_bytes item) \<le> PAGE_SIZE"
    and lp: "24 \<le> unat (mp_last_point (st_meta s))"
  defines "it \<equiv> item\<lparr>mi_offset := mp_last_point (st_meta s)\<rparr>"
  defines "lp' \<equiv> mp_last_point (st_meta s) + word_of_nat (length (item_bytes item))"
  defines "ts \<equiv> mp_table_size (st_meta s) + 1"
  obtains t where "MP_AddTable item s = (Inr (), t)" "meta_only s t"
    "mdata t = poke 8 (le_bytes 8 ts) (poke 16 (le_bytes 8 lp')
       (poke (unat (mp_last_point (st_meta s))) (item_bytes it) (mdata s)))"
    "st_meta t = (remember_item it (st_meta s))\<lparr>mp_last_point := lp', mp_table_size := ts\<rparr>"
    "stored (bm_disk (st_bm t)) META_PAGE_ID = Some (mdata t)"
proof -
  let ?lp = "mp_last_point (st_meta s)"
  have len: "length (item_bytes it) = length (item_bytes item)" by (simp add: it_def item_bytes_split)
  have nz: "?lp \<noteq> 0" using lp by auto
  have "length (item_bytes item) = 56 + length (mi_name item) + length (concat (map column_bytes (mi_items item)))"
    by (simp add: item_bytes_split)
  then have small: "unat ?lp + 56 + length (mi_name item) \<le> 4096" using fit by linarith
  have guard: "\<not> 4096 \<le> ?lp + (ITEM_FIXED_SIZE + word_of_nat (length (mi_name it)))"
  proof -
    have "unat (?lp + (40 + word_of_nat (length (mi_name item)))) = unat ?lp + 40 + length (mi_name item)"
      using small by (simp add: unat_word_ariths unat_of_nat take_bit_eq_mod)
    then show ?thesis using small by (simp add: word_le_nat_alt it_def)
  qed
  let ?d1 = "poke (unat ?lp) (item_bytes it) (mdata s)" and ?s1 = "wr (poke (unat ?lp) (item_bytes it) (mdata s)) lp' s"
  have l1: "length ?d1 = PAGE_SIZE" using fit length_mdata [OF ok] len by simp
  note w1 = wr_facts [OF ok l1, of lp']
  have run1: "for_each (item_chunks it) mp_emit s = (Inr (), ?s1)"
    using emit_all_run [OF ok, of "item_chunks it"] fit len by (simp add: lp'_def flip: item_bytes_def)
  let ?s2 = "?s1\<lparr>st_meta := remember_item it (st_meta ?s1)\<rparr>"
  have s2: "store_ok ?s2" "mdata ?s2 = ?d1" "meta_only s ?s2"
    using w1 by (simp_all add: store_ok_def mdata_def remember_item_def meta_only_def)
  let ?d2 = "poke 16 (le_bytes 8 lp') ?d1"
  have l2: "length ?d2 = PAGE_SIZE" using l1 by simp
  note w2 = mput_facts [OF s2(1) l2]
  let ?s3 = "mflush (mput ?d2 ?s2)"
  have ok2: "store_ok (mput ?d2 ?s2)" by (rule meta_only_ok [OF s2(1) w2(1)])
  note f3 = mflush_facts [OF ok2]
  have run3: "MP_WriteLastPoint ?s2 = (Inr (), ?s3)"
    using WriteLastPoint_run [OF s2(1)] s2(2) w1(4) by (simp add: remember_item_def)
  have ok3: "store_ok ?s3" by (rule meta_only_ok [OF ok2 f3(1)])
  have m3: "st_meta ?s3 = (remember_item it (st_meta s))\<lparr>mp_last_point := lp'\<rparr>" "mdata ?s3 = ?d2"
    using f3(2,3) w2(2,3) w1(4) by (simp_all add: remember_item_def)
  let ?s4 = "?s3\<lparr>st_meta := (remember_item it (st_meta s))\<lparr>mp_last_point := lp', mp_table_size := ts\<rparr>\<rparr>"
  have s4: "store_ok ?s4" "meta_only s ?s4"
    using ok3 m3 meta_only_trans [OF meta_only_trans [OF s2(3) w2(1)] f3(1)]
    by (simp_all add: store_ok_def meta_only_def remember_item_def)
  let ?d3 = "poke 8 (le_bytes 8 ts) ?d2"
  have l3: "length ?d3 = PAGE_SIZE" using l2 by simp
  note w4 = mput_facts [OF s4(1) l3]
  have ok4: "store_ok (mput ?d3 ?s4)" by (rule meta_only_ok [OF s4(1) w4(1)])
  note f4 = mflush_facts [OF ok4]
  let ?t = "mflush (mput ?d3 ?s4)"
  have "MP_UpdateTableSize 1 ?s3 = (Inr (), ?t)"
    using UpdateTableSize_run [OF ok3, of _ 1] m3 by (simp add: ts_def remember_item_def)
  then have "MP_AddTable item s = (Inr (), ?t)"
    using run1 run3 guard nz by (simp add: MP_AddTable_def comp_simps Let_def it_def)
  moreover have "meta_only s ?t" by (rule meta_only_trans [OF meta_only_trans [OF s4(2) w4(1)] f4(1)])
  ultimately show ?thesis using that [of ?t] f4 w4 by simp
qed

lemma page_rep_add:
  assumes "page_rep v its d" "24 + length (items_bytes its) + length (item_bytes it) \<le> 4096"
    "mi_offset it = word_of_nat (24 + length (items_bytes its))"
  shows "page_rep v (its @ [it]) (poke 8 (le_bytes 8 (word_of_nat (length its) + 1 :: u64))
    (poke 16 (le_bytes 8 (word_of_nat (24 + length (items_bytes its)) + word_of_nat (length (item_bytes it)) :: u64))
      (poke (24 + length (items_bytes its)) (item_bytes it) d)))"
    (is "page_rep v _ (poke 8 ?a (poke 16 ?b (poke ?o ?c d)))")
proof -
  note p = page_repD [OF assms(1)]
  let ?d1 = "poke ?o ?c d" and ?d2 = "poke 16 ?b (poke ?o ?c d)"
  have l: "length ?d1 = PAGE_SIZE" "length ?d2 = PAGE_SIZE" using p(1) assms(2) by simp_all
  have "holds_at 0 (le_bytes 8 v) (poke 8 ?a ?d2)" "holds_at 24 (items_bytes its) (poke 8 ?a ?d2)"
    "holds_at ?o ?c (poke 8 ?a ?d2)"
    using p assms(2) l by (auto intro!: holds_at_poke_disjoint holds_at_poke_same)
  moreover have "holds_at 8 ?a (poke 8 ?a ?d2)" using l by (intro holds_at_poke_same) simp
  moreover have "holds_at 16 ?b (poke 8 ?a ?d2)" using l by (auto intro!: holds_at_poke_disjoint holds_at_poke_same)
  ultimately show ?thesis
    using p(1,2) l assms(3) by (simp add: page_rep_def layout_append header_words_def add_ac)
qed

lemma meta_rep_lp:
  assumes "meta_rep s its"
  shows "unat (mp_last_point (st_meta s)) = 24 + length (items_bytes its)"
proof -
  have "page_rep (mp_version (st_meta s)) its (mdata s)" using assms by (simp add: meta_rep_def)
  from page_repD(7) [OF this] have "unat (word_of_nat (24 + length (items_bytes its)) :: u64) = 24 + length (items_bytes its)"
    by (rule unat_small)
  then show ?thesis using assms by (simp only: meta_rep_def)
qed

lemma AddTable_rep:
  assumes "meta_rep s its" "mi_id item \<notin> mi_id ` set its" "mi_name item \<notin> mi_name ` set its"
    and "24 + length (items_bytes its) + length (item_bytes item) \<le> PAGE_SIZE"
  shows "\<exists>t. MP_AddTable item s = (Inr (), t) \<and>
    meta_rep t (its @ [item\<lparr>mi_offset := word_of_nat (24 + length (items_bytes its))\<rparr>]) \<and>
    stored (bm_disk (st_bm t)) META_PAGE_ID = Some (mdata t) \<and> meta_only s t"
proof -
  let ?lp = "mp_last_point (st_meta s)" and ?it = "item\<lparr>mi_offset := mp_last_point (st_meta s)\<rparr>"
  have rep: "store_ok s" "page_rep (mp_version (st_meta s)) its (mdata s)" "tables_of its (st_meta s)"
    "mp_table_size (st_meta s) = word_of_nat (length its)" "?lp = word_of_nat (24 + length (items_bytes its))"
    using assms(1) by (simp_all add: meta_rep_def)
  note lp = meta_rep_lp [OF assms(1)]
  have len: "length (item_bytes ?it) = length (item_bytes item)" by (simp add: item_bytes_split)
  obtain t where t: "MP_AddTable item s = (Inr (), t)" "meta_only s t"
    "mdata t = poke 8 (le_bytes 8 (mp_table_size (st_meta s) + 1)) (poke 16 (le_bytes 8 (?lp + word_of_nat (length (item_bytes item))))
       (poke (unat ?lp) (item_bytes ?it) (mdata s)))"
    "st_meta t = (remember_item ?it (st_meta s))\<lparr>mp_last_point := ?lp + word_of_nat (length (item_bytes item)),
       mp_table_size := mp_table_size (st_meta s) + 1\<rparr>"
    "stored (bm_disk (st_bm t)) META_PAGE_ID = Some (mdata t)"
    using AddTable_effect [OF rep(1), of item] assms(4) lp by auto
  have "page_rep (mp_version (st_meta s)) (its @ [?it]) (mdata t)"
    using page_rep_add [OF rep(2), of ?it] assms(4) len lp t(3) rep(4,5) by simp
  moreover have "tables_of (its @ [?it]) (remember_item ?it (st_meta s))"
    using assms(2,3) by (intro tables_of_remember rep(3)) simp_all
  ultimately have "meta_rep t (its @ [?it])"
    using meta_only_ok [OF rep(1) t(2)] t(4) rep(4,5) len
    by (simp add: meta_rep_def tables_of_def remember_item_def add_ac)
  then show ?thesis using t rep(5) by auto
qed

text \<open>C18. Adding a table whose item fits into page 0 and whose id and name are new succeeds: the catalog
  then holds the old items and the new one behind them, in memory, in the bytes of the page and in the
  file, and no other page of the pool is changed.\<close>

theorem catalog_add_table:
  assumes "meta_rep s its" "mi_id item \<notin> mi_id ` set its" "mi_name item \<notin> mi_name ` set its"
    and "24 + length (items_bytes its) + length (item_bytes item) \<le> PAGE_SIZE"
  shows "\<exists>t. MP_AddTable item s = (Inr (), t) \<and>
    meta_rep t (its @ [item\<lparr>mi_offset := word_of_nat (24 + length (items_bytes its))\<rparr>]) \<and>
    stored (bm_disk (st_bm t)) META_PAGE_ID = Some (mdata t) \<and> meta_only s t"
  by (rule AddTable_rep [OF assms])

text \<open>C19. Reading page 0 after a restart: whatever the tables in memory were built from, running
  \<open>ReadMata\<close> on a catalog object with empty tables rebuilds exactly the items that the page represents.\<close>

theorem catalog_reload:
  assumes "store_ok s" "page_rep v its (mdata s)" "distinct (map mi_id its)" "distinct (map mi_name its)"
    and "mp_items (st_meta s) = []" "mp_id_tables (st_meta s) = (\<lambda>_. None)" "mp_name_tables (st_meta s) = (\<lambda>_. None)"
  shows "\<exists>t. MP_ReadMata s = (Inr (), t) \<and> meta_rep t its \<and> st_bm t = st_bm s"
proof -
  have "tables_of [] (st_meta s)" using assms(5-7) by (simp add: tables_of_def)
  from tables_of_fold [OF this, of its] assms(3,4) have "tables_of its (fold remember_item its (st_meta s))" by simp
  then show ?thesis
    using ReadMata_run [OF assms(1,2)] assms(1,2)
    by (simp add: meta_rep_def store_ok_def mdata_def tables_of_def)
qed

section \<open>Updating an item\<close>

lemma item_located:
  assumes "meta_rep s (xs @ it # ys)"
  shows "holds_at (24 + length (items_bytes xs)) (item_bytes it) (mdata s)"
    "unat (mi_offset it) = 24 + length (items_bytes xs)"
    "24 + length (items_bytes xs) + length (item_bytes it) \<le> PAGE_SIZE"
    "56 + length (mi_name it) \<le> length (item_bytes it)"
proof -
  have p: "page_rep (mp_version (st_meta s)) (xs @ it # ys) (mdata s)" using assms by (simp add: meta_rep_def)
  note q = page_repD [OF p]
  show h: "holds_at (24 + length (items_bytes xs)) (item_bytes it) (mdata s)" using q(3) by simp
  show l: "24 + length (items_bytes xs) + length (item_bytes it) \<le> PAGE_SIZE" using q(7) by simp
  have "mi_offset it = word_of_nat (24 + length (items_bytes xs))" using q(2) by (simp add: layout_append)
  then show "unat (mi_offset it) = 24 + length (items_bytes xs)"
    using l unat_small [of "24 + length (items_bytes xs)"] by simp
  show "56 + length (mi_name it) \<le> length (item_bytes it)" by (simp add: item_bytes_split)
qed

lemma mp_item_located: "meta_rep s (xs @ it # ys) \<Longrightarrow> mp_item (mi_id it) s = Some it"
  by (auto simp: mp_item_def meta_rep_def tables_of_def map_add_def split: option.split dest!: map_of_SomeD)

lemma GetNameLen_run:
  assumes "meta_rep s (xs @ it # ys)" "mi_offset it' = mi_offset it"
    and "st_bm u = st_bm s" "mp_frame (st_meta u) = mp_frame (st_meta s)"
  shows "MP_GetNameLen it' u = (Inr (word_of_nat (length (mi_name it))), u)"
proof -
  have "store_ok u" "mdata u = mdata s" using assms by (simp_all add: meta_rep_def store_ok_def mdata_def)
  moreover have "holds_at (24 + length (items_bytes xs)) (le_bytes 8 (word_of_nat (length (mi_name it)) :: u64)) (mdata s)"
    using item_located(1) [OF assms(1)] unfolding item_bytes_split by simp
  ultimately show ?thesis
    using item_located(2) [OF assms(1)] by (simp add: MP_GetNameLen_def comp_simps mp_read_held assms(2))
qed

lemma page_rep_set:
  assumes "page_rep v (xs @ it # ys) d" "item_bytes it = a @ f @ b" "item_bytes it' = a @ g @ b"
    "length g = length f" "mi_offset it' = mi_offset it"
  shows "page_rep v (xs @ it' # ys) (poke (24 + length (items_bytes xs) + length a) g d)"
proof -
  have h: "header_words v (xs @ it' # ys) = header_words v (xs @ it # ys)"
    using assms(2-4) by (simp add: header_words_def)
  have "holds_at 0 ((header_words v (xs @ it # ys) @ items_bytes xs @ a) @ f @ (b @ items_bytes ys)) d"
    using assms(1,2) by (simp add: page_rep_def add.assoc)
  from holds_at_poke_field [OF this assms(4), of "24 + length (items_bytes xs) + length a"]
  have "holds_at 0 (header_words v (xs @ it' # ys) @ items_bytes (xs @ it' # ys))
      (poke (24 + length (items_bytes xs) + length a) g d)"
    using h assms(3) by (simp add: add.assoc)
  moreover have "24 + length (items_bytes xs) + length a + length g \<le> length d"
    using page_repD(1,7) [OF assms(1)] assms(2,4) by simp
  ultimately show ?thesis
    using assms by (simp add: page_rep_def layout_append)
qed

lemma AList_update_mid:
  "mi_id it' = mi_id it \<Longrightarrow> distinct (map mi_id (xs @ it # ys)) \<Longrightarrow>
   AList.update (mi_id it) it' (map (\<lambda>x. (mi_id x, x)) (xs @ it # ys)) = map (\<lambda>x. (mi_id x, x)) (xs @ it' # ys)"
  by (induction xs) auto

lemma map_upd_mid: "m k = None \<Longrightarrow> (a(k \<mapsto> v) ++ m)(k \<mapsto> w) = a(k \<mapsto> w) ++ m"
  by (auto simp: fun_eq_iff map_add_def split: option.split)

lemma map_of_set_mid:
  "k it' = k it \<Longrightarrow> k it \<notin> k ` set xs \<Longrightarrow>
   (map_of (map (\<lambda>x. (k x, v x)) (xs @ it # ys)))(k it \<mapsto> v it') = map_of (map (\<lambda>x. (k x, v x)) (xs @ it' # ys))"
  by (simp add: map_upd_mid map_of_eq_None_iff image_comp comp_def)

text \<open>The common part of the three updates: one word of the item is replaced in memory and on the page.\<close>

lemma update_item:
  assumes rep: "meta_rep s (xs @ it # ys)"
    and it': "item_bytes it = a @ f @ b" "item_bytes it' = a @ g @ b" "length g = length f"
      "mi_offset it' = mi_offset it" "mi_id it' = mi_id it" "mi_name it' = mi_name it"
    and m: "m = (st_meta s)\<lparr>mp_items := AList.update (mi_id it) it' (mp_items (st_meta s)),
      mp_name_tables := (mp_name_tables (st_meta s))(mi_name it' \<mapsto> mi_first it'),
      mp_id_tables := (mp_id_tables (st_meta s))(mi_id it' \<mapsto> mi_first it')\<rparr>"
    and off: "off = 24 + length (items_bytes xs) + length a"
  obtains t where "thn (mp_write off g) mp_flush (s\<lparr>st_meta := m\<rparr>) = (Inr (), t)"
    "meta_rep t (xs @ it' # ys)" "meta_only s t" "stored (bm_disk (st_bm t)) META_PAGE_ID = Some (mdata t)"
proof -
  have ok: "store_ok s" and p: "page_rep (mp_version (st_meta s)) (xs @ it # ys) (mdata s)"
    and tab: "tables_of (xs @ it # ys) (st_meta s)" using rep by (simp_all add: meta_rep_def)
  let ?s = "s\<lparr>st_meta := m\<rparr>" and ?d = "poke off g (mdata s)"
  have s: "store_ok ?s" "mdata ?s = mdata s" using ok m by (simp_all add: store_ok_def mdata_def)
  have b: "off + length g \<le> PAGE_SIZE" using item_located(3) [OF rep] it'(1,3) off by simp
  have l: "length ?d = PAGE_SIZE" using b length_mdata [OF ok] by simp
  note w = mput_facts [OF s(1) l]
  have wok: "store_ok (mput ?d ?s)" by (rule meta_only_ok [OF s(1) w(1)])
  let ?t = "mflush (mput ?d ?s)"
  note t = mflush_facts [OF wok]
  have run: "thn (mp_write off g) mp_flush ?s = (Inr (), ?t)"
    using b wok s by (simp add: comp_simps mp_write_run mp_flush_run)
  have only: "meta_only s ?t" using meta_only_trans [OF w(1) t(1)] m by (simp add: meta_only_def)
  have "tables_of (xs @ it' # ys) m"
    using tab it'(5,6) AList_update_mid [of it' it xs ys] m map_of_set_mid [of mi_id it' it xs mi_first ys]
      map_of_set_mid [of mi_name it' it xs mi_first ys]
    by (simp add: tables_of_def)
  moreover have "page_rep (mp_version (st_meta s)) (xs @ it' # ys) ?d"
    unfolding off by (rule page_rep_set [OF p it'(1-4)])
  ultimately have "meta_rep ?t (xs @ it' # ys)"
    using rep t w m it'(1-3) meta_only_ok [OF ok only] by (simp add: meta_rep_def tables_of_def)
  then show ?thesis using that run only t w by simp
qed

lemma tables_first:
  assumes "meta_rep s (xs @ it # ys)"
  shows "mp_name_tables (st_meta s) (mi_name it) = Some (mi_first it)"
    "mp_id_tables (st_meta s) (mi_id it) = Some (mi_first it)"
  using assms by (auto simp: meta_rep_def tables_of_def map_add_def split: option.split dest!: map_of_SomeD)

lemma tables_upd:
  assumes "meta_rep s (xs @ it # ys)"
  shows "(mp_name_tables (st_meta s))(mi_name it \<mapsto> mi_first it) = mp_name_tables (st_meta s)"
    "(mp_id_tables (st_meta s))(mi_id it \<mapsto> mi_first it) = mp_id_tables (st_meta s)"
  by (rule fun_upd_idem, rule tables_first [OF assms])+

lemma item_field_offset:
  assumes "meta_rep s (xs @ it # ys)" "unat k \<le> 32"
  shows "unat (mi_offset it + 8 + word_of_nat (length (mi_name it)) + k) =
    24 + length (items_bytes xs) + (8 + length (mi_name it) + unat k)"
proof -
  note l = item_located(2-4) [OF assms(1)]
  have n: "unat (word_of_nat (length (mi_name it)) :: u64) = length (mi_name it)" using l by (intro unat_small) simp
  have e: "unat (8 :: u64) = 8" by simp
  have "unat (mi_offset it) + 8 + length (mi_name it) + unat k < 2 ^ 64" using l assms(2) by simp
  then have "unat (mi_offset it + 8) = unat (mi_offset it) + 8"
    "unat (mi_offset it + 8 + word_of_nat (length (mi_name it))) = unat (mi_offset it) + 8 + length (mi_name it)"
    "unat (mi_offset it + 8 + word_of_nat (length (mi_name it)) + k) = unat (mi_offset it) + 8 + length (mi_name it) + unat k"
    using n e by (simp_all add: unat_add_u64)
  then show ?thesis using l(1) by simp
qed

lemma item_field_offsets:
  assumes "meta_rep s (xs @ it # ys)"
  shows "unat (mi_offset it + 8 + word_of_nat (length (mi_name it)) + 8) =
      40 + (length (items_bytes xs) + length (mi_name it))"
    "unat (mi_offset it + 8 + word_of_nat (length (mi_name it))) =
      32 + (length (items_bytes xs) + length (mi_name it))"
    "unat (mi_offset it + 8 + word_of_nat (length (mi_name it)) + 8 + 8 + 8) =
      56 + (length (items_bytes xs) + length (mi_name it))"
proof -
  have w: "x + 8 + 8 + 8 = x + (24 :: u64)" for x by simp
  show "unat (mi_offset it + 8 + word_of_nat (length (mi_name it)) + 8) = 40 + (length (items_bytes xs) + length (mi_name it))"
    by (subst item_field_offset [OF assms]) simp_all
  show "unat (mi_offset it + 8 + word_of_nat (length (mi_name it))) = 32 + (length (items_bytes xs) + length (mi_name it))"
    using item_field_offset [OF assms, of 0] by simp
  show "unat (mi_offset it + 8 + word_of_nat (length (mi_name it)) + 8 + 8 + 8) = 56 + (length (items_bytes xs) + length (mi_name it))"
    unfolding w by (subst item_field_offset [OF assms]) simp_all
qed

lemma UpdateTableRows_effect:
  assumes "meta_rep s (xs @ it # ys)"
  obtains t where "MP_UpdateTableRows (mi_id it) change s = (Inr (), t)"
    "meta_rep t (xs @ it\<lparr>mi_rows := rows_after (mi_rows it) change\<rparr> # ys)" "meta_only s t"
    "stored (bm_disk (st_bm t)) META_PAGE_ID = Some (mdata t)"
proof -
  let ?it = "it\<lparr>mi_rows := rows_after (mi_rows it) change\<rparr>"
  let ?a = "le_bytes 8 (word_of_nat (length (mi_name it)) :: u64) @ str_bytes (mi_name it) @ le_bytes 8 (mi_first it)"
  let ?b = "le_bytes 8 (mi_id it) @ le_bytes 8 (mi_last it) @ le_bytes 8 (mi_offset it) @
    le_bytes 8 (word_of_nat (length (mi_items it)) :: u64) @ concat (map column_bytes (mi_items it))"
  let ?m = "(st_meta s)\<lparr>mp_items := AList.update (mi_id it) ?it (mp_items (st_meta s))\<rparr>"
  have m: "?m = (st_meta s)\<lparr>mp_items := AList.update (mi_id it) ?it (mp_items (st_meta s)),
      mp_name_tables := (mp_name_tables (st_meta s))(mi_name ?it \<mapsto> mi_first ?it),
      mp_id_tables := (mp_id_tables (st_meta s))(mi_id ?it \<mapsto> mi_first ?it)\<rparr>"
    using tables_upd [OF assms] by simp
  obtain t where t: "thn (mp_write (24 + length (items_bytes xs) + length ?a) (le_bytes 8 (mi_rows ?it))) mp_flush
      (s\<lparr>st_meta := ?m\<rparr>) = (Inr (), t)" "meta_rep t (xs @ ?it # ys)" "meta_only s t"
      "stored (bm_disk (st_bm t)) META_PAGE_ID = Some (mdata t)"
    by (rule update_item [OF assms, of ?a "le_bytes 8 (mi_rows it)" ?b ?it "le_bytes 8 (mi_rows ?it)" ?m, OF _ _ _ _ _ _ m refl])
      (simp_all add: item_bytes_split)
  have len: "MP_GetNameLen ?it (s\<lparr>st_meta := ?m\<rparr>) = (Inr (word_of_nat (length (mi_name it))), s\<lparr>st_meta := ?m\<rparr>)"
    by (rule GetNameLen_run [OF assms]) simp_all
  have "MP_UpdateTableRows (mi_id it) change s = (Inr (), t)"
    using t(1) len mp_item_located [OF assms] item_field_offsets(1) [OF assms]
    by (simp add: MP_UpdateTableRows_def comp_simps set_item_def Let_def)
  then show ?thesis using that t by blast
qed

lemma UpdateTableFirstId_effect:
  assumes "meta_rep s (xs @ it # ys)"
  obtains t where "MP_UpdateTableFirstId (mi_id it) pid s = (Inr (), t)"
    "meta_rep t (xs @ it\<lparr>mi_first := pid\<rparr> # ys)" "meta_only s t"
    "stored (bm_disk (st_bm t)) META_PAGE_ID = Some (mdata t)"
proof -
  let ?it = "it\<lparr>mi_first := pid\<rparr>"
  let ?a = "le_bytes 8 (word_of_nat (length (mi_name it)) :: u64) @ str_bytes (mi_name it)"
  let ?b = "le_bytes 8 (mi_rows it) @ le_bytes 8 (mi_id it) @ le_bytes 8 (mi_last it) @ le_bytes 8 (mi_offset it) @
    le_bytes 8 (word_of_nat (length (mi_items it)) :: u64) @ concat (map column_bytes (mi_items it))"
  let ?m = "(st_meta s)\<lparr>mp_items := AList.update (mi_id it) ?it (mp_items (st_meta s)),
      mp_name_tables := (mp_name_tables (st_meta s))(mi_name ?it \<mapsto> mi_first ?it),
      mp_id_tables := (mp_id_tables (st_meta s))(mi_id ?it \<mapsto> mi_first ?it)\<rparr>"
  obtain t where t: "thn (mp_write (24 + length (items_bytes xs) + length ?a) (le_bytes 8 (mi_first ?it))) mp_flush
      (s\<lparr>st_meta := ?m\<rparr>) = (Inr (), t)" "meta_rep t (xs @ ?it # ys)" "meta_only s t"
      "stored (bm_disk (st_bm t)) META_PAGE_ID = Some (mdata t)"
    by (rule update_item [OF assms, of ?a "le_bytes 8 (mi_first it)" ?b ?it "le_bytes 8 (mi_first ?it)" ?m, OF _ _ _ _ _ _ refl refl])
      (simp_all add: item_bytes_split)
  have len: "MP_GetNameLen ?it (s\<lparr>st_meta := ?m\<rparr>) = (Inr (word_of_nat (length (mi_name it))), s\<lparr>st_meta := ?m\<rparr>)"
    by (rule GetNameLen_run [OF assms]) simp_all
  have "MP_UpdateTableFirstId (mi_id it) pid s = (Inr (), t)"
    using t(1) len mp_item_located [OF assms] item_field_offsets(2) [OF assms]
    by (simp add: MP_UpdateTableFirstId_def comp_simps set_item_def Let_def)
  then show ?thesis using that t by blast
qed

lemma UpdateTableLastId_effect:
  assumes "meta_rep s (xs @ it # ys)"
  obtains t where "MP_UpdateTableLastId (mi_id it) pid s = (Inr (), t)"
    "meta_rep t (xs @ it\<lparr>mi_last := pid\<rparr> # ys)" "meta_only s t"
    "stored (bm_disk (st_bm t)) META_PAGE_ID = Some (mdata t)"
proof -
  let ?it = "it\<lparr>mi_last := pid\<rparr>"
  let ?a = "le_bytes 8 (word_of_nat (length (mi_name it)) :: u64) @ str_bytes (mi_name it) @ le_bytes 8 (mi_first it) @
    le_bytes 8 (mi_rows it) @ le_bytes 8 (mi_id it)"
  let ?b = "le_bytes 8 (mi_offset it) @
    le_bytes 8 (word_of_nat (length (mi_items it)) :: u64) @ concat (map column_bytes (mi_items it))"
  let ?m = "(st_meta s)\<lparr>mp_items := AList.update (mi_id it) ?it (mp_items (st_meta s))\<rparr>"
  have m: "?m = (st_meta s)\<lparr>mp_items := AList.update (mi_id it) ?it (mp_items (st_meta s)),
      mp_name_tables := (mp_name_tables (st_meta s))(mi_name ?it \<mapsto> mi_first ?it),
      mp_id_tables := (mp_id_tables (st_meta s))(mi_id ?it \<mapsto> mi_first ?it)\<rparr>"
    using tables_upd [OF assms] by simp
  obtain t where t: "thn (mp_write (24 + length (items_bytes xs) + length ?a) (le_bytes 8 (mi_last ?it))) mp_flush
      (s\<lparr>st_meta := ?m\<rparr>) = (Inr (), t)" "meta_rep t (xs @ ?it # ys)" "meta_only s t"
      "stored (bm_disk (st_bm t)) META_PAGE_ID = Some (mdata t)"
    by (rule update_item [OF assms, of ?a "le_bytes 8 (mi_last it)" ?b ?it "le_bytes 8 (mi_last ?it)" ?m, OF _ _ _ _ _ _ m refl])
      (simp_all add: item_bytes_split)
  have len: "MP_GetNameLen ?it (s\<lparr>st_meta := ?m\<rparr>) = (Inr (word_of_nat (length (mi_name it))), s\<lparr>st_meta := ?m\<rparr>)"
    by (rule GetNameLen_run [OF assms]) simp_all
  have "MP_UpdateTableLastId (mi_id it) pid s = (Inr (), t)"
    using t(1) len mp_item_located [OF assms] item_field_offsets(3) [OF assms]
    by (simp add: MP_UpdateTableLastId_def comp_simps set_item_def Let_def)
  then show ?thesis using that t by blast
qed

lemma unat_rows_after:
  assumes "int (unat rows) + sint change < 2 ^ 64"
  shows "unat (rows_after rows change) = nat (max 0 (int (unat rows) + sint change))"
proof (cases "sint change < 0")
  case True
  have u: "int (unat change) = sint change + 2 ^ 64" by (rule unat_of_signed(2) [OF True])
  have "0 < unat change" using True unat_gt_0 by fastforce
  moreover have "(unat (- change) + unat change) mod 2 ^ 64 = 0"
    using unat_word_ariths(1) [of "- change" change] by simp
  ultimately have "unat (- change) + unat change = 2 ^ 64"
    using unat_less_2p [of change] unat_less_2p [of "- change"] by (intro sum_mod_zero) simp_all
  then have "int (unat (- change)) + int (unat change) = 2 ^ 64" by (metis of_nat_add of_nat_numeral of_nat_power)
  then have neg: "int (unat (- change)) = - sint change" using u by linarith
  show ?thesis
  proof (cases "rows < - change")
    case less: True
    then have "unat rows < unat (- change)" by (simp only: word_less_nat_alt)
    then have "max 0 (int (unat rows) + sint change) = 0" using neg by linarith
    moreover have "rows_after rows change = 0" using True less by (simp add: rows_after_def)
    ultimately show ?thesis by simp
  next
    case False
    then have le: "- change \<le> rows" by simp
    then have "unat (rows - - change) = unat rows - unat (- change)" by (rule unat_sub)
    then have "unat (rows_after rows change) = unat rows - unat (- change)" using False by (simp add: rows_after_def)
    moreover have "unat (- change) \<le> unat rows" using le by (simp only: word_le_nat_alt)
    ultimately show ?thesis using neg by linarith
  qed
next
  case False
  then have u: "sint change = int (unat change)" using unat_of_signed(1) [of change] by simp
  have "int (unat rows + unat change) < int (2 ^ 64)"
    using assms by (simp only: u of_nat_add of_nat_power of_nat_numeral)
  then have "unat rows + unat change < 2 ^ 64" by (simp only: of_nat_less_iff)
  then have "unat (rows_after rows change) = unat rows + unat change"
    using False by (simp add: rows_after_def unat_add_u64)
  then show ?thesis using u by linarith
qed

text \<open>\<open>UpdateTableRows\<close> changes exactly the row count of the named table, by the signed change and
  never below zero, in memory, on page 0 and in the file; all other items and pages are kept.\<close>

theorem catalog_update_rows:
  assumes "meta_rep s (xs @ it # ys)" "int (unat (mi_rows it)) + sint change < 2 ^ 64"
  shows "\<exists>t rows. MP_UpdateTableRows (mi_id it) change s = (Inr (), t) \<and>
    meta_rep t (xs @ it\<lparr>mi_rows := rows\<rparr> # ys) \<and>
    unat rows = nat (max 0 (int (unat (mi_rows it)) + sint change)) \<and>
    stored (bm_disk (st_bm t)) META_PAGE_ID = Some (mdata t) \<and> meta_only s t"
  by (rule UpdateTableRows_effect [OF assms(1), of change]) (use unat_rows_after [OF assms(2)] in blast)

text \<open>\<open>UpdateTableFirstId\<close> keeps the lookup tables, the items and page 0 in agreement: afterwards
  \<open>GetFirstPageId\<close> returns the new page, by table id and by table name.\<close>

theorem catalog_first_page_lookup:
  assumes "meta_rep s (xs @ it # ys)"
  shows "\<exists>t. MP_UpdateTableFirstId (mi_id it) pid s = (Inr (), t) \<and> meta_rep t (xs @ it\<lparr>mi_first := pid\<rparr> # ys) \<and>
    MP_GetFirstPageId (mi_id it) t = (Inr pid, t) \<and> MP_GetFirstPageId_by_name (mi_name it) t = (Inr pid, t)"
proof -
  obtain t where t: "MP_UpdateTableFirstId (mi_id it) pid s = (Inr (), t)" "meta_rep t (xs @ it\<lparr>mi_first := pid\<rparr> # ys)"
    by (rule UpdateTableFirstId_effect [OF assms]) blast
  then show ?thesis
    using tables_first [OF t(2)] by (simp add: MP_GetFirstPageId_def MP_GetFirstPageId_by_name_def comp_simps)
qed

lemma GetFirstPageId_located:
  "meta_rep s (xs @ it # ys) \<Longrightarrow> MP_GetFirstPageId (mi_id it) s = (Inr (mi_first it), s)"
  using tables_first(2) by (simp add: MP_GetFirstPageId_def comp_simps)

section \<open>Catalogs built by the code\<close>

definition no_tables :: "MetaPage \<Rightarrow> bool" where
  "no_tables m \<longleftrightarrow> mp_items m = [] \<and> mp_id_tables m = (\<lambda>_. None) \<and> mp_name_tables m = (\<lambda>_. None)"

lemma MetaPage_new_ok:
  assumes "bm_inv b" "bm_pages b META_PAGE_ID = None" "bm_free b \<noteq> []" "ready (bm_disk b)"
    "stored (bm_disk b) META_PAGE_ID = Some d"
  obtains s where "MetaPage_new b = Inr s" "store_ok s" "no_tables (st_meta s)" "mdata s = d"
proof -
  let ?f = "last (bm_free b)"
  have a: "addressable 0" by (simp add: addressable_def)
  have run: "BM_FetchPage 0 b = (Inr ?f, loaded 0 ?f b)" using assms(1-3) by (rule BM_FetchPage_load)
  have inv: "bm_inv (loaded 0 ?f b)" using assms(1-3) a by (intro bm_inv_loaded)
  have c: "page_content b 0 = Some d" using assms(2,5) by (simp add: page_content_def)
  from page_content_fetched [OF assms(1) a assms(4) c run]
  have "pg_data (frame_of ?f (loaded 0 ?f b)) = d" "bm_pages (loaded 0 ?f b) 0 = Some ?f" by auto
  then show ?thesis
    using that run inv by (simp add: MetaPage_new_def store_ok_def held_def no_tables_def mdata_def fdata_def)
qed

lemma Init_empty:
  assumes "store_ok s" "no_tables (st_meta s)" "peek 8 8 (mdata s) = le_bytes 8 (0 :: u64)"
  obtains t where "MP_Init s = (Inr (), t)" "meta_rep t []" "meta_only s t"
    "stored (bm_disk (st_bm t)) META_PAGE_ID = Some (mdata t)"
proof -
  let ?h = "le_bytes 8 (0 :: u64)"
  let ?m = "(st_meta s)\<lparr>mp_version := 0, mp_table_size := 0, mp_last_point := 24\<rparr>"
  let ?s = "s\<lparr>st_meta := ?m\<rparr>" and ?d = "poke 16 (le_bytes 8 (24 :: u64)) (poke 8 ?h (poke 0 ?h (mdata s)))"
  note l = length_mdata [OF assms(1)]
  have s: "store_ok ?s" "mdata ?s = mdata s" using assms(1) by (simp_all add: store_ok_def mdata_def)
  have put: "store_ok (mput d ?s)" "mdata (mput d ?s) = d" if "length d = PAGE_SIZE" for d
    using mput_facts [OF s(1) that] meta_only_ok [OF s(1)] by simp_all
  have ld: "length ?d = PAGE_SIZE" using l by simp
  let ?t = "mflush (mput ?d ?s)"
  note f = mflush_facts [OF put(1) [OF ld]] and w = mput_facts [OF s(1) ld]
  have "in_bm BM_CurrFileSize s = (Inr (length (fs_file (bm_disk (st_bm s)))), s)"
    using heldD(7) assms(1) by (simp add: store_ok_def BM_CurrFileSize_def comp_simps PosixDiskManager_Size_def)
  then have "MP_Init s = (Inr (), ?t)"
    using assms(1,3) s put l by (simp add: MP_Init_def comp_simps mp_read_run mp_write_run mp_flush_run)
  moreover have only: "meta_only s ?t" using meta_only_trans [OF w(1) f(1)] by (simp add: meta_only_def)
  moreover have "meta_rep ?t []"
    using meta_only_ok [OF assms(1) only] f w ld l assms(2)
    by (auto simp: meta_rep_def page_rep_def header_words_def tables_of_def no_tables_def
        intro!: holds_at_poke_disjoint holds_at_poke_same)
  ultimately show ?thesis using that f w by simp
qed

text \<open>Opening a database whose page 0 holds no table: \<open>Init\<close> writes the header of an empty catalog,
  in memory, on page 0 and in the file.\<close>

theorem catalog_init_empty:
  assumes "store_ok s" "no_tables (st_meta s)" "peek 8 8 (mdata s) = le_bytes 8 (0 :: u64)"
  shows "\<exists>t. MP_Init s = (Inr (), t) \<and> meta_rep t [] \<and> stored (bm_disk (st_bm t)) META_PAGE_ID = Some (mdata t)"
  by (rule Init_empty [OF assms]) blast

text \<open>A pool over a file of one zero page.\<close>

definition zero_pool :: BufferManager where
  "zero_pool = BufferManager_new (PosixDiskManager_new (replicate PAGE_SIZE 0)) 1 (replicate PAGE_SIZE 0)"

lemma zero_pool_facts:
  "bm_inv zero_pool" "ready (bm_disk zero_pool)" "bm_free zero_pool \<noteq> []"
  "bm_pages zero_pool p = None" "stored (bm_disk zero_pool) 0 = Some (replicate PAGE_SIZE 0)"
proof -
  show "bm_inv zero_pool"
    unfolding zero_pool_def by (rule bm_inv_new) (simp_all add: PosixDiskManager_new_def)
qed (simp_all add: zero_pool_def BufferManager_new_def PosixDiskManager_new_def ready_def stored_def peek_def)

lemma opened_store: "\<exists>s. MetaPage_new zero_pool = Inr s \<and> store_ok s \<and> no_tables (st_meta s) \<and>
    mdata s = replicate PAGE_SIZE 0"
  by (rule MetaPage_new_ok [OF zero_pool_facts(1,4,3,2,5)]) blast

lemma zero_word: "peek 8 8 (replicate 4096 0) = le_bytes 8 (0 :: u64)"
  by (simp add: peek_def le_bytes_def bytes_of_nat_0)

lemma empty_catalog: "\<exists>s. meta_rep s []"
  using opened_store Init_empty zero_word by metis

theorem catalog_init_empty_witness:
  "\<exists>s t. MetaPage_new zero_pool = Inr s \<and> MP_Init s = (Inr (), t) \<and> meta_rep t []"
proof -
  obtain s where s: "MetaPage_new zero_pool = Inr s" "store_ok s" "no_tables (st_meta s)" "mdata s = replicate PAGE_SIZE 0"
    using opened_store by blast
  have "peek 8 8 (mdata s) = le_bytes 8 (0 :: u64)" using s(4) zero_word by simp
  from catalog_init_empty [OF s(2,3) this] s(1) show ?thesis by blast
qed

definition demo_item :: MetaItem where
  "demo_item = \<lparr>mi_first = 0, mi_name = ''t'', mi_rows = 0, mi_id = 1, mi_last = 0, mi_offset = 24,
     mi_items = [\<lparr>mc_name = ''a'', mc_type = CT_INTEGER, mc_flags = 0, mc_id = 1\<rparr>]\<rparr>"

lemma demo_item_size: "length (item_bytes demo_item) = 76"
  by (simp add: demo_item_def item_bytes_split column_bytes_split)

theorem catalog_add_table_witness:
  "\<exists>s t. meta_rep s [] \<and> MP_AddTable demo_item s = (Inr (), t) \<and> meta_rep t [demo_item]"
proof -
  obtain s where s: "meta_rep s []" using empty_catalog by blast
  have "demo_item\<lparr>mi_offset := 24\<rparr> = demo_item" by (simp add: demo_item_def)
  then show ?thesis using catalog_add_table [OF s, of demo_item] s demo_item_size by auto
qed

lemma demo_store: "\<exists>s. meta_rep s [demo_item] \<and> bm_free (st_bm s) \<noteq> [] \<and> bm_next_id (st_bm s) = 1 \<and>
    bm_pages (st_bm s) 1 = None \<and> ready (bm_disk (st_bm s))"
proof -
  let ?P = "\<lambda>b. bm_free b \<noteq> [] \<and> bm_next_id b = 1 \<and> bm_pages b 1 = None \<and> ready (bm_disk b)"
  have keep: "?P (st_bm t)" if "meta_only s t" "?P (st_bm s)" for s t
    using that only_frameD(2,3,4,9) [of "mp_frame (st_meta s)" "st_bm s" "st_bm t"] by (simp add: meta_only_def)
  have "[0..<128] = [0..<127] @ [127]" using upt_add_eq_append [of 0 127 1] by (simp add: upt_rec [of 127])
  then have free: "bm_free zero_pool = [0..<127] @ [127]" by (simp add: zero_pool_def BufferManager_new_def)
  have next_id: "bm_next_id zero_pool = 1" by (simp add: zero_pool_def BufferManager_new_def)
  have "?P (loaded 0 (last (bm_free zero_pool)) zero_pool)"
    unfolding loaded_ready [OF zero_pool_facts(1,3,4) _ zero_pool_facts(2,5), simplified addressable_def, simplified]
    using zero_pool_facts(2,4) by (simp add: frame_simps free next_id)
  moreover obtain s where s: "MetaPage_new zero_pool = Inr s" "store_ok s" "no_tables (st_meta s)" "mdata s = replicate PAGE_SIZE 0"
    using opened_store by blast
  moreover have "st_bm s = loaded 0 (last (bm_free zero_pool)) zero_pool"
    using s(1) BM_FetchPage_load [OF zero_pool_facts(1,4,3)] by (auto simp: MetaPage_new_def)
  ultimately have P: "?P (st_bm s)" by simp
  have "peek 8 8 (mdata s) = le_bytes 8 (0 :: u64)" using s(4) zero_word by simp
  then obtain t where t: "meta_rep t []" "meta_only s t" by (rule Init_empty [OF s(2,3)])
  have "demo_item\<lparr>mi_offset := 24\<rparr> = demo_item" by (simp add: demo_item_def)
  then obtain u where "meta_rep u [demo_item]" "meta_only t u" using AddTable_rep [OF t(1), of demo_item] demo_item_size by auto
  then show ?thesis using keep t(2) P by blast
qed

lemma demo_catalog: "\<exists>s. meta_rep s [demo_item]"
  using demo_store by blast

theorem catalog_reload_witness:
  "\<exists>s t v. page_rep v [demo_item] (mdata s) \<and> no_tables (st_meta s) \<and> MP_ReadMata s = (Inr (), t) \<and> meta_rep t [demo_item]"
proof -
  obtain s where s: "meta_rep s [demo_item]" using demo_catalog by blast
  let ?s = "s\<lparr>st_meta := (st_meta s)\<lparr>mp_items := [], mp_id_tables := (\<lambda>_. None), mp_name_tables := (\<lambda>_. None)\<rparr>\<rparr>"
  have p: "page_rep (mp_version (st_meta s)) [demo_item] (mdata ?s)" "store_ok ?s"
    using s by (simp_all add: meta_rep_def store_ok_def mdata_def)
  then have "\<exists>t. MP_ReadMata ?s = (Inr (), t) \<and> meta_rep t [demo_item] \<and> st_bm t = st_bm ?s"
    by (intro catalog_reload) simp_all
  moreover have "no_tables (st_meta ?s)" by (simp add: no_tables_def)
  ultimately show ?thesis using p(1) by blast
qed

theorem catalog_update_rows_witness:
  "\<exists>s t. meta_rep s [demo_item] \<and> MP_UpdateTableRows 1 (- 1) s = (Inr (), t) \<and> meta_rep t [demo_item]"
proof -
  obtain s where s: "meta_rep s [demo_item]" using demo_catalog by blast
  have "int (unat (mi_rows demo_item)) + sint (- 1 :: u64) < 2 ^ 64" by (simp add: demo_item_def)
  with catalog_update_rows [of s "[]" demo_item "[]" "- 1"] s
  obtain t rows where t: "MP_UpdateTableRows 1 (- 1) s = (Inr (), t)" "meta_rep t [demo_item\<lparr>mi_rows := rows\<rparr>]" "unat rows = 0"
    by (auto simp: demo_item_def)
  moreover have "rows = 0" using t(3) by (simp add: unat_eq_zero)
  ultimately show ?thesis using s by (auto simp: demo_item_def)
qed

theorem catalog_first_page_lookup_witness:
  "\<exists>s t. meta_rep s [demo_item] \<and> MP_UpdateTableFirstId 1 7 s = (Inr (), t) \<and> MP_GetFirstPageId 1 t = (Inr 7, t)"
proof -
  obtain s where s: "meta_rep s [demo_item]" using demo_catalog by blast
  with catalog_first_page_lookup [of s "[]" demo_item "[]" 7] show ?thesis by (auto simp: demo_item_def)
qed

text \<open>C31. The space check of \<open>AddTable\<close> counts the table name and the fixed fields but not the columns:
  in every store there is an item that passes the check and whose columns are written past the
  end of the page.\<close>

theorem add_table_overruns_page:
  assumes "store_ok s" "mp_last_point (st_meta s) = 24" "mi_name item = ''t''"
    and "PAGE_SIZE < 24 + length (item_bytes item)"
  shows "\<exists>t. MP_AddTable item s = (Inl MemoryFault, t)"
proof -
  have fault: "\<exists>u. for_each cs mp_emit t = (Inl MemoryFault, u)"
    if "store_ok t" "unat (mp_last_point (st_meta t)) \<le> PAGE_SIZE"
      "PAGE_SIZE < unat (mp_last_point (st_meta t)) + length (concat cs)" for cs t
    using that
  proof (induction cs arbitrary: t)
    case (Cons c cs)
    let ?lp = "mp_last_point (st_meta t)"
    show ?case
    proof (cases "unat ?lp + length c \<le> PAGE_SIZE")
      case True
      let ?t = "wr (poke (unat ?lp) c (mdata t)) (?lp + word_of_nat (length c)) t"
      have "length (poke (unat ?lp) c (mdata t)) = PAGE_SIZE" using True length_mdata [OF Cons.prems(1)] by simp
      note w = wr_facts [OF Cons.prems(1) this, of "?lp + word_of_nat (length c)"]
      have "unat (word_of_nat (length c) :: u64) = length c" using True by (intro unat_small) simp
      then have "unat (?lp + word_of_nat (length c)) = unat ?lp + length c"
        using True by (subst unat_add_u64) simp_all
      then show ?thesis
        using Cons.IH [of ?t] Cons.prems True w by (simp add: comp_simps mp_emit_run)
    next
      case False
      then have "mp_write (unat ?lp) c t = (Inl MemoryFault, t)"
        using length_mdata [OF Cons.prems(1)]
        by (simp add: mp_write_def comp_simps fr_write_def mem_write_def mdata_def fdata_def)
      then show ?thesis by (simp add: comp_simps mp_emit_def)
    qed
  qed simp
  let ?it = "item\<lparr>mi_offset := 24\<rparr>"
  have "length (concat (item_chunks ?it)) = length (item_bytes item)"
    by (simp add: item_bytes_split flip: item_bytes_def)
  then obtain u where "for_each (item_chunks ?it) mp_emit s = (Inl MemoryFault, u)"
    using fault [of s "item_chunks ?it"] assms by auto
  then show ?thesis using assms(2,3) by (simp add: MP_AddTable_def comp_simps Let_def word_le_nat_alt)
qed

definition wide_item :: MetaItem where
  "wide_item = demo_item\<lparr>mi_items := replicate 230 \<lparr>mc_name = [], mc_type = CT_INTEGER, mc_flags = 0, mc_id = 1\<rparr>\<rparr>"

theorem add_table_overruns_page_witness:
  "\<exists>s t. meta_rep s [] \<and> MP_AddTable wide_item s = (Inl MemoryFault, t)"
proof -
  obtain s where s: "meta_rep s []" using empty_catalog by blast
  have "length (item_bytes wide_item) = 4197"
    by (simp add: wide_item_def demo_item_def item_bytes_split column_bytes_split length_concat comp_def sum_list_replicate)
  then show ?thesis
    using s add_table_overruns_page [of s wide_item] by (auto simp: meta_rep_def wide_item_def demo_item_def)
qed

end
