(* ===== verification/Page_Session.thy ===== *)
theory Page_Session
  imports Frame_Access
begin

text \<open>
  The way every client uses a page: fetch it (or allocate a new one), work on the bytes of its frame,
  release it.  \<open>pool_ok\<close> is the state in which all three succeed: the stream is usable and the id counter
  is ahead of every page of the file and of the pool.  The lemmas give the effect of a whole session on the
  contents of all pages; the undo log, the table heap and the scans rest on them.
\<close>

definition pool_ok :: "BufferManager \<Rightarrow> bool" where
  "pool_ok b \<longleftrightarrow> bm_inv b \<and> ready (bm_disk b) \<and> length (fs_file (bm_disk b)) \<le> unat (bm_next_id b) * PAGE_SIZE \<and>
     (\<forall>q f. bm_pages b q = Some f \<longrightarrow> unat q < unat (bm_next_id b))"

lemma pool_okD:
  assumes "pool_ok b"
  shows "bm_inv b" "ready (bm_disk b)" "fs_open (bm_disk b)" "length (fs_file (bm_disk b)) \<le> unat (bm_next_id b) * PAGE_SIZE"
    "bm_pages b q = Some f \<Longrightarrow> unat q < unat (bm_next_id b)"
  using assms by (auto simp: pool_ok_def ready_def)

text \<open>No page at or above the counter has contents.\<close>

lemma pool_ok_fresh:
  assumes "pool_ok b" "unat (bm_next_id b) \<le> unat q"
  shows "bm_pages b q = None" "page_content b q = None"
proof -
  show n: "bm_pages b q = None" using pool_okD(5) [OF assms(1), of q] assms(2) by (cases "bm_pages b q") auto
  have "unat (bm_next_id b) * 4096 < unat q * 4096 + 4096" using assms(2) by simp
  then show "page_content b q = None"
    using n pool_okD(4) [OF assms(1)] by (simp add: page_content_def stored_def)
qed

lemma pool_ok_content_below: "pool_ok b \<Longrightarrow> page_content b q = Some d \<Longrightarrow> unat q < unat (bm_next_id b)"
  using pool_ok_fresh(2) [of b q] by (cases "unat q < unat (bm_next_id b)") auto

text \<open>Only the bytes and the dirty mark of the frame have changed.\<close>

definition mem_only :: "frame_id \<Rightarrow> BufferManager \<Rightarrow> BufferManager \<Rightarrow> bool" where
  "mem_only f b c \<longleftrightarrow> only_frame f b c \<and> bm_disk c = bm_disk b"

lemma mem_only_refl: "bm_inv b \<Longrightarrow> mem_only f b b"
  by (simp add: mem_only_def only_frame_refl)

lemma mem_only_trans: "mem_only f b c \<Longrightarrow> mem_only f c d \<Longrightarrow> mem_only f b d"
  by (auto simp: mem_only_def intro: only_frame_trans)

lemma mem_only_put: "held pid f b \<Longrightarrow> length d = PAGE_SIZE \<Longrightarrow> mem_only f b (put f d b)"
  using only_frame_put by (simp add: mem_only_def put_def frame_simps)

lemma mem_only_dirty: "held pid f b \<Longrightarrow> mem_only f b (on_frame f (\<lambda>p. p\<lparr>pg_dirty := True\<rparr>) b)"
  using only_frame_dirty by (simp add: mem_only_def frame_simps)

lemma mem_only_held: "mem_only f b c \<Longrightarrow> held pid g b \<Longrightarrow> held pid g c"
  by (auto simp: mem_only_def intro: only_frame_held)

lemma pool_ok_mem_only: "pool_ok b \<Longrightarrow> mem_only f b c \<Longrightarrow> pool_ok c"
  by (auto simp: pool_ok_def mem_only_def only_frame_def)

section \<open>Releasing\<close>

lemma released_fields:
  "bm_next_id (released pid f b) = bm_next_id b"
  "length (bm_free (released pid f b)) = length (bm_free b) + (if pin_count (bm_lru b) f = 1 then 1 else 0)"
  "bm_pages (released pid f b) q = Some g \<Longrightarrow> bm_pages b q = Some g"
  by (auto simp: released_def Let_def frame_simps split: if_splits)

lemma backed_released:
  assumes "bm_inv b" "bm_pages b pid = Some f" "backed b pid"
  shows "backed (released pid f b) pid"
proof (cases "bm_pages (released pid f b) pid")
  case (Some g)
  then have "g = f" using released_fields(3) [OF Some] assms(2) by simp
  moreover have "f < length (bm_frames b)" using bm_invD(3,8) [OF assms(1)] assms(2) by simp
  ultimately show ?thesis
    using Some stored_cleaned_self [OF assms] released_frame [of f b f pid] by (simp add: backed_def released_disk)
qed (simp add: backed_def)

lemma release_run:
  assumes ok: "pool_ok b" and m: "bm_pages b pid = Some f" and bk: "backed b pid"
  obtains c where "BM_Release pid b = (Inr (), c)" "pool_ok c" "bm_next_id c = bm_next_id b"
    "length (bm_free c) = length (bm_free b) + (if pin_count (bm_lru b) f = 1 then 1 else 0)"
    "\<forall>q d. page_content b q = Some d \<longrightarrow> page_content c q = Some d" "backed c pid"
proof
  note p = pool_okD [OF ok] and inv = bm_invD(8) [OF pool_okD(1) [OF ok] m]
  show "BM_Release pid b = (Inr (), released pid f b)" using p(3) m by (rule BM_Release_run)
  show "bm_next_id (released pid f b) = bm_next_id b"
    "length (bm_free (released pid f b)) = length (bm_free b) + (if pin_count (bm_lru b) f = 1 then 1 else 0)"
    by (rule released_fields)+
  show "\<forall>q d. page_content b q = Some d \<longrightarrow> page_content (released pid f b) q = Some d"
    using page_content_released [OF p(1) m bk] by blast
  show "backed (released pid f b) pid" by (rule backed_released [OF p(1) m bk])
  have fd: "length (pg_data (frame_of f b)) = PAGE_SIZE" using bm_invD(4) [OF p(1)] inv by blast
  have "ready (bm_disk (cleaned f b)) \<and> length (fs_file (bm_disk (cleaned f b))) \<le> unat (bm_next_id b) * PAGE_SIZE"
  proof (cases "pg_dirty (frame_of f b)")
    case True
    have "unat pid * 4096 + 4096 \<le> unat (bm_next_id b) * 4096" using p(5) [OF m] by simp
    then have "length (fs_file (bm_disk (wrote f b))) \<le> unat (bm_next_id b) * 4096"
      using length_file_wrote [of f b] inv fd p(3,4) by simp
    then show ?thesis
      using True stored_wrote_same(2) [of b f] inv fd p(3) by (simp add: cleaned_def frame_simps)
  next
    case False
    then show ?thesis using p(2,4) by (simp add: cleaned_def)
  qed
  then show "pool_ok (released pid f b)"
    using bm_inv_released [OF p(1) m] p(5) released_fields(1,3) [of pid f b]
    by (auto simp: pool_ok_def released_disk)
qed

lemma backed_released_all:
  assumes "bm_inv b" "bm_pages b pid = Some f" "backed b q"
  shows "backed (released pid f b) q"
proof -
  have "f < length (bm_frames b)" using bm_invD(3,8) [OF assms(1)] assms(2) by simp
  then have "pg_dirty (frame_of g (released pid f b)) = pg_dirty (frame_of g (cleaned f b))" "pg_data (frame_of g (released pid f b)) = pg_data (frame_of g (cleaned f b))" for g
    by (simp_all add: released_def Let_def cleaned_def wrote_def frame_simps)
  then show ?thesis
    using backed_cleaned [OF assms] by (auto simp: backed_def released_pages released_disk frame_simps split: option.splits)
qed

section \<open>Sessions\<close>

text \<open>
  \<open>evolves P b c\<close>: between \<open>b\<close> and \<open>c\<close> the contents of the pages \<open>P\<close> at most were changed, and every page fetched was released again: the same pages are in
  the pool, in the same frames with the same pin counts.
\<close>

definition evolves :: "page_id_t set \<Rightarrow> BufferManager \<Rightarrow> BufferManager \<Rightarrow> bool" where
  "evolves P b c \<longleftrightarrow> pool_ok c \<and> unat (bm_next_id b) \<le> unat (bm_next_id c) \<and> bm_pages c = bm_pages b \<and> length (bm_free c) = length (bm_free b) \<and>
     (\<forall>q f. bm_pages b q = Some f \<longrightarrow> pin_count (bm_lru c) f = pin_count (bm_lru b) f) \<and>
     (\<forall>q d. q \<notin> P \<longrightarrow> page_content b q = Some d \<longrightarrow> page_content c q = Some d) \<and> (\<forall>q. q \<notin> P \<longrightarrow> backed b q \<longrightarrow> backed c q)"

lemma evolves_refl: "pool_ok b \<Longrightarrow> evolves P b b"
  by (simp add: evolves_def)

lemma evolvesD:
  assumes "evolves P b c"
  shows "pool_ok c" "unat (bm_next_id b) \<le> unat (bm_next_id c)" "bm_pages c = bm_pages b" "length (bm_free c) = length (bm_free b)"
    "bm_pages b q = Some f \<Longrightarrow> pin_count (bm_lru c) f = pin_count (bm_lru b) f" "q \<notin> P \<Longrightarrow> page_content b q = Some d \<Longrightarrow> page_content c q = Some d"
    "q \<notin> P \<Longrightarrow> backed b q \<Longrightarrow> backed c q"
  using assms by (auto simp: evolves_def)

lemma evolves_trans:
  assumes "evolves P b c" "evolves Q c d" "P \<union> Q \<subseteq> R"
  shows "evolves R b d"
proof -
  note x = evolvesD [OF assms(1)] and y = evolvesD [OF assms(2)]
  have "page_content d q = Some e" if "q \<notin> R" "page_content b q = Some e" for q e using x(6) [OF _ that(2)] y(6) that(1) assms(3) by blast
  moreover have "backed d q" if "q \<notin> R" "backed b q" for q using x(7) [OF _ that(2)] y(7) that(1) assms(3) by blast
  ultimately show ?thesis using x(2-5) y(1-5) unfolding evolves_def by simp
qed

lemma only_frame_evolves:
  assumes "only_frame f b c" "held pid f b" "pool_ok b"
  shows "evolves {pid} b c"
proof -
  note o = only_frameD [OF assms(1)] and p = pool_okD [OF assms(3)]
  have m: "bm_pages b pid = Some f" "pg_id (frame_of f b) = pid" using assms(2) heldD(6) [OF assms(2)] by (simp_all add: held_def)
  have other: "bm_pages b q \<noteq> Some f" if "q \<noteq> pid" for q using mapped_inj [of b q f pid] p(1) m(1) that by blast
  have "unat (pg_id (frame_of f b)) < unat (bm_next_id b)" using p(5) m by simp
  then have "pool_ok c" using o(1,2,3) o(9) [OF p(2)] o(11) [OF p(4)] p(5) by (simp add: pool_ok_def)
  then show ?thesis using o(2-5) o(8,10) other unfolding evolves_def by simp
qed

text \<open>\<open>finishes f pid n b0 c\<close>: from a state that differs from \<open>c\<close> in the bytes of frame \<open>f\<close> only, releasing the
  page leaves the contents of all other pages as in \<open>b0\<close>, this page with the bytes of the frame, and \<open>n\<close> free frames.\<close>

definition finishes :: "frame_id \<Rightarrow> page_id_t \<Rightarrow> nat \<Rightarrow> BufferManager \<Rightarrow> BufferManager \<Rightarrow> bool" where
  "finishes f pid n b0 c \<longleftrightarrow> (\<forall>e. mem_only f c e \<longrightarrow> backed e pid \<longrightarrow>
     (\<exists>r. BM_Release pid e = (Inr (), r) \<and> pool_ok r \<and> bm_next_id r = bm_next_id c \<and> length (bm_free r) = n \<and>
       page_content r pid = Some (fdata f e) \<and> backed r pid \<and>
       (\<forall>q d. q \<noteq> pid \<longrightarrow> page_content b0 q = Some d \<longrightarrow> page_content r q = Some d) \<and> evolves {pid} b0 r))"

text \<open>\<open>entered f pid b0 c\<close>: the page was pinned once more, or brought into the frame.\<close>

definition entered :: "frame_id \<Rightarrow> page_id_t \<Rightarrow> BufferManager \<Rightarrow> BufferManager \<Rightarrow> bool" where
  "entered f pid b0 c \<longleftrightarrow> bm_pages c = (bm_pages b0)(pid \<mapsto> f) \<and> unat (bm_next_id b0) \<le> unat (bm_next_id c) \<and>
     (\<forall>q g. q \<noteq> pid \<longrightarrow> bm_pages b0 q = Some g \<longrightarrow> g \<noteq> f \<and> pin_count (bm_lru c) g = pin_count (bm_lru b0) g) \<and>
     (bm_pages b0 pid = None \<and> pin_count (bm_lru c) f = 1 \<or>
      bm_pages b0 pid = Some f \<and> 0 < pin_count (bm_lru b0) f \<and> pin_count (bm_lru c) f = pin_count (bm_lru b0) f + 1) \<and>
     (\<forall>q. q \<noteq> pid \<longrightarrow> backed b0 q \<longrightarrow> backed c q)"

lemma released_entered:
  assumes "entered f pid b0 c" "bm_pages e = bm_pages c" "bm_lru e = bm_lru c"
  shows "bm_pages (released pid f e) = bm_pages b0" "bm_pages b0 q = Some g \<Longrightarrow> pin_count (bm_lru (released pid f e)) g = pin_count (bm_lru b0) g"
proof -
  show "bm_pages (released pid f e) = bm_pages b0"
    using assms unfolding entered_def by (auto simp: released_def Let_def frame_simps)
  show "bm_pages b0 q = Some g \<Longrightarrow> pin_count (bm_lru (released pid f e)) g = pin_count (bm_lru b0) g"
    using assms unfolding entered_def by (cases "q = pid") (auto simp: released_def Let_def frame_simps)
qed

lemma finishesI:
  assumes ok: "pool_ok c" and h: "held pid f c"
    and n: "n = length (bm_free c) + (if pin_count (bm_lru c) f = 1 then 1 else 0)" "n = length (bm_free b0)"
    and keep: "\<And>q d. q \<noteq> pid \<Longrightarrow> page_content b0 q = Some d \<Longrightarrow> page_content c q = Some d" and ent: "entered f pid b0 c"
  shows "finishes f pid n b0 c"
  unfolding finishes_def
proof (intro allI impI)
  fix e assume e: "mem_only f c e" "backed e pid"
  note he = heldD [OF mem_only_held [OF e(1) h]]
  note of = only_frameD [OF conjunct1 [OF e(1) [unfolded mem_only_def]]]
  obtain r where r: "BM_Release pid e = (Inr (), r)" "pool_ok r" "bm_next_id r = bm_next_id e"
    "length (bm_free r) = length (bm_free e) + (if pin_count (bm_lru e) f = 1 then 1 else 0)"
    "\<forall>q d. page_content e q = Some d \<longrightarrow> page_content r q = Some d" "backed r pid"
    by (rule release_run [OF pool_ok_mem_only [OF ok e(1)] he(2) e(2)])
  have "page_content e pid = Some (fdata f e)" using he(2) by (simp add: page_content_def fdata_def)
  moreover have kept: "page_content e q = Some d" if "q \<noteq> pid" "page_content b0 q = Some d" for q d
  proof -
    have "bm_pages c q \<noteq> Some f" using mapped_inj [of c q f pid] heldD(1,2) [OF h] that(1) by blast
    then show ?thesis using of(8) keep [OF that] by blast
  qed
  moreover have "evolves {pid} b0 r"
  proof -
    have e0: "r = released pid f e" using r(1) BM_Release_run [OF pool_okD(3) [OF pool_ok_mem_only [OF ok e(1)]] he(2)] by simp
    note re = released_entered [OF ent of(2,5), folded e0]
    have "backed r q" if "q \<noteq> pid" "backed b0 q" for q
    proof -
      have "bm_pages c q \<noteq> Some f" using mapped_inj [of c q f pid] heldD(1,2) [OF h] that(1) by blast
      then have "backed e q" using of(10) ent that by (simp add: entered_def)
      then show ?thesis using backed_released_all [OF he(1,2)] e0 by simp
    qed
    moreover have "page_content r q = Some d" if "q \<noteq> pid" "page_content b0 q = Some d" for q d using kept [OF that] r(5) by blast
    ultimately show ?thesis using r n of(3,4,5) re ent unfolding evolves_def entered_def by simp
  qed
  ultimately show "\<exists>r. BM_Release pid e = (Inr (), r) \<and> pool_ok r \<and> bm_next_id r = bm_next_id c \<and> length (bm_free r) = n \<and>
       page_content r pid = Some (fdata f e) \<and> backed r pid \<and> (\<forall>q d. q \<noteq> pid \<longrightarrow> page_content b0 q = Some d \<longrightarrow> page_content r q = Some d) \<and> evolves {pid} b0 r"
    using r n(1) of(3,4,5) by (intro exI [of _ r]) auto
qed

lemma finishesD:
  assumes "finishes f pid n b0 c" "mem_only f c e" "backed e pid"
  obtains r where "BM_Release pid e = (Inr (), r)" "pool_ok r" "bm_next_id r = bm_next_id c" "length (bm_free r) = n"
    "page_content r pid = Some (fdata f e)" "backed r pid" "\<And>q d. q \<noteq> pid \<Longrightarrow> page_content b0 q = Some d \<Longrightarrow> page_content r q = Some d"
    "evolves {pid} b0 r"
  using assms unfolding finishes_def by blast

lemma fetch_session:
  assumes ok: "pool_ok b" and free: "bm_free b \<noteq> []" and addr: "addressable pid" and d: "page_content b pid = Some d"
  obtains f c where "BM_FetchPage pid b = (Inr f, c)" "held pid f c" "fdata f c = d" "pool_ok c"
    "bm_next_id c = bm_next_id b" "finishes f pid (length (bm_free b)) b c" "backed b pid \<longrightarrow> backed c pid"
    "length (bm_free b) \<le> Suc (length (bm_free c))" "\<forall>q d. page_content b q = Some d \<longrightarrow> page_content c q = Some d"
proof (cases "bm_pages b pid")
  case None
  let ?f = "last (bm_free b)" and ?c = "loaded pid (last (bm_free b)) b"
  note p = pool_okD [OF ok]
  have st: "stored (bm_disk b) pid = Some d" using d None by (simp add: page_content_def)
  have run: "BM_FetchPage pid b = (Inr ?f, ?c)" by (rule BM_FetchPage_load [OF p(1) None free])
  note pc = page_content_fetched [OF p(1) addr p(2) d run]
  have inv: "bm_inv ?c" by (rule bm_inv_loaded [OF p(1) free None addr])
  note ld = loaded_ready [OF p(1) free None addr p(2) st]
  have flds: "bm_next_id ?c = bm_next_id b" "bm_disk ?c = bm_disk b" "bm_free ?c = butlast (bm_free b)"
    "bm_pages ?c = (bm_pages b)(pid \<mapsto> ?f)" "pin_count (bm_lru ?c) ?f = 1"
    unfolding ld using last_free(3) [OF p(1) free] by (simp_all add: frame_simps)
  have below: "unat pid < unat (bm_next_id b)" by (rule pool_ok_content_below [OF ok d])
  have okc: "pool_ok ?c" using inv flds p below by (auto simp: pool_ok_def)
  have h: "held pid ?f ?c" using inv flds by (simp add: held_def)
  have lf: "?f < length (bm_frames b)" using last_free(1) [OF p(1) free] bm_invD(3) [OF p(1)] by simp
  have ne: "g \<noteq> ?f" if "bm_pages b q = Some g" for q g using last_free(4) [OF p(1) free] that by (auto simp: ran_def)
  have ent: "entered ?f pid b ?c"
    using None ne lf flds(5) unfolding entered_def ld by (auto simp: backed_def frame_simps split: option.splits)
  have "finishes ?f pid (length (bm_free b)) b ?c" using pc free flds by (intro finishesI [OF okc h _ _ _ ent]) auto
  moreover have "backed ?c pid" using flds pc st by (simp add: backed_def)
  ultimately show ?thesis using that run h okc flds pc free by (simp add: fdata_def)
next
  case (Some f)
  note p = pool_okD [OF ok]
  have run: "BM_FetchPage pid b = (Inr f, pin_frame f b)" by (rule BM_FetchPage_mapped [OF p(1) Some])
  note pc = page_content_fetched [OF p(1) addr p(2) d run]
  have inv: "bm_inv (pin_frame f b)" by (rule bm_inv_pin_mapped [OF p(1) Some])
  have okc: "pool_ok (pin_frame f b)" using inv p by (simp add: pool_ok_def frame_simps)
  have h: "held pid f (pin_frame f b)" using inv Some by (simp add: held_def frame_simps)
  have "0 < pin_count (bm_lru b) f" using bm_invD(8) [OF p(1) Some] by blast
  moreover have "g \<noteq> f" if "q \<noteq> pid" "bm_pages b q = Some g" for q g using mapped_inj [OF p(1) that(2), of pid] Some that(1) by auto
  ultimately have "entered f pid b (pin_frame f b)" using Some unfolding entered_def by (auto simp: backed_def frame_simps fun_upd_idem split: option.splits)
  with \<open>0 < pin_count (bm_lru b) f\<close> have "finishes f pid (length (bm_free b)) b (pin_frame f b)"
    using pc by (intro finishesI [OF okc h]) (auto simp: frame_simps)
  then show ?thesis using that run h okc pc Some by (simp add: fdata_def frame_simps backed_def)
qed

lemma new_session:
  assumes ok: "pool_ok b" and free: "bm_free b \<noteq> []" and addr: "addressable (bm_next_id b)"
  obtains f c where "BM_NewPage b = (Inr f, c)" "held (bm_next_id b) f c" "fdata f c = replicate PAGE_SIZE 0" "pool_ok c"
    "unat (bm_next_id c) = Suc (unat (bm_next_id b))" "finishes f (bm_next_id b) (length (bm_free b)) b c"
    "pg_id (frame_of f c) = bm_next_id b" "\<forall>q d. page_content b q = Some d \<longrightarrow> page_content c q = Some d"
proof -
  let ?f = "last (bm_free b)" and ?i = "bm_next_id b" and ?c = "allocated (last (bm_free b)) b"
  note p = pool_okD [OF ok]
  have new: "bm_pages b ?i = None" "page_content b ?i = None" by (rule pool_ok_fresh [OF ok], simp)+
  have run: "BM_NewPage b = (Inr ?f, ?c)" by (rule BM_NewPage_run [OF p(1) free])
  have inv: "bm_inv ?c" by (rule bm_inv_allocated [OF p(1) free new(1) addr])
  have f: "?f < length (bm_frames b)" using last_free(1) [OF p(1) free] bm_invD(3) [OF p(1)] by simp
  have flds: "bm_next_id ?c = ?i + 1" "bm_disk ?c = bm_disk b" "bm_free ?c = butlast (bm_free b)"
    "bm_pages ?c = (bm_pages b)(?i \<mapsto> ?f)" "pin_count (bm_lru ?c) ?f = 1" "fdata ?f ?c = replicate 4096 0"
    using last_free(3) [OF p(1) free] f by (simp_all add: allocated_def frame_simps fdata_def)
  have "unat ?i + unat (1 :: u64) < 2 ^ 64" using addr by (simp add: addressable_def)
  then have nx: "unat (bm_next_id ?c) = Suc (unat ?i)" unfolding flds(1) by (subst unat_add_u64) simp_all
  have okc: "pool_ok ?c" using inv flds(2,4) p nx by (auto simp: pool_ok_def intro: le_trans less_SucI)
  have h: "held ?i ?f ?c" using inv flds by (simp add: held_def)
  have keep: "page_content ?c q = Some d" if "page_content b q = Some d" for q d
    using page_content_allocated [OF p(1) free new(1) that] that new(2) by (cases "q = ?i") auto
  have ne: "g \<noteq> ?f" if "bm_pages b q = Some g" for q g using last_free(4) [OF p(1) free] that by (auto simp: ran_def)
  have ent: "entered ?f ?i b ?c"
    using new(1) ne f flds(5) nx unfolding entered_def by (auto simp: allocated_def backed_def frame_simps split: option.splits)
  have "finishes ?f ?i (length (bm_free b)) b ?c" using keep free flds by (intro finishesI [OF okc h _ _ _ ent]) auto
  then show ?thesis using that run h okc flds nx keep heldD(6) [OF h] by simp
qed

section \<open>Reading\<close>

text \<open>
  \<open>quiet b c\<close>: between \<open>b\<close> and \<open>c\<close> pages were only read, and every page fetched was released again.  The same pages are in
  the pool, in the same frames with the same pin counts, and no page lost its contents.
\<close>

definition keeps_pages :: "BufferManager \<Rightarrow> BufferManager \<Rightarrow> bool" where
  "keeps_pages b c \<longleftrightarrow> pool_ok c \<and> bm_next_id c = bm_next_id b \<and>
     (\<forall>q d. page_content b q = Some d \<longrightarrow> page_content c q = Some d) \<and> (\<forall>q. backed b q \<longrightarrow> backed c q)"

definition quiet :: "BufferManager \<Rightarrow> BufferManager \<Rightarrow> bool" where
  "quiet b c \<longleftrightarrow> keeps_pages b c \<and> bm_pages c = bm_pages b \<and> length (bm_free c) = length (bm_free b) \<and>
     (\<forall>q f. bm_pages b q = Some f \<longrightarrow> pin_count (bm_lru c) f = pin_count (bm_lru b) f)"

lemma keeps_pages_refl: "pool_ok b \<Longrightarrow> keeps_pages b b"
  by (simp add: keeps_pages_def)

lemma keeps_pages_trans: "keeps_pages b c \<Longrightarrow> keeps_pages c d \<Longrightarrow> keeps_pages b d"
  by (simp add: keeps_pages_def)

lemma quiet_refl: "pool_ok b \<Longrightarrow> quiet b b"
  by (simp add: quiet_def keeps_pages_refl)

lemma quiet_trans: "quiet b c \<Longrightarrow> quiet c d \<Longrightarrow> quiet b d"
  by (auto simp: quiet_def keeps_pages_def)

lemma quietD:
  assumes "quiet b c"
  shows "pool_ok c" "keeps_pages b c" "page_content b q = Some d \<Longrightarrow> page_content c q = Some d" "backed b q \<Longrightarrow> backed c q"
    "length (bm_free c) = length (bm_free b)" "bm_pages c = bm_pages b"
  using assms by (simp_all add: quiet_def keeps_pages_def)

text \<open>\<open>pinned n pid f b\<close>: the page is in frame \<open>f\<close>, and \<open>n\<close> frames will be free once it is released.\<close>

definition pinned :: "nat \<Rightarrow> page_id_t \<Rightarrow> frame_id \<Rightarrow> BufferManager \<Rightarrow> bool" where
  "pinned n pid f b \<longleftrightarrow> bm_pages b pid = Some f \<and> length (bm_free b) + (if pin_count (bm_lru b) f = 1 then 1 else 0) = n"

lemma pinned_quiet: "pinned n pid f b \<Longrightarrow> quiet b c \<Longrightarrow> pinned n pid f c"
  by (auto simp: pinned_def quiet_def)

lemma pinned_free: "pinned n pid f b \<Longrightarrow> n \<le> Suc (length (bm_free b))"
  by (auto simp: pinned_def split: if_splits)

text \<open>\<open>stays P b c\<close>: pages outside \<open>P\<close> that were in the pool are in the same frame.\<close>

definition stays :: "page_id_t set \<Rightarrow> BufferManager \<Rightarrow> BufferManager \<Rightarrow> bool" where
  "stays P b c \<longleftrightarrow> (\<forall>q f. q \<notin> P \<longrightarrow> bm_pages b q = Some f \<longrightarrow> bm_pages c q = Some f)"

lemma stays_refl: "stays P b b"
  by (simp add: stays_def)

lemma stays_trans: "stays P b c \<Longrightarrow> stays Q c d \<Longrightarrow> P \<union> Q \<subseteq> R \<Longrightarrow> stays R b d"
  unfolding stays_def by blast

lemma release_pinned:
  assumes ok: "pool_ok b" and p: "pinned n pid f b" and bk: "backed b pid"
  obtains c where "BM_Release pid b = (Inr (), c)" "keeps_pages b c" "length (bm_free c) = n" "stays {pid} b c"
proof -
  have m: "bm_pages b pid = Some f" using p by (simp add: pinned_def)
  obtain c where c: "BM_Release pid b = (Inr (), c)" "pool_ok c" "bm_next_id c = bm_next_id b"
    "length (bm_free c) = length (bm_free b) + (if pin_count (bm_lru b) f = 1 then 1 else 0)"
    "\<forall>q d. page_content b q = Some d \<longrightarrow> page_content c q = Some d" by (rule release_run [OF ok m bk])
  have e: "c = released pid f b" using c(1) BM_Release_run [OF pool_okD(3) [OF ok] m] by simp
  then have "keeps_pages b c" using c backed_released_all [OF pool_okD(1) [OF ok] m] by (auto simp: keeps_pages_def)
  moreover have "stays {pid} b c" unfolding e by (simp add: stays_def released_pages)
  ultimately show ?thesis using that c(1,4) p by (simp add: pinned_def)
qed

lemma fetch_pinned:
  assumes ok: "pool_ok b" and free: "bm_free b \<noteq> []" and addr: "addressable pid" and d: "page_content b pid = Some d"
  obtains f c where "BM_FetchPage pid b = (Inr f, c)" "held pid f c" "fdata f c = d" "keeps_pages b c" "pinned (length (bm_free b)) pid f c"
    "stays {} b c"
proof -
  note p = pool_okD [OF ok]
  obtain f c where c: "BM_FetchPage pid b = (Inr f, c)" "held pid f c" "fdata f c = d" "pool_ok c" "bm_next_id c = bm_next_id b"
    "\<forall>q d. page_content b q = Some d \<longrightarrow> page_content c q = Some d"
    by (rule fetch_session [OF ok free addr d])
  have "(\<forall>q. backed b q \<longrightarrow> backed c q) \<and> pinned (length (bm_free b)) pid f c \<and> (\<forall>q g. bm_pages b q = Some g \<longrightarrow> bm_pages c q = Some g)"
  proof (cases "bm_pages b pid")
    case (Some g)
    have "0 < pin_count (bm_lru b) g" using bm_invD(8) [OF p(1) Some] by blast
    then show ?thesis using c(1) BM_FetchPage_mapped [OF p(1) Some] Some
      by (auto simp: backed_def pinned_def frame_simps split: option.splits)
  next
    case None
    let ?f = "last (bm_free b)"
    have st: "stored (bm_disk b) pid = Some d" using d None by (simp add: page_content_def)
    have fc: "f = ?f" "c = loaded pid ?f b" using c(1) BM_FetchPage_load [OF p(1) None free] by auto
    have lf: "?f < length (bm_frames b)" using last_free(1) [OF p(1) free] bm_invD(3) [OF p(1)] by simp
    have ne: "g \<noteq> ?f" if "bm_pages b q = Some g" for q g using last_free(4) [OF p(1) free] that by (auto simp: ran_def)
    have "1 \<le> length (bm_free b)" using free by (simp add: Suc_le_eq)
    then show ?thesis
      using lf ne st None last_free(3) [OF p(1) free] unfolding fc loaded_ready [OF p(1) free None addr p(2) st]
      by (auto simp: backed_def pinned_def frame_simps split: option.splits)
  qed
  then show ?thesis using that c by (auto simp: keeps_pages_def stays_def)
qed

text \<open>Fetching a page and releasing it again, with only reads in between.\<close>

lemma session_quiet:
  assumes ok: "pool_ok b" and free: "bm_free b \<noteq> []" and addr: "addressable pid" and d: "page_content b pid = Some d" and bk: "backed b pid"
  obtains f c e where "BM_FetchPage pid b = (Inr f, c)" "held pid f c" "fdata f c = d" "BM_Release pid c = (Inr (), e)" "quiet b e"
proof -
  note p = pool_okD [OF ok]
  obtain f c where c: "BM_FetchPage pid b = (Inr f, c)" "held pid f c" "fdata f c = d" "keeps_pages b c" "pinned (length (bm_free b)) pid f c"
    by (rule fetch_pinned [OF ok free addr d])
  have okc: "pool_ok c" "backed c pid" using c(4) bk by (simp_all add: keeps_pages_def)
  obtain e where e: "BM_Release pid c = (Inr (), e)" "keeps_pages c e" "length (bm_free e) = length (bm_free b)"
    by (rule release_pinned [OF okc(1) c(5) okc(2)])
  have ee: "e = released pid f c" using e(1) BM_Release_run [OF pool_okD(3) [OF okc(1)] heldD(2) [OF c(2)]] by simp
  have "bm_pages e = bm_pages b \<and> (\<forall>q g. bm_pages b q = Some g \<longrightarrow> pin_count (bm_lru e) g = pin_count (bm_lru b) g)"
  proof (cases "bm_pages b pid")
    case (Some g)
    have "0 < pin_count (bm_lru b) g" using bm_invD(8) [OF p(1) Some] by blast
    moreover have "f = g" "c = pin_frame g b" using c(1) BM_FetchPage_mapped [OF p(1) Some] by auto
    ultimately show ?thesis unfolding ee by (auto simp: released_def Let_def frame_simps)
  next
    case None
    let ?f = "last (bm_free b)"
    have st: "stored (bm_disk b) pid = Some d" using d None by (simp add: page_content_def)
    have fc: "f = ?f" "c = loaded pid ?f b" using c(1) BM_FetchPage_load [OF p(1) None free] by auto
    have ne: "g \<noteq> ?f" if "bm_pages b q = Some g" for q g using last_free(4) [OF p(1) free] that by (auto simp: ran_def)
    then show ?thesis
      using None last_free(3) [OF p(1) free] unfolding ee fc loaded_ready [OF p(1) free None addr p(2) st]
      by (auto simp: released_def Let_def frame_simps)
  qed
  then have "quiet b e" using keeps_pages_trans [OF c(4) e(2)] e(3) by (auto simp: quiet_def)
  then show ?thesis using that c(1-3) e(1) by blast
qed

end
