(* ===== verification/Table_Page.thy ===== *)
theory Table_Page
  imports Meta_Page Page_Session
begin

unbundle bit_operations_syntax

text \<open>
  The slotted pages of \<^verbatim>\<open>storage/page/table_page.cpp\<close>: a header, the records one after the other behind
  it, and at the end of the page one slot (offset and size of a record) per row, growing downwards.
  A \<^verbatim>\<open>TablePage\<close> keeps the header and the number of free bytes beside the page itself, and every change
  of the number of live rows goes to the catalog page, so the operations run over the store.  Each
  operation holds the object's mutex for its whole body and is one step here.
\<close>

section \<open>State\<close>

record RID =
  rid_page :: page_id_t
  rid_row :: row_id_t

text \<open>\<^verbatim>\<open>TableHeader\<close> with the other members of \<^verbatim>\<open>TablePage\<close>; \<open>tp_frame\<close> is the pointer \<^verbatim>\<open>page_\<close>.\<close>

record TablePage =
  tp_table :: entry_id
  tp_frame :: frame_id
  tp_version :: u16
  tp_num_rows :: u32
  tp_page_id :: page_id_t
  tp_next :: page_id_t
  tp_lsn :: lsn_t
  tp_free :: u32

text \<open>\<^verbatim>\<open>sizeof(TableHeader)\<close> counts the two bytes of padding behind the version; the written header is packed.\<close>

abbreviation (input) HEADER_SIZE :: nat where "HEADER_SIZE \<equiv> 32"
abbreviation (input) SLOT_SIZE :: nat where "SLOT_SIZE \<equiv> 4"
abbreviation (input) NUM_ROWS_OFFSET :: nat where "NUM_ROWS_OFFSET \<equiv> 2"

section \<open>Operations\<close>

definition tp_read :: "frame_id \<Rightarrow> nat \<Rightarrow> nat \<Rightarrow> (Store, 'a::len word) comp" where
  "tp_read f off n = bnd (in_bm (fr_read f off n)) (\<lambda>bs. ret (le_word bs))"

definition tp_write :: "frame_id \<Rightarrow> nat \<Rightarrow> bytes \<Rightarrow> (Store, unit) comp" where
  "tp_write f off bs = in_bm (fr_write f off bs)"

definition tp_dirty :: "frame_id \<Rightarrow> (Store, unit) comp" where
  "tp_dirty f = in_bm (fr_dirty f)"

definition TP_WriteHeader :: "TablePage \<Rightarrow> (Store, unit) comp" where
  "TP_WriteHeader tp = (let f = tp_frame tp in
     thn (tp_write f 0 (le_bytes 2 (tp_version tp))) (thn (tp_write f 2 (le_bytes 4 (tp_num_rows tp)))
     (thn (tp_write f 6 (le_bytes 8 (tp_page_id tp))) (thn (tp_write f 14 (le_bytes 8 (tp_next tp)))
     (thn (tp_write f 22 (le_bytes 8 (tp_lsn tp))) (tp_dirty f))))))"

text \<open>The loop of the constructor that adds up the sizes in the slots \<open>i, \<dots>, i + k - 1\<close>.\<close>

fun slot_sizes :: "frame_id \<Rightarrow> nat \<Rightarrow> nat \<Rightarrow> u32 \<Rightarrow> (Store, u32) comp" where
  "slot_sizes f 0 i acc = ret acc"
| "slot_sizes f (Suc k) i acc =
     bnd (tp_read f (unat (4096 - word_of_nat i * 4 + 2 :: u64)) 2) (\<lambda>sz.
     slot_sizes f k (Suc i) (acc + ucast (sz :: u16)))"

definition TablePage_new :: "entry_id \<Rightarrow> frame_id \<Rightarrow> bool \<Rightarrow> (Store, TablePage) comp" where
  "TablePage_new table f rd =
     (if rd then
        bnd (tp_read f 0 2) (\<lambda>v. bnd (tp_read f NUM_ROWS_OFFSET 4) (\<lambda>n. bnd (tp_read f 6 8) (\<lambda>pid.
        bnd (tp_read f 14 8) (\<lambda>nx. bnd (tp_read f 22 8) (\<lambda>lsn.
        bnd (slot_sizes f (unat n) 1 0) (\<lambda>tuples.
        ret \<lparr>tp_table = table, tp_frame = f, tp_version = v, tp_num_rows = n, tp_page_id = pid, tp_next = nx,
             tp_lsn = lsn, tp_free = (4096 - 32) - (4 * n + tuples)\<rparr>))))))
      else
        bnd (gets (\<lambda>s. pg_id (frame_of f (st_bm s)))) (\<lambda>pid.
        (let tp = \<lparr>tp_table = table, tp_frame = f, tp_version = 0, tp_num_rows = 0, tp_page_id = pid, tp_next = 0,
                   tp_lsn = 0, tp_free = 4096 - 32\<rparr> in
         thn (TP_WriteHeader tp) (thn (tp_dirty f) (ret tp)))))"

definition SlotOffset :: "row_id_t \<Rightarrow> nat" where
  "SlotOffset row = unat (4096 - row * 4 :: u64)"

definition TP_SetNextPageId :: "page_id_t \<Rightarrow> TablePage \<Rightarrow> (Store, TablePage) comp" where
  "TP_SetNextPageId nx tp = (let tp' = tp\<lparr>tp_next := nx\<rparr> in thn (TP_WriteHeader tp') (ret tp'))"

definition TP_SetLsn :: "lsn_t \<Rightarrow> TablePage \<Rightarrow> (Store, TablePage) comp" where
  "TP_SetLsn l tp = (let tp' = tp\<lparr>tp_lsn := l\<rparr> in thn (TP_WriteHeader tp') (ret tp'))"

definition TP_HasSpaceFor :: "u16 \<Rightarrow> TablePage \<Rightarrow> bool" where
  "TP_HasSpaceFor sz tp \<longleftrightarrow> unat sz + SLOT_SIZE \<le> unat (tp_free tp)"

definition TP_GetTuple :: "RID \<Rightarrow> TablePage \<Rightarrow> Tuple \<Rightarrow> (Store, Tuple) comp" where
  "TP_GetTuple rid tp tuple = (let f = tp_frame tp; off = SlotOffset (rid_row rid) in
     bnd (tp_read f off 2) (\<lambda>slot. bnd (tp_read f (off + 2) 2) (\<lambda>sz.
     bnd (in_bm (fr_read f (unat (slot :: u16)) (unat (sz :: u16)))) (\<lambda>bs.
     ret (tuple\<lparr>t_data := Some bs, t_size := sz\<rparr>)))))"

definition TP_ReadRecordTrxId :: "RID \<Rightarrow> TablePage \<Rightarrow> (Store, tx_id_t) comp" where
  "TP_ReadRecordTrxId rid tp = (let f = tp_frame tp in
     bnd (tp_read f (SlotOffset (rid_row rid)) 2) (\<lambda>slot.
     tp_read f (unat (slot :: u16) + REC_TRX_OFFSET) 8))"

definition TP_ReadRecordFlags :: "RID \<Rightarrow> TablePage \<Rightarrow> (Store, u16) comp" where
  "TP_ReadRecordFlags rid tp = (let f = tp_frame tp in
     bnd (tp_read f (SlotOffset (rid_row rid)) 2) (\<lambda>slot.
     tp_read f (unat (slot :: u16) + REC_FLAGS_OFFSET) 2))"

definition TP_ReadRecordRollPtr :: "RID \<Rightarrow> TablePage \<Rightarrow> (Store, UndoPointer) comp" where
  "TP_ReadRecordRollPtr rid tp = (let f = tp_frame tp in
     bnd (tp_read f (SlotOffset (rid_row rid)) 2) (\<lambda>slot.
     bnd (tp_read f (unat (slot :: u16) + REC_ROLLPTR_OFFSET) 8) (\<lambda>p.
     bnd (tp_read f (unat slot + REC_ROLLPTR_OFFSET + 8) 4) (\<lambda>k. ret \<lparr>up_page = p, up_slot = k\<rparr>))))"

text \<open>
  The slot positions of \<^verbatim>\<open>InsertTuple\<close> are \<^verbatim>\<open>int\<close> variables used as pointer offsets: a negative one points
  before the page.
\<close>

definition int_offset :: "u32 \<Rightarrow> (Store, nat) comp" where
  "int_offset w = (if sint w < 0 then throw MemoryFault else ret (nat (sint w)))"

definition tuple_bytes :: "Tuple \<Rightarrow> (Store, bytes) comp" where
  "tuple_bytes t = (if t_size t = 0 then ret []
     else case t_data t of None \<Rightarrow> throw MemoryFault | Some d \<Rightarrow> of_res (mem_read 0 (unat (t_size t)) d))"

text \<open>The slot and the bytes of the new record, behind those of the last one.\<close>

definition insert_record :: "Tuple \<Rightarrow> TablePage \<Rightarrow> (Store, unit) comp" where
  "insert_record t tp =
     (let f = tp_frame tp; cur = 4096 - 4 * tp_num_rows tp; nw = cur - 4 in
      if tp_num_rows tp = 0
      then bnd (int_offset nw) (\<lambda>new.
        thn (tp_write f new (le_bytes 2 (32 :: u16)))
        (thn (tp_write f (new + 2) (le_bytes 2 (t_size t)))
        (bnd (tuple_bytes t) (\<lambda>bs. tp_write f HEADER_SIZE bs))))
      else bnd (int_offset cur) (\<lambda>cp. bnd (tp_read f cp 2) (\<lambda>poff. bnd (tp_read f (cp + 2) 2) (\<lambda>psz.
        (let now = (poff :: u16) + psz in
         bnd (int_offset nw) (\<lambda>new.
         thn (tp_write f new (le_bytes 2 now))
         (thn (tp_write f (new + 2) (le_bytes 2 (t_size t)))
         (bnd (tuple_bytes t) (\<lambda>bs. tp_write f (unat now) bs)))))))))"

definition TP_InsertTuple :: "Tuple \<Rightarrow> TablePage \<Rightarrow> (Store, TablePage \<times> RID option) comp" where
  "TP_InsertTuple t tp =
     (if unat (tp_free tp) < unat (t_size t) + SLOT_SIZE then ret (tp, None)
      else
        (let f = tp_frame tp in
         thn (insert_record t tp)
         (let tp' = tp\<lparr>tp_free := tp_free tp - (4 + ucast (t_size t)), tp_num_rows := tp_num_rows tp + 1\<rparr>;
              rid = \<lparr>rid_page = tp_page_id tp', rid_row = ucast (tp_num_rows tp')\<rparr> in
          thn (TP_WriteHeader tp') (thn (tp_dirty f)
          (thn (MP_UpdateTableRows (tp_table tp) 1) (ret (tp', Some rid)))))))"

definition TP_updateTuple :: "Tuple \<Rightarrow> RID \<Rightarrow> TablePage \<Rightarrow> (Store, unit) comp" where
  "TP_updateTuple t rid tp = throw (RuntimeError ''TablePage::updateTuple: in-place update is forbidden under MVCC; use delete+insert'')"

definition TP_GetCount :: "TablePage \<Rightarrow> u32" where
  "TP_GetCount tp = tp_num_rows tp"

text \<open>The four writes that replace the header of the record at offset \<open>off\<close>.\<close>

definition write_record_header :: "frame_id \<Rightarrow> nat \<Rightarrow> tx_id_t \<Rightarrow> UndoPointer \<Rightarrow> u16 \<Rightarrow> (Store, unit) comp" where
  "write_record_header f off trx ptr flags =
     thn (tp_write f (off + REC_TRX_OFFSET) (le_bytes 8 trx))
     (thn (tp_write f (off + REC_ROLLPTR_OFFSET) (le_bytes 8 (up_page ptr)))
     (thn (tp_write f (off + REC_ROLLPTR_OFFSET + 8) (le_bytes 4 (up_slot ptr)))
     (tp_write f (off + REC_FLAGS_OFFSET) (le_bytes 2 flags))))"

definition TP_MarkDelete :: "RID \<Rightarrow> tx_id_t \<Rightarrow> UndoPointer \<Rightarrow> TablePage \<Rightarrow> (Store, unit) comp" where
  "TP_MarkDelete rid trx ptr tp = (let f = tp_frame tp in
     bnd (tp_read f (SlotOffset (rid_row rid)) 2) (\<lambda>slot. (let off = unat (slot :: u16) in
     bnd (tp_read f (off + REC_FLAGS_OFFSET) 2) (\<lambda>flags.
     if flags AND RECORD_DEL \<noteq> 0 then ret ()
     else thn (write_record_header f off trx ptr (flags OR RECORD_DEL))
       (thn (tp_dirty f) (MP_UpdateTableRows (tp_table tp) (- 1)))))))"

definition TP_DeleteTuple :: "RID \<Rightarrow> TablePage \<Rightarrow> (Store, unit) comp" where
  "TP_DeleteTuple rid tp = TP_MarkDelete rid 0 null_ptr tp"

definition TP_RestoreRecord :: "RID \<Rightarrow> tx_id_t \<Rightarrow> UndoPointer \<Rightarrow> u16 \<Rightarrow> TablePage \<Rightarrow> (Store, unit) comp" where
  "TP_RestoreRecord rid trx ptr flags tp = (let f = tp_frame tp in
     bnd (tp_read f (SlotOffset (rid_row rid)) 2) (\<lambda>slot. (let off = unat (slot :: u16) in
     bnd (tp_read f (off + REC_FLAGS_OFFSET) 2) (\<lambda>old.
     thn (write_record_header f off trx ptr flags)
     (thn (on_cond (old AND RECORD_DEL \<noteq> 0 \<and> flags AND RECORD_DEL = 0) (MP_UpdateTableRows (tp_table tp) 1))
     (tp_dirty f))))))"

definition TP_MarkDead :: "RID \<Rightarrow> TablePage \<Rightarrow> (Store, unit) comp" where
  "TP_MarkDead rid tp = (let f = tp_frame tp in
     bnd (tp_read f (SlotOffset (rid_row rid)) 2) (\<lambda>slot. (let off = unat (slot :: u16) in
     bnd (tp_read f (off + REC_FLAGS_OFFSET) 2) (\<lambda>flags.
     thn (tp_write f (off + REC_FLAGS_OFFSET) (le_bytes 2 (flags OR RECORD_DEAD)))
     (thn (on_cond (flags AND RECORD_DEL = 0 \<and> flags AND RECORD_DEAD = 0) (MP_UpdateTableRows (tp_table tp) (- 1)))
     (tp_dirty f))))))"

section \<open>Writing to a held table page\<close>

definition tput :: "frame_id \<Rightarrow> bytes \<Rightarrow> Store \<Rightarrow> Store" where
  "tput f d s = s\<lparr>st_bm := put f d (st_bm s)\<rparr>"

definition tdirty :: "frame_id \<Rightarrow> Store \<Rightarrow> Store" where
  "tdirty f s = s\<lparr>st_bm := on_frame f (\<lambda>p. p\<lparr>pg_dirty := True\<rparr>) (st_bm s)\<rparr>"

abbreviation tdata :: "frame_id \<Rightarrow> Store \<Rightarrow> bytes" where "tdata f s \<equiv> fdata f (st_bm s)"

abbreviation theld :: "page_id_t \<Rightarrow> frame_id \<Rightarrow> Store \<Rightarrow> bool" where "theld pid f s \<equiv> held pid f (st_bm s)"

definition tab_only :: "frame_id \<Rightarrow> Store \<Rightarrow> Store \<Rightarrow> bool" where
  "tab_only f s t \<longleftrightarrow> only_frame f (st_bm s) (st_bm t) \<and> st_meta t = st_meta s"

lemma tab_only_trans: "tab_only f s t \<Longrightarrow> tab_only f t u \<Longrightarrow> tab_only f s u"
  by (auto simp: tab_only_def intro: only_frame_trans)

lemma tab_only_held: "tab_only f s t \<Longrightarrow> theld pid g s \<Longrightarrow> theld pid g t"
  by (auto simp: tab_only_def intro: only_frame_held)

lemma tput_facts:
  assumes "theld pid f s" "length d = PAGE_SIZE"
  shows "tab_only f s (tput f d s)" "theld pid f (tput f d s)" "tdata f (tput f d s) = d"
proof -
  show a: "tab_only f s (tput f d s)" using only_frame_put [OF assms] by (simp add: tab_only_def tput_def)
  show "theld pid f (tput f d s)" by (rule tab_only_held [OF a assms(1)])
  show "tdata f (tput f d s) = d" using fdata_put [OF assms(1)] by (simp add: tput_def)
qed

lemma tdirty_facts:
  assumes "theld pid f s"
  shows "tab_only f s (tdirty f s)" "theld pid f (tdirty f s)" "tdata f (tdirty f s) = tdata f s"
    "pg_dirty (frame_of f (st_bm (tdirty f s)))"
proof -
  show a: "tab_only f s (tdirty f s)" using only_frame_dirty [OF assms] by (simp add: tab_only_def tdirty_def)
  show "theld pid f (tdirty f s)" by (rule tab_only_held [OF a assms(1)])
  show "tdata f (tdirty f s) = tdata f s" using fdata_dirty [OF assms(1)] by (simp add: tdirty_def)
  show "pg_dirty (frame_of f (st_bm (tdirty f s)))" using heldD(4) [OF assms] by (simp add: tdirty_def frame_simps)
qed

lemma tput_tput [simp]: "tput f d (tput f e s) = tput f d s"
  by (simp add: tput_def)

lemma tp_write_run:
  "theld pid f s \<Longrightarrow> off + length bs \<le> PAGE_SIZE \<Longrightarrow> tp_write f off bs s = (Inr (), tput f (poke off bs (tdata f s)) s)"
  using fr_write_put [of pid f "st_bm s" off bs] by (simp add: tp_write_def comp_simps tput_def)

lemma tp_dirty_run [comp_simps]: "tp_dirty f s = (Inr (), tdirty f s)"
  by (simp add: tp_dirty_def comp_simps tdirty_def)

lemma fr_read_held:
  "theld pid f s \<Longrightarrow> holds_at off bs (tdata f s) \<Longrightarrow> n = length bs \<Longrightarrow> in_bm (fr_read f off n) s = (Inr bs, s)"
  using holds_at_len [of off bs "tdata f s"] holds_at_peek [of off bs "tdata f s"]
  by (simp add: comp_simps)

lemma tp_read_held:
  "theld pid f s \<Longrightarrow> holds_at off bs (tdata f s) \<Longrightarrow> n = length bs \<Longrightarrow> tp_read f off n s = (Inr (le_word bs), s)"
  using fr_read_held [of pid f s off bs n] by (simp add: tp_read_def comp_simps)

lemma tp_read_word:
  "theld pid f s \<Longrightarrow> holds_at off (le_bytes n w) (tdata f s) \<Longrightarrow> LENGTH('a::len) \<le> 8 * n \<Longrightarrow>
   tp_read f off n s = (Inr (w :: 'a word), s)"
  using tp_read_held [of pid f s off "le_bytes n w" n, where ?'a = 'a] by (simp add: le_word_le_bytes)

section \<open>The page as a list of records\<close>

text \<open>
  \<open>page_layout tp rs d\<close>: the bytes \<open>d\<close> are a table page that holds the records \<open>rs\<close>, row \<open>i\<close> being
  \<open>rs ! (i - 1)\<close>, and the object \<open>tp\<close> agrees with them.
\<close>

definition tp_header :: "TablePage \<Rightarrow> bytes" where
  "tp_header tp = le_bytes 2 (tp_version tp) @ le_bytes 4 (tp_num_rows tp) @ le_bytes 8 (tp_page_id tp) @
     le_bytes 8 (tp_next tp) @ le_bytes 8 (tp_lsn tp)"

definition slot_bytes :: "nat \<Rightarrow> nat \<Rightarrow> bytes" where
  "slot_bytes off n = le_bytes 2 (word_of_nat off :: u16) @ le_bytes 2 (word_of_nat n :: u16)"

fun slots :: "nat \<Rightarrow> bytes list \<Rightarrow> bytes" where
  "slots off [] = []"
| "slots off (r # rs) = slots (off + length r) rs @ slot_bytes off (length r)"

definition page_layout :: "TablePage \<Rightarrow> bytes list \<Rightarrow> bytes \<Rightarrow> bool" where
  "page_layout tp rs d \<longleftrightarrow> length d = PAGE_SIZE \<and>
     holds_at 0 (tp_header tp) d \<and> holds_at HEADER_SIZE (concat rs) d \<and>
     holds_at (PAGE_SIZE - SLOT_SIZE * length rs) (slots HEADER_SIZE rs) d \<and>
     tp_num_rows tp = word_of_nat (length rs) \<and>
     HEADER_SIZE + length (concat rs) + SLOT_SIZE * length rs + unat (tp_free tp) = PAGE_SIZE"

lemma length_tp_header [simp]: "length (tp_header tp) = 30"
  by (simp add: tp_header_def)

lemma length_slot_bytes [simp]: "length (slot_bytes off n) = 4"
  by (simp add: slot_bytes_def)

lemma length_slots [simp]: "length (slots off rs) = 4 * length rs"
  by (induction rs arbitrary: off) auto

lemma slots_append: "slots off (rs @ qs) = slots (off + length (concat rs)) qs @ slots off rs"
  by (induction rs arbitrary: off) (simp_all add: add.assoc)

lemma unat_u16_small: "n \<le> 4096 \<Longrightarrow> unat (word_of_nat n :: u16) = n"
  by (simp add: unat_of_nat take_bit_eq_mod)

lemma unat_u32_small: "n \<le> 4096 \<Longrightarrow> unat (word_of_nat n :: u32) = n"
  by (simp add: unat_of_nat take_bit_eq_mod)

lemma split_nth: "i < length rs \<Longrightarrow> rs = take i rs @ rs ! i # drop (Suc i) rs"
  by (rule id_take_nth_drop)

text \<open>Where row \<open>i + 1\<close> is.\<close>

definition rec_off :: "bytes list \<Rightarrow> nat \<Rightarrow> nat" where
  "rec_off rs i = HEADER_SIZE + length (concat (take i rs))"

lemma page_layout_row:
  assumes "page_layout tp rs d" "i < length rs"
  shows "holds_at (PAGE_SIZE - SLOT_SIZE * Suc i) (slot_bytes (rec_off rs i) (length (rs ! i))) d"
    "holds_at (rec_off rs i) (rs ! i) d"
    "rec_off rs i + length (rs ! i) + SLOT_SIZE * length rs \<le> PAGE_SIZE"
proof -
  note e = split_nth [OF assms(2)]
  have c: "concat rs = concat (take i rs) @ rs ! i @ concat (drop (Suc i) rs)"
    using arg_cong [OF e, of concat] by simp
  have sl: "slots 32 rs = slots (rec_off rs i + length (rs ! i)) (drop (Suc i) rs) @
      slot_bytes (rec_off rs i) (length (rs ! i)) @ slots 32 (take i rs)"
    using arg_cong [OF e, of "slots 32"] slots_append [of 32 "take i rs" "rs ! i # drop (Suc i) rs"]
    by (simp add: rec_off_def add.assoc)
  have lay: "holds_at 32 (concat rs) d" "holds_at (4096 - 4 * length rs) (slots 32 rs) d"
    "32 + length (concat rs) + 4 * length rs + unat (tp_free tp) = 4096"
    using assms(1) by (simp_all add: page_layout_def)
  show bnd: "rec_off rs i + length (rs ! i) + SLOT_SIZE * length rs \<le> PAGE_SIZE"
    using lay(3) unfolding c by (simp add: rec_off_def)
  show "holds_at (rec_off rs i) (rs ! i) d" using lay(1) unfolding c by (simp add: rec_off_def)
  have "holds_at (4096 - 4 * length rs + 4 * (length rs - Suc i)) (slot_bytes (rec_off rs i) (length (rs ! i))) d"
    using lay(2) unfolding sl by simp
  moreover have "4096 - 4 * length rs + 4 * (length rs - Suc i) = 4096 - 4 * Suc i"
    using bnd assms(2) by simp
  ultimately show "holds_at (PAGE_SIZE - SLOT_SIZE * Suc i) (slot_bytes (rec_off rs i) (length (rs ! i))) d"
    by simp
qed

lemma SlotOffset_row:
  assumes "unat row = Suc i" "4 * Suc i \<le> 4096"
  shows "SlotOffset row = 4096 - 4 * Suc i"
proof -
  have m: "unat (row * 4) = 4 * Suc i"
    using assms by (simp add: unat_word_ariths)
  then have "row * 4 \<le> 4096" using assms(2) by (simp add: word_le_nat_alt)
  then show ?thesis using m by (simp add: SlotOffset_def unat_sub)
qed

lemma slot_read:
  assumes "theld pid f s" "page_layout tp rs (tdata f s)" "i < length rs" "unat row = Suc i"
  shows "tp_read f (SlotOffset row) 2 s = (Inr (word_of_nat (rec_off rs i) :: u16), s)"
    "tp_read f (SlotOffset row + 2) 2 s = (Inr (word_of_nat (length (rs ! i)) :: u16), s)"
    "unat (word_of_nat (rec_off rs i) :: u16) = rec_off rs i"
    "unat (word_of_nat (length (rs ! i)) :: u16) = length (rs ! i)"
proof -
  note r = page_layout_row [OF assms(2,3)]
  have so: "SlotOffset row = 4096 - 4 * Suc i" using r(3) assms(3,4) by (intro SlotOffset_row) auto
  have h: "holds_at (SlotOffset row) (le_bytes 2 (word_of_nat (rec_off rs i) :: u16)) (tdata f s)"
    "holds_at (SlotOffset row + 2) (le_bytes 2 (word_of_nat (length (rs ! i)) :: u16)) (tdata f s)"
    using r(1) unfolding so slot_bytes_def by simp_all
  show "tp_read f (SlotOffset row) 2 s = (Inr (word_of_nat (rec_off rs i) :: u16), s)"
    using tp_read_held [OF assms(1) h(1), where ?'a = 16] by simp
  show "tp_read f (SlotOffset row + 2) 2 s = (Inr (word_of_nat (length (rs ! i)) :: u16), s)"
    using tp_read_held [OF assms(1) h(2), where ?'a = 16] by simp
  show "unat (word_of_nat (rec_off rs i) :: u16) = rec_off rs i"
    "unat (word_of_nat (length (rs ! i)) :: u16) = length (rs ! i)"
    using r(3) by (simp_all add: unat_u16_small)
qed

lemma GetTuple_run:
  assumes "theld pid (tp_frame tp) s" "page_layout tp rs (tdata (tp_frame tp) s)" "i < length rs" "unat (rid_row rid) = Suc i"
  shows "TP_GetTuple rid tp t s = (Inr (t\<lparr>t_data := Some (rs ! i), t_size := word_of_nat (length (rs ! i))\<rparr>), s)"
  using slot_read [OF assms] fr_read_held [OF assms(1) page_layout_row(2) [OF assms(2,3)]]
  by (simp add: TP_GetTuple_def Let_def comp_simps)

lemma WriteHeader_run:
  assumes "theld pid (tp_frame tp) s"
  shows "TP_WriteHeader tp s = (Inr (), tdirty (tp_frame tp)
    (tput (tp_frame tp) (poke 0 (tp_header tp) (tdata (tp_frame tp) s)) s))"
proof -
  let ?f = "tp_frame tp" and ?d = "tdata (tp_frame tp) s"
  have l: "length ?d = PAGE_SIZE" using heldD(5) [OF assms] .
  have st: "tp_write ?f off bs (tput ?f d s) = (Inr (), tput ?f (poke off bs d) s)"
    if "length d = PAGE_SIZE" "off + length bs \<le> PAGE_SIZE" for off bs d
    using tp_write_run [OF tput_facts(2) [OF assms that(1)] that(2)] tput_facts(3) [OF assms that(1)] by simp
  have adj: "poke (length a) b (poke 0 a ?d) = poke 0 (a @ b) ?d" if "length a + length b \<le> 30" for a b
    using poke_poke_adjacent [of 0 a b ?d] that l by simp
  have "TP_WriteHeader tp s = (Inr (), tdirty ?f (tput ?f (poke 22 (le_bytes 8 (tp_lsn tp)) (poke 14 (le_bytes 8 (tp_next tp))
      (poke 6 (le_bytes 8 (tp_page_id tp)) (poke 2 (le_bytes 4 (tp_num_rows tp)) (poke 0 (le_bytes 2 (tp_version tp)) ?d))))) s))"
    using l by (simp add: TP_WriteHeader_def Let_def comp_simps tp_write_run [OF assms] st)
  then show ?thesis
    using adj [of "le_bytes 2 (tp_version tp)" "le_bytes 4 (tp_num_rows tp)"]
      adj [of "le_bytes 2 (tp_version tp) @ le_bytes 4 (tp_num_rows tp)" "le_bytes 8 (tp_page_id tp)"]
      adj [of "le_bytes 2 (tp_version tp) @ le_bytes 4 (tp_num_rows tp) @ le_bytes 8 (tp_page_id tp)" "le_bytes 8 (tp_next tp)"]
      adj [of "le_bytes 2 (tp_version tp) @ le_bytes 4 (tp_num_rows tp) @ le_bytes 8 (tp_page_id tp) @ le_bytes 8 (tp_next tp)"
        "le_bytes 8 (tp_lsn tp)"]
    by (simp add: tp_header_def)
qed

section \<open>Table pages together with the catalog\<close>

definition add_rows :: "entry_id \<Rightarrow> u64 \<Rightarrow> MetaItem list \<Rightarrow> MetaItem list" where
  "add_rows t c = map (\<lambda>it. if mi_id it = t then it\<lparr>mi_rows := rows_after (mi_rows it) c\<rparr> else it)"

definition table_ok :: "TablePage \<Rightarrow> Store \<Rightarrow> MetaItem list \<Rightarrow> bytes list \<Rightarrow> bool" where
  "table_ok tp s its rs \<longleftrightarrow> theld (tp_page_id tp) (tp_frame tp) s \<and> tp_page_id tp \<noteq> META_PAGE_ID \<and>
     meta_rep s its \<and> tp_table tp \<in> mi_id ` set its \<and> page_layout tp rs (tdata (tp_frame tp) s)"

text \<open>\<open>keeps P s t\<close>: the work between \<open>s\<close> and \<open>t\<close> changed the bytes of the pages \<open>P\<close> at most, and no page entered or left the pool.\<close>

definition keeps :: "page_id_t set \<Rightarrow> Store \<Rightarrow> Store \<Rightarrow> bool" where
  "keeps P s t \<longleftrightarrow> (\<forall>q bs. q \<notin> P \<longrightarrow> page_content (st_bm s) q = Some bs \<longrightarrow> page_content (st_bm t) q = Some bs) \<and>
     bm_next_id (st_bm t) = bm_next_id (st_bm s) \<and> (pool_ok (st_bm s) \<longrightarrow> evolves P (st_bm s) (st_bm t))"

lemma keeps_refl: "keeps P s s"
  by (simp add: keeps_def evolves_refl)

lemma keeps_trans:
  assumes "keeps P s t" "keeps Q t u" "P \<subseteq> R" "Q \<subseteq> R"
  shows "keeps R s u"
proof -
  have "evolves R (st_bm s) (st_bm u)" if "pool_ok (st_bm s)"
    using that assms evolvesD(1) [of P "st_bm s" "st_bm t"] evolves_trans [of P "st_bm s" "st_bm t" Q "st_bm u" R] by (simp add: keeps_def)
  moreover have "page_content (st_bm u) q = Some bs" if "q \<notin> R" "page_content (st_bm s) q = Some bs" for q bs
    using that assms unfolding keeps_def by blast
  ultimately show ?thesis using assms(1,2) by (simp add: keeps_def)
qed

lemma only_frame_keeps: "only_frame f (st_bm s) (st_bm t) \<Longrightarrow> theld pid f s \<Longrightarrow> keeps {pid} s t"
  using mapped_inj only_frame_evolves [of f "st_bm s" "st_bm t" pid] only_frameD(3,8) [of f "st_bm s" "st_bm t"] unfolding keeps_def held_def by blast

lemma tab_only_keeps: "tab_only f s t \<Longrightarrow> theld pid f s \<Longrightarrow> keeps {pid} s t"
  by (rule only_frame_keeps) (simp_all add: tab_only_def)

lemma meta_only_keeps: "meta_only s t \<Longrightarrow> store_ok s \<Longrightarrow> keeps {META_PAGE_ID} s t"
  by (rule only_frame_keeps) (simp_all add: meta_only_def store_ok_def)

lemma table_okD:
  assumes "table_ok tp s its rs"
  shows "theld (tp_page_id tp) (tp_frame tp) s" "meta_rep s its" "tp_table tp \<in> mi_id ` set its"
    "page_layout tp rs (tdata (tp_frame tp) s)" "store_ok s" "tp_frame tp \<noteq> mp_frame (st_meta s)" "tp_page_id tp \<noteq> 0"
proof -
  show h: "theld (tp_page_id tp) (tp_frame tp) s" and m: "meta_rep s its" and "tp_table tp \<in> mi_id ` set its"
    "page_layout tp rs (tdata (tp_frame tp) s)" and n: "tp_page_id tp \<noteq> 0" using assms by (simp_all add: table_ok_def)
  show ok: "store_ok s" using m by (simp add: meta_rep_def)
  show "tp_frame tp \<noteq> mp_frame (st_meta s)" using held_inj [OF h _ n] ok by (simp add: store_ok_def)
qed

lemma meta_rep_tab_only:
  assumes "meta_rep s its" "tab_only f s t" "f \<noteq> mp_frame (st_meta s)"
  shows "meta_rep t its"
proof -
  have "mdata t = mdata s" "store_ok s \<Longrightarrow> store_ok t"
    using assms(2,3) only_frame_held only_frameD(7) [of f "st_bm s" "st_bm t"]
    by (auto simp: tab_only_def mdata_def store_ok_def)
  then show ?thesis using assms(1,2) by (simp add: meta_rep_def tab_only_def)
qed

lemma meta_only_frame:
  assumes "meta_only s t" "f \<noteq> mp_frame (st_meta s)"
  shows "theld pid f s \<Longrightarrow> theld pid f t" "tdata f t = tdata f s" "frame_of f (st_bm t) = frame_of f (st_bm s)"
  using assms only_frame_held only_frameD(6,7) [of "mp_frame (st_meta s)" "st_bm s" "st_bm t" f]
  by (auto simp: meta_only_def)

lemma add_rows_located:
  assumes "distinct (map mi_id (xs @ it # ys))"
  shows "add_rows (mi_id it) c (xs @ it # ys) = xs @ it\<lparr>mi_rows := rows_after (mi_rows it) c\<rparr> # ys"
proof -
  have "add_rows (mi_id it) c zs = zs" if "mi_id it \<notin> mi_id ` set zs" for zs
    using that unfolding add_rows_def by (intro map_idI) (simp add: image_iff, metis)
  then show ?thesis using assms by (simp add: add_rows_def)
qed

lemma add_rows_ids [simp]: "mi_id ` set (add_rows t c its) = mi_id ` set its"
proof -
  have "map mi_id (add_rows t c its) = map mi_id its" by (simp add: add_rows_def)
  then show ?thesis by (metis list.set_map)
qed

lemma UpdateTableRows_run:
  assumes "table_ok tp s its rs"
  obtains t where "MP_UpdateTableRows (tp_table tp) c s = (Inr (), t)" "table_ok tp t (add_rows (tp_table tp) c its) rs"
    "frame_of (tp_frame tp) (st_bm t) = frame_of (tp_frame tp) (st_bm s)" "keeps {META_PAGE_ID} s t" "meta_only s t"
proof -
  note ok = table_okD [OF assms]
  obtain xs it ys where sp: "its = xs @ it # ys" "mi_id it = tp_table tp"
    using ok(3) by (metis image_iff split_list)
  have dist: "distinct (map mi_id its)" using ok(2) by (simp add: meta_rep_def tables_of_def)
  obtain t where t: "MP_UpdateTableRows (tp_table tp) c s = (Inr (), t)"
      "meta_rep t (xs @ it\<lparr>mi_rows := rows_after (mi_rows it) c\<rparr> # ys)" "meta_only s t"
    using UpdateTableRows_effect [of s xs it ys c] ok(2) sp by metis
  note fr = meta_only_frame [OF t(3) ok(6)]
  have "meta_rep t (add_rows (tp_table tp) c its)"
    using t(2) add_rows_located [of xs it ys c] dist sp by simp
  then have "table_ok tp t (add_rows (tp_table tp) c its) rs"
    using fr(1,2) ok by (simp add: table_ok_def)
  then show ?thesis using that t(1,3) fr(3) meta_only_keeps [OF t(3) ok(5)] by blast
qed

text \<open>Replacing the bytes of the table page by another layout, and marking it dirty.\<close>

lemma table_ok_tput:
  assumes "table_ok tp s its rs" "page_layout tp' rs' d" "tp_frame tp' = tp_frame tp"
    "tp_page_id tp' = tp_page_id tp" "tp_table tp' = tp_table tp"
  shows "table_ok tp' (tput (tp_frame tp) d s) its rs'" "keeps {tp_page_id tp} s (tput (tp_frame tp) d s)"
proof -
  note ok = table_okD [OF assms(1)]
  have l: "length d = PAGE_SIZE" using assms(2) by (simp add: page_layout_def)
  note p = tput_facts [OF ok(1) l]
  show "table_ok tp' (tput (tp_frame tp) d s) its rs'"
    using p ok assms(2-) meta_rep_tab_only [OF ok(2) p(1) ok(6)] by (simp add: table_ok_def)
  show "keeps {tp_page_id tp} s (tput (tp_frame tp) d s)" by (rule tab_only_keeps [OF p(1) ok(1)])
qed

lemma table_ok_tdirty:
  assumes "table_ok tp s its rs"
  shows "table_ok tp (tdirty (tp_frame tp) s) its rs" "keeps {tp_page_id tp} s (tdirty (tp_frame tp) s)"
    "pg_dirty (frame_of (tp_frame tp) (st_bm (tdirty (tp_frame tp) s)))"
proof -
  note ok = table_okD [OF assms(1)]
  note p = tdirty_facts [OF ok(1)]
  show "table_ok tp (tdirty (tp_frame tp) s) its rs"
    using p ok meta_rep_tab_only [OF ok(2) p(1) ok(6)] by (simp add: table_ok_def)
  show "keeps {tp_page_id tp} s (tdirty (tp_frame tp) s)" by (rule tab_only_keeps [OF p(1) ok(1)])
qed (rule tdirty_facts(4) [OF table_okD(1) [OF assms]])

section \<open>Inserting a record\<close>

lemma tuple_bytes_run: "tuple_holds t r \<Longrightarrow> tuple_bytes t s = (Inr r, s)"
  by (auto simp: tuple_bytes_def tuple_holds_def comp_simps peek_0_all)

lemma slot_word:
  assumes "n \<le> 1024"
  shows "(4096 - 4 * word_of_nat n :: u32) = word_of_nat (4096 - 4 * n)"
  using assms by (simp add: of_nat_diff)

lemma int_offset_small: "k \<le> 4096 \<Longrightarrow> int_offset (word_of_nat k) s = (Inr k, s)"
proof -
  assume k: "k \<le> 4096"
  have "sint (word_of_nat k :: u32) = signed_take_bit 31 (int k)"
    using sint_sbintrunc' [of "int k", where 'a = 32] by simp
  also have "\<dots> = int k" using k by (intro signed_take_bit_int_eq_self) simp_all
  finally show ?thesis by (simp add: int_offset_def comp_simps)
qed

definition inserted :: "Tuple \<Rightarrow> TablePage \<Rightarrow> TablePage" where
  "inserted t tp = tp\<lparr>tp_free := tp_free tp - (4 + ucast (t_size t)), tp_num_rows := tp_num_rows tp + 1\<rparr>"

definition insert_bytes :: "bytes list \<Rightarrow> bytes \<Rightarrow> bytes \<Rightarrow> bytes" where
  "insert_bytes rs r d = poke (HEADER_SIZE + length (concat rs)) r
     (poke (PAGE_SIZE - SLOT_SIZE * Suc (length rs)) (slot_bytes (HEADER_SIZE + length (concat rs)) (length r)) d)"

lemma insert_layout:
  assumes lay: "page_layout tp rs d" and t: "tuple_holds t r" and fit: "length r + SLOT_SIZE \<le> unat (tp_free tp)"
  shows "page_layout (inserted t tp) (rs @ [r]) (poke 0 (tp_header (inserted t tp)) (insert_bytes rs r d))"
proof -
  let ?n = "length rs" and ?o = "32 + length (concat rs)" and ?sl = "slot_bytes (32 + length (concat rs)) (length r)"
  let ?d1 = "poke (4096 - 4 * Suc (length rs)) ?sl d"
  have l: "length d = 4096" "holds_at 32 (concat rs) d" "holds_at (4096 - 4 * ?n) (slots 32 rs) d"
    "tp_num_rows tp = word_of_nat ?n" "32 + length (concat rs) + 4 * ?n + unat (tp_free tp) = 4096"
    using lay by (simp_all add: page_layout_def)
  have b: "?o + length r + 4 * Suc ?n \<le> 4096" using l(5) fit by simp
  have l1: "length ?d1 = 4096" using l(1) b by simp
  have l2: "length (insert_bytes rs r d) = 4096" using l1 b by (simp add: insert_bytes_def)
  have d1: "holds_at 32 (concat rs) ?d1" "holds_at (4096 - 4 * ?n) (slots 32 rs) ?d1" "holds_at (4096 - 4 * Suc ?n) ?sl ?d1"
    using l b by (auto intro!: holds_at_poke_disjoint holds_at_poke_same)
  have d2: "holds_at 32 (concat rs) (insert_bytes rs r d)" "holds_at (4096 - 4 * ?n) (slots 32 rs) (insert_bytes rs r d)"
    "holds_at (4096 - 4 * Suc ?n) ?sl (insert_bytes rs r d)" "holds_at ?o r (insert_bytes rs r d)"
    unfolding insert_bytes_def using d1 l1 b by (auto intro!: holds_at_poke_disjoint holds_at_poke_same)
  have "unat (tp_free tp - (4 + ucast (t_size t))) = unat (tp_free tp) - (4 + length r)"
  proof -
    have u: "unat (4 + ucast (t_size t) :: u32) = 4 + length r"
      using t b by (simp add: tuple_holds_def unat_word_ariths)
    then have "(4 + ucast (t_size t) :: u32) \<le> tp_free tp" using fit by (simp add: word_le_nat_alt)
    then show ?thesis by (simp add: unat_sub u)
  qed
  moreover have "holds_at (4096 - 4 * Suc ?n) (?sl @ slots 32 rs) (insert_bytes rs r d)"
  proof -
    have "4096 - 4 * Suc ?n + 4 = 4096 - 4 * ?n" using b by simp
    then show ?thesis using d2(2,3) by simp
  qed
  ultimately show ?thesis
    using d2 l l2 b fit
    by (auto simp: page_layout_def inserted_def slots_append intro!: holds_at_poke_disjoint holds_at_poke_same)
qed

lemma tput_write:
  assumes "theld pid f s" "length d = PAGE_SIZE" "off + length bs \<le> PAGE_SIZE"
  shows "tp_write f off bs (tput f d s) = (Inr (), tput f (poke off bs d) s)"
  using tp_write_run [OF tput_facts(2) [OF assms(1,2)] assms(3)] tput_facts(3) [OF assms(1,2)] by simp

lemma slot_writes:
  assumes "theld pid f s" "tuple_holds t r" "off + length r \<le> PAGE_SIZE" "new + SLOT_SIZE \<le> PAGE_SIZE"
  shows "thn (tp_write f new (le_bytes 2 (word_of_nat off :: u16)))
      (thn (tp_write f (new + 2) (le_bytes 2 (t_size t))) (bnd (tuple_bytes t) (\<lambda>bs. tp_write f off bs))) s =
    (Inr (), tput f (poke off r (poke new (slot_bytes off (length r)) (tdata f s))) s)"
proof -
  have l: "length (tdata f s) = PAGE_SIZE" by (rule heldD(5) [OF assms(1)])
  have sz: "t_size t = word_of_nat (length r)"
    using assms(2,3) by (simp add: tuple_holds_def word_unat_eq_iff unat_u16_small)
  have adj: "poke (new + 2) (le_bytes 2 (t_size t)) (poke new (le_bytes 2 (word_of_nat off :: u16)) (tdata f s)) =
      poke new (slot_bytes off (length r)) (tdata f s)"
    using poke_poke_adjacent [of new "le_bytes 2 (word_of_nat off :: u16)" "le_bytes 2 (t_size t)" "tdata f s"]
      assms(4) l by (simp add: slot_bytes_def sz)
  have w1: "tp_write f new (le_bytes 2 (word_of_nat off :: u16)) s =
      (Inr (), tput f (poke new (le_bytes 2 (word_of_nat off :: u16)) (tdata f s)) s)"
    using assms(4) by (intro tp_write_run [OF assms(1)]) simp
  have w2: "tp_write f (new + 2) (le_bytes 2 (t_size t)) (tput f (poke new (le_bytes 2 (word_of_nat off :: u16)) (tdata f s)) s) =
      (Inr (), tput f (poke new (slot_bytes off (length r)) (tdata f s)) s)"
    using assms(4) l by (subst tput_write [OF assms(1)]) (simp_all add: adj [simplified])
  have w3: "tp_write f off r (tput f (poke new (slot_bytes off (length r)) (tdata f s)) s) =
      (Inr (), tput f (poke off r (poke new (slot_bytes off (length r)) (tdata f s))) s)"
    using assms(3,4) l by (intro tput_write [OF assms(1)]) simp_all
  show ?thesis
    by (simp only: comp_simps w1 w2 tuple_bytes_run [OF assms(2)] w3)
qed

lemma insert_body:
  assumes "theld pid (tp_frame tp) s" "page_layout tp rs (tdata (tp_frame tp) s)" "tuple_holds t r"
    "length r + SLOT_SIZE \<le> unat (tp_free tp)"
  shows "insert_record t tp s = (Inr (), tput (tp_frame tp) (insert_bytes rs r (tdata (tp_frame tp) s)) s)"
proof -
  let ?n = "length rs" and ?o = "32 + length (concat rs)" and ?f = "tp_frame tp"
  have lay: "tp_num_rows tp = word_of_nat ?n" "?o + 4 * ?n + unat (tp_free tp) = 4096"
    "holds_at (4096 - 4 * ?n) (slots 32 rs) (tdata ?f s)" using assms(2) by (simp_all add: page_layout_def)
  have b: "?o + length r + 4 * Suc ?n \<le> 4096" using lay(2) assms(4) by simp
  have zero: "tp_num_rows tp = 0 \<longleftrightarrow> rs = []"
    using unat_u32_small [of ?n] b by (auto simp: lay(1) word_unat_eq_iff)
  have n: "?n \<le> 1024" "Suc ?n \<le> 1024" using b by simp_all
  have cur: "int_offset (4096 - 4 * tp_num_rows tp) u = (Inr (4096 - 4 * ?n), u)" for u
    by (simp only: lay(1) slot_word [OF n(1)] int_offset_small diff_le_self)
  have nw: "int_offset (4096 - 4 * tp_num_rows tp - 4) u = (Inr (4096 - 4 * Suc ?n), u)" for u
  proof -
    have "4096 - 4 * tp_num_rows tp - 4 = (4096 - 4 * word_of_nat (Suc ?n) :: u32)" by (simp add: lay(1))
    then show ?thesis by (simp only: slot_word [OF n(2)] int_offset_small diff_le_self)
  qed
  have wr: "thn (tp_write ?f (4096 - 4 * Suc ?n) (le_bytes 2 (word_of_nat ?o :: u16)))
      (thn (tp_write ?f (4096 - 4 * Suc ?n + 2) (le_bytes 2 (t_size t))) (bnd (tuple_bytes t) (\<lambda>bs. tp_write ?f ?o bs))) s =
    (Inr (), tput ?f (insert_bytes rs r (tdata ?f s)) s)"
    using b unfolding insert_bytes_def by (intro slot_writes [OF assms(1,3)]) simp_all
  show ?thesis
  proof (cases "rs = []")
    case True
    then show ?thesis
      using wr zero nw by (simp add: insert_record_def Let_def comp_simps)
  next
    case False
    then obtain qs q where rs: "rs = qs @ [q]" by (metis rev_exhaust)
    let ?q = "32 + length (concat qs)"
    have h: "holds_at (4096 - 4 * ?n) (le_bytes 2 (word_of_nat ?q :: u16)) (tdata ?f s)"
      "holds_at (4096 - 4 * ?n + 2) (le_bytes 2 (word_of_nat (length q) :: u16)) (tdata ?f s)"
      using lay(3) rs by (simp_all add: slots_append slot_bytes_def)
    have rd: "tp_read ?f (4096 - 4 * ?n) 2 s = (Inr (word_of_nat ?q :: u16), s)"
      "tp_read ?f (4096 - 4 * ?n + 2) 2 s = (Inr (word_of_nat (length q) :: u16), s)"
      using tp_read_held [OF assms(1) h(1), where ?'a = 16] tp_read_held [OF assms(1) h(2), where ?'a = 16] by simp_all
    have now: "word_of_nat ?q + word_of_nat (length q) = (word_of_nat ?o :: u16)" by (simp add: rs)
    have u: "unat (word_of_nat ?o :: u16) = ?o" using b by (intro unat_u16_small) simp
    show ?thesis
      using False zero wr unfolding insert_record_def Let_def
      by (simp only: if_False bnd_run_Inr cur rd nw now u simp_thms)
  qed
qed

lemma InsertTuple_run:
  assumes ok: "table_ok tp s its rs" and t: "tuple_holds t r" and fit: "length r + SLOT_SIZE \<le> unat (tp_free tp)"
  obtains u where "TP_InsertTuple t tp s = (Inr (inserted t tp,
      Some \<lparr>rid_page = tp_page_id tp, rid_row = word_of_nat (Suc (length rs))\<rparr>), u)"
    "table_ok (inserted t tp) u (add_rows (tp_table tp) 1 its) (rs @ [r])"
    "pg_dirty (frame_of (tp_frame tp) (st_bm u))" "keeps {META_PAGE_ID, tp_page_id tp} s u"
proof -
  note o = table_okD [OF ok]
  let ?f = "tp_frame tp" and ?tp = "inserted t tp" and ?d = "insert_bytes rs r (tdata (tp_frame tp) s)"
  let ?e = "poke 0 (tp_header ?tp) ?d"
  have same: "tp_frame ?tp = ?f" "tp_page_id ?tp = tp_page_id tp" "tp_table ?tp = tp_table tp" by (simp_all add: inserted_def)
  have lay: "page_layout ?tp (rs @ [r]) ?e" by (rule insert_layout [OF o(4) t fit])
  have n: "length rs \<le> 1024" "tp_num_rows tp = word_of_nat (length rs)" using o(4) by (simp_all add: page_layout_def)
  have ld: "length ?d = PAGE_SIZE"
  proof -
    have b: "32 + length (concat rs) + length r + 4 * Suc (length rs) \<le> 4096" using o(4) fit by (simp add: page_layout_def)
    then show ?thesis using heldD(5) [OF o(1)] by (simp add: insert_bytes_def)
  qed
  note pd = tput_facts [OF o(1) ld]
  have hdr: "TP_WriteHeader ?tp (tput ?f ?d s) = (Inr (), tdirty ?f (tput ?f ?e s))"
    using WriteHeader_run [of "tp_page_id tp" ?tp "tput ?f ?d s"] pd same by simp
  note k1 = table_ok_tput [OF ok lay same]
  note k2 = table_ok_tdirty [OF k1(1), unfolded same]
  note k3 = table_ok_tdirty [OF k2(1), unfolded same]
  obtain u where u: "MP_UpdateTableRows (tp_table tp) 1 (tdirty ?f (tdirty ?f (tput ?f ?e s))) = (Inr (), u)"
      "table_ok ?tp u (add_rows (tp_table tp) 1 its) (rs @ [r])"
      "frame_of ?f (st_bm u) = frame_of ?f (st_bm (tdirty ?f (tdirty ?f (tput ?f ?e s))))"
      "keeps {META_PAGE_ID} (tdirty ?f (tdirty ?f (tput ?f ?e s))) u"
    using UpdateTableRows_run [OF k3(1)] same by metis
  have row: "ucast (tp_num_rows ?tp) = (word_of_nat (Suc (length rs)) :: u64)"
  proof -
    have "tp_num_rows ?tp = word_of_nat (Suc (length rs))" using n(2) by (simp add: inserted_def)
    then show ?thesis using n(1) by (simp add: word_unat_eq_iff unat_of_nat take_bit_eq_mod del: of_nat_Suc)
  qed
  have guard: "\<not> unat (tp_free tp) < unat (t_size t) + 4" using fit t by (simp add: tuple_holds_def)
  have "TP_InsertTuple t tp s = (Inr (?tp, Some \<lparr>rid_page = tp_page_id tp, rid_row = word_of_nat (Suc (length rs))\<rparr>), u)"
    using hdr u(1) row same(2) insert_body [OF o(1) o(4) t fit] guard
    by (simp add: TP_InsertTuple_def Let_def comp_simps flip: inserted_def)
  moreover have "keeps {META_PAGE_ID, tp_page_id tp} s u"
    using keeps_trans [OF keeps_trans [OF keeps_trans [OF k1(2) k2(2), of "{tp_page_id tp}"] k3(2), of "{tp_page_id tp}"] u(4)]
    by (simp add: same)
  ultimately show ?thesis using that u(2,3) k3(3) by simp
qed

lemma InsertTuple_full:
  "unat (tp_free tp) < unat (t_size t) + SLOT_SIZE \<Longrightarrow> TP_InsertTuple t tp s = (Inr (tp, None), s)"
  by (simp add: TP_InsertTuple_def comp_simps)

section \<open>Changing the header of a record\<close>

lemma slots_cong: "map length rs = map length qs \<Longrightarrow> slots off rs = slots off qs"
proof (induction rs arbitrary: qs off)
  case (Cons r rs)
  then obtain q qs' where "qs = q # qs'" "length r = length q" "map length rs = map length qs'" by auto
  with Cons.IH show ?case by simp
qed simp

lemma concat_update:
  assumes "i < length rs"
  shows "concat (rs[i := x]) = concat (take i rs) @ x @ concat (drop (Suc i) rs)"
  using assms by (simp add: upd_conv_take_nth_drop)

lemma poke_parts: "k + length g \<le> length r \<Longrightarrow> poke k g r = take k r @ g @ drop (k + length g) r"
  by (simp add: poke_def)

lemma layout_poke:
  assumes lay: "page_layout tp rs d" and i: "i < length rs" and k: "k + length g \<le> length (rs ! i)"
  shows "page_layout tp (rs[i := poke k g (rs ! i)]) (poke (rec_off rs i + k) g d)"
proof -
  let ?r = "rs ! i" and ?a = "concat (take i rs) @ take k (rs ! i)" and ?b = "drop (k + length g) (rs ! i) @ concat (drop (Suc i) rs)"
  note row = page_layout_row [OF lay i]
  have l: "length d = 4096" "holds_at 0 (tp_header tp) d" "holds_at 32 (concat rs) d" "holds_at (4096 - 4 * length rs) (slots 32 rs) d"
    using lay by (simp_all add: page_layout_def)
  have r: "?r = take k ?r @ peek k (length g) ?r @ drop (k + length g) ?r"
    using k by (simp add: peek_def add.commute) (metis append_take_drop_id drop_drop add.commute)
  have "concat rs = ?a @ peek k (length g) ?r @ ?b"
    using concat_update [OF i, of ?r] r by (metis append.assoc list_update_id)
  then have "holds_at 32 (?a @ peek k (length g) ?r @ ?b) d" using l(3) by simp
  then have "holds_at 32 (?a @ g @ ?b) (poke (rec_off rs i + k) g d)"
    by (rule holds_at_poke_field) (use k in \<open>simp_all add: rec_off_def\<close>)
  then have c: "holds_at 32 (concat (rs[i := poke k g ?r])) (poke (rec_off rs i + k) g d)"
    using concat_update [OF i, of "poke k g ?r"] k by (simp add: poke_parts add.assoc)
  have len: "map length (rs[i := poke k g ?r]) = map length rs"
    using i k by (intro nth_equalityI) (auto simp: nth_list_update)
  have b: "rec_off rs i + k + length g + 4 * length rs \<le> 4096" using row(3) k by simp
  have "holds_at 0 (tp_header tp) (poke (rec_off rs i + k) g d)"
    "holds_at (4096 - 4 * length rs) (slots 32 rs) (poke (rec_off rs i + k) g d)"
    using l b by (auto intro!: holds_at_poke_disjoint simp: rec_off_def)
  moreover have "length (concat (rs[i := poke k g ?r])) = length (concat rs)"
    using len by (metis length_concat)
  ultimately show ?thesis
    using c lay l(1) b slots_cong [OF len, of 32] by (simp add: page_layout_def)
qed

lemma header_bytes_poke:
  assumes "off + 22 \<le> length d"
  shows "poke (off + 20) (le_bytes 2 fl) (poke (off + 16) (le_bytes 4 (up_slot ptr)) (poke (off + 8) (le_bytes 8 (up_page ptr))
      (poke off (le_bytes 8 trx) d))) = poke off (header_bytes \<lparr>rh_trx_id = trx, rh_roll_ptr = ptr, rh_flags = fl\<rparr>) d"
  using poke_poke_adjacent [of off "le_bytes 8 trx" "le_bytes 8 (up_page ptr)" d]
    poke_poke_adjacent [of off "le_bytes 8 trx @ le_bytes 8 (up_page ptr)" "le_bytes 4 (up_slot ptr)" d]
    poke_poke_adjacent [of off "le_bytes 8 trx @ le_bytes 8 (up_page ptr) @ le_bytes 4 (up_slot ptr)" "le_bytes 2 fl" d]
    assms by (simp add: header_bytes_def add.assoc)

lemma write_record_header_run:
  assumes "theld pid f s" "off + REC_HEADER_SIZE \<le> PAGE_SIZE"
  shows "write_record_header f off trx ptr fl s = (Inr (), tput f
    (poke off (header_bytes \<lparr>rh_trx_id = trx, rh_roll_ptr = ptr, rh_flags = fl\<rparr>) (tdata f s)) s)"
proof -
  have l: "length (tdata f s) = PAGE_SIZE" by (rule heldD(5) [OF assms(1)])
  have "write_record_header f off trx ptr fl s = (Inr (), tput f (poke (off + 20) (le_bytes 2 fl) (poke (off + 16) (le_bytes 4 (up_slot ptr))
      (poke (off + 8) (le_bytes 8 (up_page ptr)) (poke off (le_bytes 8 trx) (tdata f s))))) s)"
    using assms(2) l by (simp add: write_record_header_def comp_simps tp_write_run [OF assms(1)] tput_write [OF assms(1)] add.commute)
  then show ?thesis using header_bytes_poke assms(2) l by simp
qed

text \<open>Replacing the header of a record.\<close>

definition with_header :: "RecordHeader \<Rightarrow> bytes \<Rightarrow> bytes" where
  "with_header h r = poke 0 (header_bytes h) r"

lemma length_with_header [simp]: "22 \<le> length r \<Longrightarrow> length (with_header h r) = length r"
  by (simp add: with_header_def)

lemma with_header_same: "22 \<le> length r \<Longrightarrow> with_header (read_header r) r = r"
proof -
  assume l: "22 \<le> length r"
  have "header_bytes (read_header r) = peek 0 8 r @ peek 8 8 r @ peek 16 4 r @ peek 20 2 r"
    using l by (simp add: header_bytes_def read_header_def)
  also have "\<dots> = peek 0 22 r"
    using peek_adjacent [of 16 4 r 2] peek_adjacent [of 8 8 r 6] peek_adjacent [of 0 8 r 14] by simp
  finally show ?thesis using l poke_peek_id [of 0 22 r] by (simp add: with_header_def)
qed

lemma read_with_header: "22 \<le> length r \<Longrightarrow> read_header (with_header h r) = h"
  by (simp add: read_header_def with_header_def header_bytes_def peek_def poke_def)

lemma with_header_twice: "22 \<le> length r \<Longrightarrow> with_header h (with_header g r) = with_header h r"
  by (simp add: with_header_def poke_poke_same)

text \<open>A row of a table page whose record has a full header.\<close>

definition table_row :: "TablePage \<Rightarrow> Store \<Rightarrow> MetaItem list \<Rightarrow> bytes list \<Rightarrow> RID \<Rightarrow> nat \<Rightarrow> bool" where
  "table_row tp s its rs rid i \<longleftrightarrow> table_ok tp s its rs \<and> i < length rs \<and> unat (rid_row rid) = Suc i \<and>
     REC_HEADER_SIZE \<le> length (rs ! i)"

lemma record_reads:
  assumes h: "theld pid (tp_frame tp) s" and lay: "page_layout tp rs (tdata (tp_frame tp) s)" and i: "i < length rs"
    and row: "unat (rid_row rid) = Suc i" and l: "22 \<le> length (rs ! i)"
  shows "rec_off rs i + length (rs ! i) \<le> 4096"
    "tp_read (tp_frame tp) (SlotOffset (rid_row rid)) 2 s = (Inr (word_of_nat (rec_off rs i) :: u16), s)"
    "unat (word_of_nat (rec_off rs i) :: u16) = rec_off rs i"
    "tp_read (tp_frame tp) (rec_off rs i + 20) 2 s = (Inr (rh_flags (read_header (rs ! i))), s)"
    "tp_read (tp_frame tp) (rec_off rs i) 8 s = (Inr (rh_trx_id (read_header (rs ! i))), s)"
    "tp_read (tp_frame tp) (rec_off rs i + 8) 8 s = (Inr (up_page (rh_roll_ptr (read_header (rs ! i)))), s)"
    "tp_read (tp_frame tp) (rec_off rs i + 16) 4 s = (Inr (up_slot (rh_roll_ptr (read_header (rs ! i)))), s)"
proof -
  note p = page_layout_row [OF lay i] and sl = slot_read [OF h lay i row]
  show "rec_off rs i + length (rs ! i) \<le> 4096" using p(3) by simp
  show "tp_read (tp_frame tp) (SlotOffset (rid_row rid)) 2 s = (Inr (word_of_nat (rec_off rs i) :: u16), s)"
    "unat (word_of_nat (rec_off rs i) :: u16) = rec_off rs i" by (rule sl)+
  have rd: "tp_read (tp_frame tp) (rec_off rs i + k) n s = (Inr (le_word (peek k n (rs ! i))), s)" if "k + n \<le> 22" for k n
    using that l by (intro tp_read_held [OF h holds_at_slice [OF p(2)]]) simp_all
  show "tp_read (tp_frame tp) (rec_off rs i + 20) 2 s = (Inr (rh_flags (read_header (rs ! i))), s)"
    "tp_read (tp_frame tp) (rec_off rs i) 8 s = (Inr (rh_trx_id (read_header (rs ! i))), s)"
    "tp_read (tp_frame tp) (rec_off rs i + 8) 8 s = (Inr (up_page (rh_roll_ptr (read_header (rs ! i)))), s)"
    "tp_read (tp_frame tp) (rec_off rs i + 16) 4 s = (Inr (up_slot (rh_roll_ptr (read_header (rs ! i)))), s)"
    using rd [of 20 2] rd [of 0 8] rd [of 8 8] rd [of 16 4] by (simp_all add: read_header_def)
qed

lemma table_rowD:
  assumes "table_row tp s its rs rid i"
  shows "table_ok tp s its rs" "theld (tp_page_id tp) (tp_frame tp) s" "i < length rs" "22 \<le> length (rs ! i)"
    "rec_off rs i + length (rs ! i) \<le> 4096"
    "tp_read (tp_frame tp) (SlotOffset (rid_row rid)) 2 s = (Inr (word_of_nat (rec_off rs i) :: u16), s)"
    "unat (word_of_nat (rec_off rs i) :: u16) = rec_off rs i"
    "tp_read (tp_frame tp) (rec_off rs i + 20) 2 s = (Inr (rh_flags (read_header (rs ! i))), s)"
proof -
  show ok: "table_ok tp s its rs" and i: "i < length rs" and l: "22 \<le> length (rs ! i)"
    using assms by (simp_all add: table_row_def)
  have row: "unat (rid_row rid) = Suc i" using assms by (simp add: table_row_def)
  show h: "theld (tp_page_id tp) (tp_frame tp) s" by (rule table_okD(1) [OF ok])
  note r = record_reads [OF h table_okD(4) [OF ok] i row l]
  show "rec_off rs i + length (rs ! i) \<le> 4096"
    "tp_read (tp_frame tp) (SlotOffset (rid_row rid)) 2 s = (Inr (word_of_nat (rec_off rs i) :: u16), s)"
    "unat (word_of_nat (rec_off rs i) :: u16) = rec_off rs i"
    "tp_read (tp_frame tp) (rec_off rs i + 20) 2 s = (Inr (rh_flags (read_header (rs ! i))), s)" by (rule r)+
qed

lemma table_ok_poke:
  assumes "table_row tp s its rs rid i" "k + length g \<le> length (rs ! i)"
  shows "table_ok tp (tput (tp_frame tp) (poke (rec_off rs i + k) g (tdata (tp_frame tp) s)) s) its (rs[i := poke k g (rs ! i)])"
    "keeps {tp_page_id tp} s (tput (tp_frame tp) (poke (rec_off rs i + k) g (tdata (tp_frame tp) s)) s)"
  using table_ok_tput [OF table_rowD(1) [OF assms(1)] layout_poke [OF table_okD(4) table_rowD(3) assms(2)] refl refl refl]
    table_rowD(1) [OF assms(1)] assms(1) by blast+

lemma set_header_run:
  assumes "table_row tp s its rs rid i"
  defines "h \<equiv> \<lambda>trx ptr fl. \<lparr>rh_trx_id = trx, rh_roll_ptr = ptr, rh_flags = fl\<rparr>"
  obtains u where "write_record_header (tp_frame tp) (rec_off rs i) trx ptr fl s = (Inr (), u)"
    "table_ok tp u its (rs[i := with_header (h trx ptr fl) (rs ! i)])" "keeps {tp_page_id tp} s u"
proof -
  note r = table_rowD [OF assms(1)]
  have "write_record_header (tp_frame tp) (rec_off rs i) trx ptr fl s = (Inr (), tput (tp_frame tp)
      (poke (rec_off rs i) (header_bytes (h trx ptr fl)) (tdata (tp_frame tp) s)) s)"
    unfolding h_def using r(4,5) by (intro write_record_header_run [OF r(2)]) simp
  then show ?thesis
    using that table_ok_poke [OF assms(1), of 0 "header_bytes (h trx ptr fl)"] r(4) by (simp add: with_header_def)
qed

text \<open>A change of the row count and the dirty mark, in either order.\<close>

lemma rows_then_dirty:
  assumes "table_ok tp s its rs"
  obtains u where "thn (tp_dirty (tp_frame tp)) (MP_UpdateTableRows (tp_table tp) c) s = (Inr (), u)"
    "table_ok tp u (add_rows (tp_table tp) c its) rs" "pg_dirty (frame_of (tp_frame tp) (st_bm u))"
    "keeps {META_PAGE_ID, tp_page_id tp} s u"
proof -
  note d = table_ok_tdirty [OF assms]
  obtain u where u: "MP_UpdateTableRows (tp_table tp) c (tdirty (tp_frame tp) s) = (Inr (), u)"
      "table_ok tp u (add_rows (tp_table tp) c its) rs"
      "frame_of (tp_frame tp) (st_bm u) = frame_of (tp_frame tp) (st_bm (tdirty (tp_frame tp) s))"
      "keeps {META_PAGE_ID} (tdirty (tp_frame tp) s) u"
    by (rule UpdateTableRows_run [OF d(1)])
  then show ?thesis
    using that d(3) keeps_trans [OF d(2) u(4), of "{META_PAGE_ID, tp_page_id tp}"] by (simp add: comp_simps)
qed

lemma cond_rows_dirty:
  assumes "table_ok tp s its rs"
  obtains u where "thn (on_cond b (MP_UpdateTableRows (tp_table tp) c)) (tp_dirty (tp_frame tp)) s = (Inr (), u)"
    "table_ok tp u (if b then add_rows (tp_table tp) c its else its) rs" "pg_dirty (frame_of (tp_frame tp) (st_bm u))"
    "keeps {META_PAGE_ID, tp_page_id tp} s u"
proof (cases b)
  case True
  obtain t where t: "MP_UpdateTableRows (tp_table tp) c s = (Inr (), t)"
      "table_ok tp t (add_rows (tp_table tp) c its) rs" "keeps {META_PAGE_ID} s t"
    by (rule UpdateTableRows_run [OF assms])
  note d = table_ok_tdirty [OF t(2)]
  show ?thesis
    using True t d that keeps_trans [OF t(3) d(2), of "{META_PAGE_ID, tp_page_id tp}"] by (simp add: comp_simps)
next
  case False
  note d = table_ok_tdirty [OF assms]
  show ?thesis
    using False d that keeps_trans [OF keeps_refl d(2), of "{}" "{META_PAGE_ID, tp_page_id tp}"] by (simp add: comp_simps)
qed

lemma MarkDelete_run:
  assumes "table_row tp s its rs rid i" "rh_flags (read_header (rs ! i)) AND RECORD_DEL = 0"
  obtains u where "TP_MarkDelete rid trx ptr tp s = (Inr (), u)"
    "table_ok tp u (add_rows (tp_table tp) (- 1) its) (rs[i := with_header \<lparr>rh_trx_id = trx, rh_roll_ptr = ptr,
       rh_flags = rh_flags (read_header (rs ! i)) OR RECORD_DEL\<rparr> (rs ! i)])"
    "pg_dirty (frame_of (tp_frame tp) (st_bm u))" "keeps {META_PAGE_ID, tp_page_id tp} s u"
proof -
  note r = table_rowD [OF assms(1)]
  let ?fl = "rh_flags (read_header (rs ! i)) OR 1"
  obtain t where t: "write_record_header (tp_frame tp) (rec_off rs i) trx ptr ?fl s = (Inr (), t)"
    "table_ok tp t its (rs[i := with_header \<lparr>rh_trx_id = trx, rh_roll_ptr = ptr, rh_flags = ?fl\<rparr> (rs ! i)])" "keeps {tp_page_id tp} s t"
    by (rule set_header_run [OF assms(1)])
  obtain u where u: "thn (tp_dirty (tp_frame tp)) (MP_UpdateTableRows (tp_table tp) (- 1)) t = (Inr (), u)"
    "table_ok tp u (add_rows (tp_table tp) (- 1) its) (rs[i := with_header \<lparr>rh_trx_id = trx, rh_roll_ptr = ptr, rh_flags = ?fl\<rparr> (rs ! i)])"
    "pg_dirty (frame_of (tp_frame tp) (st_bm u))" "keeps {META_PAGE_ID, tp_page_id tp} t u"
    by (rule rows_then_dirty [OF t(2)])
  have "TP_MarkDelete rid trx ptr tp s = (Inr (), u)"
    using t(1) u(1) r(6-8) assms(2) by (simp add: TP_MarkDelete_def Let_def comp_simps)
  then show ?thesis using that u(2,3) keeps_trans [OF t(3) u(4)] by blast
qed

lemma MarkDelete_again:
  assumes "table_row tp s its rs rid i" "rh_flags (read_header (rs ! i)) AND RECORD_DEL \<noteq> 0"
  shows "TP_MarkDelete rid trx ptr tp s = (Inr (), s)"
  using table_rowD(6-8) [OF assms(1)] assms(2) by (simp add: TP_MarkDelete_def Let_def comp_simps)

lemma RestoreRecord_run:
  assumes "table_row tp s its rs rid i"
  obtains u where "TP_RestoreRecord rid trx ptr fl tp s = (Inr (), u)"
    "table_ok tp u (if rh_flags (read_header (rs ! i)) AND RECORD_DEL \<noteq> 0 \<and> fl AND RECORD_DEL = 0
       then add_rows (tp_table tp) 1 its else its)
       (rs[i := with_header \<lparr>rh_trx_id = trx, rh_roll_ptr = ptr, rh_flags = fl\<rparr> (rs ! i)])"
    "pg_dirty (frame_of (tp_frame tp) (st_bm u))" "keeps {META_PAGE_ID, tp_page_id tp} s u"
proof -
  note r = table_rowD [OF assms(1)]
  let ?b = "rh_flags (read_header (rs ! i)) AND 1 \<noteq> 0 \<and> fl AND 1 = 0"
  obtain t where t: "write_record_header (tp_frame tp) (rec_off rs i) trx ptr fl s = (Inr (), t)"
    "table_ok tp t its (rs[i := with_header \<lparr>rh_trx_id = trx, rh_roll_ptr = ptr, rh_flags = fl\<rparr> (rs ! i)])" "keeps {tp_page_id tp} s t"
    by (rule set_header_run [OF assms(1)])
  obtain u where u: "thn (on_cond ?b (MP_UpdateTableRows (tp_table tp) 1)) (tp_dirty (tp_frame tp)) t = (Inr (), u)"
    "table_ok tp u (if ?b then add_rows (tp_table tp) 1 its else its) (rs[i := with_header \<lparr>rh_trx_id = trx, rh_roll_ptr = ptr, rh_flags = fl\<rparr> (rs ! i)])"
    "pg_dirty (frame_of (tp_frame tp) (st_bm u))" "keeps {META_PAGE_ID, tp_page_id tp} t u"
    by (rule cond_rows_dirty [OF t(2)])
  have "TP_RestoreRecord rid trx ptr fl tp s = (Inr (), u)"
    using t(1) u(1) r(6-8) by (simp add: TP_RestoreRecord_def Let_def comp_simps)
  then show ?thesis using that u(2,3) keeps_trans [OF t(3) u(4)] by blast
qed

lemma MarkDead_run:
  assumes "table_row tp s its rs rid i"
  defines "h \<equiv> read_header (rs ! i)"
  obtains u where "TP_MarkDead rid tp s = (Inr (), u)"
    "table_ok tp u (if rh_flags h AND RECORD_DEL = 0 \<and> rh_flags h AND RECORD_DEAD = 0
       then add_rows (tp_table tp) (- 1) its else its)
       (rs[i := with_header (h\<lparr>rh_flags := rh_flags h OR RECORD_DEAD\<rparr>) (rs ! i)])"
    "pg_dirty (frame_of (tp_frame tp) (st_bm u))" "keeps {META_PAGE_ID, tp_page_id tp} s u"
proof -
  note r = table_rowD [OF assms(1)]
  let ?fl = "rh_flags h OR 2" and ?b = "rh_flags h AND 1 = 0 \<and> rh_flags h AND 2 = 0"
  let ?r = "poke 20 (le_bytes 2 ?fl) (rs ! i)"
  let ?t = "tput (tp_frame tp) (poke (rec_off rs i + 20) (le_bytes 2 ?fl) (tdata (tp_frame tp) s)) s"
  have t: "tp_write (tp_frame tp) (rec_off rs i + 20) (le_bytes 2 ?fl) s = (Inr (), ?t)"
    using r(4,5) by (intro tp_write_run [OF r(2)]) simp
  have tk: "table_ok tp ?t its (rs[i := ?r])" "keeps {tp_page_id tp} s ?t"
    using r(4) table_ok_poke [OF assms(1), of 20 "le_bytes 2 ?fl"] by simp_all
  have "?r = with_header (h\<lparr>rh_flags := ?fl\<rparr>) (rs ! i)"
  proof -
    have "with_header (h\<lparr>rh_flags := ?fl\<rparr>) (rs ! i) = poke 20 (le_bytes 2 ?fl) (poke 0 (header_bytes h) (rs ! i))"
      using poke_poke_adjacent [of 0 "le_bytes 8 (rh_trx_id h) @ le_bytes 8 (up_page (rh_roll_ptr h)) @ le_bytes 4 (up_slot (rh_roll_ptr h))"
          "le_bytes 2 ?fl" "poke 0 (header_bytes h) (rs ! i)"] r(4)
      by (simp add: with_header_def header_bytes_def poke_def)
    then show ?thesis using with_header_same [OF r(4)] by (simp add: with_header_def h_def)
  qed
  note tk = tk [unfolded this]
  obtain u where u: "thn (on_cond ?b (MP_UpdateTableRows (tp_table tp) (- 1))) (tp_dirty (tp_frame tp)) ?t = (Inr (), u)"
    "table_ok tp u (if ?b then add_rows (tp_table tp) (- 1) its else its) (rs[i := with_header (h\<lparr>rh_flags := ?fl\<rparr>) (rs ! i)])"
    "pg_dirty (frame_of (tp_frame tp) (st_bm u))" "keeps {META_PAGE_ID, tp_page_id tp} ?t u"
    by (rule cond_rows_dirty [OF tk(1)])
  have "TP_MarkDead rid tp s = (Inr (), u)"
    using t u(1) r(6-8) by (simp add: TP_MarkDead_def Let_def comp_simps h_def)
  then show ?thesis using that u(2,3) keeps_trans [OF tk(2) u(4)] by blast
qed

section \<open>Opening a page\<close>

lemma slot_sizes_run:
  assumes "theld pid f s" "page_layout tp rs (tdata f s)" "k + j = length rs"
  shows "slot_sizes f k (Suc j) acc s = (Inr (acc + word_of_nat (length (concat (drop j rs)))), s)"
  using assms(3)
proof (induction k arbitrary: j acc)
  case 0
  then show ?case by (simp add: comp_simps)
next
  case (Suc k)
  then have j: "j < length rs" by simp
  note row = page_layout_row [OF assms(2) j]
  let ?row = "word_of_nat (Suc j) :: u64"
  have "4 * Suc j \<le> 4096" using row(3) j by simp
  then have u: "unat ?row = Suc j" by (intro unat_small) simp
  have "tp_read f (SlotOffset ?row + 2) 2 s = (Inr (word_of_nat (length (rs ! j)) :: u16), s)"
    by (rule slot_read(2) [OF assms(1,2) j u])
  moreover have "unat (4096 - ?row * 4 + 2) = SlotOffset ?row + 2"
  proof -
    have so: "SlotOffset ?row = 4096 - 4 * Suc j" using u \<open>4 * Suc j \<le> 4096\<close> by (rule SlotOffset_row)
    have two: "unat (2 :: u64) = 2" by simp
    have "unat (4096 - ?row * 4) + unat (2 :: u64) < 2 ^ 64" using so unfolding SlotOffset_def two by simp
    then show ?thesis unfolding SlotOffset_def by (subst unat_add_u64) simp_all
  qed
  moreover have "ucast (word_of_nat (length (rs ! j)) :: u16) = (word_of_nat (length (rs ! j)) :: u32)"
    using slot_read(4) [OF assms(1,2) j u] row(3) by (simp add: word_unat_eq_iff unat_u32_small)
  moreover have "drop j rs = rs ! j # drop (Suc j) rs" using j by (simp add: Cons_nth_drop_Suc)
  ultimately show ?case using Suc.IH [of "Suc j"] Suc.prems by (simp add: comp_simps add.assoc del: of_nat_Suc)
qed

lemma TablePage_open_run:
  assumes "theld pid (tp_frame tp) s" "page_layout tp rs (tdata (tp_frame tp) s)"
  shows "TablePage_new (tp_table tp) (tp_frame tp) True s = (Inr tp, s)"
proof -
  let ?f = "tp_frame tp"
  have lay: "holds_at 0 (tp_header tp) (tdata ?f s)" "tp_num_rows tp = word_of_nat (length rs)"
    "32 + length (concat rs) + 4 * length rs + unat (tp_free tp) = 4096" using assms(2) by (simp_all add: page_layout_def)
  have h: "holds_at 0 (le_bytes 2 (tp_version tp)) (tdata ?f s)" "holds_at 2 (le_bytes 4 (tp_num_rows tp)) (tdata ?f s)"
    "holds_at 6 (le_bytes 8 (tp_page_id tp)) (tdata ?f s)" "holds_at 14 (le_bytes 8 (tp_next tp)) (tdata ?f s)"
    "holds_at 22 (le_bytes 8 (tp_lsn tp)) (tdata ?f s)"
    using lay(1) unfolding tp_header_def holds_at_append length_le_bytes by (simp_all add: numeral_2_eq_2 [symmetric])
  have rd: "tp_read ?f 0 2 s = (Inr (tp_version tp), s)" "tp_read ?f 2 4 s = (Inr (tp_num_rows tp), s)"
    "tp_read ?f 6 8 s = (Inr (tp_page_id tp), s)" "tp_read ?f 14 8 s = (Inr (tp_next tp), s)"
    "tp_read ?f 22 8 s = (Inr (tp_lsn tp), s)"
    by (rule tp_read_word [OF assms(1)], fact h, simp)+
  have n: "unat (tp_num_rows tp) = length rs" using lay(2,3) by (simp add: unat_u32_small)
  have sz: "slot_sizes ?f (length rs) 1 0 s = (Inr (word_of_nat (length (concat rs))), s)"
    using slot_sizes_run [OF assms, of "length rs" 0 0] by simp
  have free: "4064 - (4 * tp_num_rows tp + word_of_nat (length (concat rs))) = tp_free tp"
  proof -
    have "4 * tp_num_rows tp + word_of_nat (length (concat rs)) + tp_free tp =
        word_of_nat (4 * length rs + length (concat rs) + unat (tp_free tp))" by (simp add: lay(2))
    also have "4 * length rs + length (concat rs) + unat (tp_free tp) = 4064" using lay(3) by simp
    finally show ?thesis by (simp add: algebra_simps)
  qed
  show ?thesis using rd n sz free by (simp add: TablePage_new_def comp_simps)
qed

lemma TablePage_init_run:
  assumes "theld pid f s" "pid \<noteq> META_PAGE_ID" "meta_rep s its" "table \<in> mi_id ` set its"
  obtains tp u where "TablePage_new table f False s = (Inr tp, u)" "table_ok tp u its []" "tp_page_id tp = pid"
    "tp_frame tp = f" "tp_table tp = table" "unat (tp_free tp) = PAGE_SIZE - HEADER_SIZE" "tp_next tp = 0" "tp_lsn tp = 0"
    "pg_dirty (frame_of f (st_bm u))" "keeps {pid} s u" "tab_only f s u"
proof -
  let ?tp = "\<lparr>tp_table = table, tp_frame = f, tp_version = 0, tp_num_rows = 0, tp_page_id = pid, tp_next = 0,
    tp_lsn = 0, tp_free = 4064\<rparr>"
  let ?d = "poke 0 (tp_header ?tp) (tdata f s)"
  have l: "length (tdata f s) = PAGE_SIZE" by (rule heldD(5) [OF assms(1)])
  then have ld: "length ?d = PAGE_SIZE" by simp
  have neq: "f \<noteq> mp_frame (st_meta s)" using held_inj [OF assms(1) _ assms(2)] assms(3) by (simp add: meta_rep_def store_ok_def)
  have lay: "page_layout ?tp [] ?d" using l ld by (auto simp: page_layout_def intro!: holds_at_poke_same)
  note p = tput_facts [OF assms(1) ld]
  have "table_ok ?tp (tput f ?d s) its []"
    using p lay assms(2,4) meta_rep_tab_only [OF assms(3) p(1) neq] by (simp add: table_ok_def)
  note d1 = table_ok_tdirty [OF this, simplified]
  note d2 = table_ok_tdirty [OF d1(1), simplified]
  let ?u = "tdirty f (tdirty f (tput f ?d s))"
  have "TablePage_new table f False s = (Inr ?tp, ?u)"
    using heldD(6) [OF assms(1)] WriteHeader_run [of pid ?tp s] assms(1) by (simp add: TablePage_new_def Let_def comp_simps)
  moreover have t: "tab_only f s ?u"
    using tab_only_trans [OF tab_only_trans [OF p(1) tdirty_facts(1) [OF p(2)]] tdirty_facts(1) [OF tdirty_facts(2) [OF p(2)]]] .
  ultimately show ?thesis using that d2 tab_only_keeps [OF t assms(1)] by simp
qed

section \<open>What a client of a record page relies on\<close>

text \<open>
  The interface a heap file needs from its pages: records are addressed by their number, an insertion
  appends while there is room and otherwise changes nothing.  \<open>rep p s rs\<close> says that page \<open>p\<close> holds the
  records \<open>rs\<close>; \<open>room p\<close> is the number of free bytes, of which a record of \<open>n\<close> bytes takes \<open>n + 4\<close>.
\<close>

fun ins_all :: "('p \<Rightarrow> bytes \<Rightarrow> ('s, 'p \<times> nat option) comp) \<Rightarrow> bytes list \<Rightarrow> 'p \<Rightarrow> ('s, 'p) comp" where
  "ins_all ins [] p = ret p"
| "ins_all ins (r # rs) p = bnd (ins p r) (\<lambda>(p', _). ins_all ins rs p')"

fun get_all :: "('p \<Rightarrow> nat \<Rightarrow> ('s, bytes) comp) \<Rightarrow> nat list \<Rightarrow> 'p \<Rightarrow> ('s, bytes list) comp" where
  "get_all get [] p = ret []"
| "get_all get (n # ns) p = bnd (get p n) (\<lambda>r. bnd (get_all get ns p) (\<lambda>rs. ret (r # rs)))"

definition need :: "bytes list \<Rightarrow> nat" where
  "need rs = length (concat rs) + SLOT_SIZE * length rs"

locale record_page =
  fixes rep :: "'p \<Rightarrow> 's \<Rightarrow> bytes list \<Rightarrow> bool" and room :: "'p \<Rightarrow> nat"
    and ins :: "'p \<Rightarrow> bytes \<Rightarrow> ('s, 'p \<times> nat option) comp" and get :: "'p \<Rightarrow> nat \<Rightarrow> ('s, bytes) comp"
  assumes get_rep: "rep p s rs \<Longrightarrow> i < length rs \<Longrightarrow> get p (Suc i) s = (Inr (rs ! i), s)"
    and ins_room: "rep p s rs \<Longrightarrow> length r + SLOT_SIZE \<le> room p \<Longrightarrow>
      \<exists>p' s'. ins p r s = (Inr (p', Some (Suc (length rs))), s') \<and> rep p' s' (rs @ [r]) \<and> room p' = room p - (length r + SLOT_SIZE)"
    and ins_full: "rep p s rs \<Longrightarrow> length r < 2 ^ 16 \<Longrightarrow> room p < length r + SLOT_SIZE \<Longrightarrow> ins p r s = (Inr (p, None), s)"
begin

lemma ins_all_rep:
  "rep p s rs \<Longrightarrow> need qs \<le> room p \<Longrightarrow>
   \<exists>p' s'. ins_all ins qs p s = (Inr p', s') \<and> rep p' s' (rs @ qs) \<and> room p' = room p - need qs"
proof (induction qs arbitrary: p s rs)
  case Nil
  then show ?case by (simp add: comp_simps need_def)
next
  case (Cons q qs)
  then have "length q + SLOT_SIZE \<le> room p" by (simp add: need_def)
  from ins_room [OF Cons.prems(1) this] obtain p' s' where
    1: "ins p q s = (Inr (p', Some (Suc (length rs))), s')" "rep p' s' (rs @ [q])" "room p' = room p - (length q + SLOT_SIZE)"
    by blast
  have n: "need (q # qs) = length q + SLOT_SIZE + need qs" by (simp add: need_def)
  from Cons.IH [OF 1(2)] Cons.prems(2) 1 show ?case by (auto simp: comp_simps n)
qed

lemma get_all_rep:
  "rep p s rs \<Longrightarrow> \<forall>n\<in>set ns. 0 < n \<and> n \<le> length rs \<Longrightarrow> get_all get ns p s = (Inr (map (\<lambda>n. rs ! (n - 1)) ns), s)"
proof (induction ns)
  case (Cons n ns)
  then have "get p n s = (Inr (rs ! (n - 1)), s)" using get_rep [of p s rs "n - 1"] by (cases n) simp_all
  with Cons show ?case by (simp add: comp_simps)
qed (simp add: comp_simps)

lemma scan_rep: "rep p s rs \<Longrightarrow> get_all get [1..<Suc (length rs)] p s = (Inr rs, s)"
proof -
  assume "rep p s rs"
  moreover have "map (\<lambda>n. rs ! (n - 1)) [1..<Suc (length rs)] = rs" by (rule nth_equalityI) (simp_all del: upt_Suc)
  moreover have "\<forall>n\<in>set [1..<Suc (length rs)]. 0 < n \<and> n \<le> length rs" by (simp del: upt_Suc)
  ultimately show ?thesis using get_all_rep [of p s rs "[1..<Suc (length rs)]"] by (simp only:)
qed

end

text \<open>The table page provides this interface.\<close>

definition raw_tuple :: "bytes \<Rightarrow> Tuple" where
  "raw_tuple r = Tuple_new\<lparr>t_data := Some r, t_size := word_of_nat (length r)\<rparr>"

definition page_ins :: "TablePage \<Rightarrow> bytes \<Rightarrow> (Store, TablePage \<times> nat option) comp" where
  "page_ins tp r = bnd (TP_InsertTuple (raw_tuple r) tp) (\<lambda>(tp', rid). ret (tp', map_option (\<lambda>x. unat (rid_row x)) rid))"

definition page_get :: "TablePage \<Rightarrow> nat \<Rightarrow> (Store, bytes) comp" where
  "page_get tp n = bnd (TP_GetTuple \<lparr>rid_page = tp_page_id tp, rid_row = word_of_nat n\<rparr> tp Tuple_new)
     (\<lambda>t. case t_data t of Some d \<Rightarrow> ret d | None \<Rightarrow> throw MemoryFault)"

definition holds_records :: "TablePage \<Rightarrow> Store \<Rightarrow> bytes list \<Rightarrow> bool" where
  "holds_records tp s rs \<longleftrightarrow> (\<exists>its. table_ok tp s its rs)"

lemma table_rows_bound: "table_ok tp s its rs \<Longrightarrow> need rs + unat (tp_free tp) = PAGE_SIZE - HEADER_SIZE"
  using table_okD(4) [of tp s its rs] by (simp add: page_layout_def need_def)

lemma page_ins_room:
  assumes "holds_records tp s rs" "length r + SLOT_SIZE \<le> unat (tp_free tp)"
  shows "\<exists>tp' s'. page_ins tp r s = (Inr (tp', Some (Suc (length rs))), s') \<and> holds_records tp' s' (rs @ [r]) \<and>
    unat (tp_free tp') = unat (tp_free tp) - (length r + SLOT_SIZE)"
proof -
  obtain its where ok: "table_ok tp s its rs" using assms(1) by (auto simp: holds_records_def)
  note b = table_rows_bound [OF ok]
  have t: "tuple_holds (raw_tuple r) r"
    using assms(2) b by (simp add: tuple_holds_def raw_tuple_def unat_u16_small)
  obtain u where u: "TP_InsertTuple (raw_tuple r) tp s = (Inr (inserted (raw_tuple r) tp,
      Some \<lparr>rid_page = tp_page_id tp, rid_row = word_of_nat (Suc (length rs))\<rparr>), u)"
    "table_ok (inserted (raw_tuple r) tp) u (add_rows (tp_table tp) 1 its) (rs @ [r])"
    by (rule InsertTuple_run [OF ok t assms(2)])
  have "unat (word_of_nat (Suc (length rs)) :: u64) = Suc (length rs)"
    using b assms(2) by (intro unat_small) (simp add: need_def)
  then have run: "page_ins tp r s = (Inr (inserted (raw_tuple r) tp, Some (Suc (length rs))), u)"
    using u(1) by (simp add: page_ins_def comp_simps)
  have "need (rs @ [r]) + unat (tp_free (inserted (raw_tuple r) tp)) = need rs + unat (tp_free tp)"
    using b table_rows_bound [OF u(2)] by simp
  then show ?thesis using run u(2) by (auto simp: holds_records_def need_def)
qed

interpretation tpage: record_page holds_records "\<lambda>tp. unat (tp_free tp)" page_ins page_get
proof
  show "page_get tp (Suc i) s = (Inr (rs ! i), s)" if r: "holds_records tp s rs" and i: "i < length rs" for tp s rs i
  proof -
    obtain its where ok: "table_ok tp s its rs" using r by (auto simp: holds_records_def)
    have "unat (word_of_nat (Suc i) :: u64) = Suc i"
      using table_rows_bound [OF ok] i by (intro unat_small) (simp add: need_def)
    then show ?thesis
      using GetTuple_run [OF table_okD(1,4) [OF ok] i] by (simp add: page_get_def comp_simps)
  qed
  show "page_ins tp r s = (Inr (tp, None), s)"
    if "length r < 2 ^ 16" "unat (tp_free tp) < length r + SLOT_SIZE" for tp r s
    using that InsertTuple_full [of tp "raw_tuple r" s]
    by (simp add: page_ins_def comp_simps raw_tuple_def unat_of_nat take_bit_eq_mod)
qed (rule page_ins_room)

lemma deleted_flag: "(x OR 1) AND 1 \<noteq> (0 :: u16)"
proof
  assume "(x OR 1) AND 1 = 0"
  then have "bit ((x OR 1) AND 1) 0 = bit (0 :: u16) 0" by simp
  then show False by (simp add: bit_simps)
qed

section \<open>Allocating a table page\<close>

lemma store_NewPage:
  assumes rep: "meta_rep s its" and free: "bm_free (st_bm s) \<noteq> []" and new: "bm_pages (st_bm s) (bm_next_id (st_bm s)) = None"
    and addr: "addressable (bm_next_id (st_bm s))"
  obtains f t where "in_bm BM_NewPage s = (Inr f, t)" "theld (bm_next_id (st_bm s)) f t" "meta_rep t its"
    "q \<noteq> bm_next_id (st_bm s) \<Longrightarrow> page_content (st_bm s) q = Some bs \<Longrightarrow> page_content (st_bm t) q = Some bs" "bm_next_id (st_bm t) = bm_next_id (st_bm s) + 1"
    "st_meta t = st_meta s" "ready (bm_disk (st_bm s)) \<longrightarrow> ready (bm_disk (st_bm t))"
proof -
  let ?b = "st_bm s" and ?f = "last (bm_free (st_bm s))"
  let ?t = "s\<lparr>st_bm := allocated ?f ?b\<rparr>"
  have ok: "store_ok s" using rep by (simp add: meta_rep_def)
  then have inv: "bm_inv ?b" and m: "bm_pages ?b 0 = Some (mp_frame (st_meta s))" by (simp_all add: store_ok_def held_def)
  note lf = last_free [OF inv free]
  have neq: "mp_frame (st_meta s) \<noteq> ?f" using lf(4) m by (auto simp: ran_def)
  have n0: "bm_next_id ?b \<noteq> 0" using new m by auto
  have run: "in_bm BM_NewPage s = (Inr ?f, ?t)" using BM_NewPage_run [OF inv free] by (simp add: comp_simps)
  have inv': "bm_inv (allocated ?f ?b)" by (rule bm_inv_allocated [OF inv free new addr])
  have flds: "bm_pages (allocated ?f ?b) = (bm_pages ?b)(bm_next_id ?b \<mapsto> ?f)" "bm_next_id (allocated ?f ?b) = bm_next_id ?b + 1"
    "bm_disk (allocated ?f ?b) = bm_disk ?b" "g \<noteq> ?f \<Longrightarrow> frame_of g (allocated ?f ?b) = frame_of g ?b" for g
    using lf(1) bm_invD(3) [OF inv] by (simp_all add: allocated_def frame_simps)
  have "store_ok ?t" "mdata ?t = mdata s"
    using inv' m neq n0 flds by (simp_all add: store_ok_def held_def mdata_def fdata_def)
  then have "meta_rep ?t its" using rep by (simp add: meta_rep_def)
  moreover have "page_content (st_bm ?t) q = Some bs" if "q \<noteq> bm_next_id ?b" "page_content ?b q = Some bs" for q bs
    using page_content_allocated [OF inv free new] that by auto
  ultimately show ?thesis using that run inv' flds by (simp add: held_def)
qed

text \<open>A page of the demo table, as the code makes it.\<close>

lemma demo_page: "\<exists>tp s. table_ok tp s [demo_item] [] \<and> tp_table tp = 1 \<and> unat (tp_free tp) = 4064"
proof -
  obtain s where s: "meta_rep s [demo_item]" "bm_free (st_bm s) \<noteq> []" "bm_next_id (st_bm s) = 1" "bm_pages (st_bm s) 1 = None"
    using demo_store by blast
  obtain f t where t: "theld 1 f t" "meta_rep t [demo_item]"
    by (rule store_NewPage [OF s(1,2)]) (use s(3,4) in \<open>auto simp: addressable_def\<close>)
  show ?thesis
    by (rule TablePage_init_run [OF t(1) _ t(2), of 1]) (auto simp: demo_item_def)
qed

lemma demo_row: "\<exists>tp s. table_row tp s (add_rows 1 1 [demo_item]) [replicate 24 0] \<lparr>rid_page = 1, rid_row = 1\<rparr> 0"
proof -
  obtain tp s where p: "table_ok tp s [demo_item] []" "unat (tp_free tp) = 4064" "tp_table tp = 1" using demo_page by blast
  have t: "tuple_holds (raw_tuple (replicate 24 0)) (replicate 24 0)" by (simp add: tuple_holds_def raw_tuple_def)
  have "length (replicate 24 (0 :: byte)) + SLOT_SIZE \<le> unat (tp_free tp)" by (simp add: p(2))
  then obtain u where "table_ok (inserted (raw_tuple (replicate 24 0)) tp) u (add_rows 1 1 [demo_item]) ([] @ [replicate 24 0])"
    using InsertTuple_run [OF p(1) t] p(3) by metis
  then show ?thesis by (auto simp: table_row_def)
qed

lemma demo_row_header: "read_header (replicate 24 0) = \<lparr>rh_trx_id = 0, rh_roll_ptr = \<lparr>up_page = 0, up_slot = 0\<rparr>, rh_flags = 0\<rparr>"
proof -
  have "nat_of_bytes (replicate n 0) = 0" for n by (induction n) simp_all
  then show ?thesis by (simp add: read_header_def peek_def le_word_def)
qed

lemma demo_row_flags: "rh_flags (read_header (replicate 24 0)) = 0"
  by (simp add: demo_row_header)

section \<open>Properties\<close>

text \<open>A table page is an append-only list of records: as long as the records (and their slots) fit
  into the free bytes, inserting them one after the other succeeds, keeps all records already there,
  and a scan of the rows afterwards returns the old and the new records in order.\<close>

lemma page_insert_scan:
  assumes "table_ok tp s its rs" "need qs \<le> unat (tp_free tp)"
  shows "\<exists>tp' s'. ins_all page_ins qs tp s = (Inr tp', s') \<and> unat (tp_free tp') = unat (tp_free tp) - need qs \<and>
    get_all page_get [1..<Suc (length (rs @ qs))] tp' s' = (Inr (rs @ qs), s')"
proof -
  have "holds_records tp s rs" using assms(1) by (auto simp: holds_records_def)
  from tpage.ins_all_rep [OF this assms(2)] obtain tp' s' where
    "ins_all page_ins qs tp s = (Inr tp', s')" "holds_records tp' s' (rs @ qs)" "unat (tp_free tp') = unat (tp_free tp) - need qs"
    by blast
  then show ?thesis using tpage.scan_rep by blast
qed

theorem page_insert_scan_witness:
  "\<exists>tp s tp' s'. table_ok tp s [demo_item] [] \<and> ins_all page_ins [[1, 2], [3]] tp s = (Inr tp', s') \<and>
     get_all page_get [1..<3] tp' s' = (Inr [[1, 2], [3]], s')"
proof -
  obtain tp s where p: "table_ok tp s [demo_item] []" "unat (tp_free tp) = 4064" using demo_page by blast
  have "need [[1, 2], [3]] \<le> unat (tp_free tp)" by (simp add: p(2) need_def)
  moreover have "[1..<Suc (length ([] @ [[1, 2], [3 :: byte]]))] = [1..<3]" by (simp add: numeral_3_eq_3)
  ultimately show ?thesis using page_insert_scan [OF p(1), of "[[1, 2], [3]]"] p(1) by (metis append_Nil)
qed

text \<open>C17. \<open>InsertTuple\<close> on every branch: it returns false and changes nothing exactly when the record and
  its slot do not fit into the free bytes; otherwise the record becomes the last row, the catalog
  counts one more row of the table, the page is marked dirty and no page but this one and page 0 changes.\<close>

theorem page_insert_spec:
  assumes "table_ok tp s its rs" "tuple_holds t r"
  shows "(TP_HasSpaceFor (t_size t) tp \<and> (\<exists>u. TP_InsertTuple t tp s =
        (Inr (inserted t tp, Some \<lparr>rid_page = tp_page_id tp, rid_row = word_of_nat (Suc (length rs))\<rparr>), u) \<and>
      table_ok (inserted t tp) u (add_rows (tp_table tp) 1 its) (rs @ [r]) \<and>
      pg_dirty (frame_of (tp_frame tp) (st_bm u)) \<and> keeps {META_PAGE_ID, tp_page_id tp} s u)) \<or>
    (\<not> TP_HasSpaceFor (t_size t) tp \<and> TP_InsertTuple t tp s = (Inr (tp, None), s))"
proof (cases "TP_HasSpaceFor (t_size t) tp")
  case True
  then have "length r + SLOT_SIZE \<le> unat (tp_free tp)" using assms(2) by (simp add: TP_HasSpaceFor_def tuple_holds_def)
  from InsertTuple_run [OF assms this] True show ?thesis by blast
next
  case False
  then show ?thesis using InsertTuple_full [of tp t s] by (simp add: TP_HasSpaceFor_def)
qed

theorem page_insert_spec_witness:
  "\<exists>tp s u. table_ok tp s [demo_item] [] \<and>
     TP_InsertTuple (raw_tuple [7]) tp s = (Inr (inserted (raw_tuple [7]) tp, Some \<lparr>rid_page = tp_page_id tp, rid_row = 1\<rparr>), u) \<and>
     table_ok (inserted (raw_tuple [7]) tp) u (add_rows 1 1 [demo_item]) [[7]]"
proof -
  obtain tp s where p: "table_ok tp s [demo_item] []" "unat (tp_free tp) = 4064" "tp_table tp = 1" using demo_page by blast
  have t: "tuple_holds (raw_tuple [7]) [7]" by (simp add: tuple_holds_def raw_tuple_def)
  have "TP_HasSpaceFor (t_size (raw_tuple [7])) tp" by (simp add: TP_HasSpaceFor_def raw_tuple_def p(2))
  with page_insert_spec [OF p(1) t] p(1,3) show ?thesis by auto
qed

text \<open>Reopening a page from its bytes reconstructs the object exactly, the number of free bytes included.\<close>

theorem page_reopen:
  assumes "table_ok tp s its rs"
  shows "TablePage_new (tp_table tp) (tp_frame tp) True s = (Inr tp, s)"
  by (rule TablePage_open_run [OF table_okD(1,4) [OF assms]])

theorem page_reopen_witness:
  "\<exists>tp s. table_ok tp s [demo_item] [] \<and> TablePage_new (tp_table tp) (tp_frame tp) True s = (Inr tp, s)"
  using demo_page page_reopen by blast

text \<open>Marking a row deleted writes the deleting transaction and the undo pointer into its header, sets
  the delete flag and keeps the payload and every other row; a second deletion changes nothing.\<close>

theorem mark_delete_spec:
  assumes "table_row tp s its rs rid i" "rh_flags (read_header (rs ! i)) AND RECORD_DEL = 0"
  shows "\<exists>u. TP_MarkDelete rid trx ptr tp s = (Inr (), u) \<and>
    table_row tp u (add_rows (tp_table tp) (- 1) its) (rs[i := with_header \<lparr>rh_trx_id = trx, rh_roll_ptr = ptr,
       rh_flags = rh_flags (read_header (rs ! i)) OR RECORD_DEL\<rparr> (rs ! i)]) rid i \<and>
    (\<forall>trx' ptr'. TP_MarkDelete rid trx' ptr' tp u = (Inr (), u)) \<and> keeps {META_PAGE_ID, tp_page_id tp} s u"
proof -
  note r = table_rowD [OF assms(1)]
  obtain u where u: "TP_MarkDelete rid trx ptr tp s = (Inr (), u)"
    "table_ok tp u (add_rows (tp_table tp) (- 1) its) (rs[i := with_header \<lparr>rh_trx_id = trx, rh_roll_ptr = ptr,
       rh_flags = rh_flags (read_header (rs ! i)) OR RECORD_DEL\<rparr> (rs ! i)])" "keeps {META_PAGE_ID, tp_page_id tp} s u"
    by (rule MarkDelete_run [OF assms])
  then have row: "table_row tp u (add_rows (tp_table tp) (- 1) its) (rs[i := with_header \<lparr>rh_trx_id = trx, rh_roll_ptr = ptr,
       rh_flags = rh_flags (read_header (rs ! i)) OR RECORD_DEL\<rparr> (rs ! i)]) rid i"
    using assms(1) r by (simp add: table_row_def)
  have "TP_MarkDelete rid trx' ptr' tp u = (Inr (), u)" for trx' ptr'
    using r by (intro MarkDelete_again [OF row]) (simp add: read_with_header deleted_flag)
  then show ?thesis using u row by blast
qed

theorem mark_delete_spec_witness:
  "\<exists>tp s u. table_row tp s (add_rows 1 1 [demo_item]) [replicate 24 0] \<lparr>rid_page = 1, rid_row = 1\<rparr> 0 \<and>
     TP_MarkDelete \<lparr>rid_page = 1, rid_row = 1\<rparr> 9 null_ptr tp s = (Inr (), u)"
proof -
  obtain tp s where p: "table_row tp s (add_rows 1 1 [demo_item]) [replicate 24 0] \<lparr>rid_page = 1, rid_row = 1\<rparr> 0"
    using demo_row by blast
  have "rh_flags (read_header ([replicate 24 0] ! 0)) AND RECORD_DEL = 0" by (simp add: demo_row_flags)
  from mark_delete_spec [OF p this] p show ?thesis by blast
qed

text \<open>C29. Undoing a deletion: restoring the header a row had before \<open>MarkDelete\<close> gives back the page
  with exactly the records it had, and the catalog with the row counts it had (for a table whose
  count was positive).\<close>

theorem delete_restore_roundtrip:
  assumes "table_row tp s its rs rid i" "h = read_header (rs ! i)" "rh_flags h AND RECORD_DEL = 0"
    and "\<forall>it\<in>set its. mi_id it = tp_table tp \<longrightarrow> 0 < mi_rows it"
  shows "\<exists>u v. TP_MarkDelete rid trx ptr tp s = (Inr (), u) \<and>
    TP_RestoreRecord rid (rh_trx_id h) (rh_roll_ptr h) (rh_flags h) tp u = (Inr (), v) \<and> table_ok tp v its rs"
proof -
  note r = table_rowD [OF assms(1)]
  let ?q = "with_header \<lparr>rh_trx_id = trx, rh_roll_ptr = ptr, rh_flags = rh_flags h OR 1\<rparr> (rs ! i)"
  obtain u where u: "TP_MarkDelete rid trx ptr tp s = (Inr (), u)"
    "table_ok tp u (add_rows (tp_table tp) (- 1) its) (rs[i := ?q])"
    using MarkDelete_run [OF assms(1)] assms(2,3) by metis
  then have row: "table_row tp u (add_rows (tp_table tp) (- 1) its) (rs[i := ?q]) rid i"
    using assms(1) r by (simp add: table_row_def)
  have eta: "\<lparr>rh_trx_id = rh_trx_id h, rh_roll_ptr = rh_roll_ptr h, rh_flags = rh_flags h\<rparr> = h" by simp
  obtain v where v: "TP_RestoreRecord rid (rh_trx_id h) (rh_roll_ptr h) (rh_flags h) tp u = (Inr (), v)"
    "table_ok tp v (add_rows (tp_table tp) 1 (add_rows (tp_table tp) (- 1) its)) (rs[i := with_header h (rs ! i)])"
    by (rule RestoreRecord_run [OF row, of "rh_trx_id h" "rh_roll_ptr h" "rh_flags h"])
      (use r assms(3) eta in \<open>simp add: read_with_header with_header_twice deleted_flag\<close>)
  have "rows_after (rows_after n (- 1)) 1 = n" if "0 < n" for n :: u64
    using that by (auto simp: rows_after_def word_less_nat_alt)
  then have "add_rows (tp_table tp) 1 (add_rows (tp_table tp) (- 1) its) = its"
    using assms(4) by (auto simp: add_rows_def intro!: map_idI)
  moreover have "with_header h (rs ! i) = rs ! i" using with_header_same [OF r(4)] assms(2) by simp
  ultimately show ?thesis using u v by (auto simp: list_update_id)
qed

theorem delete_restore_roundtrip_witness:
  "\<exists>tp s u v. table_row tp s (add_rows 1 1 [demo_item]) [replicate 24 0] \<lparr>rid_page = 1, rid_row = 1\<rparr> 0 \<and>
     TP_MarkDelete \<lparr>rid_page = 1, rid_row = 1\<rparr> 9 null_ptr tp s = (Inr (), u) \<and>
     TP_RestoreRecord \<lparr>rid_page = 1, rid_row = 1\<rparr> 0 null_ptr 0 tp u = (Inr (), v) \<and>
     table_ok tp v (add_rows 1 1 [demo_item]) [replicate 24 0]"
proof -
  obtain tp s where p: "table_row tp s (add_rows 1 1 [demo_item]) [replicate 24 0] \<lparr>rid_page = 1, rid_row = 1\<rparr> 0"
    using demo_row by blast
  have "read_header (replicate 24 0) = \<lparr>rh_trx_id = 0, rh_roll_ptr = null_ptr, rh_flags = 0\<rparr>"
    using demo_row_header by simp
  moreover have "\<forall>it\<in>set (add_rows 1 1 [demo_item]). mi_id it = tp_table tp \<longrightarrow> 0 < mi_rows it"
    by (simp add: add_rows_def demo_item_def rows_after_def)
  ultimately show ?thesis using delete_restore_roundtrip [OF p refl] p by fastforce
qed

end
