(* ===== verification/Undo_Log.thy ===== *)
theory Undo_Log
  imports Page_Session Row_Codec
begin

text \<open>
  The undo log of \<^verbatim>\<open>transaction/undo_log.cpp\<close> and \<^verbatim>\<open>transaction/undo_log_manager.cpp\<close>: old versions of
  records, appended to undo pages that are fetched, written and released one at a time.  A record is
  \<open>old_roll_ptr | old_trx_id | payload_size | payload\<close>; it is addressed by page and byte offset.  Shown: a
  version appended to the log is read back unchanged, now and after any number of further appends.
\<close>

section \<open>Undo pages\<close>

datatype UndoType = UT_INSERT | UT_UPDATE | UT_DELETE

record UndoLogRecord =
  ur_old_roll_ptr :: UndoPointer
  ur_old_trx_id :: tx_id_t
  ur_payload_size :: u32
  ur_payload :: bytes

record UndoLogPage =
  un_frame :: frame_id
  un_page_id :: page_id_t
  un_lsn :: lsn_t
  un_free :: u32

definition UndoLogPage_new :: "frame_id \<Rightarrow> UndoLogPage" where
  "UndoLogPage_new f = \<lparr>un_frame = f, un_page_id = 0, un_lsn = 0, un_free = 0\<rparr>"

definition UL_WriteHeader :: "UndoLogPage \<Rightarrow> (BufferManager, unit) comp" where
  "UL_WriteHeader un = (let f = un_frame un in
     thn (fr_write f 0 (le_bytes 8 (un_page_id un))) (thn (fr_write f 8 (le_bytes 8 (un_lsn un)))
     (thn (fr_write f 16 (le_bytes 4 (un_free un))) (fr_dirty f))))"

definition UL_InitNew :: "page_id_t \<Rightarrow> UndoLogPage \<Rightarrow> (BufferManager, UndoLogPage) comp" where
  "UL_InitNew pid un = (let un' = un\<lparr>un_page_id := pid, un_lsn := 0, un_free := 20\<rparr> in thn (UL_WriteHeader un') (ret un'))"

definition UL_Load :: "UndoLogPage \<Rightarrow> (BufferManager, UndoLogPage) comp" where
  "UL_Load un = (let f = un_frame un in
     bnd (fr_read f 0 8) (\<lambda>p. bnd (fr_read f 8 8) (\<lambda>l. bnd (fr_read f 16 4) (\<lambda>o4.
     (let off = le_word o4 :: u32 in
      ret (un\<lparr>un_page_id := le_word p, un_lsn := le_word l, un_free := (if off < 20 then 20 else off)\<rparr>))))))"

definition UL_HasSpaceFor :: "u32 \<Rightarrow> UndoLogPage \<Rightarrow> bool" where
  "UL_HasSpaceFor n un \<longleftrightarrow> un_free un + (24 + n) \<le> 4096"

definition UL_ReadRecord :: "u32 \<Rightarrow> UndoLogPage \<Rightarrow> (BufferManager, UndoLogRecord) comp" where
  "UL_ReadRecord slot un = (let f = un_frame un; off = unat slot in
     bnd (fr_read f off 8) (\<lambda>p. bnd (fr_read f (off + 8) 4) (\<lambda>k. bnd (fr_read f (off + 12) 8) (\<lambda>t.
     bnd (fr_read f (off + 20) 4) (\<lambda>n. (let sz = le_word n :: u32 in
     bnd (if 0 < sz then fr_read f (off + 24) (unat sz) else ret []) (\<lambda>pl.
     ret \<lparr>ur_old_roll_ptr = \<lparr>up_page = le_word p, up_slot = le_word k\<rparr>, ur_old_trx_id = le_word t,
          ur_payload_size = sz, ur_payload = pl\<rparr>)))))))"

text \<open>The payload pointer of the caller is \<open>payload\<close>; a null pointer with a positive size faults.\<close>

definition payload_bytes :: "bytes option \<Rightarrow> u32 \<Rightarrow> (BufferManager, bytes) comp" where
  "payload_bytes payload n = (case payload of
     None \<Rightarrow> throw MemoryFault | Some d \<Rightarrow> of_res (mem_read 0 (unat n) d))"

definition UL_AppendRecord ::
  "UndoPointer \<Rightarrow> tx_id_t \<Rightarrow> bytes option \<Rightarrow> u32 \<Rightarrow> UndoLogPage \<Rightarrow> (BufferManager, UndoLogPage \<times> u32 option) comp" where
  "UL_AppendRecord ptr trx payload n un =
     (if \<not> UL_HasSpaceFor n un then ret (un, None)
      else (let f = un_frame un; off = unat (un_free un); un' = un\<lparr>un_free := un_free un + (24 + n)\<rparr> in
        thn (fr_write f off (le_bytes 8 (up_page ptr))) (thn (fr_write f (off + 8) (le_bytes 4 (up_slot ptr)))
        (thn (fr_write f (off + 12) (le_bytes 8 trx)) (thn (fr_write f (off + 20) (le_bytes 4 n))
        (thn (if 0 < n then bnd (payload_bytes payload n) (\<lambda>d. fr_write f (off + 24) d) else ret ())
        (thn (UL_WriteHeader un') (thn (fr_dirty f) (ret (un', Some (un_free un)))))))))))"

section \<open>The manager\<close>

record UndoLogManager =
  ul_bm :: BufferManager
  ul_page :: page_id_t

definition ul_pool :: "(BufferManager, 'a) comp \<Rightarrow> (UndoLogManager, 'a) comp" where
  "ul_pool = zoom ul_bm (\<lambda>b u. u\<lparr>ul_bm := b\<rparr>)"

text \<open>A new page of the pool, initialised and made the current undo page.\<close>

definition ul_new_page :: "(UndoLogManager, UndoLogPage) comp" where
  "ul_new_page = bnd (ul_pool BM_NewPage) (\<lambda>f. bnd (gets (\<lambda>u. pg_id (frame_of f (ul_bm u)))) (\<lambda>i.
     bnd (ul_pool (UL_InitNew i (UndoLogPage_new f))) (\<lambda>un.
     thn (modify (\<lambda>u. u\<lparr>ul_page := i\<rparr>)) (ret un))))"

definition ul_release :: "UndoLogPage \<Rightarrow> (UndoLogManager, unit) comp" where
  "ul_release un = bnd (gets (\<lambda>u. pg_id (frame_of (un_frame un) (ul_bm u)))) (\<lambda>i. ul_pool (BM_Release i))"

definition ul_append :: "UndoPointer \<Rightarrow> tx_id_t \<Rightarrow> Tuple \<Rightarrow> UndoLogPage \<Rightarrow> (UndoLogManager, UndoPointer) comp" where
  "ul_append ptr trx t un1 = bnd (ul_pool (UL_AppendRecord ptr trx (t_data t) (ucast (t_size t)) un1)) (\<lambda>(un2, r).
     case r of
       None \<Rightarrow> thn (ul_release un2) (throw (RuntimeError ''UndoLogManager::AppendUndoRecord fail.''))
     | Some off \<Rightarrow> bnd (gets (\<lambda>u. pg_id (frame_of (un_frame un2) (ul_bm u)))) (\<lambda>i.
         thn (ul_release un2) (ret \<lparr>up_page = i, up_slot = off\<rparr>)))"

definition ULM_AppendUndoRecord :: "Tuple \<Rightarrow> tx_id_t \<Rightarrow> UndoPointer \<Rightarrow> (UndoLogManager, UndoPointer) comp" where
  "ULM_AppendUndoRecord t trx ptr = bnd (gets ul_page) (\<lambda>cur.
     bnd (if cur = INVALID_PAGE_ID then ul_new_page
          else bnd (ul_pool (BM_FetchPage cur)) (\<lambda>f. ul_pool (UL_Load (UndoLogPage_new f)))) (\<lambda>un.
     bnd (if UL_HasSpaceFor (ucast (t_size t)) un then ret un else thn (ul_release un) ul_new_page)
       (ul_append ptr trx t)))"

definition ULM_GetUndoRecord :: "UndoPointer \<Rightarrow> (UndoLogManager, Tuple) comp" where
  "ULM_GetUndoRecord p = bnd (ul_pool (BM_FetchPage (up_page p))) (\<lambda>f.
     bnd (ul_pool (UL_Load (UndoLogPage_new f))) (\<lambda>un.
     bnd (ul_pool (UL_ReadRecord (up_slot p) un)) (\<lambda>r.
     (let t = Tuple_new\<lparr>t_size := ucast (ur_payload_size r),
                t_data := (if 0 < ur_payload_size r then Some (ur_payload r) else None)\<rparr> in
      thn (ul_release un) (ret t)))))"

section \<open>Reading and writing a held undo page\<close>

definition undo_bytes :: "UndoPointer \<Rightarrow> tx_id_t \<Rightarrow> bytes \<Rightarrow> bytes" where
  "undo_bytes ptr trx pl = le_bytes 8 (up_page ptr) @ le_bytes 4 (up_slot ptr) @ le_bytes 8 trx @
     le_bytes 4 (word_of_nat (length pl) :: u32) @ pl"

definition undo_header :: "UndoLogPage \<Rightarrow> bytes" where
  "undo_header un = le_bytes 8 (un_page_id un) @ le_bytes 8 (un_lsn un) @ le_bytes 4 (un_free un)"

definition undo_layout :: "UndoLogPage \<Rightarrow> bytes \<Rightarrow> bool" where
  "undo_layout un d \<longleftrightarrow> length d = PAGE_SIZE \<and> holds_at 0 (undo_header un) d \<and> 20 \<le> unat (un_free un) \<and>
     unat (un_free un) \<le> PAGE_SIZE"

lemma length_undo [simp]: "length (undo_header un) = 20" "length (undo_bytes ptr trx pl) = 24 + length pl"
  by (simp_all add: undo_header_def undo_bytes_def)

lemma fr_read_holds:
  "held pid f b \<Longrightarrow> holds_at off bs (fdata f b) \<Longrightarrow> n = length bs \<Longrightarrow> fr_read f off n b = (Inr bs, b)"
  using holds_at_len [of off bs "fdata f b"] holds_at_peek [of off bs "fdata f b"] by (simp add: fr_read_run)

definition fdirty :: "frame_id \<Rightarrow> BufferManager \<Rightarrow> BufferManager" where
  "fdirty f b = on_frame f (\<lambda>p. p\<lparr>pg_dirty := True\<rparr>) b"

lemma fdirty_facts:
  assumes "held pid f b"
  shows "mem_only f b (fdirty f b)" "held pid f (fdirty f b)" "fdata f (fdirty f b) = fdata f b" "backed (fdirty f b) pid"
proof -
  show m: "mem_only f b (fdirty f b)" unfolding fdirty_def by (rule mem_only_dirty [OF assms])
  show "held pid f (fdirty f b)" by (rule mem_only_held [OF m assms])
  show "fdata f (fdirty f b) = fdata f b" unfolding fdirty_def by (rule fdata_dirty [OF assms])
  show "backed (fdirty f b) pid" using heldD(2,4) [OF assms] by (simp add: fdirty_def backed_def frame_simps)
qed

lemma put_facts:
  assumes "held pid f b" "length d = PAGE_SIZE"
  shows "mem_only f b (put f d b)" "held pid f (put f d b)" "fdata f (put f d b) = d"
  using mem_only_put [OF assms] mem_only_held [OF mem_only_put [OF assms] assms(1)] fdata_put [OF assms(1)] by auto

lemma put_write:
  assumes "held pid f b" "length d = PAGE_SIZE" "off + length bs \<le> PAGE_SIZE"
  shows "fr_write f off bs (put f d b) = (Inr (), put f (poke off bs d) b)"
  using fr_write_put [OF put_facts(2) [OF assms(1,2)] assms(3)] put_facts(3) [OF assms(1,2)] by simp

lemma UL_WriteHeader_run:
  assumes "held pid (un_frame un) b"
  shows "UL_WriteHeader un b = (Inr (), fdirty (un_frame un)
    (put (un_frame un) (poke 0 (undo_header un) (fdata (un_frame un) b)) b))"
proof -
  let ?f = "un_frame un" and ?d = "fdata (un_frame un) b"
  have l: "length ?d = PAGE_SIZE" by (rule heldD(5) [OF assms])
  have "poke 16 (le_bytes 4 (un_free un)) (poke 8 (le_bytes 8 (un_lsn un)) (poke 0 (le_bytes 8 (un_page_id un)) ?d)) = poke 0 (undo_header un) ?d"
    using poke_poke_adjacent [of 0 "le_bytes 8 (un_page_id un)" "le_bytes 8 (un_lsn un)" ?d]
      poke_poke_adjacent [of 0 "le_bytes 8 (un_page_id un) @ le_bytes 8 (un_lsn un)" "le_bytes 4 (un_free un)" ?d] l
    by (simp add: undo_header_def)
  then show ?thesis
    using l by (simp add: UL_WriteHeader_def Let_def comp_simps fr_write_put [OF assms] put_write [OF assms] fdirty_def)
qed

lemma UL_Load_run:
  assumes "held pid f b" "undo_layout un (fdata f b)" "un_frame un = f"
  shows "UL_Load (UndoLogPage_new f) b = (Inr un, b)"
proof -
  have h: "holds_at 0 (le_bytes 8 (un_page_id un)) (fdata f b)" "holds_at 8 (le_bytes 8 (un_lsn un)) (fdata f b)"
    "holds_at 16 (le_bytes 4 (un_free un)) (fdata f b)" "20 \<le> unat (un_free un)"
    using assms(2) by (simp_all add: undo_layout_def undo_header_def)
  have "\<not> un_free un < 20" using h(4) by (simp add: word_less_nat_alt)
  then show ?thesis
    using fr_read_holds [OF assms(1) h(1)] fr_read_holds [OF assms(1) h(2)] fr_read_holds [OF assms(1) h(3)] assms(3)
    by (simp add: UL_Load_def UndoLogPage_new_def Let_def comp_simps)
qed

lemma UL_ReadRecord_run:
  assumes "held pid (un_frame un) b" "holds_at (unat slot) (undo_bytes ptr trx pl) (fdata (un_frame un) b)"
  shows "UL_ReadRecord slot un b = (Inr \<lparr>ur_old_roll_ptr = ptr, ur_old_trx_id = trx,
    ur_payload_size = word_of_nat (length pl), ur_payload = pl\<rparr>, b)"
proof -
  let ?f = "un_frame un"
  note h = assms(2) [unfolded undo_bytes_def holds_at_append length_le_bytes]
  have len: "length pl \<le> 4096" using holds_at_len [OF assms(2)] heldD(5) [OF assms(1)] by simp
  then have n: "unat (word_of_nat (length pl) :: u32) = length pl" by (simp add: unat_of_nat take_bit_eq_mod)
  then have z: "0 < (word_of_nat (length pl) :: u32) \<longleftrightarrow> pl \<noteq> []" by (simp add: word_less_nat_alt)
  from h have "fr_read ?f (unat slot) 8 b = (Inr (le_bytes 8 (up_page ptr)), b)"
    "fr_read ?f (unat slot + 8) 4 b = (Inr (le_bytes 4 (up_slot ptr)), b)"
    "fr_read ?f (unat slot + 12) 8 b = (Inr (le_bytes 8 trx), b)"
    "fr_read ?f (unat slot + 20) 4 b = (Inr (le_bytes 4 (word_of_nat (length pl) :: u32)), b)"
    "fr_read ?f (unat slot + 24) (length pl) b = (Inr pl, b)"
    by (auto intro!: fr_read_holds [OF assms(1)] simp: add.commute)
  then show ?thesis using n z by (simp add: UL_ReadRecord_def Let_def comp_simps)
qed

lemma undo_bytes_poke:
  assumes "off + 24 + length pl \<le> length d"
  shows "poke (off + 24) pl (poke (off + 20) (le_bytes 4 (word_of_nat (length pl) :: u32)) (poke (off + 12) (le_bytes 8 trx)
      (poke (off + 8) (le_bytes 4 (up_slot ptr)) (poke off (le_bytes 8 (up_page ptr)) d)))) = poke off (undo_bytes ptr trx pl) d"
  using assms poke_poke_adjacent [of off "le_bytes 8 (up_page ptr)" "le_bytes 4 (up_slot ptr)" d]
    poke_poke_adjacent [of off "le_bytes 8 (up_page ptr) @ le_bytes 4 (up_slot ptr)" "le_bytes 8 trx" d]
    poke_poke_adjacent [of off "le_bytes 8 (up_page ptr) @ le_bytes 4 (up_slot ptr) @ le_bytes 8 trx"
      "le_bytes 4 (word_of_nat (length pl) :: u32)" d]
    poke_poke_adjacent [of off "le_bytes 8 (up_page ptr) @ le_bytes 4 (up_slot ptr) @ le_bytes 8 trx @
      le_bytes 4 (word_of_nat (length pl) :: u32)" pl d]
  by (simp add: undo_bytes_def add.assoc)

text \<open>What appending a record to a page with layout \<open>un\<close> guarantees about the bytes \<open>d\<close> before and \<open>e\<close> after.\<close>

definition appended :: "UndoPointer \<Rightarrow> tx_id_t \<Rightarrow> bytes \<Rightarrow> UndoLogPage \<Rightarrow> bytes \<Rightarrow> bytes \<Rightarrow> bool" where
  "appended ptr trx pl un d e \<longleftrightarrow>
     undo_layout (un\<lparr>un_free := un_free un + (24 + word_of_nat (length pl))\<rparr>) e \<and>
     holds_at (unat (un_free un)) (undo_bytes ptr trx pl) e \<and>
     unat (un_free un + (24 + word_of_nat (length pl))) = unat (un_free un) + 24 + length pl \<and>
     (\<forall>o1 x. 20 \<le> o1 \<longrightarrow> o1 + length x \<le> unat (un_free un) \<longrightarrow> holds_at o1 x d \<longrightarrow> holds_at o1 x e)"

lemma unat_free_after:
  assumes "unat (w :: u32) + 24 + n \<le> 4096"
  shows "unat (w + (24 + word_of_nat n)) = unat w + 24 + n" "unat (word_of_nat n :: u32) = n"
proof -
  show n: "unat (word_of_nat n :: u32) = n" using assms by (simp add: unat_of_nat take_bit_eq_mod)
  have t: "unat (24 :: u32) = 24" by simp
  have "unat (24 + word_of_nat n :: u32) = 24 + n" using assms n t by (subst unat_add_small) simp_all
  then show "unat (w + (24 + word_of_nat n)) = unat w + 24 + n" using assms by (subst unat_add_small) simp_all
qed

lemma appendedI:
  assumes "undo_layout un d" "unat (un_free un) + 24 + length pl \<le> 4096"
  defines "un' \<equiv> un\<lparr>un_free := un_free un + (24 + word_of_nat (length pl))\<rparr>"
  shows "appended ptr trx pl un d (poke 0 (undo_header un') (poke (unat (un_free un)) (undo_bytes ptr trx pl) d))"
proof -
  let ?o = "unat (un_free un)" and ?d1 = "poke (unat (un_free un)) (undo_bytes ptr trx pl) d"
  have l: "length d = 4096" "20 \<le> ?o" using assms(1) by (simp_all add: undo_layout_def)
  have l1: "length ?d1 = 4096" using l assms(2) by simp
  note u = unat_free_after [OF assms(2)]
  have "holds_at ?o (undo_bytes ptr trx pl) (poke 0 (undo_header un') ?d1)"
    using l l1 assms(2) by (auto intro!: holds_at_poke_disjoint holds_at_poke_same)
  moreover have "holds_at 0 (undo_header un') (poke 0 (undo_header un') ?d1)" using l1 by (intro holds_at_poke_same) simp
  moreover have "holds_at o1 x (poke 0 (undo_header un') ?d1)"
    if "20 \<le> o1" "o1 + length x \<le> ?o" "holds_at o1 x d" for o1 x
    using that l l1 assms(2) by (auto intro!: holds_at_poke_disjoint)
  ultimately show ?thesis
    using u l l1 assms(2) by (simp add: appended_def undo_layout_def flip: un'_def) (simp add: un'_def)
qed

lemma AppendRecord_run:
  assumes h: "held pid (un_frame un) b" and lay: "undo_layout un (fdata (un_frame un) b)"
    and fit: "unat (un_free un) + 24 + length pl \<le> 4096"
  obtains c where "UL_AppendRecord ptr trx (Some pl) (word_of_nat (length pl)) un b =
      (Inr (un\<lparr>un_free := un_free un + (24 + word_of_nat (length pl))\<rparr>, Some (un_free un)), c)"
    "mem_only (un_frame un) b c" "backed c pid" "appended ptr trx pl un (fdata (un_frame un) b) (fdata (un_frame un) c)"
proof -
  let ?f = "un_frame un" and ?d = "fdata (un_frame un) b" and ?o = "unat (un_free un)" and ?n = "word_of_nat (length pl) :: u32"
  let ?un = "un\<lparr>un_free := un_free un + (24 + ?n)\<rparr>" and ?d1 = "poke (unat (un_free un)) (undo_bytes ptr trx pl) (fdata (un_frame un) b)"
  let ?e = "poke 0 (undo_header ?un) ?d1" and ?c = "fdirty (un_frame un) (fdirty (un_frame un) (put (un_frame un) (poke 0 (undo_header ?un) ?d1) b))"
  have l: "length ?d = 4096" by (rule heldD(5) [OF h])
  note u = unat_free_after [OF fit]
  have sp: "UL_HasSpaceFor ?n un" using u fit by (simp add: UL_HasSpaceFor_def word_le_nat_alt)
  have z: "0 < ?n \<longleftrightarrow> pl \<noteq> []" using u(2) by (simp add: word_less_nat_alt)
  have nil: "poke (?o + 24) [] x = x" for x by (simp add: poke_def)
  let ?w = "poke (?o + 20) (le_bytes 4 ?n) (poke (?o + 12) (le_bytes 8 trx) (poke (?o + 8) (le_bytes 4 (up_slot ptr))
      (poke ?o (le_bytes 8 (up_page ptr)) ?d)))"
  have w: "length ?w = 4096" "poke (?o + 24) pl ?w = ?d1" using l fit undo_bytes_poke [of ?o pl ?d] by simp_all
  have pay: "(if 0 < ?n then bnd (payload_bytes (Some pl) ?n) (\<lambda>d. fr_write ?f (?o + 24) d) else ret ()) (put ?f ?w b) =
      (Inr (), put ?f ?d1 b)"
  proof (cases "pl = []")
    case True
    then show ?thesis using z w(2) nil by (simp add: comp_simps)
  next
    case False
    have "fr_write ?f (?o + 24) pl (put ?f ?w b) = (Inr (), put ?f ?d1 b)"
      using put_write [OF h w(1), of "?o + 24" pl] fit w(2) by simp
    then show ?thesis
      using False z u(2) by (simp add: comp_simps payload_bytes_def peek_0_all)
  qed
  have ld1: "length ?d1 = 4096" "length ?e = 4096" using l fit by simp_all
  note p = put_facts [OF h ld1(1)] and q = put_facts [OF h ld1(2)]
  note q1 = fdirty_facts [OF q(2)]
  note q2 = fdirty_facts [OF q1(2)]
  have hdr: "UL_WriteHeader ?un (put ?f ?d1 b) = (Inr (), fdirty ?f (put ?f ?e b))"
    using UL_WriteHeader_run [of pid ?un "put ?f ?d1 b"] p by simp
  have "UL_AppendRecord ptr trx (Some pl) ?n un b = (Inr (?un, Some (un_free un)), ?c)"
    using sp l fit pay hdr
    by (simp add: UL_AppendRecord_def Let_def comp_simps fr_write_put [OF h] put_write [OF h] fdirty_def add.commute)
  moreover have "mem_only ?f b ?c" by (rule mem_only_trans [OF mem_only_trans [OF q(1) q1(1)] q2(1)])
  moreover have "fdata ?f ?c = ?e" using q2(3) q1(3) q(3) by simp
  ultimately show ?thesis using that q2(4) appendedI [OF lay fit] by simp
qed

lemma AppendRecord_full:
  "\<not> UL_HasSpaceFor n un \<Longrightarrow> UL_AppendRecord ptr trx pl n un b = (Inr (un, None), b)"
  by (simp add: UL_AppendRecord_def comp_simps)

section \<open>The undo log as a set of versions\<close>

text \<open>\<open>record_at b p x\<close>: the undo page of \<open>p\<close>, in the pool or in the file, holds the record \<open>x\<close> at \<open>p\<close>.\<close>

definition record_at :: "BufferManager \<Rightarrow> UndoPointer \<Rightarrow> bytes \<Rightarrow> bool" where
  "record_at b p x \<longleftrightarrow> (\<exists>d un. page_content b (up_page p) = Some d \<and> undo_layout un d \<and> holds_at (unat (up_slot p)) x d \<and>
     20 \<le> unat (up_slot p) \<and> unat (up_slot p) + length x \<le> unat (un_free un))"

definition ul_inv :: "UndoLogManager \<Rightarrow> bool" where
  "ul_inv u \<longleftrightarrow> pool_ok (ul_bm u) \<and> 2 \<le> length (bm_free (ul_bm u)) \<and> 0 < unat (bm_next_id (ul_bm u)) \<and>
     (ul_page u \<noteq> 0 \<longrightarrow> addressable (ul_page u) \<and> backed (ul_bm u) (ul_page u) \<and>
        (\<exists>d un. page_content (ul_bm u) (ul_page u) = Some d \<and> undo_layout un d))"

lemma undo_layout_free: "undo_layout un d \<Longrightarrow> undo_layout un' d \<Longrightarrow> un_free un' = un_free un"
  using holds_at_unique [of 16 "le_bytes 4 (un_free un)" d "le_bytes 4 (un_free un')"]
  by (auto simp: undo_layout_def undo_header_def) (metis le_word_le_bytes_simps(3))

lemma undo_layout_frame: "undo_layout un d \<Longrightarrow> undo_layout (un\<lparr>un_frame := f\<rparr>) d"
  by (simp add: undo_layout_def undo_header_def)

lemma ul_pool_run [comp_simps]: "m (ul_bm u) = (r, b) \<Longrightarrow> ul_pool m u = (r, u\<lparr>ul_bm := b\<rparr>)"
  by (simp add: ul_pool_def zoom_def)

text \<open>The last part of \<open>AppendUndoRecord\<close>: append to the page at hand, and release it.\<close>

lemma append_and_release:
  assumes h: "held pid (un_frame un) (ul_bm u)" and lay: "undo_layout un (fdata (un_frame un) (ul_bm u))"
    and fit: "unat (un_free un) + 24 + length pl \<le> 4096" and t: "tuple_holds t pl"
    and fin: "finishes (un_frame un) pid n b0 c0" and mem: "mem_only (un_frame un) c0 (ul_bm u)"
  obtains r e where "ul_append ptr trx t un u = (Inr \<lparr>up_page = pid, up_slot = un_free un\<rparr>, u\<lparr>ul_bm := r\<rparr>)"
    "pool_ok r" "bm_next_id r = bm_next_id c0" "length (bm_free r) = n" "page_content r pid = Some e" "backed r pid"
    "appended ptr trx pl un (fdata (un_frame un) (ul_bm u)) e"
    "\<forall>q d. q \<noteq> pid \<longrightarrow> page_content b0 q = Some d \<longrightarrow> page_content r q = Some d" "evolves {pid} b0 r"
proof -
  have sz: "ucast (t_size t) = (word_of_nat (length pl) :: u32)"
    using t unat_free_after(2) [OF fit] by (simp add: tuple_holds_def word_unat_eq_iff)
  obtain c where c: "UL_AppendRecord ptr trx (Some pl) (word_of_nat (length pl)) un (ul_bm u) =
      (Inr (un\<lparr>un_free := un_free un + (24 + word_of_nat (length pl))\<rparr>, Some (un_free un)), c)"
    "mem_only (un_frame un) (ul_bm u) c" "backed c pid" "appended ptr trx pl un (fdata (un_frame un) (ul_bm u)) (fdata (un_frame un) c)"
    by (rule AppendRecord_run [OF h lay fit])
  obtain r where r: "BM_Release pid c = (Inr (), r)" "pool_ok r" "bm_next_id r = bm_next_id c0" "length (bm_free r) = n"
    "page_content r pid = Some (fdata (un_frame un) c)" "backed r pid"
    "\<forall>q d. q \<noteq> pid \<longrightarrow> page_content b0 q = Some d \<longrightarrow> page_content r q = Some d" "evolves {pid} b0 r"
    by (rule finishesD [OF fin mem_only_trans [OF mem c(2)] c(3)]) blast
  have "pg_id (frame_of (un_frame un) c) = pid" by (rule heldD(6) [OF mem_only_held [OF c(2) h]])
  then show ?thesis
    using that [of r "fdata (un_frame un) c"] c r t sz
    by (simp add: comp_simps ul_append_def ul_release_def tuple_holds_def)
qed

text \<open>A new undo page.\<close>

lemma ul_new_page_run:
  assumes ok: "pool_ok (ul_bm u)" and free: "bm_free (ul_bm u) \<noteq> []" and addr: "addressable (bm_next_id (ul_bm u))"
  obtains un v c0 where "ul_new_page u = (Inr un, v)" "ul_page v = bm_next_id (ul_bm u)"
    "held (bm_next_id (ul_bm u)) (un_frame un) (ul_bm v)" "undo_layout un (fdata (un_frame un) (ul_bm v))" "un_free un = 20"
    "finishes (un_frame un) (bm_next_id (ul_bm u)) (length (bm_free (ul_bm u))) (ul_bm u) c0"
    "mem_only (un_frame un) c0 (ul_bm v)" "unat (bm_next_id c0) = Suc (unat (bm_next_id (ul_bm u)))"
proof -
  let ?i = "bm_next_id (ul_bm u)"
  obtain f c where c: "BM_NewPage (ul_bm u) = (Inr f, c)" "held ?i f c" "fdata f c = replicate PAGE_SIZE 0" "pool_ok c"
    "unat (bm_next_id c) = Suc (unat ?i)" "finishes f ?i (length (bm_free (ul_bm u))) (ul_bm u) c" "pg_id (frame_of f c) = ?i"
    by (rule new_session [OF ok free addr])
  let ?un = "\<lparr>un_frame = f, un_page_id = ?i, un_lsn = 0, un_free = 20\<rparr>"
  let ?d = "poke 0 (undo_header ?un) (fdata f c)"
  have l: "length (fdata f c) = 4096" by (rule heldD(5) [OF c(2)])
  then have ld: "length ?d = 4096" by simp
  note p = put_facts [OF c(2) ld]
  note q = fdirty_facts [OF p(2)]
  have "ul_new_page u = (Inr ?un, u\<lparr>ul_bm := fdirty f (put f ?d c), ul_page := ?i\<rparr>)"
    using c(1,7) UL_WriteHeader_run [of ?i ?un c] c(2)
    by (simp add: ul_new_page_def comp_simps UL_InitNew_def UndoLogPage_new_def Let_def)
  moreover have "undo_layout ?un (fdata f (fdirty f (put f ?d c)))"
    using q(3) p(3) l ld by (auto simp: undo_layout_def intro!: holds_at_poke_same)
  ultimately show ?thesis
    using that [of ?un] q(2) c(5,6) mem_only_trans [OF p(1) q(1)] by simp
qed

lemma record_at_keep:
  assumes "record_at b p x" "\<And>q d. q \<noteq> pid \<Longrightarrow> page_content b q = Some d \<Longrightarrow> page_content r q = Some d"
    and "page_content b pid = Some d" "undo_layout un d" "page_content r pid = Some e" "appended ptr trx pl un d e"
  shows "record_at r p x"
proof (cases "up_page p = pid")
  case True
  obtain un1 where x: "undo_layout un1 d" "holds_at (unat (up_slot p)) x d" "20 \<le> unat (up_slot p)"
    "unat (up_slot p) + length x \<le> unat (un_free un1)" using assms(1,3) True by (auto simp: record_at_def)
  have "un_free un1 = un_free un" by (rule undo_layout_free [OF assms(4) x(1)])
  then show ?thesis using x assms(5,6) True by (auto simp: record_at_def appended_def)
next
  case False
  then show ?thesis using assms(1,2) by (auto simp: record_at_def)
qed

lemma record_at_other:
  assumes "record_at b p x" "up_page p \<noteq> pid" "\<And>q d. q \<noteq> pid \<Longrightarrow> page_content b q = Some d \<Longrightarrow> page_content r q = Some d"
  shows "record_at r p x"
  using assms by (auto simp: record_at_def)

lemma record_at_new:
  assumes "appended ptr trx pl un d e" "page_content r pid = Some e" "20 \<le> unat (un_free un)"
  shows "record_at r \<lparr>up_page = pid, up_slot = un_free un\<rparr> (undo_bytes ptr trx pl)"
  using assms unfolding record_at_def appended_def by fastforce

lemma ul_fetch_run:
  assumes inv: "ul_inv u" and cur: "ul_page u \<noteq> 0"
  obtains un c d where "bnd (ul_pool (BM_FetchPage (ul_page u))) (\<lambda>f. ul_pool (UL_Load (UndoLogPage_new f))) u = (Inr un, u\<lparr>ul_bm := c\<rparr>)"
    "held (ul_page u) (un_frame un) c" "fdata (un_frame un) c = d" "page_content (ul_bm u) (ul_page u) = Some d" "undo_layout un d"
    "pool_ok c" "bm_next_id c = bm_next_id (ul_bm u)" "finishes (un_frame un) (ul_page u) (length (bm_free (ul_bm u))) (ul_bm u) c" "backed c (ul_page u)"
proof -
  obtain d un0 where d: "page_content (ul_bm u) (ul_page u) = Some d" "undo_layout un0 d" and ok: "pool_ok (ul_bm u)"
    and ad: "addressable (ul_page u)" "backed (ul_bm u) (ul_page u)" and two: "2 \<le> length (bm_free (ul_bm u))"
    using inv cur by (auto simp: ul_inv_def)
  have free: "bm_free (ul_bm u) \<noteq> []" using two by auto
  obtain f c where c: "BM_FetchPage (ul_page u) (ul_bm u) = (Inr f, c)" "held (ul_page u) f c" "fdata f c = d" "pool_ok c"
    "bm_next_id c = bm_next_id (ul_bm u)" "finishes f (ul_page u) (length (bm_free (ul_bm u))) (ul_bm u) c"
    "backed (ul_bm u) (ul_page u) \<longrightarrow> backed c (ul_page u)"
    by (rule fetch_session [OF ok free ad(1) d(1)])
  let ?un = "un0\<lparr>un_frame := f\<rparr>"
  have "UL_Load (UndoLogPage_new f) c = (Inr ?un, c)"
    using c(3) undo_layout_frame [OF d(2)] by (intro UL_Load_run [OF c(2)]) simp_all
  then show ?thesis using that [of ?un c d] c ad d undo_layout_frame [OF d(2)] by (simp add: comp_simps)
qed

lemma append_on_new_page:
  assumes ok: "pool_ok (ul_bm u)" "bm_free (ul_bm u) \<noteq> []" "addressable (bm_next_id (ul_bm u))" and t: "tuple_holds t pl"
    and fit: "44 + length pl \<le> 4096"
  obtains v where "bnd ul_new_page (ul_append ptr trx t) u = (Inr \<lparr>up_page = bm_next_id (ul_bm u), up_slot = 20\<rparr>, v)"
    "ul_page v = bm_next_id (ul_bm u)" "pool_ok (ul_bm v)" "length (bm_free (ul_bm v)) = length (bm_free (ul_bm u))"
    "unat (bm_next_id (ul_bm v)) = Suc (unat (bm_next_id (ul_bm u)))" "backed (ul_bm v) (ul_page v)"
    "\<exists>d un. page_content (ul_bm v) (ul_page v) = Some d \<and> undo_layout un d"
    "record_at (ul_bm v) \<lparr>up_page = bm_next_id (ul_bm u), up_slot = 20\<rparr> (undo_bytes ptr trx pl)"
    "\<forall>q d. page_content (ul_bm u) q = Some d \<longrightarrow> page_content (ul_bm v) q = Some d" "evolves {bm_next_id (ul_bm u)} (ul_bm u) (ul_bm v)"
proof -
  let ?i = "bm_next_id (ul_bm u)"
  obtain un v c0 where n: "ul_new_page u = (Inr un, v)" "ul_page v = ?i"
    "held ?i (un_frame un) (ul_bm v)" "undo_layout un (fdata (un_frame un) (ul_bm v))" "un_free un = 20"
    "finishes (un_frame un) ?i (length (bm_free (ul_bm u))) (ul_bm u) c0"
    "mem_only (un_frame un) c0 (ul_bm v)" "unat (bm_next_id c0) = Suc (unat ?i)"
    by (rule ul_new_page_run [OF ok])
  have fits: "unat (un_free un) + 24 + length pl \<le> 4096" using fit n(5) by simp
  obtain r e where r: "ul_append ptr trx t un v = (Inr \<lparr>up_page = ?i, up_slot = un_free un\<rparr>, v\<lparr>ul_bm := r\<rparr>)"
    "pool_ok r" "bm_next_id r = bm_next_id c0" "length (bm_free r) = length (bm_free (ul_bm u))"
    "page_content r ?i = Some e" "backed r ?i" "appended ptr trx pl un (fdata (un_frame un) (ul_bm v)) e"
    "\<forall>q d. q \<noteq> ?i \<longrightarrow> page_content (ul_bm u) q = Some d \<longrightarrow> page_content r q = Some d" "evolves {?i} (ul_bm u) r"
    by (rule append_and_release [OF n(3,4) fits t n(6,7)])
  have "record_at r \<lparr>up_page = ?i, up_slot = un_free un\<rparr> (undo_bytes ptr trx pl)"
    by (rule record_at_new [OF r(7,5)]) (simp add: n(5))
  moreover have "page_content r q = Some d" if "page_content (ul_bm u) q = Some d" for q d
    using r(8) that pool_ok_fresh(2) [OF ok(1), of ?i] by (cases "q = ?i") auto
  moreover have "\<exists>d un. page_content r ?i = Some d \<and> undo_layout un d"
    using r(5,7) by (auto simp: appended_def)
  ultimately show ?thesis
    using that [of "v\<lparr>ul_bm := r\<rparr>"] n r by (simp add: comp_simps)
qed

text \<open>The outcome of \<open>AppendUndoRecord\<close>, as seen from the state \<open>u\<close> before.\<close>

definition undo_appended :: "UndoLogManager \<Rightarrow> UndoPointer \<Rightarrow> tx_id_t \<Rightarrow> bytes \<Rightarrow> UndoPointer \<Rightarrow> UndoLogManager \<Rightarrow> bool" where
  "undo_appended u ptr trx pl p v \<longleftrightarrow> ul_inv v \<and> record_at (ul_bm v) p (undo_bytes ptr trx pl) \<and> ul_page v = up_page p \<and> up_page p \<noteq> 0 \<and>
     (\<forall>q x. record_at (ul_bm u) q x \<longrightarrow> record_at (ul_bm v) q x) \<and>
     (\<forall>q d. q \<noteq> up_page p \<longrightarrow> page_content (ul_bm u) q = Some d \<longrightarrow> page_content (ul_bm v) q = Some d) \<and>
     evolves {up_page p} (ul_bm u) (ul_bm v) \<and> unat (bm_next_id (ul_bm v)) \<le> Suc (unat (bm_next_id (ul_bm u))) \<and>
     (up_page p = ul_page u \<or> up_page p = bm_next_id (ul_bm u))"

lemma append_via_new_page:
  assumes inv: "ul_inv u" and addr: "addressable (bm_next_id (ul_bm u))" and t: "tuple_holds t pl" and fit: "44 + length pl \<le> 4096"
    and w: "pool_ok (ul_bm w)" "length (bm_free (ul_bm w)) = length (bm_free (ul_bm u))" "bm_next_id (ul_bm w) = bm_next_id (ul_bm u)"
      "\<forall>q d. page_content (ul_bm u) q = Some d \<longrightarrow> page_content (ul_bm w) q = Some d" "evolves {} (ul_bm u) (ul_bm w)"
  shows "\<exists>p v. bnd ul_new_page (ul_append ptr trx t) w = (Inr p, v) \<and> undo_appended u ptr trx pl p v"
proof -
  have two: "2 \<le> length (bm_free (ul_bm u))" using inv by (simp add: ul_inv_def)
  then have "bm_free (ul_bm w) \<noteq> []" "addressable (bm_next_id (ul_bm w))" using w(2,3) addr by auto
  then obtain v where v: "bnd ul_new_page (ul_append ptr trx t) w = (Inr \<lparr>up_page = bm_next_id (ul_bm w), up_slot = 20\<rparr>, v)"
    "ul_page v = bm_next_id (ul_bm w)" "pool_ok (ul_bm v)" "length (bm_free (ul_bm v)) = length (bm_free (ul_bm w))"
    "unat (bm_next_id (ul_bm v)) = Suc (unat (bm_next_id (ul_bm w)))" "backed (ul_bm v) (ul_page v)"
    "\<exists>d un. page_content (ul_bm v) (ul_page v) = Some d \<and> undo_layout un d"
    "record_at (ul_bm v) \<lparr>up_page = bm_next_id (ul_bm w), up_slot = 20\<rparr> (undo_bytes ptr trx pl)"
    "\<forall>q d. page_content (ul_bm w) q = Some d \<longrightarrow> page_content (ul_bm v) q = Some d" "evolves {bm_next_id (ul_bm w)} (ul_bm w) (ul_bm v)"
    by (rule append_on_new_page [OF w(1) _ _ t fit])
  have "ul_inv v" using v(2-7) addr w(2,3) two by (simp add: ul_inv_def)
  moreover have "record_at (ul_bm v) q x" if "record_at (ul_bm u) q x" for q x
    using that w(4) v(9) unfolding record_at_def by blast
  moreover have "bm_next_id (ul_bm w) \<noteq> 0" using inv w(3) by (auto simp: ul_inv_def)
  ultimately have "undo_appended u ptr trx pl \<lparr>up_page = bm_next_id (ul_bm w), up_slot = 20\<rparr> v"
    using v(2,5,8,9) w(3,4) evolves_trans [OF w(5) v(10) order_refl] by (simp add: undo_appended_def)
  then show ?thesis using v(1) by blast
qed

lemma append_in_place:
  assumes inv: "ul_inv u" and nz: "ul_page u \<noteq> 0" and t: "tuple_holds t pl"
    and f: "held (ul_page u) (un_frame un) c" "page_content (ul_bm u) (ul_page u) = Some (fdata (un_frame un) c)"
      "undo_layout un (fdata (un_frame un) c)" "pool_ok c" "bm_next_id c = bm_next_id (ul_bm u)"
      "finishes (un_frame un) (ul_page u) (length (bm_free (ul_bm u))) (ul_bm u) c"
    and fits: "unat (un_free un) + 24 + length pl \<le> 4096"
  shows "\<exists>p v. ul_append ptr trx t un (u\<lparr>ul_bm := c\<rparr>) = (Inr p, v) \<and> undo_appended u ptr trx pl p v"
proof -
  let ?u = "u\<lparr>ul_bm := c\<rparr>" and ?d = "fdata (un_frame un) c"
  have h: "held (ul_page u) (un_frame un) (ul_bm ?u)" "undo_layout un (fdata (un_frame un) (ul_bm ?u))"
    "mem_only (un_frame un) c (ul_bm ?u)" using f mem_only_refl [OF pool_okD(1) [OF f(4)]] by simp_all
  obtain r e where r: "ul_append ptr trx t un ?u = (Inr \<lparr>up_page = ul_page u, up_slot = un_free un\<rparr>, ?u\<lparr>ul_bm := r\<rparr>)"
    "pool_ok r" "bm_next_id r = bm_next_id c" "length (bm_free r) = length (bm_free (ul_bm u))" "page_content r (ul_page u) = Some e"
    "backed r (ul_page u)" "appended ptr trx pl un (fdata (un_frame un) (ul_bm ?u)) e"
    "\<forall>q d. q \<noteq> ul_page u \<longrightarrow> page_content (ul_bm u) q = Some d \<longrightarrow> page_content r q = Some d" "evolves {ul_page u} (ul_bm u) r"
    by (rule append_and_release [OF h(1,2) fits t f(6) h(3)])
  have a: "appended ptr trx pl un ?d e" using r(7) by simp
  have fr: "20 \<le> unat (un_free un)" using f(3) by (simp add: undo_layout_def)
  have "ul_inv (u\<lparr>ul_bm := r\<rparr>)" using inv r(2-6) f(5) a by (auto simp: ul_inv_def appended_def)
  moreover have "record_at r q x" if "record_at (ul_bm u) q x" for q x
    using record_at_keep [OF that _ f(2,3) r(5) a] r(8) by blast
  ultimately have "undo_appended u ptr trx pl \<lparr>up_page = ul_page u, up_slot = un_free un\<rparr> (u\<lparr>ul_bm := r\<rparr>)"
    using r(3,8,9) f(5) record_at_new [OF a r(5) fr] nz by (simp add: undo_appended_def)
  then show ?thesis using r(1) by auto
qed

lemma has_space_iff:
  assumes "unat (un_free un) \<le> 4096" "44 + length pl \<le> 4096" "tuple_holds t pl"
  shows "UL_HasSpaceFor (ucast (t_size t)) un \<longleftrightarrow> unat (un_free un) + 24 + length pl \<le> 4096"
proof -
  have n: "unat (word_of_nat (length pl) :: u32) = length pl" using assms(2) by (simp add: unat_of_nat take_bit_eq_mod)
  have sz: "ucast (t_size t) = (word_of_nat (length pl) :: u32)"
    using assms(3) n by (simp add: tuple_holds_def word_unat_eq_iff)
  have t: "unat (24 :: u32) = 24" by simp
  have "unat (24 + word_of_nat (length pl) :: u32) = 24 + length pl"
    using assms(2) n t by (subst unat_add_small) simp_all
  then have "unat (un_free un + (24 + word_of_nat (length pl))) = unat (un_free un) + 24 + length pl"
    using assms(1,2) by (subst unat_add_small) simp_all
  then show ?thesis by (simp add: UL_HasSpaceFor_def word_le_nat_alt sz)
qed

lemma append_undo:
  assumes inv: "ul_inv u" and addr: "addressable (bm_next_id (ul_bm u))" and t: "tuple_holds t pl" and fit: "44 + length pl \<le> 4096"
  shows "\<exists>p v. ULM_AppendUndoRecord t trx ptr u = (Inr p, v) \<and> undo_appended u ptr trx pl p v"
proof -
  have ok: "pool_ok (ul_bm u)" and two: "2 \<le> length (bm_free (ul_bm u))" using inv by (simp_all add: ul_inv_def)
  have free: "bm_free (ul_bm u) \<noteq> []" using two by auto
  show ?thesis
  proof (cases "ul_page u = 0")
    case True
    obtain un v where n: "ul_new_page u = (Inr un, v)" "un_free un = 20" by (rule ul_new_page_run [OF ok free addr])
    have "UL_HasSpaceFor (ucast (t_size t)) un" using has_space_iff [OF _ fit t, of un] fit n(2) by simp
    then have "ULM_AppendUndoRecord t trx ptr u = bnd ul_new_page (ul_append ptr trx t) u"
      using True n(1) by (simp add: ULM_AppendUndoRecord_def comp_simps)
    then show ?thesis using append_via_new_page [OF assms ok] evolves_refl [OF ok] by simp
  next
    case False
    obtain un c d where f: "bnd (ul_pool (BM_FetchPage (ul_page u))) (\<lambda>f. ul_pool (UL_Load (UndoLogPage_new f))) u = (Inr un, u\<lparr>ul_bm := c\<rparr>)"
      "held (ul_page u) (un_frame un) c" "fdata (un_frame un) c = d" "page_content (ul_bm u) (ul_page u) = Some d" "undo_layout un d"
      "pool_ok c" "bm_next_id c = bm_next_id (ul_bm u)" "finishes (un_frame un) (ul_page u) (length (bm_free (ul_bm u))) (ul_bm u) c" "backed c (ul_page u)"
      by (rule ul_fetch_run [OF inv False])
    have sp: "UL_HasSpaceFor (ucast (t_size t)) un \<longleftrightarrow> unat (un_free un) + 24 + length pl \<le> 4096"
      using f(5) by (intro has_space_iff [OF _ fit t]) (simp add: undo_layout_def)
    show ?thesis
    proof (cases "UL_HasSpaceFor (ucast (t_size t)) un")
      case True
      then have "ULM_AppendUndoRecord t trx ptr u = ul_append ptr trx t un (u\<lparr>ul_bm := c\<rparr>)"
        using False f(1) by (simp add: ULM_AppendUndoRecord_def comp_simps)
      then show ?thesis using append_in_place [OF inv False t f(2) _ _ f(6,7,8)] f(3,4,5) True sp by simp
    next
      case nsp: False
      obtain r where r: "BM_Release (ul_page u) c = (Inr (), r)" "pool_ok r" "bm_next_id r = bm_next_id c"
        "length (bm_free r) = length (bm_free (ul_bm u))" "page_content r (ul_page u) = Some (fdata (un_frame un) c)"
        "\<forall>q d. q \<noteq> ul_page u \<longrightarrow> page_content (ul_bm u) q = Some d \<longrightarrow> page_content r q = Some d" "backed r (ul_page u)" "evolves {ul_page u} (ul_bm u) r"
        by (rule finishesD [OF f(8) mem_only_refl [OF pool_okD(1) [OF f(6)]] f(9)]) blast
      have keep: "\<forall>q x. page_content (ul_bm u) q = Some x \<longrightarrow> page_content r q = Some x"
        using r(5,6) f(3,4) by (metis option.inject)
      have "backed r q" if "backed (ul_bm u) q" for q
        using r(7,8) that unfolding evolves_def by (cases "q = ul_page u") simp_all
      then have ev: "evolves {} (ul_bm u) r" using r(8) keep unfolding evolves_def by simp
      have rel: "ul_release un (u\<lparr>ul_bm := c\<rparr>) = (Inr (), u\<lparr>ul_bm := r\<rparr>)"
        using r(1) heldD(6) [OF f(2)] by (simp add: ul_release_def comp_simps)
      have "ULM_AppendUndoRecord t trx ptr u = bnd ul_new_page (ul_append ptr trx t) (u\<lparr>ul_bm := r\<rparr>)"
        using False f(1) nsp rel by (simp add: ULM_AppendUndoRecord_def bnd_def thn_def gets_def)
      then show ?thesis using append_via_new_page [OF assms, of "u\<lparr>ul_bm := r\<rparr>"] r(2,3,4) f(7) keep ev by simp
    qed
  qed
qed

lemma get_undo:
  assumes ok: "pool_ok (ul_bm u)" and free: "bm_free (ul_bm u) \<noteq> []" and p: "addressable (up_page p)" "backed (ul_bm u) (up_page p)"
    and r: "record_at (ul_bm u) p (undo_bytes ptr trx pl)" and ne: "pl \<noteq> []"
  shows "\<exists>b. ULM_GetUndoRecord p u = (Inr (Tuple_new\<lparr>t_size := word_of_nat (length pl), t_data := Some pl\<rparr>), u\<lparr>ul_bm := b\<rparr>) \<and> quiet (ul_bm u) b"
proof -
  obtain d un0 where d: "page_content (ul_bm u) (up_page p) = Some d" "undo_layout un0 d" "holds_at (unat (up_slot p)) (undo_bytes ptr trx pl) d"
    using r by (auto simp: record_at_def)
  obtain f c e where c: "BM_FetchPage (up_page p) (ul_bm u) = (Inr f, c)" "held (up_page p) f c" "fdata f c = d"
    "BM_Release (up_page p) c = (Inr (), e)" "quiet (ul_bm u) e"
    by (rule session_quiet [OF ok free p(1) d(1) p(2)])
  let ?un = "un0\<lparr>un_frame := f\<rparr>"
  have ld: "UL_Load (UndoLogPage_new f) c = (Inr ?un, c)"
    using c(3) undo_layout_frame [OF d(2)] by (intro UL_Load_run [OF c(2)]) simp_all
  have rd: "UL_ReadRecord (up_slot p) ?un c = (Inr \<lparr>ur_old_roll_ptr = ptr, ur_old_trx_id = trx,
      ur_payload_size = word_of_nat (length pl), ur_payload = pl\<rparr>, c)"
    using c(2,3) d(3) by (intro UL_ReadRecord_run) simp_all
  have len: "length pl \<le> 4096" using holds_at_len [OF d(3)] d(2) by (simp add: undo_layout_def)
  then have z: "0 < (word_of_nat (length pl) :: u32)" using ne by (simp add: word_less_nat_alt unat_of_nat take_bit_eq_mod)
  have sz: "ucast (word_of_nat (length pl) :: u32) = (word_of_nat (length pl) :: u16)"
    using len by (simp add: word_unat_eq_iff unsigned_ucast_eq unat_of_nat take_bit_eq_mod)
  have "ULM_GetUndoRecord p u = (Inr (Tuple_new\<lparr>t_size := word_of_nat (length pl), t_data := Some pl\<rparr>), u\<lparr>ul_bm := e\<rparr>)"
    using c(1,4) ld rd heldD(6) [OF c(2)] z sz by (simp add: ULM_GetUndoRecord_def comp_simps ul_release_def Let_def)
  then show ?thesis using c(5) by blast
qed

definition demo_undo :: UndoLogManager where
  "demo_undo = \<lparr>ul_bm = empty_pool, ul_page = 0\<rparr>"

lemma demo_undo_ok: "ul_inv demo_undo" "addressable (bm_next_id (ul_bm demo_undo))"
  using empty_pool_inv
  by (simp_all add: demo_undo_def ul_inv_def pool_ok_def empty_pool_def BufferManager_new_def PosixDiskManager_new_def
      ready_def addressable_def)

definition demo_version :: Tuple where
  "demo_version = Tuple_new\<lparr>t_data := Some [1, 2, 3], t_size := 3\<rparr>"

lemma demo_version_holds: "tuple_holds demo_version [1, 2, 3]"
  by (simp add: demo_version_def tuple_holds_def)

text \<open>C21. The undo log never loses a version: appending an old version of a record (with the transaction and
  the undo pointer it carried) succeeds whenever it fits a page, yields a pointer at which the log holds
  exactly this version, and leaves every version appended before, and every other page, as it was.\<close>

theorem undo_append_keeps_versions:
  assumes "ul_inv u" "addressable (bm_next_id (ul_bm u))" "tuple_holds t pl" "44 + length pl \<le> PAGE_SIZE"
  shows "\<exists>p v. ULM_AppendUndoRecord t trx ptr u = (Inr p, v) \<and> ul_inv v \<and>
    record_at (ul_bm v) p (undo_bytes ptr trx pl) \<and>
    (\<forall>q x. record_at (ul_bm u) q x \<longrightarrow> record_at (ul_bm v) q x) \<and>
    (\<forall>q d. q \<noteq> up_page p \<longrightarrow> page_content (ul_bm u) q = Some d \<longrightarrow> page_content (ul_bm v) q = Some d)"
  using append_undo [OF assms] unfolding undo_appended_def by blast

theorem undo_append_keeps_versions_witness:
  "\<exists>p v. ULM_AppendUndoRecord demo_version 5 null_ptr demo_undo = (Inr p, v) \<and>
     record_at (ul_bm v) p (undo_bytes null_ptr 5 [1, 2, 3])"
  using undo_append_keeps_versions [OF demo_undo_ok demo_version_holds, of 5 null_ptr] by auto

text \<open>C20. Reading a version back: appending an old version and then following the returned pointer gives a
  tuple with exactly the bytes that were appended.\<close>

theorem undo_append_get_roundtrip:
  assumes "ul_inv u" "addressable (bm_next_id (ul_bm u))" "tuple_holds t pl" "44 + length pl \<le> PAGE_SIZE" "pl \<noteq> []"
  shows "\<exists>p v t' w. ULM_AppendUndoRecord t trx ptr u = (Inr p, v) \<and> ULM_GetUndoRecord p v = (Inr t', w) \<and> tuple_holds t' pl"
proof -
  obtain p v where a: "ULM_AppendUndoRecord t trx ptr u = (Inr p, v)" "undo_appended u ptr trx pl p v"
    using append_undo [OF assms(1-4)] by blast
  then have v: "ul_inv v" "ul_page v = up_page p" "up_page p \<noteq> 0" "record_at (ul_bm v) p (undo_bytes ptr trx pl)"
    by (simp_all add: undo_appended_def)
  then have ok: "pool_ok (ul_bm v)" "bm_free (ul_bm v) \<noteq> []" "addressable (up_page p)" "backed (ul_bm v) (up_page p)"
    by (auto simp: ul_inv_def)
  from get_undo [OF ok v(4) assms(5)]
  obtain w where "ULM_GetUndoRecord p v = (Inr (Tuple_new\<lparr>t_size := word_of_nat (length pl), t_data := Some pl\<rparr>), w)" by blast
  moreover have "tuple_holds (Tuple_new\<lparr>t_size := word_of_nat (length pl), t_data := Some pl\<rparr>) pl"
    using assms(4) by (simp add: tuple_holds_def unat_of_nat take_bit_eq_mod)
  ultimately show ?thesis using a(1) by blast
qed

theorem undo_append_get_roundtrip_witness:
  "\<exists>p v t' w. ULM_AppendUndoRecord demo_version 5 null_ptr demo_undo = (Inr p, v) \<and>
     ULM_GetUndoRecord p v = (Inr t', w) \<and> tuple_holds t' [1, 2, 3]"
  using undo_append_get_roundtrip [OF demo_undo_ok demo_version_holds, of 5 null_ptr] by simp

end
