(* ===== verification/Transactions.thy ===== *)
theory Transactions
  imports Table_Page Undo_Log
begin

text \<open>
  Transactions (\<^verbatim>\<open>include/transaction/transaction.h\<close>, \<^verbatim>\<open>write_record.h\<close>), the read view (\<^verbatim>\<open>transaction/read_view.cpp\<close>)
  and the in-memory part of the transaction manager (\<^verbatim>\<open>transaction/transaction_manager.cpp\<close>): ids, the active set, the
  states, snapshots.  Shown: a snapshot sees exactly what was committed when it was taken, and keeps doing so whatever
  other transactions begin, commit or abort; nothing an unfinished or aborted transaction wrote is ever visible to others.
  The parts of commit and abort that touch the log and the pages are in the theory \<open>Txn_Storage\<close>.
\<close>

section \<open>Data\<close>

datatype TransactionState = COMMITTED | ABORTED | IN_PROGRESS | ACTIVE

datatype IsolationLevel = READ_UNCOMMITTED | READ_COMMITTED | REPEATABLE_READ | SERIALIZED

datatype WriteType = W_INSERT | W_DELETE | W_UPDATE_DELETE_OLD | W_UPDATE_INSERT_NEW

record WriteRecord =
  wr_rid :: RID
  wr_type :: WriteType
  wr_table_id :: entry_id
  wr_prev_trx_id :: tx_id_t
  wr_prev_roll_ptr :: UndoPointer
  wr_prev_flags :: u16

text \<open>\<open>rv_manager\<close> says that the pointer to the manager is set; the manager itself is an argument of \<^verbatim>\<open>IsVisible\<close>.\<close>

record ReadView =
  rv_create :: tx_id_t
  rv_up :: tx_id_t
  rv_low :: tx_id_t
  rv_active :: "tx_id_t list"
  rv_manager :: bool

record Transaction =
  tx_id :: tx_id_t
  tx_state :: TransactionState
  tx_isolation :: IsolationLevel
  tx_autocommit :: bool
  tx_read_only :: bool
  tx_read_view :: "ReadView option"
  tx_undo_ids :: "UndoPointer list"
  tx_write_set :: "WriteRecord list"

abbreviation (input) INVALID_TX_ID :: tx_id_t where "INVALID_TX_ID \<equiv> 0"

text \<open>
  A \<^verbatim>\<open>shared_ptr\<close> to a transaction is represented by its id, and \<open>tm_objs\<close> holds the objects, which outlive their entry
  in \<^verbatim>\<open>active_txns\<close>: the session and the executors keep the pointer.  \<open>tm_active\<close> lists the keys of \<^verbatim>\<open>active_txns\<close>, in
  the order of iteration.  \<open>tm_storage\<close> and \<open>tm_log\<close> say whether the storage and log pointers were injected.
\<close>

record TransactionManager =
  tm_next :: tx_id_t
  tm_active :: "tx_id_t list"
  tm_objs :: "tx_id_t \<Rightarrow> Transaction option"
  tm_state :: "tx_id_t \<Rightarrow> TransactionState option"
  tm_storage :: bool
  tm_log :: bool

definition TransactionManager_new :: TransactionManager where
  "TransactionManager_new = \<lparr>tm_next = 1, tm_active = [], tm_objs = (\<lambda>_. None), tm_state = (\<lambda>_. None), tm_storage = False,
     tm_log = False\<rparr>"

section \<open>Operations\<close>

definition TM_SetStorage :: "TransactionManager \<Rightarrow> TransactionManager" where
  "TM_SetStorage s = s\<lparr>tm_storage := True\<rparr>"

definition TM_SetLogManager :: "TransactionManager \<Rightarrow> TransactionManager" where
  "TM_SetLogManager s = s\<lparr>tm_log := True\<rparr>"

definition GetNextTxId :: "TransactionManager \<Rightarrow> tx_id_t \<times> TransactionManager" where
  "GetNextTxId s = (tm_next s, s\<lparr>tm_next := tm_next s + 1\<rparr>)"

definition TM_GetState :: "TransactionManager \<Rightarrow> tx_id_t \<Rightarrow> TransactionState option" where
  "TM_GetState s i = tm_state s i"

definition TM_IsCommitted :: "TransactionManager \<Rightarrow> tx_id_t \<Rightarrow> bool" where
  "TM_IsCommitted s i = (tm_state s i = Some COMMITTED)"

definition TM_IsAborted :: "TransactionManager \<Rightarrow> tx_id_t \<Rightarrow> bool" where
  "TM_IsAborted s i = (tm_state s i = Some ABORTED)"

definition SetTxnState :: "tx_id_t \<Rightarrow> TransactionState \<Rightarrow> TransactionManager \<Rightarrow> TransactionManager" where
  "SetTxnState i st s = s\<lparr>tm_state := (tm_state s)(i \<mapsto> st)\<rparr>"

definition AdvanceNextTxId :: "tx_id_t \<Rightarrow> TransactionManager \<Rightarrow> TransactionManager" where
  "AdvanceNextTxId n s = (if tm_next s < n + 1 then s\<lparr>tm_next := n + 1\<rparr> else s)"

definition IsVisible :: "TransactionManager \<Rightarrow> ReadView \<Rightarrow> tx_id_t \<Rightarrow> bool" where
  "IsVisible s v x =
     (if x = INVALID_TX_ID then True
      else if x = rv_create v then True
      else if rv_manager v \<and> TM_IsAborted s x then False
      else if rv_low v \<le> x then False
      else if x \<in> set (rv_active v) then False
      else if x < rv_up v then \<not> (rv_manager v \<and> TM_IsAborted s x)
      else if rv_manager v then TM_IsCommitted s x
      else True)"

text \<open>The object of an active transaction: the map never holds a null pointer.\<close>

definition txn_of :: "TransactionManager \<Rightarrow> tx_id_t \<Rightarrow> Transaction" where
  "txn_of s i = (case tm_objs s i of Some t \<Rightarrow> t
     | None \<Rightarrow> \<lparr>tx_id = INVALID_TX_ID, tx_state = IN_PROGRESS, tx_isolation = REPEATABLE_READ, tx_autocommit = False,
                tx_read_only = False, tx_read_view = None, tx_undo_ids = [], tx_write_set = []\<rparr>)"

definition update_txn :: "tx_id_t \<Rightarrow> (Transaction \<Rightarrow> Transaction) \<Rightarrow> TransactionManager \<Rightarrow> TransactionManager" where
  "update_txn i f s = s\<lparr>tm_objs := (tm_objs s)(i \<mapsto> f (txn_of s i))\<rparr>"

fun collect_active :: "TransactionManager \<Rightarrow> tx_id_t \<Rightarrow> tx_id_t list \<Rightarrow> ReadView \<Rightarrow> ReadView" where
  "collect_active s i [] v = v"
| "collect_active s i (a # as) v =
     (if a = i \<or> tx_state (txn_of s a) \<noteq> IN_PROGRESS then collect_active s i as v
      else collect_active s i as (v\<lparr>rv_active := rv_active v @ [a], rv_up := min (rv_up v) a\<rparr>))"

definition CreateReadView :: "tx_id_t \<Rightarrow> TransactionManager \<Rightarrow> ReadView" where
  "CreateReadView i s = collect_active s i (tm_active s)
     \<lparr>rv_create = i, rv_up = tm_next s, rv_low = tm_next s, rv_active = [], rv_manager = True\<rparr>"

text \<open>The two critical sections of \<^verbatim>\<open>Begin\<close>: registration, then the snapshot.\<close>

definition begin_register :: "TransactionManager \<Rightarrow> tx_id_t \<times> TransactionManager" where
  "begin_register s = (case GetNextTxId s of (i, t) \<Rightarrow>
     (i, t\<lparr>tm_objs := (tm_objs t)(i \<mapsto> \<lparr>tx_id = i, tx_state = IN_PROGRESS, tx_isolation = REPEATABLE_READ, tx_autocommit = False,
            tx_read_only = False, tx_read_view = None, tx_undo_ids = [], tx_write_set = []\<rparr>),
          tm_active := List.insert i (tm_active t), tm_state := (tm_state t)(i \<mapsto> IN_PROGRESS)\<rparr>))"

definition take_view :: "tx_id_t \<Rightarrow> TransactionManager \<Rightarrow> TransactionManager" where
  "take_view i s = update_txn i (\<lambda>x. x\<lparr>tx_read_view := Some (CreateReadView i s)\<rparr>) s"

definition TM_Begin :: "TransactionManager \<Rightarrow> tx_id_t \<times> TransactionManager" where
  "TM_Begin s = (case begin_register s of (i, t) \<Rightarrow> (i, take_view i t))"

text \<open>The critical section of \<^verbatim>\<open>Commit\<close> and the last one of \<^verbatim>\<open>Abort\<close>.\<close>

definition finish_txn :: "tx_id_t \<Rightarrow> TransactionState \<Rightarrow> TransactionManager \<Rightarrow> TransactionManager" where
  "finish_txn i st s = (update_txn i (\<lambda>x. x\<lparr>tx_state := st\<rparr>) s)
     \<lparr>tm_state := (tm_state s)(i \<mapsto> st), tm_active := removeAll i (tm_active s)\<rparr>"

definition push_write :: "tx_id_t \<Rightarrow> WriteRecord \<Rightarrow> TransactionManager \<Rightarrow> TransactionManager" where
  "push_write i w = update_txn i (\<lambda>x. x\<lparr>tx_write_set := tx_write_set x @ [w]\<rparr>)"

section \<open>Runs of the manager\<close>

text \<open>
  Every transaction is driven by one session, so a commit or an abort concerns an active transaction.  Steps of different
  sessions interleave between the critical sections, also between the two of \<^verbatim>\<open>Begin\<close>.  These are the steps of a server whose log
  is empty when it starts: the recovery, which sets the states of the transactions in the log and raises the next id before the
  first transaction, is no step, since a run that starts after it does not isolate snapshots (shown in \<open>Recovery\<close>).
\<close>

inductive tm_step :: "TransactionManager \<Rightarrow> TransactionManager \<Rightarrow> bool" where
  registers: "begin_register s = (i, t) \<Longrightarrow> tm_step s t"
| takes_view: "i \<in> set (tm_active s) \<Longrightarrow> tm_step s (take_view i s)"
| commits: "i \<in> set (tm_active s) \<Longrightarrow> tm_step s (finish_txn i COMMITTED s)"
| aborts: "i \<in> set (tm_active s) \<Longrightarrow> tm_step s (finish_txn i ABORTED s)"
| sets_storage: "tm_step s (TM_SetStorage s)"
| sets_log: "tm_step s (TM_SetLogManager s)"
| writes: "i \<in> set (tm_active s) \<Longrightarrow> tm_step s (push_write i w s)"

text \<open>\<open>tm_run n s t\<close>: the manager gets from \<open>s\<close> to \<open>t\<close>, beginning \<open>n\<close> transactions.\<close>

inductive tm_run :: "nat \<Rightarrow> TransactionManager \<Rightarrow> TransactionManager \<Rightarrow> bool" where
  run_refl: "tm_run 0 s s"
| run_step: "tm_run n s t \<Longrightarrow> tm_step t u \<Longrightarrow> tm_run (n + (if tm_next u = tm_next t then 0 else 1)) s u"

section \<open>The invariant\<close>

definition known_final :: "TransactionManager \<Rightarrow> tx_id_t \<Rightarrow> bool" where
  "known_final s x \<longleftrightarrow> tm_state s x = Some COMMITTED \<or> tm_state s x = Some ABORTED"

text \<open>
  All ids handed out so far are known, the active transactions are those in progress, and the objects agree with the
  table of states.
\<close>

definition tm_inv :: "TransactionManager \<Rightarrow> bool" where
  "tm_inv s \<longleftrightarrow> tm_next s \<noteq> 0 \<and> distinct (tm_active s) \<and>
     (\<forall>x. 0 < x \<and> x < tm_next s \<longrightarrow> (if x \<in> set (tm_active s) then tm_state s x = Some IN_PROGRESS else known_final s x)) \<and>
     (\<forall>x. x = 0 \<or> tm_next s \<le> x \<longrightarrow> tm_state s x = None \<and> x \<notin> set (tm_active s)) \<and>
     (\<forall>x \<in> set (tm_active s). \<exists>t. tm_objs s x = Some t \<and> tx_state t = IN_PROGRESS \<and> tx_id t = x)"

lemma tm_inv_new: "tm_inv TransactionManager_new"
  unfolding tm_inv_def TransactionManager_new_def by (auto simp: word_less_1 simp flip: word_neq_0_conv)

lemma tm_inv_active: "tm_inv s \<Longrightarrow> i \<in> set (tm_active s) \<Longrightarrow> 0 < i \<and> i < tm_next s \<and> tm_state s i = Some IN_PROGRESS"
  unfolding tm_inv_def by (metis linorder_not_less word_neq_0_conv)

lemma tm_inv_unknown: "tm_inv s \<Longrightarrow> tm_next s \<le> x \<Longrightarrow> tm_state s x = None \<and> x \<notin> set (tm_active s)"
  unfolding tm_inv_def by blast

lemma tm_inv_final: "tm_inv s \<Longrightarrow> 0 < x \<Longrightarrow> x < tm_next s \<Longrightarrow> x \<notin> set (tm_active s) \<Longrightarrow> known_final s x"
  unfolding tm_inv_def by meson

lemma tm_inv_obj: "tm_inv s \<Longrightarrow> x \<in> set (tm_active s) \<Longrightarrow> tx_state (txn_of s x) = IN_PROGRESS \<and> tx_id (txn_of s x) = x \<and> tm_objs s x \<noteq> None"
  unfolding tm_inv_def by (fastforce simp: txn_of_def)

lemma update_txn_fields [simp]:
  "tm_next (update_txn i f s) = tm_next s" "tm_active (update_txn i f s) = tm_active s" "tm_state (update_txn i f s) = tm_state s"
  "tm_objs (update_txn i f s) = (tm_objs s)(i \<mapsto> f (txn_of s i))"
  by (simp_all add: update_txn_def)

lemma tm_inv_update:
  assumes "tm_inv s" "i \<in> set (tm_active s)" "\<And>x. tx_state (f x) = tx_state x" "\<And>x. tx_id (f x) = tx_id x"
  shows "tm_inv (update_txn i f s)"
  using assms tm_inv_obj [OF assms(1,2)] unfolding tm_inv_def known_final_def by simp

lemma finish_txn_fields [simp]:
  "tm_next (finish_txn i st s) = tm_next s" "tm_active (finish_txn i st s) = removeAll i (tm_active s)"
  "tm_state (finish_txn i st s) = (tm_state s)(i \<mapsto> st)"
  "tm_objs (finish_txn i st s) = (tm_objs s)(i \<mapsto> (txn_of s i)\<lparr>tx_state := st\<rparr>)"
  by (simp_all add: finish_txn_def)

lemma tm_inv_finish:
  assumes "tm_inv s" "i \<in> set (tm_active s)" "st = COMMITTED \<or> st = ABORTED"
  shows "tm_inv (finish_txn i st s)"
  using assms tm_inv_active [OF assms(1,2)] unfolding tm_inv_def known_final_def
  by (auto simp: distinct_removeAll split: if_splits)

lemma begin_register_fields:
  assumes "begin_register s = (i, t)"
  shows "i = tm_next s" "tm_next t = tm_next s + 1" "tm_active t = List.insert i (tm_active s)"
    "tm_state t = (tm_state s)(i \<mapsto> IN_PROGRESS)"
    "\<exists>x. tm_objs t = (tm_objs s)(i \<mapsto> x) \<and> tx_state x = IN_PROGRESS \<and> tx_id x = i \<and> tx_write_set x = [] \<and> tx_read_view x = None"
  using assms by (auto simp: begin_register_def GetNextTxId_def)

lemma tm_inv_register:
  assumes "tm_inv s" "begin_register s = (i, t)" "tm_next t \<noteq> 0"
  shows "tm_inv t"
proof -
  note t = begin_register_fields [OF assms(2)]
  have n: "tm_next s + 1 \<noteq> 0" using assms(3) t(2) by simp
  have i: "i \<notin> set (tm_active s)" "tm_state s i = None" "i \<noteq> 0"
    using tm_inv_unknown [OF assms(1), of i] assms(1) t(1) by (simp_all add: tm_inv_def)
  have le: "tm_next s + 1 \<le> x \<longleftrightarrow> tm_next s \<le> x \<and> x \<noteq> i" for x
    using next_word_less [OF n, of x] t(1) by (auto simp: not_less [symmetric])
  show ?thesis
    using assms(1) i t(5) n unfolding tm_inv_def known_final_def
    by (auto simp: t(1-4) le [unfolded t(1)] next_word_less [OF n])
qed

lemma tm_inv_flags: "tm_inv (TM_SetStorage s) = tm_inv s" "tm_inv (TM_SetLogManager s) = tm_inv s"
  by (simp_all add: tm_inv_def known_final_def TM_SetStorage_def TM_SetLogManager_def)

lemma tm_inv_step: "tm_step s t \<Longrightarrow> tm_inv s \<Longrightarrow> tm_next t \<noteq> 0 \<Longrightarrow> tm_inv t"
  by (induction rule: tm_step.induct)
    (auto simp: take_view_def push_write_def tm_inv_flags intro: tm_inv_register tm_inv_update tm_inv_finish)

text \<open>Only a registration changes the next id, by one.\<close>

lemma tm_step_next: "tm_step s t \<Longrightarrow> tm_next t = tm_next s \<or> tm_next t = tm_next s + 1"
  by (induction rule: tm_step.induct)
    (auto simp: take_view_def push_write_def TM_SetStorage_def TM_SetLogManager_def begin_register_fields)

lemma tm_run_next: "tm_run n s t \<Longrightarrow> unat (tm_next s) + n < 2 ^ 64 \<Longrightarrow> unat (tm_next t) = unat (tm_next s) + n"
proof (induction rule: tm_run.induct)
  case (run_step n s t u)
  show ?case
  proof (cases "tm_next u = tm_next t")
    case False
    then have u: "tm_next u = tm_next t + 1" using tm_step_next [OF run_step.hyps(2)] by simp
    have "unat (tm_next t) = unat (tm_next s) + n" using run_step False by simp
    moreover from this have "unat (tm_next t + 1) = unat (tm_next t) + 1"
      using run_step.prems False by (subst unat_add_u64) simp_all
    ultimately show ?thesis using u False by simp
  qed (use run_step in simp)
qed simp

lemma tm_run_inv:
  assumes "tm_run n s t" "tm_inv s" "unat (tm_next s) + n < 2 ^ 64"
  shows "tm_inv t"
  using assms
proof (induction rule: tm_run.induct)
  case (run_step n s t u)
  have "unat (tm_next u) = unat (tm_next s) + (n + (if tm_next u = tm_next t then 0 else 1))"
    by (rule tm_run_next [OF tm_run.run_step [OF run_step.hyps(1,2)] run_step.prems(2)])
  moreover have "tm_next s \<noteq> 0" using run_step.prems(1) by (simp add: tm_inv_def)
  ultimately have "tm_next u \<noteq> 0" by (auto simp: word_unat_eq_iff)
  then show ?case using run_step tm_inv_step by simp
qed

lemma final_step: "tm_step s t \<Longrightarrow> tm_inv s \<Longrightarrow> known_final s x \<Longrightarrow> tm_state t x = tm_state s x"
proof (induction rule: tm_step.induct)
  case (registers s i t)
  then show ?case using begin_register_fields [OF registers(1)] tm_inv_unknown [of s i] by (auto simp: known_final_def)
qed (auto simp: take_view_def push_write_def TM_SetStorage_def TM_SetLogManager_def known_final_def dest: tm_inv_active)

lemma final_run:
  assumes "tm_run n s t" "tm_inv s" "unat (tm_next s) + n < 2 ^ 64" "known_final s x"
  shows "tm_state t x = tm_state s x"
  using assms
proof (induction rule: tm_run.induct)
  case (run_step n s t u)
  have b: "unat (tm_next s) + n < 2 ^ 64" using run_step.prems(2) by simp
  have t: "tm_state t x = tm_state s x" using run_step.IH run_step.prems b by simp
  then have "known_final t x" using run_step.prems(3) by (simp add: known_final_def)
  then show ?case using final_step [OF run_step.hyps(2) tm_run_inv [OF run_step.hyps(1) run_step.prems(1) b]] t by simp
qed simp

section \<open>Snapshots\<close>

lemma collect_active_fields:
  "rv_create (collect_active s i as v) = rv_create v \<and> rv_low (collect_active s i as v) = rv_low v \<and>
   rv_manager (collect_active s i as v) = rv_manager v \<and> rv_up (collect_active s i as v) \<le> rv_up v"
  by (induction s i as v rule: collect_active.induct) (auto simp: min_le_iff_disj intro: order_trans)

lemma collect_active_ids:
  "\<forall>a \<in> set as. tx_state (txn_of s a) = IN_PROGRESS \<Longrightarrow> rv_active (collect_active s i as v) = rv_active v @ filter (\<lambda>a. a \<noteq> i) as"
  by (induction s i as v rule: collect_active.induct) auto

lemma read_view_fields:
  assumes "tm_inv s"
  shows "rv_create (CreateReadView i s) = i" "rv_low (CreateReadView i s) = tm_next s" "rv_manager (CreateReadView i s)"
    "set (rv_active (CreateReadView i s)) = set (tm_active s) - {i}" "rv_up (CreateReadView i s) \<le> tm_next s"
  using collect_active_fields [of s i] collect_active_ids [of "tm_active s" s i] tm_inv_obj [OF assms]
  unfolding CreateReadView_def by (force, force, force, auto) (metis ReadView.select_convs(2))

lemma visible_later:
  assumes "tm_inv s" "\<forall>x. known_final s x \<longrightarrow> tm_state t x = tm_state s x"
  shows "IsVisible t (CreateReadView i s) x \<longleftrightarrow> x = 0 \<or> x = i \<or> TM_IsCommitted s x"
proof (cases "x = 0 \<or> x = i")
  case False
  note v = read_view_fields [OF assms(1), of i]
  consider "tm_next s \<le> x" | "x \<in> set (tm_active s)" | "x < tm_next s" "x \<notin> set (tm_active s)" by fastforce
  then show ?thesis
  proof cases
    case 1
    then show ?thesis using False v tm_inv_unknown [OF assms(1) 1] by (simp add: IsVisible_def TM_IsCommitted_def)
  next
    case 2
    then show ?thesis using False v tm_inv_active [OF assms(1) 2] by (simp add: IsVisible_def TM_IsCommitted_def)
  next
    case 3
    have "known_final s x" using tm_inv_final [OF assms(1)] False 3 by (simp add: word_neq_0_conv)
    then show ?thesis
      using False v 3 assms(2) by (auto simp: IsVisible_def TM_IsCommitted_def TM_IsAborted_def known_final_def)
  qed
qed (use read_view_fields [OF assms(1), of i] in \<open>auto simp: IsVisible_def\<close>)

text \<open>C12.
  Snapshot isolation of reads: a read view taken for transaction \<open>i\<close> in any reachable state sees a version of transaction
  \<open>x\<close>, at any later time, exactly if \<open>x\<close> is the transaction itself, or had committed when the view was taken, or is the
  id 0 of data written outside transactions.  Later begins, commits and aborts of others do not change what it sees
  (repeatable read), and the changes of unfinished or aborted transactions are never seen (no dirty read).
\<close>

theorem snapshot_isolation:
  assumes "tm_run m TransactionManager_new s" "tm_run n s t" "m + n + 1 < 2 ^ 64"
  shows "IsVisible t (CreateReadView i s) x \<longleftrightarrow> x = INVALID_TX_ID \<or> x = i \<or> TM_IsCommitted s x"
proof -
  have one: "unat (tm_next TransactionManager_new) = 1" by (simp add: TransactionManager_new_def)
  have s: "tm_inv s" using tm_run_inv [OF assms(1) tm_inv_new] assms(3) one by simp
  have "unat (tm_next s) = 1 + m" using tm_run_next [OF assms(1)] assms(3) one by simp
  then have "unat (tm_next s) + n < 2 ^ 64" using assms(3) by simp
  then show ?thesis using visible_later [OF s] final_run [OF assms(2) s] by blast
qed

lemma tm_run_register: "tm_run n s t \<Longrightarrow> tm_next t + 1 \<noteq> tm_next t \<Longrightarrow> tm_run (n + 1) s (snd (begin_register t))"
  using run_step [OF _ registers, of n s t "fst (begin_register t)" "snd (begin_register t)"]
    begin_register_fields [of t "fst (begin_register t)" "snd (begin_register t)"] by simp

lemma tm_run_commit: "tm_run n s t \<Longrightarrow> i \<in> set (tm_active t) \<Longrightarrow> tm_run n s (finish_txn i COMMITTED t)"
  using run_step [OF _ commits, of n s t i] by simp

definition demo_s1 :: TransactionManager where
  "demo_s1 = finish_txn 1 COMMITTED (snd (begin_register (snd (begin_register TransactionManager_new))))"

definition demo_s2 :: TransactionManager where
  "demo_s2 = finish_txn 3 COMMITTED (snd (begin_register demo_s1))"

lemma demo_runs: "tm_run 2 TransactionManager_new demo_s1" "tm_run 1 demo_s1 demo_s2"
proof -
  show "tm_run 2 TransactionManager_new demo_s1"
    using tm_run_commit [OF tm_run_register [OF tm_run_register [OF run_refl]], of TransactionManager_new 1]
    by (simp add: demo_s1_def numeral_2_eq_2) (simp add: begin_register_def GetNextTxId_def TransactionManager_new_def)
  show "tm_run 1 demo_s1 demo_s2"
    using tm_run_commit [OF tm_run_register [OF run_refl], of demo_s1 3]
    by (simp add: demo_s2_def) (simp add: demo_s1_def begin_register_def GetNextTxId_def TransactionManager_new_def)
qed

text \<open>Transaction 2 sees the commit of 1, made before its view, but neither before nor after its commit that of 3.\<close>

lemma snapshot_isolation_witness:
  "IsVisible demo_s2 (CreateReadView 2 demo_s1) 1 \<and> \<not> IsVisible demo_s2 (CreateReadView 2 demo_s1) 3 \<and> TM_IsCommitted demo_s2 3"
  using snapshot_isolation [OF demo_runs, of 2 1] snapshot_isolation [OF demo_runs, of 2 3]
  by (simp add: demo_s1_def demo_s2_def TM_IsCommitted_def begin_register_def GetNextTxId_def TransactionManager_new_def)

text \<open>\<^verbatim>\<open>Begin\<close> gives every transaction an id that was never used before and is not 0: until \<open>2 ^ 64\<close> ids have been used up, the
  new id is unknown to the manager, the transaction is active and in progress, and its view is a snapshot of the
  manager's state just after the registration.
\<close>

theorem begin_fresh:
  assumes "tm_run m TransactionManager_new s" "m + 2 < 2 ^ 64" "TM_Begin s = (i, t)"
  shows "i \<noteq> INVALID_TX_ID \<and> unat i = m + 1 \<and> tm_state s i = None \<and> i \<notin> set (tm_active s) \<and>
    set (tm_active t) = insert i (set (tm_active s)) \<and> TM_GetState t i = Some IN_PROGRESS \<and>
    tx_read_view (txn_of t i) = Some (CreateReadView i (snd (begin_register s))) \<and> tm_inv t"
proof -
  have one: "unat (tm_next TransactionManager_new) = 1" by (simp add: TransactionManager_new_def)
  have s: "tm_inv s" using tm_run_inv [OF assms(1) tm_inv_new] assms(2) one by simp
  have n: "unat (tm_next s) = 1 + m" using tm_run_next [OF assms(1)] assms(2) one by simp
  obtain j r where r: "begin_register s = (j, r)" by fastforce
  note f = begin_register_fields [OF r]
  have ij: "j = i" "t = take_view i r" using assms(3) r by (auto simp: TM_Begin_def)
  have "unat (tm_next s + 1) = 2 + m" using n assms(2) by (subst unat_add_u64) simp_all
  then have "tm_next r \<noteq> 0" using f(2) by (auto simp: word_unat_eq_iff)
  then have rinv: "tm_inv r" using tm_inv_register [OF s r] by simp
  moreover have "i \<in> set (tm_active r)" using f(3) ij by simp
  ultimately have "tm_inv t" unfolding ij take_view_def by (intro tm_inv_update) simp_all
  then show ?thesis
    using tm_inv_unknown [OF s, of i] f n ij r s
    by (auto simp: take_view_def txn_of_def TM_GetState_def tm_inv_def)
qed

lemma begin_fresh_witness:
  "fst (TM_Begin demo_s1) \<noteq> 0 \<and> tm_state demo_s1 (fst (TM_Begin demo_s1)) = None \<and> TM_GetState (snd (TM_Begin demo_s1)) (fst (TM_Begin demo_s1)) = Some IN_PROGRESS"
  using begin_fresh [OF demo_runs(1), of "fst (TM_Begin demo_s1)" "snd (TM_Begin demo_s1)"] by simp

end
