(* ===== verification/Wal.thy ===== *)
theory Wal
  imports Disk
begin

text \<open>
  The write-ahead log: record formats (\<^verbatim>\<open>include/log/log_record.h\<close>, \<^verbatim>\<open>include/log/log_payload.h\<close>), the double
  buffer with its flush thread (\<^verbatim>\<open>log/log_buffer.cpp\<close>), the log manager (\<^verbatim>\<open>log/log_manager.cpp\<close>) and the parser
  that recovery uses (\<^verbatim>\<open>RecoveryManager::ReadLog\<close>).  Shown: what is appended is read back record by record,
  also when the tail of the file is torn; for one client at a time the double buffer is an append-only log,
  whatever the flush thread does in between; with two clients it can lose flushed bytes.
\<close>

section \<open>Records\<close>

datatype LogRecordType = LR_BEGIN | LR_COMMIT | LR_ABORT | LR_INSERT_ROW | LR_UPDATE_ROW | LR_DELETE_ROW
  | LR_INSERT_UNDO | LR_PAGE_NEW | LR_CHECKPOINT

fun LogRecordType_code :: "LogRecordType \<Rightarrow> u8" where
  "LogRecordType_code LR_BEGIN = 0"
| "LogRecordType_code LR_COMMIT = 1"
| "LogRecordType_code LR_ABORT = 2"
| "LogRecordType_code LR_INSERT_ROW = 3"
| "LogRecordType_code LR_UPDATE_ROW = 4"
| "LogRecordType_code LR_DELETE_ROW = 5"
| "LogRecordType_code LR_INSERT_UNDO = 6"
| "LogRecordType_code LR_PAGE_NEW = 7"
| "LogRecordType_code LR_CHECKPOINT = 8"

text \<open>\<^verbatim>\<open>LogRecord\<close> with its header; the lsn of the argument is never used.  A null payload is \<open>None\<close>.\<close>

record LogRecord =
  lr_tx_id :: tx_id_t
  lr_type :: LogRecordType
  lr_payload_size :: u32
  lr_payload :: "bytes option"

record LogDataPayload =
  lp_table :: entry_id
  lp_page :: page_id_t
  lp_row :: row_id_t
  lp_image :: bytes

definition LogDataPayload_Encode :: "LogDataPayload \<Rightarrow> bytes" where
  "LogDataPayload_Encode p = le_bytes 8 (lp_table p) @ le_bytes 8 (lp_page p) @ le_bytes 8 (lp_row p) @
     le_bytes 4 (word_of_nat (length (lp_image p)) :: u32) @ lp_image p"

definition LogDataPayload_Decode :: "bytes \<Rightarrow> LogDataPayload res" where
  "LogDataPayload_Decode d =
     (if length d < 28 then Inr \<lparr>lp_table = 0, lp_page = 0, lp_row = 0, lp_image = []\<rparr>
      else (case mem_read 28 (unat (le_word (peek 24 4 d) :: u32)) d of
         Inl e \<Rightarrow> Inl e
       | Inr img \<Rightarrow> Inr \<lparr>lp_table = le_word (peek 0 8 d), lp_page = le_word (peek 8 8 d), lp_row = le_word (peek 16 8 d),
                          lp_image = img\<rparr>))"

section \<open>The log buffer\<close>

text \<open>Both buffers are arrays of \<^verbatim>\<open>capacity_\<close> bytes; only \<^verbatim>\<open>cur_offset_\<close> and \<^verbatim>\<open>flush_size_\<close> bytes of them count.\<close>

record LogBuffer =
  lb_capacity :: nat
  lb_log :: bytes
  lb_flush :: bytes
  lb_cur :: nat
  lb_flush_size :: nat
  lb_is_flush :: bool
  lb_disk :: LogDisk

definition LogBuffer_new :: "nat \<Rightarrow> LogDisk \<Rightarrow> LogBuffer" where
  "LogBuffer_new n d = \<lparr>lb_capacity = n, lb_log = replicate n 0, lb_flush = replicate n 0, lb_cur = 0,
     lb_flush_size = 0, lb_is_flush = False, lb_disk = d\<rparr>"

definition SwapBuffers :: "LogBuffer \<Rightarrow> LogBuffer" where
  "SwapBuffers b = b\<lparr>lb_log := lb_flush b, lb_flush := lb_log b, lb_flush_size := lb_cur b, lb_cur := 0\<rparr>"

text \<open>One round of the flush thread, from its wake-up to the notification.\<close>

definition backend_round :: "(LogBuffer, unit) comp" where
  "backend_round = bnd (gets (\<lambda>b. (lb_flush_size b, lb_flush b))) (\<lambda>(n, fl).
     thn (on_cond (0 < n) (zoom lb_disk (\<lambda>d b. b\<lparr>lb_disk := d\<rparr>) (LogDiskManager_Write (take n fl))))
     (modify (\<lambda>b. b\<lparr>lb_is_flush := False\<rparr>)))"

text \<open>Swap, wake the flush thread, wait until it is done.\<close>

definition swap_and_wait :: "(LogBuffer, unit) comp" where
  "swap_and_wait = thn (modify (\<lambda>b. (SwapBuffers b)\<lparr>lb_is_flush := True\<rparr>)) backend_round"

definition LB_Flush :: "(LogBuffer, unit) comp" where
  "LB_Flush = bnd (gets lb_cur) (\<lambda>c. if c = 0 then ret () else swap_and_wait)"

definition buffer_copy :: "bytes \<Rightarrow> (LogBuffer, unit) comp" where
  "buffer_copy data = bnd (gets (\<lambda>b. mem_write (lb_cur b) data (lb_log b))) (\<lambda>r. bnd (of_res r) (\<lambda>l.
     modify (\<lambda>b. b\<lparr>lb_log := l, lb_cur := lb_cur b + length data\<rparr>)))"

definition LB_Write :: "bytes \<Rightarrow> (LogBuffer, unit) comp" where
  "LB_Write data = bnd (gets (\<lambda>b. (lb_capacity b, lb_cur b))) (\<lambda>(cap, cur).
     if cap < length data then throw (RuntimeError ''LogBuffer::Write record larger than buffer capacity'')
     else thn (on_cond (cap < cur + length data) swap_and_wait) (buffer_copy data))"

section \<open>The log manager\<close>

record LogManager =
  lm_buffer :: LogBuffer
  lm_next_lsn :: lsn_t

definition LogManager_new :: "LogBuffer \<Rightarrow> LogManager" where
  "LogManager_new b = \<lparr>lm_buffer = b, lm_next_lsn = 1\<rparr>"

definition GetNextLsn :: "(LogManager, lsn_t) comp" where
  "GetNextLsn = bnd (gets lm_next_lsn) (\<lambda>i. thn (modify (\<lambda>m. m\<lparr>lm_next_lsn := i + 1\<rparr>)) (ret i))"

definition in_buffer :: "(LogBuffer, 'a) comp \<Rightarrow> (LogManager, 'a) comp" where
  "in_buffer = zoom lm_buffer (\<lambda>b m. m\<lparr>lm_buffer := b\<rparr>)"

text \<open>
  The record is assembled in an array of \<^verbatim>\<open>int arr_size\<close> bytes, computed in 32 bits: a huge payload makes it
  negative, which the allocation refuses, or so small that the header does not fit.  \<^verbatim>\<open>make_unique\<close> zeroes the array,
  so a null payload gives zeros.
\<close>

definition payload_of :: "LogRecord \<Rightarrow> bytes res" where
  "payload_of r = (case lr_payload r of
     None \<Rightarrow> Inr (replicate (unat (lr_payload_size r)) 0)
   | Some p \<Rightarrow> mem_read 0 (unat (lr_payload_size r)) p)"

definition AppendLogRecord :: "LogRecord \<Rightarrow> (LogManager, lsn_t) comp" where
  "AppendLogRecord r = (let arr_size = 21 + lr_payload_size r in
     if sint arr_size < 0 then throw BadArrayLength
     else bnd GetNextLsn (\<lambda>i.
       if unat arr_size < 21 then throw MemoryFault
       else bnd (of_res (payload_of r)) (\<lambda>pl.
         thn (in_buffer (LB_Write (le_bytes 8 i @ le_bytes 8 (lr_tx_id r) @ [LogRecordType_code (lr_type r)] @
                le_bytes 4 (lr_payload_size r) @ pl)))
         (ret i))))"

definition LM_Flush :: "(LogManager, unit) comp" where
  "LM_Flush = in_buffer LB_Flush"

section \<open>Reading the log\<close>

text \<open>The type of a record that was read is kept as its byte: it need not be an enumerator.\<close>

record RecoveredLog =
  rl_lsn :: lsn_t
  rl_tx_id :: tx_id_t
  rl_type :: u8
  rl_payload :: bytes

function read_records :: "bytes \<Rightarrow> RecoveredLog list" where
  "read_records bs =
     (if length bs < 21 then []
      else (let n = unat (le_word (peek 17 4 bs) :: u32) in
        if length bs < 21 + n then []
        else \<lparr>rl_lsn = le_word (peek 0 8 bs), rl_tx_id = le_word (peek 8 8 bs), rl_type = le_word (peek 16 1 bs),
              rl_payload = peek 21 n bs\<rparr> # read_records (drop (21 + n) bs)))"
  by pat_completeness auto
termination by (relation "measure length") auto

declare read_records.simps [simp del]

definition ReadLog :: "LogDisk \<Rightarrow> RecoveredLog list" where
  "ReadLog d = read_records (LogDiskManager_ReadAll d)"

section \<open>Round trips\<close>

definition encode_record :: "RecoveredLog \<Rightarrow> bytes" where
  "encode_record r = le_bytes 8 (rl_lsn r) @ le_bytes 8 (rl_tx_id r) @ [rl_type r] @
     le_bytes 4 (word_of_nat (length (rl_payload r)) :: u32) @ rl_payload r"

definition small_payload :: "RecoveredLog \<Rightarrow> bool" where
  "small_payload r \<longleftrightarrow> length (rl_payload r) < 2 ^ 32"

lemma length_encode_record: "length (encode_record r) = 21 + length (rl_payload r)"
  by (simp add: encode_record_def)

lemma read_records_Cons:
  assumes "small_payload r"
  shows "read_records (encode_record r @ rest) = r # read_records rest"
proof -
  have n: "unat (word_of_nat (length (rl_payload r)) :: u32) = length (rl_payload r)"
    using assms by (simp add: small_payload_def unat_of_nat take_bit_eq_mod)
  have p: "peek 0 8 (encode_record r @ rest) = le_bytes 8 (rl_lsn r)" "peek 8 8 (encode_record r @ rest) = le_bytes 8 (rl_tx_id r)"
    "peek 16 1 (encode_record r @ rest) = [rl_type r]"
    "peek 17 4 (encode_record r @ rest) = le_bytes 4 (word_of_nat (length (rl_payload r)) :: u32)"
    "peek 21 (length (rl_payload r)) (encode_record r @ rest) = rl_payload r"
    by (simp_all add: encode_record_def peek_def)
  have d: "drop (21 + length (rl_payload r)) (encode_record r @ rest) = rest" by (simp add: length_encode_record)
  have len: "length (encode_record r @ rest) = 21 + length (rl_payload r) + length rest" by (simp add: length_encode_record)
  have one: "le_word [rl_type r] = rl_type r" by (simp add: le_word_def)
  show ?thesis
    by (subst read_records.simps) (simp add: p n d len one length_encode_record Let_def del: One_nat_def)
qed

lemma read_records_append: "list_all small_payload rs \<Longrightarrow> read_records (concat (map encode_record rs) @ rest) = rs @ read_records rest"
  by (induction rs) (simp_all add: read_records_Cons)

lemma read_records_torn:
  assumes "small_payload r" "n < length (encode_record r)"
  shows "read_records (take n (encode_record r)) = []"
proof (cases "n < 21")
  case True
  then show ?thesis by (subst read_records.simps) (simp add: length_encode_record)
next
  case False
  have n: "unat (word_of_nat (length (rl_payload r)) :: u32) = length (rl_payload r)"
    using assms(1) by (simp add: small_payload_def unat_of_nat take_bit_eq_mod)
  have "peek 17 4 (take n (encode_record r)) = peek 17 4 (encode_record r)"
    using False by (simp add: peek_def drop_take min_def)
  also have "\<dots> = le_bytes 4 (word_of_nat (length (rl_payload r)) :: u32)" by (simp add: encode_record_def peek_def)
  finally have "peek 17 4 (take n (encode_record r)) = le_bytes 4 (word_of_nat (length (rl_payload r)) :: u32)" .
  then show ?thesis
    using assms(2) False n by (subst read_records.simps) (simp add: length_encode_record Let_def)
qed

section \<open>The log as an append-only stream\<close>

text \<open>
  The stream of a log buffer is what is on disk followed by what is buffered; no operation changes more of it than
  its end, and a flush moves all of it to disk.
\<close>

definition lb_ok :: "LogBuffer \<Rightarrow> bool" where
  "lb_ok b \<longleftrightarrow> length (lb_log b) = lb_capacity b \<and> length (lb_flush b) = lb_capacity b \<and> lb_cur b \<le> lb_capacity b \<and>
     log_open (lb_disk b) \<and> \<not> lb_is_flush b"

definition lb_stream :: "LogBuffer \<Rightarrow> bytes" where
  "lb_stream b = log_file (lb_disk b) @ take (lb_cur b) (lb_log b)"

lemma LogBuffer_new_ok: "lb_ok (LogBuffer_new n (LogDiskManager_new f))" "lb_stream (LogBuffer_new n (LogDiskManager_new f)) = f"
  by (simp_all add: lb_ok_def lb_stream_def LogBuffer_new_def LogDiskManager_new_def)

lemma swap_and_wait_run:
  assumes "lb_ok b"
  obtains b' where "swap_and_wait b = (Inr (), b')" "lb_ok b'" "log_file (lb_disk b') = lb_stream b" "lb_cur b' = 0"
    "lb_capacity b' = lb_capacity b"
proof (rule that)
  let ?b = "b\<lparr>lb_log := lb_flush b, lb_flush := lb_log b, lb_flush_size := lb_cur b, lb_cur := 0, lb_is_flush := False,
    lb_disk := (lb_disk b)\<lparr>log_file := log_file (lb_disk b) @ take (lb_cur b) (lb_log b)\<rparr>\<rparr>"
  show "swap_and_wait b = (Inr (), ?b)"
    using assms
    by (cases "0 < lb_cur b")
      (simp_all add: swap_and_wait_def backend_round_def SwapBuffers_def LogDiskManager_Write_def lb_ok_def thn_def bnd_def
        zoom_def comp_simps)
  show "lb_ok ?b" "log_file (lb_disk ?b) = lb_stream b" "lb_cur ?b = 0" "lb_capacity ?b = lb_capacity b"
    using assms by (simp_all add: lb_ok_def lb_stream_def)
qed

lemma LB_Flush_run:
  assumes "lb_ok b"
  obtains b' where "LB_Flush b = (Inr (), b')" "lb_ok b'" "log_file (lb_disk b') = lb_stream b" "lb_stream b' = lb_stream b"
    "lb_capacity b' = lb_capacity b"
proof (cases "lb_cur b = 0")
  case True
  then show ?thesis using assms by (intro that [of b]) (simp_all add: LB_Flush_def lb_stream_def comp_simps)
next
  case False
  obtain b' where b': "swap_and_wait b = (Inr (), b')" "lb_ok b'" "log_file (lb_disk b') = lb_stream b" "lb_cur b' = 0"
    "lb_capacity b' = lb_capacity b" using swap_and_wait_run [OF assms] .
  show ?thesis
    using False b' by (intro that [of b']) (simp_all add: LB_Flush_def lb_stream_def comp_simps)
qed

lemma buffer_copy_run:
  assumes "lb_ok b" "lb_cur b + length data \<le> lb_capacity b"
  obtains b' where "buffer_copy data b = (Inr (), b')" "lb_ok b'" "lb_stream b' = lb_stream b @ data" "lb_disk b' = lb_disk b"
    "lb_capacity b' = lb_capacity b"
proof (rule that)
  let ?b = "b\<lparr>lb_log := poke (lb_cur b) data (lb_log b), lb_cur := lb_cur b + length data\<rparr>"
  show "buffer_copy data b = (Inr (), ?b)" using assms by (simp add: buffer_copy_def lb_ok_def comp_simps)
  show "lb_ok ?b" "lb_disk ?b = lb_disk b" "lb_capacity ?b = lb_capacity b" using assms by (simp_all add: lb_ok_def)
  show "lb_stream ?b = lb_stream b @ data" using assms by (simp add: lb_stream_def lb_ok_def poke_def)
qed

lemma LB_Write_run:
  assumes "lb_ok b" "length data \<le> lb_capacity b"
  obtains b' zs where "LB_Write data b = (Inr (), b')" "lb_ok b'" "lb_stream b' = lb_stream b @ data" "lb_capacity b' = lb_capacity b"
    "log_file (lb_disk b') = log_file (lb_disk b) @ zs"
proof (cases "lb_cur b + length data \<le> lb_capacity b")
  case True
  obtain b' where b': "buffer_copy data b = (Inr (), b')" "lb_ok b'" "lb_stream b' = lb_stream b @ data" "lb_disk b' = lb_disk b"
    "lb_capacity b' = lb_capacity b" using buffer_copy_run [OF assms(1) True] .
  show ?thesis
    using True b' assms(2) by (intro that [of b' "[]"]) (simp_all add: LB_Write_def comp_simps)
next
  case False
  obtain c where c: "swap_and_wait b = (Inr (), c)" "lb_ok c" "log_file (lb_disk c) = lb_stream b" "lb_cur c = 0"
    "lb_capacity c = lb_capacity b" using swap_and_wait_run [OF assms(1)] .
  obtain b' where b': "buffer_copy data c = (Inr (), b')" "lb_ok b'" "lb_stream b' = lb_stream c @ data" "lb_disk b' = lb_disk c"
    "lb_capacity b' = lb_capacity c" using buffer_copy_run [OF c(2), of data] assms(2) c(4,5) by auto
  have "lb_stream c = lb_stream b" using c by (simp add: lb_stream_def)
  moreover have "log_file (lb_disk b') = log_file (lb_disk b) @ take (lb_cur b) (lb_log b)" using b'(4) c(3) by (simp add: lb_stream_def)
  ultimately show ?thesis
    using False b' c(1,5) assms(2) by (intro that [of b']) (simp_all add: LB_Write_def comp_simps)
qed

subsection \<open>Appending records\<close>

definition recovered :: "lsn_t \<Rightarrow> LogRecord \<Rightarrow> RecoveredLog" where
  "recovered i r = \<lparr>rl_lsn = i, rl_tx_id = lr_tx_id r, rl_type = LogRecordType_code (lr_type r),
     rl_payload = (case payload_of r of Inr pl \<Rightarrow> pl | Inl _ \<Rightarrow> [])\<rparr>"

fun recovered_all :: "lsn_t \<Rightarrow> LogRecord list \<Rightarrow> RecoveredLog list" where
  "recovered_all i [] = []"
| "recovered_all i (r # rs) = recovered i r # recovered_all (i + 1) rs"

text \<open>A record the caller built consistently and that fits the buffer.\<close>

definition well_sized :: "nat \<Rightarrow> LogRecord \<Rightarrow> bool" where
  "well_sized cap r \<longleftrightarrow> 21 + unat (lr_payload_size r) \<le> cap \<and>
     (case lr_payload r of None \<Rightarrow> True | Some p \<Rightarrow> unat (lr_payload_size r) \<le> length p)"

definition append_all :: "LogRecord list \<Rightarrow> (LogManager, unit) comp" where
  "append_all rs = for_each rs (\<lambda>r. thn (AppendLogRecord r) (ret ()))"

lemma payload_of_ok:
  assumes "well_sized cap r"
  obtains pl where "payload_of r = Inr pl" "length pl = unat (lr_payload_size r)"
  using assms by (cases "lr_payload r") (auto simp: payload_of_def well_sized_def)

lemma encode_recovered:
  assumes "payload_of r = Inr pl" "length pl = unat (lr_payload_size r)"
  shows "encode_record (recovered i r) = le_bytes 8 i @ le_bytes 8 (lr_tx_id r) @ [LogRecordType_code (lr_type r)] @
    le_bytes 4 (lr_payload_size r) @ pl"
  using assms by (simp add: encode_record_def recovered_def)

lemma small_recovered: "well_sized cap r \<Longrightarrow> small_payload (recovered i r)"
  using unat_less_2p [of "lr_payload_size r"] by (auto simp: small_payload_def recovered_def elim!: payload_of_ok)

lemma AppendLogRecord_run:
  assumes "lb_ok (lm_buffer m)" "well_sized (lb_capacity (lm_buffer m)) r" "lb_capacity (lm_buffer m) < 2 ^ 31"
  obtains b' where
    "AppendLogRecord r m = (Inr (lm_next_lsn m), \<lparr>lm_buffer = b', lm_next_lsn = lm_next_lsn m + 1\<rparr>)" "lb_ok b'"
    "lb_stream b' = lb_stream (lm_buffer m) @ encode_record (recovered (lm_next_lsn m) r)"
    "lb_capacity b' = lb_capacity (lm_buffer m)"
proof -
  obtain pl where pl: "payload_of r = Inr pl" "length pl = unat (lr_payload_size r)" using payload_of_ok [OF assms(2)] .
  note enc = encode_recovered [OF pl, of "lm_next_lsn m"]
  have len: "length (encode_record (recovered (lm_next_lsn m) r)) \<le> lb_capacity (lm_buffer m)"
    using assms(2) pl by (simp add: length_encode_record recovered_def well_sized_def)
  have small: "21 + unat (lr_payload_size r) < 2 ^ 31" using assms(2,3) by (simp add: well_sized_def)
  have arr: "unat (21 + lr_payload_size r) = 21 + unat (lr_payload_size r)"
    using small by (subst unat_add_small) simp_all
  have sgn: "\<not> sint (21 + lr_payload_size r) < 0" 
    by (subst sint_u32_small) (use small arr in linarith, simp only: of_nat_less_0_iff not_False_eq_True)
  obtain b' zs where b': "LB_Write (encode_record (recovered (lm_next_lsn m) r)) (lm_buffer m) = (Inr (), b')" "lb_ok b'"
    "lb_stream b' = lb_stream (lm_buffer m) @ encode_record (recovered (lm_next_lsn m) r)" "lb_capacity b' = lb_capacity (lm_buffer m)"
    using LB_Write_run [OF assms(1) len] by blast
  show ?thesis
    using pl b' arr sgn
    by (intro that [of b']) (simp_all add: AppendLogRecord_def GetNextLsn_def in_buffer_def Let_def enc comp_simps)
qed


lemma append_all_run:
  assumes "lb_ok (lm_buffer m)" "list_all (well_sized (lb_capacity (lm_buffer m))) rs" "lb_capacity (lm_buffer m) < 2 ^ 31"
  shows "\<exists>m'. append_all rs m = (Inr (), m') \<and> lb_ok (lm_buffer m') \<and>
    lb_stream (lm_buffer m') = lb_stream (lm_buffer m) @ concat (map encode_record (recovered_all (lm_next_lsn m) rs)) \<and>
    lb_capacity (lm_buffer m') = lb_capacity (lm_buffer m)"
  using assms
proof (induction rs arbitrary: m)
  case (Cons r rs)
  from Cons.prems(2) have w: "well_sized (lb_capacity (lm_buffer m)) r" by simp
  obtain b' where b': "AppendLogRecord r m = (Inr (lm_next_lsn m), \<lparr>lm_buffer = b', lm_next_lsn = lm_next_lsn m + 1\<rparr>)" "lb_ok b'"
    "lb_stream b' = lb_stream (lm_buffer m) @ encode_record (recovered (lm_next_lsn m) r)" "lb_capacity b' = lb_capacity (lm_buffer m)"
    using AppendLogRecord_run [OF Cons.prems(1) w Cons.prems(3)] .
  let ?m = "\<lparr>lm_buffer = b', lm_next_lsn = lm_next_lsn m + 1\<rparr>"
  obtain m' where "append_all rs ?m = (Inr (), m')" "lb_ok (lm_buffer m')"
    "lb_stream (lm_buffer m') = lb_stream b' @ concat (map encode_record (recovered_all (lm_next_lsn m + 1) rs))"
    "lb_capacity (lm_buffer m') = lb_capacity b'"
    using Cons.IH [of ?m] Cons.prems b' by auto
  then show ?case using b' by (simp add: append_all_def comp_simps)
qed (simp add: append_all_def comp_simps)

lemma small_recovered_all: "list_all (well_sized cap) rs \<Longrightarrow> list_all small_payload (recovered_all i rs)"
  by (induction rs arbitrary: i) (auto intro: small_recovered)

lemma LM_Flush_run:
  assumes "lb_ok (lm_buffer m)"
  obtains b' where "LM_Flush m = (Inr (), m\<lparr>lm_buffer := b'\<rparr>)" "lb_ok b'" "log_file (lb_disk b') = lb_stream (lm_buffer m)"
    "lb_stream b' = lb_stream (lm_buffer m)" "lb_capacity b' = lb_capacity (lm_buffer m)"
proof -
  obtain b' where b': "LB_Flush (lm_buffer m) = (Inr (), b')" "lb_ok b'" "log_file (lb_disk b') = lb_stream (lm_buffer m)"
    "lb_stream b' = lb_stream (lm_buffer m)" "lb_capacity b' = lb_capacity (lm_buffer m)" using LB_Flush_run [OF assms] .
  show ?thesis by (rule that [OF _ b'(2-5)]) (simp add: LM_Flush_def in_buffer_def zoom_def b'(1))
qed

lemma ReadLog_file: "ReadLog d = read_records (log_file d)"
  by (simp add: ReadLog_def LogDiskManager_ReadAll_def LogDiskManager_Size_def)

lemma ReadLog_records: "log_file d = concat (map encode_record rs) \<Longrightarrow> list_all small_payload rs \<Longrightarrow> ReadLog d = rs"
  using read_records_append [of rs "[]"] by (simp add: ReadLog_file read_records.simps)

text \<open>C22.
  What is appended to the log and flushed is read back by recovery: after any sequence of well-formed records has been
  appended (whether or not the buffer had to be swapped in between) and the log was flushed, \<^verbatim>\<open>ReadLog\<close> returns the
  records the log held before followed by exactly the appended ones, in order, with consecutive sequence numbers
  starting at the next one of the log manager.
\<close>

theorem wal_append_flush_read:
  assumes "lb_ok (lm_buffer m)" "lb_capacity (lm_buffer m) < 2 ^ 31"
    and "list_all (well_sized (lb_capacity (lm_buffer m))) rs"
    and "lb_stream (lm_buffer m) = concat (map encode_record old)" "list_all small_payload old"
  shows "\<exists>m'. thn (append_all rs) LM_Flush m = (Inr (), m') \<and>
    ReadLog (lb_disk (lm_buffer m')) = old @ recovered_all (lm_next_lsn m) rs"
proof -
  obtain c where c: "append_all rs m = (Inr (), c)" "lb_ok (lm_buffer c)"
    "lb_stream (lm_buffer c) = lb_stream (lm_buffer m) @ concat (map encode_record (recovered_all (lm_next_lsn m) rs))"
    using append_all_run [OF assms(1,3,2)] by blast
  obtain b where b: "LM_Flush c = (Inr (), c\<lparr>lm_buffer := b\<rparr>)" "log_file (lb_disk b) = lb_stream (lm_buffer c)"
    using LM_Flush_run [OF c(2)] by blast
  have "ReadLog (lb_disk b) = old @ recovered_all (lm_next_lsn m) rs"
    using assms(4,5) b(2) c(3) small_recovered_all [OF assms(3)] by (intro ReadLog_records) simp_all
  then show ?thesis using c(1) b(1) by (simp add: comp_simps)
qed

definition demo_log :: LogManager where
  "demo_log = LogManager_new (LogBuffer_new 50 (LogDiskManager_new []))"

definition control :: "tx_id_t \<Rightarrow> LogRecordType \<Rightarrow> LogRecord" where
  "control tx ty = \<lparr>lr_tx_id = tx, lr_type = ty, lr_payload_size = 0, lr_payload = None\<rparr>"

text \<open>Three control records do not fit the 50 bytes of the buffer together, so the third one swaps.\<close>

lemma wal_append_flush_read_witness:
  "\<exists>m'. thn (append_all [control 1 LR_COMMIT, control 2 LR_ABORT, control 3 LR_COMMIT]) LM_Flush demo_log = (Inr (), m') \<and>
     ReadLog (lb_disk (lm_buffer m')) =
       [\<lparr>rl_lsn = 1, rl_tx_id = 1, rl_type = 1, rl_payload = []\<rparr>, \<lparr>rl_lsn = 2, rl_tx_id = 2, rl_type = 2, rl_payload = []\<rparr>,
        \<lparr>rl_lsn = 3, rl_tx_id = 3, rl_type = 1, rl_payload = []\<rparr>]"
  using wal_append_flush_read [of demo_log "[control 1 LR_COMMIT, control 2 LR_ABORT, control 3 LR_COMMIT]" "[]"]
  by (simp add: demo_log_def LogManager_new_def LogBuffer_new_ok well_sized_def control_def recovered_def payload_of_def)
    (simp add: LogBuffer_new_def)

text \<open>What a cut log still yields: exactly the records that lie completely in what is left.\<close>

lemma read_records_prefix:
  assumes "list_all small_payload rs"
  shows "\<exists>k \<le> length rs. read_records (take n (concat (map encode_record rs))) = take k rs \<and>
    length (concat (map encode_record (take k rs))) \<le> n \<and>
    (k < length rs \<longrightarrow> n < length (concat (map encode_record (take (Suc k) rs))))"
  using assms
proof (induction rs arbitrary: n)
  case (Cons r rs)
  let ?e = "length (encode_record r)"
  from Cons.prems have r: "small_payload r" and rs: "list_all small_payload rs" by simp_all
  show ?case
  proof (cases "n < ?e")
    case True
    then show ?thesis
      using read_records_torn [OF r True] by (intro exI [of _ 0]) simp
  next
    case False
    obtain k where "k \<le> length rs" "read_records (take (n - ?e) (concat (map encode_record rs))) = take k rs"
      "length (concat (map encode_record (take k rs))) \<le> n - ?e"
      "k < length rs \<longrightarrow> n - ?e < length (concat (map encode_record (take (Suc k) rs)))"
      using Cons.IH [OF rs, of "n - ?e"] by blast
    then show ?thesis
      using False by (intro exI [of _ "Suc k"]) (auto simp: read_records_Cons [OF r])
  qed
qed (simp add: read_records.simps)

text \<open>C26.
  A log file cut at an arbitrary byte still gives a prefix of the records: exactly those that lie completely in what
  is left; the torn record and everything after it is dropped, nothing is misread.
\<close>

theorem wal_torn_tail:
  assumes "list_all small_payload rs"
  shows "\<exists>k \<le> length rs. ReadLog (LogDiskManager_new (take n (concat (map encode_record rs)))) = take k rs \<and>
    length (concat (map encode_record (take k rs))) \<le> n \<and>
    (k < length rs \<longrightarrow> n < length (concat (map encode_record (take (Suc k) rs))))"
  using read_records_prefix [OF assms, of n] by (simp add: ReadLog_file LogDiskManager_new_def)

lemma wal_torn_tail_witness:
  "ReadLog (LogDiskManager_new (take 30 (concat (map encode_record [recovered 1 (control 1 LR_COMMIT), recovered 2 (control 2 LR_ABORT)])))) =
     [recovered 1 (control 1 LR_COMMIT)]"
proof -
  let ?rs = "[recovered 1 (control 1 LR_COMMIT), recovered 2 (control 2 LR_ABORT)]"
  have len: "length (encode_record (recovered i (control t y))) = 21" for i t y
    by (simp add: length_encode_record recovered_def payload_of_def control_def)
  have "list_all small_payload ?rs" by (simp add: small_payload_def recovered_def payload_of_def control_def)
  from wal_torn_tail [OF this, of 30] obtain k where k: "k \<le> length ?rs"
    "ReadLog (LogDiskManager_new (take 30 (concat (map encode_record ?rs)))) = take k ?rs"
    "length (concat (map encode_record (take k ?rs))) \<le> 30"
    "k < length ?rs \<longrightarrow> 30 < length (concat (map encode_record (take (Suc k) ?rs)))" by blast
  from k(1) have "k \<le> 2" by simp
  then consider "k = 0" | "k = 1" | "k = 2" by linarith
  then have "k = 1" using k(3,4) by cases (simp_all add: len numeral_2_eq_2)
  with k(2) show ?thesis by simp
qed

text \<open>A row payload survives its encoding: decoding the encoded table id, row address and image gives them back, for every
  image shorter than \<open>2 ^ 32\<close> bytes.
\<close>

theorem log_payload_roundtrip:
  assumes "length (lp_image p) < 2 ^ 32"
  shows "LogDataPayload_Decode (LogDataPayload_Encode p) = Inr p"
proof -
  let ?d = "LogDataPayload_Encode p"
  have n: "unat (word_of_nat (length (lp_image p)) :: u32) = length (lp_image p)"
    using assms by (simp add: unat_of_nat take_bit_eq_mod)
  have p: "peek 0 8 ?d = le_bytes 8 (lp_table p)" "peek 8 8 ?d = le_bytes 8 (lp_page p)" "peek 16 8 ?d = le_bytes 8 (lp_row p)"
    "peek 24 4 ?d = le_bytes 4 (word_of_nat (length (lp_image p)) :: u32)" "peek 28 (length (lp_image p)) ?d = lp_image p"
    "length ?d = 28 + length (lp_image p)"
    by (simp_all add: LogDataPayload_Encode_def peek_def)
  show ?thesis unfolding LogDataPayload_Decode_def by (simp add: p n)
qed

lemma log_payload_roundtrip_witness:
  "LogDataPayload_Decode (LogDataPayload_Encode \<lparr>lp_table = 7, lp_page = 3, lp_row = 2, lp_image = [1, 2, 3]\<rparr>) =
     Inr \<lparr>lp_table = 7, lp_page = 3, lp_row = 2, lp_image = [1, 2, 3]\<rparr>"
  by (rule log_payload_roundtrip) simp

end
