(* ===== verification/Log_Threads.thy ===== *)
theory Log_Threads
  imports Wal
begin

text \<open>
  The log buffer with its threads (\<^verbatim>\<open>log/log_buffer.cpp\<close>): clients that call \<^verbatim>\<open>Write\<close> and \<^verbatim>\<open>Flush\<close>, the destructor, and the flush
  thread, as steps that each run while the mutex is held, and the unlocked write of the flush thread as a step of its own.
  A thread that waits on a condition variable is in its wait set: it releases the mutex, takes no step, and only \<^verbatim>\<open>notify_all\<close>
  takes it out again; then it tests its condition and goes on or returns to the wait set (wake-ups without a notification, which
  would only test the condition again, are left out).  With one client every reachable state holds
  exactly the submitted bytes, and a flush that returns has them all on disk; with any number of clients no wake-up is missed; with two
  clients there is a run that loses bytes although every call returned.
\<close>

section \<open>Steps\<close>

datatype client = Outside | In_Write bytes | In_Flush

text \<open>\<open>Sleeping\<close> is the flush thread at its wait (in the wait set or about to test the condition), \<open>Stopped\<close> after its loop.\<close>

datatype backend = Sleeping | Writing nat | Wrote | Stopped

text \<open>
  \<open>lt_cv_flush\<close> is the wait set of \<^verbatim>\<open>cv_flush_thread_\<close> (clients), \<open>lt_cv_backend\<close> whether the flush thread is in that of
  \<^verbatim>\<open>cv_backend_thread_\<close>; \<open>lt_stop\<close> is \<^verbatim>\<open>stop_\<close>.
\<close>

record LogThreads =
  lt_buffer :: LogBuffer
  lt_client :: "nat \<Rightarrow> client"
  lt_backend :: backend
  lt_submitted :: bytes
  lt_cv_flush :: "nat set"
  lt_cv_backend :: bool
  lt_stop :: bool

definition notify_backend :: "LogThreads \<Rightarrow> LogThreads" where
  "notify_backend s = s\<lparr>lt_cv_backend := False\<rparr>"

definition notify_clients :: "LogThreads \<Rightarrow> LogThreads" where
  "notify_clients s = s\<lparr>lt_cv_flush := {}\<rparr>"

text \<open>\<^verbatim>\<open>cv_flush_thread_.wait(lock, ...)\<close> tests the condition first and sleeps when it is false.\<close>

definition wait_flushed :: "nat \<Rightarrow> LogThreads \<Rightarrow> LogThreads" where
  "wait_flushed c s = (if lb_is_flush (lt_buffer s) then s\<lparr>lt_cv_flush := insert c (lt_cv_flush s)\<rparr> else s)"

text \<open>The lines that \<^verbatim>\<open>Flush\<close> and \<^verbatim>\<open>Write\<close> share: swap the buffers, set the flag, notify the flush thread.\<close>

definition hand_over :: "LogThreads \<Rightarrow> LogThreads" where
  "hand_over s = notify_backend (s\<lparr>lt_buffer := (SwapBuffers (lt_buffer s))\<lparr>lb_is_flush := True\<rparr>\<rparr>)"

text \<open>The flush thread after its write: it resets the flag, notifies the clients, and leaves its loop or goes to its wait.\<close>

definition backend_finish :: "LogThreads \<Rightarrow> LogThreads" where
  "backend_finish s = (notify_clients (s\<lparr>lt_buffer := (lt_buffer s)\<lparr>lb_is_flush := False\<rparr>\<rparr>))
     \<lparr>lt_backend := if lt_stop s then Stopped else Sleeping\<rparr>"

text \<open>
  \<open>lt_submitted\<close> collects, in the order of the copies, the bytes of the calls of \<^verbatim>\<open>Write\<close> that returned.  The step that
  resumes a waiting \<^verbatim>\<open>Write\<close> copies without looking at the free space again, as the code does.  The last two client steps are the
  destructor behind its call of \<^verbatim>\<open>Flush\<close>; like every object, a log buffer is destroyed when no call on it is running, and not
  called afterwards.  Its \<^verbatim>\<open>join\<close> returns in the states with \<open>Stopped\<close>.
\<close>

inductive lt_step :: "nat set \<Rightarrow> LogThreads \<Rightarrow> LogThreads \<Rightarrow> bool" for K where
  write_fits: "c \<in> K \<Longrightarrow> lt_client s c = Outside \<Longrightarrow> \<not> lt_stop s \<Longrightarrow> length d \<le> lb_capacity (lt_buffer s) \<Longrightarrow>
    lb_cur (lt_buffer s) + length d \<le> lb_capacity (lt_buffer s) \<Longrightarrow> buffer_copy d (lt_buffer s) = (Inr (), b) \<Longrightarrow>
    lt_step K s (s\<lparr>lt_buffer := b, lt_submitted := lt_submitted s @ d\<rparr>)"
| write_full: "c \<in> K \<Longrightarrow> lt_client s c = Outside \<Longrightarrow> \<not> lt_stop s \<Longrightarrow> length d \<le> lb_capacity (lt_buffer s) \<Longrightarrow>
    lb_capacity (lt_buffer s) < lb_cur (lt_buffer s) + length d \<Longrightarrow>
    lt_step K s ((wait_flushed c (hand_over s))\<lparr>lt_client := (lt_client s)(c := In_Write d)\<rparr>)"
| write_resume: "c \<in> K \<Longrightarrow> lt_client s c = In_Write d \<Longrightarrow> c \<notin> lt_cv_flush s \<Longrightarrow> \<not> lb_is_flush (lt_buffer s) \<Longrightarrow>
    buffer_copy d (lt_buffer s) = (Inr (), b) \<Longrightarrow>
    lt_step K s (s\<lparr>lt_buffer := b, lt_client := (lt_client s)(c := Outside), lt_submitted := lt_submitted s @ d\<rparr>)"
| flush_swap: "c \<in> K \<Longrightarrow> lt_client s c = Outside \<Longrightarrow> \<not> lt_stop s \<Longrightarrow> lb_cur (lt_buffer s) \<noteq> 0 \<Longrightarrow>
    lt_step K s ((wait_flushed c (hand_over s))\<lparr>lt_client := (lt_client s)(c := In_Flush)\<rparr>)"
| flush_resume: "c \<in> K \<Longrightarrow> lt_client s c = In_Flush \<Longrightarrow> c \<notin> lt_cv_flush s \<Longrightarrow> \<not> lb_is_flush (lt_buffer s) \<Longrightarrow>
    lt_step K s (s\<lparr>lt_client := (lt_client s)(c := Outside)\<rparr>)"
| client_waits_again: "c \<in> K \<Longrightarrow> lt_client s c \<noteq> Outside \<Longrightarrow> c \<notin> lt_cv_flush s \<Longrightarrow> lb_is_flush (lt_buffer s) \<Longrightarrow>
    lt_step K s (wait_flushed c s)"
| stop_request: "c \<in> K \<Longrightarrow> \<forall>k. lt_client s k = Outside \<Longrightarrow> \<not> lt_stop s \<Longrightarrow>
    lt_step K s (notify_backend (s\<lparr>lt_stop := True\<rparr>))"
| backend_waits: "lt_backend s = Sleeping \<Longrightarrow> \<not> lt_cv_backend s \<Longrightarrow> \<not> lb_is_flush (lt_buffer s) \<Longrightarrow> \<not> lt_stop s \<Longrightarrow>
    lt_step K s (s\<lparr>lt_cv_backend := True\<rparr>)"
| backend_take: "lt_backend s = Sleeping \<Longrightarrow> \<not> lt_cv_backend s \<Longrightarrow> lb_is_flush (lt_buffer s) \<Longrightarrow>
    lt_step K s (s\<lparr>lt_backend := Writing (lb_flush_size (lt_buffer s))\<rparr>)"
| backend_write: "lt_backend s = Writing n \<Longrightarrow>
    on_cond (0 < n) (LogDiskManager_Write (take n (lb_flush (lt_buffer s)))) (lb_disk (lt_buffer s)) = (Inr (), d) \<Longrightarrow>
    lt_step K s (s\<lparr>lt_buffer := (lt_buffer s)\<lparr>lb_disk := d\<rparr>, lt_backend := Wrote\<rparr>)"
| backend_done: "lt_backend s = Wrote \<Longrightarrow> lt_step K s (backend_finish s)"
| backend_stops: "lt_backend s = Sleeping \<Longrightarrow> \<not> lt_cv_backend s \<Longrightarrow> \<not> lb_is_flush (lt_buffer s) \<Longrightarrow> lt_stop s \<Longrightarrow>
    lt_step K s (s\<lparr>lt_backend := Stopped\<rparr>)"

definition lt_start :: "nat \<Rightarrow> bytes \<Rightarrow> LogThreads" where
  "lt_start cap f = \<lparr>lt_buffer = LogBuffer_new cap (LogDiskManager_new f), lt_client = (\<lambda>_. Outside), lt_backend = Sleeping,
     lt_submitted = f, lt_cv_flush = {}, lt_cv_backend = False, lt_stop = False\<rparr>"

abbreviation lt_reaches :: "nat set \<Rightarrow> LogThreads \<Rightarrow> LogThreads \<Rightarrow> bool" where
  "lt_reaches K \<equiv> (lt_step K)\<^sup>*\<^sup>*"

section \<open>One client\<close>

text \<open>The bytes that were handed to the flush thread and are not on disk yet.\<close>

definition handed :: "LogThreads \<Rightarrow> bytes" where
  "handed s = (if lb_is_flush (lt_buffer s) \<and> lt_backend s \<noteq> Wrote
     then take (lb_flush_size (lt_buffer s)) (lb_flush (lt_buffer s)) else [])"

definition lt_inv :: "nat \<Rightarrow> LogThreads \<Rightarrow> bool" where
  "lt_inv c s \<longleftrightarrow> lb_ok ((lt_buffer s)\<lparr>lb_is_flush := False\<rparr>) \<and>
     lb_flush_size (lt_buffer s) \<le> lb_capacity (lt_buffer s) \<and>
     log_file (lb_disk (lt_buffer s)) @ handed s @ take (lb_cur (lt_buffer s)) (lb_log (lt_buffer s)) = lt_submitted s \<and>
     (lb_is_flush (lt_buffer s) \<longrightarrow> lt_client s c \<noteq> Outside) \<and>
     (lt_backend s = Wrote \<longrightarrow> lb_is_flush (lt_buffer s)) \<and>
     (\<forall>n. lt_backend s = Writing n \<longrightarrow> lb_is_flush (lt_buffer s)) \<and>
     (\<forall>n. lt_backend s = Writing n \<longrightarrow> n = lb_flush_size (lt_buffer s)) \<and>
     (lt_client s c \<noteq> Outside \<longrightarrow> lb_cur (lt_buffer s) = 0) \<and>
     (\<forall>d. lt_client s c = In_Write d \<longrightarrow> length d \<le> lb_capacity (lt_buffer s))"

lemma lt_inv_start: "lt_inv c (lt_start cap f)"
  using LogBuffer_new_ok by (simp add: lt_inv_def lt_start_def handed_def LogBuffer_new_def lb_ok_def LogDiskManager_new_def)

lemma buffer_copy_result:
  "buffer_copy d b = (Inr (), b') \<longleftrightarrow> lb_cur b + length d \<le> length (lb_log b) \<and>
     b' = b\<lparr>lb_log := poke (lb_cur b) d (lb_log b), lb_cur := lb_cur b + length d\<rparr>"
  by (auto simp: buffer_copy_def mem_write_def bnd_def gets_def of_res_def modify_def)

lemma log_write_result:
  "on_cond (0 < n) (LogDiskManager_Write (take n fl)) d = (Inr (), d') \<Longrightarrow>
   log_file d' = log_file d @ take n fl \<and> log_open d' = log_open d"
  by (auto simp: on_cond_def LogDiskManager_Write_def ret_def split: if_splits)

lemmas lt_defs = hand_over_def notify_backend_def notify_clients_def wait_flushed_def backend_finish_def

lemma lt_inv_step: "lt_step {c} s t \<Longrightarrow> lt_inv c s \<Longrightarrow> lt_inv c t"
proof (induction rule: lt_step.induct)
  case (write_fits c' s d b)
  then show ?case by (auto simp: lt_inv_def buffer_copy_result lb_ok_def handed_def poke_def)
next
  case (write_full c' s d)
  then show ?case by (auto simp: lt_inv_def lt_defs SwapBuffers_def lb_ok_def handed_def split: if_splits)
next
  case (write_resume c' s d b)
  then show ?case by (auto simp: lt_inv_def buffer_copy_result lb_ok_def handed_def poke_def)
next
  case (flush_swap c' s)
  then show ?case by (auto simp: lt_inv_def lt_defs SwapBuffers_def lb_ok_def handed_def split: if_splits)
next
  case (backend_write s n d)
  from log_write_result [OF backend_write(2)] backend_write show ?case
    by (auto simp: lt_inv_def lb_ok_def handed_def)
qed (auto simp: lt_inv_def lt_defs lb_ok_def handed_def)

lemma lt_inv_reaches: "lt_reaches {c} s t \<Longrightarrow> lt_inv c s \<Longrightarrow> lt_inv c t"
  by (induction rule: rtranclp_induct) (auto intro: lt_inv_step)

text \<open>C23.
  With one client thread the double buffer refines an append-only log, whatever the interleaving with the flush thread:
  in every reachable state the file, the bytes handed to the flush thread and the bytes in the buffer together
  are exactly the bytes submitted, in order; when no hand-over is pending and the buffer is empty (as after a \<^verbatim>\<open>Flush\<close>
  that returned), the file itself is the log; and the copies of \<^verbatim>\<open>Write\<close> never leave the buffer.
\<close>

theorem log_single_client_append_only:
  assumes "lt_reaches {c} (lt_start cap f) s"
  shows "log_file (lb_disk (lt_buffer s)) @ handed s @ take (lb_cur (lt_buffer s)) (lb_log (lt_buffer s)) = lt_submitted s \<and>
    (\<not> lb_is_flush (lt_buffer s) \<and> (lb_cur (lt_buffer s) = 0 \<or> lt_client s c = In_Flush) \<longrightarrow>
      log_file (lb_disk (lt_buffer s)) = lt_submitted s) \<and>
    (\<forall>d. lt_client s c = In_Write d \<and> \<not> lb_is_flush (lt_buffer s) \<longrightarrow> (\<exists>b. buffer_copy d (lt_buffer s) = (Inr (), b)))"
  using lt_inv_reaches [OF assms lt_inv_start]
  by (auto simp: lt_inv_def handed_def buffer_copy_result lb_ok_def)

lemma log_single_client_append_only_witness:
  "\<exists>s. lt_reaches {0} (lt_start 1 []) s \<and> lt_submitted s = [7] \<and> \<not> lb_is_flush (lt_buffer s) \<and>
     log_file (lb_disk (lt_buffer s)) @ handed s @ take (lb_cur (lt_buffer s)) (lb_log (lt_buffer s)) = [7]"
proof -
  let ?b = "(LogBuffer_new 1 (LogDiskManager_new []))\<lparr>lb_log := [7], lb_cur := 1\<rparr>"
  have "lt_step {0} (lt_start 1 []) (lt_start 1 []\<lparr>lt_buffer := ?b, lt_submitted := [] @ [7]\<rparr>)"
    using write_fits [of 0 "{0}" "lt_start 1 []" "[7]" ?b]
    by (simp add: lt_start_def buffer_copy_result LogBuffer_new_def poke_def)
  then have r: "lt_reaches {0} (lt_start 1 []) (lt_start 1 []\<lparr>lt_buffer := ?b, lt_submitted := [7]\<rparr>)" by simp
  from log_single_client_append_only [OF r] show ?thesis
    by (intro exI [of _ "lt_start 1 []\<lparr>lt_buffer := ?b, lt_submitted := [7]\<rparr>"] conjI r) (simp_all add: LogBuffer_new_def)
qed

section \<open>No wake-up is missed\<close>

lemma lt_step_open: "lt_step K s t \<Longrightarrow> log_open (lb_disk (lt_buffer s)) \<Longrightarrow> log_open (lb_disk (lt_buffer t))"
  by (induction rule: lt_step.induct) (auto simp: buffer_copy_result lt_defs SwapBuffers_def dest: log_write_result)

lemma lt_reaches_open: "lt_reaches K s t \<Longrightarrow> log_open (lb_disk (lt_buffer s)) \<Longrightarrow> log_open (lb_disk (lt_buffer t))"
  by (induction rule: rtranclp_induct) (auto intro: lt_step_open)

text \<open>
  A client sleeps only while the flag is set, and while the flag is set the flush thread does not sleep: whoever changes the
  flag notifies those that wait for the change.
\<close>

definition wake_inv :: "LogThreads \<Rightarrow> bool" where
  "wake_inv s \<longleftrightarrow> (lt_cv_flush s \<noteq> {} \<longrightarrow> lb_is_flush (lt_buffer s)) \<and>
     (lt_cv_backend s \<longrightarrow> lt_backend s = Sleeping \<and> \<not> lb_is_flush (lt_buffer s) \<and> \<not> lt_stop s) \<and>
     (lt_backend s = Stopped \<longrightarrow> \<not> lb_is_flush (lt_buffer s) \<and> lt_stop s) \<and>
     (lb_is_flush (lt_buffer s) \<longrightarrow> (\<exists>c. lt_client s c \<noteq> Outside)) \<and>
     (lt_stop s \<longrightarrow> (\<forall>c. lt_client s c = Outside)) \<and>
     (\<forall>n. lt_backend s = Writing n \<longrightarrow> lb_is_flush (lt_buffer s)) \<and> (lt_backend s = Wrote \<longrightarrow> lb_is_flush (lt_buffer s))"

lemma wake_inv_start: "wake_inv (lt_start cap f)"
  by (simp add: wake_inv_def lt_start_def LogBuffer_new_def)

lemma wake_inv_step: "lt_step K s t \<Longrightarrow> wake_inv s \<Longrightarrow> wake_inv t"
proof (induction rule: lt_step.induct)
  case (stop_request c s)
  then have "\<not> lb_is_flush (lt_buffer s)" by (auto simp: wake_inv_def)
  then show ?case using stop_request by (auto simp: wake_inv_def lt_defs)
qed (auto simp: wake_inv_def lt_defs SwapBuffers_def buffer_copy_result)

lemma wake_inv_reaches: "lt_reaches K s t \<Longrightarrow> wake_inv s \<Longrightarrow> wake_inv t"
  by (induction rule: rtranclp_induct) (auto intro: wake_inv_step)

text \<open>\<open>lt_step {}\<close> are the steps of the flush thread.  The number of them that can follow each other is bounded.\<close>

definition backend_rank :: "LogThreads \<Rightarrow> nat" where
  "backend_rank s = (case lt_backend s of
     Sleeping \<Rightarrow> (if lt_cv_backend s then 0 else if lb_is_flush (lt_buffer s) then 4 else 1)
   | Writing n \<Rightarrow> 3 | Wrote \<Rightarrow> 2 | Stopped \<Rightarrow> 0)"

lemma backend_rank_step: "lt_step {} s t \<Longrightarrow> backend_rank t < backend_rank s"
  by (induction rule: lt_step.induct) (auto simp: backend_rank_def lt_defs)

lemma backend_rank_run: "(lt_step {} ^^ n) s t \<Longrightarrow> n + backend_rank t \<le> backend_rank s"
proof (induction n arbitrary: t)
  case (Suc n)
  then obtain u where "(lt_step {} ^^ n) s u" "lt_step {} u t" by auto
  then show ?case using Suc.IH [of u] backend_rank_step [of u t] by linarith
qed simp

lemma backend_step_any: "lt_step {} s t \<Longrightarrow> lt_step K s t"
  by (induction rule: lt_step.induct) (auto intro: lt_step.intros)

lemma backend_keeps: "lt_step {} s t \<Longrightarrow> lt_client t = lt_client s \<and> lt_stop t = lt_stop s"
  by (induction rule: lt_step.induct) (auto simp: lt_defs)

lemma backend_run_keeps: "lt_reaches {} s t \<Longrightarrow> lt_client t = lt_client s \<and> lt_stop t = lt_stop s \<and> lt_reaches K s t"
  by (induction rule: rtranclp_induct) (auto dest: backend_keeps intro: rtranclp.rtrancl_into_rtrancl backend_step_any)

lemma backend_at_rest:
  assumes "wake_inv s" "log_open (lb_disk (lt_buffer s))" "\<nexists>t. lt_step {} s t"
  shows "\<not> lb_is_flush (lt_buffer s) \<and> lt_cv_flush s = {} \<and> (if lt_stop s then lt_backend s = Stopped else lt_backend s = Sleeping)"
proof (cases "lt_backend s")
  case Sleeping
  have "lt_cv_backend s"
    using assms(3) lt_step.backend_waits [OF Sleeping, of "{}"] lt_step.backend_take [OF Sleeping, of "{}"]
      lt_step.backend_stops [OF Sleeping, of "{}"] by blast
  then show ?thesis using assms(1) Sleeping by (auto simp: wake_inv_def)
next
  case (Writing n)
  obtain d where "on_cond (0 < n) (LogDiskManager_Write (take n (lb_flush (lt_buffer s)))) (lb_disk (lt_buffer s)) = (Inr (), d)"
    using assms(2) by (cases "0 < n") (simp_all add: on_cond_def LogDiskManager_Write_def ret_def)
  then show ?thesis using assms(3) lt_step.backend_write [OF Writing, of d "{}"] by blast
next
  case Wrote
  then show ?thesis using assms(3) lt_step.backend_done [OF Wrote, of "{}"] by blast
next
  case Stopped
  then show ?thesis using assms(1) by (auto simp: wake_inv_def)
qed

lemma backend_comes_to_rest: "\<exists>t. lt_reaches {} s t \<and> (\<nexists>u. lt_step {} t u)"
proof (induction "backend_rank s" arbitrary: s rule: less_induct)
  case less
  show ?case
  proof (cases "\<exists>u. lt_step {} s u")
    case True
    then obtain u where u: "lt_step {} s u" ..
    from less [OF backend_rank_step [OF u]] u show ?thesis by (meson converse_rtranclp_into_rtranclp)
  qed auto
qed

text \<open>C24.
  A client that waits for the flush thread is woken, with any number of clients and from every reachable state.  Left to itself the
  flush thread takes at most four steps; when it can take no more, the flag is reset and no client is left in the wait set of the
  condition variable.  Then a client in \<^verbatim>\<open>Flush\<close> returns with its next step, and so does a client in \<^verbatim>\<open>Write\<close> if it is the only
  client; after the destructor asked it to stop, the flush thread has left its loop.  The threads sleep until they are
  notified: without one of the calls of \<^verbatim>\<open>notify_all\<close> the statement is false.
\<close>

theorem log_wait_ends:
  assumes "lt_reaches K (lt_start cap f) s"
  shows "(\<forall>n t. (lt_step {} ^^ n) s t \<longrightarrow> n \<le> 4) \<and>
    (\<forall>t. lt_reaches {} s t \<and> (\<nexists>u. lt_step {} t u) \<longrightarrow>
      \<not> lb_is_flush (lt_buffer t) \<and> lt_cv_flush t = {} \<and> lt_client t = lt_client s \<and>
      (if lt_stop s then lt_backend t = Stopped else lt_backend t = Sleeping) \<and>
      (\<forall>c. lt_client s c = In_Flush \<or> lt_client s c \<noteq> Outside \<and> K = {c} \<longrightarrow>
        (\<exists>u. lt_step {c} t u \<and> lt_client u c = Outside)))"
proof (intro conjI allI impI; (elim conjE)?)
  fix n t assume "(lt_step {} ^^ n) s t"
  from backend_rank_run [OF this] show "n \<le> 4" by (auto simp: backend_rank_def split: backend.splits if_splits)
next
  fix t assume r: "lt_reaches {} s t" and m: "\<nexists>u. lt_step {} t u"
  note k = backend_run_keeps [OF r, of K]
  have reach: "lt_reaches K (lt_start cap f) t" using assms k by (meson rtranclp_trans)
  have op: "log_open (lb_disk (lt_buffer t))"
    using lt_reaches_open [OF reach] by (simp add: lt_start_def LogBuffer_new_def LogDiskManager_new_def)
  note rest = backend_at_rest [OF wake_inv_reaches [OF reach wake_inv_start] op m]
  show "\<not> lb_is_flush (lt_buffer t)" "lt_cv_flush t = {}" "lt_client t = lt_client s"
    "if lt_stop s then lt_backend t = Stopped else lt_backend t = Sleeping" using rest k by auto
  fix c assume c: "lt_client s c = In_Flush \<or> lt_client s c \<noteq> Outside \<and> K = {c}"
  show "\<exists>u. lt_step {c} t u \<and> lt_client u c = Outside"
  proof (cases "lt_client s c")
    case In_Flush
    then show ?thesis using lt_step.flush_resume [of c "{c}" t] rest k by fastforce
  next
    case (In_Write d)
    with c have "lt_inv c t" using reach lt_inv_reaches [OF _ lt_inv_start] by auto
    then have "lb_cur (lt_buffer t) + length d \<le> length (lb_log (lt_buffer t))"
      using In_Write k by (simp add: lt_inv_def lb_ok_def)
    then show ?thesis
      using lt_step.write_resume [of c "{c}" t d] In_Write rest k by (fastforce simp: buffer_copy_result)
  qed (use c in auto)
qed

lemma log_wait_ends_witness:
  "\<exists>s. lb_is_flush (lt_buffer s) \<and> lt_client s 0 = In_Flush \<and> lt_cv_flush s = {0} \<and>
     (\<exists>t. lt_reaches {} s t \<and> \<not> lb_is_flush (lt_buffer t) \<and> lt_cv_flush t = {} \<and>
       (\<exists>u. lt_step {0} t u \<and> lt_client u 0 = Outside))"
proof -
  let ?b = "(LogBuffer_new 1 (LogDiskManager_new []))\<lparr>lb_log := [7], lb_cur := 1\<rparr>"
  let ?s = "lt_start 1 []\<lparr>lt_buffer := ?b, lt_submitted := [] @ [7]\<rparr>"
  let ?a = "?s\<lparr>lt_cv_backend := True\<rparr>"
  let ?t = "(wait_flushed 0 (hand_over ?a))\<lparr>lt_client := (lt_client ?a)(0 := In_Flush)\<rparr>"
  have s1: "lt_step {0} (lt_start 1 []) ?s"
    using write_fits [of 0 "{0}" "lt_start 1 []" "[7]" ?b]
    by (simp add: lt_start_def buffer_copy_result LogBuffer_new_def poke_def)
  have s2: "lt_step {0} ?s ?a"
    using backend_waits [of ?s "{0}"] by (simp add: lt_start_def LogBuffer_new_def)
  have s3: "lt_step {0} ?a ?t" by (rule flush_swap) (simp_all add: lt_start_def)
  have reach: "lt_reaches {0} (lt_start 1 []) ?t"
    using s1 s2 s3 by (meson converse_rtranclp_into_rtranclp rtranclp.rtrancl_refl)
  note w = log_wait_ends [OF reach]
  have t: "lt_client ?t 0 = In_Flush" "lb_is_flush (lt_buffer ?t)" "lt_cv_flush ?t = {0}"
    by (simp_all add: lt_defs lt_start_def)
  obtain u where u: "lt_reaches {} ?t u" "\<nexists>v. lt_step {} u v" using backend_comes_to_rest by blast
  have r: "\<not> lb_is_flush (lt_buffer u)" "lt_cv_flush u = {}" "\<exists>v. lt_step {0} u v \<and> lt_client v 0 = Outside"
    using w u t(1) by blast+
  show ?thesis
    by (rule exI [of _ ?t], intro conjI, rule t(2), rule t(1), rule t(3), rule exI [of _ u], intro conjI, rule u(1), (rule r)+)
qed

section \<open>Two clients\<close>

text \<open>C25.
  With two clients the log can lose bytes: there is a run in which both clients write one byte each and flush, both
  calls of \<^verbatim>\<open>Flush\<close> return and nothing is pending, but only the second client's byte is in the file.  The second
  \<^verbatim>\<open>Flush\<close> swaps the buffers while the flush thread, already woken with the size of the first one, has not written yet.
\<close>

theorem log_two_clients_lose_bytes:
  "\<exists>s. lt_reaches {0, 1} (lt_start 1 []) s \<and> lt_client s = (\<lambda>_. Outside) \<and> lt_backend s = Sleeping \<and>
     \<not> lb_is_flush (lt_buffer s) \<and> lb_cur (lt_buffer s) = 0 \<and> lt_submitted s = [1, 2] \<and> log_file (lb_disk (lt_buffer s)) = [2]"
proof -
  let ?K = "{0, 1 :: nat}"
  let ?s = "\<lambda>l fl cur fs isf file cl be sub w. \<lparr>lt_buffer = \<lparr>lb_capacity = 1, lb_log = l, lb_flush = fl, lb_cur = cur,
    lb_flush_size = fs, lb_is_flush = isf, lb_disk = \<lparr>log_open = True, log_file = file\<rparr>\<rparr>, lt_client = cl, lt_backend = be,
    lt_submitted = sub, lt_cv_flush = w, lt_cv_backend = False, lt_stop = False\<rparr>"
  let ?out = "\<lambda>_ :: nat. Outside"
  have s0: "lt_start 1 [] = ?s [0] [0] 0 0 False [] ?out Sleeping [] {}"
    by (simp add: lt_start_def LogBuffer_new_def LogDiskManager_new_def)
  have s1: "lt_step ?K (?s [0] [0] 0 0 False [] ?out Sleeping [] {}) (?s [1] [0] 1 0 False [] ?out Sleeping [1] {})"
    using write_fits [of 0 ?K "?s [0] [0] 0 0 False [] ?out Sleeping [] {}" "[1]"] by (simp add: buffer_copy_result poke_def)
  have s2: "lt_step ?K (?s [1] [0] 1 0 False [] ?out Sleeping [1] {}) (?s [0] [1] 0 1 True [] (?out(0 := In_Flush)) Sleeping [1] {0})"
    using flush_swap [of 0 ?K "?s [1] [0] 1 0 False [] ?out Sleeping [1] {}"] by (simp add: lt_defs SwapBuffers_def)
  have s3: "lt_step ?K (?s [0] [1] 0 1 True [] (?out(0 := In_Flush)) Sleeping [1] {0})
      (?s [0] [1] 0 1 True [] (?out(0 := In_Flush)) (Writing 1) [1] {0})"
    using backend_take [of "?s [0] [1] 0 1 True [] (?out(0 := In_Flush)) Sleeping [1] {0}" ?K] by simp
  have s4: "lt_step ?K (?s [0] [1] 0 1 True [] (?out(0 := In_Flush)) (Writing 1) [1] {0})
      (?s [2] [1] 1 1 True [] (?out(0 := In_Flush)) (Writing 1) [1, 2] {0})"
    using write_fits [of 1 ?K "?s [0] [1] 0 1 True [] (?out(0 := In_Flush)) (Writing 1) [1] {0}" "[2]"]
    by (simp add: buffer_copy_result poke_def)
  have s5: "lt_step ?K (?s [2] [1] 1 1 True [] (?out(0 := In_Flush)) (Writing 1) [1, 2] {0})
      (?s [1] [2] 0 1 True [] (?out(0 := In_Flush, 1 := In_Flush)) (Writing 1) [1, 2] {0, 1})"
    using flush_swap [of 1 ?K "?s [2] [1] 1 1 True [] (?out(0 := In_Flush)) (Writing 1) [1, 2] {0}"]
    by (simp add: lt_defs SwapBuffers_def insert_commute)
  have s6: "lt_step ?K (?s [1] [2] 0 1 True [] (?out(0 := In_Flush, 1 := In_Flush)) (Writing 1) [1, 2] {0, 1})
      (?s [1] [2] 0 1 True [2] (?out(0 := In_Flush, 1 := In_Flush)) Wrote [1, 2] {0, 1})"
    using backend_write [of "?s [1] [2] 0 1 True [] (?out(0 := In_Flush, 1 := In_Flush)) (Writing 1) [1, 2] {0, 1}" 1 _ ?K]
    by (simp add: on_cond_def LogDiskManager_Write_def)
  have s7: "lt_step ?K (?s [1] [2] 0 1 True [2] (?out(0 := In_Flush, 1 := In_Flush)) Wrote [1, 2] {0, 1})
      (?s [1] [2] 0 1 False [2] (?out(0 := In_Flush, 1 := In_Flush)) Sleeping [1, 2] {})"
    using backend_done [of "?s [1] [2] 0 1 True [2] (?out(0 := In_Flush, 1 := In_Flush)) Wrote [1, 2] {0, 1}" ?K] by (simp add: lt_defs)
  have s8: "lt_step ?K (?s [1] [2] 0 1 False [2] (?out(0 := In_Flush, 1 := In_Flush)) Sleeping [1, 2] {})
      (?s [1] [2] 0 1 False [2] (?out(1 := In_Flush)) Sleeping [1, 2] {})"
    using flush_resume [of 0 ?K "?s [1] [2] 0 1 False [2] (?out(0 := In_Flush, 1 := In_Flush)) Sleeping [1, 2] {}"]
    by (simp add: fun_upd_twist fun_upd_idem)
  have s9: "lt_step ?K (?s [1] [2] 0 1 False [2] (?out(1 := In_Flush)) Sleeping [1, 2] {})
      (?s [1] [2] 0 1 False [2] ?out Sleeping [1, 2] {})"
    using flush_resume [of 1 ?K "?s [1] [2] 0 1 False [2] (?out(1 := In_Flush)) Sleeping [1, 2] {}"] by (simp add: fun_upd_idem)
  note tail = rtranclp.rtrancl_into_rtrancl [of "lt_step ?K"]
  have "lt_reaches ?K (lt_start 1 []) (?s [1] [2] 0 1 False [2] ?out Sleeping [1, 2] {})"
    unfolding s0
    by (rule tail [OF tail [OF tail [OF tail [OF tail [OF tail [OF tail [OF tail [OF r_into_rtranclp [of "lt_step ?K", OF s1] s2] s3] s4] s5] s6] s7] s8] s9])
  then show ?thesis by fastforce
qed

end
