(* ===== verification/Schema_Catalog.thy ===== *)
theory Schema_Catalog
  imports Meta_Page
begin

text \<open>
  The tables the SQL front end knows: \<^verbatim>\<open>include/catalog/catalog.h\<close>, \<^verbatim>\<open>catalog/catalog.cpp\<close>,
  \<^verbatim>\<open>include/catalog/table_entry.h\<close>, \<^verbatim>\<open>include/common/util/IdUtil.h\<close>, and the item the executor of \<^verbatim>\<open>CREATE TABLE\<close> makes of an entry.
  Shown: the columns of an entry stay sorted by id, and the entry written to the catalog page and read back is the same.
\<close>

section \<open>Tables\<close>

text \<open>\<open>te_columns\<close> is a \<^verbatim>\<open>std::map\<close>: one entry per id, in the order of the ids.\<close>

record TableEntry =
  te_id :: entry_id
  te_name :: string
  te_column_idx :: "string \<Rightarrow> entry_id option"
  te_columns :: "(entry_id \<times> ColumnEntry) list"

definition TableEntry_new :: "entry_id \<Rightarrow> string \<Rightarrow> TableEntry" where
  "TableEntry_new i n = \<lparr>te_id = i, te_name = n, te_column_idx = (\<lambda>_. None), te_columns = []\<rparr>"

text \<open>\<^verbatim>\<open>emplace\<close>: a key that is present keeps its value.\<close>

fun map_emplace :: "entry_id \<Rightarrow> 'a \<Rightarrow> (entry_id \<times> 'a) list \<Rightarrow> (entry_id \<times> 'a) list" where
  "map_emplace k v [] = [(k, v)]"
| "map_emplace k v ((j, w) # m) = (if k = j then (j, w) # m else if k < j then (k, v) # (j, w) # m else (j, w) # map_emplace k v m)"

definition TE_AddColumn :: "ColumnEntry \<Rightarrow> TableEntry \<Rightarrow> TableEntry" where
  "TE_AddColumn c t = t\<lparr>te_column_idx := (te_column_idx t)(ce_name c \<mapsto> ce_id c), te_columns := map_emplace (ce_id c) c (te_columns t)\<rparr>"

definition TE_GetColumnForId :: "TableEntry \<Rightarrow> entry_id \<Rightarrow> ColumnEntry res" where
  "TE_GetColumnForId t i = (case map_of (te_columns t) i of None \<Rightarrow> Inl (RuntimeError ''Column not found'') | Some c \<Rightarrow> Inr c)"

definition TE_GetSchema :: "TableEntry \<Rightarrow> Schema" where
  "TE_GetSchema t = map snd (te_columns t)"

definition TE_GetColumnIds :: "TableEntry \<Rightarrow> entry_id list" where
  "TE_GetColumnIds t = map fst (te_columns t)"

definition TE_GetNextColumnId :: "TableEntry \<Rightarrow> entry_id" where
  "TE_GetNextColumnId t = word_of_nat (length (te_columns t))"

section \<open>The catalog\<close>

text \<open>
  The hash map from names to ids is a list in the order of iteration, since \<^verbatim>\<open>GetTableName\<close> searches it.  The map of
  tables holds pointers, and \<^verbatim>\<open>tables_[id]\<close> of an unknown id puts a null pointer there: \<open>Some None\<close>.  \<open>cat_next_id\<close> is the
  process-wide counter of entry ids.
\<close>

record Catalog =
  cat_names :: "(string \<times> entry_id) list"
  cat_tables :: "entry_id \<Rightarrow> TableEntry option option"
  cat_next_id :: entry_id

definition Catalog_new :: Catalog where
  "Catalog_new = \<lparr>cat_names = [], cat_tables = (\<lambda>_. None), cat_next_id = 1\<rparr>"

definition GetNextEntryId :: "Catalog \<Rightarrow> entry_id \<times> Catalog" where
  "GetNextEntryId c = (cat_next_id c, c\<lparr>cat_next_id := cat_next_id c + 1\<rparr>)"

definition Cat_GetTableName :: "Catalog \<Rightarrow> entry_id \<Rightarrow> string res" where
  "Cat_GetTableName c i = (case find (\<lambda>p. snd p = i) (cat_names c) of
     None \<Rightarrow> Inl (RuntimeError ''Catalog does not exist'') | Some p \<Rightarrow> Inr (fst p))"

definition Cat_AddTable :: "TableEntry \<Rightarrow> Catalog \<Rightarrow> Catalog" where
  "Cat_AddTable t c = c\<lparr>cat_names := AList.update (te_name t) (te_id t) (cat_names c), cat_tables := (cat_tables c)(te_id t \<mapsto> Some t)\<rparr>"

text \<open>Following the pointer to a table; a missing or null one is a memory fault.\<close>

definition Cat_table :: "Catalog \<Rightarrow> entry_id \<Rightarrow> TableEntry res" where
  "Cat_table c i = (case cat_tables c i of Some (Some t) \<Rightarrow> Inr t | _ \<Rightarrow> Inl MemoryFault)"

text \<open>The loop body of \<^verbatim>\<open>InitFromMetaPage\<close>: rebuild the entry of one item of the catalog page.\<close>

fun entry_columns :: "MetaColumnItem list \<Rightarrow> TableEntry \<Rightarrow> TableEntry res" where
  "entry_columns [] t = Inr t"
| "entry_columns (it # its) t = (case ColumnEntry_new (mc_id it) (mc_name it) (mc_type it) of
     Inl e \<Rightarrow> Inl e | Inr c \<Rightarrow> entry_columns its (TE_AddColumn c t))"

definition entry_of_item :: "MetaItem \<Rightarrow> TableEntry res" where
  "entry_of_item it = entry_columns (mi_items it) (TableEntry_new (mi_id it) (mi_name it))"

text \<open>The name is indexed before the entry is built, so an exception in the columns leaves it there.\<close>

fun init_items :: "(entry_id \<times> MetaItem) list \<Rightarrow> (Catalog, unit) comp" where
  "init_items [] = ret ()"
| "init_items ((k, it) # its) =
     thn (modify (\<lambda>c. c\<lparr>cat_names := AList.update (mi_name it) (mi_id it) (cat_names c)\<rparr>))
     (bnd (of_res (entry_of_item it)) (\<lambda>t.
      thn (modify (\<lambda>c. c\<lparr>cat_tables := (cat_tables c)(mi_id it \<mapsto> Some t)\<rparr>)) (init_items its)))"

definition Cat_InitFromMetaPage :: "MetaPage \<Rightarrow> (Catalog, unit) comp" where
  "Cat_InitFromMetaPage m = init_items (mp_items m)"

text \<open>The item \<^verbatim>\<open>ExecutorCreateTable::Next\<close> makes of an entry.\<close>

definition item_of_entry :: "TableEntry \<Rightarrow> MetaItem" where
  "item_of_entry t = \<lparr>mi_first = 0, mi_name = te_name t, mi_rows = 0, mi_id = te_id t, mi_last = 0, mi_offset = 0,
     mi_items = map (\<lambda>(i, c). \<lparr>mc_name = ce_name c, mc_type = ce_type c, mc_flags = 0, mc_id = ce_id c\<rparr>) (te_columns t)\<rparr>"

section \<open>Entries built column by column\<close>

text \<open>
  An entry as the binder builds it: the columns were made by the constructor of \<^verbatim>\<open>ColumnEntry\<close> and are keyed by their id, in order.
\<close>

definition te_inv :: "TableEntry \<Rightarrow> bool" where
  "te_inv t \<longleftrightarrow> sorted_wrt (<) (TE_GetColumnIds t) \<and>
     (\<forall>(i, c) \<in> set (te_columns t). ce_id c = i \<and> ColumnEntry_new (ce_id c) (ce_name c) (ce_type c) = Inr c)"

lemma map_emplace_keys: "set (map fst (map_emplace k v m)) = insert k (set (map fst m))"
  by (induction k v m rule: map_emplace.induct) auto

lemma map_emplace_set: "set (map_emplace k v m) \<subseteq> insert (k, v) (set m)"
  by (induction k v m rule: map_emplace.induct) auto

lemma map_emplace_sorted: "sorted_wrt (<) (map fst m) \<Longrightarrow> sorted_wrt (<) (map fst (map_emplace k v m))"
proof (induction k v m rule: map_emplace.induct)
  case (2 k v j w m)
  then show ?case using map_emplace_keys [of k v m] by (auto simp: image_iff)
qed simp

lemma map_emplace_last: "\<forall>j \<in> set (map fst m). j < k \<Longrightarrow> map_emplace k v m = m @ [(k, v)]"
  by (induction k v m rule: map_emplace.induct) (auto simp: less_le)

lemma te_inv_new: "te_inv (TableEntry_new i n)"
  by (simp add: te_inv_def TableEntry_new_def TE_GetColumnIds_def)

lemma te_inv_AddColumn:
  assumes "te_inv t" "ColumnEntry_new (ce_id c) (ce_name c) (ce_type c) = Inr c"
  shows "te_inv (TE_AddColumn c t)"
  using assms map_emplace_set [of "ce_id c" c "te_columns t"] map_emplace_sorted [of "te_columns t" "ce_id c" c]
  by (auto simp: te_inv_def TE_AddColumn_def TE_GetColumnIds_def)

lemma entry_columns_append:
  assumes "te_inv t" "sorted_wrt (<) (map fst (te_columns t @ cs))"
    and "\<forall>(i, c) \<in> set cs. ce_id c = i \<and> ColumnEntry_new (ce_id c) (ce_name c) (ce_type c) = Inr c"
  shows "\<exists>u. entry_columns (map (\<lambda>(i, c). \<lparr>mc_name = ce_name c, mc_type = ce_type c, mc_flags = 0, mc_id = ce_id c\<rparr>) cs) t = Inr u \<and>
    te_columns u = te_columns t @ cs \<and> te_id u = te_id t \<and> te_name u = te_name t"
  using assms
proof (induction cs arbitrary: t)
  case (Cons p cs)
  obtain i c where p: "p = (i, c)" by fastforce
  from Cons.prems(3) p have c: "ce_id c = i" "ColumnEntry_new (ce_id c) (ce_name c) (ce_type c) = Inr c" by auto
  have "\<forall>j \<in> set (map fst (te_columns t)). j < i" using Cons.prems(2) p by (auto simp: sorted_wrt_append)
  then have cols: "te_columns (TE_AddColumn c t) = te_columns t @ [p]"
    using c(1) p map_emplace_last [of "te_columns t" i c] by (simp add: TE_AddColumn_def)
  moreover have "te_inv (TE_AddColumn c t)" by (rule te_inv_AddColumn [OF Cons.prems(1) c(2)])
  ultimately show ?case
    using Cons.IH [of "TE_AddColumn c t"] Cons.prems(2,3) c p by (fastforce simp: TE_AddColumn_def)
qed simp

text \<open>A table survives a restart: for every entry built by adding columns, turning it into an item of the catalog page (as
  \<^verbatim>\<open>CREATE TABLE\<close> does) and rebuilding an entry from that item (as \<^verbatim>\<open>InitFromMetaPage\<close> does) gives an entry with the same
  id, name, column ids, names, types and defaults in the same order, hence the same schema.
\<close>

theorem catalog_entry_roundtrip:
  assumes "te_inv t"
  shows "\<exists>u. entry_of_item (item_of_entry t) = Inr u \<and> te_id u = te_id t \<and> te_name u = te_name t \<and>
    te_columns u = te_columns t \<and> TE_GetSchema u = TE_GetSchema t"
  using entry_columns_append [OF te_inv_new [of "te_id t" "te_name t"], of "te_columns t"] assms
  by (fastforce simp: entry_of_item_def item_of_entry_def te_inv_def TE_GetColumnIds_def TE_GetSchema_def TableEntry_new_def)

definition demo_entry :: TableEntry where
  "demo_entry = TE_AddColumn \<lparr>ce_id = 0, ce_name = ''id'', ce_type = CT_INTEGER, ce_default = Value_of (VInt 0)\<rparr>
     (TE_AddColumn \<lparr>ce_id = 1, ce_name = ''name'', ce_type = CT_VARCHAR, ce_default = Value_of (VString [])\<rparr>
        (TableEntry_new 7 ''users''))"

lemma catalog_entry_roundtrip_witness:
  "\<exists>u. entry_of_item (item_of_entry demo_entry) = Inr u \<and> TE_GetColumnIds u = [0, 1] \<and> te_name u = ''users''"
proof -
  have "te_inv demo_entry" unfolding demo_entry_def by (intro te_inv_AddColumn te_inv_new) simp_all
  from catalog_entry_roundtrip [OF this] show ?thesis
    by (auto simp: TE_GetColumnIds_def demo_entry_def TE_AddColumn_def TableEntry_new_def)
qed

end
