(* ===== verification/Database.thy ===== *)
theory Database
  imports Transactions Log_Threads Schema_Catalog
begin

text \<open>
  The state of a running server and the parts of the transaction manager that reach into the log and the pages:
  \<^verbatim>\<open>Commit\<close>, \<^verbatim>\<open>Abort\<close>, \<^verbatim>\<open>RollbackWrites\<close> (\<^verbatim>\<open>transaction/transaction_manager.cpp\<close>) and \<^verbatim>\<open>LogDataChange\<close>
  (\<^verbatim>\<open>include/executor/executor_context.h\<close>).  The pool is shared by the table pages, the catalog page and the undo log.
  Shown: a commit that returns has its record in the log file, whatever the log buffer held before.
\<close>

section \<open>State\<close>

record DB =
  db_store :: Store
  db_undo_page :: page_id_t
  db_log :: LogManager
  db_txn :: TransactionManager
  db_catalog :: Catalog

definition in_store :: "(Store, 'a) comp \<Rightarrow> (DB, 'a) comp" where
  "in_store = zoom db_store (\<lambda>x d. d\<lparr>db_store := x\<rparr>)"

definition in_pool :: "(BufferManager, 'a) comp \<Rightarrow> (DB, 'a) comp" where
  "in_pool m = in_store (in_bm m)"

definition in_undo :: "(UndoLogManager, 'a) comp \<Rightarrow> (DB, 'a) comp" where
  "in_undo = zoom (\<lambda>d. \<lparr>ul_bm = st_bm (db_store d), ul_page = db_undo_page d\<rparr>)
     (\<lambda>u d. d\<lparr>db_store := (db_store d)\<lparr>st_bm := ul_bm u\<rparr>, db_undo_page := ul_page u\<rparr>)"

definition in_log :: "(LogManager, 'a) comp \<Rightarrow> (DB, 'a) comp" where
  "in_log = zoom db_log (\<lambda>x d. d\<lparr>db_log := x\<rparr>)"

definition on_txn :: "(TransactionManager \<Rightarrow> TransactionManager) \<Rightarrow> (DB, unit) comp" where
  "on_txn f = modify (\<lambda>d. d\<lparr>db_txn := f (db_txn d)\<rparr>)"

text \<open>\<^verbatim>\<open>page->id_\<close> of the page in a frame.\<close>

definition page_id_of :: "frame_id \<Rightarrow> (DB, page_id_t) comp" where
  "page_id_of f = gets (\<lambda>d. pg_id (frame_of f (st_bm (db_store d))))"

text \<open>\<^verbatim>\<open>buffer_manager_->Flush(page->id_)\<close> followed by \<^verbatim>\<open>Release(page->id_)\<close>.\<close>

definition flush_page :: "frame_id \<Rightarrow> (DB, unit) comp" where
  "flush_page f = bnd (page_id_of f) (\<lambda>i. in_pool (BM_Flush i))"

definition release_page :: "frame_id \<Rightarrow> (DB, unit) comp" where
  "release_page f = bnd (page_id_of f) (\<lambda>i. in_pool (BM_Release i))"

section \<open>Commit and abort\<close>

definition WriteTxnControlLog :: "tx_id_t \<Rightarrow> LogRecordType \<Rightarrow> (DB, unit) comp" where
  "WriteTxnControlLog tx ty = bnd (gets (\<lambda>d. tm_log (db_txn d))) (\<lambda>l.
     if \<not> l then ret ()
     else thn (in_log (AppendLogRecord \<lparr>lr_tx_id = tx, lr_type = ty, lr_payload_size = 0, lr_payload = None\<rparr>)) (ret ()))"

definition log_and_flush :: "tx_id_t \<Rightarrow> LogRecordType \<Rightarrow> (DB, unit) comp" where
  "log_and_flush tx ty = bnd (gets (\<lambda>d. tm_log (db_txn d))) (\<lambda>l.
     on_cond l (thn (WriteTxnControlLog tx ty) (in_log LM_Flush)))"

definition TM_Commit :: "tx_id_t \<Rightarrow> (DB, unit) comp" where
  "TM_Commit i = bnd (gets (\<lambda>d. i \<in> set (tm_active (db_txn d)))) (\<lambda>a.
     if \<not> a then throw (RuntimeError ''TransactionManager::Commit transaction not found'')
     else thn (on_txn (finish_txn i COMMITTED)) (log_and_flush i LR_COMMIT))"

definition undo_write :: "WriteRecord \<Rightarrow> (DB, unit) comp" where
  "undo_write w = bnd (in_pool (BM_FetchPage (rid_page (wr_rid w)))) (\<lambda>f.
     bnd (in_store (TablePage_new (wr_table_id w) f True)) (\<lambda>tp.
     thn (in_store (case wr_type w of
            W_INSERT \<Rightarrow> TP_MarkDead (wr_rid w) tp
          | W_UPDATE_INSERT_NEW \<Rightarrow> TP_MarkDead (wr_rid w) tp
          | W_DELETE \<Rightarrow> TP_RestoreRecord (wr_rid w) (wr_prev_trx_id w) (wr_prev_roll_ptr w) (wr_prev_flags w) tp
          | W_UPDATE_DELETE_OLD \<Rightarrow> TP_RestoreRecord (wr_rid w) (wr_prev_trx_id w) (wr_prev_roll_ptr w) (wr_prev_flags w) tp))
     (thn (flush_page f) (release_page f))))"

text \<open>The write set is undone from its end.\<close>

definition RollbackWrites :: "tx_id_t \<Rightarrow> (DB, unit) comp" where
  "RollbackWrites i = bnd (gets (\<lambda>d. (tm_storage (db_txn d), tx_write_set (txn_of (db_txn d) i)))) (\<lambda>(st, ws).
     if \<not> st then ret () else for_each (rev ws) undo_write)"

definition TM_Abort :: "tx_id_t \<Rightarrow> (DB, unit) comp" where
  "TM_Abort i = bnd (gets (\<lambda>d. i \<in> set (tm_active (db_txn d)))) (\<lambda>a.
     if \<not> a then throw (RuntimeError ''TransactionManager::Abort transaction not found'')
     else thn (RollbackWrites i) (thn (on_txn (finish_txn i ABORTED)) (log_and_flush i LR_ABORT)))"

section \<open>The context of the executors\<close>

text \<open>The pointers of \<^verbatim>\<open>ExecutorContext\<close> that may be null: the transaction, the undo log, the transaction manager and the log.\<close>

record ExecutorContext =
  ctx_txn :: "tx_id_t option"
  ctx_undo :: bool
  ctx_tm :: bool
  ctx_log :: bool

abbreviation (input) INVALID_LSN :: lsn_t where "INVALID_LSN \<equiv> 0"

definition cur_txn :: "ExecutorContext \<Rightarrow> tx_id_t" where
  "cur_txn c = (case ctx_txn c of Some i \<Rightarrow> i | None \<Rightarrow> INVALID_TX_ID)"

definition LogDataChange :: "ExecutorContext \<Rightarrow> LogRecordType \<Rightarrow> entry_id \<Rightarrow> RID \<Rightarrow> bytes \<Rightarrow> (DB, lsn_t) comp" where
  "LogDataChange c ty table rid img =
     (if \<not> ctx_log c then ret INVALID_LSN
      else (let enc = LogDataPayload_Encode \<lparr>lp_table = table, lp_page = rid_page rid, lp_row = rid_row rid, lp_image = img\<rparr> in
        in_log (AppendLogRecord \<lparr>lr_tx_id = cur_txn c, lr_type = ty, lr_payload_size = word_of_nat (length enc), lr_payload = Some enc\<rparr>)))"

section \<open>Durability\<close>

definition db_log_holds :: "DB \<Rightarrow> RecoveredLog list \<Rightarrow> bool" where
  "db_log_holds d rs \<longleftrightarrow> lb_ok (lm_buffer (db_log d)) \<and> lb_stream (lm_buffer (db_log d)) = concat (map encode_record rs) \<and>
     list_all small_payload rs \<and> 21 \<le> lb_capacity (lm_buffer (db_log d)) \<and> lb_capacity (lm_buffer (db_log d)) < 2 ^ 31"

definition durable_log :: "DB \<Rightarrow> bytes" where
  "durable_log d = log_file (lb_disk (lm_buffer (db_log d)))"

lemma log_and_flush_run:
  assumes "db_log_holds d rs" "tm_log (db_txn d)"
  obtains l where "log_and_flush i ty d = (Inr (), d\<lparr>db_log := l\<rparr>)"
    "db_log_holds (d\<lparr>db_log := l\<rparr>) (rs @ [recovered (lm_next_lsn (db_log d)) (control i ty)])"
    "durable_log (d\<lparr>db_log := l\<rparr>) = concat (map encode_record (rs @ [recovered (lm_next_lsn (db_log d)) (control i ty)]))"
proof -
  let ?r = "control i ty" and ?m = "db_log d"
  let ?rec = "recovered (lm_next_lsn ?m) ?r"
  note h = assms(1) [unfolded db_log_holds_def]
  have w: "well_sized (lb_capacity (lm_buffer ?m)) ?r" using h by (simp add: well_sized_def control_def)
  obtain b where b: "AppendLogRecord ?r ?m = (Inr (lm_next_lsn ?m), \<lparr>lm_buffer = b, lm_next_lsn = lm_next_lsn ?m + 1\<rparr>)" "lb_ok b"
    "lb_stream b = lb_stream (lm_buffer ?m) @ encode_record ?rec" "lb_capacity b = lb_capacity (lm_buffer ?m)"
    using AppendLogRecord_run [of ?m ?r] h w by blast
  let ?m1 = "\<lparr>lm_buffer = b, lm_next_lsn = lm_next_lsn ?m + 1\<rparr>"
  obtain c where c: "LM_Flush ?m1 = (Inr (), ?m1\<lparr>lm_buffer := c\<rparr>)" "lb_ok c" "log_file (lb_disk c) = lb_stream b"
    "lb_stream c = lb_stream b" "lb_capacity c = lb_capacity b" using LM_Flush_run [of ?m1] b(2) by auto
  have "log_and_flush i ty d = (Inr (), d\<lparr>db_log := ?m1\<lparr>lm_buffer := c\<rparr>\<rparr>)"
    using assms(2) b(1) c(1) by (simp add: log_and_flush_def WriteTxnControlLog_def in_log_def comp_simps flip: control_def)
  moreover have "small_payload ?rec" by (rule small_recovered [OF w])
  ultimately show ?thesis
    using that [of "?m1\<lparr>lm_buffer := c\<rparr>"] b c h by (simp add: db_log_holds_def durable_log_def)
qed

lemma TM_Commit_run:
  assumes "db_log_holds d rs" "tm_log (db_txn d)" "i \<in> set (tm_active (db_txn d))"
  defines "logs \<equiv> rs @ [recovered (lm_next_lsn (db_log d)) (control i LR_COMMIT)]"
  obtains d' where "TM_Commit i d = (Inr (), d')" "db_txn d' = finish_txn i COMMITTED (db_txn d)" "db_log_holds d' logs"
    "durable_log d' = concat (map encode_record logs)" "db_store d' = db_store d"
proof -
  let ?d = "d\<lparr>db_txn := finish_txn i COMMITTED (db_txn d)\<rparr>"
  have "db_log_holds ?d rs" "tm_log (db_txn ?d)" using assms(1,2) by (simp_all add: db_log_holds_def finish_txn_def update_txn_def)
  then obtain l where l: "log_and_flush i LR_COMMIT ?d = (Inr (), ?d\<lparr>db_log := l\<rparr>)" "db_log_holds (?d\<lparr>db_log := l\<rparr>) logs"
    "durable_log (?d\<lparr>db_log := l\<rparr>) = concat (map encode_record logs)"
    unfolding logs_def using log_and_flush_run [of ?d rs i LR_COMMIT] by auto
  have "TM_Commit i d = (Inr (), ?d\<lparr>db_log := l\<rparr>)" using assms(3) l(1) by (simp add: TM_Commit_def on_txn_def comp_simps)
  then show ?thesis using that l(2,3) by simp
qed

text \<open>
  Force-log-at-commit: committing an active transaction succeeds, marks it committed and no longer active, and when the
  call returns the log file itself (not the buffer) consists of all records logged before followed by the commit record.
  Committing a transaction that is not active throws and changes nothing.
\<close>

theorem commit_durable:
  assumes "db_log_holds d rs" "tm_log (db_txn d)"
  shows "if i \<in> set (tm_active (db_txn d)) then
      \<exists>d'. TM_Commit i d = (Inr (), d') \<and> TM_IsCommitted (db_txn d') i \<and> i \<notin> set (tm_active (db_txn d')) \<and>
        ReadLog (LogDiskManager_new (durable_log d')) = rs @ [recovered (lm_next_lsn (db_log d)) (control i LR_COMMIT)] \<and>
        db_store d' = db_store d
    else TM_Commit i d = (Inl (RuntimeError ''TransactionManager::Commit transaction not found''), d)"
proof (cases "i \<in> set (tm_active (db_txn d))")
  case True
  let ?logs = "rs @ [recovered (lm_next_lsn (db_log d)) (control i LR_COMMIT)]"
  obtain d' where d': "TM_Commit i d = (Inr (), d')" "db_txn d' = finish_txn i COMMITTED (db_txn d)" "db_log_holds d' ?logs"
    "durable_log d' = concat (map encode_record ?logs)" "db_store d' = db_store d" using TM_Commit_run [OF assms True] by blast
  have "ReadLog (LogDiskManager_new (durable_log d')) = ?logs"
    using d'(3,4) by (intro ReadLog_records) (simp_all add: db_log_holds_def LogDiskManager_new_def)
  then show ?thesis using True d' by (simp add: TM_IsCommitted_def)
qed (simp add: TM_Commit_def comp_simps)

text \<open>A server just after its start, with one transaction running.\<close>

definition demo_db :: DB where
  "demo_db = \<lparr>db_store = \<lparr>st_bm = zero_pool, st_meta = \<lparr>mp_version = 0, mp_table_size = 0, mp_last_point = 24, mp_frame = 0,
       mp_name_tables = (\<lambda>_. None), mp_id_tables = (\<lambda>_. None), mp_items = []\<rparr>\<rparr>, db_undo_page = 0,
     db_log = LogManager_new (LogBuffer_new 8192 (LogDiskManager_new [])),
     db_txn = snd (TM_Begin (TM_SetLogManager (TM_SetStorage TransactionManager_new))), db_catalog = Catalog_new\<rparr>"

lemma demo_db_log: "db_log_holds demo_db []" "tm_log (db_txn demo_db)" "tm_active (db_txn demo_db) = [1]" "lm_next_lsn (db_log demo_db) = 1"
  using LogBuffer_new_ok [of 8192 "[]"]
  by (simp_all add: demo_db_def db_log_holds_def LogManager_new_def TM_Begin_def begin_register_def GetNextTxId_def take_view_def
      update_txn_def TM_SetLogManager_def TM_SetStorage_def TransactionManager_new_def LogBuffer_new_def)

lemma commit_durable_witness:
  "\<exists>d'. TM_Commit 1 demo_db = (Inr (), d') \<and> TM_IsCommitted (db_txn d') 1 \<and>
     ReadLog (LogDiskManager_new (durable_log d')) = [recovered 1 (control 1 LR_COMMIT)]"
  using commit_durable [OF demo_db_log(1,2), of 1] by (auto simp: demo_db_log)

end
