(* ===== verification/Table_Scan.thy ===== *)
theory Table_Scan
  imports Database
begin

unbundle bit_operations_syntax

text \<open>
  Reading a table: the iterator over the pages of a heap (\<^verbatim>\<open>buffer/table_iterator.cpp\<close>, \<^verbatim>\<open>TableEntry::begin\<close>) and the sequential
  scan that picks the version each row has for the reader (\<^verbatim>\<open>executor/executor_seq_scan.cpp\<close>).  A chain of pages and a
  chain of versions may be cyclic in a damaged file, and then the code does not return; the loops carry fuel, and the lemmas show
  that the length of the chains is enough.  Shown: a scan returns, in the order of the pages and rows, exactly the rows
  whose version for the snapshot is not deleted, and leaves the pool as it found it.
\<close>

section \<open>The iterator\<close>

record TableIterator =
  ti_table_name :: string
  ti_table :: entry_id
  ti_schema :: Schema
  ti_page_id :: page_id_t
  ti_row :: u32
  ti_num_rows :: u32
  ti_tp :: "TablePage option"
  ti_end :: bool

definition TableIterator_end :: TableIterator where
  "TableIterator_end = \<lparr>ti_table_name = [], ti_table = 0, ti_schema = [], ti_page_id = 0, ti_row = 1, ti_num_rows = 0, ti_tp = None, ti_end = True\<rparr>"

definition TI_eq :: "TableIterator \<Rightarrow> TableIterator \<Rightarrow> bool" where
  "TI_eq a b \<longleftrightarrow> ti_end a = ti_end b \<and> ti_page_id a = ti_page_id b \<and> ti_row a = ti_row b"

definition TI_GetRID :: "TableIterator \<Rightarrow> RID" where
  "TI_GetRID it = \<lparr>rid_page = ti_page_id it, rid_row = ucast (ti_row it)\<rparr>"

definition TI_LoadPage :: "TableIterator \<Rightarrow> (Store, TableIterator) comp" where
  "TI_LoadPage it = bnd (in_bm (BM_FetchPage (ti_page_id it))) (\<lambda>f. bnd (TablePage_new (ti_table it) f True) (\<lambda>tp.
     ret (it\<lparr>ti_tp := Some tp, ti_num_rows := TP_GetCount tp\<rparr>)))"

text \<open>The step to the next page, which the constructor and \<^verbatim>\<open>operator++\<close> write out in their loops.\<close>

definition next_page :: "TableIterator \<Rightarrow> (Store, TableIterator) comp" where
  "next_page it = (case ti_tp it of None \<Rightarrow> throw MemoryFault
     | Some tp \<Rightarrow> thn (in_bm (BM_Release (ti_page_id it)))
         (if tp_next tp = INVALID_PAGE_ID then ret (it\<lparr>ti_end := True\<rparr>)
          else bnd (TI_LoadPage (it\<lparr>ti_page_id := tp_next tp\<rparr>)) (\<lambda>it'. ret (it'\<lparr>ti_row := 1\<rparr>))))"

fun skip_empty :: "nat \<Rightarrow> TableIterator \<Rightarrow> (Store, TableIterator) comp" where
  "skip_empty 0 it = throw OutOfFuel"
| "skip_empty (Suc n) it = (if ti_end it \<or> ti_num_rows it \<noteq> 0 then ret it else bnd (next_page it) (skip_empty n))"

definition TableIterator_new :: "nat \<Rightarrow> string \<Rightarrow> entry_id \<Rightarrow> Schema \<Rightarrow> (Store, TableIterator) comp" where
  "TableIterator_new fuel name table sch = bnd (MP_GetFirstPageId_by_name name) (\<lambda>p.
     (let it = \<lparr>ti_table_name = name, ti_table = table, ti_schema = sch, ti_page_id = p, ti_row = 1, ti_num_rows = 0,
                ti_tp = None, ti_end = False\<rparr> in
      if p = 0 then ret (it\<lparr>ti_end := True\<rparr>)
      else bnd (TI_LoadPage it) (\<lambda>it'. skip_empty fuel (it'\<lparr>ti_row := 1\<rparr>))))"

definition TI_deref :: "TableIterator \<Rightarrow> (Store, Tuple) comp" where
  "TI_deref it = (if ti_end it then throw (RuntimeError ''TableIterator::operator*() is not valid'')
     else case ti_tp it of None \<Rightarrow> throw MemoryFault
       | Some tp \<Rightarrow> TP_GetTuple (TI_GetRID it) tp (Tuple_new\<lparr>t_schema := ti_schema it\<rparr>))"

definition TI_next :: "nat \<Rightarrow> TableIterator \<Rightarrow> (Store, TableIterator) comp" where
  "TI_next fuel it = (if ti_end it then ret it
     else (let it1 = it\<lparr>ti_row := ti_row it + 1\<rparr> in
       if ti_num_rows it1 < ti_row it1 then bnd (next_page it1) (skip_empty fuel)
       else thn (in_bm (BM_TouchPage (ti_page_id it1))) (ret it1)))"

definition TE_begin :: "nat \<Rightarrow> TableEntry \<Rightarrow> (Store, TableIterator) comp" where
  "TE_begin fuel te = TableIterator_new fuel (te_name te) (te_id te) (TE_GetSchema te)"

section \<open>The scan\<close>

definition ParseHeader :: "Tuple \<Rightarrow> RecordHeader res" where
  "ParseHeader t = (case t_data t of None \<Rightarrow> Inl MemoryFault
     | Some d \<Rightarrow> if length d < REC_HEADER_SIZE then Inl MemoryFault else Inr (read_header d))"

text \<open>
  The walk along the versions of a row.  \<open>see\<close> decides visibility, \<open>undo\<close> says whether there is an undo log and \<open>get\<close> reads it:
  the walk is the client of the undo log, whose contract is stated below.
\<close>

fun version_loop :: "(tx_id_t \<Rightarrow> ('s, bool) comp) \<Rightarrow> bool \<Rightarrow> (UndoPointer \<Rightarrow> ('s, Tuple) comp) \<Rightarrow> nat \<Rightarrow> Tuple \<Rightarrow> ('s, Tuple option) comp" where
  "version_loop see undo get 0 cur = throw OutOfFuel"
| "version_loop see undo get (Suc n) cur = bnd (of_res (ParseHeader cur)) (\<lambda>h. bnd (see (rh_trx_id h)) (\<lambda>v.
     if v then ret (if rh_flags h AND RECORD_DEL \<noteq> 0 then None else Some cur)
     else if UndoPointer_IsNull (rh_roll_ptr h) \<or> \<not> undo then ret None
     else bnd (get (rh_roll_ptr h)) (\<lambda>t. if t_data t = None then ret None else version_loop see undo get n t)))"

record ExecutorSeqScan =
  sq_table_name :: string
  sq_schema :: Schema
  sq_iterator :: "TableIterator option"

definition ExecutorSeqScan_new :: "string \<Rightarrow> ExecutorSeqScan" where
  "ExecutorSeqScan_new n = \<lparr>sq_table_name = n, sq_schema = [], sq_iterator = None\<rparr>"

definition SS_Close :: "ExecutorSeqScan \<Rightarrow> ExecutorSeqScan" where
  "SS_Close sq = sq\<lparr>sq_iterator := None\<rparr>"

definition ctx_transaction :: "ExecutorContext \<Rightarrow> DB \<Rightarrow> Transaction option" where
  "ctx_transaction ctx d = map_option (txn_of (db_txn d)) (ctx_txn ctx)"

definition SS_IsVisible :: "ExecutorContext \<Rightarrow> tx_id_t \<Rightarrow> (DB, bool) comp" where
  "SS_IsVisible ctx x = (if x = INVALID_TX_ID then ret True
     else bnd (gets (ctx_transaction ctx)) (\<lambda>t. case t of None \<Rightarrow> throw MemoryFault
       | Some txn \<Rightarrow> if tx_id txn = x then ret True
          else case tx_read_view txn of None \<Rightarrow> throw MemoryFault | Some v \<Rightarrow> gets (\<lambda>d. IsVisible (db_txn d) v x)))"

definition has_view :: "ExecutorContext \<Rightarrow> DB \<Rightarrow> bool" where
  "has_view ctx d \<longleftrightarrow> (case ctx_transaction ctx d of None \<Rightarrow> False | Some txn \<Rightarrow> tx_read_view txn \<noteq> None)"

text \<open>What one physical row contributes to the scan.\<close>

definition scan_row :: "nat \<Rightarrow> ExecutorContext \<Rightarrow> Tuple \<Rightarrow> (DB, Tuple option) comp" where
  "scan_row fuel ctx physical =
     (if t_data physical = None then ret None
      else bnd (of_res (ParseHeader physical)) (\<lambda>h.
        if rh_flags h AND RECORD_DEAD \<noteq> 0 then ret None
        else bnd (gets (has_view ctx)) (\<lambda>hv.
          if \<not> hv then ret (if rh_flags h AND RECORD_DEL \<noteq> 0 then None else Some physical)
          else version_loop (SS_IsVisible ctx) (ctx_undo ctx) (\<lambda>p. in_undo (ULM_GetUndoRecord p)) fuel physical)))"

fun scan_rows :: "nat \<Rightarrow> nat \<Rightarrow> ExecutorContext \<Rightarrow> ExecutorSeqScan \<Rightarrow> (DB, ExecutorSeqScan \<times> Tuple option) comp" where
  "scan_rows fuel 0 ctx sq = throw OutOfFuel"
| "scan_rows fuel (Suc n) ctx sq = (case sq_iterator sq of None \<Rightarrow> ret (sq, None)
     | Some it \<Rightarrow> if ti_end it then ret (sq, None)
         else bnd (in_store (TI_deref it)) (\<lambda>physical. bnd (in_store (TI_next fuel it)) (\<lambda>it'.
           bnd (scan_row fuel ctx physical) (\<lambda>r. case r of
             None \<Rightarrow> scan_rows fuel n ctx (sq\<lparr>sq_iterator := Some it'\<rparr>)
           | Some t \<Rightarrow> ret (sq\<lparr>sq_iterator := Some it'\<rparr>, Some (t\<lparr>t_schema := sq_schema sq\<rparr>))))))"

definition SS_Next :: "nat \<Rightarrow> ExecutorContext \<Rightarrow> ExecutorSeqScan \<Rightarrow> (DB, ExecutorSeqScan \<times> Tuple option) comp" where
  "SS_Next fuel ctx sq = scan_rows fuel fuel ctx sq"

text \<open>The columns are appended to the schema of the executor.\<close>

definition SS_Open :: "nat \<Rightarrow> ExecutorSeqScan \<Rightarrow> (DB, ExecutorSeqScan) comp" where
  "SS_Open fuel sq = bnd (gets db_catalog) (\<lambda>c. case map_of (cat_names c) (sq_table_name sq) of
     None \<Rightarrow> throw (RuntimeError ''TableIterator::Open Table name not found'')
   | Some i \<Rightarrow> bnd (of_res (Cat_table c i)) (\<lambda>te.
       (let sch = sq_schema sq @ TE_GetSchema te in
        bnd (in_store (TableIterator_new fuel (sq_table_name sq) i sch)) (\<lambda>it.
        ret (sq\<lparr>sq_schema := sch, sq_iterator := Some it\<rparr>)))))"

section \<open>The heap as a list of rows\<close>

text \<open>\<open>heap_chain b p rss\<close>: the pages linked from page \<open>p\<close> hold the records \<open>rss\<close>, page by page.\<close>

inductive heap_chain :: "BufferManager \<Rightarrow> page_id_t \<Rightarrow> bytes list list \<Rightarrow> bool" for b where
  chain_nil: "heap_chain b 0 []"
| chain_page: "p \<noteq> 0 \<Longrightarrow> addressable p \<Longrightarrow> backed b p \<Longrightarrow> page_content b p = Some d \<Longrightarrow> page_layout tp rs d \<Longrightarrow>
     heap_chain b (tp_next tp) rss \<Longrightarrow> heap_chain b p (rs # rss)"

inductive_cases heap_chainE: "heap_chain b p rss"

inductive_simps heap_chain_0 [simp]: "heap_chain b 0 rss"

text \<open>The same with the numbers of the pages.\<close>

fun first_id :: "page_id_t list \<Rightarrow> page_id_t" where
  "first_id [] = 0"
| "first_id (p # ps) = p"

fun chain :: "BufferManager \<Rightarrow> page_id_t list \<Rightarrow> bytes list list \<Rightarrow> bool" where
  "chain b [] [] \<longleftrightarrow> True"
| "chain b (p # ps) (rs # rss) \<longleftrightarrow> p \<noteq> 0 \<and> addressable p \<and> backed b p \<and>
     (\<exists>d tp. page_content b p = Some d \<and> page_layout tp rs d \<and> tp_next tp = first_id ps) \<and> chain b ps rss"
| "chain b _ _ \<longleftrightarrow> False"

lemma chain_heap: "chain b ps rss \<Longrightarrow> heap_chain b (first_id ps) rss"
proof (induction b ps rss rule: chain.induct)
  case (2 b p ps rs rss)
  then obtain d tp where "page_content b p = Some d" "page_layout tp rs d" "tp_next tp = first_id ps" by auto
  then show ?case using 2 by (auto intro: chain_page)
qed simp_all

lemma heap_chain_pages: "heap_chain b p rss \<Longrightarrow> \<exists>ps. first_id ps = p \<and> chain b ps rss"
proof (induction rule: heap_chain.induct)
  case chain_nil
  show ?case by (intro exI [of _ "[]"]) simp
next
  case (chain_page p d tp rs rss)
  then obtain ps where "first_id ps = tp_next tp" "chain b ps rss" by blast
  then show ?case using chain_page(1-5) by (intro exI [of _ "p # ps"]) auto
qed

lemma chain_length: "chain b ps rss \<Longrightarrow> length ps = length rss"
  by (induction b ps rss rule: chain.induct) simp_all

lemma chain_keeps: "chain b ps rss \<Longrightarrow> keeps_pages b c \<Longrightarrow> chain c ps rss"
  by (induction b ps rss rule: chain.induct) (auto simp: keeps_pages_def)

text \<open>
  \<open>iter_at n ps b it rows\<close>: the rows the iterator has still to deliver, on the current page and the pages behind it, which are the end of
  the list \<open>ps\<close>; when it is done, \<open>n\<close> frames are free.
\<close>

definition iter_at :: "nat \<Rightarrow> page_id_t list \<Rightarrow> BufferManager \<Rightarrow> TableIterator \<Rightarrow> bytes list \<Rightarrow> bool" where
  "iter_at n ps b it rows \<longleftrightarrow> pool_ok b \<and>
     (if ti_end it then rows = [] \<and> length (bm_free b) = n
      else \<exists>pre qs tp rs rss i. ps = pre @ ti_page_id it # qs \<and> ti_tp it = Some tp \<and> pinned n (ti_page_id it) (tp_frame tp) b \<and> backed b (ti_page_id it) \<and>
        page_layout tp rs (fdata (tp_frame tp) b) \<and> unat (ti_row it) = Suc i \<and> i \<le> length rs \<and> ti_num_rows it = tp_num_rows tp \<and>
        tp_table tp = ti_table it \<and> tp_next tp = first_id qs \<and> chain b qs rss \<and> rows = drop i rs @ concat rss)"

lemma iter_atE:
  assumes "iter_at n ps b it rows" "\<not> ti_end it"
  obtains pre qs tp rs rss i where "ps = pre @ ti_page_id it # qs" "ti_tp it = Some tp" "pinned n (ti_page_id it) (tp_frame tp) b" "backed b (ti_page_id it)"
    "page_layout tp rs (fdata (tp_frame tp) b)" "unat (ti_row it) = Suc i" "i \<le> length rs" "ti_num_rows it = tp_num_rows tp"
    "tp_table tp = ti_table it" "tp_next tp = first_id qs" "chain b qs rss" "rows = drop i rs @ concat rss" "pool_ok b"
  using assms unfolding iter_at_def by auto

lemma iter_atI:
  assumes "ps = pre @ ti_page_id it # qs" "ti_tp it = Some tp" "pinned n (ti_page_id it) (tp_frame tp) b" "backed b (ti_page_id it)"
    "page_layout tp rs (fdata (tp_frame tp) b)" "unat (ti_row it) = Suc i" "i \<le> length rs" "ti_num_rows it = tp_num_rows tp"
    "tp_table tp = ti_table it" "tp_next tp = first_id qs" "chain b qs rss" "rows = drop i rs @ concat rss" "pool_ok b" "\<not> ti_end it"
  shows "iter_at n ps b it rows"
  using assms unfolding iter_at_def by auto

definition iter_ready :: "TableIterator \<Rightarrow> bool" where
  "iter_ready it \<longleftrightarrow> ti_end it \<or> ti_row it \<le> ti_num_rows it"

lemma page_layout_count: "page_layout tp rs d \<Longrightarrow> unat (tp_num_rows tp) = length rs \<and> length rs \<le> 1024"
  by (auto simp: page_layout_def unat_u32_small)

lemma page_layout_place: "page_layout (tp\<lparr>tp_frame := f, tp_table := t\<rparr>) rs d = page_layout tp rs d"
  by (simp add: page_layout_def tp_header_def)

lemma fdata_content: "bm_pages b p = Some f \<Longrightarrow> page_content b p = Some (fdata f b)"
  by (simp add: page_content_def fdata_def)

lemma fdata_keeps: "bm_pages b p = Some f \<Longrightarrow> bm_pages c p = Some f \<Longrightarrow> keeps_pages b c \<Longrightarrow> fdata f c = fdata f b"
  using fdata_content [of b p f] fdata_content [of c p f] by (simp add: keeps_pages_def)

lemma iter_at_quiet:
  assumes "iter_at n ps b it rows" "quiet b c"
  shows "iter_at n ps c it rows"
proof (cases "ti_end it")
  case False
  obtain pre qs tp rs rss i where t: "ps = pre @ ti_page_id it # qs" "ti_tp it = Some tp" "pinned n (ti_page_id it) (tp_frame tp) b" "backed b (ti_page_id it)"
    "page_layout tp rs (fdata (tp_frame tp) b)" "unat (ti_row it) = Suc i" "i \<le> length rs" "ti_num_rows it = tp_num_rows tp"
    "tp_table tp = ti_table it" "tp_next tp = first_id qs" "chain b qs rss" "rows = drop i rs @ concat rss" "pool_ok b" by (rule iter_atE [OF assms(1) False])
  have "fdata (tp_frame tp) c = fdata (tp_frame tp) b"
    using t(3) pinned_quiet [OF t(3) assms(2)] quietD(2) [OF assms(2)] by (intro fdata_keeps) (auto simp: pinned_def)
  then show ?thesis
    using t(5) False by (intro iter_atI [OF t(1,2) pinned_quiet [OF t(3) assms(2)] quietD(4) [OF assms(2) t(4)] _ t(6-10) chain_keeps [OF t(11) quietD(2) [OF assms(2)]] t(12) quietD(1) [OF assms(2)]]) simp_all
qed (use assms in \<open>auto simp: iter_at_def quiet_def keeps_pages_def\<close>)

lemma load_page:
  assumes ok: "pool_ok (st_bm s)" and free: "bm_free (st_bm s) \<noteq> []" and ch: "chain (st_bm s) (ti_page_id it # qs) (rs # rss)"
    and it: "\<not> ti_end it"
  obtains it' c where "TI_LoadPage it s = (Inr it', s\<lparr>st_bm := c\<rparr>)" "keeps_pages (st_bm s) c" "\<not> ti_end it'" "ti_schema it' = ti_schema it" "ti_table it' = ti_table it"
    "iter_at (length (bm_free (st_bm s))) (ti_page_id it # qs) c (it'\<lparr>ti_row := 1\<rparr>) (rs @ concat rss)"
    "iter_ready (it'\<lparr>ti_row := 1\<rparr>) \<longleftrightarrow> rs \<noteq> []" "ti_num_rows it' = 0 \<longleftrightarrow> rs = []" "stays {} (st_bm s) c"
proof -
  obtain d tp where h: "addressable (ti_page_id it)" "backed (st_bm s) (ti_page_id it)" "page_content (st_bm s) (ti_page_id it) = Some d"
    "page_layout tp rs d" "tp_next tp = first_id qs" "chain (st_bm s) qs rss" using ch by auto
  obtain f c where c: "BM_FetchPage (ti_page_id it) (st_bm s) = (Inr f, c)" "held (ti_page_id it) f c" "fdata f c = d" "keeps_pages (st_bm s) c"
    "pinned (length (bm_free (st_bm s))) (ti_page_id it) f c" "stays {} (st_bm s) c" by (rule fetch_pinned [OF ok free h(1,3)])
  let ?tp = "tp\<lparr>tp_frame := f, tp_table := ti_table it\<rparr>" and ?s = "s\<lparr>st_bm := c\<rparr>"
  let ?it = "it\<lparr>ti_tp := Some ?tp, ti_num_rows := tp_num_rows tp\<rparr>"
  have "TablePage_new (ti_table it) f True ?s = (Inr ?tp, ?s)"
    using TablePage_open_run [of "ti_page_id it" ?tp ?s rs] c(2,3) h(4) by (simp add: page_layout_place)
  then have run: "TI_LoadPage it s = (Inr ?it, ?s)"
    using c(1) by (simp add: TI_LoadPage_def comp_simps TP_GetCount_def)
  have cnt: "unat (tp_num_rows tp) = length rs" using page_layout_count [OF h(4)] by simp
  have "pool_ok c" "backed c (ti_page_id it)" using c(4) h(2) by (simp_all add: keeps_pages_def)
  then have "iter_at (length (bm_free (st_bm s))) (ti_page_id it # qs) c (?it\<lparr>ti_row := 1\<rparr>) (rs @ concat rss)"
    using it c(3,5) h(4,5) chain_keeps [OF h(6) c(4)] by (intro iter_atI [where pre = "[]" and tp = ?tp and i = 0 and rss = rss]) (simp_all add: page_layout_place)
  moreover have "tp_num_rows tp = 0 \<longleftrightarrow> rs = []" using cnt by (metis length_0_conv unat_eq_0)
  moreover have "1 \<le> tp_num_rows tp \<longleftrightarrow> rs \<noteq> []" using cnt by (simp add: word_le_nat_alt) (metis One_nat_def Suc_le_eq length_greater_0_conv)
  ultimately show ?thesis using that [OF run c(4)] it c(6) by (simp add: iter_ready_def)
qed

lemma iter_at_mono: "iter_at n ps b it rows \<Longrightarrow> iter_at n (pre @ ps) b it rows"
  unfolding iter_at_def by (cases "ti_end it") (simp, metis append.assoc)

text \<open>Leaving a page whose rows are used up: its frame is given back and the rows of the next pages follow.\<close>

lemma next_page_run:
  assumes it: "iter_at n ps (st_bm s) it rows" "\<not> ti_end it" "1 \<le> n" and last: "unat (ti_row it) > unat (ti_num_rows it)"
  obtains it' c pre qs where "next_page it s = (Inr it', s\<lparr>st_bm := c\<rparr>)" "keeps_pages (st_bm s) c" "iter_at n qs c it' rows" "ps = pre @ qs"
    "ti_schema it' = ti_schema it" "ti_table it' = ti_table it" "length qs < length ps" "iter_ready it' \<longleftrightarrow> ti_end it' \<or> ti_num_rows it' \<noteq> 0"
    "\<not> ti_end it' \<longrightarrow> ti_row it' = 1" "stays (set ps) (st_bm s) c"
proof -
  obtain pre qs tp rs rss i where t: "ps = pre @ ti_page_id it # qs" "ti_tp it = Some tp" "pinned n (ti_page_id it) (tp_frame tp) (st_bm s)" "backed (st_bm s) (ti_page_id it)"
    "page_layout tp rs (fdata (tp_frame tp) (st_bm s))" "unat (ti_row it) = Suc i" "i \<le> length rs" "ti_num_rows it = tp_num_rows tp"
    "tp_table tp = ti_table it" "tp_next tp = first_id qs" "chain (st_bm s) qs rss" "rows = drop i rs @ concat rss" "pool_ok (st_bm s)"
    by (rule iter_atE [OF it(1,2)])
  have rows: "rows = concat rss" using page_layout_count [OF t(5)] last t(6-8,12) by simp
  obtain c where c: "BM_Release (ti_page_id it) (st_bm s) = (Inr (), c)" "keeps_pages (st_bm s) c" "length (bm_free c) = n" "stays {ti_page_id it} (st_bm s) c"
    by (rule release_pinned [OF t(13,3,4)])
  have okc: "pool_ok c" using c(2) by (simp add: keeps_pages_def)
  note ch = chain_keeps [OF t(11) c(2)]
  have ps: "ps = (pre @ [ti_page_id it]) @ qs" "length qs < length ps" using t(1) by simp_all
  show ?thesis
  proof (cases rss)
    case Nil
    then have q: "qs = []" using t(11) chain_length by fastforce
    then have "iter_at n qs c (it\<lparr>ti_end := True\<rparr>) rows" using rows Nil okc c(3) by (simp add: iter_at_def)
    moreover have "next_page it s = (Inr (it\<lparr>ti_end := True\<rparr>), s\<lparr>st_bm := c\<rparr>)"
      using q t(2,10) c(1) by (simp add: next_page_def comp_simps)
    ultimately show ?thesis using that c(2) ps stays_trans [OF c(4) stays_refl, of "{}" "set ps"] by (simp add: iter_ready_def)
  next
    case r: (Cons ys qss)
    then obtain q ids where q: "qs = q # ids" "q \<noteq> 0" using t(11) by (cases qs) auto
    let ?s = "s\<lparr>st_bm := c\<rparr>" and ?it = "it\<lparr>ti_page_id := tp_next tp\<rparr>"
    obtain it' e where e: "TI_LoadPage ?it ?s = (Inr it', ?s\<lparr>st_bm := e\<rparr>)" "keeps_pages (st_bm ?s) e" "\<not> ti_end it'" "ti_schema it' = ti_schema ?it" "ti_table it' = ti_table ?it"
      "iter_at (length (bm_free (st_bm ?s))) (ti_page_id ?it # ids) e (it'\<lparr>ti_row := 1\<rparr>) (ys @ concat qss)"
      "iter_ready (it'\<lparr>ti_row := 1\<rparr>) \<longleftrightarrow> ys \<noteq> []" "ti_num_rows it' = 0 \<longleftrightarrow> ys = []" "stays {} (st_bm ?s) e"
      by (rule load_page [of ?s ?it ids ys qss]) (use okc c(3) it(2,3) ch r q t(10) in auto)
    have "next_page it s = (Inr (it'\<lparr>ti_row := 1\<rparr>), s\<lparr>st_bm := e\<rparr>)"
      using q t(2,10) c(1) e(1) by (simp add: next_page_def comp_simps)
    moreover have "iter_at n qs e (it'\<lparr>ti_row := 1\<rparr>) rows" using e(6) c(3) rows r q t(10) by simp
    moreover have "stays (set ps) (st_bm s) e" by (rule stays_trans [OF c(4)]) (use e(9) ps in auto)
    ultimately show ?thesis using that keeps_pages_trans [OF c(2), of e] e(2-5,7,8) ps by auto
  qed
qed

lemma skip_empty_run:
  assumes "iter_at n ps (st_bm s) it rows" "1 \<le> n" "length ps < fuel" "iter_ready it \<longleftrightarrow> ti_end it \<or> ti_num_rows it \<noteq> 0" "\<not> ti_end it \<longrightarrow> ti_row it = 1"
  shows "\<exists>it' c. skip_empty fuel it s = (Inr it', s\<lparr>st_bm := c\<rparr>) \<and> keeps_pages (st_bm s) c \<and> iter_at n ps c it' rows \<and> iter_ready it' \<and>
    ti_schema it' = ti_schema it \<and> ti_table it' = ti_table it \<and> stays (set ps) (st_bm s) c"
  using assms
proof (induction fuel arbitrary: ps it s)
  case (Suc fuel)
  have ok: "pool_ok (st_bm s)" using Suc.prems(1) by (simp add: iter_at_def)
  show ?case
  proof (cases "ti_end it \<or> ti_num_rows it \<noteq> 0")
    case True
    then show ?thesis using Suc.prems(1,4) keeps_pages_refl [OF ok] by (auto simp: comp_simps stays_refl intro!: exI [of _ "st_bm s"])
  next
    case False
    then have z: "unat (ti_row it) > unat (ti_num_rows it)" using Suc.prems(5) by simp
    obtain it1 c pre qs where c: "next_page it s = (Inr it1, s\<lparr>st_bm := c\<rparr>)" "keeps_pages (st_bm s) c" "iter_at n qs c it1 rows" "ps = pre @ qs"
      "ti_schema it1 = ti_schema it" "ti_table it1 = ti_table it" "length qs < length ps" "iter_ready it1 \<longleftrightarrow> ti_end it1 \<or> ti_num_rows it1 \<noteq> 0" "\<not> ti_end it1 \<longrightarrow> ti_row it1 = 1"
      "stays (set ps) (st_bm s) c" by (rule next_page_run [OF Suc.prems(1) _ Suc.prems(2) z]) (use False in auto)
    have k: "length qs < fuel" using c(7) Suc.prems(3) by simp
    obtain it' e where e: "skip_empty fuel it1 (s\<lparr>st_bm := c\<rparr>) = (Inr it', s\<lparr>st_bm := e\<rparr>)" "keeps_pages c e" "iter_at n qs e it' rows"
      "iter_ready it'" "ti_schema it' = ti_schema it1" "ti_table it' = ti_table it1" "stays (set qs) c e" using Suc.IH [of qs "s\<lparr>st_bm := c\<rparr>" it1] c(3,8,9) Suc.prems(2) k by auto
    moreover have "stays (set ps) (st_bm s) e" by (rule stays_trans [OF c(10) e(7)]) (use c(4) in auto)
    ultimately show ?thesis
      using False c(1,4-6) keeps_pages_trans [OF c(2) e(2)] iter_at_mono [OF e(3), of pre] by (auto simp: comp_simps intro!: exI [of _ e])
  qed
qed simp

lemma deref_run:
  assumes "iter_at n ps (st_bm s) it rows" "iter_ready it" "\<not> ti_end it"
  obtains r rest where "rows = r # rest"
    "TI_deref it s = (Inr (Tuple_new\<lparr>t_schema := ti_schema it, t_data := Some r, t_size := word_of_nat (length r)\<rparr>), s)"
proof -
  obtain tp rs rss i where t: "ti_tp it = Some tp" "pinned n (ti_page_id it) (tp_frame tp) (st_bm s)"
    "page_layout tp rs (fdata (tp_frame tp) (st_bm s))" "unat (ti_row it) = Suc i" "ti_num_rows it = tp_num_rows tp"
    "rows = drop i rs @ concat rss" "pool_ok (st_bm s)" by (rule iter_atE [OF assms(1,3)])
  have i: "i < length rs" using assms(2,3) t(4,5) page_layout_count [OF t(3)] by (simp add: iter_ready_def word_le_nat_alt)
  then have "rows = rs ! i # drop (Suc i) rs @ concat rss" using t(6) by (simp add: Cons_nth_drop_Suc [symmetric])
  moreover have "theld (ti_page_id it) (tp_frame tp) s" using t(2,7) by (auto simp: held_def pinned_def pool_ok_def)
  then have "TP_GetTuple (TI_GetRID it) tp (Tuple_new\<lparr>t_schema := ti_schema it\<rparr>) s =
      (Inr (Tuple_new\<lparr>t_schema := ti_schema it, t_data := Some (rs ! i), t_size := word_of_nat (length (rs ! i))\<rparr>), s)"
    using t(3,4) i by (intro GetTuple_run) (auto simp: TI_GetRID_def unsigned_ucast_eq take_bit_nat_eq_self_iff intro!: less_le_trans [OF unsigned_less])
  ultimately show ?thesis using that assms(3) t(1) by (simp add: TI_deref_def)
qed

lemma quiet_touch: "pool_ok b \<Longrightarrow> quiet b (b\<lparr>bm_lru := LRU_Touch f (bm_lru b)\<rparr>)"
  using bm_inv_touch [of b f]
  by (auto simp: quiet_def keeps_pages_def pool_ok_def page_content_def backed_def frame_of_def split: option.splits)

lemma next_run:
  assumes it: "iter_at n ps (st_bm s) it (r # rest)" "iter_ready it" "\<not> ti_end it" "1 \<le> n" "length ps < fuel"
  obtains it' c where "TI_next fuel it s = (Inr it', s\<lparr>st_bm := c\<rparr>)" "keeps_pages (st_bm s) c" "iter_at n ps c it' rest" "iter_ready it'"
    "ti_schema it' = ti_schema it" "ti_table it' = ti_table it" "stays (set ps) (st_bm s) c"
proof -
  let ?it = "it\<lparr>ti_row := ti_row it + 1\<rparr>"
  obtain pre qs tp rs rss i where t: "ps = pre @ ti_page_id it # qs" "ti_tp it = Some tp" "pinned n (ti_page_id it) (tp_frame tp) (st_bm s)" "backed (st_bm s) (ti_page_id it)"
    "page_layout tp rs (fdata (tp_frame tp) (st_bm s))" "unat (ti_row it) = Suc i" "i \<le> length rs" "ti_num_rows it = tp_num_rows tp"
    "tp_table tp = ti_table it" "tp_next tp = first_id qs" "chain (st_bm s) qs rss" "r # rest = drop i rs @ concat rss" "pool_ok (st_bm s)"
    by (rule iter_atE [OF it(1,3)])
  note cnt = page_layout_count [OF t(5)]
  have i: "i < length rs" using it(2,3) t(6,8) cnt by (simp add: iter_ready_def word_le_nat_alt)
  have "unat (ti_row it) + unat (1 :: u32) < 2 ^ 32" using t(6) i cnt by simp
  then have row: "unat (ti_row it + 1) = Suc (Suc i)" using t(6) by (simp add: unat_plus_simple [THEN iffD1] no_olen_add_nat)
  have rest: "rest = drop (Suc i) rs @ concat rss" using t(12) i by (simp add: Cons_nth_drop_Suc [symmetric])
  have at: "iter_at n ps (st_bm s) ?it rest" using t row i it(3) rest by (intro iter_atI [of ps pre ?it qs tp n _ rs "Suc i" rss]) simp_all
  show ?thesis
  proof (cases "ti_num_rows it < ti_row it + 1")
    case True
    then have last: "unat (ti_row ?it) > unat (ti_num_rows ?it)" by (simp add: word_less_nat_alt)
    obtain it1 c before left where c: "next_page ?it s = (Inr it1, s\<lparr>st_bm := c\<rparr>)" "keeps_pages (st_bm s) c" "iter_at n left c it1 rest" "ps = before @ left"
      "ti_schema it1 = ti_schema ?it" "ti_table it1 = ti_table ?it" "length left < length ps" "iter_ready it1 \<longleftrightarrow> ti_end it1 \<or> ti_num_rows it1 \<noteq> 0" "\<not> ti_end it1 \<longrightarrow> ti_row it1 = 1"
      "stays (set ps) (st_bm s) c" by (rule next_page_run [OF at _ it(4) last]) (use it(3) in auto)
    obtain it' e where e: "skip_empty fuel it1 (s\<lparr>st_bm := c\<rparr>) = (Inr it', s\<lparr>st_bm := e\<rparr>)" "keeps_pages c e" "iter_at n left e it' rest"
      "iter_ready it'" "ti_schema it' = ti_schema it1" "ti_table it' = ti_table it1" "stays (set left) c e"
      using skip_empty_run [of n left "s\<lparr>st_bm := c\<rparr>" it1 rest fuel] c(3,7,8,9) it(4,5) by auto
    have "TI_next fuel it s = (Inr it', s\<lparr>st_bm := e\<rparr>)" using True it(3) c(1) e(1) by (simp add: TI_next_def Let_def comp_simps)
    moreover have "stays (set ps) (st_bm s) e" by (rule stays_trans [OF c(10) e(7)]) (use c(4) in auto)
    ultimately show ?thesis using that keeps_pages_trans [OF c(2) e(2)] iter_at_mono [OF e(3), of before] e(4-6) c(4-6) by simp
  next
    case False
    let ?c = "(st_bm s)\<lparr>bm_lru := LRU_Touch (tp_frame tp) (bm_lru (st_bm s))\<rparr>"
    have q: "quiet (st_bm s) ?c" by (rule quiet_touch [OF t(13)])
    have "TI_next fuel it s = (Inr ?it, s\<lparr>st_bm := ?c\<rparr>)"
      using False it(3) t(3) by (simp add: TI_next_def Let_def comp_simps pinned_def)
    then show ?thesis using that quietD(2) [OF q] iter_at_quiet [OF at q] False by (simp add: iter_ready_def not_less stays_def)
  qed
qed

lemma new_run_pages:
  assumes first: "MP_GetFirstPageId_by_name name s = (Inr (first_id ps), s)" and ch: "chain (st_bm s) ps rss"
    and ok: "pool_ok (st_bm s)" and free: "1 \<le> length (bm_free (st_bm s))" and fuel: "length ps < fuel"
  obtains it c where "TableIterator_new fuel name table sch s = (Inr it, s\<lparr>st_bm := c\<rparr>)" "keeps_pages (st_bm s) c"
    "iter_at (length (bm_free (st_bm s))) ps c it (concat rss)" "iter_ready it" "ti_schema it = sch" "ti_table it = table"
    "stays (set ps) (st_bm s) c"
proof (cases ps)
  case Nil
  let ?it = "\<lparr>ti_table_name = name, ti_table = table, ti_schema = sch, ti_page_id = 0, ti_row = 1, ti_num_rows = 0, ti_tp = None, ti_end = True\<rparr>"
  have "TableIterator_new fuel name table sch s = (Inr ?it, s\<lparr>st_bm := st_bm s\<rparr>)" using Nil first by (simp add: TableIterator_new_def comp_simps)
  moreover have "rss = []" using Nil ch by (cases rss) simp_all
  ultimately show ?thesis using that [of ?it "st_bm s"] keeps_pages_refl [OF ok] ok by (simp add: iter_at_def iter_ready_def stays_refl)
next
  case (Cons p qs)
  let ?n = "length (bm_free (st_bm s))"
  let ?it = "\<lparr>ti_table_name = name, ti_table = table, ti_schema = sch, ti_page_id = p, ti_row = 1, ti_num_rows = 0, ti_tp = None, ti_end = False\<rparr>"
  obtain rs qss where r: "rss = rs # qss" "p \<noteq> 0" using ch Cons by (cases rss) simp_all
  have "bm_free (st_bm s) \<noteq> []" using free by auto
  then obtain it1 c where c: "TI_LoadPage ?it s = (Inr it1, s\<lparr>st_bm := c\<rparr>)" "keeps_pages (st_bm s) c" "\<not> ti_end it1" "ti_schema it1 = sch" "ti_table it1 = table"
    "iter_at ?n ps c (it1\<lparr>ti_row := 1\<rparr>) (rs @ concat qss)"
    "iter_ready (it1\<lparr>ti_row := 1\<rparr>) \<longleftrightarrow> rs \<noteq> []" "ti_num_rows it1 = 0 \<longleftrightarrow> rs = []" "stays {} (st_bm s) c"
    using load_page [of s ?it qs rs qss thesis] ok ch r Cons by auto
  obtain it' e where e: "skip_empty fuel (it1\<lparr>ti_row := 1\<rparr>) (s\<lparr>st_bm := c\<rparr>) = (Inr it', s\<lparr>st_bm := e\<rparr>)" "keeps_pages c e"
    "iter_at ?n ps e it' (rs @ concat qss)" "iter_ready it'" "ti_schema it' = sch" "ti_table it' = table" "stays (set ps) c e"
    using skip_empty_run [of ?n ps "s\<lparr>st_bm := c\<rparr>" "it1\<lparr>ti_row := 1\<rparr>" "rs @ concat qss" fuel] c(3-8) fuel free r by auto
  have "TableIterator_new fuel name table sch s = (Inr it', s\<lparr>st_bm := e\<rparr>)"
    using Cons r(2) first c(1) e(1) by (simp add: TableIterator_new_def Let_def comp_simps)
  moreover have "stays (set ps) (st_bm s) e" by (rule stays_trans [OF c(9) e(7)]) simp
  ultimately show ?thesis using that keeps_pages_trans [OF c(2) e(2)] e(3-6) r by simp
qed

lemma new_run:
  assumes "MP_GetFirstPageId_by_name name s = (Inr p, s)" "heap_chain (st_bm s) p rss" "pool_ok (st_bm s)" "1 \<le> length (bm_free (st_bm s))"
    and "length rss < fuel"
  obtains it c ps where "TableIterator_new fuel name table sch s = (Inr it, s\<lparr>st_bm := c\<rparr>)" "keeps_pages (st_bm s) c"
    "iter_at (length (bm_free (st_bm s))) ps c it (concat rss)" "iter_ready it" "ti_schema it = sch" "length ps < fuel"
proof -
  obtain ps where ps: "first_id ps = p" "chain (st_bm s) ps rss" using heap_chain_pages [OF assms(2)] by blast
  have l: "length ps < fuel" using chain_length [OF ps(2)] assms(5) by simp
  show ?thesis by (rule new_run_pages [of name s ps rss fuel table sch]) (use assms ps l that in auto)
qed

section \<open>The versions of a row\<close>

text \<open>
  \<open>sees vis st n r x\<close>: starting from the stored row \<open>r\<close> and following undo pointers through the versions \<open>st\<close>, a reader for whom exactly the
  transactions \<open>vis\<close> are visible finds the version \<open>x\<close> (\<open>None\<close>: no row) within \<open>n\<close> versions.
\<close>

inductive sees :: "(tx_id_t \<Rightarrow> bool) \<Rightarrow> (UndoPointer \<Rightarrow> bytes \<Rightarrow> bool) \<Rightarrow> nat \<Rightarrow> bytes \<Rightarrow> bytes option \<Rightarrow> bool" for vis st where
  sees_here: "22 \<le> length r \<Longrightarrow> vis (rh_trx_id (read_header r)) \<Longrightarrow>
     x = (if rh_flags (read_header r) AND RECORD_DEL \<noteq> 0 then None else Some r) \<Longrightarrow> sees vis st (Suc n) r x"
| sees_end: "22 \<le> length r \<Longrightarrow> \<not> vis (rh_trx_id (read_header r)) \<Longrightarrow> UndoPointer_IsNull (rh_roll_ptr (read_header r)) \<Longrightarrow>
     sees vis st (Suc n) r None"
| sees_back: "22 \<le> length r \<Longrightarrow> \<not> vis (rh_trx_id (read_header r)) \<Longrightarrow> \<not> UndoPointer_IsNull (rh_roll_ptr (read_header r)) \<Longrightarrow>
     st (rh_roll_ptr (read_header r)) q \<Longrightarrow> sees vis st n q x \<Longrightarrow> sees vis st (Suc n) r x"

lemma sees_mono: "sees vis st n r x \<Longrightarrow> (\<And>p q. st p q \<Longrightarrow> st' p q) \<Longrightarrow> sees vis st' n r x"
  by (induction rule: sees.induct) (auto intro: sees.intros)

lemma sees_more: "sees vis st n r x \<Longrightarrow> n \<le> m \<Longrightarrow> sees vis st m r x"
proof (induction arbitrary: m rule: sees.induct)
  case (sees_here r x n)
  then show ?case by (cases m) (auto intro: sees.sees_here)
next
  case (sees_end r n)
  then show ?case by (cases m) (auto intro: sees.sees_end)
next
  case (sees_back r q n x)
  then show ?case by (cases m) (auto intro: sees.sees_back)
qed

lemma sees_now:
  "22 \<le> length r \<Longrightarrow> vis (rh_trx_id (read_header r)) \<Longrightarrow> rh_flags (read_header r) AND RECORD_DEL = 0 \<Longrightarrow> 0 < n \<Longrightarrow> sees vis st n r (Some r)"
  by (cases n) (auto intro: sees_here)

lemma sees_previous:
  assumes "22 \<le> length r" "\<not> vis (rh_trx_id (read_header r))" "\<not> UndoPointer_IsNull (rh_roll_ptr (read_header r))" "st (rh_roll_ptr (read_header r)) q"
    and "22 \<le> length q" "vis (rh_trx_id (read_header q))" "rh_flags (read_header q) AND RECORD_DEL = 0" "1 < n"
  shows "sees vis st n r (Some q)"
  using assms by (cases n) (auto intro: sees_back sees_now)

text \<open>
  What the walk along the versions needs from the undo log (\<open>bare t r\<close> says that the tuple consists of the record \<open>r\<close>): a version that is held can be read, and reading disturbs neither the versions nor
  anything else the walk looks at.
\<close>

definition bare :: "Tuple \<Rightarrow> bytes \<Rightarrow> bool" where
  "bare t r \<longleftrightarrow> t_data t = Some r \<and> t_size t = word_of_nat (length r) \<and> t_query_result t = []"

definition scan_tuple :: "Schema \<Rightarrow> bytes \<Rightarrow> Tuple" where
  "scan_tuple sch r = Tuple_new\<lparr>t_schema := sch, t_data := Some r, t_size := word_of_nat (length r)\<rparr>"

lemma bare_schema: "bare t r \<Longrightarrow> t\<lparr>t_schema := sch\<rparr> = scan_tuple sch r"
  by (simp add: bare_def scan_tuple_def Tuple_new_def)

lemma bare_new: "bare (Tuple_new\<lparr>t_schema := sch, t_data := Some r, t_size := word_of_nat (length r)\<rparr>) r"
  by (simp add: bare_def Tuple_new_def)

locale version_store =
  fixes get :: "UndoPointer \<Rightarrow> ('s, Tuple) comp"
    and holds :: "'s \<Rightarrow> UndoPointer \<Rightarrow> bytes \<Rightarrow> bool"
    and still :: "'s \<Rightarrow> 's \<Rightarrow> bool"
  assumes get_held: "holds s p r \<Longrightarrow> \<exists>t s'. get p s = (Inr t, s') \<and> bare t r \<and> still s s'"
    and holds_still: "holds s p r \<Longrightarrow> still s s' \<Longrightarrow> holds s' p r"
    and still_refl: "still s s"
    and still_trans: "still s s' \<Longrightarrow> still s' s'' \<Longrightarrow> still s s''"
begin

lemma walk:
  assumes "sees vis (holds s) n r x" "bare t r" "still s s1"
    and see: "\<And>y s'. still s s' \<Longrightarrow> see y s' = (Inr (vis y), s')"
  shows "\<exists>t' s'. version_loop see True get n t s1 = (Inr t', s') \<and> still s s' \<and> rel_option bare t' x"
  using assms(1-3)
proof (induction n r x arbitrary: t s1 rule: sees.induct)
  case (sees_back r q n x)
  obtain u s2 where u: "get (rh_roll_ptr (read_header r)) s1 = (Inr u, s2)" "bare u q" "still s1 s2"
    using get_held [OF holds_still [OF sees_back(4) sees_back.prems(2)]] by blast
  have s2: "still s s2" using still_trans [OF sees_back.prems(2) u(3)] .
  obtain t' s' where t': "version_loop see True get n u s2 = (Inr t', s')" "still s s'" "rel_option bare t' x"
    using sees_back.IH [OF u(2) s2] by blast
  have "version_loop see True get (Suc n) t s1 = (Inr t', s')"
    using sees_back(1-3) sees_back.prems(1) see [OF sees_back.prems(2)] u(1,2) t'(1) by (simp add: ParseHeader_def comp_simps bare_def)
  then show ?case using t'(2,3) by blast
qed (use see in \<open>auto simp: ParseHeader_def comp_simps bare_def\<close>)

end

text \<open>The undo log of the server is such a store.\<close>

abbreviation db_bm :: "DB \<Rightarrow> BufferManager" where "db_bm d \<equiv> st_bm (db_store d)"

abbreviation (input) with_bm :: "BufferManager \<Rightarrow> DB \<Rightarrow> DB" where "with_bm b d \<equiv> d\<lparr>db_store := (db_store d)\<lparr>st_bm := b\<rparr>\<rparr>"

definition version_at :: "BufferManager \<Rightarrow> UndoPointer \<Rightarrow> bytes \<Rightarrow> bool" where
  "version_at b p r \<longleftrightarrow> addressable (up_page p) \<and> backed b (up_page p) \<and> r \<noteq> [] \<and> (\<exists>ptr trx. record_at b p (undo_bytes ptr trx r))"

definition undo_holds :: "DB \<Rightarrow> UndoPointer \<Rightarrow> bytes \<Rightarrow> bool" where
  "undo_holds d p r \<longleftrightarrow> pool_ok (db_bm d) \<and> bm_free (db_bm d) \<noteq> [] \<and> version_at (db_bm d) p r"

definition db_still :: "DB \<Rightarrow> DB \<Rightarrow> bool" where
  "db_still d e \<longleftrightarrow> e = d \<or> (\<exists>c. e = with_bm c d \<and> quiet (db_bm d) c)"

lemma version_at_keeps: "version_at b p r \<Longrightarrow> keeps_pages b c \<Longrightarrow> version_at c p r"
  unfolding version_at_def record_at_def keeps_pages_def by blast

lemma in_undo_run: "m \<lparr>ul_bm = db_bm d, ul_page = db_undo_page d\<rparr> = (r, \<lparr>ul_bm = c, ul_page = db_undo_page d\<rparr>) \<Longrightarrow> in_undo m d = (r, with_bm c d)"
  by (simp add: in_undo_def zoom_def)

interpretation undo: version_store "\<lambda>p. in_undo (ULM_GetUndoRecord p)" undo_holds db_still
proof
  fix s p r
  assume h: "undo_holds s p r"
  let ?u = "\<lparr>ul_bm = db_bm s, ul_page = db_undo_page s\<rparr>"
  from h obtain ptr trx where v: "addressable (up_page p)" "backed (db_bm s) (up_page p)" "r \<noteq> []" "record_at (db_bm s) p (undo_bytes ptr trx r)"
    "pool_ok (db_bm s)" "bm_free (db_bm s) \<noteq> []" by (auto simp: undo_holds_def version_at_def)
  obtain b where b: "ULM_GetUndoRecord p ?u = (Inr (Tuple_new\<lparr>t_size := word_of_nat (length r), t_data := Some r\<rparr>), ?u\<lparr>ul_bm := b\<rparr>)"
    "quiet (db_bm s) b" using get_undo [of ?u p ptr trx r] v by auto
  have "in_undo (ULM_GetUndoRecord p) s = (Inr (Tuple_new\<lparr>t_size := word_of_nat (length r), t_data := Some r\<rparr>), with_bm b s)"
    using b(1) by (intro in_undo_run) simp
  then show "\<exists>t s'. in_undo (ULM_GetUndoRecord p) s = (Inr t, s') \<and> bare t r \<and> db_still s s'"
    using b(2) by (auto simp: db_still_def bare_def Tuple_new_def)
next
  fix s p r s'
  assume "undo_holds s p r" "db_still s s'"
  then show "undo_holds s' p r"
    using version_at_keeps [of "db_bm s" p r] quietD(1,2,5) by (fastforce simp: undo_holds_def db_still_def)
next
  show "db_still s s" for s by (simp add: db_still_def)
next
  show "db_still s s' \<Longrightarrow> db_still s' s'' \<Longrightarrow> db_still s s''" for s s' s'' using quiet_trans by (fastforce simp: db_still_def)
qed

text \<open>The transactions a context sees, and what a row is for it.\<close>

definition sees_trx :: "ExecutorContext \<Rightarrow> DB \<Rightarrow> tx_id_t \<Rightarrow> bool" where
  "sees_trx ctx d x \<longleftrightarrow> x = INVALID_TX_ID \<or> (case ctx_transaction ctx d of None \<Rightarrow> False
     | Some txn \<Rightarrow> tx_id txn = x \<or> (case tx_read_view txn of None \<Rightarrow> False | Some v \<Rightarrow> IsVisible (db_txn d) v x))"

definition row_sees :: "ExecutorContext \<Rightarrow> DB \<Rightarrow> nat \<Rightarrow> bytes \<Rightarrow> bytes option \<Rightarrow> bool" where
  "row_sees ctx d n r x \<longleftrightarrow> 22 \<le> length r \<and>
     (if rh_flags (read_header r) AND RECORD_DEAD \<noteq> 0 then x = None else sees (sees_trx ctx d) (version_at (db_bm d)) n r x)"

lemma SS_IsVisible_run: "has_view ctx d \<Longrightarrow> SS_IsVisible ctx x d = (Inr (sees_trx ctx d x), d)"
  by (auto simp: SS_IsVisible_def sees_trx_def has_view_def comp_simps split: option.splits)

lemma with_bm_view [simp]: "has_view ctx (with_bm b d) = has_view ctx d" "sees_trx ctx (with_bm b d) = sees_trx ctx d"
  by (simp_all add: has_view_def sees_trx_def ctx_transaction_def fun_eq_iff cong: option.case_cong)

lemma scan_row_run:
  assumes "row_sees ctx d n r x" "has_view ctx d" "ctx_undo ctx" "pool_ok (db_bm d)" "bm_free (db_bm d) \<noteq> []" "bare t r"
  obtains t' c where "scan_row n ctx t d = (Inr t', with_bm c d)" "quiet (db_bm d) c" "rel_option bare t' x"
proof (cases "rh_flags (read_header r) AND RECORD_DEAD \<noteq> 0")
  case True
  then have "scan_row n ctx t d = (Inr None, with_bm (db_bm d) d)" "x = None"
    using assms by (simp_all add: scan_row_def row_sees_def ParseHeader_def comp_simps bare_def)
  then show ?thesis using that [of None "db_bm d"] quiet_refl [OF assms(4)] by simp
next
  case False
  have s: "sees (sees_trx ctx d) (undo_holds d) n r x"
    using assms(1,4,5) False by (auto simp: row_sees_def undo_holds_def intro: sees_mono)
  have see: "SS_IsVisible ctx y d' = (Inr (sees_trx ctx d y), d')" if "db_still d d'" for y d'
    using that SS_IsVisible_run [of ctx d'] assms(2) by (auto simp: db_still_def)
  obtain t' d' where t': "version_loop (SS_IsVisible ctx) True (\<lambda>p. in_undo (ULM_GetUndoRecord p)) n t d = (Inr t', d')" "db_still d d'"
    "rel_option bare t' x"
    using undo.walk [OF s assms(6) undo.still_refl see] by blast
  obtain c where c: "d' = with_bm c d" "quiet (db_bm d) c"
    using t'(2) quiet_refl [OF assms(4)] unfolding db_still_def by (metis DB.surjective DB.update_convs(1) Store.surjective Store.update_convs(1))
  have "scan_row n ctx t d = (Inr t', with_bm c d)"
    using assms(1-3,6) False t'(1) c(1) by (simp add: scan_row_def row_sees_def ParseHeader_def comp_simps bare_def)
  then show ?thesis using that c(2) t'(3) by blast
qed

section \<open>Whole scans\<close>

lemma row_sees_keeps: "row_sees ctx d n r x \<Longrightarrow> keeps_pages (db_bm d) c \<Longrightarrow> row_sees ctx (with_bm c d) n r x"
  by (auto simp: row_sees_def intro: sees_mono version_at_keeps split: if_splits)

lemma rows_see_keeps: "list_all2 (row_sees ctx d n) rs xs \<Longrightarrow> keeps_pages (db_bm d) c \<Longrightarrow> list_all2 (row_sees ctx (with_bm c d) n) rs xs"
  by (erule list_all2_mono) (rule row_sees_keeps)

lemma iter_free: "iter_at n ps b it rows \<Longrightarrow> 2 \<le> n \<Longrightarrow> bm_free b \<noteq> []"
  by (auto simp: iter_at_def pinned_def split: if_splits)

lemma iter_done: "iter_at n ps b it [] \<Longrightarrow> iter_ready it \<Longrightarrow> ti_end it \<and> length (bm_free b) = n"
  using page_layout_count by (fastforce simp: iter_at_def iter_ready_def word_le_nat_alt split: if_splits)

text \<open>\<open>scanning\<close>: an open scan that has still to deliver the rows \<open>rows\<close>, which are \<open>xs\<close> for the reader.\<close>

definition scanning :: "nat \<Rightarrow> nat \<Rightarrow> page_id_t list \<Rightarrow> ExecutorContext \<Rightarrow> ExecutorSeqScan \<Rightarrow> DB \<Rightarrow> bytes list \<Rightarrow> bytes option list \<Rightarrow> bool" where
  "scanning fuel n ps ctx sq d rows xs \<longleftrightarrow> (\<exists>it. sq_iterator sq = Some it \<and> iter_at n ps (db_bm d) it rows \<and> iter_ready it) \<and>
     2 \<le> n \<and> length ps < fuel \<and> has_view ctx d \<and> ctx_undo ctx \<and> list_all2 (row_sees ctx d fuel) rows xs"

lemma scan_step:
  assumes "scanning fuel n ps ctx sq d (r # rows) (x # xs)"
  obtains it it' t t' c where "sq_iterator sq = Some it" "\<not> ti_end it" "TI_deref it (db_store d) = (Inr t, db_store d)"
    "bnd (in_store (TI_next fuel it)) (\<lambda>it'. bnd (scan_row fuel ctx t) (g it')) d = g it' t' (with_bm c d)"
    "keeps_pages (db_bm d) c" "rel_option bare t' x" "scanning fuel n ps ctx (sq\<lparr>sq_iterator := Some it'\<rparr>) (with_bm c d) rows xs"
proof -
  obtain it where it: "sq_iterator sq = Some it" "iter_at n ps (db_bm d) it (r # rows)" "iter_ready it" "2 \<le> n" "length ps < fuel" "has_view ctx d" "ctx_undo ctx"
    "row_sees ctx d fuel r x" "list_all2 (row_sees ctx d fuel) rows xs" using assms by (auto simp: scanning_def)
  have ne: "\<not> ti_end it" using it(2) by (auto simp: iter_at_def)
  let ?t = "Tuple_new\<lparr>t_schema := ti_schema it, t_data := Some r, t_size := word_of_nat (length r)\<rparr>"
  have de: "TI_deref it (db_store d) = (Inr ?t, db_store d)" by (rule deref_run [OF it(2,3) ne]) simp
  obtain it' b where b: "TI_next fuel it (db_store d) = (Inr it', (db_store d)\<lparr>st_bm := b\<rparr>)" "keeps_pages (db_bm d) b"
    "iter_at n ps b it' rows" "iter_ready it'" by (rule next_run [OF it(2,3) ne _ it(5)]) (use it(4) in auto)
  let ?d = "with_bm b d"
  have ok: "pool_ok (db_bm ?d)" using b(2) by (simp add: keeps_pages_def)
  obtain t' c where c: "scan_row fuel ctx ?t ?d = (Inr t', with_bm c ?d)" "quiet (db_bm ?d) c" "rel_option bare t' x"
    by (rule scan_row_run [of ctx ?d fuel r x ?t, OF row_sees_keeps [OF it(8) b(2)] _ it(7) ok]) (use it(4,6) iter_free [OF b(3)] bare_new in auto)
  have k: "keeps_pages (db_bm d) c" using keeps_pages_trans [OF b(2)] quietD(2) [OF c(2)] by simp
  have "scanning fuel n ps ctx (sq\<lparr>sq_iterator := Some it'\<rparr>) (with_bm c d) rows xs"
    using it(4-7) iter_at_quiet [OF b(3), of c] c(2) b(4) rows_see_keeps [OF it(9) k] by (simp add: scanning_def)
  moreover have "bnd (in_store (TI_next fuel it)) (\<lambda>it'. bnd (scan_row fuel ctx ?t) (g it')) d = g it' t' (with_bm c d)"
    using b(1) c(1) by (simp add: in_store_def comp_simps)
  ultimately show ?thesis using that it(1) ne de c(3) k by blast
qed

text \<open>Rows that are nothing for the reader are passed over: the outcome of one call of \<^verbatim>\<open>Next\<close>.\<close>

definition delivers :: "nat \<Rightarrow> nat \<Rightarrow> page_id_t list \<Rightarrow> ExecutorContext \<Rightarrow> Schema \<Rightarrow> bytes list \<Rightarrow> bytes option list \<Rightarrow> ExecutorSeqScan \<Rightarrow> Tuple option \<Rightarrow> DB \<Rightarrow> bool" where
  "delivers fuel n ps ctx sch rows xs sq out d \<longleftrightarrow> sq_schema sq = sch \<and>
     (out = None \<longrightarrow> filter (\<lambda>x. x \<noteq> None) xs = [] \<and> length (bm_free (db_bm d)) = n) \<and>
     (\<forall>t. out = Some t \<longrightarrow> (\<exists>y rest ys. t = scan_tuple sch y \<and>
        filter (\<lambda>x. x \<noteq> None) xs = Some y # filter (\<lambda>x. x \<noteq> None) ys \<and> scanning fuel n ps ctx sq d rest ys \<and> length rest < length rows))"

lemma delivers_skip: "delivers fuel n ps ctx sch rows xs sq out d \<Longrightarrow> delivers fuel n ps ctx sch (r # rows) (None # xs) sq out d"
  unfolding delivers_def by (simp del: not_None_eq) (metis less_SucI)

lemma scan_rows_run:
  assumes "scanning fuel n ps ctx sq d rows xs" "length rows < m"
  shows "\<exists>sq' out c. scan_rows fuel m ctx sq d = (Inr (sq', out), with_bm c d) \<and> keeps_pages (db_bm d) c \<and>
    delivers fuel n ps ctx (sq_schema sq) rows xs sq' out (with_bm c d)"
  using assms
proof (induction m arbitrary: sq d rows xs)
  case (Suc m)
  show ?case
  proof (cases rows)
    case Nil
    then obtain it where it: "sq_iterator sq = Some it" "iter_at n ps (db_bm d) it []" "iter_ready it" "xs = []"
      using Suc.prems(1) by (auto simp: scanning_def)
    have "pool_ok (db_bm d)" using it(2) by (simp add: iter_at_def)
    then show ?thesis
      using it iter_done [OF it(2,3)] keeps_pages_refl [of "db_bm d"] by (auto simp: comp_simps delivers_def intro!: exI [of _ "db_bm d"])
  next
    case (Cons r rest)
    then obtain x ys where xs: "xs = x # ys" using Suc.prems(1) by (auto simp: scanning_def list_all2_Cons1)
    let ?g = "\<lambda>it' r. case r of None \<Rightarrow> scan_rows fuel m ctx (sq\<lparr>sq_iterator := Some it'\<rparr>)
      | Some t \<Rightarrow> ret (sq\<lparr>sq_iterator := Some it'\<rparr>, Some (t\<lparr>t_schema := sq_schema sq\<rparr>))"
    obtain it it' t t' c where g: "sq_iterator sq = Some it" "\<not> ti_end it" "TI_deref it (db_store d) = (Inr t, db_store d)"
      "bnd (in_store (TI_next fuel it)) (\<lambda>it'. bnd (scan_row fuel ctx t) (?g it')) d = ?g it' t' (with_bm c d)"
      "keeps_pages (db_bm d) c" "rel_option bare t' x"
      "scanning fuel n ps ctx (sq\<lparr>sq_iterator := Some it'\<rparr>) (with_bm c d) rest ys"
      by (rule scan_step [OF Suc.prems(1) [unfolded Cons xs], where g = ?g])
    have run: "scan_rows fuel (Suc m) ctx sq d = ?g it' t' (with_bm c d)"
      using g(1-4) by (simp add: in_store_def comp_simps)
    show ?thesis
    proof (cases t')
      case None
      then have x: "x = None" using g(6) by simp
      obtain sq' out e where e: "scan_rows fuel m ctx (sq\<lparr>sq_iterator := Some it'\<rparr>) (with_bm c d) = (Inr (sq', out), with_bm e d)"
        "keeps_pages c e" "delivers fuel n ps ctx (sq_schema sq) rest ys sq' out (with_bm e d)"
        using Suc.IH [OF g(7)] Suc.prems(2) Cons by auto
      then show ?thesis
        using run None keeps_pages_trans [OF g(5) e(2)] delivers_skip [OF e(3), of r] unfolding x xs Cons by auto
    next
      case (Some u)
      then show ?thesis
        using run g(5-7) Cons unfolding xs
        by (cases x) (auto simp: comp_simps delivers_def bare_schema intro!: exI [of _ rest] exI [of _ ys] exI [of _ c])
    qed
  qed
qed simp

text \<open>The loop in which a consumer calls \<^verbatim>\<open>Next\<close> until it returns false.\<close>

fun scan_all :: "nat \<Rightarrow> nat \<Rightarrow> ExecutorContext \<Rightarrow> ExecutorSeqScan \<Rightarrow> (DB, Tuple list) comp" where
  "scan_all fuel 0 ctx sq = throw OutOfFuel"
| "scan_all fuel (Suc m) ctx sq = bnd (SS_Next fuel ctx sq) (\<lambda>(sq', r). case r of None \<Rightarrow> ret []
     | Some t \<Rightarrow> bnd (scan_all fuel m ctx sq') (\<lambda>ts. ret (t # ts)))"

lemma scan_all_run:
  assumes "scanning fuel n ps ctx sq d rows xs" "length rows < m" "length rows < fuel"
  shows "\<exists>ts c. scan_all fuel m ctx sq d = (Inr ts, with_bm c d) \<and> keeps_pages (db_bm d) c \<and> length (bm_free c) = n \<and>
    map t_data ts = filter (\<lambda>x. x \<noteq> None) xs \<and> list_all (\<lambda>t. t_schema t = sq_schema sq) ts"
  using assms
proof (induction m arbitrary: sq d rows xs)
  case (Suc m)
  obtain sq' out c where s: "scan_rows fuel fuel ctx sq d = (Inr (sq', out), with_bm c d)" "keeps_pages (db_bm d) c"
    "delivers fuel n ps ctx (sq_schema sq) rows xs sq' out (with_bm c d)"
    using scan_rows_run [OF Suc.prems(1,3)] by blast
  show ?case
  proof (cases out)
    case None
    then show ?thesis using s by (auto simp: SS_Next_def comp_simps delivers_def intro!: exI [of _ c])
  next
    case (Some t)
    then obtain y rest ys where t: "t_data t = Some y" "t_schema t = sq_schema sq" "filter (\<lambda>x. x \<noteq> None) xs = Some y # filter (\<lambda>x. x \<noteq> None) ys"
      "scanning fuel n ps ctx sq' (with_bm c d) rest ys" "length rest < length rows" "sq_schema sq' = sq_schema sq"
      using s(3) by (auto simp: delivers_def scan_tuple_def)
    obtain ts e where e: "scan_all fuel m ctx sq' (with_bm c d) = (Inr ts, with_bm e d)" "keeps_pages c e" "length (bm_free e) = n"
      "map t_data ts = filter (\<lambda>x. x \<noteq> None) ys" "list_all (\<lambda>t. t_schema t = sq_schema sq') ts"
      using Suc.IH [OF t(4)] t(5) Suc.prems(2,3) by auto
    have "scan_all fuel (Suc m) ctx sq d = (Inr (t # ts), with_bm e d)" using s(1) Some e(1) by (simp add: SS_Next_def comp_simps)
    then show ?thesis using e(3-5) t(1-3,6) keeps_pages_trans [OF s(2) e(2)] by (intro exI [of _ "t # ts"] exI [of _ e]) simp
  qed
qed simp

text \<open>A table the server can scan: known to the catalog, with its first page in the catalog page and the rows \<open>rss\<close> on its chain of pages.\<close>

definition table_rows :: "DB \<Rightarrow> string \<Rightarrow> TableEntry \<Rightarrow> bytes list list \<Rightarrow> bool" where
  "table_rows d t te rss \<longleftrightarrow> (\<exists>i. map_of (cat_names (db_catalog d)) t = Some i \<and> Cat_table (db_catalog d) i = Inr te) \<and>
     pool_ok (db_bm d) \<and> 2 \<le> length (bm_free (db_bm d)) \<and>
     (\<exists>p. mp_name_tables (st_meta (db_store d)) t = Some p \<and> heap_chain (db_bm d) p rss)"

lemma open_run:
  assumes "table_rows d t te rss" "Suc (length rss) < fuel" "has_view ctx d" "ctx_undo ctx" "list_all2 (row_sees ctx d fuel) (concat rss) xs"
  obtains sq c ps where "SS_Open fuel (ExecutorSeqScan_new t) d = (Inr sq, with_bm c d)" "keeps_pages (db_bm d) c" "sq_schema sq = TE_GetSchema te"
    "scanning fuel (length (bm_free (db_bm d))) ps ctx sq (with_bm c d) (concat rss) xs"
proof -
  obtain i p where i: "map_of (cat_names (db_catalog d)) t = Some i" "Cat_table (db_catalog d) i = Inr te" "pool_ok (db_bm d)"
    "2 \<le> length (bm_free (db_bm d))" "mp_name_tables (st_meta (db_store d)) t = Some p" "heap_chain (db_bm d) p rss"
    using assms(1) by (auto simp: table_rows_def)
  have first: "MP_GetFirstPageId_by_name t (db_store d) = (Inr p, db_store d)" using i(5) by (simp add: MP_GetFirstPageId_by_name_def comp_simps)
  have free: "1 \<le> length (bm_free (db_bm d))" using i(4) by simp
  obtain it c ps where c: "TableIterator_new fuel t i (TE_GetSchema te) (db_store d) = (Inr it, (db_store d)\<lparr>st_bm := c\<rparr>)" "keeps_pages (db_bm d) c"
    "iter_at (length (bm_free (db_bm d))) ps c it (concat rss)" "iter_ready it" "length ps < fuel"
    by (rule new_run [OF first i(6,3) free Suc_lessD [OF assms(2)]])
  let ?sq = "\<lparr>sq_table_name = t, sq_schema = TE_GetSchema te, sq_iterator = Some it\<rparr>"
  have "SS_Open fuel (ExecutorSeqScan_new t) d = (Inr ?sq, with_bm c d)"
    using i(1,2) c(1) by (simp add: SS_Open_def ExecutorSeqScan_new_def in_store_def comp_simps Let_def)
  then show ?thesis
    using that c(2-5) i(4) assms(2-4) rows_see_keeps [OF assms(5) c(2)] by (simp add: scanning_def)
qed

lemma scan_snapshot:
  assumes "table_rows d t te rss" "has_view ctx d" "ctx_undo ctx" "list_all2 (row_sees ctx d fuel) (concat rss) xs"
    and "Suc (length rss) < fuel" "length (concat rss) < fuel"
  obtains sq d1 ts e where "SS_Open fuel (ExecutorSeqScan_new t) d = (Inr sq, d1)" "scan_all fuel fuel ctx sq d1 = (Inr ts, with_bm e d)"
    "map t_data ts = filter (\<lambda>x. x \<noteq> None) xs" "list_all (\<lambda>t. t_schema t = TE_GetSchema te) ts" "keeps_pages (db_bm d) e"
    "length (bm_free e) = length (bm_free (db_bm d))"
proof -
  obtain sq c ps where o: "SS_Open fuel (ExecutorSeqScan_new t) d = (Inr sq, with_bm c d)" "keeps_pages (db_bm d) c" "sq_schema sq = TE_GetSchema te"
    "scanning fuel (length (bm_free (db_bm d))) ps ctx sq (with_bm c d) (concat rss) xs"
    by (rule open_run [OF assms(1,5,2-4)])
  obtain ts e where e: "scan_all fuel fuel ctx sq (with_bm c d) = (Inr ts, with_bm e d)" "keeps_pages c e" "length (bm_free e) = length (bm_free (db_bm d))"
    "map t_data ts = filter (\<lambda>x. x \<noteq> None) xs" "list_all (\<lambda>t. t_schema t = sq_schema sq) ts"
    using scan_all_run [OF o(4) assms(6,6)] by auto
  then show ?thesis using that o(1,3) keeps_pages_trans [OF o(2) e(2)] by auto
qed

text \<open>C2.
  A sequential scan returns exactly what the snapshot sees: for every row of the table, page by page in order, the
  newest version along its undo chain that the transaction sees, left out if that version is a deletion or there is none;
  rows of aborted insertions (marked dead) are left out.  The scan ends, the schema of the table is attached to every row, the contents of
  all pages are unchanged, and all frames it used are free again.
\<close>

theorem scan_returns_snapshot:
  assumes "table_rows d t te rss" "has_view ctx d" "ctx_undo ctx" "list_all2 (row_sees ctx d fuel) (concat rss) xs"
    and "Suc (length rss) < fuel" "length (concat rss) < fuel"
  shows "\<exists>sq d1 ts d2. SS_Open fuel (ExecutorSeqScan_new t) d = (Inr sq, d1) \<and> scan_all fuel fuel ctx sq d1 = (Inr ts, d2) \<and>
    map t_data ts = filter (\<lambda>x. x \<noteq> None) xs \<and> list_all (\<lambda>t. t_schema t = TE_GetSchema te) ts \<and>
    (\<forall>q b. page_content (db_bm d) q = Some b \<longrightarrow> page_content (db_bm d2) q = Some b) \<and>
    length (bm_free (db_bm d2)) = length (bm_free (db_bm d)) \<and> db_txn d2 = db_txn d"
proof -
  obtain sq d1 ts e where "SS_Open fuel (ExecutorSeqScan_new t) d = (Inr sq, d1)" "scan_all fuel fuel ctx sq d1 = (Inr ts, with_bm e d)"
    "map t_data ts = filter (\<lambda>x. x \<noteq> None) xs" "list_all (\<lambda>t. t_schema t = TE_GetSchema te) ts" "keeps_pages (db_bm d) e"
    "length (bm_free e) = length (bm_free (db_bm d))" by (rule scan_snapshot [OF assms])
  then show ?thesis by (intro exI [of _ sq] exI [of _ d1] exI [of _ ts] exI [of _ "with_bm e d"]) (simp add: keeps_pages_def)
qed

text \<open>A file with a heap page and an undo page, and a server that has opened it.\<close>

definition heap_page :: "bytes list \<Rightarrow> bytes" where
  "heap_page rs = (let tp = \<lparr>tp_table = 1, tp_frame = 0, tp_version = 0, tp_num_rows = word_of_nat (length rs), tp_page_id = 1, tp_next = 0,
       tp_lsn = 0, tp_free = word_of_nat (4064 - length (concat rs) - 4 * length rs)\<rparr> in
     poke (4096 - 4 * length rs) (slots 32 rs) (poke 32 (concat rs) (poke 0 (tp_header tp) (replicate 4096 0))))"

lemma heap_page_layout:
  assumes "32 + length (concat rs) + 4 * length rs \<le> 4096"
  shows "\<exists>tp. page_layout tp rs (heap_page rs) \<and> tp_next tp = 0 \<and> tp_page_id tp = 1"
proof -
  let ?tp = "\<lparr>tp_table = 1, tp_frame = 0, tp_version = 0, tp_num_rows = word_of_nat (length rs), tp_page_id = 1, tp_next = 0,
       tp_lsn = 0, tp_free = word_of_nat (4064 - length (concat rs) - 4 * length rs)\<rparr>"
  have "unat (tp_free ?tp) = 4064 - length (concat rs) - 4 * length rs" by (simp add: unat_u32_small)
  then have "page_layout ?tp rs (heap_page rs)"
    using assms unfolding page_layout_def heap_page_def Let_def
    by (auto intro!: holds_at_poke_same holds_at_poke_disjoint)
  then show ?thesis by (intro exI [of _ ?tp]) simp
qed

definition undo_page :: "bytes \<Rightarrow> bytes" where
  "undo_page x = poke 20 x (poke 0 (undo_header \<lparr>un_frame = 0, un_page_id = 2, un_lsn = 0, un_free = word_of_nat (20 + length x)\<rparr>) (replicate 4096 0))"

definition scan_db :: "bytes list \<Rightarrow> bytes \<Rightarrow> DB" where
  "scan_db rs x = demo_db\<lparr>db_store := \<lparr>st_bm = BufferManager_new (PosixDiskManager_new (replicate 4096 0 @ heap_page rs @ undo_page x)) 3 (replicate 4096 0),
     st_meta = (st_meta (db_store demo_db))\<lparr>mp_name_tables := [''users'' \<mapsto> 1]\<rparr>\<rparr>, db_catalog := Cat_AddTable demo_entry Catalog_new\<rparr>"

abbreviation (input) reader :: ExecutorContext where "reader \<equiv> \<lparr>ctx_txn = Some 1, ctx_undo = True, ctx_tm = True, ctx_log = True\<rparr>"

lemma scan_db_pool:
  assumes "32 + length (concat rs) + 4 * length rs \<le> 4096" "20 + length x \<le> 4096"
  shows "pool_ok (db_bm (scan_db rs x))" "length (bm_free (db_bm (scan_db rs x))) = 128" "backed (db_bm (scan_db rs x)) q"
    "page_content (db_bm (scan_db rs x)) 1 = Some (heap_page rs)" "page_content (db_bm (scan_db rs x)) 2 = Some (undo_page x)"
proof -
  have l: "length (heap_page rs) = 4096" "length (undo_page x) = 4096" using assms by (simp_all add: heap_page_def undo_page_def Let_def)
  have "bm_inv (db_bm (scan_db rs x))" unfolding scan_db_def by simp (rule bm_inv_new, simp_all add: PosixDiskManager_new_def)
  then show "pool_ok (db_bm (scan_db rs x))"
    using l by (simp add: pool_ok_def) (simp add: scan_db_def BufferManager_new_def PosixDiskManager_new_def ready_def)
  show "length (bm_free (db_bm (scan_db rs x))) = 128" "backed (db_bm (scan_db rs x)) q"
    by (simp_all add: scan_db_def BufferManager_new_def backed_def)
  show "page_content (db_bm (scan_db rs x)) 1 = Some (heap_page rs)" "page_content (db_bm (scan_db rs x)) 2 = Some (undo_page x)"
    using l by (simp_all add: scan_db_def BufferManager_new_def PosixDiskManager_new_def page_content_def stored_def peek_def)
qed

lemma scan_db_table:
  assumes "32 + length (concat rs) + 4 * length rs \<le> 4096" "20 + length x \<le> 4096"
  shows "table_rows (scan_db rs x) ''users'' demo_entry [rs]"
proof -
  note p = scan_db_pool [OF assms]
  obtain tp where tp: "page_layout tp rs (heap_page rs)" "tp_next tp = 0" using heap_page_layout [OF assms(1)] by blast
  have "heap_chain (db_bm (scan_db rs x)) 1 [rs]"
    by (rule chain_page [OF _ _ p(3,4) tp(1)]) (simp_all add: addressable_def tp(2))
  moreover have "mp_name_tables (st_meta (db_store (scan_db rs x))) ''users'' = Some 1" by (simp add: scan_db_def)
  moreover have "map_of (cat_names (db_catalog (scan_db rs x))) ''users'' = Some 7" "Cat_table (db_catalog (scan_db rs x)) 7 = Inr demo_entry"
    by (simp_all add: scan_db_def Cat_AddTable_def Cat_table_def demo_entry_def TE_AddColumn_def TableEntry_new_def Catalog_new_def)
  ultimately show ?thesis using p(1,2) by (auto simp: table_rows_def)
qed

lemma scan_db_reader:
  "has_view reader (scan_db rs x)" "sees_trx reader (scan_db rs x) 0" "\<not> sees_trx reader (scan_db rs x) 5"
proof -
  have t: "tx_read_view (txn_of (db_txn demo_db) 1) = Some \<lparr>rv_create = 1, rv_up = 2, rv_low = 2, rv_active = [], rv_manager = True\<rparr>"
    "tx_id (txn_of (db_txn demo_db) 1) = 1" "tm_state (db_txn demo_db) 5 = None"
    by (simp_all add: demo_db_def TM_Begin_def begin_register_def GetNextTxId_def take_view_def update_txn_def TM_SetLogManager_def
        TM_SetStorage_def TransactionManager_new_def txn_of_def CreateReadView_def List.insert_def)
  then show "has_view reader (scan_db rs x)" "sees_trx reader (scan_db rs x) 0" "\<not> sees_trx reader (scan_db rs x) 5"
    by (simp_all add: scan_db_def has_view_def sees_trx_def ctx_transaction_def IsVisible_def TM_IsAborted_def TM_GetState_def)
qed

text \<open>The row (7, NULL) of the table \<^verbatim>\<open>users\<close> with the columns \<^verbatim>\<open>id\<close> and \<^verbatim>\<open>name\<close>.\<close>

definition demo_record :: bytes where "demo_record = replicate 22 0 @ [49, 48, 7, 0, 0, 0]"

lemma demo_record_facts:
  "read_header demo_record = \<lparr>rh_trx_id = 0, rh_roll_ptr = null_ptr, rh_flags = 0\<rparr>" "length demo_record = 28"
  "Row_Deserialize (TE_GetSchema demo_entry) demo_record = Inr (read_header demo_record, [Value_of (VInt 7), Value_null])"
proof -
  have z: "nat_of_bytes (replicate n 0) = 0" for n by (induction n) simp_all
  show "read_header demo_record = \<lparr>rh_trx_id = 0, rh_roll_ptr = null_ptr, rh_flags = 0\<rparr>"
    by (simp add: read_header_def demo_record_def peek_def le_word_def z)
  show "length demo_record = 28" by (simp add: demo_record_def)
  show "Row_Deserialize (TE_GetSchema demo_entry) demo_record = Inr (read_header demo_record, [Value_of (VInt 7), Value_null])"
    by (simp add: Row_Deserialize_def TE_GetSchema_def demo_entry_def TE_AddColumn_def TableEntry_new_def demo_record_def mem_read_def peek_def
        read_value_def le_word_def)
qed

lemma scan_returns_snapshot_witness:
  "\<exists>sq d1 ts d2. SS_Open 9 (ExecutorSeqScan_new ''users'') (scan_db [replicate 24 0] []) = (Inr sq, d1) \<and>
     scan_all 9 9 reader sq d1 = (Inr ts, d2) \<and> map t_data ts = [Some (replicate 24 0)]"
proof -
  have "row_sees reader (scan_db [replicate 24 0] []) 9 (replicate 24 0) (Some (replicate 24 0))"
    using scan_db_reader(2) [of "[replicate 24 0]" "[]"] demo_row_header by (auto simp: row_sees_def intro!: sees_now)
  then have "list_all2 (row_sees reader (scan_db [replicate 24 0] []) 9) (concat [[replicate 24 0]]) [Some (replicate 24 0)]" by simp
  from scan_returns_snapshot [OF scan_db_table scan_db_reader(1) _ this] show ?thesis by auto
qed

text \<open>An updated row is returned twice to a snapshot that does not see the update.  \<^verbatim>\<open>UPDATE\<close> marks the stored row as deleted by the transaction and inserts the new
  row behind it, both with a pointer to the undo record of the old version; a concurrent reader follows both pointers and gets the
  old version once for each of the two rows.
\<close>

lemma updated_row_seen_twice:
  assumes "table_rows d t te [[with_header \<lparr>rh_trx_id = tx, rh_roll_ptr = p, rh_flags = RECORD_DEL\<rparr> v, new]]"
    and "22 \<le> length new" "read_header new = \<lparr>rh_trx_id = tx, rh_roll_ptr = p, rh_flags = 0\<rparr>" "\<not> UndoPointer_IsNull p" "version_at (db_bm d) p v"
    and "22 \<le> length v" "rh_flags (read_header v) = 0" "sees_trx ctx d (rh_trx_id (read_header v))" "\<not> sees_trx ctx d tx"
    and "has_view ctx d" "ctx_undo ctx"
  shows "\<exists>sq d1 ts d2. SS_Open 9 (ExecutorSeqScan_new t) d = (Inr sq, d1) \<and> scan_all 9 9 ctx sq d1 = (Inr ts, d2) \<and> map t_data ts = [Some v, Some v]"
proof -
  let ?old = "with_header \<lparr>rh_trx_id = tx, rh_roll_ptr = p, rh_flags = RECORD_DEL\<rparr> v"
  have h: "read_header ?old = \<lparr>rh_trx_id = tx, rh_roll_ptr = p, rh_flags = RECORD_DEL\<rparr>" using assms(6) by (rule read_with_header)
  have "row_sees ctx d 9 ?old (Some v)" "row_sees ctx d 9 new (Some v)"
    using assms(2-9) by (auto simp: row_sees_def h intro!: sees_previous)
  then have "list_all2 (row_sees ctx d 9) (concat [[?old, new]]) [Some v, Some v]" by simp
  then obtain sq d1 ts e where "SS_Open 9 (ExecutorSeqScan_new t) d = (Inr sq, d1)" "scan_all 9 9 ctx sq d1 = (Inr ts, with_bm e d)"
    "map t_data ts = filter (\<lambda>x. x \<noteq> None) [Some v, Some v]" by (rule scan_snapshot [OF assms(1,10,11)]) simp_all
  then show ?thesis by (intro exI [of _ sq] exI [of _ d1] exI [of _ ts] exI [of _ "with_bm e d"]) simp
qed

definition old_row :: bytes where "old_row = replicate 24 0"

definition new_row :: bytes where "new_row = with_header \<lparr>rh_trx_id = 5, rh_roll_ptr = \<lparr>up_page = 2, up_slot = 20\<rparr>, rh_flags = 0\<rparr> (replicate 24 1)"

lemma updated_row_seen_twice_witness:
  "\<exists>rows x sq d1 ts d2. SS_Open 9 (ExecutorSeqScan_new ''users'') (scan_db rows x) = (Inr sq, d1) \<and>
     scan_all 9 9 reader sq d1 = (Inr ts, d2) \<and> map t_data ts = [Some old_row, Some old_row]"
proof -
  let ?p = "\<lparr>up_page = 2, up_slot = 20\<rparr>" and ?x = "undo_bytes null_ptr 0 old_row"
  let ?rows = "[with_header \<lparr>rh_trx_id = 5, rh_roll_ptr = ?p, rh_flags = RECORD_DEL\<rparr> old_row, new_row]"
  have l: "length old_row = 24" "length new_row = 24" by (simp_all add: old_row_def new_row_def)
  have s: "32 + length (concat ?rows) + 4 * length ?rows \<le> 4096" "20 + length ?x \<le> 4096" by (simp_all add: l)
  note p = scan_db_pool [OF s]
  have "undo_layout \<lparr>un_frame = 0, un_page_id = 2, un_lsn = 0, un_free = word_of_nat (20 + length ?x)\<rparr> (undo_page ?x)" "holds_at 20 ?x (undo_page ?x)"
    by (auto simp: undo_layout_def undo_page_def l unat_u32_small intro!: holds_at_poke_same holds_at_poke_disjoint)
  then have "record_at (db_bm (scan_db ?rows ?x)) ?p ?x" using p(5) by (fastforce simp: record_at_def l unat_u32_small)
  then have "version_at (db_bm (scan_db ?rows ?x)) ?p old_row" using p(3) l(1) by (auto simp: version_at_def addressable_def)
  moreover have "read_header new_row = \<lparr>rh_trx_id = 5, rh_roll_ptr = ?p, rh_flags = 0\<rparr>" by (simp add: new_row_def read_with_header)
  moreover have "read_header old_row = \<lparr>rh_trx_id = 0, rh_roll_ptr = null_ptr, rh_flags = 0\<rparr>" using demo_row_header by (simp add: old_row_def)
  ultimately show ?thesis
    using updated_row_seen_twice [OF scan_db_table [OF s], of reader] scan_db_reader [of ?rows ?x] l by (fastforce simp: UndoPointer_IsNull_def)
qed

end
