(* ===== verification/Expressions.thy ===== *)
theory Expressions
  imports Row_Codec "HOL-Library.Signed_Division"
begin

text \<open>
  Physical expressions and their evaluation on a tuple: \<^verbatim>\<open>include/planner/physical/expression/*.h\<close>.  Arithmetic on \<^verbatim>\<open>int\<close>
  is 32-bit signed and its overflow undefined; a \<^verbatim>\<open>double\<close> is kept as its bits, and the floating-point operations of the
  machine are the parameter \<open>DoubleOps\<close>.  Shown: a well-typed condition always evaluates, to a boolean that is not null,
  which is what the filter and the update and delete executors rely on; and AND and OR are Kleene's.
\<close>

section \<open>Syntax\<close>

datatype BinaryOp = OP_ADD | OP_SUB | OP_MU | OP_DE | OP_GT | OP_GTE | OP_LT | OP_LTE | OP_EQ | OP_NEQ | OP_LIKE | OP_NLIKE
  | OP_IN | OP_CANCAT | OP_AND | OP_OR

datatype UnaryOp = OP_IS_NULL | OP_NOT_NULL

datatype PhysicalExpression =
    PBinary BinaryOp PhysicalExpression PhysicalExpression
  | PColumn entry_id entry_id
  | PConst Value
  | PUnary entry_id entry_id

record DoubleOps =
  d_of_int :: "u32 \<Rightarrow> u64"
  d_add :: "u64 \<Rightarrow> u64 \<Rightarrow> u64"
  d_sub :: "u64 \<Rightarrow> u64 \<Rightarrow> u64"
  d_mul :: "u64 \<Rightarrow> u64 \<Rightarrow> u64"
  d_div :: "u64 \<Rightarrow> u64 \<Rightarrow> u64"
  d_lt :: "u64 \<Rightarrow> u64 \<Rightarrow> bool"
  d_le :: "u64 \<Rightarrow> u64 \<Rightarrow> bool"
  d_eq :: "u64 \<Rightarrow> u64 \<Rightarrow> bool"

section \<open>Operators on values\<close>

definition VB :: "bool \<Rightarrow> Value res" where
  "VB b = Inr (Value_of (VBool b))"

text \<open>The value of a signed expression, when the mathematical result fits an \<^verbatim>\<open>int\<close>.\<close>

definition int_result :: "int \<Rightarrow> Value res" where
  "int_result k = (if - (2 ^ 31) \<le> k \<and> k < 2 ^ 31 then Inr (Value_of (VInt (word_of_int k))) else Inl SignedOverflow)"

definition eval_int :: "BinaryOp \<Rightarrow> u32 \<Rightarrow> u32 \<Rightarrow> Value res" where
  "eval_int bop l r = (case bop of
     OP_ADD \<Rightarrow> int_result (sint l + sint r)
   | OP_SUB \<Rightarrow> int_result (sint l - sint r)
   | OP_MU \<Rightarrow> int_result (sint l * sint r)
   | OP_DE \<Rightarrow> if r = 0 then Inl (RuntimeError ''Division by zero'') else int_result (sint l sdiv sint r)
   | OP_GT \<Rightarrow> VB (sint r < sint l)
   | OP_GTE \<Rightarrow> VB (sint r \<le> sint l)
   | OP_LT \<Rightarrow> VB (sint l < sint r)
   | OP_LTE \<Rightarrow> VB (sint l \<le> sint r)
   | OP_EQ \<Rightarrow> VB (l = r)
   | OP_NEQ \<Rightarrow> VB (l \<noteq> r)
   | _ \<Rightarrow> Inl (RuntimeError ''Unknown BinaryOp for Int''))"

definition eval_double :: "DoubleOps \<Rightarrow> BinaryOp \<Rightarrow> u64 \<Rightarrow> u64 \<Rightarrow> Value res" where
  "eval_double D bop l r = (case bop of
     OP_ADD \<Rightarrow> Inr (Value_of (VDouble (d_add D l r)))
   | OP_SUB \<Rightarrow> Inr (Value_of (VDouble (d_sub D l r)))
   | OP_MU \<Rightarrow> Inr (Value_of (VDouble (d_mul D l r)))
   | OP_DE \<Rightarrow> if d_eq D r 0 then Inl (RuntimeError ''Division by zero'') else Inr (Value_of (VDouble (d_div D l r)))
   | OP_GT \<Rightarrow> VB (d_lt D r l)
   | OP_GTE \<Rightarrow> VB (d_le D r l)
   | OP_LT \<Rightarrow> VB (d_lt D l r)
   | OP_LTE \<Rightarrow> VB (d_le D l r)
   | OP_EQ \<Rightarrow> VB (d_eq D l r)
   | OP_NEQ \<Rightarrow> VB (\<not> d_eq D l r)
   | _ \<Rightarrow> Inl (RuntimeError ''Unknown BinaryOp for Double''))"

text \<open>\<^verbatim>\<open>std::string\<close> compares its bytes as unsigned numbers, a proper prefix first.\<close>

fun str_less :: "bytes \<Rightarrow> bytes \<Rightarrow> bool" where
  "str_less [] [] = False"
| "str_less [] (b # bs) = True"
| "str_less (a # as) [] = False"
| "str_less (a # as) (b # bs) = (a < b \<or> a = b \<and> str_less as bs)"

definition eval_string :: "BinaryOp \<Rightarrow> bytes \<Rightarrow> bytes \<Rightarrow> Value res" where
  "eval_string bop l r = (case bop of
     OP_GT \<Rightarrow> VB (str_less r l)
   | OP_GTE \<Rightarrow> VB (\<not> str_less l r)
   | OP_LT \<Rightarrow> VB (str_less l r)
   | OP_LTE \<Rightarrow> VB (\<not> str_less r l)
   | OP_EQ \<Rightarrow> VB (l = r)
   | OP_NEQ \<Rightarrow> VB (l \<noteq> r)
   | _ \<Rightarrow> Inl (RuntimeError ''Unknown BinaryOp for String''))"

definition as_double :: "DoubleOps \<Rightarrow> variant \<Rightarrow> u64 option" where
  "as_double D v = (case v of VInt i \<Rightarrow> Some (d_of_int D i) | VDouble d \<Rightarrow> Some d | _ \<Rightarrow> None)"

definition EvaluateArithmeticOrComparison :: "DoubleOps \<Rightarrow> BinaryOp \<Rightarrow> Value \<Rightarrow> Value \<Rightarrow> Value res" where
  "EvaluateArithmeticOrComparison D bop l r = (case (v_val l, v_val r) of
     (VInt i, VInt j) \<Rightarrow> eval_int bop i j
   | (VString s, VString t) \<Rightarrow> eval_string bop s t
   | (x, y) \<Rightarrow> (case (as_double D x, as_double D y) of
       (Some a, Some b) \<Rightarrow> eval_double D bop a b
     | _ \<Rightarrow> Inl (RuntimeError ''Type mismatch or unsupported operation between types'')))"

text \<open>\<^verbatim>\<open>l.find(r) != npos\<close>.\<close>

definition str_contains :: "bytes \<Rightarrow> bytes \<Rightarrow> bool" where
  "str_contains l r = list_ex (\<lambda>i. take (length r) (drop i l) = r) [0..<Suc (length l)]"

definition EvaluateStringOp :: "BinaryOp \<Rightarrow> Value \<Rightarrow> Value \<Rightarrow> Value res" where
  "EvaluateStringOp bop l r = (case GetString l of Inl e \<Rightarrow> Inl e | Inr s \<Rightarrow> (case GetString r of Inl e \<Rightarrow> Inl e | Inr t \<Rightarrow>
     (if bop = OP_CANCAT then Inr (Value_of (VString (s @ t)))
      else if bop = OP_LIKE then VB (str_contains s t)
      else if bop = OP_NLIKE then VB (\<not> str_contains s t)
      else Inl (RuntimeError ''Unsupported String Operation''))))"

text \<open>The conditions of \<^verbatim>\<open>EvaluateLogical\<close> run in order: \<open>logical_arm stop v k\<close> is one \<^verbatim>\<open>if\<close>, which returns \<open>stop\<close> when \<open>v\<close> is it.\<close>

definition logical_arm :: "bool \<Rightarrow> Value \<Rightarrow> Value res \<Rightarrow> Value res" where
  "logical_arm stop v k = (if v_null v then k
     else case GetBool v of Inl e \<Rightarrow> Inl e | Inr b \<Rightarrow> if b = stop then VB stop else k)"

definition EvaluateLogical :: "BinaryOp \<Rightarrow> Value \<Rightarrow> Value \<Rightarrow> Value res" where
  "EvaluateLogical bop l r = (let stop = (bop \<noteq> OP_AND) in
     logical_arm stop l (logical_arm stop r (if v_null l \<or> v_null r then Inr Value_null else VB (\<not> stop))))"

definition eval_binary :: "DoubleOps \<Rightarrow> BinaryOp \<Rightarrow> Value \<Rightarrow> Value \<Rightarrow> Value res" where
  "eval_binary D bop l r =
     (if bop = OP_AND \<or> bop = OP_OR then EvaluateLogical bop l r
      else if v_null l \<or> v_null r then Inr Value_null
      else if bop = OP_CANCAT \<or> bop = OP_LIKE \<or> bop = OP_NLIKE \<or> bop = OP_IN then EvaluateStringOp bop l r
      else EvaluateArithmeticOrComparison D bop l r)"

section \<open>Evaluation\<close>

text \<open>A column is read from the bytes of the tuple; \<^verbatim>\<open>Row::GetValue\<close> replaces a null by the default of the column.\<close>

definition eval_column :: "Tuple \<Rightarrow> entry_id \<Rightarrow> Value res" where
  "eval_column t c = (case t_data t of None \<Rightarrow> Inl MemoryFault
     | Some d \<Rightarrow> (case Row_Deserialize (t_schema t) d of Inl e \<Rightarrow> Inl e
        | Inr (h, vs) \<Rightarrow> Row_GetValue (t_schema t) vs (unat c)))"

fun Evaluate :: "DoubleOps \<Rightarrow> PhysicalExpression \<Rightarrow> Tuple \<Rightarrow> Value res" where
  "Evaluate D (PBinary bop l r) t = (case Evaluate D l t of Inl e \<Rightarrow> Inl e
     | Inr a \<Rightarrow> (case Evaluate D r t of Inl e \<Rightarrow> Inl e | Inr b \<Rightarrow> eval_binary D bop a b))"
| "Evaluate D (PColumn table c) t = eval_column t c"
| "Evaluate D (PConst v) t = Inr v"
| "Evaluate D (PUnary table c) t = VB True"

section \<open>Types\<close>

datatype ty = TInt | TBool | TStr

fun value_has :: "ty \<Rightarrow> Value \<Rightarrow> bool" where
  "value_has TInt v = (\<not> v_null v \<and> (\<exists>i. v_val v = VInt i))"
| "value_has TBool v = (\<not> v_null v \<and> (\<exists>b. v_val v = VBool b))"
| "value_has TStr v = (\<not> v_null v \<and> (\<exists>s. v_val v = VString s))"

definition column_ty :: "ColumnTypes \<Rightarrow> ty option" where
  "column_ty c = (case c of CT_INTEGER \<Rightarrow> Some TInt | CT_BOOL \<Rightarrow> Some TBool | CT_VARCHAR \<Rightarrow> Some TStr | _ \<Rightarrow> None)"

definition const_ty :: "Value \<Rightarrow> ty option" where
  "const_ty v = (if v_null v then None else case v_val v of VInt _ \<Rightarrow> Some TInt | VBool _ \<Rightarrow> Some TBool | VString _ \<Rightarrow> Some TStr | _ \<Rightarrow> None)"

definition is_comparison :: "BinaryOp \<Rightarrow> bool" where
  "is_comparison bop \<longleftrightarrow> bop \<in> {OP_GT, OP_GTE, OP_LT, OP_LTE, OP_EQ, OP_NEQ}"

definition binary_ty :: "BinaryOp \<Rightarrow> ty option \<Rightarrow> ty option \<Rightarrow> ty option" where
  "binary_ty bop l r = (case (l, r) of
     (Some TInt, Some TInt) \<Rightarrow> if is_comparison bop then Some TBool else None
   | (Some TStr, Some TStr) \<Rightarrow> if is_comparison bop \<or> bop = OP_LIKE \<or> bop = OP_NLIKE then Some TBool
       else if bop = OP_CANCAT then Some TStr else None
   | (Some TBool, Some TBool) \<Rightarrow> if bop = OP_AND \<or> bop = OP_OR then Some TBool else None
   | _ \<Rightarrow> None)"

fun expr_ty :: "Schema \<Rightarrow> PhysicalExpression \<Rightarrow> ty option" where
  "expr_ty sch (PBinary bop l r) = binary_ty bop (expr_ty sch l) (expr_ty sch r)"
| "expr_ty sch (PColumn table c) = (if unat c < length sch then column_ty (ce_type (sch ! unat c)) else None)"
| "expr_ty sch (PConst v) = const_ty v"
| "expr_ty sch (PUnary table c) = Some TBool"

text \<open>The columns of a schema carry the default their constructor gave them.\<close>

definition schema_ok :: "Schema \<Rightarrow> bool" where
  "schema_ok sch \<longleftrightarrow> (\<forall>c \<in> set sch. ColumnEntry_new (ce_id c) (ce_name c) (ce_type c) = Inr c)"

text \<open>A stored row: the record deserializes.\<close>

definition row_of :: "Schema \<Rightarrow> Tuple \<Rightarrow> Value list \<Rightarrow> bool" where
  "row_of sch t vs \<longleftrightarrow> t_schema t = sch \<and> (\<exists>d h. t_data t = Some d \<and> Row_Deserialize sch d = Inr (h, vs))"

lemma read_value_has:
  "read_value c off d = Inr (v, off') \<Longrightarrow> column_ty c = Some a \<Longrightarrow> value_has a v"
  by (auto simp: read_value_def column_ty_def Value_of_def Let_def split: ColumnTypes.splits sum.splits)

lemma read_values_has:
  "read_values cs i off d = Inr vs \<Longrightarrow> length vs = length cs \<and>
     (\<forall>k < length cs. \<forall>a. column_ty (cs ! k) = Some a \<longrightarrow> v_null (vs ! k) \<or> value_has a (vs ! k))"
proof (induction cs arbitrary: i off vs)
  case (Cons c cs)
  from Cons.prems obtain v off' ws where r: "read_values cs (Suc i) off' d = Inr ws" "vs = v # ws"
    "v = Value_null \<or> read_value c off d = Inr (v, off')"
    by (auto split: sum.splits if_splits)
  then show ?case
    using Cons.IH [OF r(1)] read_value_has [of c off d v off'] by (auto simp: nth_Cons Value_null_def split: nat.splits)
qed simp

lemma eval_column_has:
  assumes "row_of sch t vs" "schema_ok sch" "unat c < length sch" "column_ty (ce_type (sch ! unat c)) = Some a"
  shows "\<exists>v. eval_column t c = Inr v \<and> value_has a v"
proof -
  from assms(1) obtain d h where d: "t_data t = Some d" "t_schema t = sch" "Row_Deserialize sch d = Inr (h, vs)"
    by (auto simp: row_of_def)
  then have "read_values (map ce_type sch) 0 (22 + length sch) d = Inr vs"
    by (auto simp: Row_Deserialize_def split: if_splits sum.splits)
  from read_values_has [OF this] assms(3,4) have v: "length vs = length sch" "v_null (vs ! unat c) \<or> value_has a (vs ! unat c)"
    by simp_all
  have "ColumnEntry_new (ce_id (sch ! unat c)) (ce_name (sch ! unat c)) (ce_type (sch ! unat c)) = Inr (sch ! unat c)"
    using assms(2,3) by (simp add: schema_ok_def)
  then have "value_has a (ce_default (sch ! unat c))"
    using assms(4) by (auto simp: column_ty_def Value_of_def split: ColumnTypes.splits) (metis ColumnEntry.select_convs(4) ColumnEntry_new.simps Inr_inject Value.select_convs)+
  then show ?thesis using d v assms(3) by (auto simp: eval_column_def Row_GetValue_def)
qed

lemma eval_binary_has:
  assumes "value_has a l" "value_has b r" "binary_ty bop (Some a) (Some b) = Some c"
  shows "\<exists>v. eval_binary D bop l r = Inr v \<and> value_has c v"
  using assms
  by (cases a; cases b; cases bop)
    (auto simp: binary_ty_def is_comparison_def eval_binary_def EvaluateLogical_def logical_arm_def GetBool_def VB_def Value_of_def
      EvaluateStringOp_def GetString_def EvaluateArithmeticOrComparison_def eval_int_def eval_string_def Let_def)

lemma Evaluate_has:
  "row_of sch t vs \<Longrightarrow> schema_ok sch \<Longrightarrow> expr_ty sch e = Some a \<Longrightarrow> \<exists>v. Evaluate D e t = Inr v \<and> value_has a v"
proof (induction e arbitrary: a)
  case (PBinary bop l r)
  obtain x y where xy: "expr_ty sch l = Some x" "expr_ty sch r = Some y"
    using PBinary.prems(3) by (auto simp: binary_ty_def split: option.splits ty.splits)
  obtain v w where "Evaluate D l t = Inr v" "value_has x v" "Evaluate D r t = Inr w" "value_has y w"
    using PBinary.IH PBinary.prems xy by blast
  then show ?case using eval_binary_has [of x v y w bop a D] PBinary.prems(3) xy by simp
next
  case (PColumn table c)
  then show ?case using eval_column_has [of sch t vs c a] by (simp split: if_splits)
next
  case (PConst v)
  then show ?case by (auto simp: const_ty_def split: if_splits variant.splits)
qed (auto simp: VB_def Value_of_def)

text \<open>The three-valued logic of AND and OR, with the truth values ordered false, null, true.\<close>

definition truth_value :: "bool option \<Rightarrow> Value" where
  "truth_value a = (case a of None \<Rightarrow> Value_null | Some b \<Rightarrow> Value_of (VBool b))"

definition truth_rank :: "bool option \<Rightarrow> nat" where
  "truth_rank a = (case a of Some False \<Rightarrow> 0 | None \<Rightarrow> 1 | Some True \<Rightarrow> 2)"

lemma logic_is_kleene:
  "\<exists>c. eval_binary D OP_AND (truth_value a) (truth_value b) = Inr (truth_value c) \<and> truth_rank c = min (truth_rank a) (truth_rank b)"
  "\<exists>c. eval_binary D OP_OR (truth_value a) (truth_value b) = Inr (truth_value c) \<and> truth_rank c = max (truth_rank a) (truth_rank b)"
proof -
  show "\<exists>c. eval_binary D OP_AND (truth_value a) (truth_value b) = Inr (truth_value c) \<and> truth_rank c = min (truth_rank a) (truth_rank b)"
    by (rule exI [of _ "if a = Some False \<or> b = Some False then Some False else if a = None \<or> b = None then None else Some True"])
      (cases a; cases b; auto simp: eval_binary_def EvaluateLogical_def logical_arm_def GetBool_def Value_null_def Value_of_def VB_def truth_value_def truth_rank_def split: bool.splits)
  show "\<exists>c. eval_binary D OP_OR (truth_value a) (truth_value b) = Inr (truth_value c) \<and> truth_rank c = max (truth_rank a) (truth_rank b)"
    by (rule exI [of _ "if a = Some True \<or> b = Some True then Some True else if a = None \<or> b = None then None else Some False"])
      (cases a; cases b; auto simp: eval_binary_def EvaluateLogical_def logical_arm_def GetBool_def Value_null_def Value_of_def VB_def truth_value_def truth_rank_def split: bool.splits)
qed

text \<open>C33.
  Type soundness of conditions: on every stored row of the schema, a condition built from comparisons of integers or strings,
  LIKE, AND, OR, columns and constants that is well typed evaluates without any exception, to a boolean that is not
  null, whatever nulls the row holds.
\<close>

theorem condition_type_sound:
  assumes "row_of sch t vs" "schema_ok sch" "expr_ty sch e = Some TBool"
  shows "\<exists>b. Evaluate D e t = Inr (Value_of (VBool b))"
proof -
  obtain v b where v: "Evaluate D e t = Inr v" "\<not> v_null v" "v_val v = VBool b" using Evaluate_has [OF assms, of D] by auto
  then have "v = Value_of (VBool b)" by (cases v) (simp add: Value_of_def)
  with v(1) show ?thesis by blast
qed

definition demo_tuple :: "bytes \<Rightarrow> Tuple" where
  "demo_tuple d = Tuple_new\<lparr>t_schema := user_schema, t_data := Some d\<rparr>"

definition demo_doubles :: DoubleOps where
  "demo_doubles = \<lparr>d_of_int = ucast, d_add = (+), d_sub = (-), d_mul = (*), d_div = (div), d_lt = (<), d_le = (\<le>), d_eq = (=)\<rparr>"

definition demo_condition :: PhysicalExpression where
  "demo_condition = PBinary OP_AND (PBinary OP_LIKE (PColumn 1 0) (PConst (Value_of (VString [65]))))
     (PBinary OP_LT (PColumn 1 1) (PConst (Value_of (VInt 30))))"

lemma condition_type_sound_witness:
  "\<exists>d b. Evaluate demo_doubles demo_condition (demo_tuple d) = Inr (Value_of (VBool b))"
proof -
  let ?vs = "[Value_of (VString [65, 66]), Value_null]"
  have f: "list_all2 fits (map ce_type user_schema) ?vs" by (auto simp: user_schema_def)
  obtain n pl where s: "ser_meta (map ce_type user_schema) ?vs = Inr (map null_byte ?vs, n)"
    "ser_payload (map ce_type user_schema) ?vs = Inr pl" using ser_ok [OF f] by blast
  let ?h = "\<lparr>rh_trx_id = 7, rh_roll_ptr = null_ptr, rh_flags = 0\<rparr>"
  let ?d = "header_bytes ?h @ map null_byte ?vs @ pl"
  have "read_values (map ce_type user_schema) 0 (22 + length user_schema) ?d = Inr ?vs"
    by (rule read_values_ser [OF f s(2)]) (simp_all add: peek_def user_schema_def)
  then have "row_of user_schema (demo_tuple ?d) ?vs"
    by (auto simp: row_of_def demo_tuple_def Row_Deserialize_def)
  from condition_type_sound [OF this, of demo_condition demo_doubles] show ?thesis
    by (auto simp: schema_ok_def user_schema_def demo_condition_def binary_ty_def column_ty_def const_ty_def is_comparison_def Value_of_def)
qed

end
