(* ===== verification/Write_Executors.thy ===== *)
theory Write_Executors
  imports Table_Scan Expressions
begin

unbundle bit_operations_syntax

text \<open>
  The executors that change tables: \<^verbatim>\<open>executor/executor_values.cpp\<close>, \<^verbatim>\<open>executor_insert.cpp\<close>, \<^verbatim>\<open>executor_delete.cpp\<close>,
  \<^verbatim>\<open>executor_update.cpp\<close> and \<^verbatim>\<open>executor_create_table.cpp\<close>, as steps on the state of the server.  An executor that throws is destroyed
  without being closed, so only the state of the server is kept then.  Shown: what an insert does to the page, the log and the
  write set, and that the check for write conflicts of DELETE and UPDATE cannot fire.
\<close>

section \<open>Steps the executors share\<close>

definition set_lsn :: "lsn_t \<Rightarrow> TablePage \<Rightarrow> (DB, TablePage) comp" where
  "set_lsn l tp = (if l \<noteq> INVALID_LSN then in_store (TP_SetLsn l tp) else ret tp)"

definition record_write :: "ExecutorContext \<Rightarrow> WriteRecord \<Rightarrow> (DB, unit) comp" where
  "record_write ctx w = (case ctx_txn ctx of None \<Rightarrow> ret () | Some i \<Rightarrow> on_txn (push_write i w))"

definition WriteRecord_new :: "RID \<Rightarrow> WriteType \<Rightarrow> entry_id \<Rightarrow> WriteRecord" where
  "WriteRecord_new rid ty table = \<lparr>wr_rid = rid, wr_type = ty, wr_table_id = table, wr_prev_trx_id = 0,
     wr_prev_roll_ptr = null_ptr, wr_prev_flags = 0\<rparr>"

text \<open>The bytes \<^verbatim>\<open>LogDataChange\<close> copies from a tuple.\<close>

definition tuple_image :: "Tuple \<Rightarrow> bytes res" where
  "tuple_image t = (case t_data t of None \<Rightarrow> Inr []
     | Some d \<Rightarrow> if t_size t = 0 then Inr [] else mem_read 0 (unat (t_size t)) d)"

text \<open>The last page of a table, allocated when it has none; the flag says that the page is to be read.\<close>

definition open_last_page :: "entry_id \<Rightarrow> MetaItem \<Rightarrow> (DB, frame_id \<times> bool) comp" where
  "open_last_page table it =
     (if mi_last it = INVALID_PAGE_ID
      then bnd (in_pool BM_NewPage) (\<lambda>f. bnd (page_id_of f) (\<lambda>i.
        thn (in_store (MP_UpdateTableLastId table i))
        (thn (on_cond (mi_first it = INVALID_PAGE_ID) (in_store (MP_UpdateTableFirstId table i))) (ret (f, False)))))
      else bnd (in_pool (BM_FetchPage (mi_last it))) (\<lambda>f. ret (f, True)))"

definition AllocateAndLinkNewPage :: "entry_id \<Rightarrow> TablePage \<Rightarrow> (DB, TablePage) comp" where
  "AllocateAndLinkNewPage table tp = bnd (page_id_of (tp_frame tp)) (\<lambda>old. bnd (in_pool BM_NewPage) (\<lambda>f. bnd (page_id_of f) (\<lambda>new.
     thn (in_store (TP_SetNextPageId new tp)) (thn (in_pool (BM_Flush old)) (thn (in_pool (BM_Release old))
     (bnd (in_store (TablePage_new table f False)) (\<lambda>tp'.
      thn (in_store (MP_UpdateTableLastId table new)) (ret tp'))))))))"

definition page_with_space :: "entry_id \<Rightarrow> Tuple \<Rightarrow> TablePage \<Rightarrow> (DB, TablePage) comp" where
  "page_with_space table t tp = (if TP_HasSpaceFor (t_size t) tp then ret tp else AllocateAndLinkNewPage table tp)"

text \<open>Logging an inserted record, noting the position in the page and flushing the page.\<close>

definition log_insert :: "ExecutorContext \<Rightarrow> entry_id \<Rightarrow> RID \<Rightarrow> Tuple \<Rightarrow> TablePage \<Rightarrow> (DB, TablePage) comp" where
  "log_insert ctx table rid t tp = bnd (of_res (tuple_image t)) (\<lambda>img. bnd (LogDataChange ctx LR_INSERT_ROW table rid img) (\<lambda>l.
     bnd (set_lsn l tp) (\<lambda>tp'. thn (flush_page (tp_frame tp')) (ret tp'))))"

section \<open>VALUES\<close>

record ExecutorValues =
  xv_table :: entry_id
  xv_column_ids :: "entry_id list"
  xv_values :: "Value list"
  xv_row :: "(Schema \<times> Value list) option"
  xv_used :: bool

text \<open>The index the map \<^verbatim>\<open>column_index_map\<close> holds for a column: of a repeated one the last.\<close>

fun last_index :: "entry_id list \<Rightarrow> entry_id \<Rightarrow> nat option" where
  "last_index [] c = None"
| "last_index (x # xs) c = (case last_index xs c of Some i \<Rightarrow> Some (Suc i) | None \<Rightarrow> if x = c then Some 0 else None)"

fun full_values :: "entry_id list \<Rightarrow> Value list \<Rightarrow> entry_id list \<Rightarrow> Value list res" where
  "full_values ids vs [] = Inr []"
| "full_values ids vs (c # cs) =
     (case (case last_index ids c of None \<Rightarrow> Inr Value_null | Some i \<Rightarrow> if i < length vs then Inr (vs ! i) else Inl MemoryFault) of
        Inl e \<Rightarrow> Inl e
      | Inr v \<Rightarrow> (case full_values ids vs cs of Inl e \<Rightarrow> Inl e | Inr r \<Rightarrow> Inr (v # r)))"

definition XV_Open :: "ExecutorValues \<Rightarrow> (DB, ExecutorValues) comp" where
  "XV_Open xv = bnd (gets db_catalog) (\<lambda>c. case cat_tables c (xv_table xv) of
     None \<Rightarrow> throw (RuntimeError ''ExecutorValues::Open don`t find target table.'')
   | Some None \<Rightarrow> throw MemoryFault
   | Some (Some te) \<Rightarrow> bnd (of_res (full_values (xv_column_ids xv) (xv_values xv) (TE_GetColumnIds te))) (\<lambda>vs.
       ret (xv\<lparr>xv_row := Some (TE_GetSchema te, vs), xv_used := False\<rparr>)))"

text \<open>The size of the record is cut to the 16 bits of \<^verbatim>\<open>tuple_size_\<close>.\<close>

definition XV_Next :: "ExecutorContext \<Rightarrow> ExecutorValues \<Rightarrow> Tuple \<Rightarrow> (DB, ExecutorValues \<times> Tuple \<times> bool) comp" where
  "XV_Next ctx xv t = (if xv_used xv then ret (xv, t, False)
     else case xv_row xv of None \<Rightarrow> throw MemoryFault
       | Some (sch, vs) \<Rightarrow> bnd (of_res (Row_Serialize sch \<lparr>rh_trx_id = cur_txn ctx, rh_roll_ptr = null_ptr, rh_flags = 0\<rparr> vs)) (\<lambda>(d, n).
           ret (xv\<lparr>xv_used := True\<rparr>, t\<lparr>t_data := Some d, t_size := word_of_nat n, t_schema := sch\<rparr>, True)))"

definition XV_Close :: "ExecutorValues \<Rightarrow> ExecutorValues" where
  "XV_Close xv = xv\<lparr>xv_row := None\<rparr>"

section \<open>INSERT\<close>

text \<open>The child that delivers the tuples is not part of this record; see the tree of executors.\<close>

record ExecutorInsert =
  xi_table :: entry_id
  xi_column_ids :: "entry_id list"
  xi_page :: "TablePage option"

definition XI_open_page :: "ExecutorInsert \<Rightarrow> (DB, ExecutorInsert) comp" where
  "XI_open_page xi = bnd (gets (\<lambda>d. mp_item (xi_table xi) (db_store d))) (\<lambda>r. case r of
     None \<Rightarrow> throw (RuntimeError ''ExecutorInsert::Open No meta page exists'')
   | Some it \<Rightarrow> bnd (open_last_page (mi_id it) it) (\<lambda>(f, rd).
       bnd (in_store (TablePage_new (xi_table xi) f rd)) (\<lambda>tp. ret (xi\<lparr>xi_page := Some tp\<rparr>))))"

definition insert_tuple :: "ExecutorContext \<Rightarrow> entry_id \<Rightarrow> Tuple \<Rightarrow> TablePage \<Rightarrow> (DB, TablePage) comp" where
  "insert_tuple ctx table t tp = bnd (page_with_space table t tp) (\<lambda>tp1. bnd (in_store (TP_InsertTuple t tp1)) (\<lambda>(tp2, r). case r of
     None \<Rightarrow> throw (RuntimeError ''ExecutorInsert::Next tuple too large for an empty page'')
   | Some rid \<Rightarrow> bnd (log_insert ctx table rid t tp2) (\<lambda>tp3.
       thn (record_write ctx (WriteRecord_new rid W_INSERT table)) (ret tp3))))"

text \<open>The loop over the tuples of the child \<open>c\<close>, whose operation \<^verbatim>\<open>Next\<close> is \<open>nxt\<close>.\<close>

fun insert_loop :: "('c \<Rightarrow> Tuple \<Rightarrow> (DB, 'c \<times> Tuple \<times> bool) comp) \<Rightarrow> nat \<Rightarrow> ExecutorContext \<Rightarrow> ExecutorInsert \<Rightarrow> 'c \<Rightarrow> Tuple \<Rightarrow>
    (DB, ExecutorInsert \<times> 'c \<times> Tuple) comp" where
  "insert_loop nxt 0 ctx xi c t = throw OutOfFuel"
| "insert_loop nxt (Suc n) ctx xi c t = bnd (nxt c t) (\<lambda>(c', t', more).
     if \<not> more then ret (xi, c', t')
     else case xi_page xi of None \<Rightarrow> throw MemoryFault
       | Some tp \<Rightarrow> bnd (insert_tuple ctx (xi_table xi) t' tp) (\<lambda>tp'. insert_loop nxt n ctx (xi\<lparr>xi_page := Some tp'\<rparr>) c' t'))"

definition XI_release :: "ExecutorInsert \<Rightarrow> (DB, ExecutorInsert) comp" where
  "XI_release xi = (case xi_page xi of None \<Rightarrow> ret xi | Some tp \<Rightarrow> thn (release_page (tp_frame tp)) (ret (xi\<lparr>xi_page := None\<rparr>)))"

section \<open>The rows DELETE and UPDATE choose\<close>

text \<open>\<^verbatim>\<open>ExecutorDelete::IsVisible\<close> and \<^verbatim>\<open>ExecutorUpdate::IsVisible\<close>, which are the same.\<close>

definition WX_IsVisible :: "ExecutorContext \<Rightarrow> tx_id_t \<Rightarrow> DB \<Rightarrow> bool" where
  "WX_IsVisible ctx x d = (if x = INVALID_TX_ID then True
     else case ctx_transaction ctx d of None \<Rightarrow> True
       | Some txn \<Rightarrow> (case tx_read_view txn of None \<Rightarrow> True
          | Some v \<Rightarrow> if tx_id txn = x then True else IsVisible (db_txn d) v x))"

definition row_matches :: "DoubleOps \<Rightarrow> PhysicalExpression option \<Rightarrow> Tuple \<Rightarrow> bool res" where
  "row_matches D f t = (case f of None \<Rightarrow> Inr True
     | Some e \<Rightarrow> (case Evaluate D e t of Inl x \<Rightarrow> Inl x | Inr v \<Rightarrow> if v_null v then Inr False else GetBool v))"

abbreviation (input) WriteConflict :: err where
  "WriteConflict \<equiv> RuntimeError ''WriteConflict: row modified by another in-progress transaction''"

definition conflict_check :: "ExecutorContext \<Rightarrow> tx_id_t \<Rightarrow> (DB, unit) comp" where
  "conflict_check ctx x = bnd (gets (\<lambda>d. TM_GetState (db_txn d) x)) (\<lambda>st.
     if ctx_tm ctx \<and> x \<noteq> INVALID_TX_ID \<and> x \<noteq> cur_txn ctx \<and> st = Some IN_PROGRESS then throw WriteConflict else ret ())"

text \<open>The row under the iterator, when it is to be changed: its flags, its writer and the record.\<close>

definition target_row :: "DoubleOps \<Rightarrow> ExecutorContext \<Rightarrow> PhysicalExpression option \<Rightarrow> TableIterator \<Rightarrow> TablePage \<Rightarrow>
    (DB, (u16 \<times> tx_id_t \<times> Tuple) option) comp" where
  "target_row D ctx flt it tp = (let rid = TI_GetRID it in
     bnd (in_store (TP_ReadRecordFlags rid tp)) (\<lambda>flags. bnd (in_store (TP_ReadRecordTrxId rid tp)) (\<lambda>trx.
     bnd (gets (WX_IsVisible ctx trx)) (\<lambda>vis.
     if flags AND RECORD_DEL \<noteq> 0 \<or> \<not> vis then ret None
     else bnd (in_store (TI_deref it)) (\<lambda>old. bnd (of_res (row_matches D flt old)) (\<lambda>m.
       if \<not> m then ret None else thn (conflict_check ctx trx) (ret (Some (flags, trx, old)))))))))"

section \<open>DELETE\<close>

record ExecutorDelete =
  xd_table_name :: string
  xd_filter :: "PhysicalExpression option"
  xd_iterator :: "TableIterator option"
  xd_schema :: Schema
  xd_table :: entry_id
  xd_count :: u64
  xd_done :: bool

definition XD_Open :: "nat \<Rightarrow> ExecutorDelete \<Rightarrow> (DB, ExecutorDelete) comp" where
  "XD_Open fuel xd = bnd (gets db_catalog) (\<lambda>c. case map_of (cat_names c) (xd_table_name xd) of
     None \<Rightarrow> throw (RuntimeError ''ExecutorDelete::Open table not found'')
   | Some i \<Rightarrow> bnd (of_res (Cat_table c i)) (\<lambda>te. (let sch = xd_schema xd @ TE_GetSchema te in
       bnd (in_store (TableIterator_new fuel (xd_table_name xd) i sch)) (\<lambda>it.
       ret (xd\<lparr>xd_table := i, xd_schema := sch, xd_iterator := Some it\<rparr>)))))"

definition append_undo :: "ExecutorContext \<Rightarrow> Tuple \<Rightarrow> tx_id_t \<Rightarrow> UndoPointer \<Rightarrow> (DB, UndoPointer) comp" where
  "append_undo ctx t trx ptr = (if ctx_undo ctx then in_undo (ULM_AppendUndoRecord t trx ptr) else ret null_ptr)"

text \<open>Marking a record deleted and logging it; the page is flushed by the caller.\<close>

definition log_delete :: "ExecutorContext \<Rightarrow> entry_id \<Rightarrow> RID \<Rightarrow> UndoPointer \<Rightarrow> TablePage \<Rightarrow> (DB, TablePage) comp" where
  "log_delete ctx table rid ptr tp = thn (in_store (TP_MarkDelete rid (cur_txn ctx) ptr tp))
     (bnd (LogDataChange ctx LR_DELETE_ROW table rid []) (\<lambda>l. set_lsn l tp))"

definition delete_row :: "ExecutorContext \<Rightarrow> entry_id \<Rightarrow> RID \<Rightarrow> u16 \<Rightarrow> tx_id_t \<Rightarrow> Tuple \<Rightarrow> TablePage \<Rightarrow> (DB, TablePage) comp" where
  "delete_row ctx table rid flags trx old tp =
     bnd (in_store (TP_ReadRecordRollPtr rid tp)) (\<lambda>optr. bnd (append_undo ctx old trx optr) (\<lambda>ptr.
     bnd (log_delete ctx table rid ptr tp) (\<lambda>tp'.
     thn (record_write ctx (\<lparr>wr_rid = rid, wr_type = W_DELETE, wr_table_id = table, wr_prev_trx_id = trx,
            wr_prev_roll_ptr = optr, wr_prev_flags = flags\<rparr>))
     (thn (flush_page (tp_frame tp')) (ret tp')))))"

fun delete_loop :: "DoubleOps \<Rightarrow> nat \<Rightarrow> nat \<Rightarrow> ExecutorContext \<Rightarrow> ExecutorDelete \<Rightarrow> (DB, ExecutorDelete) comp" where
  "delete_loop D fuel 0 ctx xd = throw OutOfFuel"
| "delete_loop D fuel (Suc n) ctx xd = (case xd_iterator xd of None \<Rightarrow> ret xd
     | Some it \<Rightarrow> if ti_end it then ret xd
         else case ti_tp it of None \<Rightarrow> throw MemoryFault
           | Some tp \<Rightarrow> bnd (target_row D ctx (xd_filter xd) it tp) (\<lambda>r.
               bnd (case r of None \<Rightarrow> ret (tp, xd_count xd)
                  | Some (flags, trx, old) \<Rightarrow> bnd (delete_row ctx (xd_table xd) (TI_GetRID it) flags trx old tp) (\<lambda>tp'.
                      ret (tp', xd_count xd + 1))) (\<lambda>(tp', k).
               bnd (in_store (TI_next fuel (it\<lparr>ti_tp := Some tp'\<rparr>))) (\<lambda>it'.
               delete_loop D fuel n ctx (xd\<lparr>xd_iterator := Some it', xd_count := k\<rparr>)))))"

definition XD_Next :: "DoubleOps \<Rightarrow> nat \<Rightarrow> ExecutorContext \<Rightarrow> ExecutorDelete \<Rightarrow> (DB, ExecutorDelete) comp" where
  "XD_Next D fuel ctx xd = (if xd_done xd then ret xd
     else bnd (delete_loop D fuel fuel ctx xd) (\<lambda>xd'. ret (xd'\<lparr>xd_done := True\<rparr>)))"

definition XD_Close :: "ExecutorDelete \<Rightarrow> ExecutorDelete" where
  "XD_Close xd = xd\<lparr>xd_iterator := None\<rparr>"

section \<open>UPDATE\<close>

record Hit =
  hit_rid :: RID
  hit_old_trx :: tx_id_t
  hit_old_roll_ptr :: UndoPointer
  hit_old_flags :: u16
  hit_old_bytes :: bytes
  hit_new_values :: "Value list"

record ExecutorUpdate =
  xu_table :: entry_id
  xu_sets :: "(entry_id \<times> Value) list"
  xu_filter :: "PhysicalExpression option"
  xu_iterator :: "TableIterator option"
  xu_schema :: Schema
  xu_table_name :: string
  xu_count :: u64
  xu_done :: bool

definition XU_Open :: "nat \<Rightarrow> ExecutorUpdate \<Rightarrow> (DB, ExecutorUpdate) comp" where
  "XU_Open fuel xu = bnd (gets db_catalog) (\<lambda>c. bnd (of_res (Cat_GetTableName c (xu_table xu))) (\<lambda>name.
     bnd (of_res (Cat_table c (xu_table xu))) (\<lambda>te. (let sch = xu_schema xu @ TE_GetSchema te in
       bnd (in_store (TableIterator_new fuel name (xu_table xu) sch)) (\<lambda>it.
       ret (xu\<lparr>xu_table_name := name, xu_schema := sch, xu_iterator := Some it\<rparr>))))))"

text \<open>The SET clauses in their order; a clause for a column the row does not have is ignored.\<close>

definition apply_set :: "Value list \<Rightarrow> entry_id \<times> Value \<Rightarrow> Value list" where
  "apply_set vs s = (if unat (fst s) < length vs then vs[unat (fst s) := snd s] else vs)"

definition make_hit :: "ExecutorUpdate \<Rightarrow> RID \<Rightarrow> u16 \<Rightarrow> tx_id_t \<Rightarrow> Tuple \<Rightarrow> TablePage \<Rightarrow> (DB, Hit) comp" where
  "make_hit xu rid flags trx old tp = (case t_data old of None \<Rightarrow> throw MemoryFault
     | Some d \<Rightarrow> bnd (of_res (Row_Deserialize (xu_schema xu) d)) (\<lambda>(h, vs).
         bnd (in_store (TP_ReadRecordRollPtr rid tp)) (\<lambda>optr. bnd (of_res (mem_read 0 (unat (t_size old)) d)) (\<lambda>bs.
         ret \<lparr>hit_rid = rid, hit_old_trx = trx, hit_old_roll_ptr = optr, hit_old_flags = flags, hit_old_bytes = bs,
              hit_new_values = foldl apply_set vs (xu_sets xu)\<rparr>))))"

text \<open>Phase one: the rows to be updated, while the table is unchanged.\<close>

fun collect_hits :: "DoubleOps \<Rightarrow> nat \<Rightarrow> nat \<Rightarrow> ExecutorContext \<Rightarrow> ExecutorUpdate \<Rightarrow> Hit list \<Rightarrow> (DB, ExecutorUpdate \<times> Hit list) comp" where
  "collect_hits D fuel 0 ctx xu hits = throw OutOfFuel"
| "collect_hits D fuel (Suc n) ctx xu hits = (case xu_iterator xu of None \<Rightarrow> ret (xu, hits)
     | Some it \<Rightarrow> if ti_end it then ret (xu, hits)
         else case ti_tp it of None \<Rightarrow> throw MemoryFault
           | Some tp \<Rightarrow> bnd (target_row D ctx (xu_filter xu) it tp) (\<lambda>r.
               bnd (case r of None \<Rightarrow> ret hits
                  | Some (flags, trx, old) \<Rightarrow> bnd (make_hit xu (TI_GetRID it) flags trx old tp) (\<lambda>h. ret (hits @ [h]))) (\<lambda>hits'.
               bnd (in_store (TI_next fuel it)) (\<lambda>it'. collect_hits D fuel n ctx (xu\<lparr>xu_iterator := Some it'\<rparr>) hits'))))"

text \<open>\<^verbatim>\<open>items_[table_id]\<close>: an unknown table gets an item of zeros.\<close>

definition item_at :: "entry_id \<Rightarrow> (Store, MetaItem) comp" where
  "item_at t = bnd (gets (mp_item t)) (\<lambda>r. case r of Some it \<Rightarrow> ret it
     | None \<Rightarrow> (let it = \<lparr>mi_first = 0, mi_name = [], mi_rows = 0, mi_id = 0, mi_last = 0, mi_offset = 0, mi_items = []\<rparr> in
         thn (set_item t it) (ret it)))"

text \<open>The result of \<^verbatim>\<open>InsertTuple\<close> is not looked at: a record that does not fit is logged at page 0, row 0.\<close>

definition InsertNewVersion :: "ExecutorContext \<Rightarrow> entry_id \<Rightarrow> Tuple \<Rightarrow> (DB, RID) comp" where
  "InsertNewVersion ctx table t = bnd (in_store (item_at table)) (\<lambda>it. bnd (open_last_page table it) (\<lambda>(f, rd).
     bnd (in_store (TablePage_new table f rd)) (\<lambda>tp. bnd (page_with_space table t tp) (\<lambda>tp1.
     bnd (in_store (TP_InsertTuple t tp1)) (\<lambda>(tp2, r).
     (let rid = (case r of Some rid \<Rightarrow> rid | None \<Rightarrow> \<lparr>rid_page = 0, rid_row = 0\<rparr>) in
      bnd (log_insert ctx table rid t tp2) (\<lambda>tp3. thn (release_page (tp_frame tp3)) (ret rid))))))))"

definition mark_old_version :: "ExecutorContext \<Rightarrow> entry_id \<Rightarrow> RID \<Rightarrow> UndoPointer \<Rightarrow> (DB, unit) comp" where
  "mark_old_version ctx table rid ptr = bnd (in_pool (BM_FetchPage (rid_page rid))) (\<lambda>f.
     bnd (in_store (TablePage_new table f True)) (\<lambda>tp. thn (log_delete ctx table rid ptr tp)
     (thn (flush_page f) (release_page f))))"

definition update_row :: "ExecutorContext \<Rightarrow> entry_id \<Rightarrow> Schema \<Rightarrow> Hit \<Rightarrow> (DB, unit) comp" where
  "update_row ctx table sch h =
     bnd (append_undo ctx (Tuple_new\<lparr>t_data := Some (hit_old_bytes h), t_size := word_of_nat (length (hit_old_bytes h))\<rparr>)
            (hit_old_trx h) (hit_old_roll_ptr h)) (\<lambda>ptr.
     bnd (of_res (Row_Serialize sch \<lparr>rh_trx_id = cur_txn ctx, rh_roll_ptr = ptr, rh_flags = 0\<rparr> (hit_new_values h))) (\<lambda>(d, n).
     thn (mark_old_version ctx table (hit_rid h) ptr)
     (thn (record_write ctx \<lparr>wr_rid = hit_rid h, wr_type = W_UPDATE_DELETE_OLD, wr_table_id = table, wr_prev_trx_id = hit_old_trx h,
             wr_prev_roll_ptr = hit_old_roll_ptr h, wr_prev_flags = hit_old_flags h\<rparr>)
     (bnd (InsertNewVersion ctx table (Tuple_new\<lparr>t_data := Some d, t_size := word_of_nat n, t_schema := sch\<rparr>)) (\<lambda>rid.
      record_write ctx (WriteRecord_new rid W_UPDATE_INSERT_NEW table))))))"

definition XU_Next :: "DoubleOps \<Rightarrow> nat \<Rightarrow> ExecutorContext \<Rightarrow> ExecutorUpdate \<Rightarrow> (DB, ExecutorUpdate) comp" where
  "XU_Next D fuel ctx xu = (if xu_done xu then ret xu
     else bnd (collect_hits D fuel fuel ctx xu []) (\<lambda>(xu', hits).
       thn (for_each hits (update_row ctx (xu_table xu) (xu_schema xu)))
       (ret (xu'\<lparr>xu_done := True, xu_count := xu_count xu' + word_of_nat (length hits)\<rparr>))))"

definition XU_Close :: "ExecutorUpdate \<Rightarrow> ExecutorUpdate" where
  "XU_Close xu = xu\<lparr>xu_iterator := None\<rparr>"

section \<open>CREATE TABLE\<close>

definition XC_Next :: "entry_id \<Rightarrow> (DB, unit) comp" where
  "XC_Next table = bnd (gets db_catalog) (\<lambda>c. case cat_tables c table of
     None \<Rightarrow> throw (RuntimeError ''ExecutorCreateTable::Next create of table don`t exist in the catalog.'')
   | Some None \<Rightarrow> throw MemoryFault
   | Some (Some te) \<Rightarrow> in_store (MP_AddTable (item_of_entry te)))"

section \<open>Logging and flushing a table page\<close>

definition data_record :: "lsn_t \<Rightarrow> ExecutorContext \<Rightarrow> LogRecordType \<Rightarrow> entry_id \<Rightarrow> RID \<Rightarrow> bytes \<Rightarrow> RecoveredLog" where
  "data_record l ctx ty table rid img = \<lparr>rl_lsn = l, rl_tx_id = cur_txn ctx, rl_type = LogRecordType_code ty,
     rl_payload = LogDataPayload_Encode \<lparr>lp_table = table, lp_page = rid_page rid, lp_row = rid_row rid, lp_image = img\<rparr>\<rparr>"

lemma LogDataChange_run:
  assumes "ctx_log ctx" "db_log_holds d logs" "49 + length img \<le> lb_capacity (lm_buffer (db_log d))"
  obtains l where "LogDataChange ctx ty table rid img d = (Inr (lm_next_lsn (db_log d)), d\<lparr>db_log := l\<rparr>)"
    "db_log_holds (d\<lparr>db_log := l\<rparr>) (logs @ [data_record (lm_next_lsn (db_log d)) ctx ty table rid img])"
    "lm_next_lsn l = lm_next_lsn (db_log d) + 1" "lb_capacity (lm_buffer l) = lb_capacity (lm_buffer (db_log d))"
proof -
  let ?m = "db_log d" and ?enc = "LogDataPayload_Encode \<lparr>lp_table = table, lp_page = rid_page rid, lp_row = rid_row rid, lp_image = img\<rparr>"
  let ?r = "\<lparr>lr_tx_id = cur_txn ctx, lr_type = ty, lr_payload_size = word_of_nat (length ?enc), lr_payload = Some ?enc\<rparr>"
  note h = assms(2) [unfolded db_log_holds_def]
  have n: "length ?enc = 28 + length img" by (simp add: LogDataPayload_Encode_def)
  have "length ?enc < 2 ^ 32" using assms(3) h n by simp
  then have u: "unat (word_of_nat (length ?enc) :: u32) = length ?enc" by (simp only: unsigned_of_nat) (simp add: take_bit_nat_eq_self_iff)
  then have w: "well_sized (lb_capacity (lm_buffer ?m)) ?r" using assms(3) n by (simp add: well_sized_def)
  obtain b where b: "AppendLogRecord ?r ?m = (Inr (lm_next_lsn ?m), \<lparr>lm_buffer = b, lm_next_lsn = lm_next_lsn ?m + 1\<rparr>)" "lb_ok b"
    "lb_stream b = lb_stream (lm_buffer ?m) @ encode_record (recovered (lm_next_lsn ?m) ?r)" "lb_capacity b = lb_capacity (lm_buffer ?m)"
    using AppendLogRecord_run [of ?m ?r] h w by blast
  have p: "recovered (lm_next_lsn ?m) ?r = data_record (lm_next_lsn ?m) ctx ty table rid img"
    using u n by (simp add: recovered_def data_record_def payload_of_def peek_0_all)
  have "LogDataChange ctx ty table rid img d = (Inr (lm_next_lsn ?m), d\<lparr>db_log := \<lparr>lm_buffer = b, lm_next_lsn = lm_next_lsn ?m + 1\<rparr>\<rparr>)"
    using assms(1) b(1) by (simp add: LogDataChange_def in_log_def comp_simps Let_def)
  then show ?thesis using that b(2-4) h p small_recovered [OF w, of "lm_next_lsn ?m"] by (simp add: db_log_holds_def)
qed

lemma page_layout_lsn:
  assumes "page_layout tp rs d"
  shows "page_layout (tp\<lparr>tp_lsn := l\<rparr>) rs (poke 0 (tp_header (tp\<lparr>tp_lsn := l\<rparr>)) d)"
  using assms unfolding page_layout_def by (auto intro!: holds_at_poke_same holds_at_poke_disjoint)

lemma SetLsn_run:
  assumes "table_ok tp s its rs"
  obtains u where "TP_SetLsn l tp s = (Inr (tp\<lparr>tp_lsn := l\<rparr>), u)" "table_ok (tp\<lparr>tp_lsn := l\<rparr>) u its rs"
    "pg_dirty (frame_of (tp_frame tp) (st_bm u))" "keeps {tp_page_id tp} s u"
proof -
  let ?tp = "tp\<lparr>tp_lsn := l\<rparr>"
  let ?s = "tput (tp_frame tp) (poke 0 (tp_header ?tp) (tdata (tp_frame tp) s)) s"
  note ok = table_okD [OF assms]
  note p = table_ok_tput [OF assms page_layout_lsn [OF ok(4)], of l] and q = table_ok_tdirty
  have t: "table_ok ?tp ?s its rs" "keeps {tp_page_id tp} s ?s" using p by simp_all
  have "TP_SetLsn l tp s = (Inr ?tp, tdirty (tp_frame tp) ?s)"
    using WriteHeader_run [of "tp_page_id tp" ?tp s] ok(1) by (simp add: TP_SetLsn_def Let_def comp_simps)
  then show ?thesis using that [of "tdirty (tp_frame tp) ?s"] q [OF t(1)] keeps_trans [OF t(2), of "{tp_page_id tp}"] by simp
qed

lemma on_frame_dirty_same:
  assumes "pg_dirty (frame_of f b)"
  shows "on_frame f (\<lambda>p. p\<lparr>pg_dirty := True\<rparr>) b = b"
proof -
  have "(frame_of f b)\<lparr>pg_dirty := True\<rparr> = frame_of f b" using assms by (cases "frame_of f b") simp
  then show ?thesis by (simp add: on_frame_def set_frame_def) (simp add: frame_of_def)
qed

text \<open>Flushing a changed table page: the page file then holds the records.\<close>

definition on_disk :: "TablePage \<Rightarrow> BufferManager \<Rightarrow> bytes list \<Rightarrow> bool" where
  "on_disk tp b rs \<longleftrightarrow> (\<exists>bs. stored (bm_disk b) (tp_page_id tp) = Some bs \<and> page_layout tp rs bs)"

lemma flush_page_run:
  assumes "table_ok tp (db_store d) its rs" "pg_dirty (frame_of (tp_frame tp) (db_bm d))"
  obtains c where "flush_page (tp_frame tp) d = (Inr (), with_bm c d)" "table_ok tp (db_store (with_bm c d)) its rs" "on_disk tp c rs"
    "keeps {tp_page_id tp} (db_store d) (db_store (with_bm c d))" "backed c (tp_page_id tp)"
proof -
  let ?f = "tp_frame tp" and ?c = "flushed (tp_frame tp) (db_bm d)"
  note ok = table_okD [OF assms(1)]
  note fl = flushed_facts [OF ok(1)]
  have t: "tab_only ?f (db_store d) ((db_store d)\<lparr>st_bm := ?c\<rparr>)" using fl(1) by (simp add: tab_only_def)
  have "BM_Flush (tp_page_id tp) (db_bm d) = (Inr (), ?c)" using flush_run [OF ok(1)] on_frame_dirty_same [OF assms(2)] by simp
  then have "flush_page ?f d = (Inr (), with_bm ?c d)"
    using heldD(6) [OF ok(1)] by (simp add: flush_page_def page_id_of_def in_pool_def in_store_def comp_simps)
  moreover have "table_ok tp ((db_store d)\<lparr>st_bm := ?c\<rparr>) its rs"
    using ok fl(2) only_frame_held [OF fl(1) ok(1)] meta_rep_tab_only [OF ok(2) t ok(6)] by (simp add: table_ok_def)
  moreover have "on_disk tp ?c rs" using fl(3) ok(4) by (auto simp: on_disk_def)
  moreover have "backed ?c (tp_page_id tp)"
    using fl(2,3) heldD(2) [OF only_frame_held [OF fl(1) ok(1)]] by (simp add: backed_def fdata_def)
  ultimately show ?thesis using that [of ?c] tab_only_keeps [OF t ok(1)] by simp
qed

lemma tuple_image_holds: "tuple_holds t r \<Longrightarrow> tuple_image t = Inr r"
  by (auto simp: tuple_image_def tuple_holds_def peek_0_all)

lemma log_insert_run:
  assumes "table_ok tp (db_store d) its rs" "tuple_holds t r" "ctx_log ctx" "db_log_holds d logs" "49 + length r \<le> lb_capacity (lm_buffer (db_log d))"
    and "lm_next_lsn (db_log d) \<noteq> 0"
  obtains e where "log_insert ctx table rid t tp d = (Inr (tp\<lparr>tp_lsn := lm_next_lsn (db_log d)\<rparr>), e)"
    "table_ok (tp\<lparr>tp_lsn := lm_next_lsn (db_log d)\<rparr>) (db_store e) its rs" "on_disk (tp\<lparr>tp_lsn := lm_next_lsn (db_log d)\<rparr>) (db_bm e) rs"
    "keeps {tp_page_id tp} (db_store d) (db_store e)" "db_txn e = db_txn d" "db_catalog e = db_catalog d"
    "db_log_holds e (logs @ [data_record (lm_next_lsn (db_log d)) ctx LR_INSERT_ROW table rid r])" "backed (db_bm e) (tp_page_id tp)"
    "lm_next_lsn (db_log e) = lm_next_lsn (db_log d) + 1" "lb_capacity (lm_buffer (db_log e)) = lb_capacity (lm_buffer (db_log d))" "db_undo_page e = db_undo_page d"
proof -
  let ?l = "lm_next_lsn (db_log d)"
  let ?tp = "tp\<lparr>tp_lsn := ?l\<rparr>"
  obtain l where l: "LogDataChange ctx LR_INSERT_ROW table rid r d = (Inr ?l, d\<lparr>db_log := l\<rparr>)"
    "db_log_holds (d\<lparr>db_log := l\<rparr>) (logs @ [data_record ?l ctx LR_INSERT_ROW table rid r])"
    "lm_next_lsn l = lm_next_lsn (db_log d) + 1" "lb_capacity (lm_buffer l) = lb_capacity (lm_buffer (db_log d))" by (rule LogDataChange_run [OF assms(3-5)])
  obtain u where u: "TP_SetLsn ?l tp (db_store d) = (Inr ?tp, u)" "table_ok ?tp u its rs" "pg_dirty (frame_of (tp_frame tp) (st_bm u))"
    "keeps {tp_page_id tp} (db_store d) u" by (rule SetLsn_run [OF assms(1)])
  let ?d = "d\<lparr>db_log := l, db_store := u\<rparr>"
  obtain c where c: "flush_page (tp_frame ?tp) ?d = (Inr (), with_bm c ?d)" "table_ok ?tp (db_store (with_bm c ?d)) its rs" "on_disk ?tp c rs"
    "keeps {tp_page_id ?tp} (db_store ?d) (db_store (with_bm c ?d))" "backed c (tp_page_id ?tp)" by (rule flush_page_run [of ?tp ?d its rs]) (use u(2,3) in simp_all)
  have "log_insert ctx table rid t tp d = (Inr ?tp, with_bm c ?d)"
    using l(1) u(1) c(1) assms(6) by (simp add: log_insert_def set_lsn_def tuple_image_holds [OF assms(2)] in_store_def comp_simps)
  moreover have "keeps {tp_page_id tp} (db_store d) (u\<lparr>st_bm := c\<rparr>)" using keeps_trans [OF u(4)] c(4) by simp
  ultimately show ?thesis using that c(2,3,5) l(2-4) by (simp add: db_log_holds_def)
qed

lemma record_write_run: "ctx_txn ctx = Some i \<Longrightarrow> record_write ctx w d = (Inr (), d\<lparr>db_txn := push_write i w (db_txn d)\<rparr>)"
  by (simp add: record_write_def on_txn_def comp_simps)

lemma push_write_set: "tx_write_set (txn_of (push_write i w s) i) = tx_write_set (txn_of s i) @ [w]"
  by (simp add: push_write_def update_txn_def txn_of_def)

section \<open>What an insert does\<close>

text \<open>Inserting a record into a table page with room for it: the record becomes the last one of the page, in memory and in the page file; the
  row count of the table grows by one; the log gains one record with the transaction, the place and the bytes of the row, whose number is noted in the page; the
  write set of the transaction gains the entry that lets a rollback remove the row; and all other pages but the catalog page keep their contents.
\<close>

lemma insert_appends_and_logs:
  assumes "table_ok tp (db_store d) its rs" "tuple_holds t r" "length r + 4 \<le> unat (tp_free tp)" "ctx_txn ctx = Some i" "ctx_log ctx"
    and "db_log_holds d logs" "49 + length r \<le> lb_capacity (lm_buffer (db_log d))" "lm_next_lsn (db_log d) \<noteq> 0"
  shows "\<exists>tp' d'. insert_tuple ctx (tp_table tp) t tp d = (Inr tp', d') \<and> table_ok tp' (db_store d') (add_rows (tp_table tp) 1 its) (rs @ [r]) \<and>
    on_disk tp' (db_bm d') (rs @ [r]) \<and> tp_lsn tp' = lm_next_lsn (db_log d) \<and> tp_page_id tp' = tp_page_id tp \<and>
    (let rid = \<lparr>rid_page = tp_page_id tp, rid_row = word_of_nat (Suc (length rs))\<rparr> in
       db_log_holds d' (logs @ [data_record (lm_next_lsn (db_log d)) ctx LR_INSERT_ROW (tp_table tp) rid r]) \<and>
       tx_write_set (txn_of (db_txn d') i) = tx_write_set (txn_of (db_txn d) i) @ [WriteRecord_new rid W_INSERT (tp_table tp)]) \<and>
    keeps {META_PAGE_ID, tp_page_id tp} (db_store d) (db_store d')"
proof -
  let ?rid = "\<lparr>rid_page = tp_page_id tp, rid_row = word_of_nat (Suc (length rs))\<rparr>" and ?its = "add_rows (tp_table tp) 1 its"
  obtain u where u: "TP_InsertTuple t tp (db_store d) = (Inr (inserted t tp, Some ?rid), u)" "table_ok (inserted t tp) u ?its (rs @ [r])"
    "keeps {META_PAGE_ID, tp_page_id tp} (db_store d) u" using InsertTuple_run [OF assms(1-3)] by blast
  let ?d = "d\<lparr>db_store := u\<rparr>" and ?tp = "(inserted t tp)\<lparr>tp_lsn := lm_next_lsn (db_log d)\<rparr>"
  have same: "tp_page_id (inserted t tp) = tp_page_id tp" by (simp add: inserted_def)
  have lg: "db_log_holds ?d logs" using assms(6) by (simp add: db_log_holds_def)
  obtain e where e: "log_insert ctx (tp_table tp) ?rid t (inserted t tp) ?d = (Inr ?tp, e)" "table_ok ?tp (db_store e) ?its (rs @ [r])"
    "on_disk ?tp (db_bm e) (rs @ [r])" "keeps {tp_page_id tp} u (db_store e)" "db_txn e = db_txn d"
    "db_log_holds e (logs @ [data_record (lm_next_lsn (db_log d)) ctx LR_INSERT_ROW (tp_table tp) ?rid r])"
    by (rule log_insert_run [of "inserted t tp" ?d ?its "rs @ [r]" t r ctx logs "tp_table tp" ?rid])
      (use u(2) assms(2,5,7,8) lg same in simp_all)
  let ?w = "WriteRecord_new ?rid W_INSERT (tp_table tp)"
  have "TP_HasSpaceFor (t_size t) tp" using assms(2,3) by (simp add: TP_HasSpaceFor_def tuple_holds_def)
  then have "insert_tuple ctx (tp_table tp) t tp d = (Inr ?tp, e\<lparr>db_txn := push_write i ?w (db_txn d)\<rparr>)"
    using u(1) e(1,5) by (simp add: insert_tuple_def page_with_space_def in_store_def comp_simps record_write_run [OF assms(4)])
  moreover have "keeps {META_PAGE_ID, tp_page_id tp} (db_store d) (db_store e)" by (rule keeps_trans [OF u(3) e(4)]) simp_all
  ultimately show ?thesis
    using e(2,3,6) same by (intro exI [of _ ?tp] exI [of _ "e\<lparr>db_txn := push_write i ?w (db_txn d)\<rparr>"]) (simp add: Let_def push_write_set db_log_holds_def)
qed

lemma demo_db_with_log: "db_log_holds (demo_db\<lparr>db_store := s\<rparr>) []" "lb_capacity (lm_buffer (db_log demo_db)) = 8192"
  using demo_db_log(1) by (simp_all add: db_log_holds_def demo_db_def LogManager_new_def LogBuffer_new_def)

lemma insert_appends_and_logs_witness:
  "\<exists>tp d tp' d'. insert_tuple reader 1 (raw_tuple [7]) tp d = (Inr tp', d') \<and> table_ok tp' (db_store d') (add_rows 1 1 [demo_item]) [[7]] \<and>
     on_disk tp' (db_bm d') [[7]]"
proof -
  obtain tp s where p: "table_ok tp s [demo_item] []" "unat (tp_free tp) = 4064" "tp_table tp = 1" using demo_page by blast
  have t: "tuple_holds (raw_tuple [7]) [7]" by (simp add: tuple_holds_def raw_tuple_def)
  from insert_appends_and_logs [of tp "demo_db\<lparr>db_store := s\<rparr>" "[demo_item]" "[]", OF _ t _ _ _ demo_db_with_log(1), of reader 1]
  show ?thesis using p demo_db_with_log(2) demo_db_log(4) by auto
qed

section \<open>Write conflicts\<close>

text \<open>What a snapshot sees was committed when it was taken, so its writer is not running any more.\<close>

lemma seen_writer_finished:
  assumes "tm_run m TransactionManager_new s" "tm_run n s t" "m + n + 1 < 2 ^ 64" "IsVisible t (CreateReadView i s) x" "x \<noteq> 0" "x \<noteq> i"
  shows "tm_state t x = Some COMMITTED"
proof -
  have one: "unat (tm_next TransactionManager_new) = 1" by (simp add: TransactionManager_new_def)
  have s: "tm_inv s" using tm_run_inv [OF assms(1) tm_inv_new] assms(3) one by simp
  have "unat (tm_next s) + n < 2 ^ 64" using tm_run_next [OF assms(1)] assms(3) one by simp
  note fin = final_run [OF assms(2) s this]
  have "TM_IsCommitted s x" using visible_later [OF s, of t i x] fin assms(4-6) by blast
  then show ?thesis using fin [of x] by (simp add: TM_IsCommitted_def known_final_def)
qed

lemma WX_IsVisible_view:
  assumes "ctx_txn ctx = Some i" "tx_read_view (txn_of (db_txn d) i) = Some v" "tx_id (txn_of (db_txn d) i) = i"
  shows "WX_IsVisible ctx x d \<longleftrightarrow> x = 0 \<or> x = i \<or> IsVisible (db_txn d) v x"
  using assms by (auto simp: WX_IsVisible_def ctx_transaction_def)

lemma header_reads:
  assumes "theld pid (tp_frame tp) s" "page_layout tp rs (tdata (tp_frame tp) s)" "k < length rs" "unat (rid_row rid) = Suc k" "22 \<le> length (rs ! k)"
  shows "TP_ReadRecordFlags rid tp s = (Inr (rh_flags (read_header (rs ! k))), s)"
    "TP_ReadRecordTrxId rid tp s = (Inr (rh_trx_id (read_header (rs ! k))), s)"
    "TP_ReadRecordRollPtr rid tp s = (Inr (rh_roll_ptr (read_header (rs ! k))), s)"
proof -
  note r = record_reads [OF assms]
  show "TP_ReadRecordFlags rid tp s = (Inr (rh_flags (read_header (rs ! k))), s)"
    "TP_ReadRecordTrxId rid tp s = (Inr (rh_trx_id (read_header (rs ! k))), s)"
    "TP_ReadRecordRollPtr rid tp s = (Inr (rh_roll_ptr (read_header (rs ! k))), s)"
    using r(2-6) r(7) [unfolded add.commute [of "rec_off rs k"]] by (simp_all add: TP_ReadRecordFlags_def TP_ReadRecordTrxId_def TP_ReadRecordRollPtr_def Let_def comp_simps)
qed

text \<open>A version the snapshot sees is free of conflicts.\<close>

lemma visible_writer_passes:
  assumes "tm_run m TransactionManager_new s" "tm_run n s (db_txn d)" "m + n + 1 < 2 ^ 64"
    and "ctx_txn ctx = Some i" "i \<in> set (tm_active (db_txn d))" "tx_read_view (txn_of (db_txn d) i) = Some (CreateReadView i s)"
  shows "tm_inv (db_txn d)" "WX_IsVisible ctx x d \<longleftrightarrow> x = 0 \<or> x = i \<or> IsVisible (db_txn d) (CreateReadView i s) x"
    "WX_IsVisible ctx x d \<Longrightarrow> conflict_check ctx x d = (Inr (), d)"
proof -
  have one: "unat (tm_next TransactionManager_new) = 1" by (simp add: TransactionManager_new_def)
  have "unat (tm_next s) + n < 2 ^ 64" using tm_run_next [OF assms(1)] assms(3) one by simp
  moreover have "tm_inv s" using tm_run_inv [OF assms(1) tm_inv_new] assms(3) one by simp
  ultimately show inv: "tm_inv (db_txn d)" using tm_run_inv [OF assms(2)] by blast
  have own: "tx_id (txn_of (db_txn d) i) = i" using tm_inv_obj [OF inv assms(5)] by simp
  show vis: "WX_IsVisible ctx x d \<longleftrightarrow> x = 0 \<or> x = i \<or> IsVisible (db_txn d) (CreateReadView i s) x"
    by (rule WX_IsVisible_view [OF assms(4,6) own])
  show "conflict_check ctx x d = (Inr (), d)" if "WX_IsVisible ctx x d"
    using that vis seen_writer_finished [OF assms(1-3), of i x] assms(4) by (auto simp: conflict_check_def cur_txn_def comp_simps TM_GetState_def)
qed

text \<open>C36.
  The check for write-write conflicts of DELETE and UPDATE never fires.  For a transaction working on a snapshot, in every reachable state of the transaction
  manager: the check passes for every writer whose version the snapshot sees, and it is only made for such; a row last written by another running transaction is
  passed over silently instead of being reported as a conflict.
\<close>

theorem write_conflict_never_raised:
  assumes "tm_run m TransactionManager_new s" "tm_run n s (db_txn d)" "m + n + 1 < 2 ^ 64"
    and "ctx_txn ctx = Some i" "i \<in> set (tm_active (db_txn d))" "tx_read_view (txn_of (db_txn d) i) = Some (CreateReadView i s)"
    and "table_row tp (db_store d) its rs (TI_GetRID it) k"
  shows "(WX_IsVisible ctx x d \<longrightarrow> conflict_check ctx x d = (Inr (), d)) \<and>
    (let y = rh_trx_id (read_header (rs ! k)) in
     y \<noteq> i \<and> TM_GetState (db_txn d) y = Some IN_PROGRESS \<longrightarrow> target_row D ctx flt it tp d = (Inr None, d))"
proof -
  note v = visible_writer_passes [OF assms(1-6)] and fin = seen_writer_finished [OF assms(1-3), of i]
  have zero: "tm_state (db_txn d) 0 = None" using v(1) by (simp add: tm_inv_def)
  have row: "k < length rs" "unat (rid_row (TI_GetRID it)) = Suc k" "22 \<le> length (rs ! k)" "table_ok tp (db_store d) its rs" using assms(7) by (simp_all add: table_row_def)
  note rd = header_reads [OF table_okD(1,4) [OF row(4)] row(1-3)]
  have "target_row D ctx flt it tp d = (Inr None, d)"
    if "y = rh_trx_id (read_header (rs ! k))" "y \<noteq> i" "TM_GetState (db_txn d) y = Some IN_PROGRESS" for y
  proof -
    have "y \<noteq> 0" using that(3) zero by (auto simp: TM_GetState_def)
    then have "\<not> WX_IsVisible ctx y d" using v(2) [of y] fin [of y] that(2,3) by (auto simp: TM_GetState_def)
    then show ?thesis using rd that(1) by (simp add: target_row_def Let_def in_store_def comp_simps)
  qed
  then show ?thesis using v(3) by (simp add: Let_def)
qed

text \<open>A page with a row of transaction 2 under transaction 1, which began first.\<close>

definition demo_writers :: TransactionManager where
  "demo_writers = snd (begin_register (take_view 1 (snd (begin_register TransactionManager_new))))"

definition written_by_2 :: bytes where
  "written_by_2 = with_header \<lparr>rh_trx_id = 2, rh_roll_ptr = null_ptr, rh_flags = 0\<rparr> (replicate 24 0)"

lemma demo_writers_run: "tm_run 1 (snd (begin_register TransactionManager_new)) demo_writers"
proof -
  let ?s = "snd (begin_register TransactionManager_new)"
  have n: "tm_next ?s = 2" "1 \<in> set (tm_active ?s)" by (simp_all add: begin_register_def GetNextTxId_def TransactionManager_new_def)
  then have "tm_run 0 ?s (take_view 1 ?s)" using run_step [OF run_refl takes_view [OF n(2)]] by (simp add: take_view_def)
  from tm_run_register [OF this] show ?thesis by (simp add: demo_writers_def take_view_def n)
qed

lemma write_conflict_never_raised_witness:
  "\<exists>tp d it. TM_GetState (db_txn d) 2 = Some IN_PROGRESS \<and> target_row demo_doubles reader None it tp d = (Inr None, d)"
proof -
  obtain tp s where p: "table_ok tp s [demo_item] []" "unat (tp_free tp) = 4064" "tp_table tp = 1" using demo_page by blast
  have l: "length written_by_2 = 24" by (simp add: written_by_2_def)
  then have t: "tuple_holds (raw_tuple written_by_2) written_by_2" "length written_by_2 + SLOT_SIZE \<le> unat (tp_free tp)"
    by (simp_all add: tuple_holds_def raw_tuple_def p(2))
  obtain u tp' where u: "table_ok tp' u (add_rows 1 1 [demo_item]) ([] @ [written_by_2])" using InsertTuple_run [OF p(1) t] p(3) by metis
  let ?d = "demo_db\<lparr>db_store := u, db_txn := demo_writers\<rparr>" and ?it = "TableIterator_end"
  have row: "table_row tp' (db_store ?d) (add_rows 1 1 [demo_item]) [written_by_2] (TI_GetRID ?it) 0"
    using u l by (simp add: table_row_def TI_GetRID_def TableIterator_end_def)
  have h: "rh_trx_id (read_header ([written_by_2] ! 0)) = 2" by (simp add: written_by_2_def read_with_header)
  have w: "1 \<in> set (tm_active demo_writers)" "tm_state demo_writers 2 = Some IN_PROGRESS"
    "tx_read_view (txn_of demo_writers 1) = Some (CreateReadView 1 (snd (begin_register TransactionManager_new)))"
    by (simp_all add: demo_writers_def begin_register_def GetNextTxId_def TransactionManager_new_def take_view_def txn_of_def update_txn_def)
  have r0: "tm_run 1 TransactionManager_new (snd (begin_register TransactionManager_new))"
    using tm_run_register [OF run_refl, of TransactionManager_new] by (simp add: TransactionManager_new_def)
  show ?thesis
    using write_conflict_never_raised [OF r0 _ _ _ _ _ row, of 1 reader 1 0 demo_doubles None] demo_writers_run w h
    by (intro exI [of _ tp'] exI [of _ ?d] exI [of _ ?it]) (simp add: TM_GetState_def)
qed

end
