(* ===== verification/Sql_Front.thy ===== *)
theory Sql_Front
  imports Expressions Schema_Catalog
begin

text \<open>
  The SQL front end: the transformer from the syntax tree of the SQL parser to statements (\<^verbatim>\<open>parser/\<close>), the binder
  (\<^verbatim>\<open>binder/\<close>) and the planner (\<^verbatim>\<open>planner/\<close>).  The parser itself (\<^verbatim>\<open>third_party/sql-parser\<close>) is a library; its tree is modelled by
  the fields the transformer reads, a null pointer being \<open>None\<close>.  Shown: a condition that gets through the three
  stages means what it says in the syntax tree, evaluated by column names; and where the stages go wrong.
\<close>

section \<open>The syntax tree of the parser\<close>

datatype ExprType = kExprLiteralFloat | kExprLiteralString | kExprLiteralInt | kExprLiteralNull | kExprLiteralDate
  | kExprLiteralInterval | kExprStar | kExprParameter | kExprColumnRef | kExprFunctionRef | kExprOperator | kExprSelect
  | kExprHint | kExprArray | kExprArrayIndex | kExprExtract | kExprCast

datatype OperatorType = kOpNone | kOpBetween | kOpCase | kOpCaseListElement | kOpPlus | kOpMinus | kOpAsterisk | kOpSlash
  | kOpPercentage | kOpCaret | kOpEquals | kOpNotEquals | kOpLess | kOpLessEq | kOpGreater | kOpGreaterEq | kOpLike | kOpNotLike
  | kOpILike | kOpAnd | kOpOr | kOpIn | kOpConcat | kOpNot | kOpUnaryMinus | kOpIsNull | kOpExists

datatype hExpr = HExpr (he_type: ExprType) (he_name: "string option") (he_alias: "string option") (he_ival: u64) (he_fval: u64)
  (he_op: OperatorType) (he_expr: "hExpr option") (he_expr2: "hExpr option")

datatype hDataType = DT_INT | DT_VARCHAR | DT_OTHER

datatype hTransactionCommand = kBeginTransaction | kCommitTransaction | kRollbackTransaction

datatype hTableRef = kTableName "string option" | kTableOther

datatype hStatement =
    kStmtSelect "hExpr list" "hTableRef option" "hExpr option"
  | kStmtInsert string "string list option" "hExpr list option"
  | kStmtCreateTable string "(string \<times> hDataType \<times> bool) list option"
  | kStmtCreateOther
  | kStmtDelete "string option" "hExpr option"
  | kStmtUpdate "string option" "(string option \<times> hExpr) list" "hExpr option"
  | kStmtTransaction hTransactionCommand
  | kStmtOther

section \<open>Statements\<close>

datatype BaseExpression =
    EStar
  | EColumn string string
  | EConst ColumnTypes Value
  | EBinary BinaryOp "BaseExpression option" "BaseExpression option"

datatype TxnCommand = TXN_BEGIN | TXN_COMMIT | TXN_ROLLBACK

record SqlColumn =
  col_name :: string
  col_type :: ColumnTypes
  col_not_null :: bool

datatype BaseStatement =
    SelectStatement "BaseExpression list" "string option" "BaseExpression option"
  | InsertStatement string "string list" "Value list"
  | CreateTableStatement string "SqlColumn list"
  | DeleteStatement string "BaseExpression option"
  | UpdateStatement string "(string \<times> Value) list" "BaseExpression option"
  | TransactionStatement TxnCommand

section \<open>The transformer\<close>

fun transformOperatorType :: "OperatorType \<Rightarrow> BinaryOp res" where
  "transformOperatorType kOpPlus = Inr OP_ADD"
| "transformOperatorType kOpMinus = Inr OP_SUB"
| "transformOperatorType kOpAsterisk = Inr OP_MU"
| "transformOperatorType kOpSlash = Inr OP_DE"
| "transformOperatorType kOpEquals = Inr OP_EQ"
| "transformOperatorType kOpNotEquals = Inr OP_NEQ"
| "transformOperatorType kOpLess = Inr OP_LT"
| "transformOperatorType kOpLessEq = Inr OP_LTE"
| "transformOperatorType kOpGreater = Inr OP_GT"
| "transformOperatorType kOpGreaterEq = Inr OP_GTE"
| "transformOperatorType kOpLike = Inr OP_LIKE"
| "transformOperatorType kOpNotLike = Inr OP_NLIKE"
| "transformOperatorType kOpAnd = Inr OP_AND"
| "transformOperatorType kOpOr = Inr OP_OR"
| "transformOperatorType kOpIn = Inr OP_IN"
| "transformOperatorType kOpConcat = Inr OP_CANCAT"
| "transformOperatorType _ = Inl (InvalidArgument ''Invalid Operator Binary Type'')"

text \<open>The operators \<^verbatim>\<open>transformBinaryOperator\<close> lists, and those \<^verbatim>\<open>transformOperator\<close> sends there.\<close>

definition binary_listed :: "OperatorType \<Rightarrow> bool" where
  "binary_listed k \<longleftrightarrow> k \<in> {kOpMinus, kOpAsterisk, kOpSlash, kOpOr, kOpAnd, kOpLike, kOpNotLike, kOpIn, kOpLess, kOpLessEq,
     kOpGreater, kOpGreaterEq, kOpEquals, kOpNotEquals, kOpNot, kOpPlus}"

definition operator_listed :: "OperatorType \<Rightarrow> bool" where
  "operator_listed k \<longleftrightarrow> binary_listed k \<or> k = kOpConcat"

text \<open>A \<^verbatim>\<open>std::string\<close> made of a null pointer.\<close>

definition str_of :: "string option \<Rightarrow> string res" where
  "str_of s = (case s of None \<Rightarrow> Inl MemoryFault | Some n \<Rightarrow> Inr n)"

definition str_or_empty :: "string option \<Rightarrow> string" where
  "str_or_empty s = (case s of None \<Rightarrow> [] | Some n \<Rightarrow> n)"

definition transformColumnExpr :: "hExpr \<Rightarrow> BaseExpression res" where
  "transformColumnExpr e = (case str_of (he_name e) of Inl x \<Rightarrow> Inl x | Inr n \<Rightarrow> Inr (EColumn n (str_or_empty (he_alias e))))"

definition transformConstExpr :: "ColumnTypes \<Rightarrow> Value \<Rightarrow> BaseExpression" where
  "transformConstExpr t v = EConst t v"

text \<open>\<^verbatim>\<open>static_cast<int>\<close> of a 64-bit literal keeps the low 32 bits.\<close>

definition int_literal :: "u64 \<Rightarrow> Value" where
  "int_literal i = Value_of (VInt (ucast i))"

text \<open>
  \<^verbatim>\<open>transformWhere\<close> with \<^verbatim>\<open>transformOperator\<close>, \<^verbatim>\<open>transformBinaryOperator\<close> and \<^verbatim>\<open>transformUnaryOperator\<close> (reached for \<^verbatim>\<open>IS NULL\<close> only,
  where it throws).
\<close>

fun transformWhere :: "hExpr option \<Rightarrow> BaseExpression option res" where
  "transformWhere None = Inr None"
| "transformWhere (Some (HExpr ty n al i fl k l r)) =
     (case ty of
        kExprOperator \<Rightarrow>
          (if k = kOpIsNull then Inl (InvalidArgument ''[Transform]Invalid Unary Operator'')
           else if \<not> operator_listed k then Inl (RuntimeError ''don`t know the opType'')
           else if \<not> binary_listed k then Inl (InvalidArgument ''[Transform]Invalid Unary Operator'')
           else (case transformWhere l of Inl x \<Rightarrow> Inl x
             | Inr a \<Rightarrow> (case transformWhere r of Inl x \<Rightarrow> Inl x
             | Inr b \<Rightarrow> (case transformOperatorType k of Inl x \<Rightarrow> Inl x | Inr bop \<Rightarrow> Inr (Some (EBinary bop a b))))))
      | kExprColumnRef \<Rightarrow> (case transformColumnExpr (HExpr ty n al i fl k l r) of Inl x \<Rightarrow> Inl x | Inr e \<Rightarrow> Inr (Some e))
      | kExprLiteralString \<Rightarrow> (case str_of n of Inl x \<Rightarrow> Inl x
          | Inr s \<Rightarrow> Inr (Some (transformConstExpr CT_VARCHAR (Value_of (VString (str_bytes s))))))
      | kExprLiteralInt \<Rightarrow> Inr (Some (transformConstExpr CT_INTEGER (int_literal i)))
      | _ \<Rightarrow> Inl (RuntimeError ''Invalid Where SQL expression''))"

text \<open>A select item that is neither a star nor a column is logged and skipped.\<close>

fun transform_select_list :: "hExpr list \<Rightarrow> BaseExpression list" where
  "transform_select_list [] = []"
| "transform_select_list (e # es) = (case he_type e of
     kExprStar \<Rightarrow> EStar # transform_select_list es
   | kExprColumnRef \<Rightarrow> EColumn (str_or_empty (he_name e)) (str_or_empty (he_alias e)) # transform_select_list es
   | _ \<Rightarrow> transform_select_list es)"

definition transformTableRef :: "hTableRef option \<Rightarrow> string option res" where
  "transformTableRef r = (case r of None \<Rightarrow> Inr None | Some (kTableName n) \<Rightarrow> Inr (Some (str_or_empty n))
     | Some kTableOther \<Rightarrow> Inl (InvalidArgument ''Invalid table type''))"

definition transformSelect :: "hExpr list \<Rightarrow> hTableRef option \<Rightarrow> hExpr option \<Rightarrow> BaseStatement res" where
  "transformSelect sl tr w = (case transformTableRef tr of Inl x \<Rightarrow> Inl x
     | Inr t \<Rightarrow> (case transformWhere w of Inl x \<Rightarrow> Inl x | Inr e \<Rightarrow> Inr (SelectStatement (transform_select_list sl) t e)))"

text \<open>The value of one column of an \<^verbatim>\<open>INSERT\<close>: the case of a float literal falls through to the default.\<close>

definition insert_value :: "hExpr \<Rightarrow> Value res" where
  "insert_value e = (case he_type e of
     kExprLiteralString \<Rightarrow> (case str_of (he_name e) of Inl x \<Rightarrow> Inl x | Inr s \<Rightarrow> Inr (Value_of (VString (str_bytes s))))
   | kExprLiteralInt \<Rightarrow> Inr (int_literal (he_ival e))
   | _ \<Rightarrow> Inl (RuntimeError ''Transformer::transformInsert: unknown column type''))"

fun insert_values :: "string list \<Rightarrow> hExpr list \<Rightarrow> Value list res" where
  "insert_values [] vs = Inr []"
| "insert_values (c # cs) [] = Inl (RuntimeError ''vector::_M_range_check'')"
| "insert_values (c # cs) (v # vs) = (case insert_value v of Inl x \<Rightarrow> Inl x
     | Inr a \<Rightarrow> (case insert_values cs vs of Inl x \<Rightarrow> Inl x | Inr as \<Rightarrow> Inr (a # as)))"

text \<open>Without a column list the parser leaves \<^verbatim>\<open>columns\<close> null, and \<^verbatim>\<open>INSERT ... SELECT\<close> leaves \<^verbatim>\<open>values\<close> null.\<close>

definition transformInsert :: "string \<Rightarrow> string list option \<Rightarrow> hExpr list option \<Rightarrow> BaseStatement res" where
  "transformInsert t cols vals = (case cols of None \<Rightarrow> Inl MemoryFault
     | Some cs \<Rightarrow> (if cs = [] then Inr (InsertStatement t [] [])
        else case vals of None \<Rightarrow> Inl MemoryFault
        | Some vs \<Rightarrow> (case insert_values cs vs of Inl x \<Rightarrow> Inl x | Inr as \<Rightarrow> Inr (InsertStatement t cs as))))"

fun TransformerType :: "hDataType \<Rightarrow> ColumnTypes res" where
  "TransformerType DT_INT = Inr CT_INTEGER"
| "TransformerType DT_VARCHAR = Inr CT_VARCHAR"
| "TransformerType DT_OTHER = Inl (RuntimeError ''Unsupported column type'')"

fun transform_columns :: "(string \<times> hDataType \<times> bool) list \<Rightarrow> SqlColumn list res" where
  "transform_columns [] = Inr []"
| "transform_columns ((n, t, nullable) # cs) = (case TransformerType t of Inl x \<Rightarrow> Inl x
     | Inr ty \<Rightarrow> (case transform_columns cs of Inl x \<Rightarrow> Inl x
        | Inr ds \<Rightarrow> Inr (\<lparr>col_name = n, col_type = ty, col_not_null = nullable\<rparr> # ds)))"

definition transformCreateTable :: "string \<Rightarrow> (string \<times> hDataType \<times> bool) list option \<Rightarrow> BaseStatement res" where
  "transformCreateTable t cols = (case cols of None \<Rightarrow> Inl MemoryFault
     | Some ds \<Rightarrow> (case transform_columns ds of Inl x \<Rightarrow> Inl x | Inr cs \<Rightarrow> Inr (CreateTableStatement t cs)))"

definition LiteralToValue :: "hExpr \<Rightarrow> Value res" where
  "LiteralToValue e = (case he_type e of
     kExprLiteralString \<Rightarrow> (case str_of (he_name e) of Inl x \<Rightarrow> Inl x | Inr s \<Rightarrow> Inr (Value_of (VString (str_bytes s))))
   | kExprLiteralInt \<Rightarrow> Inr (int_literal (he_ival e))
   | kExprLiteralFloat \<Rightarrow> Inr (Value_of (VDouble (he_fval e)))
   | _ \<Rightarrow> Inl (RuntimeError ''Transformer: unsupported literal in SET/value clause''))"

definition transformDelete :: "string option \<Rightarrow> hExpr option \<Rightarrow> BaseStatement res" where
  "transformDelete t w = (case transformWhere w of Inl x \<Rightarrow> Inl x | Inr e \<Rightarrow> Inr (DeleteStatement (str_or_empty t) e))"

fun transform_sets :: "(string option \<times> hExpr) list \<Rightarrow> (string \<times> Value) list res" where
  "transform_sets [] = Inr []"
| "transform_sets ((c, e) # ss) = (case LiteralToValue e of Inl x \<Rightarrow> Inl x
     | Inr v \<Rightarrow> (case transform_sets ss of Inl x \<Rightarrow> Inl x | Inr rs \<Rightarrow> Inr ((str_or_empty c, v) # rs)))"

definition transformUpdate :: "string option \<Rightarrow> (string option \<times> hExpr) list \<Rightarrow> hExpr option \<Rightarrow> BaseStatement res" where
  "transformUpdate t ups w = (case transform_sets ups of Inl x \<Rightarrow> Inl x
     | Inr ss \<Rightarrow> (case transformWhere w of Inl x \<Rightarrow> Inl x | Inr e \<Rightarrow> Inr (UpdateStatement (str_or_empty t) ss e)))"

fun transformTransaction :: "hTransactionCommand \<Rightarrow> BaseStatement" where
  "transformTransaction kBeginTransaction = TransactionStatement TXN_BEGIN"
| "transformTransaction kCommitTransaction = TransactionStatement TXN_COMMIT"
| "transformTransaction kRollbackTransaction = TransactionStatement TXN_ROLLBACK"

fun transformStatement :: "hStatement \<Rightarrow> BaseStatement res" where
  "transformStatement (kStmtSelect sl t w) = transformSelect sl t w"
| "transformStatement (kStmtInsert t cs vs) = transformInsert t cs vs"
| "transformStatement (kStmtCreateTable t cs) = transformCreateTable t cs"
| "transformStatement kStmtCreateOther = Inl (RuntimeError ''Transformer::tansformCreate unknow sql statement type.'')"
| "transformStatement (kStmtDelete t w) = transformDelete t w"
| "transformStatement (kStmtUpdate t ups w) = transformUpdate t ups w"
| "transformStatement (kStmtTransaction c) = Inr (transformTransaction c)"
| "transformStatement kStmtOther = Inl (RuntimeError ''Invalid SQL statement'')"

fun transformStatements :: "hStatement list \<Rightarrow> BaseStatement list res" where
  "transformStatements [] = Inr []"
| "transformStatements (s # ss) = (case transformStatement s of Inl x \<Rightarrow> Inl x
     | Inr t \<Rightarrow> (case transformStatements ss of Inl x \<Rightarrow> Inl x | Inr ts \<Rightarrow> Inr (t # ts)))"

text \<open>\<open>parse\<close> stands for the library: \<open>None\<close> when it reports the text as invalid.\<close>

definition ParserSQL :: "(string \<Rightarrow> hStatement list option) \<Rightarrow> string \<Rightarrow> BaseStatement list res" where
  "ParserSQL parse sql = (case parse sql of None \<Rightarrow> Inr [] | Some ss \<Rightarrow> transformStatements ss)"

section \<open>The binder\<close>

text \<open>Children of a bound binary expression may be null: the binder returns a null pointer for a missing operand.\<close>

datatype BoundExpression =
    BBinary BinaryOp "BoundExpression option" "BoundExpression option"
  | BColumnRef entry_id entry_id
  | BConst Value ColumnTypes

datatype BoundStatement =
    BoundSelectStatement "BoundExpression list" entry_id "BoundExpression option"
  | BoundInsertStatement entry_id "entry_id list" "Value list"
  | BoundCreateTableStatement entry_id
  | BoundDeleteStatement entry_id "BoundExpression option"
  | BoundUpdateStatement entry_id "(entry_id \<times> Value) list" "BoundExpression option"

abbreviation (input) no_table :: err where "no_table \<equiv> RuntimeError ''don`t exist in the catalog.''"

definition BoundTableRefExpression :: "Catalog \<Rightarrow> string \<Rightarrow> entry_id res" where
  "BoundTableRefExpression c t = (case map_of (cat_names c) t of None \<Rightarrow> Inl no_table | Some i \<Rightarrow> Inr i)"

definition BoundColumnRefExpression :: "Catalog \<Rightarrow> string \<Rightarrow> string \<Rightarrow> BoundExpression res" where
  "BoundColumnRefExpression c t n = (case map_of (cat_names c) t of None \<Rightarrow> Inl no_table
     | Some i \<Rightarrow> (case Cat_table c i of Inl x \<Rightarrow> Inl x
        | Inr te \<Rightarrow> (case te_column_idx te n of None \<Rightarrow> Inl no_table | Some k \<Rightarrow> Inr (BColumnRef i k))))"

fun bound_columns :: "Catalog \<Rightarrow> string \<Rightarrow> string list \<Rightarrow> BoundExpression list res" where
  "bound_columns c t [] = Inr []"
| "bound_columns c t (n # ns) = (case BoundColumnRefExpression c t n of Inl x \<Rightarrow> Inl x
     | Inr e \<Rightarrow> (case bound_columns c t ns of Inl x \<Rightarrow> Inl x | Inr es \<Rightarrow> Inr (e # es)))"

definition BoundStarExpression :: "Catalog \<Rightarrow> string \<Rightarrow> BoundExpression list res" where
  "BoundStarExpression c t = (case map_of (cat_names c) t of None \<Rightarrow> Inl no_table
     | Some i \<Rightarrow> (case Cat_table c i of Inl x \<Rightarrow> Inl x
        | Inr te \<Rightarrow> bound_columns c t (map (\<lambda>p. ce_name (snd p)) (te_columns te))))"

definition comp_op :: "BinaryOp \<Rightarrow> bool" where
  "comp_op b \<longleftrightarrow> b \<in> {OP_OR, OP_AND, OP_LIKE, OP_NLIKE, OP_IN, OP_LT, OP_LTE, OP_GT, OP_GTE, OP_EQ, OP_NEQ}"

fun BoundCompExpression :: "Catalog \<Rightarrow> string \<Rightarrow> BaseExpression option \<Rightarrow> BoundExpression option res" where
  "BoundCompExpression c t None = Inr None"
| "BoundCompExpression c t (Some (EColumn n al)) = (case BoundColumnRefExpression c t n of Inl x \<Rightarrow> Inl x | Inr e \<Rightarrow> Inr (Some e))"
| "BoundCompExpression c t (Some (EConst ty v)) = Inr (Some (BConst v ty))"
| "BoundCompExpression c t (Some (EBinary b l r)) =
     (if \<not> comp_op b then Inl (InvalidArgument ''[Binder]Invalid expr binary Type'')
      else case BoundCompExpression c t l of Inl x \<Rightarrow> Inl x
      | Inr l' \<Rightarrow> (case BoundCompExpression c t r of Inl x \<Rightarrow> Inl x | Inr r' \<Rightarrow> Inr (Some (BBinary b l' r'))))"
| "BoundCompExpression c t (Some EStar) = Inl (InvalidArgument ''[Binder]Invalid expr is not binary Type'')"

text \<open>A list of one item is taken for a star whatever the item is; the items of a longer list are cast to columns.\<close>

definition column_name_of :: "BaseExpression \<Rightarrow> string res" where
  "column_name_of e = (case e of EColumn n al \<Rightarrow> Inr n | _ \<Rightarrow> Inl MemoryFault)"

fun bound_items :: "Catalog \<Rightarrow> string \<Rightarrow> BaseExpression list \<Rightarrow> BoundExpression list res" where
  "bound_items c t [] = Inr []"
| "bound_items c t (e # es) = (case column_name_of e of Inl x \<Rightarrow> Inl x
     | Inr n \<Rightarrow> (case BoundColumnRefExpression c t n of Inl x \<Rightarrow> Inl x
        | Inr b \<Rightarrow> (case bound_items c t es of Inl x \<Rightarrow> Inl x | Inr bs \<Rightarrow> Inr (b # bs))))"

definition bound_select_list :: "Catalog \<Rightarrow> string \<Rightarrow> BaseExpression list \<Rightarrow> BoundExpression list res" where
  "bound_select_list c t es = (if length es = 1 then BoundStarExpression c t else bound_items c t es)"

definition BoundSelect :: "Catalog \<Rightarrow> BaseExpression list \<Rightarrow> string option \<Rightarrow> BaseExpression option \<Rightarrow> BoundStatement res" where
  "BoundSelect c es table w = (case table of None \<Rightarrow> Inl MemoryFault
     | Some t \<Rightarrow> (case bound_select_list c t es of Inl x \<Rightarrow> Inl x
        | Inr sel \<Rightarrow> (case BoundTableRefExpression c t of Inl x \<Rightarrow> Inl x
        | Inr i \<Rightarrow> (case BoundCompExpression c t w of Inl x \<Rightarrow> Inl x | Inr e \<Rightarrow> Inr (BoundSelectStatement sel i e)))))"

text \<open>
  \<^verbatim>\<open>BoundInsertStatement\<close> looks everything up with \<^verbatim>\<open>operator[]\<close>: an unknown table name is entered with id 0 and a null table,
  an unknown column name is entered with column id 0.
\<close>

definition lookup_table :: "string \<Rightarrow> (Catalog, entry_id) comp" where
  "lookup_table t = (\<lambda>c. case map_of (cat_names c) t of Some i \<Rightarrow> (Inr i, c)
     | None \<Rightarrow> (Inr 0, c\<lparr>cat_names := AList.update t 0 (cat_names c)\<rparr>))"

definition touch_table :: "entry_id \<Rightarrow> (Catalog, unit) comp" where
  "touch_table i = modify (\<lambda>c. if cat_tables c i = None then c\<lparr>cat_tables := (cat_tables c)(i \<mapsto> None)\<rparr> else c)"

definition lookup_column :: "entry_id \<Rightarrow> string \<Rightarrow> (Catalog, entry_id) comp" where
  "lookup_column i n = bnd (gets (\<lambda>c. Cat_table c i)) (\<lambda>r. bnd (of_res r) (\<lambda>te.
     case te_column_idx te n of Some k \<Rightarrow> ret k
     | None \<Rightarrow> thn (modify (\<lambda>c. c\<lparr>cat_tables := (cat_tables c)(i \<mapsto> Some (te\<lparr>te_column_idx := (te_column_idx te)(n \<mapsto> 0)\<rparr>))\<rparr>)) (ret 0)))"

fun bound_insert_columns :: "entry_id \<Rightarrow> string list \<Rightarrow> Value list \<Rightarrow> (Catalog, entry_id list \<times> Value list) comp" where
  "bound_insert_columns i [] vs = ret ([], [])"
| "bound_insert_columns i (n # ns) vs =
     bnd (lookup_column i n) (\<lambda>k. bnd (gets (\<lambda>c. Cat_table c i)) (\<lambda>r. bnd (of_res r) (\<lambda>te.
     bnd (of_res (TE_GetColumnForId te k)) (\<lambda>_.
     (case vs of [] \<Rightarrow> throw MemoryFault
      | v # vs' \<Rightarrow> bnd (bound_insert_columns i ns vs') (\<lambda>(ks, ws). ret (k # ks, v # ws)))))))"

definition BoundInsert :: "string \<Rightarrow> string list \<Rightarrow> Value list \<Rightarrow> (Catalog, BoundStatement) comp" where
  "BoundInsert t ns vs = bnd (lookup_table t) (\<lambda>i. thn (touch_table i)
     (bnd (bound_insert_columns i ns vs) (\<lambda>(ks, ws). ret (BoundInsertStatement i ks ws))))"

fun build_columns :: "SqlColumn list \<Rightarrow> TableEntry \<Rightarrow> TableEntry res" where
  "build_columns [] te = Inr te"
| "build_columns (d # ds) te = (case ColumnEntry_new (TE_GetNextColumnId te) (col_name d) (col_type d) of
     Inl x \<Rightarrow> Inl x | Inr c \<Rightarrow> build_columns ds (TE_AddColumn c te))"

definition BoundCreateTable :: "string \<Rightarrow> SqlColumn list \<Rightarrow> (Catalog, BoundStatement) comp" where
  "BoundCreateTable t ds = bnd (gets (\<lambda>c. map_of (cat_names c) t)) (\<lambda>known.
     if known \<noteq> None then throw (RuntimeError ''Binder::BoundCreateTable target table is exist.'')
     else bnd (\<lambda>c. case GetNextEntryId c of (i, c') \<Rightarrow> (Inr i, c')) (\<lambda>i.
       bnd (of_res (build_columns ds (TableEntry_new i t))) (\<lambda>te.
       thn (modify (Cat_AddTable te)) (ret (BoundCreateTableStatement (te_id te))))))"

definition BoundDelete :: "Catalog \<Rightarrow> string \<Rightarrow> BaseExpression option \<Rightarrow> BoundStatement res" where
  "BoundDelete c t w = (case map_of (cat_names c) t of
     None \<Rightarrow> Inl (RuntimeError ''Binder::BoundDeleteStatement table not found'')
   | Some i \<Rightarrow> (case BoundCompExpression c t w of Inl x \<Rightarrow> Inl x | Inr e \<Rightarrow> Inr (BoundDeleteStatement i e)))"

fun bound_sets :: "TableEntry \<Rightarrow> (string \<times> Value) list \<Rightarrow> (entry_id \<times> Value) list res" where
  "bound_sets te [] = Inr []"
| "bound_sets te ((n, v) # ss) = (case te_column_idx te n of
     None \<Rightarrow> Inl (RuntimeError ''Binder::BoundUpdateStatement column not found'')
   | Some k \<Rightarrow> (case bound_sets te ss of Inl x \<Rightarrow> Inl x | Inr rs \<Rightarrow> Inr ((k, v) # rs)))"

definition BoundUpdate :: "Catalog \<Rightarrow> string \<Rightarrow> (string \<times> Value) list \<Rightarrow> BaseExpression option \<Rightarrow> BoundStatement res" where
  "BoundUpdate c t ss w = (case map_of (cat_names c) t of
     None \<Rightarrow> Inl (RuntimeError ''Binder::BoundUpdateStatement table not found'')
   | Some i \<Rightarrow> (case (if ss = [] then Inr [] else case Cat_table c i of Inl x \<Rightarrow> Inl x | Inr te \<Rightarrow> bound_sets te ss) of Inl x \<Rightarrow> Inl x
      | Inr rs \<Rightarrow> (case BoundCompExpression c t w of Inl x \<Rightarrow> Inl x | Inr e \<Rightarrow> Inr (BoundUpdateStatement i rs e))))"

section \<open>The planner\<close>

text \<open>The logical and physical operators, with the one child the planner gives each.\<close>

datatype LogicalOperator =
    LogicalCreateTable entry_id
  | LogicalInsert entry_id "entry_id list" LogicalOperator
  | LogicalValues "entry_id list" "Value list" entry_id
  | LogicalSeqScan entry_id
  | LogicalFilter "BoundExpression list" LogicalOperator
  | LogicalProjection "BoundExpression list" LogicalOperator
  | LogicalDelete entry_id "BoundExpression option"
  | LogicalUpdate entry_id "(entry_id \<times> Value) list" "BoundExpression option"

datatype PhysicalOperator =
    PhysicalCreateTable entry_id
  | PhysicalInsert entry_id "entry_id list" PhysicalOperator
  | PhysicalValues "entry_id list" "Value list" entry_id
  | PhysicalSeqScan entry_id
  | PhysicalFilter "PhysicalExpression option" PhysicalOperator
  | PhysicalProjection "entry_id list" PhysicalOperator
  | PhysicalDelete entry_id "PhysicalExpression option"
  | PhysicalUpdate entry_id "(entry_id \<times> Value) list" "PhysicalExpression option"

definition LogicalSelectPlan :: "BoundExpression list \<Rightarrow> entry_id \<Rightarrow> BoundExpression option \<Rightarrow> LogicalOperator" where
  "LogicalSelectPlan sel i w =
     (let scan = LogicalSeqScan i;
          filtered = (case w of None \<Rightarrow> scan | Some e \<Rightarrow> LogicalFilter [e] scan) in
      if sel = [] then filtered else LogicalProjection sel filtered)"

definition LogicalInsertPlan :: "entry_id \<Rightarrow> entry_id list \<Rightarrow> Value list \<Rightarrow> LogicalOperator" where
  "LogicalInsertPlan i ks vs = LogicalInsert i ks (LogicalValues ks vs i)"

fun CreateLogicalPlan :: "BoundStatement \<Rightarrow> LogicalOperator" where
  "CreateLogicalPlan (BoundSelectStatement sel i w) = LogicalSelectPlan sel i w"
| "CreateLogicalPlan (BoundInsertStatement i ks vs) = LogicalInsertPlan i ks vs"
| "CreateLogicalPlan (BoundCreateTableStatement i) = LogicalCreateTable i"
| "CreateLogicalPlan (BoundDeleteStatement i w) = LogicalDelete i w"
| "CreateLogicalPlan (BoundUpdateStatement i ss w) = LogicalUpdate i ss w"

text \<open>A null child is dereferenced.\<close>

fun TransformExpression :: "BoundExpression option \<Rightarrow> PhysicalExpression res" where
  "TransformExpression None = Inl MemoryFault"
| "TransformExpression (Some (BBinary b l r)) = (case TransformExpression l of Inl x \<Rightarrow> Inl x
     | Inr l' \<Rightarrow> (case TransformExpression r of Inl x \<Rightarrow> Inl x | Inr r' \<Rightarrow> Inr (PBinary b l' r')))"
| "TransformExpression (Some (BColumnRef t k)) = Inr (PColumn t k)"
| "TransformExpression (Some (BConst v ty)) = Inr (PConst v)"

fun transform_all :: "BoundExpression list \<Rightarrow> PhysicalExpression list res" where
  "transform_all [] = Inr []"
| "transform_all (e # es) = (case TransformExpression (Some e) of Inl x \<Rightarrow> Inl x
     | Inr p \<Rightarrow> (case transform_all es of Inl x \<Rightarrow> Inl x | Inr ps \<Rightarrow> Inr (p # ps)))"

definition TransformExpressions :: "BoundExpression list \<Rightarrow> PhysicalExpression option res" where
  "TransformExpressions es = (case transform_all es of Inl x \<Rightarrow> Inl x
     | Inr [] \<Rightarrow> Inr None
     | Inr (p # ps) \<Rightarrow> Inr (Some (foldl (PBinary OP_AND) p ps)))"

fun projection_columns :: "BoundExpression list \<Rightarrow> entry_id list res" where
  "projection_columns [] = Inr []"
| "projection_columns (e # es) = (case e of
     BColumnRef t k \<Rightarrow> (case projection_columns es of Inl x \<Rightarrow> Inl x | Inr ks \<Rightarrow> Inr (k # ks))
   | _ \<Rightarrow> Inl MemoryFault)"

definition transform_filter :: "BoundExpression option \<Rightarrow> PhysicalExpression option res" where
  "transform_filter w = (case w of None \<Rightarrow> Inr None
     | Some e \<Rightarrow> (case TransformExpression (Some e) of Inl x \<Rightarrow> Inl x | Inr p \<Rightarrow> Inr (Some p)))"

fun CreatePhysicalPlan :: "LogicalOperator \<Rightarrow> PhysicalOperator res" where
  "CreatePhysicalPlan (LogicalCreateTable i) = Inr (PhysicalCreateTable i)"
| "CreatePhysicalPlan (LogicalInsert i ks l) = (case CreatePhysicalPlan l of Inl x \<Rightarrow> Inl x | Inr p \<Rightarrow> Inr (PhysicalInsert i ks p))"
| "CreatePhysicalPlan (LogicalValues ks vs i) = Inr (PhysicalValues ks vs i)"
| "CreatePhysicalPlan (LogicalSeqScan i) = Inr (PhysicalSeqScan i)"
| "CreatePhysicalPlan (LogicalFilter es l) = (case TransformExpressions es of Inl x \<Rightarrow> Inl x
     | Inr e \<Rightarrow> (case CreatePhysicalPlan l of Inl x \<Rightarrow> Inl x | Inr p \<Rightarrow> Inr (PhysicalFilter e p)))"
| "CreatePhysicalPlan (LogicalProjection es l) = (case projection_columns es of Inl x \<Rightarrow> Inl x
     | Inr ks \<Rightarrow> (case CreatePhysicalPlan l of Inl x \<Rightarrow> Inl x | Inr p \<Rightarrow> Inr (PhysicalProjection ks p)))"
| "CreatePhysicalPlan (LogicalDelete i w) = (case transform_filter w of Inl x \<Rightarrow> Inl x | Inr e \<Rightarrow> Inr (PhysicalDelete i e))"
| "CreatePhysicalPlan (LogicalUpdate i ss w) = (case transform_filter w of Inl x \<Rightarrow> Inl x | Inr e \<Rightarrow> Inr (PhysicalUpdate i ss e))"

section \<open>Tables the binder makes\<close>

text \<open>
  What the rest of the system relies on in a table entry: the columns are numbered from 0 in the order of the schema, and the
  index of names agrees with the search through the schema.
\<close>

definition names_indexed :: "TableEntry \<Rightarrow> bool" where
  "names_indexed te \<longleftrightarrow> te_inv te \<and> length (te_columns te) < 2 ^ 32 \<and> distinct (map ce_name (TE_GetSchema te)) \<and>
     TE_GetColumnIds te = map word_of_nat [0..<length (te_columns te)] \<and>
     (\<forall>n. te_column_idx te n = map_option word_of_nat (column_index (TE_GetSchema te) n))"

lemma column_index_bound: "column_index sch n = Some i \<Longrightarrow> i < length sch"
  by (induction sch arbitrary: i) (auto split: if_splits)

lemma column_index_none: "column_index sch n = None \<longleftrightarrow> n \<notin> ce_name ` set sch"
  by (induction sch) auto

lemma column_index_snoc:
  "column_index (sch @ [c]) n = (case column_index sch n of Some i \<Rightarrow> Some i | None \<Rightarrow> if ce_name c = n then Some (length sch) else None)"
  by (induction sch) (auto split: option.splits)

lemma ColumnEntry_new_fields: "ColumnEntry_new i n ty = Inr c \<Longrightarrow> ce_id c = i \<and> ce_name c = n \<and> ce_type c = ty"
  by (cases ty) auto

lemma names_indexed_new: "names_indexed (TableEntry_new i n)"
  by (simp add: names_indexed_def te_inv_new) (simp add: TableEntry_new_def TE_GetColumnIds_def TE_GetSchema_def)

lemma ids_below:
  assumes "names_indexed te" "j \<in> set (TE_GetColumnIds te)"
  shows "j < TE_GetNextColumnId te"
  using assms by (auto simp: names_indexed_def TE_GetNextColumnId_def word_less_nat_alt unat_word_of_nat_u64)

lemma names_indexed_AddColumn:
  assumes "names_indexed te" "Suc (length (te_columns te)) < 2 ^ 32" "ColumnEntry_new (TE_GetNextColumnId te) n ty = Inr c"
    and "n \<notin> ce_name ` set (TE_GetSchema te)"
  shows "names_indexed (TE_AddColumn c te) \<and> TE_GetSchema (TE_AddColumn c te) = TE_GetSchema te @ [c]"
proof -
  note f = ColumnEntry_new_fields [OF assms(3)]
  have cols: "te_columns (TE_AddColumn c te) = te_columns te @ [(ce_id c, c)]"
    using map_emplace_last [of "te_columns te" "ce_id c" c] ids_below [OF assms(1)] f by (simp add: TE_AddColumn_def TE_GetColumnIds_def)
  then have sch: "TE_GetSchema (TE_AddColumn c te) = TE_GetSchema te @ [c]" by (simp add: TE_GetSchema_def)
  have inv: "te_inv (TE_AddColumn c te)" using assms(1,3) f by (intro te_inv_AddColumn) (simp_all add: names_indexed_def)
  have "te_column_idx (TE_AddColumn c te) m = map_option word_of_nat (column_index (TE_GetSchema te @ [c]) m)" for m
    using assms(1,4) f column_index_none [of "TE_GetSchema te" n]
    by (auto simp: TE_AddColumn_def names_indexed_def column_index_snoc TE_GetNextColumnId_def TE_GetSchema_def split: option.splits)
  then show ?thesis
    using assms(1,2,4) cols sch inv f by (simp add: names_indexed_def TE_GetColumnIds_def TE_GetNextColumnId_def)
qed

lemma build_columns_run:
  assumes "names_indexed te" "length (te_columns te) + length ds < 2 ^ 32" "distinct (map col_name ds)"
    and "\<forall>d \<in> set ds. col_name d \<notin> ce_name ` set (TE_GetSchema te) \<and> col_type d \<in> {CT_INTEGER, CT_VARCHAR}"
  shows "\<exists>te'. build_columns ds te = Inr te' \<and> names_indexed te' \<and> te_id te' = te_id te \<and> te_name te' = te_name te \<and>
    map (\<lambda>c. (ce_name c, ce_type c)) (TE_GetSchema te') =
      map (\<lambda>c. (ce_name c, ce_type c)) (TE_GetSchema te) @ map (\<lambda>d. (col_name d, col_type d)) ds"
  using assms
proof (induction ds arbitrary: te)
  case (Cons d ds)
  obtain c where c: "ColumnEntry_new (TE_GetNextColumnId te) (col_name d) (col_type d) = Inr c" using Cons.prems(4) by auto
  note f = ColumnEntry_new_fields [OF c]
  have a: "names_indexed (TE_AddColumn c te)" "TE_GetSchema (TE_AddColumn c te) = TE_GetSchema te @ [c]"
    using names_indexed_AddColumn [OF Cons.prems(1) _ c] Cons.prems(2,4) by auto
  have l: "length (te_columns (TE_AddColumn c te)) = Suc (length (te_columns te))"
    using arg_cong [OF a(2), of length] by (simp add: TE_GetSchema_def)
  have "te_id (TE_AddColumn c te) = te_id te" "te_name (TE_AddColumn c te) = te_name te" by (simp_all add: TE_AddColumn_def)
  moreover have "\<forall>e \<in> set ds. col_name e \<noteq> col_name d" using Cons.prems(3) by (fastforce simp: image_iff)
  ultimately show ?case using Cons.IH [OF a(1)] Cons.prems(2-4) c f a(2) l by (auto simp: image_iff)
qed simp

section \<open>Conditions\<close>

text \<open>
  The three stages a condition goes through (a statement without a condition gets no filter), and the meaning of the syntax tree on a
  row, by column names.
\<close>

definition compile_where :: "Catalog \<Rightarrow> string \<Rightarrow> hExpr option \<Rightarrow> PhysicalExpression option res" where
  "compile_where c t e = (case transformWhere e of Inl x \<Rightarrow> Inl x
     | Inr b \<Rightarrow> (case BoundCompExpression c t b of Inl x \<Rightarrow> Inl x | Inr p \<Rightarrow> transform_filter p))"

definition column_named :: "Tuple \<Rightarrow> string \<Rightarrow> Value res" where
  "column_named t n = (case t_data t of None \<Rightarrow> Inl MemoryFault
     | Some d \<Rightarrow> (case Row_Deserialize (t_schema t) d of Inl e \<Rightarrow> Inl e
        | Inr (h, vs) \<Rightarrow> Row_GetValue_by_name (t_schema t) vs n))"

definition condition_op :: "OperatorType \<Rightarrow> BinaryOp option" where
  "condition_op k = map_of [(kOpOr, OP_OR), (kOpAnd, OP_AND), (kOpLike, OP_LIKE), (kOpNotLike, OP_NLIKE), (kOpIn, OP_IN), (kOpLess, OP_LT),
     (kOpLessEq, OP_LTE), (kOpGreater, OP_GT), (kOpGreaterEq, OP_GTE), (kOpEquals, OP_EQ), (kOpNotEquals, OP_NEQ)] k"

fun sql_eval :: "DoubleOps \<Rightarrow> Tuple \<Rightarrow> hExpr option \<Rightarrow> Value res" where
  "sql_eval D t None = Inl MemoryFault"
| "sql_eval D t (Some (HExpr ty n al i fl k l r)) =
     (case ty of
        kExprColumnRef \<Rightarrow> column_named t (the n)
      | kExprLiteralString \<Rightarrow> Inr (Value_of (VString (str_bytes (the n))))
      | kExprLiteralInt \<Rightarrow> Inr (int_literal i)
      | _ \<Rightarrow> (case sql_eval D t l of Inl e \<Rightarrow> Inl e
          | Inr a \<Rightarrow> (case sql_eval D t r of Inl e \<Rightarrow> Inl e | Inr b \<Rightarrow> eval_binary D (the (condition_op k)) a b)))"

text \<open>The conditions the front end supports: columns of the table, integer and string literals, and the listed binary operators.\<close>

fun supported :: "Schema \<Rightarrow> hExpr option \<Rightarrow> bool" where
  "supported sch None = False"
| "supported sch (Some (HExpr ty n al i fl k l r)) =
     (case ty of
        kExprOperator \<Rightarrow> condition_op k \<noteq> None \<and> supported sch l \<and> supported sch r
      | kExprColumnRef \<Rightarrow> (case n of None \<Rightarrow> False | Some m \<Rightarrow> m \<in> ce_name ` set sch)
      | kExprLiteralString \<Rightarrow> n \<noteq> None
      | kExprLiteralInt \<Rightarrow> True
      | _ \<Rightarrow> False)"

text \<open>
  Trees that are supported but for operands that are missing, such as \<^verbatim>\<open>a IN (1, 2)\<close>, whose list is not an operand; trees whose columns
  and strings have a name, as all trees of the parser; and the exceptions the transformer and the binder throw.
\<close>

fun but_for_operands :: "Schema \<Rightarrow> hExpr option \<Rightarrow> bool" where
  "but_for_operands sch None = True"
| "but_for_operands sch (Some (HExpr ty n al i fl k l r)) =
     (case ty of
        kExprOperator \<Rightarrow> condition_op k \<noteq> None \<and> but_for_operands sch l \<and> but_for_operands sch r
      | kExprColumnRef \<Rightarrow> (case n of None \<Rightarrow> False | Some m \<Rightarrow> m \<in> ce_name ` set sch)
      | kExprLiteralString \<Rightarrow> n \<noteq> None
      | kExprLiteralInt \<Rightarrow> True
      | _ \<Rightarrow> False)"

fun names_present :: "hExpr option \<Rightarrow> bool" where
  "names_present None = True"
| "names_present (Some (HExpr ty n al i fl k l r)) =
     ((ty = kExprColumnRef \<or> ty = kExprLiteralString \<longrightarrow> n \<noteq> None) \<and> names_present l \<and> names_present r)"

definition where_errors :: "err set" where
  "where_errors = {RuntimeError ''Invalid Where SQL expression'', RuntimeError ''don`t know the opType'',
     InvalidArgument ''[Transform]Invalid Unary Operator'', InvalidArgument ''Invalid Operator Binary Type'',
     InvalidArgument ''[Binder]Invalid expr binary Type'', InvalidArgument ''[Binder]Invalid expr is not binary Type'', no_table}"

lemma binary_ops:
  "condition_op k = Some b \<Longrightarrow> binary_listed k \<and> k \<noteq> kOpIsNull \<and> operator_listed k \<and> transformOperatorType k = Inr b \<and> comp_op b"
  "condition_op k = None \<Longrightarrow> transformOperatorType k = Inr b \<Longrightarrow> \<not> comp_op b"
  by (cases k; simp add: condition_op_def binary_listed_def operator_listed_def comp_op_def; auto)+

definition table_known :: "Catalog \<Rightarrow> string \<Rightarrow> entry_id \<Rightarrow> TableEntry \<Rightarrow> bool" where
  "table_known c t i te \<longleftrightarrow> map_of (cat_names c) t = Some i \<and> Cat_table c i = Inr te \<and> names_indexed te"

lemma bound_column:
  assumes "table_known c t i te"
  shows "BoundColumnRefExpression c t n = (if n \<in> ce_name ` set (TE_GetSchema te)
      then Inr (BColumnRef i (word_of_nat (the (column_index (TE_GetSchema te) n)))) else Inl no_table)"
  using assms column_index_none [of "TE_GetSchema te" n]
  by (auto simp: table_known_def BoundColumnRefExpression_def names_indexed_def split: option.splits)

lemma column_by_id:
  assumes "names_indexed te" "t_schema tup = TE_GetSchema te" "column_index (TE_GetSchema te) n = Some j"
  shows "eval_column tup (word_of_nat j) = column_named tup n"
proof -
  have "j < 2 ^ 64" using column_index_bound [OF assms(3)] assms(1) by (simp add: names_indexed_def TE_GetSchema_def)
  then show ?thesis
    using assms(2,3) by (simp add: eval_column_def column_named_def Row_GetValue_by_name_def unat_word_of_nat_u64 split: option.splits sum.splits)
qed

lemma compile_supported:
  assumes "table_known c t i te"
  shows "supported (TE_GetSchema te) e \<Longrightarrow> \<exists>b x p. transformWhere e = Inr b \<and> BoundCompExpression c t b = Inr x \<and> TransformExpression x = Inr p \<and>
     (\<forall>D tup. t_schema tup = TE_GetSchema te \<longrightarrow> Evaluate D p tup = sql_eval D tup e)"
proof (induction e rule: transformWhere.induct)
  case (2 ty n al v fl k l r)
  show ?case
  proof (cases "ty = kExprOperator")
    case True
    then obtain bop where b: "condition_op k = Some bop" using 2(3) by auto
    note ops = binary_ops(1) [OF b]
    then have "supported (TE_GetSchema te) l" "supported (TE_GetSchema te) r" using 2(3) True by auto
    then show ?thesis using 2(1,2) True ops b by (fastforce split: sum.splits)
  next
    case False
    then show ?thesis
      using 2(3) bound_column [OF assms] column_by_id [of te] assms column_index_none [of "TE_GetSchema te"]
      by (cases ty) (auto simp: table_known_def transformColumnExpr_def str_of_def transformConstExpr_def split: option.splits)
  qed
qed simp

lemma transformWhere_errors: "names_present e \<Longrightarrow> transformWhere e = Inl x \<Longrightarrow> x \<in> where_errors"
proof (induction e rule: transformWhere.induct)
  case (2 ty n al v fl k l r)
  show ?case
  proof (cases "ty = kExprOperator")
    case True
    have "transformOperatorType k = Inl x \<Longrightarrow> x \<in> where_errors" by (cases k) (auto simp: where_errors_def)
    then show ?thesis using 2 True by (auto simp: where_errors_def split: if_splits sum.splits)
  next
    case False
    then show ?thesis using 2(3,4)
      by (cases ty) (auto simp: where_errors_def transformColumnExpr_def str_of_def split: option.splits)
  qed
qed simp

lemma bound_errors: "table_known c t i te \<Longrightarrow> BoundCompExpression c t b = Inl x \<Longrightarrow> x \<in> where_errors"
  by (induction c t b rule: BoundCompExpression.induct)
    (auto simp: where_errors_def bound_column split: if_splits sum.splits)

lemma compiled_but_for_operands:
  assumes "table_known c t i te"
  shows "transformWhere e = Inr b \<Longrightarrow> BoundCompExpression c t b = Inr x \<Longrightarrow>
    but_for_operands (TE_GetSchema te) e \<and> (x = None \<longleftrightarrow> e = None)"
proof (induction e arbitrary: b x rule: transformWhere.induct)
  case (2 ty n al v fl k l r)
  show ?case
  proof (cases "ty = kExprOperator")
    case True
    then show ?thesis
      using 2 binary_ops(2) [of k] by (cases "condition_op k") (auto split: sum.splits if_splits)
  next
    case False
    then show ?thesis
      using 2(3,4) bound_column [OF assms]
      by (cases ty) (auto simp: transformColumnExpr_def str_of_def transformConstExpr_def split: option.splits sum.splits if_splits)
  qed
qed simp

lemma missing_operand_faults:
  assumes "table_known c t i te"
  shows "but_for_operands (TE_GetSchema te) e \<Longrightarrow> \<exists>b x. transformWhere e = Inr b \<and> BoundCompExpression c t b = Inr x \<and>
    (x = None \<longleftrightarrow> e = None) \<and> (\<not> supported (TE_GetSchema te) e \<longrightarrow> TransformExpression x = Inl MemoryFault)"
proof (induction e rule: transformWhere.induct)
  case (2 ty n al v fl k l r)
  show ?case
  proof (cases "ty = kExprOperator")
    case True
    then obtain bop where b: "condition_op k = Some bop" using 2(3) by auto
    note ops = binary_ops(1) [OF b]
    have h: "but_for_operands (TE_GetSchema te) l" "but_for_operands (TE_GetSchema te) r" using 2(3) True by auto
    obtain bl xl where l: "transformWhere l = Inr bl" "BoundCompExpression c t bl = Inr xl" "xl = None \<longleftrightarrow> l = None"
      "\<not> supported (TE_GetSchema te) l \<longrightarrow> TransformExpression xl = Inl MemoryFault" using 2(1) True ops h(1) by auto
    obtain br xr where r: "transformWhere r = Inr br" "BoundCompExpression c t br = Inr xr" "xr = None \<longleftrightarrow> r = None"
      "\<not> supported (TE_GetSchema te) r \<longrightarrow> TransformExpression xr = Inl MemoryFault" using 2(2) True ops h(2) l(1) by auto
    have "\<exists>p. TransformExpression xl = Inr p" if "supported (TE_GetSchema te) l" using compile_supported [OF assms that] l by auto
    then show ?thesis using True ops b l r by (auto split: sum.splits)
  next
    case False
    then show ?thesis
      using 2(3) bound_column [OF assms]
      by (cases ty) (auto simp: transformColumnExpr_def str_of_def transformConstExpr_def split: option.splits)
  qed
qed simp

text \<open>The tables of a catalog: every name leads to an entry of that name, and the ids handed out so far are below the counter.\<close>

definition cat_ok :: "Catalog \<Rightarrow> bool" where
  "cat_ok c \<longleftrightarrow> (\<forall>n i. map_of (cat_names c) n = Some i \<longrightarrow> i < cat_next_id c \<and> (\<exists>te. table_known c n i te \<and> te_name te = n \<and> te_id te = i))"

lemma Cat_table_AddTable: "Cat_table (Cat_AddTable te c) j = (if j = te_id te then Inr te else Cat_table c j)"
  by (simp add: Cat_table_def Cat_AddTable_def)

lemma names_AddTable: "map_of (cat_names (Cat_AddTable te c)) n = (if n = te_name te then Some (te_id te) else map_of (cat_names c) n)"
  by (simp add: Cat_AddTable_def update_conv')

lemma cat_ok_AddTable:
  assumes "cat_ok c" "names_indexed te" "te_id te = cat_next_id c" "cat_next_id c + 1 \<noteq> 0"
  shows "cat_ok (Cat_AddTable te (c\<lparr>cat_next_id := cat_next_id c + 1\<rparr>))" (is "cat_ok ?d")
proof -
  have nx: "cat_next_id ?d = cat_next_id c + 1" by (simp add: Cat_AddTable_def)
  have up: "cat_next_id c < cat_next_id c + 1" by (simp add: next_word_less [OF assms(4)])
  have same: "Cat_table (c\<lparr>cat_next_id := k\<rparr>) j = Cat_table c j" for k j by (simp add: Cat_table_def)
  show ?thesis
    unfolding cat_ok_def
  proof (intro allI impI)
    fix n i assume a: "map_of (cat_names ?d) n = Some i"
    show "i < cat_next_id ?d \<and> (\<exists>te. table_known ?d n i te \<and> te_name te = n \<and> te_id te = i)"
    proof (cases "n = te_name te")
      case True
      then show ?thesis using a assms(2,3) up nx by (auto simp: table_known_def names_AddTable Cat_table_AddTable)
    next
      case False
      then have n: "map_of (cat_names c) n = Some i" using a by (simp add: names_AddTable)
      then obtain t where t: "i < cat_next_id c" "table_known c n i t" "te_name t = n" "te_id t = i" using assms(1) by (auto simp: cat_ok_def)
      then have "table_known ?d n i t" using a n assms(3) by (auto simp: table_known_def Cat_table_AddTable same)
      then show ?thesis using t up nx by (auto intro: less_trans)
    qed
  qed
qed

text \<open>C35.
  \<^verbatim>\<open>CREATE TABLE\<close> keeps the catalog in order: for a new name and columns with distinct names, the binder registers an entry under the
  next id whose schema has exactly these columns in their order and whose name index agrees with the schema, and the
  tables that were known stay as they were.
\<close>

theorem create_table_known:
  assumes "cat_ok c" "map_of (cat_names c) t = None" "distinct (map col_name ds)" "length ds < 2 ^ 32" "cat_next_id c + 1 \<noteq> 0"
    and "\<forall>d \<in> set ds. col_type d \<in> {CT_INTEGER, CT_VARCHAR}"
  shows "\<exists>c' te. BoundCreateTable t ds c = (Inr (BoundCreateTableStatement (cat_next_id c)), c') \<and> cat_ok c' \<and>
    table_known c' t (cat_next_id c) te \<and>
    map (\<lambda>c. (ce_name c, ce_type c)) (TE_GetSchema te) = map (\<lambda>d. (col_name d, col_type d)) ds \<and>
    (\<forall>n. n \<noteq> t \<longrightarrow> map_of (cat_names c') n = map_of (cat_names c) n) \<and> (\<forall>j. j \<noteq> cat_next_id c \<longrightarrow> Cat_table c' j = Cat_table c j)"
proof -
  let ?c = "c\<lparr>cat_next_id := cat_next_id c + 1\<rparr>"
  obtain te where te: "build_columns ds (TableEntry_new (cat_next_id c) t) = Inr te" "names_indexed te" "te_id te = cat_next_id c" "te_name te = t"
    "map (\<lambda>c. (ce_name c, ce_type c)) (TE_GetSchema te) = map (\<lambda>d. (col_name d, col_type d)) ds"
    using build_columns_run [OF names_indexed_new [of "cat_next_id c" t], of ds] assms(3,4,6)
    by (auto simp: TableEntry_new_def TE_GetSchema_def)
  have "BoundCreateTable t ds c = (Inr (BoundCreateTableStatement (cat_next_id c)), Cat_AddTable te ?c)"
    using assms(2) te(1,3) by (simp add: BoundCreateTable_def GetNextEntryId_def comp_simps)
  moreover have "cat_ok (Cat_AddTable te ?c)" by (rule cat_ok_AddTable [OF assms(1) te(2,3) assms(5)])
  moreover have "table_known (Cat_AddTable te ?c) t (cat_next_id c) te"
    using te by (simp add: table_known_def names_AddTable Cat_table_AddTable)
  moreover have "Cat_table ?c j = Cat_table c j" for j by (simp add: Cat_table_def)
  ultimately show ?thesis using te by (auto simp: names_AddTable Cat_table_AddTable)
qed

definition demo_columns :: "SqlColumn list" where
  "demo_columns = [\<lparr>col_name = ''id'', col_type = CT_INTEGER, col_not_null = False\<rparr>, \<lparr>col_name = ''name'', col_type = CT_VARCHAR, col_not_null = True\<rparr>]"

definition demo_catalog :: Catalog where
  "demo_catalog = snd (BoundCreateTable ''users'' demo_columns Catalog_new)"

lemma create_table_known_witness:
  "fst (BoundCreateTable ''users'' demo_columns Catalog_new) = Inr (BoundCreateTableStatement 1) \<and> cat_ok demo_catalog \<and>
   (\<exists>te. table_known demo_catalog ''users'' 1 te \<and> map ce_name (TE_GetSchema te) = [''id'', ''name''])"
proof -
  have "cat_ok Catalog_new" by (simp add: cat_ok_def Catalog_new_def)
  from create_table_known [OF this, of "''users''" demo_columns] obtain c' te where
    "BoundCreateTable ''users'' demo_columns Catalog_new = (Inr (BoundCreateTableStatement 1), c')" "cat_ok c'"
    "table_known c' ''users'' 1 te"
    "map (\<lambda>c. (ce_name c, ce_type c)) (TE_GetSchema te) = map (\<lambda>d. (col_name d, col_type d)) demo_columns"
    by (auto simp: Catalog_new_def demo_columns_def)
  moreover from this(4) have "map ce_name (TE_GetSchema te) = map col_name demo_columns"
    by (metis (mono_tags, lifting) fst_conv length_map map_equality_iff nth_map)
  ultimately show ?thesis by (auto simp: demo_catalog_def demo_columns_def)
qed

text \<open>C34.
  What becomes of a condition over a table the catalog knows, in every case.  No condition: no filter.  A supported one (columns of the table,
  integer and string literals, comparisons, LIKE, AND, OR): it goes through transformer, binder and planner, and the physical expression
  has on every row of the table the value of the syntax tree evaluated by column names.  One that would be supported if no operand were
  missing, such as \<^verbatim>\<open>a IN (1, 2)\<close>: the planner dereferences a null pointer, and the server crashes.  Every other one whose columns and
  strings have names, as those of the parser do: the transformer or the binder throws one of the exceptions \<open>where_errors\<close>.
\<close>

theorem where_compiled_correctly:
  assumes "table_known c t i te"
  shows "if e = None then compile_where c t e = Inr None
    else if supported (TE_GetSchema te) e
    then \<exists>p. compile_where c t e = Inr (Some p) \<and> (\<forall>D tup. t_schema tup = TE_GetSchema te \<longrightarrow> Evaluate D p tup = sql_eval D tup e)
    else if but_for_operands (TE_GetSchema te) e then compile_where c t e = Inl MemoryFault
    else \<exists>x. compile_where c t e = Inl x \<and> (names_present e \<longrightarrow> x \<in> where_errors)"
proof -
  have "\<exists>p. compile_where c t e = Inr (Some p) \<and> (\<forall>D tup. t_schema tup = TE_GetSchema te \<longrightarrow> Evaluate D p tup = sql_eval D tup e)"
    if "supported (TE_GetSchema te) e"
  proof -
    from compile_supported [OF assms that] obtain b x p where b: "transformWhere e = Inr b" "BoundCompExpression c t b = Inr x"
      "TransformExpression x = Inr p" "\<forall>D tup. t_schema tup = TE_GetSchema te \<longrightarrow> Evaluate D p tup = sql_eval D tup e" by blast
    then show ?thesis by (cases x) (simp_all add: compile_where_def transform_filter_def)
  qed
  moreover have "compile_where c t e = Inl MemoryFault"
    if "but_for_operands (TE_GetSchema te) e" "\<not> supported (TE_GetSchema te) e" "e \<noteq> None"
    using missing_operand_faults [OF assms that(1)] that(2,3) by (auto simp: compile_where_def transform_filter_def)
  moreover have "\<exists>x. compile_where c t e = Inl x \<and> (names_present e \<longrightarrow> x \<in> where_errors)" if "\<not> but_for_operands (TE_GetSchema te) e"
    using that compiled_but_for_operands [OF assms, of e] transformWhere_errors [of e] bound_errors [OF assms]
    by (auto simp: compile_where_def split: sum.splits)
  ultimately show ?thesis by (auto simp: compile_where_def transform_filter_def)
qed

definition demo_where :: hExpr where
  "demo_where = HExpr kExprOperator None None 0 0 kOpAnd
     (Some (HExpr kExprOperator None None 0 0 kOpGreater (Some (HExpr kExprColumnRef (Some ''id'') None 0 0 kOpNone None None))
        (Some (HExpr kExprLiteralInt None None 3 0 kOpNone None None))))
     (Some (HExpr kExprOperator None None 0 0 kOpLike (Some (HExpr kExprColumnRef (Some ''name'') None 0 0 kOpNone None None))
        (Some (HExpr kExprLiteralString (Some ''an'') None 0 0 kOpNone None None))))"

lemma demo_catalog_table:
  obtains te where "table_known demo_catalog ''users'' 1 te" "map ce_name (TE_GetSchema te) = [''id'', ''name'']"
proof -
  obtain te where te: "build_columns demo_columns (TableEntry_new 1 ''users'') = Inr te" "names_indexed te" "te_id te = 1" "te_name te = ''users''"
    "map (\<lambda>c. (ce_name c, ce_type c)) (TE_GetSchema te) = map (\<lambda>d. (col_name d, col_type d)) demo_columns"
    using build_columns_run [OF names_indexed_new [of 1 "''users''"], of demo_columns] by (auto simp: demo_columns_def TableEntry_new_def TE_GetSchema_def)
  have "map ce_name (TE_GetSchema te) = map fst (map (\<lambda>c. (ce_name c, ce_type c)) (TE_GetSchema te))" by simp
  then have "map ce_name (TE_GetSchema te) = [''id'', ''name'']" by (simp only: te(5)) (simp add: demo_columns_def)
  moreover have "table_known demo_catalog ''users'' 1 te"
    using te by (auto simp: demo_catalog_def table_known_def BoundCreateTable_def GetNextEntryId_def Catalog_new_def comp_simps names_AddTable Cat_table_AddTable)
  ultimately show ?thesis by (rule that [rotated])
qed

text \<open>The conditions \<^verbatim>\<open>id IN (...)\<close> and \<^verbatim>\<open>*\<close>.\<close>

definition star_tree :: hExpr where
  "star_tree = HExpr kExprStar None None 0 0 kOpNone None None"

definition demo_in :: hExpr where
  "demo_in = HExpr kExprOperator None None 0 0 kOpIn (Some (HExpr kExprColumnRef (Some ''id'') None 0 0 kOpNone None None)) None"

lemma where_compiled_correctly_witness:
  "\<exists>te p x. table_known demo_catalog ''users'' 1 te \<and> compile_where demo_catalog ''users'' (Some demo_where) = Inr (Some p) \<and>
     (\<forall>D tup. t_schema tup = TE_GetSchema te \<longrightarrow> Evaluate D p tup = sql_eval D tup (Some demo_where)) \<and>
     compile_where demo_catalog ''users'' (Some demo_in) = Inl MemoryFault \<and>
     compile_where demo_catalog ''users'' (Some star_tree) = Inl x \<and> x \<in> where_errors"
proof -
  obtain te where te: "table_known demo_catalog ''users'' 1 te" "map ce_name (TE_GetSchema te) = [''id'', ''name'']"
    by (rule demo_catalog_table)
  have sch: "ce_name ` set (TE_GetSchema te) = {''id'', ''name''}" using arg_cong [OF te(2), of set] by simp
  then have "supported (TE_GetSchema te) (Some demo_where)" by (simp add: demo_where_def condition_op_def)
  then obtain p where p: "compile_where demo_catalog ''users'' (Some demo_where) = Inr (Some p)"
    "\<forall>D tup. t_schema tup = TE_GetSchema te \<longrightarrow> Evaluate D p tup = sql_eval D tup (Some demo_where)"
    using where_compiled_correctly [OF te(1), of "Some demo_where"] by auto
  have "compile_where demo_catalog ''users'' (Some demo_in) = Inl MemoryFault"
    using where_compiled_correctly [OF te(1), of "Some demo_in"] sch by (simp add: demo_in_def condition_op_def)
  moreover obtain x where "compile_where demo_catalog ''users'' (Some star_tree) = Inl x" "x \<in> where_errors"
    using where_compiled_correctly [OF te(1), of "Some star_tree"] by (auto simp: star_tree_def)
  ultimately show ?thesis using te(1) p by blast
qed

section \<open>Select lists and inserts\<close>

text \<open>The columns of a schema by position.\<close>

abbreviation (input) all_columns :: "entry_id \<Rightarrow> TableEntry \<Rightarrow> BoundExpression list" where
  "all_columns i te \<equiv> map (\<lambda>j. BColumnRef i (word_of_nat j)) [0..<length (te_columns te)]"

lemma column_index_distinct: "distinct (map ce_name sch) \<Longrightarrow> j < length sch \<Longrightarrow> column_index sch (ce_name (sch ! j)) = Some j"
proof (induction sch arbitrary: j)
  case (Cons c sch)
  show ?case
  proof (cases j)
    case (Suc k)
    then have "sch ! k \<in> set sch" using Cons.prems by simp
    then have "ce_name (sch ! k) \<noteq> ce_name c" using Cons.prems(1) by (auto simp: image_iff)
    then show ?thesis using Suc Cons by simp
  qed simp
qed simp

lemma bound_columns_map:
  "(\<And>n. n \<in> set ns \<Longrightarrow> BoundColumnRefExpression c t n = Inr (f n)) \<Longrightarrow> bound_columns c t ns = Inr (map f ns)"
  by (induction ns) auto

lemma bound_star:
  assumes "table_known c t i te"
  shows "BoundStarExpression c t = Inr (all_columns i te)"
proof -
  let ?sch = "TE_GetSchema te"
  note k = assms [unfolded table_known_def names_indexed_def]
  have ns: "map (\<lambda>p. ce_name (snd p)) (te_columns te) = map ce_name ?sch" by (simp add: TE_GetSchema_def)
  have "bound_columns c t (map ce_name ?sch) = Inr (map (\<lambda>n. BColumnRef i (word_of_nat (the (column_index ?sch n)))) (map ce_name ?sch))"
    by (rule bound_columns_map) (simp add: bound_column [OF assms])
  also have "map (\<lambda>n. BColumnRef i (word_of_nat (the (column_index ?sch n)))) (map ce_name ?sch) = all_columns i te"
    using k column_index_distinct [of ?sch] by (intro nth_equalityI) (simp_all add: TE_GetSchema_def)
  finally show ?thesis using k ns by (simp add: BoundStarExpression_def)
qed

lemma bound_items_columns:
  assumes "table_known c t i te" "set ns \<subseteq> ce_name ` set (TE_GetSchema te)"
  shows "bound_items c t (map (\<lambda>n. EColumn n al) ns) = Inr (map (\<lambda>n. BColumnRef i (word_of_nat (the (column_index (TE_GetSchema te) n)))) ns)"
  using assms(2) by (induction ns) (simp_all add: column_name_of_def bound_column [OF assms(1)])

text \<open>
  The select list: two or more column names are bound to the positions of these columns, in the order written; but a list of one
  item is taken for a star whatever the item is, so \<^verbatim>\<open>SELECT a FROM t\<close> returns all columns of the table.
\<close>

theorem select_list_bound:
  assumes "table_known c t i te" "set ns \<subseteq> ce_name ` set (TE_GetSchema te)"
  shows "bound_select_list c t (map (\<lambda>n. EColumn n al) ns) =
    (if length ns = 1 then Inr (all_columns i te)
     else Inr (map (\<lambda>n. BColumnRef i (word_of_nat (the (column_index (TE_GetSchema te) n)))) ns))"
  by (simp add: bound_select_list_def bound_star [OF assms(1)] bound_items_columns [OF assms])

lemma select_list_bound_witness:
  "bound_select_list demo_catalog ''users'' [EColumn ''name'' [], EColumn ''id'' []] = Inr [BColumnRef 1 1, BColumnRef 1 0] \<and>
   bound_select_list demo_catalog ''users'' [EColumn ''name'' []] = Inr [BColumnRef 1 0, BColumnRef 1 1]"
proof -
  obtain te where te: "table_known demo_catalog ''users'' 1 te" "map ce_name (TE_GetSchema te) = [''id'', ''name'']"
    by (rule demo_catalog_table)
  obtain a b where ab: "TE_GetSchema te = [a, b]" "ce_name a = ''id''" "ce_name b = ''name''" using te(2) by auto
  then have "length (te_columns te) = 2" by (simp add: TE_GetSchema_def) (metis length_Cons length_map list.size(3) numeral_2_eq_2)
  then show ?thesis
    using select_list_bound [OF te(1), of "[''name'', ''id'']" "[]"] select_list_bound [OF te(1), of "[''name'']" "[]"] ab
    by (simp add: upt_rec)
qed

text \<open>
  \<^verbatim>\<open>INSERT\<close> with a column the table does not have is not refused: the binder enters the unknown name into the index of the table with column
  id 0, the value is bound to the first column, and from then on the name is a column of the table for every later
  statement, although the schema has none of that name.
\<close>

theorem insert_unknown_column:
  assumes "table_known c t i te" "te_columns te \<noteq> []" "n \<notin> ce_name ` set (TE_GetSchema te)"
  shows "\<exists>c'. BoundInsert t [n] [v] c = (Inr (BoundInsertStatement i [0] [v]), c') \<and>
    BoundColumnRefExpression c' t n = Inr (BColumnRef i 0) \<and> \<not> cat_ok c'"
proof -
  let ?te = "te\<lparr>te_column_idx := (te_column_idx te)(n \<mapsto> 0)\<rparr>"
  let ?c = "c\<lparr>cat_tables := (cat_tables c)(i \<mapsto> Some ?te)\<rparr>"
  note k = assms(1) [unfolded table_known_def names_indexed_def]
  have tab: "cat_tables c i = Some (Some te)" using k by (auto simp: Cat_table_def split: option.splits)
  obtain p m where pm: "te_columns te = p # m" using assms(2) by (cases "te_columns te") auto
  have "map word_of_nat [0..<length (te_columns te)] ! 0 = (0 :: entry_id)" using pm by (subst nth_map) (simp_all add: upt_conv_Cons del: upt_Suc)
  then have "TE_GetColumnIds te ! 0 = 0" using k by metis
  then have first: "map_of (te_columns te) 0 = Some (snd p)" using pm by (simp add: TE_GetColumnIds_def)
  have "te_column_idx te n = None" using k assms(3) column_index_none [of "TE_GetSchema te" n] by simp
  then have "BoundInsert t [n] [v] c = (Inr (BoundInsertStatement i [0] [v]), ?c)"
    using k tab first
    by (simp add: BoundInsert_def lookup_table_def touch_table_def lookup_column_def comp_simps Cat_table_def TE_GetColumnForId_def)
  moreover have "BoundColumnRefExpression ?c t n = Inr (BColumnRef i 0)" using k by (simp add: BoundColumnRefExpression_def Cat_table_def)
  moreover have "\<not> names_indexed ?te"
    using assms(3) column_index_none [of "TE_GetSchema te" n] by (auto simp: names_indexed_def TE_GetSchema_def intro!: exI [of _ n])
  then have "\<not> cat_ok ?c" using k by (auto simp: cat_ok_def table_known_def Cat_table_def intro!: exI [of _ t])
  ultimately show ?thesis by blast
qed

lemma insert_unknown_column_witness:
  "\<exists>c'. BoundInsert ''users'' [''nmae''] [Value_of (VString [65])] demo_catalog = (Inr (BoundInsertStatement 1 [0] [Value_of (VString [65])]), c')"
proof -
  obtain te where te: "table_known demo_catalog ''users'' 1 te" "map ce_name (TE_GetSchema te) = [''id'', ''name'']"
    by (rule demo_catalog_table)
  have "te_columns te \<noteq> []" using te(2) by (auto simp: TE_GetSchema_def)
  moreover have "''nmae'' \<notin> ce_name ` set (TE_GetSchema te)" using arg_cong [OF te(2), of set] by simp
  ultimately show ?thesis using insert_unknown_column [OF te(1)] by blast
qed

end
