(* ===== verification/Executors.thy ===== *)
theory Executors
  imports Write_Executors Sql_Front
begin

text \<open>
  The tree of executors (\<^verbatim>\<open>executor/executor_factory.cpp\<close>, \<^verbatim>\<open>executor_filter.cpp\<close>, \<^verbatim>\<open>executor_projection.cpp\<close>) and the drivers that
  run a tree and print its rows (\<^verbatim>\<open>executor/execute.cpp\<close>).  Every operator offers \<^verbatim>\<open>Open\<close>, \<^verbatim>\<open>Next\<close> and \<^verbatim>\<open>Close\<close>; \<^verbatim>\<open>Next\<close> fills the tuple
  of its caller, so the tuple is passed in and out.  The text printed before an exception is not kept.
\<close>

section \<open>The operators\<close>

datatype Executor =
    XCreateTable entry_id
  | XSeqScan ExecutorSeqScan
  | XValues ExecutorValues
  | XFilter "PhysicalExpression option" Executor
  | XProjection "entry_id list" Executor
  | XInsert ExecutorInsert Executor
  | XDelete ExecutorDelete
  | XUpdate ExecutorUpdate

text \<open>The loop of the filter over the tuples of its child \<open>c\<close>, whose operation \<^verbatim>\<open>Next\<close> is \<open>nxt\<close>.\<close>

fun filter_loop :: "('c \<Rightarrow> Tuple \<Rightarrow> ('s, 'c \<times> Tuple \<times> bool) comp) \<Rightarrow> (Tuple \<Rightarrow> bool res) \<Rightarrow> nat \<Rightarrow> 'c \<Rightarrow> Tuple \<Rightarrow> ('s, 'c \<times> Tuple option) comp" where
  "filter_loop nxt test 0 c cand = throw OutOfFuel"
| "filter_loop nxt test (Suc n) c cand = bnd (nxt c cand) (\<lambda>(c', cand', more).
     if \<not> more then ret (c', None)
     else bnd (of_res (test cand')) (\<lambda>b. if b then bnd (of_res (Tuple_Copy cand')) (\<lambda>t. ret (c', Some t)) else filter_loop nxt test n c' cand'))"

text \<open>The condition of the filter; a null value is not looked at, its \<^verbatim>\<open>GetBool\<close> throws.\<close>

definition filter_test :: "DoubleOps \<Rightarrow> PhysicalExpression option \<Rightarrow> Tuple \<Rightarrow> bool res" where
  "filter_test D e t = (case e of None \<Rightarrow> Inl MemoryFault
     | Some p \<Rightarrow> (case Evaluate D p t of Inl x \<Rightarrow> Inl x | Inr v \<Rightarrow> GetBool v))"

definition project_values :: "entry_id list \<Rightarrow> Value list \<Rightarrow> Value list res" where
  "project_values ids vs = (if list_all (\<lambda>i. unat i < length vs) ids then Inr (map (\<lambda>i. vs ! unat i) ids) else Inl MemoryFault)"

definition project_tuple :: "entry_id list \<Rightarrow> Tuple \<Rightarrow> Tuple \<Rightarrow> Tuple res" where
  "project_tuple ids input t = (case t_data input of None \<Rightarrow> Inl MemoryFault
     | Some d \<Rightarrow> (case Row_Deserialize (t_schema input) d of Inl e \<Rightarrow> Inl e
        | Inr (h, vs) \<Rightarrow> (case project_values ids vs of Inl e \<Rightarrow> Inl e
           | Inr r \<Rightarrow> Inr (t\<lparr>t_schema := t_schema input, t_query_result := r\<rparr>))))"

text \<open>\<open>depth\<close> bounds the height of the tree, \<open>fuel\<close> the loops.\<close>

fun X_Next :: "DoubleOps \<Rightarrow> nat \<Rightarrow> ExecutorContext \<Rightarrow> nat \<Rightarrow> Executor \<Rightarrow> Tuple \<Rightarrow> (DB, Executor \<times> Tuple \<times> bool) comp" where
  "X_Next D fuel ctx 0 x t = throw OutOfFuel"
| "X_Next D fuel ctx (Suc depth) x t = (case x of
     XCreateTable table \<Rightarrow> thn (XC_Next table) (ret (x, t, True))
   | XSeqScan sq \<Rightarrow> bnd (SS_Next fuel ctx sq) (\<lambda>(sq', r). ret (case r of
       None \<Rightarrow> (XSeqScan sq', t, False) | Some t' \<Rightarrow> (XSeqScan sq', t', True)))
   | XValues xv \<Rightarrow> bnd (XV_Next ctx xv t) (\<lambda>(xv', t', b). ret (XValues xv', t', b))
   | XFilter e c \<Rightarrow> bnd (filter_loop (X_Next D fuel ctx depth) (filter_test D e) fuel c Tuple_new) (\<lambda>(c', r). ret (case r of
       None \<Rightarrow> (XFilter e c', t, False) | Some t' \<Rightarrow> (XFilter e c', t', True)))
   | XProjection ids c \<Rightarrow> bnd (X_Next D fuel ctx depth c Tuple_new) (\<lambda>(c', input, more).
       if \<not> more then ret (XProjection ids c', t, False)
       else bnd (of_res (project_tuple ids input t)) (\<lambda>t'. ret (XProjection ids c', t', True)))
   | XInsert xi c \<Rightarrow> bnd (insert_loop (X_Next D fuel ctx depth) fuel ctx xi c t) (\<lambda>(xi', c', t'). ret (XInsert xi' c', t', True))
   | XDelete xd \<Rightarrow> bnd (XD_Next D fuel ctx xd) (\<lambda>xd'. ret (XDelete xd', t, False))
   | XUpdate xu \<Rightarrow> bnd (XU_Next D fuel ctx xu) (\<lambda>xu'. ret (XUpdate xu', t, False)))"

fun X_Open :: "nat \<Rightarrow> Executor \<Rightarrow> (DB, Executor) comp" where
  "X_Open fuel (XCreateTable table) = ret (XCreateTable table)"
| "X_Open fuel (XSeqScan sq) = bnd (SS_Open fuel sq) (\<lambda>sq'. ret (XSeqScan sq'))"
| "X_Open fuel (XValues xv) = bnd (XV_Open xv) (\<lambda>xv'. ret (XValues xv'))"
| "X_Open fuel (XFilter e c) = bnd (X_Open fuel c) (\<lambda>c'. ret (XFilter e c'))"
| "X_Open fuel (XProjection ids c) = bnd (X_Open fuel c) (\<lambda>c'. ret (XProjection ids c'))"
| "X_Open fuel (XInsert xi c) = bnd (XI_open_page xi) (\<lambda>xi'. bnd (X_Open fuel c) (\<lambda>c'. ret (XInsert xi' c')))"
| "X_Open fuel (XDelete xd) = bnd (XD_Open fuel xd) (\<lambda>xd'. ret (XDelete xd'))"
| "X_Open fuel (XUpdate xu) = bnd (XU_Open fuel xu) (\<lambda>xu'. ret (XUpdate xu'))"

fun X_Close :: "Executor \<Rightarrow> (DB, Executor) comp" where
  "X_Close (XCreateTable table) = ret (XCreateTable table)"
| "X_Close (XSeqScan sq) = ret (XSeqScan (SS_Close sq))"
| "X_Close (XValues xv) = ret (XValues (XV_Close xv))"
| "X_Close (XFilter e c) = bnd (X_Close c) (\<lambda>c'. ret (XFilter e c'))"
| "X_Close (XProjection ids c) = bnd (X_Close c) (\<lambda>c'. ret (XProjection ids c'))"
| "X_Close (XInsert xi c) = bnd (XI_release xi) (\<lambda>xi'. bnd (X_Close c) (\<lambda>c'. ret (XInsert xi' c')))"
| "X_Close (XDelete xd) = ret (XDelete (XD_Close xd))"
| "X_Close (XUpdate xu) = ret (XUpdate (XU_Close xu))"

section \<open>The factory\<close>

fun BuildExecutor :: "Catalog \<Rightarrow> PhysicalOperator \<Rightarrow> Executor res" where
  "BuildExecutor c (PhysicalCreateTable table) = Inr (XCreateTable table)"
| "BuildExecutor c (PhysicalSeqScan table) = (case Cat_GetTableName c table of Inl e \<Rightarrow> Inl e
     | Inr n \<Rightarrow> Inr (XSeqScan (ExecutorSeqScan_new n)))"
| "BuildExecutor c (PhysicalProjection ids p) = (case BuildExecutor c p of Inl e \<Rightarrow> Inl e | Inr x \<Rightarrow> Inr (XProjection ids x))"
| "BuildExecutor c (PhysicalFilter e p) = (case BuildExecutor c p of Inl x \<Rightarrow> Inl x | Inr x \<Rightarrow> Inr (XFilter e x))"
| "BuildExecutor c (PhysicalValues ids vs table) =
     (if cat_tables c table = None then Inl (RuntimeError ''ExecutorFactory::BuildExecutor Invalid table id'')
      else Inr (XValues \<lparr>xv_table = table, xv_column_ids = ids, xv_values = vs, xv_row = None, xv_used = False\<rparr>))"
| "BuildExecutor c (PhysicalInsert table ids p) = (case BuildExecutor c p of Inl e \<Rightarrow> Inl e
     | Inr x \<Rightarrow> Inr (XInsert \<lparr>xi_table = table, xi_column_ids = ids, xi_page = None\<rparr> x))"
| "BuildExecutor c (PhysicalDelete table flt) = (case Cat_GetTableName c table of Inl e \<Rightarrow> Inl e
     | Inr n \<Rightarrow> Inr (XDelete \<lparr>xd_table_name = n, xd_filter = flt, xd_iterator = None, xd_schema = [], xd_table = 0, xd_count = 0, xd_done = False\<rparr>))"
| "BuildExecutor c (PhysicalUpdate table sets flt) = Inr (XUpdate \<lparr>xu_table = table, xu_sets = sets, xu_filter = flt, xu_iterator = None,
     xu_schema = [], xu_table_name = [], xu_count = 0, xu_done = False\<rparr>)"

section \<open>The drivers\<close>

text \<open>What is printed in one field of a row; the layout of the text is not modelled.\<close>

datatype Cell = CellNull | CellInt u32 | CellDouble u64 | CellString bytes | CellBool bool | CellTimestamp u64 | CellUnknown

definition print_value :: "ColumnTypes \<Rightarrow> Value \<Rightarrow> Cell res" where
  "print_value ty v = (if v_null v then Inr CellNull
     else case ty of
       CT_INTEGER \<Rightarrow> (case GetInt v of Inl e \<Rightarrow> Inl e | Inr i \<Rightarrow> Inr (CellInt i))
     | CT_DOUBLE \<Rightarrow> (case GetDouble v of Inl e \<Rightarrow> Inl e | Inr i \<Rightarrow> Inr (CellDouble i))
     | CT_VARCHAR \<Rightarrow> (case GetString v of Inl e \<Rightarrow> Inl e | Inr i \<Rightarrow> Inr (CellString i))
     | CT_VARCHAR2 \<Rightarrow> (case GetString v of Inl e \<Rightarrow> Inl e | Inr i \<Rightarrow> Inr (CellString i))
     | CT_BOOL \<Rightarrow> (case GetBool v of Inl e \<Rightarrow> Inl e | Inr i \<Rightarrow> Inr (CellBool i))
     | CT_TIMESTAMP \<Rightarrow> (case GetTimestamp v of Inl e \<Rightarrow> Inl e | Inr i \<Rightarrow> Inr (CellTimestamp i))
     | _ \<Rightarrow> Inr CellUnknown)"

fun print_values :: "Schema \<Rightarrow> Value list \<Rightarrow> Cell list res" where
  "print_values sch [] = Inr []"
| "print_values [] (v # vs) = Inl MemoryFault"
| "print_values (c # sch) (v # vs) = (case print_value (ce_type c) v of Inl e \<Rightarrow> Inl e
     | Inr x \<Rightarrow> (case print_values sch vs of Inl e \<Rightarrow> Inl e | Inr xs \<Rightarrow> Inr (x # xs)))"

text \<open>\<open>ex_rows\<close> are the printed rows; their number is \<^verbatim>\<open>row_count_\<close>.  \<open>ex_header\<close> are the column names of the header, once printed.\<close>

record Execute =
  ex_header :: "string list option"
  ex_rows :: "Cell list list"

definition values_to_print :: "Tuple \<Rightarrow> Value list res" where
  "values_to_print t = (if t_query_result t \<noteq> [] then Inr (t_query_result t)
     else case t_data t of None \<Rightarrow> Inr []
       | Some d \<Rightarrow> (case Row_Deserialize (t_schema t) d of Inl e \<Rightarrow> Inl e | Inr (h, vs) \<Rightarrow> Inr vs))"

definition PrintTuple :: "Tuple \<Rightarrow> Execute \<Rightarrow> Execute res" where
  "PrintTuple t ex = (let hd = (case ex_header ex of None \<Rightarrow> Some (map ce_name (t_schema t)) | Some h \<Rightarrow> Some h) in
     case values_to_print t of Inl e \<Rightarrow> Inl e
     | Inr vs \<Rightarrow> (case print_values (t_schema t) vs of Inl e \<Rightarrow> Inl e
        | Inr cs \<Rightarrow> Inr \<lparr>ex_header = hd, ex_rows = ex_rows ex @ [cs]\<rparr>))"

fun query_loop :: "('c \<Rightarrow> Tuple \<Rightarrow> ('s, 'c \<times> Tuple \<times> bool) comp) \<Rightarrow> nat \<Rightarrow> 'c \<Rightarrow> Tuple \<Rightarrow> Execute \<Rightarrow> ('s, 'c \<times> Execute) comp" where
  "query_loop nxt 0 c t ex = throw OutOfFuel"
| "query_loop nxt (Suc n) c t ex = bnd (nxt c t) (\<lambda>(c', t', more).
     if \<not> more then ret (c', ex) else bnd (of_res (PrintTuple t' ex)) (query_loop nxt n c' t'))"

definition ExecuteQuery :: "DoubleOps \<Rightarrow> nat \<Rightarrow> ExecutorContext \<Rightarrow> Executor \<Rightarrow> (DB, Execute) comp" where
  "ExecuteQuery D fuel ctx root = bnd (X_Open fuel root) (\<lambda>r1.
     bnd (query_loop (X_Next D fuel ctx fuel) fuel r1 Tuple_new \<lparr>ex_header = None, ex_rows = []\<rparr>) (\<lambda>(r2, ex).
     thn (X_Close r2) (ret ex)))"

definition ExecuteInsert :: "DoubleOps \<Rightarrow> nat \<Rightarrow> ExecutorContext \<Rightarrow> Executor \<Rightarrow> (DB, unit) comp" where
  "ExecuteInsert D fuel ctx root = bnd (X_Open fuel root) (\<lambda>r1. bnd (X_Next D fuel ctx fuel r1 Tuple_new) (\<lambda>(r2, t, b).
     thn (X_Close r2) (ret ())))"

fun drain_loop :: "('c \<Rightarrow> Tuple \<Rightarrow> ('s, 'c \<times> Tuple \<times> bool) comp) \<Rightarrow> nat \<Rightarrow> 'c \<Rightarrow> Tuple \<Rightarrow> ('s, 'c) comp" where
  "drain_loop nxt 0 c t = throw OutOfFuel"
| "drain_loop nxt (Suc n) c t = bnd (nxt c t) (\<lambda>(c', t', more). if more then drain_loop nxt n c' t' else ret c')"

definition ExecuteDelete :: "DoubleOps \<Rightarrow> nat \<Rightarrow> ExecutorContext \<Rightarrow> Executor \<Rightarrow> (DB, u64) comp" where
  "ExecuteDelete D fuel ctx root = bnd (X_Open fuel root) (\<lambda>r1. bnd (drain_loop (X_Next D fuel ctx fuel) fuel r1 Tuple_new) (\<lambda>r2.
     thn (X_Close r2) (ret (case r2 of XDelete xd \<Rightarrow> xd_count xd | _ \<Rightarrow> 0))))"

definition ExecuteUpdate :: "DoubleOps \<Rightarrow> nat \<Rightarrow> ExecutorContext \<Rightarrow> Executor \<Rightarrow> (DB, u64) comp" where
  "ExecuteUpdate D fuel ctx root = bnd (X_Open fuel root) (\<lambda>r1. bnd (drain_loop (X_Next D fuel ctx fuel) fuel r1 Tuple_new) (\<lambda>r2.
     thn (X_Close r2) (ret (case r2 of XUpdate xu \<Rightarrow> xu_count xu | _ \<Rightarrow> 0))))"

definition ExecuteCreateTable :: "DoubleOps \<Rightarrow> nat \<Rightarrow> ExecutorContext \<Rightarrow> Executor \<Rightarrow> (DB, unit) comp" where
  "ExecuteCreateTable D fuel ctx root = bnd (X_Open fuel root) (\<lambda>r1. bnd (X_Next D fuel ctx fuel r1 Tuple_new) (\<lambda>(r2, t, b).
     thn (X_Close r2) (ret ())))"

section \<open>Operators as sources of rows\<close>

text \<open>
  The contract between an operator and its consumer: as long as rows are left, a call of \<^verbatim>\<open>Next\<close> delivers the first of them into the tuple of the caller
  (\<open>put\<close>), and after the last one it reports the end and leaves the tuple alone.  \<open>still\<close> is what a call may do to the state, \<open>ended\<close> holds when the
  source is used up.
\<close>

locale row_source =
  fixes nxt :: "'c \<Rightarrow> Tuple \<Rightarrow> ('s, 'c \<times> Tuple \<times> bool) comp"
    and put :: "Tuple \<Rightarrow> Tuple \<Rightarrow> Tuple"
    and source :: "'c \<Rightarrow> 's \<Rightarrow> Tuple list \<Rightarrow> bool"
    and ended :: "'c \<Rightarrow> 's \<Rightarrow> bool"
    and still :: "'s \<Rightarrow> 's \<Rightarrow> bool"
  assumes next_row: "source c s (r # rs) \<Longrightarrow> \<exists>c' s'. nxt c t s = (Inr (c', put t r, True), s') \<and> source c' s' rs \<and> still s s'"
    and next_end: "source c s [] \<Longrightarrow> \<exists>c' s'. nxt c t s = (Inr (c', t, False), s') \<and> ended c' s' \<and> still s s'"
    and still_trans: "still s s' \<Longrightarrow> still s' s'' \<Longrightarrow> still s s''"
begin

lemma query_run:
  assumes "source c s rows" "length rows < n"
    and "\<And>r t ex. r \<in> set rows \<Longrightarrow> PrintTuple (put t r) ex =
      Inr \<lparr>ex_header = Some (case ex_header ex of None \<Rightarrow> names | Some h \<Rightarrow> h), ex_rows = ex_rows ex @ [cells r]\<rparr>"
  shows "\<exists>c' s'. query_loop nxt n c t ex s = (Inr (c', \<lparr>ex_header = (if rows = [] then ex_header ex
      else Some (case ex_header ex of None \<Rightarrow> names | Some h \<Rightarrow> h)), ex_rows = ex_rows ex @ map cells rows\<rparr>), s') \<and> ended c' s' \<and> still s s'"
  using assms
proof (induction n arbitrary: c s rows t ex)
  case (Suc n)
  show ?case
  proof (cases rows)
    case Nil
    then show ?thesis using next_end [of c s t] Suc.prems(1) by (auto simp: comp_simps)
  next
    case (Cons r rest)
    obtain c' s' where n: "nxt c t s = (Inr (c', put t r, True), s')" "source c' s' rest" "still s s'"
      using next_row [of c s r rest t] Suc.prems(1) Cons by auto
    let ?ex = "\<lparr>ex_header = Some (case ex_header ex of None \<Rightarrow> names | Some h \<Rightarrow> h), ex_rows = ex_rows ex @ [cells r]\<rparr>"
    have p: "PrintTuple (put t r) ex = Inr ?ex" using Suc.prems(3) Cons by simp
    from Suc.IH [OF n(2), of "put t r" ?ex] Suc.prems(2,3) Cons show ?thesis
      using n(1,3) p still_trans [OF n(3)] by (auto simp: comp_simps)
  qed
qed simp

end

text \<open>A source whose rows replace the tuple of the caller; this is what a filter needs of its child.\<close>

locale plain_source = row_source nxt "\<lambda>t r. r" source ended still
  for nxt :: "'c \<Rightarrow> Tuple \<Rightarrow> ('s, 'c \<times> Tuple \<times> bool) comp" and source ended still
begin

lemma filter_run:
  assumes "source c s rows" "length rows < n" "\<And>r. r \<in> set rows \<Longrightarrow> test r = Inr (P r) \<and> Tuple_Copy r = Inr r"
  shows "\<exists>c' s' out. filter_loop nxt test n c cand s = (Inr (c', out), s') \<and> still s s' \<and>
    (case filter P rows of [] \<Rightarrow> out = None \<and> ended c' s'
     | r # rs \<Rightarrow> out = Some r \<and> (\<exists>rest. source c' s' rest \<and> filter P rest = rs \<and> set rest \<subseteq> set rows \<and> length rest < length rows))"
  using assms
proof (induction n arbitrary: c s rows cand)
  case (Suc n)
  show ?case
  proof (cases rows)
    case Nil
    then show ?thesis using next_end [of c s cand] Suc.prems(1) by (auto simp: comp_simps)
  next
    case (Cons r rest)
    obtain c' s' where n: "nxt c cand s = (Inr (c', r, True), s')" "source c' s' rest" "still s s'"
      using next_row [of c s r rest cand] Suc.prems(1) Cons by auto
    have t: "test r = Inr (P r)" "Tuple_Copy r = Inr r" using Suc.prems(3) Cons by simp_all
    show ?thesis
    proof (cases "P r")
      case True
      then show ?thesis using n t Cons by (auto simp: comp_simps)
    next
      case False
      obtain c2 s2 out where i: "filter_loop nxt test n c' r s' = (Inr (c2, out), s2)" "still s' s2"
        "case filter P rest of [] \<Rightarrow> out = None \<and> ended c2 s2
         | q # qs \<Rightarrow> out = Some q \<and> (\<exists>l. source c2 s2 l \<and> filter P l = qs \<and> set l \<subseteq> set rest \<and> length l < length rest)"
        using Suc.IH [OF n(2), of r] Suc.prems(2,3) Cons by auto
      have "filter_loop nxt test (Suc n) c cand s = (Inr (c2, out), s2)" using n(1) t(1) False i(1) by (simp add: comp_simps)
      moreover have "still s s2" using still_trans [OF n(3) i(2)] .
      ultimately show ?thesis using i(3) False Cons by (fastforce split: list.splits)
    qed
  qed
qed simp

end

section \<open>The trees of a query\<close>

text \<open>The rows a scan, or a stack of filters over a scan, has still to deliver; \<open>n\<close> frames are free when it is used up.\<close>

definition seen :: "bytes option list \<Rightarrow> bytes list" where
  "seen xs = map the (filter (\<lambda>x. x \<noteq> None) xs)"

fun height :: "Executor \<Rightarrow> nat" where
  "height (XFilter e c) = Suc (height c)"
| "height x = 0"

fun plain_rows :: "DoubleOps \<Rightarrow> nat \<Rightarrow> ExecutorContext \<Rightarrow> nat \<Rightarrow> Executor \<Rightarrow> DB \<Rightarrow> Tuple list \<Rightarrow> bool" where
  "plain_rows D fuel ctx n (XSeqScan sq) d ts \<longleftrightarrow> (\<exists>ps rows xs. scanning fuel n ps ctx sq d rows xs \<and> length rows < fuel \<and>
     ts = map (scan_tuple (sq_schema sq)) (seen xs))"
| "plain_rows D fuel ctx n (XFilter e c) d ts \<longleftrightarrow> (\<exists>cs P. plain_rows D fuel ctx n c d cs \<and> length cs < fuel \<and>
     (\<forall>r \<in> set cs. filter_test D e r = Inr (P r) \<and> Tuple_Copy r = Inr r) \<and> ts = filter P cs)"
| "plain_rows D fuel ctx n x d ts \<longleftrightarrow> False"

definition pages_kept :: "DB \<Rightarrow> DB \<Rightarrow> bool" where
  "pages_kept d d' \<longleftrightarrow> (\<exists>c. d' = with_bm c d \<and> keeps_pages (db_bm d) c)"

text \<open>When the source is used up, all frames are free again, and closing it does nothing more to the state.\<close>

definition used_up :: "nat \<Rightarrow> Executor \<Rightarrow> DB \<Rightarrow> bool" where
  "used_up n x d \<longleftrightarrow> length (bm_free (db_bm d)) = n \<and> (\<forall>e. \<exists>x'. X_Close x e = (Inr x', e))"

lemma used_up_over: "used_up n c d \<Longrightarrow> used_up n (XFilter e c) d" "used_up n c d \<Longrightarrow> used_up n (XProjection ids c) d"
  by (auto simp: used_up_def comp_simps) (metis bnd_run_Inr ret_run)+

lemma pages_kept_trans: "pages_kept d e \<Longrightarrow> pages_kept e f \<Longrightarrow> pages_kept d f"
  using keeps_pages_trans by (fastforce simp: pages_kept_def)

lemma scan_next_row:
  assumes "plain_rows D fuel ctx n (XSeqScan sq) d (r # rs)"
  shows "\<exists>sq' d'. SS_Next fuel ctx sq d = (Inr (sq', Some r), d') \<and> plain_rows D fuel ctx n (XSeqScan sq') d' rs \<and> pages_kept d d'"
proof -
  obtain ps rows xs where s: "scanning fuel n ps ctx sq d rows xs" "length rows < fuel" "r # rs = map (scan_tuple (sq_schema sq)) (seen xs)"
    using assms by auto
  obtain sq' out c where o: "scan_rows fuel fuel ctx sq d = (Inr (sq', out), with_bm c d)" "keeps_pages (db_bm d) c"
    "delivers fuel n ps ctx (sq_schema sq) rows xs sq' out (with_bm c d)" using scan_rows_run [OF s(1,2)] by blast
  then obtain y rest ys where y: "out = Some (scan_tuple (sq_schema sq) y)" "seen xs = y # seen ys" "scanning fuel n ps ctx sq' (with_bm c d) rest ys"
    "length rest < length rows" "sq_schema sq' = sq_schema sq" using s(3) by (cases out) (auto simp: delivers_def seen_def)
  then have "plain_rows D fuel ctx n (XSeqScan sq') (with_bm c d) rs"
    using s(2,3) by (auto intro!: exI [of _ ps] exI [of _ rest] exI [of _ ys])
  moreover have "out = Some r" using y(1,2) s(3) by simp
  ultimately show ?thesis using o(1,2) by (auto simp: SS_Next_def pages_kept_def)
qed

lemma scan_next_end:
  assumes "plain_rows D fuel ctx n (XSeqScan sq) d []"
  shows "\<exists>sq' d'. SS_Next fuel ctx sq d = (Inr (sq', None), d') \<and> used_up n (XSeqScan sq') d' \<and> pages_kept d d'"
proof -
  obtain ps rows xs where s: "scanning fuel n ps ctx sq d rows xs" "length rows < fuel" "seen xs = []" using assms by auto
  obtain sq' out c where o: "scan_rows fuel fuel ctx sq d = (Inr (sq', out), with_bm c d)" "keeps_pages (db_bm d) c"
    "delivers fuel n ps ctx (sq_schema sq) rows xs sq' out (with_bm c d)" using scan_rows_run [OF s(1,2)] by blast
  then have "out = None" "used_up n (XSeqScan sq') (with_bm c d)"
    using s(3) by (cases out; auto simp: delivers_def seen_def used_up_def comp_simps)+
  then show ?thesis using o(1,2) by (auto simp: SS_Next_def pages_kept_def)
qed

lemma plain_filterE:
  assumes "plain_rows D fuel ctx n (XFilter e c) d ts"
  obtains cs P where "plain_rows D fuel ctx n c d cs" "length cs < fuel" "\<forall>q \<in> set cs. filter_test D e q = Inr (P q) \<and> Tuple_Copy q = Inr q"
    "filter P cs = ts" using assms by (metis plain_rows.simps(2))

lemma plain_filterI:
  "plain_rows D fuel ctx n c d cs \<Longrightarrow> length cs < fuel \<Longrightarrow> \<forall>q \<in> set cs. filter_test D e q = Inr (P q) \<and> Tuple_Copy q = Inr q \<Longrightarrow>
   plain_rows D fuel ctx n (XFilter e c) d (filter P cs)" by auto

lemma plain_source_depth:
  "plain_source (X_Next D fuel ctx depth) (\<lambda>x d ts. height x < depth \<and> plain_rows D fuel ctx n x d ts) (used_up n) pages_kept"
proof (induction depth)
  case 0
  show ?case using pages_kept_trans by unfold_locales auto
next
  case (Suc m)
  let ?nxt = "X_Next D fuel ctx" and ?src = "\<lambda>m x d ts. height x < m \<and> plain_rows D fuel ctx n x d ts"
  note child = plain_source.filter_run [OF Suc.IH]
  show ?case
  proof
    fix c s r rs t
    assume a: "?src (Suc m) c s (r # rs)"
    show "\<exists>c' s'. ?nxt (Suc m) c t s = (Inr (c', r, True), s') \<and> ?src (Suc m) c' s' rs \<and> pages_kept s s'"
    proof (cases c)
      case (XSeqScan sq)
      then show ?thesis using a scan_next_row [of D fuel ctx n sq s r rs] by (auto simp: comp_simps simp del: plain_rows.simps)
    next
      case (XFilter e x)
      then have h: "height x < m" "plain_rows D fuel ctx n (XFilter e x) s (r # rs)" using a by simp_all
      obtain cs P where cs: "plain_rows D fuel ctx n x s cs" "length cs < fuel" "\<forall>q \<in> set cs. filter_test D e q = Inr (P q) \<and> Tuple_Copy q = Inr q"
        "filter P cs = r # rs" by (rule plain_filterE [OF h(2)])
      obtain c' s' rest where "filter_loop (?nxt m) (filter_test D e) fuel x Tuple_new s = (Inr (c', Some r), s')" "pages_kept s s'"
        "?src m c' s' rest" "filter P rest = rs" "set rest \<subseteq> set cs" "length rest < length cs"
        using child [OF conjI [OF h(1) cs(1)] cs(2), where P = P and test = "filter_test D e" and cand = Tuple_new] cs(3,4) by auto
      then show ?thesis using XFilter cs(2,3) by (fastforce simp: comp_simps)
    qed (use a in auto)
  next
    fix c s t
    assume a: "?src (Suc m) c s []"
    show "\<exists>c' s'. ?nxt (Suc m) c t s = (Inr (c', t, False), s') \<and> used_up n c' s' \<and> pages_kept s s'"
    proof (cases c)
      case (XSeqScan sq)
      then show ?thesis using a scan_next_end [of D fuel ctx n sq s] by (auto simp: comp_simps simp del: plain_rows.simps)
    next
      case (XFilter e x)
      then have h: "height x < m" "plain_rows D fuel ctx n (XFilter e x) s ([])" using a by simp_all
      obtain cs P where cs: "plain_rows D fuel ctx n x s cs" "length cs < fuel" "\<forall>q \<in> set cs. filter_test D e q = Inr (P q) \<and> Tuple_Copy q = Inr q"
        "filter P cs = []" by (rule plain_filterE [OF h(2)])
      obtain c' s' where "filter_loop (?nxt m) (filter_test D e) fuel x Tuple_new s = (Inr (c', None), s')" "pages_kept s s'" "used_up n c' s'"
        using child [OF conjI [OF h(1) cs(1)] cs(2), where P = P and test = "filter_test D e" and cand = Tuple_new] cs(3,4) by auto
      then show ?thesis using XFilter used_up_over(1) by (auto simp: comp_simps)
    qed (use a in auto)
  qed (rule pages_kept_trans)
qed

interpretation plain: plain_source "X_Next D fuel ctx depth" "\<lambda>x d ts. height x < depth \<and> plain_rows D fuel ctx n x d ts" "used_up n" pages_kept
  for D fuel ctx depth n by (rule plain_source_depth)

text \<open>A projection over such a tree writes the chosen values into the tuple of its caller.\<close>

definition put_result :: "Tuple \<Rightarrow> Tuple \<Rightarrow> Tuple" where
  "put_result t r = t\<lparr>t_schema := t_schema r, t_query_result := t_query_result r\<rparr>"

definition projected_rows :: "DoubleOps \<Rightarrow> nat \<Rightarrow> ExecutorContext \<Rightarrow> nat \<Rightarrow> nat \<Rightarrow> Executor \<Rightarrow> DB \<Rightarrow> Tuple list \<Rightarrow> bool" where
  "projected_rows D fuel ctx depth n x d ts \<longleftrightarrow> (\<exists>ids c cs. x = XProjection ids c \<and> height c < depth \<and> plain_rows D fuel ctx n c d cs \<and>
     list_all2 (\<lambda>input r. project_tuple ids input Tuple_new = Inr r) cs ts)"

lemma project_tuple_put: "project_tuple ids input Tuple_new = Inr r \<Longrightarrow> project_tuple ids input t = Inr (put_result t r)"
  by (auto simp: project_tuple_def put_result_def split: option.splits sum.splits)

interpretation projected: row_source "X_Next D fuel ctx (Suc depth)" put_result "projected_rows D fuel ctx depth n" "used_up n" pages_kept
  for D fuel ctx depth n
proof
  fix x s r rs t
  assume "projected_rows D fuel ctx depth n x s (r # rs)"
  then obtain ids c q cs where p: "x = XProjection ids c" "height c < depth \<and> plain_rows D fuel ctx n c s (q # cs)"
    "project_tuple ids q Tuple_new = Inr r" "list_all2 (\<lambda>input r. project_tuple ids input Tuple_new = Inr r) cs rs"
    by (auto simp: projected_rows_def list_all2_Cons2)
  then show "\<exists>c' s'. X_Next D fuel ctx (Suc depth) x t s = (Inr (c', put_result t r, True), s') \<and> projected_rows D fuel ctx depth n c' s' rs \<and> pages_kept s s'"
    using plain.next_row [OF p(2), of Tuple_new] project_tuple_put [OF p(3), of t] by (auto simp: comp_simps projected_rows_def)
next
  fix x s t
  assume "projected_rows D fuel ctx depth n x s []"
  then obtain ids c where p: "x = XProjection ids c" "height c < depth \<and> plain_rows D fuel ctx n c s []" by (auto simp: projected_rows_def)
  then show "\<exists>c' s'. X_Next D fuel ctx (Suc depth) x t s = (Inr (c', t, False), s') \<and> used_up n c' s' \<and> pages_kept s s'"
    using plain.next_end [OF p(2), of Tuple_new] used_up_over(2) by (fastforce simp: comp_simps)
qed (rule pages_kept_trans)

section \<open>SELECT\<close>

text \<open>What is printed for a value that was read from a record.\<close>

definition cell_of :: "Value \<Rightarrow> Cell" where
  "cell_of v = (if v_null v then CellNull else case v_val v of VInt i \<Rightarrow> CellInt i | VBool b \<Rightarrow> CellBool b | VString s \<Rightarrow> CellString s
     | VLong l \<Rightarrow> CellTimestamp l | VDouble x \<Rightarrow> CellDouble x)"

lemma print_read_value: "read_value ty off d = Inr (v, off') \<Longrightarrow> print_value ty v = Inr (cell_of v)"
  by (auto simp: read_value_def print_value_def cell_of_def Value_of_def GetInt_def GetString_def GetBool_def GetTimestamp_def Let_def
      split: ColumnTypes.splits sum.splits)

lemma print_read_values: "read_values (map ce_type sch) i off d = Inr vs \<Longrightarrow> print_values sch vs = Inr (map cell_of vs)"
proof (induction sch arbitrary: i off vs)
  case (Cons c sch)
  then obtain v off' ws where v: "vs = v # ws" "read_values (map ce_type sch) (Suc i) off' d = Inr ws" "v = Value_null \<or> read_value (ce_type c) off d = Inr (v, off')"
    by (auto split: sum.splits if_splits)
  have "print_value (ce_type c) v = Inr (cell_of v)"
    using v(3) print_read_value [of "ce_type c" off d v off'] by (cases "v = Value_null") (auto simp: print_value_def cell_of_def Value_null_def)
  then show ?case using v(1) Cons.IH [OF v(2)] by simp
qed simp

definition column_ids :: "Schema \<Rightarrow> entry_id list" where
  "column_ids sch = map word_of_nat [0..<length sch]"

lemma project_all: "length vs = length sch \<Longrightarrow> length sch < 2 ^ 32 \<Longrightarrow> project_values (column_ids sch) vs = Inr vs"
  by (auto simp: project_values_def column_ids_def list_all_iff unat_word_of_nat_u64 intro!: nth_equalityI)

text \<open>\<open>stored sch r vs\<close>: the record \<open>r\<close> holds the values \<open>vs\<close>.\<close>

definition stored_row :: "Schema \<Rightarrow> bytes \<Rightarrow> Value list \<Rightarrow> bool" where
  "stored_row sch r vs \<longleftrightarrow> length r < 65536 \<and> (\<exists>h. Row_Deserialize sch r = Inr (h, vs))"

lemma stored_row_facts:
  assumes "stored_row sch r vs"
  shows "Tuple_Copy (scan_tuple sch r) = Inr (scan_tuple sch r)" "row_of sch (scan_tuple sch r) vs" "length vs = length sch"
    "print_values sch vs = Inr (map cell_of vs)"
proof -
  obtain h where h: "length r < 65536" "Row_Deserialize sch r = Inr (h, vs)" using assms by (auto simp: stored_row_def)
  then have r: "22 \<le> length r" "read_values (map ce_type sch) 0 (22 + length sch) r = Inr vs"
    by (auto simp: Row_Deserialize_def split: if_splits sum.splits)
  have u: "unat (word_of_nat (length r) :: u16) = length r" using h(1) by (simp add: unsigned_of_nat take_bit_nat_eq_self_iff)
  then have "(word_of_nat (length r) :: u16) \<noteq> 0" using r(1) by force
  then show "Tuple_Copy (scan_tuple sch r) = Inr (scan_tuple sch r)"
    using u by (simp add: Tuple_Copy_def scan_tuple_def Tuple_new_def mem_read_def peek_def)
  show "row_of sch (scan_tuple sch r) vs" using h(2) by (auto simp: row_of_def scan_tuple_def)
  show "length vs = length sch" using read_values_has [OF r(2)] by simp
  show "print_values sch vs = Inr (map cell_of vs)" by (rule print_read_values [OF r(2)])
qed

text \<open>The rows of a WHERE clause, and the executors of a query without and with one.\<close>

definition satisfies :: "DoubleOps \<Rightarrow> Schema \<Rightarrow> PhysicalExpression option \<Rightarrow> bytes \<Rightarrow> bool" where
  "satisfies D sch w r \<longleftrightarrow> (case w of None \<Rightarrow> True | Some e \<Rightarrow> Evaluate D e (scan_tuple sch r) = Inr (Value_of (VBool True)))"

definition select_plan :: "entry_id list \<Rightarrow> PhysicalExpression option \<Rightarrow> entry_id \<Rightarrow> PhysicalOperator" where
  "select_plan ids w i = PhysicalProjection ids (case w of None \<Rightarrow> PhysicalSeqScan i | Some e \<Rightarrow> PhysicalFilter (Some e) (PhysicalSeqScan i))"

definition filter_over :: "PhysicalExpression option \<Rightarrow> Executor \<Rightarrow> Executor" where
  "filter_over w c = (case w of None \<Rightarrow> c | Some e \<Rightarrow> XFilter (Some e) c)"

lemma build_select: "Cat_GetTableName c i = Inr t \<Longrightarrow>
    BuildExecutor c (select_plan ids w i) = Inr (XProjection ids (filter_over w (XSeqScan (ExecutorSeqScan_new t))))"
  by (simp add: select_plan_def filter_over_def split: option.splits)

lemma open_select:
  "X_Open fuel (XSeqScan sq) d = (Inr (XSeqScan sq'), d') \<Longrightarrow>
   X_Open fuel (XProjection ids (filter_over w (XSeqScan sq))) d = (Inr (XProjection ids (filter_over w (XSeqScan sq'))), d')"
  by (auto simp: filter_over_def comp_simps bnd_def ret_def split: option.splits)

lemma filter_test_typed:
  assumes "stored_row sch r vs" "schema_ok sch" "expr_ty sch e = Some TBool"
  shows "filter_test D (Some e) (scan_tuple sch r) = Inr (satisfies D sch (Some e) r)"
proof -
  obtain v where v: "Evaluate D e (scan_tuple sch r) = Inr v" "\<not> v_null v" "\<exists>b. v_val v = VBool b"
    using Evaluate_has [OF stored_row_facts(2) [OF assms(1)] assms(2,3), of D] by auto
  then show ?thesis by (cases v) (auto simp: filter_test_def satisfies_def GetBool_def Value_of_def)
qed

definition result_tuple :: "Schema \<Rightarrow> Value list \<Rightarrow> Tuple" where
  "result_tuple sch vs = Tuple_new\<lparr>t_schema := sch, t_query_result := vs\<rparr>"

lemma print_result:
  assumes "stored_row sch r vs" "sch \<noteq> []"
  shows "PrintTuple (put_result t (result_tuple sch vs)) ex =
    Inr \<lparr>ex_header = Some (case ex_header ex of None \<Rightarrow> map ce_name sch | Some h \<Rightarrow> h), ex_rows = ex_rows ex @ [map cell_of vs]\<rparr>"
  using stored_row_facts(3,4) [OF assms(1)] assms(2)
  by (auto simp: PrintTuple_def values_to_print_def put_result_def result_tuple_def split: option.splits)

lemma project_stored:
  assumes "stored_row sch r vs" "length sch < 2 ^ 32"
  shows "project_tuple (column_ids sch) (scan_tuple sch r) Tuple_new = Inr (result_tuple sch vs)"
proof -
  obtain h where "Row_Deserialize sch r = Inr (h, vs)" using assms(1) by (auto simp: stored_row_def)
  then show ?thesis using project_all [OF stored_row_facts(3) [OF assms(1)] assms(2)] by (simp add: project_tuple_def scan_tuple_def result_tuple_def)
qed

lemma filter_over_rows:
  assumes "scanning fuel n ps ctx sq d rows xs" "length rows < fuel" "sq_schema sq = sch" "schema_ok sch"
    and "\<And>e. w = Some e \<Longrightarrow> expr_ty sch e = Some TBool" "\<And>r. r \<in> set (seen xs) \<Longrightarrow> stored_row sch r (vals r)"
  shows "plain_rows D fuel ctx n (filter_over w (XSeqScan sq)) d (map (scan_tuple sch) (filter (satisfies D sch w) (seen xs)))"
proof -
  have len: "length (seen xs) < fuel"
    using assms(1,2) by (auto simp: seen_def scanning_def dest!: list_all2_lengthD intro: le_less_trans [OF length_filter_le])
  have base: "plain_rows D fuel ctx n (XSeqScan sq) d (map (scan_tuple sch) (seen xs))" using assms(1-3) by auto
  show ?thesis
  proof (cases w)
    case None
    then show ?thesis using base by (simp add: filter_over_def satisfies_def del: plain_rows.simps)
  next
    case (Some e)
    let ?P = "\<lambda>t. satisfies D sch w (the (t_data t))"
    have d: "t_data (scan_tuple sch r) = Some r" for r by (simp add: scan_tuple_def)
    have "filter ?P (map (scan_tuple sch) (seen xs)) = map (scan_tuple sch) (filter (satisfies D sch w) (seen xs))"
      by (simp add: filter_map comp_def d)
    moreover have "\<forall>r \<in> set (map (scan_tuple sch) (seen xs)). filter_test D (Some e) r = Inr (?P r) \<and> Tuple_Copy r = Inr r"
      using filter_test_typed [OF assms(6,4) assms(5) [OF Some]] stored_row_facts(1) [OF assms(6)] Some by (auto simp: d)
    ultimately show ?thesis using Some plain_filterI [OF base, of "Some e" ?P] len by (simp add: filter_over_def)
  qed
qed

definition select_tree :: "Schema \<Rightarrow> PhysicalExpression option \<Rightarrow> ExecutorSeqScan \<Rightarrow> Executor" where
  "select_tree sch w sq = XProjection (column_ids sch) (filter_over w (XSeqScan sq))"

lemma select_source:
  assumes "scanning fuel n ps ctx sq d rows xs" "length rows < fuel" "sq_schema sq = sch" "schema_ok sch" "length sch < 2 ^ 32" "1 < m"
    and "\<And>e. w = Some e \<Longrightarrow> expr_ty sch e = Some TBool" "\<And>r. r \<in> set (seen xs) \<Longrightarrow> stored_row sch r (vals r)"
  shows "projected_rows D fuel ctx m n (select_tree sch w sq) d (map (\<lambda>r. result_tuple sch (vals r)) (filter (satisfies D sch w) (seen xs)))"
proof -
  let ?hits = "filter (satisfies D sch w) (seen xs)"
  have "plain_rows D fuel ctx n (filter_over w (XSeqScan sq)) d (map (scan_tuple sch) ?hits)"
    by (rule filter_over_rows [OF assms(1-4,7,8)])
  moreover have "list_all2 (\<lambda>input r. project_tuple (column_ids sch) input Tuple_new = Inr r) (map (scan_tuple sch) ?hits)
      (map (\<lambda>r. result_tuple sch (vals r)) ?hits)"
    using project_stored [OF assms(8,5)] by (auto simp: list_all2_map1 list_all2_map2 list_all2_same)
  moreover have "height (filter_over w (XSeqScan sq)) < m" using assms(6) by (simp add: filter_over_def split: option.splits)
  ultimately show ?thesis unfolding projected_rows_def select_tree_def by blast
qed

text \<open>C1.
  A query \<^verbatim>\<open>SELECT * FROM t [WHERE e]\<close> is answered correctly.  On a table the server can scan, for a transaction with a snapshot, with a well-typed condition, the
  executors built for the plan run without an exception and print the names of the columns and, in the order of the heap, the values of exactly those
  rows whose version for the snapshot satisfies the condition.  The contents of the pages and the transactions are as before, and every frame used is free again.
\<close>

theorem select_prints_matching_rows:
  assumes "table_rows d t te rss" "Cat_GetTableName (db_catalog d) i = Inr t" "has_view ctx d" "ctx_undo ctx"
    and "list_all2 (row_sees ctx d fuel) (concat rss) xs" "Suc (length rss) < fuel" "length (concat rss) < fuel" "2 < fuel"
    and "TE_GetSchema te = sch" "sch \<noteq> []" "length sch < 2 ^ 32" "schema_ok sch" "\<And>e. w = Some e \<Longrightarrow> expr_ty sch e = Some TBool"
    and "\<And>r. r \<in> set (seen xs) \<Longrightarrow> stored_row sch r (vals r)"
  shows "\<exists>root d'. BuildExecutor (db_catalog d) (select_plan (column_ids sch) w i) = Inr root \<and>
    ExecuteQuery D fuel ctx root d = (let hits = filter (satisfies D sch w) (seen xs) in
      (Inr \<lparr>ex_header = (if hits = [] then None else Some (map ce_name sch)), ex_rows = map (\<lambda>r. map cell_of (vals r)) hits\<rparr>, d')) \<and>
    (\<forall>q b. page_content (db_bm d) q = Some b \<longrightarrow> page_content (db_bm d') q = Some b) \<and>
    length (bm_free (db_bm d')) = length (bm_free (db_bm d)) \<and> db_txn d' = db_txn d"
proof -
  let ?n = "length (bm_free (db_bm d))" and ?hits = "filter (satisfies D sch w) (seen xs)" and ?ex = "\<lparr>ex_header = None, ex_rows = []\<rparr>"
  obtain sq c ps where o: "SS_Open fuel (ExecutorSeqScan_new t) d = (Inr sq, with_bm c d)" "keeps_pages (db_bm d) c" "sq_schema sq = sch"
    "scanning fuel ?n ps ctx sq (with_bm c d) (concat rss) xs"
    using open_run [OF assms(1,6,3,4,5)] assms(9) by metis
  let ?rows = "map (\<lambda>r. result_tuple sch (vals r)) ?hits"
  have st: "stored_row sch r (vals r)" if "r \<in> set ?hits" for r using that assms(14) by simp
  obtain m where m: "fuel = Suc m" "1 < m" using assms(8) by (cases fuel) auto
  have src: "projected_rows D fuel ctx m ?n (select_tree sch w sq) (with_bm c d) ?rows"
    by (rule select_source [OF o(4) assms(7) o(3) assms(12,11) m(2) assms(13,14)])
  have len: "length ?rows < fuel"
    using assms(5,7) by (auto simp: seen_def dest!: list_all2_lengthD intro: le_less_trans [OF length_filter_le])
  have print: "PrintTuple (put_result u r) ex = Inr \<lparr>ex_header = Some (case ex_header ex of None \<Rightarrow> map ce_name sch | Some h \<Rightarrow> h),
      ex_rows = ex_rows ex @ [map cell_of (t_query_result r)]\<rparr>" if "r \<in> set ?rows" for r u ex
    using that print_result [OF st assms(10)] by (auto simp: result_tuple_def)
  obtain x e where q: "query_loop (X_Next D fuel ctx (Suc m)) fuel (select_tree sch w sq) Tuple_new ?ex (with_bm c d) =
      (Inr (x, \<lparr>ex_header = (if ?rows = [] then None else Some (map ce_name sch)), ex_rows = map (\<lambda>r. map cell_of (t_query_result r)) ?rows\<rparr>), e)"
    "used_up ?n x e" "pages_kept (with_bm c d) e"
    using projected.query_run [OF src len print, where t = Tuple_new and ex = ?ex] by auto
  obtain x' where x': "X_Close x e = (Inr x', e)" using q(2) by (auto simp: used_up_def)
  have "X_Open fuel (select_tree sch w (ExecutorSeqScan_new t)) d = (Inr (select_tree sch w sq), with_bm c d)"
    unfolding select_tree_def by (rule open_select) (simp add: o(1) comp_simps)
  then have "ExecuteQuery D fuel ctx (select_tree sch w (ExecutorSeqScan_new t)) d =
      (Inr \<lparr>ex_header = (if ?hits = [] then None else Some (map ce_name sch)), ex_rows = map (\<lambda>r. map cell_of (vals r)) ?hits\<rparr>, e)"
    using q(1) x' by (simp add: ExecuteQuery_def m(1) comp_simps result_tuple_def comp_def)
  moreover have "pages_kept d e" using pages_kept_trans [OF _ q(3), of d] o(2) by (auto simp: pages_kept_def)
  then have "\<forall>q b. page_content (db_bm d) q = Some b \<longrightarrow> page_content (db_bm e) q = Some b" "db_txn e = db_txn d"
    by (auto simp: pages_kept_def keeps_pages_def)
  moreover have "length (bm_free (db_bm e)) = ?n" using q(2) by (simp add: used_up_def)
  ultimately show ?thesis using build_select [OF assms(2), of "column_ids sch" w] unfolding select_tree_def Let_def by blast
qed

text \<open>The condition \<^verbatim>\<open>id = 7\<close>.\<close>

definition demo_where_id :: PhysicalExpression where
  "demo_where_id = PBinary OP_EQ (PColumn 7 0) (PConst (Value_of (VInt 7)))"

lemma select_prints_matching_rows_witness:
  "\<exists>root d'. BuildExecutor (db_catalog (scan_db [demo_record] [])) (select_plan [0, 1] (Some demo_where_id) 7) = Inr root \<and>
     ExecuteQuery demo_doubles 9 reader root (scan_db [demo_record] []) =
       (Inr \<lparr>ex_header = Some [''id'', ''name''], ex_rows = [[CellInt 7, CellNull]]\<rparr>, d')"
proof -
  let ?d = "scan_db [demo_record] []" and ?sch = "TE_GetSchema demo_entry" and ?vs = "[Value_of (VInt 7), Value_null]"
  note r = demo_record_facts
  have sch: "?sch \<noteq> []" "length ?sch < 2 ^ 32" "schema_ok ?sch" "column_ids ?sch = [0, 1]" "map ce_name ?sch = [''id'', ''name'']"
    "expr_ty ?sch demo_where_id = Some TBool"
    by (simp_all add: TE_GetSchema_def demo_entry_def TE_AddColumn_def TableEntry_new_def schema_ok_def column_ids_def demo_where_id_def
        binary_ty_def column_ty_def const_ty_def is_comparison_def Value_of_def)
  have sat: "satisfies demo_doubles ?sch (Some demo_where_id) demo_record"
    using r(3) sch(1) by (simp add: satisfies_def demo_where_id_def eval_column_def scan_tuple_def Tuple_new_def Row_GetValue_def eval_binary_def
        EvaluateArithmeticOrComparison_def eval_int_def Value_of_def VB_def)
  have "row_sees reader ?d 9 demo_record (Some demo_record)"
    using scan_db_reader(2) [of "[demo_record]" "[]"] r(1,2) by (auto simp: row_sees_def intro!: sees_now)
  then have see: "list_all2 (row_sees reader ?d 9) (concat [[demo_record]]) [Some demo_record]" by simp
  have name: "Cat_GetTableName (db_catalog ?d) 7 = Inr ''users''"
    by (simp add: scan_db_def Cat_GetTableName_def Cat_AddTable_def demo_entry_def TE_AddColumn_def TableEntry_new_def Catalog_new_def)
  have st: "stored_row ?sch q ?vs" if "q \<in> set (seen [Some demo_record])" for q using that r by (simp add: seen_def stored_row_def)
  have tab: "table_rows ?d ''users'' demo_entry [[demo_record]]" using scan_db_table [of "[demo_record]" "[]"] r(2) by simp
  show ?thesis
    using select_prints_matching_rows [OF tab name scan_db_reader(1) _ see _ _ _ refl sch(1-3), where w = "Some demo_where_id" and vals = "\<lambda>_. ?vs" and D = demo_doubles]
      st sat sch(4-6) by (auto simp: seen_def Let_def cell_of_def Value_of_def Value_null_def)
qed

text \<open>C37.
  A select list is printed by position.  The projection keeps the schema of its input, so whatever columns were selected, the header names the columns of the whole
  table, and the \<open>k\<close>-th selected value is printed with the type of the \<open>k\<close>-th column of the table: a string selected in front of the table's first, integer
  column makes the query fail.
\<close>

theorem projection_printed_by_position:
  assumes "stored_row sch r vs" "ids \<noteq> []" "list_all (\<lambda>i. unat i < length sch) ids"
  shows "\<exists>t. project_tuple ids (scan_tuple sch r) u = Inr t \<and>
    PrintTuple t \<lparr>ex_header = None, ex_rows = []\<rparr> = (case print_values sch (map (\<lambda>i. vs ! unat i) ids) of Inl e \<Rightarrow> Inl e
      | Inr cs \<Rightarrow> Inr \<lparr>ex_header = Some (map ce_name sch), ex_rows = [cs]\<rparr>) \<and>
    (ce_type (hd sch) = CT_INTEGER \<and> \<not> v_null (vs ! unat (hd ids)) \<and> (\<exists>x. v_val (vs ! unat (hd ids)) = VString x) \<longrightarrow>
     PrintTuple t \<lparr>ex_header = None, ex_rows = []\<rparr> = Inl BadVariantAccess)"
proof -
  note st = stored_row_facts [OF assms(1)]
  obtain h where h: "Row_Deserialize sch r = Inr (h, vs)" using assms(1) by (auto simp: stored_row_def)
  let ?r = "map (\<lambda>i. vs ! unat i) ids" and ?t = "u\<lparr>t_schema := sch, t_query_result := map (\<lambda>i. vs ! unat i) ids\<rparr>"
  have p: "project_tuple ids (scan_tuple sch r) u = Inr ?t" using h assms(3) st(3) by (simp add: project_tuple_def scan_tuple_def project_values_def)
  have q: "PrintTuple ?t \<lparr>ex_header = None, ex_rows = []\<rparr> = (case print_values sch ?r of Inl e \<Rightarrow> Inl e
      | Inr cs \<Rightarrow> Inr \<lparr>ex_header = Some (map ce_name sch), ex_rows = [cs]\<rparr>)"
    using assms(2) by (simp add: PrintTuple_def values_to_print_def split: sum.splits)
  have "print_values sch ?r = Inl BadVariantAccess" if "ce_type (hd sch) = CT_INTEGER" "\<not> v_null (vs ! unat (hd ids))" "v_val (vs ! unat (hd ids)) = VString x" for x
    using that assms(2,3) by (cases sch; cases ids) (auto simp: print_value_def GetInt_def)
  then show ?thesis using p q by (intro exI [of _ ?t]) auto
qed

lemma projection_printed_by_position_witness:
  "\<exists>r t. project_tuple [1, 0] (scan_tuple (TE_GetSchema demo_entry) r) Tuple_new = Inr t \<and>
     PrintTuple t \<lparr>ex_header = None, ex_rows = []\<rparr> = Inl BadVariantAccess"
proof -
  let ?sch = "TE_GetSchema demo_entry" and ?vs = "[Value_of (VInt 7), Value_of (VString [65])]" and ?h = "\<lparr>rh_trx_id = 0, rh_roll_ptr = null_ptr, rh_flags = 0\<rparr>"
  have sch: "map ce_type ?sch = [CT_INTEGER, CT_VARCHAR]" "length ?sch = 2" "ce_type (hd ?sch) = CT_INTEGER"
    by (simp_all add: TE_GetSchema_def demo_entry_def TE_AddColumn_def TableEntry_new_def)
  have f: "list_all2 fits (map ce_type ?sch) ?vs" by (auto simp: sch)
  obtain n pl where s: "ser_meta (map ce_type ?sch) ?vs = Inr (map null_byte ?vs, n)" "ser_payload (map ce_type ?sch) ?vs = Inr pl" using ser_ok [OF f] by blast
  let ?d = "header_bytes ?h @ map null_byte ?vs @ pl"
  have "length pl = 13" using s(2) by (auto simp: sch value_bytes_def GetInt_def GetString_def Value_of_def)
  moreover have "read_values (map ce_type ?sch) 0 (22 + length ?sch) ?d = Inr ?vs"
    by (rule read_values_ser [OF f s(2)]) (simp_all add: peek_def sch)
  ultimately have "stored_row ?sch ?d ?vs" by (simp add: stored_row_def Row_Deserialize_def)
  from projection_printed_by_position [OF this, of "[1, 0]" Tuple_new] show ?thesis using sch by (auto simp: Value_of_def)
qed

end
