(* ===== verification/Recovery.thy ===== *)
theory Recovery
  imports Database
begin

text \<open>
  Crash recovery (\<^verbatim>\<open>transaction/recovery_manager.cpp\<close>): the outcome of every transaction is rebuilt from the log
  (\<^verbatim>\<open>Analysis\<close>), row changes whose page is older than the record are redone (\<^verbatim>\<open>Redo\<close>).  Shown: the rebuilt outcome
  is decided by the last control record of a transaction, what a log file holds that was cut behind a commit, and what becomes of a
  transaction of which the log holds nothing.  Recovery as a whole is the subject of \<open>Restart\<close>.
\<close>

section \<open>Analysis\<close>

type_synonym outcomes = "(tx_id_t \<times> TransactionState) list"

definition note_outcome :: "RecoveredLog \<Rightarrow> outcomes \<Rightarrow> outcomes" where
  "note_outcome r st = (let t = rl_tx_id r; ty = rl_type r in
     if ty = LogRecordType_code LR_COMMIT then AList.update t COMMITTED st
     else if ty = LogRecordType_code LR_ABORT then AList.update t ABORTED st
     else if ty = LogRecordType_code LR_INSERT_ROW \<or> ty = LogRecordType_code LR_DELETE_ROW \<or>
             ty = LogRecordType_code LR_UPDATE_ROW \<or> ty = LogRecordType_code LR_BEGIN
     then (if map_of st t = None then AList.update t IN_PROGRESS st else st)
     else st)"

definition max_txid :: "RecoveredLog list \<Rightarrow> tx_id_t" where
  "max_txid logs = fold (\<lambda>r m. if m < rl_tx_id r then rl_tx_id r else m) logs 0"

definition set_outcome :: "tx_id_t \<times> TransactionState \<Rightarrow> TransactionManager \<Rightarrow> TransactionManager" where
  "set_outcome p s = (if fst p = INVALID_TX_ID then s
     else if snd p = COMMITTED then SetTxnState (fst p) COMMITTED s else SetTxnState (fst p) ABORTED s)"

definition Analysis :: "RecoveredLog list \<Rightarrow> TransactionManager \<Rightarrow> TransactionManager" where
  "Analysis logs s = AdvanceNextTxId (max_txid logs) (fold set_outcome (fold note_outcome logs []) s)"

section \<open>Redo\<close>

definition is_row_change :: "u8 \<Rightarrow> bool" where
  "is_row_change ty \<longleftrightarrow> ty = LogRecordType_code LR_INSERT_ROW \<or> ty = LogRecordType_code LR_DELETE_ROW \<or>
     ty = LogRecordType_code LR_UPDATE_ROW"

text \<open>\<^verbatim>\<open>FetchPage\<close> under \<^verbatim>\<open>catch (...)\<close>: what it throws is dropped; a memory fault is not an exception.\<close>

definition try_fetch :: "page_id_t \<Rightarrow> (DB, frame_id option) comp" where
  "try_fetch p = (\<lambda>d. case in_pool (BM_FetchPage p) d of
     (Inr f, e) \<Rightarrow> (Inr (Some f), e)
   | (Inl MemoryFault, e) \<Rightarrow> (Inl MemoryFault, e)
   | (Inl _, e) \<Rightarrow> (Inr None, e))"

definition redo_page :: "RecoveredLog \<Rightarrow> LogDataPayload \<Rightarrow> frame_id \<Rightarrow> (DB, unit) comp" where
  "redo_page r p f = bnd (in_store (TablePage_new (lp_table p) f True)) (\<lambda>tp.
     thn (on_cond (tp_lsn tp < rl_lsn r)
       (thn (on_cond (rl_type r = LogRecordType_code LR_DELETE_ROW)
              (in_store (TP_MarkDelete \<lparr>rid_page = lp_page p, rid_row = lp_row p\<rparr> (rl_tx_id r) null_ptr tp)))
        (thn (bnd (in_store (TP_SetLsn (rl_lsn r) tp)) (\<lambda>_. ret ()))
        (flush_page f))))
     (release_page f))"

definition redo_record :: "RecoveredLog \<Rightarrow> (DB, unit) comp" where
  "redo_record r = (if \<not> is_row_change (rl_type r) then ret ()
     else bnd (of_res (LogDataPayload_Decode (rl_payload r))) (\<lambda>p.
       if lp_page p = INVALID_PAGE_ID then ret ()
       else bnd (try_fetch (lp_page p)) (\<lambda>f. case f of None \<Rightarrow> ret () | Some g \<Rightarrow> redo_page r p g)))"

definition Redo :: "RecoveredLog list \<Rightarrow> (DB, unit) comp" where
  "Redo logs = for_each logs redo_record"

text \<open>\<^verbatim>\<open>Recover\<close> reads the log file through a log disk of its own.\<close>

definition Recover :: "LogDisk \<Rightarrow> (DB, nat) comp" where
  "Recover disk = (let logs = ReadLog disk in
     if logs = [] then ret 0
     else thn (on_txn (Analysis logs)) (thn (Redo logs) (ret (length logs))))"

section \<open>Outcomes\<close>

definition is_control :: "tx_id_t \<Rightarrow> RecoveredLog \<Rightarrow> bool" where
  "is_control x r \<longleftrightarrow> rl_tx_id r = x \<and> (rl_type r = LogRecordType_code LR_COMMIT \<or> rl_type r = LogRecordType_code LR_ABORT)"

definition is_trace :: "tx_id_t \<Rightarrow> RecoveredLog \<Rightarrow> bool" where
  "is_trace x r \<longleftrightarrow> rl_tx_id r = x \<and> (is_control x r \<or> is_row_change (rl_type r) \<or> rl_type r = LogRecordType_code LR_BEGIN)"

text \<open>The outcome as a reading of the log: the last control record decides.\<close>

definition outcome :: "RecoveredLog list \<Rightarrow> tx_id_t \<Rightarrow> TransactionState option" where
  "outcome logs x = (let cs = filter (is_control x) logs in
     if cs = [] then (if list_ex (is_trace x) logs then Some IN_PROGRESS else None)
     else Some (if rl_type (last cs) = LogRecordType_code LR_COMMIT then COMMITTED else ABORTED))"

lemma note_outcome_keys: "distinct (map fst st) \<Longrightarrow> distinct (map fst (note_outcome r st))"
  by (simp add: note_outcome_def Let_def distinct_update)

lemma fold_note_keys: "distinct (map fst st) \<Longrightarrow> distinct (map fst (fold note_outcome logs st))"
  by (induction logs arbitrary: st) (simp_all add: note_outcome_keys)

lemma note_outcome_spec: "map_of (fold note_outcome logs []) x = outcome logs x"
proof (induction logs rule: rev_induct)
  case (snoc r logs)
  have codes: "LogRecordType_code LR_COMMIT \<noteq> LogRecordType_code LR_ABORT" by simp
  show ?case
  proof (cases "rl_tx_id r = x")
    case False
    then have "map_of (note_outcome r st) x = map_of st x" for st
      by (simp add: note_outcome_def Let_def update_conv')
    moreover have "outcome (logs @ [r]) x = outcome logs x" using False by (simp add: outcome_def is_control_def is_trace_def)
    ultimately show ?thesis using snoc by simp
  next
    case True
    then show ?thesis
      using snoc codes
      by (auto simp: outcome_def note_outcome_def Let_def update_conv' is_control_def is_trace_def is_row_change_def
          split: if_splits)
  qed
qed (simp add: outcome_def)

lemma set_outcome_other: "fst p \<noteq> x \<Longrightarrow> tm_state (set_outcome p s) x = tm_state s x"
  by (simp add: set_outcome_def SetTxnState_def)

lemma fold_set_outcome:
  assumes "distinct (map fst st)"
  shows "tm_state (fold set_outcome st s) x = (if x = 0 then tm_state s 0 else
     case map_of st x of None \<Rightarrow> tm_state s x | Some y \<Rightarrow> Some (if y = COMMITTED then COMMITTED else ABORTED))"
  using assms
proof (induction st arbitrary: s)
  case (Cons p st)
  obtain k y where p: "p = (k, y)" by fastforce
  have "map_of st k = None" using Cons.prems p by (simp add: map_of_eq_None_iff)
  then show ?case
    using Cons p by (auto simp: set_outcome_def SetTxnState_def split: option.splits)
qed simp

lemma Analysis_state: "tm_state (Analysis logs s) x = (if x = 0 then tm_state s 0 else
     case outcome logs x of None \<Rightarrow> tm_state s x | Some y \<Rightarrow> Some (if y = COMMITTED then COMMITTED else ABORTED))"
  using fold_set_outcome [OF fold_note_keys [of "[]" logs], of s x]
  by (auto simp: Analysis_def AdvanceNextTxId_def note_outcome_spec)

lemma fold_set_outcome_fields: "tm_next (fold set_outcome st s) = tm_next s \<and> tm_active (fold set_outcome st s) = tm_active s"
  by (induction st arbitrary: s) (simp_all add: set_outcome_def SetTxnState_def)

abbreviation (input) larger :: "RecoveredLog \<Rightarrow> tx_id_t \<Rightarrow> tx_id_t" where
  "larger r m \<equiv> (if m < rl_tx_id r then rl_tx_id r else m)"

lemma fold_max_mono: "m \<le> fold (\<lambda>r m. larger r m) logs m"
proof (induction logs arbitrary: m)
  case (Cons a logs)
  have "m \<le> larger a m" by auto
  from order_trans [OF this Cons.IH] show ?case by (simp only: fold.simps o_apply)
qed simp

lemma fold_max_txid: "r \<in> set logs \<Longrightarrow> rl_tx_id r \<le> fold (\<lambda>r m. larger r m) logs m"
proof (induction logs arbitrary: m)
  case (Cons a logs)
  have "rl_tx_id a \<le> larger a m" by auto
  from order_trans [OF this fold_max_mono [of _ logs]] Cons show ?case by (auto simp only: fold.simps o_apply set_ConsD list.set insert_iff)
qed simp

lemma Analysis_next:
  assumes "r \<in> set logs" "max_txid logs + 1 \<noteq> 0"
  shows "rl_tx_id r < tm_next (Analysis logs s)"
proof -
  have "rl_tx_id r \<le> max_txid logs" unfolding max_txid_def by (rule fold_max_txid [OF assms(1)])
  then have "rl_tx_id r < max_txid logs + 1" using next_word_less [OF assms(2)] by (auto simp: order_le_less)
  moreover have "max_txid logs + 1 \<le> tm_next (Analysis logs s)" by (auto simp: Analysis_def AdvanceNextTxId_def not_less)
  ultimately show ?thesis by simp
qed

lemma Analysis_active: "tm_active (Analysis logs s) = tm_active s"
  using fold_set_outcome_fields by (simp add: Analysis_def AdvanceNextTxId_def)

text \<open>
  Analysis rebuilds the outcomes from the log: a transaction that left a record is committed afterwards exactly if the last of
  its commit and abort records is a commit, and aborted otherwise, in particular when the crash came before any of
  the two; transactions without a record stay unknown; new ids start above every id in the log.
\<close>

theorem analysis_outcomes:
  assumes "x \<noteq> INVALID_TX_ID" "max_txid logs + 1 \<noteq> 0"
  shows "(TM_IsCommitted (Analysis logs TransactionManager_new) x \<longleftrightarrow> outcome logs x = Some COMMITTED) \<and>
    (TM_IsAborted (Analysis logs TransactionManager_new) x \<longleftrightarrow> outcome logs x \<noteq> None \<and> outcome logs x \<noteq> Some COMMITTED) \<and>
    (\<forall>r \<in> set logs. rl_tx_id r < tm_next (Analysis logs TransactionManager_new))"
  using assms Analysis_next [OF _ assms(2)]
  by (simp add: TM_IsCommitted_def TM_IsAborted_def Analysis_state TransactionManager_new_def split: option.splits)

lemma analysis_outcomes_witness:
  "TM_IsCommitted (Analysis [recovered 1 (control 3 LR_ABORT), recovered 2 (control 3 LR_COMMIT)] TransactionManager_new) 3"
  using analysis_outcomes [of 3 "[recovered 1 (control 3 LR_ABORT), recovered 2 (control 3 LR_COMMIT)]"]
  by (simp add: outcome_def is_control_def recovered_def control_def max_txid_def)

section \<open>A committed transaction survives\<close>

lemma outcome_append_other:
  assumes "\<forall>r \<in> set qs. \<not> is_control x r" "filter (is_control x) rs \<noteq> []"
  shows "outcome (rs @ qs) x = outcome rs x"
proof -
  have "filter (is_control x) qs = []" using assms(1) by (simp add: filter_empty_conv)
  then show ?thesis using assms(2) by (simp add: outcome_def Let_def)
qed

lemma outcome_last: "is_control x r \<Longrightarrow> outcome (rs @ [r]) x =
    Some (if rl_type r = LogRecordType_code LR_COMMIT then COMMITTED else ABORTED)"
  by (simp add: outcome_def Let_def)

text \<open>
  What a log file holds that was cut at or behind the end of a commit record: all records up to the commit, and some of the
  records that follow.
\<close>

lemma cut_behind_commit:
  assumes "db_log_holds d rs" "tm_log (db_txn d)" "i \<in> set (tm_active (db_txn d))"
    and "TM_Commit i d = (Inr (), d')" "list_all small_payload qs" "\<forall>r \<in> set qs. \<not> is_control i r"
    and "crashed = durable_log d' @ take n (concat (map encode_record qs))"
  obtains k where "ReadLog (LogDiskManager_new crashed) = rs @ recovered (lm_next_lsn (db_log d)) (control i LR_COMMIT) # take k qs"
    "outcome (ReadLog (LogDiskManager_new crashed)) i = Some COMMITTED"
proof -
  let ?r = "recovered (lm_next_lsn (db_log d)) (control i LR_COMMIT)"
  let ?logs = "rs @ [?r]"
  have fl: "durable_log d' = concat (map encode_record ?logs)" using TM_Commit_run [OF assms(1,2,3)] assms(4) by auto
  have ctl: "is_control i ?r" "rl_type ?r = LogRecordType_code LR_COMMIT" by (simp_all add: is_control_def recovered_def control_def)
  have "list_all small_payload ?logs"
    using assms(1) by (simp add: db_log_holds_def small_payload_def recovered_def control_def payload_of_def)
  then have "ReadLog (LogDiskManager_new crashed) = ?logs @ read_records (take n (concat (map encode_record qs)))"
    using assms(7) fl by (simp add: ReadLog_file LogDiskManager_new_def read_records_append read_records_Cons)
  also obtain k where "read_records (take n (concat (map encode_record qs))) = take k qs"
    using read_records_prefix [OF assms(5), of n] by blast
  finally have rd: "ReadLog (LogDiskManager_new crashed) = ?logs @ take k qs" by simp
  have "filter (is_control i) ?logs \<noteq> []" using ctl by simp
  then have "outcome (?logs @ take k qs) i = outcome ?logs i"
    using assms(6) by (intro outcome_append_other) (auto dest: in_set_takeD)
  also have "\<dots> = Some COMMITTED" using outcome_last [OF ctl(1)] ctl(2) by simp
  finally show ?thesis using that [of k] rd by simp
qed

section \<open>A transaction the log does not know\<close>

text \<open>C32.
  A transaction that changed a page and crashed before any of its records reached the log file is unknown after recovery, and
  recovery treats unknown as finished: the first transaction that starts afterwards (its id may even be the same)
  sees the versions the crashed transaction wrote, for every crashed id up to its own.  The executors flush a changed page
  at once, while the log is only flushed when a buffer is full or a transaction ends.
\<close>

theorem unlogged_crash_becomes_visible:
  assumes "TM_Begin (Analysis logs TransactionManager_new) = (i, t)" "x \<le> i" "x \<noteq> INVALID_TX_ID"
    and "outcome logs x = None" "i + 1 \<noteq> 0"
  shows "tx_read_view (txn_of t i) \<noteq> None \<and> IsVisible t (the (tx_read_view (txn_of t i))) x"
proof -
  let ?s = "Analysis logs TransactionManager_new"
  obtain j r where r: "begin_register ?s = (j, r)" by fastforce
  note f = begin_register_fields [OF r]
  have ij: "j = i" "t = take_view i r" using assms(1) r by (auto simp: TM_Begin_def)
  have act: "tm_active r = [i]" using f(3) ij by (simp add: Analysis_active TransactionManager_new_def)
  have v: "CreateReadView i r = \<lparr>rv_create = i, rv_up = tm_next r, rv_low = tm_next r, rv_active = [], rv_manager = True\<rparr>"
    by (simp add: CreateReadView_def act)
  have "tm_state ?s x = None" using assms(3,4) by (simp add: Analysis_state TransactionManager_new_def)
  then have "\<not> TM_IsAborted t x" using f(4) ij by (simp add: TM_IsAborted_def take_view_def)
  moreover have "x < tm_next r" using assms(2,5) f(1,2) ij next_word_less [of i x] by (auto simp: order_le_less)
  moreover have "tx_read_view (txn_of t i) = Some (CreateReadView i r)" using ij by (simp add: take_view_def txn_of_def)
  ultimately show ?thesis by (auto simp: v IsVisible_def)
qed

lemma unlogged_crash_becomes_visible_witness:
  "IsVisible (snd (TM_Begin (Analysis [recovered 1 (control 2 LR_COMMIT)] TransactionManager_new)))
     (the (tx_read_view (txn_of (snd (TM_Begin (Analysis [recovered 1 (control 2 LR_COMMIT)] TransactionManager_new))) 3))) 1"
  using unlogged_crash_becomes_visible [of "[recovered 1 (control 2 LR_COMMIT)]" 3
      "snd (TM_Begin (Analysis [recovered 1 (control 2 LR_COMMIT)] TransactionManager_new))" 1]
  by (simp add: TM_Begin_def begin_register_def GetNextTxId_def Analysis_def AdvanceNextTxId_def max_txid_def recovered_def control_def
      fold_set_outcome_fields TransactionManager_new_def outcome_def is_control_def is_trace_def split: prod.splits)

end
