(* ===== verification/Server_Frame.thy ===== *)
theory Server_Frame
  imports Executors Recovery
begin

text \<open>
  What the executors leave alone.  Pages and undo log may change in any way, also when an executor throws, but the transaction manager changes only in the
  write sets of its transactions, the schema catalog does not change, and the log buffer stays usable.  The rules follow the structure of the computations, so that the statement for an executor is
  proved by applying them.
\<close>

section \<open>Steady computations\<close>

definition log_fine :: "DB \<Rightarrow> bool" where
  "log_fine d \<longleftrightarrow> lb_ok (lm_buffer (db_log d)) \<and> 21 \<le> lb_capacity (lm_buffer (db_log d)) \<and> lb_capacity (lm_buffer (db_log d)) < 2 ^ 31"

text \<open>\<open>tm_alike s t\<close>: the managers differ in the objects of the transactions at most, and there not in their ids, states, isolation levels and views.\<close>

definition tm_alike :: "TransactionManager \<Rightarrow> TransactionManager \<Rightarrow> bool" where
  "tm_alike s t \<longleftrightarrow> tm_active t = tm_active s \<and> tm_next t = tm_next s \<and> tm_state t = tm_state s \<and> tm_log t = tm_log s \<and> tm_storage t = tm_storage s \<and>
     (\<forall>i. tx_id (txn_of t i) = tx_id (txn_of s i) \<and> tx_state (txn_of t i) = tx_state (txn_of s i) \<and> tx_read_view (txn_of t i) = tx_read_view (txn_of s i) \<and>
        (tm_objs s i \<noteq> None \<longrightarrow> tm_objs t i \<noteq> None))"

definition steady :: "(DB, 'a) comp \<Rightarrow> bool" where
  "steady m \<longleftrightarrow> (\<forall>d r e. m d = (r, e) \<longrightarrow> tm_alike (db_txn d) (db_txn e) \<and> db_catalog e = db_catalog d \<and> (log_fine d \<longrightarrow> log_fine e))"

named_theorems steady_intros "rules for steady computations"

lemma tm_alike_refl: "tm_alike s s"
  by (simp add: tm_alike_def)

lemma tm_alike_trans: "tm_alike s t \<Longrightarrow> tm_alike t u \<Longrightarrow> tm_alike s u"
  by (simp add: tm_alike_def)

lemma tm_alike_push: "tm_alike s (push_write i w s)"
  by (simp add: tm_alike_def push_write_def update_txn_def txn_of_def)

lemma tm_alike_inv:
  assumes "tm_alike s t" "tm_inv s"
  shows "tm_inv t"
proof -
  have f: "tm_active t = tm_active s" "tm_next t = tm_next s" "tm_state t = tm_state s" using assms(1) by (simp_all add: tm_alike_def)
  have "\<exists>u. tm_objs t x = Some u \<and> tx_state u = IN_PROGRESS \<and> tx_id u = x" if "x \<in> set (tm_active s)" for x
  proof -
    have o: "tx_state (txn_of t x) = IN_PROGRESS" "tx_id (txn_of t x) = x" "tm_objs t x \<noteq> None"
      using tm_inv_obj [OF assms(2) that] assms(1) by (simp_all add: tm_alike_def)
    then obtain u where "tm_objs t x = Some u" by blast
    then show ?thesis using o(1,2) by (simp add: txn_of_def)
  qed
  then have "\<forall>x \<in> set (tm_active s). \<exists>u. tm_objs t x = Some u \<and> tx_state u = IN_PROGRESS \<and> tx_id u = x" by blast
  then show ?thesis using assms(2) unfolding tm_inv_def known_final_def f by simp
qed

lemma steadyD: "steady m \<Longrightarrow> m d = (r, e) \<Longrightarrow> tm_alike (db_txn d) (db_txn e) \<and> db_catalog e = db_catalog d \<and> (log_fine d \<longrightarrow> log_fine e)"
  by (simp add: steady_def)

lemma steady_simple [steady_intros]: "steady (ret a)" "steady (throw e)" "steady (gets g)" "steady (of_res r)"
  by (simp_all add: steady_def comp_simps tm_alike_refl)

lemma steady_bnd [steady_intros]:
  assumes "steady m" "\<And>a. steady (f a)"
  shows "steady (bnd m f)"
  unfolding steady_def
proof (intro allI impI)
  fix d r e
  assume run: "bnd m f d = (r, e)"
  obtain x d1 where x: "m d = (x, d1)" by fastforce
  note a = steadyD [OF assms(1) x]
  show "tm_alike (db_txn d) (db_txn e) \<and> db_catalog e = db_catalog d \<and> (log_fine d \<longrightarrow> log_fine e)"
  proof (cases x)
    case (Inl z)
    then show ?thesis using run x a by (simp add: comp_simps)
  next
    case (Inr y)
    then have "f y d1 = (r, e)" using run x by (simp add: comp_simps)
    then show ?thesis using steadyD [OF assms(2), of y d1 r e] a tm_alike_trans by auto
  qed
qed

lemma steady_thn [steady_intros]: "steady m \<Longrightarrow> steady k \<Longrightarrow> steady (thn m k)"
  by (simp add: thn_def steady_bnd)

lemma steady_if [steady_intros]: "(b \<Longrightarrow> steady m) \<Longrightarrow> (\<not> b \<Longrightarrow> steady k) \<Longrightarrow> steady (if b then m else k)"
  by simp

lemma steady_on_cond [steady_intros]: "steady m \<Longrightarrow> steady (on_cond b m)"
  by (simp add: on_cond_def steady_simple)

lemma steady_option [steady_intros]: "steady m \<Longrightarrow> (\<And>a. steady (f a)) \<Longrightarrow> steady (case x of None \<Rightarrow> m | Some a \<Rightarrow> f a)"
  by (simp split: option.splits)

lemma steady_prod [steady_intros]: "(\<And>a b. steady (f a b)) \<Longrightarrow> steady (case x of (a, b) \<Rightarrow> f a b)"
  by (simp split: prod.splits)

lemma steady_let [steady_intros]: "(\<And>a. steady (f a)) \<Longrightarrow> steady (let a = x in f a)"
  by simp

lemma steady_for_each [steady_intros]: "(\<And>a. steady (f a)) \<Longrightarrow> steady (for_each xs f)"
  by (induction xs) (simp_all add: steady_simple steady_thn)

text \<open>Computations on the other parts of the state.\<close>

lemma steady_in_store [steady_intros]: "steady (in_store m)"
  by (auto simp: steady_def in_store_def zoom_def tm_alike_refl log_fine_def split: prod.splits)

lemma steady_in_pool [steady_intros]: "steady (in_pool m)"
  by (simp add: in_pool_def steady_in_store)

lemma steady_in_undo [steady_intros]: "steady (in_undo m)"
  by (auto simp: steady_def in_undo_def zoom_def tm_alike_refl log_fine_def split: prod.splits)

lemma steady_push [steady_intros]: "steady (on_txn (push_write i w))"
  by (auto simp: steady_def on_txn_def comp_simps tm_alike_push log_fine_def)

lemma AppendLogRecord_fine:
  assumes "lb_ok (lm_buffer m)" "AppendLogRecord r m = (x, n)"
  shows "lb_ok (lm_buffer n) \<and> lb_capacity (lm_buffer n) = lb_capacity (lm_buffer m)"
proof -
  let ?m = "m\<lparr>lm_next_lsn := lm_next_lsn m + 1\<rparr>"
  have w: "lb_ok (lm_buffer k) \<and> lb_capacity (lm_buffer k) = lb_capacity (lm_buffer m)" if "in_buffer (LB_Write bs) ?m = (y, k)" for bs y k
  proof (cases "length bs \<le> lb_capacity (lm_buffer m)")
    case True
    obtain b where b: "LB_Write bs (lm_buffer m) = (Inr (), b)" "lb_ok b" "lb_capacity b = lb_capacity (lm_buffer m)" by (rule LB_Write_run [OF assms(1) True])
    then show ?thesis using that by (auto simp: in_buffer_def zoom_def)
  next
    case False
    then show ?thesis using that assms(1) by (auto simp: in_buffer_def zoom_def LB_Write_def comp_simps)
  qed
  have g: "GetNextLsn m = (Inr (lm_next_lsn m), ?m)" by (simp add: GetNextLsn_def comp_simps)
  let ?bs = "\<lambda>pl. le_bytes 8 (lm_next_lsn m) @ le_bytes 8 (lr_tx_id r) @ [LogRecordType_code (lr_type r)] @ le_bytes 4 (lr_payload_size r) @ pl"
  consider "sint (21 + lr_payload_size r) < 0" | "\<not> sint (21 + lr_payload_size r) < 0" "unat (21 + lr_payload_size r) < 21 \<or> (\<exists>e. payload_of r = Inl e)"
    | pl where "\<not> sint (21 + lr_payload_size r) < 0" "\<not> unat (21 + lr_payload_size r) < 21" "payload_of r = Inr pl" by (cases "payload_of r") auto
  then show ?thesis
  proof cases
    case 1
    then show ?thesis using assms by (simp add: AppendLogRecord_def Let_def comp_simps)
  next
    case 2
    then have "n = ?m" using assms(2) g by (auto simp: AppendLogRecord_def Let_def comp_simps split: if_splits)
    then show ?thesis using assms(1) by simp
  next
    case (3 pl)
    obtain y k where k: "in_buffer (LB_Write (?bs pl)) ?m = (y, k)" by fastforce
    have "n = k" using assms(2) g 3 k by (cases y) (simp_all add: AppendLogRecord_def Let_def comp_simps)
    then show ?thesis using w [OF k] by simp
  qed
qed

lemma steady_AppendLogRecord [steady_intros]: "steady (in_log (AppendLogRecord r))"
  using AppendLogRecord_fine by (fastforce simp: steady_def in_log_def zoom_def tm_alike_refl log_fine_def split: prod.splits)

lemma steady_LogDataChange [steady_intros]: "steady (LogDataChange ctx ty table rid img)"
  unfolding LogDataChange_def by (intro steady_intros)

section \<open>The executors are steady\<close>

lemma steady_pages [steady_intros]: "steady (page_id_of f)" "steady (flush_page f)" "steady (release_page f)" "steady (set_lsn l tp)"
  unfolding page_id_of_def flush_page_def release_page_def set_lsn_def by (intro steady_intros)+

lemma steady_record_write [steady_intros]: "steady (record_write ctx w)"
  unfolding record_write_def by (intro steady_intros)

lemma steady_write_steps [steady_intros]:
  "steady (open_last_page table it)" "steady (AllocateAndLinkNewPage table tp)" "steady (log_insert ctx table rid t tp)"
  unfolding open_last_page_def AllocateAndLinkNewPage_def log_insert_def by (intro steady_intros)+

lemma steady_values [steady_intros]: "steady (XV_Open xv)" "steady (XV_Next ctx xv t)"
  unfolding XV_Open_def XV_Next_def by (intro steady_intros)+

lemma steady_insert [steady_intros]: "steady (XI_open_page xi)" "steady (insert_tuple ctx table t tp)" "steady (XI_release xi)"
  unfolding XI_open_page_def insert_tuple_def page_with_space_def XI_release_def by (intro steady_intros)+

lemma steady_insert_loop [steady_intros]:
  assumes "\<And>c t. steady (nxt c t)"
  shows "steady (insert_loop nxt n ctx xi c t)"
proof (induction n arbitrary: xi c t)
  case (Suc n)
  show ?case unfolding insert_loop.simps by (intro steady_intros assms Suc.IH)
qed (simp add: steady_simple)

lemma steady_target [steady_intros]: "steady (target_row D ctx flt it tp)"
  unfolding target_row_def conflict_check_def by (intro steady_intros)

lemma steady_delete [steady_intros]: "steady (append_undo ctx t trx ptr)" "steady (log_delete ctx table rid ptr tp)" "steady (delete_row ctx table rid fl trx old tp)"
  "steady (XD_Open fuel xd)"
  unfolding append_undo_def log_delete_def delete_row_def XD_Open_def by (intro steady_intros)+

lemma steady_delete_loop [steady_intros]: "steady (delete_loop D fuel n ctx xd)"
proof (induction n arbitrary: xd)
  case (Suc n)
  show ?case unfolding delete_loop.simps by (intro steady_intros Suc.IH)
qed (simp add: steady_simple)

lemma steady_update [steady_intros]: "steady (XU_Open fuel xu)" "steady (make_hit xu rid fl trx old tp)" "steady (InsertNewVersion ctx table t)"
  "steady (mark_old_version ctx table rid ptr)"
  unfolding XU_Open_def make_hit_def InsertNewVersion_def page_with_space_def mark_old_version_def by (intro steady_intros)+

lemma steady_update_row [steady_intros]: "steady (update_row ctx table sch h)"
  unfolding update_row_def by (intro steady_intros)

lemma steady_collect [steady_intros]: "steady (collect_hits D fuel n ctx xu hits)"
proof (induction n arbitrary: xu hits)
  case (Suc n)
  show ?case unfolding collect_hits.simps by (intro steady_intros Suc.IH)
qed (simp add: steady_simple)

lemma steady_change [steady_intros]: "steady (XD_Next D fuel ctx xd)" "steady (XU_Next D fuel ctx xu)" "steady (XC_Next table)"
  unfolding XD_Next_def XU_Next_def XC_Next_def by (intro steady_intros)+

lemma steady_version_loop [steady_intros]:
  assumes "\<And>x. steady (see x)" "\<And>p. steady (get p)"
  shows "steady (version_loop see undo get n t)"
proof (induction n arbitrary: t)
  case (Suc n)
  show ?case unfolding version_loop.simps by (intro steady_intros assms Suc.IH)
qed (simp add: steady_simple)

lemma steady_scan_row [steady_intros]: "steady (scan_row fuel ctx t)" "steady (SS_Open fuel sq)"
  unfolding scan_row_def SS_IsVisible_def SS_Open_def by (intro steady_intros)+

lemma steady_scan_rows [steady_intros]: "steady (scan_rows fuel n ctx sq)"
proof (induction n arbitrary: sq)
  case (Suc n)
  show ?case unfolding scan_rows.simps by (intro steady_intros Suc.IH)
qed (simp add: steady_simple)

lemma steady_filter_loop [steady_intros]:
  assumes "\<And>c t. steady (nxt c t)"
  shows "steady (filter_loop nxt test n c t)"
proof (induction n arbitrary: c t)
  case (Suc n)
  show ?case unfolding filter_loop.simps by (intro steady_intros assms Suc.IH)
qed (simp add: steady_simple)

lemma steady_Next [steady_intros]: "steady (X_Next D fuel ctx depth x t)"
proof (induction depth arbitrary: x t)
  case (Suc n)
  then show ?case by (cases x) (auto simp: SS_Next_def intro!: steady_intros)
qed (simp add: steady_simple)

lemma steady_Open [steady_intros]: "steady (X_Open fuel x)"
  by (induction x) (auto intro!: steady_intros)

lemma steady_Close [steady_intros]: "steady (X_Close x)"
  by (induction x) (auto intro!: steady_intros)

lemma steady_query_loop [steady_intros]:
  assumes "\<And>c t. steady (nxt c t)"
  shows "steady (query_loop nxt n c t ex)"
proof (induction n arbitrary: c t ex)
  case (Suc n)
  show ?case unfolding query_loop.simps by (intro steady_intros assms Suc.IH)
qed (simp add: steady_simple)

lemma steady_drain_loop [steady_intros]:
  assumes "\<And>c t. steady (nxt c t)"
  shows "steady (drain_loop nxt n c t)"
proof (induction n arbitrary: c t)
  case (Suc n)
  show ?case unfolding drain_loop.simps by (intro steady_intros assms Suc.IH)
qed (simp add: steady_simple)

lemma steady_drivers [steady_intros]: "steady (ExecuteQuery D fuel ctx x)" "steady (ExecuteInsert D fuel ctx x)" "steady (ExecuteDelete D fuel ctx x)"
  "steady (ExecuteUpdate D fuel ctx x)" "steady (ExecuteCreateTable D fuel ctx x)"
  unfolding ExecuteQuery_def ExecuteInsert_def ExecuteDelete_def ExecuteUpdate_def ExecuteCreateTable_def by (intro steady_intros)+

section \<open>Recovery and rollback are steady\<close>

lemma steady_undo_write [steady_intros]: "steady (undo_write w)"
  unfolding undo_write_def by (intro steady_intros)

lemma steady_RollbackWrites [steady_intros]: "steady (RollbackWrites i)"
  unfolding RollbackWrites_def by (intro steady_intros)

lemma steady_try_fetch [steady_intros]: "steady (try_fetch p)"
  using steadyD [OF steady_in_pool [of "BM_FetchPage p"]] by (fastforce simp: steady_def try_fetch_def split: prod.splits sum.splits err.splits)

lemma steady_Redo [steady_intros]: "steady (Redo logs)"
  unfolding Redo_def redo_record_def redo_page_def by (intro steady_intros)

end
