(* ===== verification/Session.thy ===== *)
theory Session
  imports Server_Frame
begin

text \<open>
  The terminal: its start (\<^verbatim>\<open>YourSQLTerminal\<close> in \<^verbatim>\<open>main.cpp\<close>), the session of the client (\<^verbatim>\<open>include/client/client_session.h\<close>), the execution of one SQL
  statement with its transaction, and the loop over the lines of the input.  The SQL parser is the parameter \<open>parse\<close>; the texts printed are modelled by what they report.
  Shown: the transaction of a session is always one the transaction manager knows as active, whatever statements are executed and however they fail.
\<close>

section \<open>State\<close>

record ClientSession =
  cs_autocommit :: bool
  cs_isolation :: IsolationLevel
  cs_txn :: "tx_id_t option"

definition ClientSession_new :: ClientSession where
  "ClientSession_new = \<lparr>cs_autocommit = True, cs_isolation = REPEATABLE_READ, cs_txn = None\<rparr>"

record YourSQLTerminal =
  yt_db :: DB
  yt_session :: ClientSession

abbreviation (input) LOG_BUFFER_SIZE :: nat where "LOG_BUFFER_SIZE \<equiv> 8192"

text \<open>
  The constructor, on the page file \<open>pages\<close> and the log file \<open>wal\<close>; \<open>junk\<close> is what the frames hold before they are used.  The counter of page ids starts at 1.  The log
  manager is made after the recovery, which has no access to it.
\<close>

definition YourSQLTerminal_new :: "bytes \<Rightarrow> bytes \<Rightarrow> bytes \<Rightarrow> YourSQLTerminal res" where
  "YourSQLTerminal_new pages wal junk = (case MetaPage_new (BufferManager_new (PosixDiskManager_new pages) 1 junk) of
     Inl e \<Rightarrow> Inl e
   | Inr st \<Rightarrow> (let d = \<lparr>db_store = st, db_undo_page = INVALID_PAGE_ID, db_log = LogManager_new (LogBuffer_new LOG_BUFFER_SIZE (LogDiskManager_new wal)),
         db_txn = TM_SetStorage TransactionManager_new, db_catalog = Catalog_new\<rparr> in
       case Recover (LogDiskManager_new wal) d of
         (Inl e, _) \<Rightarrow> Inl e
       | (Inr n, d') \<Rightarrow> Inr \<lparr>yt_db = d'\<lparr>db_txn := TM_SetLogManager (db_txn d')\<rparr>, yt_session = ClientSession_new\<rparr>))"

definition in_db :: "(DB, 'a) comp \<Rightarrow> (YourSQLTerminal, 'a) comp" where
  "in_db = zoom yt_db (\<lambda>d t. t\<lparr>yt_db := d\<rparr>)"

definition in_catalog :: "(Catalog, 'a) comp \<Rightarrow> (DB, 'a) comp" where
  "in_catalog = zoom db_catalog (\<lambda>c d. d\<lparr>db_catalog := c\<rparr>)"

definition InExplicitTxn :: "ClientSession \<Rightarrow> bool" where
  "InExplicitTxn s \<longleftrightarrow> cs_txn s \<noteq> None"

definition set_session_txn :: "tx_id_t option \<Rightarrow> (YourSQLTerminal, unit) comp" where
  "set_session_txn i = modify (\<lambda>t. t\<lparr>yt_session := (yt_session t)\<lparr>cs_txn := i\<rparr>\<rparr>)"

text \<open>What a statement reports.\<close>

datatype Reply =
    R_Rows Execute
  | R_Inserted
  | R_Created
  | R_Deleted u64
  | R_Updated u64
  | R_Txn TxnCommand
  | R_Notice string
  | R_Error err
  | R_Help

section \<open>Exceptions\<close>

text \<open>What \<^verbatim>\<open>catch (...)\<close> sees: undefined behaviour and running forever are not caught.\<close>

definition is_exception :: "err \<Rightarrow> bool" where
  "is_exception e \<longleftrightarrow> e \<noteq> MemoryFault \<and> e \<noteq> SignedOverflow \<and> e \<noteq> OutOfFuel"

definition try_catch :: "('s, 'a) comp \<Rightarrow> (err \<Rightarrow> ('s, 'a) comp) \<Rightarrow> ('s, 'a) comp" where
  "try_catch m h = (\<lambda>s. case m s of (Inr a, t) \<Rightarrow> (Inr a, t) | (Inl e, t) \<Rightarrow> if is_exception e then h e t else (Inl e, t))"

section \<open>One statement\<close>

definition Begin_txn :: "(DB, tx_id_t) comp" where
  "Begin_txn = (\<lambda>d. case TM_Begin (db_txn d) of (i, s) \<Rightarrow> (Inr i, d\<lparr>db_txn := s\<rparr>))"

definition HandleTransactionStatement :: "TxnCommand \<Rightarrow> (YourSQLTerminal, Reply) comp" where
  "HandleTransactionStatement c = bnd (gets yt_session) (\<lambda>s. case c of
     TXN_BEGIN \<Rightarrow> if InExplicitTxn s then ret (R_Notice ''Already in a transaction'')
       else bnd (in_db Begin_txn) (\<lambda>i. thn (in_db (on_txn (update_txn i (\<lambda>t. t\<lparr>tx_isolation := cs_isolation s\<rparr>))))
         (thn (set_session_txn (Some i)) (ret (R_Txn TXN_BEGIN))))
   | TXN_COMMIT \<Rightarrow> (case cs_txn s of None \<Rightarrow> ret (R_Notice ''No transaction in progress'')
       | Some i \<Rightarrow> thn (in_db (TM_Commit i)) (thn (set_session_txn None) (ret (R_Txn TXN_COMMIT))))
   | TXN_ROLLBACK \<Rightarrow> (case cs_txn s of None \<Rightarrow> ret (R_Notice ''No transaction in progress'')
       | Some i \<Rightarrow> thn (in_db (TM_Abort i)) (thn (set_session_txn None) (ret (R_Txn TXN_ROLLBACK)))))"

fun Bind :: "BaseStatement \<Rightarrow> (Catalog, BoundStatement) comp" where
  "Bind (SelectStatement es t w) = bnd (gets (\<lambda>c. BoundSelect c es t w)) of_res"
| "Bind (InsertStatement t ns vs) = BoundInsert t ns vs"
| "Bind (CreateTableStatement t ds) = BoundCreateTable t ds"
| "Bind (DeleteStatement t w) = bnd (gets (\<lambda>c. BoundDelete c t w)) of_res"
| "Bind (UpdateStatement t ss w) = bnd (gets (\<lambda>c. BoundUpdate c t ss w)) of_res"
| "Bind (TransactionStatement c) = throw (RuntimeError ''Unsupported statement type'')"

text \<open>The transaction of a statement, and whether it is the statement's own; READ COMMITTED refreshes the snapshot.\<close>

definition statement_txn :: "(YourSQLTerminal, tx_id_t \<times> bool) comp" where
  "statement_txn = bnd (gets (\<lambda>t. cs_txn (yt_session t))) (\<lambda>cur. case cur of
     None \<Rightarrow> bnd (in_db Begin_txn) (\<lambda>i. ret (i, True))
   | Some i \<Rightarrow> bnd (gets (\<lambda>t. tx_isolation (txn_of (db_txn (yt_db t)) i))) (\<lambda>l.
       thn (on_cond (l = READ_COMMITTED) (in_db (on_txn (take_view i)))) (ret (i, False))))"

abbreviation (input) statement_ctx :: "tx_id_t \<Rightarrow> ExecutorContext" where
  "statement_ctx i \<equiv> \<lparr>ctx_txn = Some i, ctx_undo = True, ctx_tm = True, ctx_log = True\<rparr>"

definition execute_statement :: "DoubleOps \<Rightarrow> nat \<Rightarrow> ExecutorContext \<Rightarrow> BoundStatement \<Rightarrow> Executor \<Rightarrow> (DB, Reply) comp" where
  "execute_statement D fuel ctx b x = (case b of
     BoundSelectStatement sel i w \<Rightarrow> bnd (ExecuteQuery D fuel ctx x) (\<lambda>ex. ret (R_Rows ex))
   | BoundInsertStatement i ks vs \<Rightarrow> thn (ExecuteInsert D fuel ctx x) (ret R_Inserted)
   | BoundCreateTableStatement i \<Rightarrow> thn (ExecuteCreateTable D fuel ctx x) (ret R_Created)
   | BoundDeleteStatement i w \<Rightarrow> bnd (ExecuteDelete D fuel ctx x) (\<lambda>n. ret (R_Deleted n))
   | BoundUpdateStatement i ss w \<Rightarrow> bnd (ExecuteUpdate D fuel ctx x) (\<lambda>n. ret (R_Updated n)))"

text \<open>Executing the executors under the transaction \<open>i\<close>: commit an own transaction, and abort on every exception.\<close>

definition guarded :: "tx_id_t \<Rightarrow> bool \<Rightarrow> (DB, Reply) comp \<Rightarrow> (YourSQLTerminal, Reply) comp" where
  "guarded i auto m = try_catch (bnd (in_db m) (\<lambda>r. thn (on_cond auto (in_db (TM_Commit i))) (ret r)))
     (\<lambda>e. thn (in_db (TM_Abort i)) (thn (on_cond (\<not> auto) (set_session_txn None)) (throw e)))"

definition run_bound :: "DoubleOps \<Rightarrow> nat \<Rightarrow> BoundStatement \<Rightarrow> (YourSQLTerminal, Reply) comp" where
  "run_bound D fuel b = bnd (of_res (CreatePhysicalPlan (CreateLogicalPlan b))) (\<lambda>p. bnd statement_txn (\<lambda>(i, auto).
     bnd (gets (\<lambda>t. BuildExecutor (db_catalog (yt_db t)) p)) (\<lambda>r. bnd (of_res r) (\<lambda>x.
     guarded i auto (execute_statement D fuel (statement_ctx i) b x)))))"

definition ExecuteSQL :: "DoubleOps \<Rightarrow> nat \<Rightarrow> (string \<Rightarrow> hStatement list option) \<Rightarrow> string \<Rightarrow> (YourSQLTerminal, Reply) comp" where
  "ExecuteSQL D fuel parse sql = bnd (of_res (ParserSQL parse sql)) (\<lambda>ss. case ss of
     [] \<Rightarrow> ret (R_Notice ''No statement found'')
   | s # _ \<Rightarrow> (case s of TransactionStatement c \<Rightarrow> HandleTransactionStatement c
       | _ \<Rightarrow> bnd (in_db (in_catalog (Bind s))) (run_bound D fuel)))"

section \<open>The loop\<close>

definition is_space :: "char \<Rightarrow> bool" where
  "is_space c \<longleftrightarrow> c = CHR '' '' \<or> c = CHR 0x09 \<or> c = CHR 0x0A \<or> c = CHR 0x0D"

definition Trim :: "string \<Rightarrow> string" where
  "Trim s = rev (dropWhile is_space (rev (dropWhile is_space s)))"

text \<open>
  \<open>Run\<close> answers the lines of the input; the flag says that the loop was left by \<^verbatim>\<open>exit\<close> or \<^verbatim>\<open>quit\<close>.  At the end of the input \<^verbatim>\<open>getline\<close> yields an empty line each
  time, and the loop goes on forever: the flag is false.
\<close>

fun Run :: "DoubleOps \<Rightarrow> nat \<Rightarrow> (string \<Rightarrow> hStatement list option) \<Rightarrow> string list \<Rightarrow> (YourSQLTerminal, Reply list \<times> bool) comp" where
  "Run D fuel parse [] = ret ([], False)"
| "Run D fuel parse (l # ls) = (let sql = Trim l in
     if sql = [] then Run D fuel parse ls
     else if sql = ''exit'' \<or> sql = ''quit'' then ret ([], True)
     else bnd (if sql = ''help'' \<or> sql = ''?'' then ret R_Help
               else try_catch (ExecuteSQL D fuel parse sql) (\<lambda>e. ret (R_Error e))) (\<lambda>r.
       bnd (Run D fuel parse ls) (\<lambda>(rs, ended). ret (r # rs, ended))))"

section \<open>The session invariant\<close>

definition session_inv :: "YourSQLTerminal \<Rightarrow> bool" where
  "session_inv t \<longleftrightarrow> log_fine (yt_db t) \<and> tm_log (db_txn (yt_db t)) \<and>
     (\<forall>i. cs_txn (yt_session t) = Some i \<longrightarrow> i \<in> set (tm_active (db_txn (yt_db t))))"

lemma in_db_run: "m (yt_db t) = (r, d) \<Longrightarrow> in_db m t = (r, t\<lparr>yt_db := d\<rparr>)"
  by (simp add: in_db_def zoom_def)

lemma log_and_flush_fine:
  assumes "log_fine d" "tm_log (db_txn d)"
  obtains l where "log_and_flush i ty d = (Inr (), d\<lparr>db_log := l\<rparr>)" "log_fine (d\<lparr>db_log := l\<rparr>)"
proof -
  let ?r = "control i ty" and ?m = "db_log d"
  note h = assms(1) [unfolded log_fine_def]
  have w: "well_sized (lb_capacity (lm_buffer ?m)) ?r" using h by (simp add: well_sized_def control_def)
  obtain b where b: "AppendLogRecord ?r ?m = (Inr (lm_next_lsn ?m), \<lparr>lm_buffer = b, lm_next_lsn = lm_next_lsn ?m + 1\<rparr>)" "lb_ok b"
    "lb_capacity b = lb_capacity (lm_buffer ?m)" using AppendLogRecord_run [of ?m ?r] h w by blast
  let ?m1 = "\<lparr>lm_buffer = b, lm_next_lsn = lm_next_lsn ?m + 1\<rparr>"
  obtain c where c: "LM_Flush ?m1 = (Inr (), ?m1\<lparr>lm_buffer := c\<rparr>)" "lb_ok c" "lb_capacity c = lb_capacity b"
    using LM_Flush_run [of ?m1] b(2) by auto
  have "log_and_flush i ty d = (Inr (), d\<lparr>db_log := ?m1\<lparr>lm_buffer := c\<rparr>\<rparr>)"
    using assms(2) b(1) c(1) by (simp add: log_and_flush_def WriteTxnControlLog_def in_log_def comp_simps flip: control_def)
  then show ?thesis using that b(3) c h by (simp add: log_fine_def)
qed

lemma finish_fine: "log_fine (d\<lparr>db_txn := s\<rparr>) = log_fine d" "tm_log (finish_txn i st s) = tm_log s" "tm_log (update_txn i f s) = tm_log s"
  by (simp_all add: log_fine_def finish_txn_def update_txn_def)

lemma Commit_fine:
  assumes "log_fine d" "tm_log (db_txn d)" "i \<in> set (tm_active (db_txn d))"
  obtains e where "TM_Commit i d = (Inr (), e)" "log_fine e" "db_txn e = finish_txn i COMMITTED (db_txn d)"
proof -
  let ?d = "d\<lparr>db_txn := finish_txn i COMMITTED (db_txn d)\<rparr>"
  have "log_fine ?d" "tm_log (db_txn ?d)" using assms(1,2) by (simp_all add: finish_fine)
  then obtain l where "log_and_flush i LR_COMMIT ?d = (Inr (), ?d\<lparr>db_log := l\<rparr>)" "log_fine (?d\<lparr>db_log := l\<rparr>)" by (rule log_and_flush_fine)
  then show ?thesis using that assms(3) by (simp add: TM_Commit_def on_txn_def comp_simps)
qed

text \<open>Aborting an active transaction ends it, or stops in the rollback and leaves it active.\<close>

lemma Abort_fine:
  assumes "log_fine d" "tm_log (db_txn d)" "i \<in> set (tm_active (db_txn d))" "TM_Abort i d = (r, e)"
  shows "log_fine e \<and> tm_log (db_txn e) \<and>
    (if r = Inr () then tm_active (db_txn e) = removeAll i (tm_active (db_txn d)) else tm_active (db_txn e) = tm_active (db_txn d))"
proof -
  obtain x d1 where x: "RollbackWrites i d = (x, d1)" by fastforce
  have s: "tm_active (db_txn d1) = tm_active (db_txn d)" "tm_log (db_txn d1)" "log_fine d1"
    using steadyD [OF steady_RollbackWrites x] assms(1,2) by (simp_all add: tm_alike_def)
  show ?thesis
  proof (cases x)
    case (Inl z)
    then show ?thesis using assms(3,4) x s by (auto simp: TM_Abort_def comp_simps)
  next
    case (Inr u)
    let ?d = "d1\<lparr>db_txn := finish_txn i ABORTED (db_txn d1)\<rparr>"
    have "log_fine ?d" "tm_log (db_txn ?d)" using s by (simp_all add: finish_fine)
    then obtain l where l: "log_and_flush i LR_ABORT ?d = (Inr (), ?d\<lparr>db_log := l\<rparr>)" "log_fine (?d\<lparr>db_log := l\<rparr>)" by (rule log_and_flush_fine)
    then show ?thesis using Inr assms(3,4) x s by (auto simp: TM_Abort_def on_txn_def comp_simps finish_fine)
  qed
qed

lemma guarded_keeps:
  assumes inv: "session_inv t" and m: "steady m" and i: "i \<in> set (tm_active (db_txn (yt_db t)))"
    and own: "cs_txn (yt_session t) = (if auto then None else Some i)"
    and run: "guarded i auto m t = (r, u)" "\<forall>e. r = Inl e \<longrightarrow> is_exception e"
  shows "session_inv u"
proof -
  obtain x d where x: "m (yt_db t) = (x, d)" by fastforce
  have d: "tm_active (db_txn d) = tm_active (db_txn (yt_db t))" "tm_log (db_txn d)" "log_fine d"
    using steadyD [OF m x] inv by (simp_all add: tm_alike_def session_inv_def)
  note db = in_db_run [of m t, OF x]
  show ?thesis
  proof (cases x)
    case (Inr a)
    obtain e where e: "TM_Commit i d = (Inr (), e)" "log_fine e" "db_txn e = finish_txn i COMMITTED (db_txn d)"
      using Commit_fine [OF d(3,2)] i d(1) by metis
    have "u = (if auto then t\<lparr>yt_db := e\<rparr> else t\<lparr>yt_db := d\<rparr>)"
      using run(1) db Inr in_db_run [of "TM_Commit i" "t\<lparr>yt_db := d\<rparr>"] e(1) by (cases auto) (auto simp: guarded_def try_catch_def comp_simps)
    then show ?thesis using d e i own by (auto simp: session_inv_def finish_fine)
  next
    case (Inl z)
    show ?thesis
    proof (cases "is_exception z")
      case True
      obtain y e where y: "TM_Abort i d = (y, e)" by fastforce
      note a = Abort_fine [OF d(3,2) _ y]
      have "u = (if y = Inr () \<and> \<not> auto then t\<lparr>yt_db := e, yt_session := (yt_session t)\<lparr>cs_txn := None\<rparr>\<rparr> else t\<lparr>yt_db := e\<rparr>)"
        using run(1) db Inl True in_db_run [of "TM_Abort i" "t\<lparr>yt_db := d\<rparr>"] y
        by (cases y) (auto simp: guarded_def try_catch_def comp_simps set_session_txn_def)
      then show ?thesis using a d(1) i own by (auto simp: session_inv_def split: if_splits)
    qed (use run db Inl in \<open>auto simp: guarded_def try_catch_def comp_simps\<close>)
  qed
qed

lemma Begin_txn_run:
  obtains i s where "Begin_txn d = (Inr i, d\<lparr>db_txn := s\<rparr>)" "set (tm_active s) = insert i (set (tm_active (db_txn d)))" "tm_log s = tm_log (db_txn d)"
proof -
  obtain i s where b: "begin_register (db_txn d) = (i, s)" by fastforce
  then have "Begin_txn d = (Inr i, d\<lparr>db_txn := take_view i s\<rparr>)" by (simp add: Begin_txn_def TM_Begin_def)
  moreover have "set (tm_active (take_view i s)) = insert i (set (tm_active (db_txn d)))" "tm_log (take_view i s) = tm_log (db_txn d)"
    using b by (auto simp: begin_register_def GetNextTxId_def take_view_def finish_fine)
  ultimately show ?thesis using that by blast
qed

text \<open>The transaction of a statement is active; it is the session's, if that has one.\<close>

lemma statement_txn_run:
  assumes "session_inv t"
  obtains i u where "statement_txn t = (Inr (i, cs_txn (yt_session t) = None), u)" "session_inv u" "i \<in> set (tm_active (db_txn (yt_db u)))"
    "cs_txn (yt_session u) = (if cs_txn (yt_session t) = None then None else Some i)" "db_catalog (yt_db u) = db_catalog (yt_db t)"
proof (cases "cs_txn (yt_session t)")
  case None
  obtain i s where b: "Begin_txn (yt_db t) = (Inr i, (yt_db t)\<lparr>db_txn := s\<rparr>)" "set (tm_active s) = insert i (set (tm_active (db_txn (yt_db t))))"
    "tm_log s = tm_log (db_txn (yt_db t))" by (rule Begin_txn_run)
  let ?u = "t\<lparr>yt_db := (yt_db t)\<lparr>db_txn := s\<rparr>\<rparr>"
  have "statement_txn t = (Inr (i, True), ?u)" using None in_db_run [of Begin_txn t] b(1) by (simp add: statement_txn_def comp_simps)
  then show ?thesis using that [of i ?u] None assms b(2,3) by (simp add: session_inv_def finish_fine)
next
  case (Some i)
  let ?u = "if tx_isolation (txn_of (db_txn (yt_db t)) i) = READ_COMMITTED then t\<lparr>yt_db := (yt_db t)\<lparr>db_txn := take_view i (db_txn (yt_db t))\<rparr>\<rparr> else t"
  have "statement_txn t = (Inr (i, False), ?u)"
    using Some in_db_run [of "on_txn (take_view i)" t] by (simp add: statement_txn_def on_txn_def comp_simps)
  then show ?thesis using that [of i ?u] Some assms by (auto simp: session_inv_def finish_fine take_view_def)
qed

lemma steady_execute [steady_intros]: "steady (execute_statement D fuel ctx b x)"
  unfolding execute_statement_def by (cases b) (auto intro!: steady_intros)

lemma run_bound_keeps:
  assumes "session_inv t" "run_bound D fuel b t = (r, u)" "\<forall>e. r = Inl e \<longrightarrow> is_exception e"
  shows "session_inv u"
proof (cases "CreatePhysicalPlan (CreateLogicalPlan b)")
  case (Inl e)
  then show ?thesis using assms(1,2) by (auto simp: run_bound_def comp_simps)
next
  case (Inr p)
  let ?auto = "cs_txn (yt_session t) = None"
  obtain i v where v: "statement_txn t = (Inr (i, ?auto), v)" "session_inv v" "i \<in> set (tm_active (db_txn (yt_db v)))"
    "cs_txn (yt_session v) = (if ?auto then None else Some i)" by (rule statement_txn_run [OF assms(1)])
  show ?thesis
  proof (cases "BuildExecutor (db_catalog (yt_db v)) p")
    case (Inl e)
    then show ?thesis using assms(2) Inr v(1,2) by (auto simp: run_bound_def comp_simps)
  next
    case x: (Inr x)
    have "guarded i ?auto (execute_statement D fuel (statement_ctx i) b x) v = (r, u)"
      using assms(2) Inr v(1) x by (simp add: run_bound_def comp_simps)
    then show ?thesis by (rule guarded_keeps [OF v(2) steady_execute v(3,4)]) (use assms(3) in simp)
  qed
qed

lemma HandleTransactionStatement_keeps:
  assumes inv: "session_inv t" and run: "HandleTransactionStatement c t = (r, u)"
  shows "session_inv u"
proof (cases "cs_txn (yt_session t)")
  case None
  obtain i s where b: "Begin_txn (yt_db t) = (Inr i, (yt_db t)\<lparr>db_txn := s\<rparr>)" "set (tm_active s) = insert i (set (tm_active (db_txn (yt_db t))))"
    "tm_log s = tm_log (db_txn (yt_db t))" by (rule Begin_txn_run)
  show ?thesis
    using None run inv in_db_run [of Begin_txn t, OF b(1)] b(2,3)
    by (cases c) (auto simp: HandleTransactionStatement_def InExplicitTxn_def comp_simps in_db_def on_txn_def set_session_txn_def session_inv_def finish_fine)
next
  case (Some i)
  have f: "log_fine (yt_db t)" "tm_log (db_txn (yt_db t))" "i \<in> set (tm_active (db_txn (yt_db t)))" using inv Some by (simp_all add: session_inv_def)
  obtain e where e: "TM_Commit i (yt_db t) = (Inr (), e)" "log_fine e" "db_txn e = finish_txn i COMMITTED (db_txn (yt_db t))" by (rule Commit_fine [OF f])
  obtain y a where y: "TM_Abort i (yt_db t) = (y, a)" by fastforce
  note ab = Abort_fine [OF f y]
  show ?thesis
  proof (cases c)
    case TXN_COMMIT
    then show ?thesis
      using Some run e in_db_run [of "TM_Commit i" t, OF e(1)] f(2) by (auto simp: HandleTransactionStatement_def comp_simps set_session_txn_def session_inv_def finish_fine)
  next
    case TXN_ROLLBACK
    then show ?thesis
      using Some run ab in_db_run [of "TM_Abort i" t, OF y] f
      by (cases y) (auto simp: HandleTransactionStatement_def comp_simps set_session_txn_def session_inv_def)
  qed (use Some run inv in \<open>auto simp: HandleTransactionStatement_def InExplicitTxn_def comp_simps\<close>)
qed

lemma ExecuteSQL_keeps:
  assumes "session_inv t" "ExecuteSQL D fuel parse sql t = (r, u)" "\<forall>e. r = Inl e \<longrightarrow> is_exception e"
  shows "session_inv u"
proof (cases "ParserSQL parse sql")
  case (Inr ss)
  show ?thesis
  proof (cases "\<exists>c rest. ss = TransactionStatement c # rest")
    case True
    then show ?thesis using assms(1,2) Inr HandleTransactionStatement_keeps by (auto simp: ExecuteSQL_def comp_simps)
  next
    case False
    show ?thesis
    proof (cases ss)
      case (Cons s rest)
      obtain x c where x: "Bind s (db_catalog (yt_db t)) = (x, c)" by fastforce
      let ?t = "t\<lparr>yt_db := (yt_db t)\<lparr>db_catalog := c\<rparr>\<rparr>"
      have b: "in_db (in_catalog (Bind s)) t = (x, ?t)" using x by (simp add: in_db_def in_catalog_def zoom_def)
      have inv: "session_inv ?t" using assms(1) by (simp add: session_inv_def log_fine_def)
      have "ExecuteSQL D fuel parse sql t = bnd (in_db (in_catalog (Bind s))) (run_bound D fuel) t"
        using False Cons Inr by (cases s) (auto simp: ExecuteSQL_def comp_simps)
      then have e: "ExecuteSQL D fuel parse sql t = (case x of Inl e \<Rightarrow> (Inl e, ?t) | Inr a \<Rightarrow> run_bound D fuel a ?t)"
        using b by (simp add: bnd_def split: sum.splits)
      show ?thesis
      proof (cases x)
        case (Inl e)
        then show ?thesis using e assms(2) inv by simp
      next
        case (Inr a)
        then have "run_bound D fuel a ?t = (r, u)" using e assms(2) by simp
        then show ?thesis using run_bound_keeps [OF inv _ assms(3)] by blast
      qed
    qed (use assms(1,2) Inr in \<open>auto simp: ExecuteSQL_def comp_simps\<close>)
  qed
qed (use assms(1,2) in \<open>auto simp: ExecuteSQL_def comp_simps\<close>)

lemma Run_keeps:
  assumes "session_inv t" "Run D fuel parse ls t = (Inr x, u)"
  shows "session_inv u"
  using assms
proof (induction ls arbitrary: t x)
  case (Cons l ls)
  let ?sql = "Trim l" and ?m = "\<lambda>sql. if sql = ''help'' \<or> sql = ''?'' then ret R_Help else try_catch (ExecuteSQL D fuel parse sql) (\<lambda>e. ret (R_Error e))"
  have m: "session_inv v" if "?m ?sql t = (Inr r, v)" for r v
    using that Cons.prems(1) ExecuteSQL_keeps [OF Cons.prems(1), of D fuel parse ?sql]
    by (auto simp: try_catch_def comp_simps split: if_splits prod.splits sum.splits)
  consider "?sql = []" | "?sql = ''exit'' \<or> ?sql = ''quit''" | r v w where "?m ?sql t = (Inr r, v)" "Run D fuel parse ls v = (Inr w, u)"
    using Cons.prems(2) by (fastforce simp: Let_def bnd_Inr_iff comp_simps split: if_splits prod.splits)
  then show ?case
  proof cases
    case 1
    then show ?thesis using Cons by simp
  next
    case 2
    then show ?thesis using Cons.prems by (auto simp: comp_simps)
  next
    case (3 r v w)
    then show ?thesis using Cons.IH m by blast
  qed
qed (simp add: comp_simps)

section \<open>The start\<close>

text \<open>A server that starts has a fresh log buffer, no table in its catalog and no transaction in its session.\<close>

lemma YourSQLTerminal_new_start:
  assumes "YourSQLTerminal_new pages wal junk = Inr t"
  shows "session_inv t" "db_catalog (yt_db t) = Catalog_new" "yt_session t = ClientSession_new"
proof -
  obtain st n d where d: "Recover (LogDiskManager_new wal) \<lparr>db_store = st, db_undo_page = INVALID_PAGE_ID,
      db_log = LogManager_new (LogBuffer_new LOG_BUFFER_SIZE (LogDiskManager_new wal)), db_txn = TM_SetStorage TransactionManager_new, db_catalog = Catalog_new\<rparr> = (Inr n, d)"
    and t: "t = \<lparr>yt_db = d\<lparr>db_txn := TM_SetLogManager (db_txn d)\<rparr>, yt_session = ClientSession_new\<rparr>"
    using assms by (auto simp: YourSQLTerminal_new_def Let_def split: sum.splits prod.splits)
  let ?d = "\<lambda>s. \<lparr>db_store = st, db_undo_page = INVALID_PAGE_ID, db_log = LogManager_new (LogBuffer_new LOG_BUFFER_SIZE (LogDiskManager_new wal)), db_txn = s, db_catalog = Catalog_new\<rparr>"
  have fresh: "log_fine (?d s)" for s
    using LogBuffer_new_ok [of LOG_BUFFER_SIZE wal] by (simp add: log_fine_def LogManager_new_def) (simp add: LogBuffer_new_def)
  have "log_fine d \<and> db_catalog d = Catalog_new"
  proof (cases "ReadLog (LogDiskManager_new wal) = []")
    case True
    then show ?thesis using d fresh by (auto simp: Recover_def Let_def comp_simps)
  next
    case False
    then obtain s where "Redo (ReadLog (LogDiskManager_new wal)) (?d s) = (Inr (), d)"
      using d by (auto simp: Recover_def Let_def on_txn_def thn_Inr_iff ret_def modify_def)
    from steadyD [OF steady_Redo this] show ?thesis using fresh by simp
  qed
  then show "session_inv t" "db_catalog (yt_db t) = Catalog_new" "yt_session t = ClientSession_new"
    unfolding t by (simp_all add: session_inv_def finish_fine TM_SetLogManager_def ClientSession_new_def)
qed

lemma HandleTransactionStatement_commit:
  assumes "session_inv t" "cs_txn (yt_session t) = Some i"
  obtains u where "HandleTransactionStatement TXN_COMMIT t = (Inr (R_Txn TXN_COMMIT), u)" "cs_txn (yt_session u) = None"
    "db_txn (yt_db u) = finish_txn i COMMITTED (db_txn (yt_db t))"
proof -
  have f: "log_fine (yt_db t)" "tm_log (db_txn (yt_db t))" "i \<in> set (tm_active (db_txn (yt_db t)))" using assms by (simp_all add: session_inv_def)
  obtain e where e: "TM_Commit i (yt_db t) = (Inr (), e)" "db_txn e = finish_txn i COMMITTED (db_txn (yt_db t))" by (rule Commit_fine [OF f])
  then show ?thesis
    using that assms(2) in_db_run [of "TM_Commit i" t, OF e(1)] by (simp add: HandleTransactionStatement_def comp_simps set_session_txn_def)
qed

text \<open>A server on a page file of one empty page and an empty log, and a parser of one text.\<close>

lemma demo_start: "\<exists>t. YourSQLTerminal_new (replicate PAGE_SIZE 0) [] (replicate PAGE_SIZE 0) = Inr t"
proof -
  obtain s where "MetaPage_new zero_pool = Inr s" using opened_store by blast
  moreover have "ReadLog (LogDiskManager_new []) = []" by (rule ReadLog_records) (simp_all add: LogDiskManager_new_def)
  ultimately show ?thesis by (simp add: YourSQLTerminal_new_def zero_pool_def Recover_def Let_def ret_def)
qed

definition demo_parser :: "string \<Rightarrow> hStatement list option" where
  "demo_parser sql = (if sql = ''BEGIN'' then Some [kStmtTransaction kBeginTransaction] else None)"

lemma demo_begin:
  assumes "session_inv t" "cs_txn (yt_session t) = None"
  obtains i u where "Run D fuel demo_parser ['' BEGIN ''] t = (Inr ([R_Txn TXN_BEGIN], False), u)" "cs_txn (yt_session u) = Some i"
proof -
  obtain i s where b: "Begin_txn (yt_db t) = (Inr i, (yt_db t)\<lparr>db_txn := s\<rparr>)" by (rule Begin_txn_run)
  obtain u where u: "HandleTransactionStatement TXN_BEGIN t = (Inr (R_Txn TXN_BEGIN), u)" "cs_txn (yt_session u) = Some i"
    using in_db_run [of Begin_txn t, OF b] assms(2)
    by (simp add: HandleTransactionStatement_def InExplicitTxn_def comp_simps in_db_def on_txn_def set_session_txn_def)
  moreover have "ExecuteSQL D fuel demo_parser ''BEGIN'' t = HandleTransactionStatement TXN_BEGIN t"
    by (simp add: ExecuteSQL_def ParserSQL_def demo_parser_def comp_simps)
  moreover have "Trim '' BEGIN '' = ''BEGIN''" by (simp add: Trim_def is_space_def)
  ultimately show ?thesis using that by (simp add: try_catch_def comp_simps)
qed

section \<open>Properties of the terminal\<close>

text \<open>
  C14. From the start of the server, and whatever lines are entered (statements that fail in the parser, the binder, the planner or in the middle of an executor included): the
  transaction of the session, if there is one, is active in the transaction manager, and a COMMIT entered next succeeds: it commits exactly that transaction and leaves the session
  without one.
\<close>

theorem session_transaction_commits:
  assumes "YourSQLTerminal_new pages wal junk = Inr t" "Run D fuel parse ls t = (Inr (rs, ended), u)" "cs_txn (yt_session u) = Some i"
  shows "i \<in> set (tm_active (db_txn (yt_db u))) \<and>
    (\<exists>v. HandleTransactionStatement TXN_COMMIT u = (Inr (R_Txn TXN_COMMIT), v) \<and> cs_txn (yt_session v) = None \<and>
       db_txn (yt_db v) = finish_txn i COMMITTED (db_txn (yt_db u)))"
proof -
  have inv: "session_inv u" using Run_keeps [OF _ assms(2)] YourSQLTerminal_new_start(1) [OF assms(1)] by blast
  obtain v where "HandleTransactionStatement TXN_COMMIT u = (Inr (R_Txn TXN_COMMIT), v)" "cs_txn (yt_session v) = None"
    "db_txn (yt_db v) = finish_txn i COMMITTED (db_txn (yt_db u))" by (rule HandleTransactionStatement_commit [OF inv assms(3)])
  then show ?thesis using inv assms(3) by (auto simp: session_inv_def)
qed

theorem session_transaction_commits_witness:
  "\<exists>t u i. YourSQLTerminal_new (replicate PAGE_SIZE 0) [] (replicate PAGE_SIZE 0) = Inr t \<and>
    Run demo_doubles 9 demo_parser ['' BEGIN ''] t = (Inr ([R_Txn TXN_BEGIN], False), u) \<and> cs_txn (yt_session u) = Some i \<and>
    i \<in> set (tm_active (db_txn (yt_db u))) \<and>
    (\<exists>v. HandleTransactionStatement TXN_COMMIT u = (Inr (R_Txn TXN_COMMIT), v) \<and> cs_txn (yt_session v) = None \<and>
       db_txn (yt_db v) = finish_txn i COMMITTED (db_txn (yt_db u)))"
proof -
  obtain t where t: "YourSQLTerminal_new (replicate PAGE_SIZE 0) [] (replicate PAGE_SIZE 0) = Inr t" using demo_start by blast
  note start = YourSQLTerminal_new_start [OF t]
  have none: "cs_txn (yt_session t) = None" by (simp add: start ClientSession_new_def)
  obtain i u where u: "Run demo_doubles 9 demo_parser ['' BEGIN ''] t = (Inr ([R_Txn TXN_BEGIN], False), u)" "cs_txn (yt_session u) = Some i"
    by (rule demo_begin [OF start(1) none])
  show ?thesis using t u session_transaction_commits [OF t u] by blast
qed

end
