(* ===== verification/Row_Choice.thy ===== *)
theory Row_Choice
  imports Write_Executors
begin

text \<open>
  Which rows DELETE and UPDATE work on.  Both walk over the table with the iterator and test every row (\<^verbatim>\<open>executor/executor_delete.cpp\<close>,
  \<^verbatim>\<open>executor/executor_update.cpp\<close>); UPDATE first collects the rows it will change.  Shown: the test selects exactly the rows that are not marked deleted, whose
  writer the transaction sees and that satisfy the condition; and the first phase of UPDATE ends with exactly these rows, each with its place, its old
  header and its new values, having changed nothing.
\<close>

section \<open>The layout of a page determines its records\<close>

lemma layout_unique:
  assumes "page_layout tp rs d" "page_layout tp' rs' d"
  shows "rs' = rs" "tp_next tp' = tp_next tp" "tp_page_id tp' = tp_page_id tp"
proof -
  obtain tq s0 where p: "table_ok tq s0 [demo_item] []" using demo_page by blast
  let ?f = "tp_frame tq" and ?s = "tput (tp_frame tq) d s0"
  let ?at = "\<lambda>t. t\<lparr>tp_frame := tp_frame tq, tp_table := 0\<rparr>"
  have l: "length d = PAGE_SIZE" using assms(1) by (simp add: page_layout_def)
  have h: "theld (tp_page_id tq) ?f ?s" "tdata ?f ?s = d" using tput_facts [OF table_okD(1) [OF p] l] by simp_all
  have "TablePage_new 0 ?f True ?s = (Inr (?at tp), ?s)" "TablePage_new 0 ?f True ?s = (Inr (?at tp'), ?s)"
    using TablePage_open_run [of "tp_page_id tq" "?at tp" ?s rs] TablePage_open_run [of "tp_page_id tq" "?at tp'" ?s rs'] h assms by (simp_all add: page_layout_place)
  then have same: "?at tp' = ?at tp" by simp
  show "tp_next tp' = tp_next tp" "tp_page_id tp' = tp_page_id tp"
    using arg_cong [OF same, of tp_next] arg_cong [OF same, of tp_page_id] by simp_all
  have n: "length rs' = length rs" using page_layout_count [OF assms(1)] page_layout_count [OF assms(2)] arg_cong [OF same, of tp_num_rows] by simp
  have "rs' ! i = rs ! i" if "i < length rs" for i
  proof -
    let ?rid = "\<lparr>rid_page = 0, rid_row = word_of_nat (Suc i)\<rparr>"
    have row: "unat (rid_row ?rid) = Suc i" using that page_layout_count [OF assms(1)] by (simp only: RID.simps) (simp add: unat_of_nat take_bit_eq_mod del: of_nat_Suc)
    have get: "TP_GetTuple ?rid (?at t) Tuple_new ?s = (Inr (Tuple_new\<lparr>t_data := Some (qs ! i), t_size := word_of_nat (length (qs ! i))\<rparr>), ?s)"
      if "page_layout t qs d" "i < length qs" for t qs
      using h that by (intro GetTuple_run [OF _ _ _ row]) (simp_all add: page_layout_place)
    have "Tuple_new\<lparr>t_data := Some (rs' ! i), t_size := word_of_nat (length (rs' ! i))\<rparr> = Tuple_new\<lparr>t_data := Some (rs ! i), t_size := word_of_nat (length (rs ! i))\<rparr>"
      using get [OF assms(1) that] get [OF assms(2)] that n unfolding same by simp
    from arg_cong [OF this, of t_data] show ?thesis by simp
  qed
  then show "rs' = rs" using n by (simp add: list_eq_iff_nth_eq)
qed

lemma chain_unique: "chain b ps rss \<Longrightarrow> chain b ps rss' \<Longrightarrow> rss' = rss"
proof (induction b ps rss arbitrary: rss' rule: chain.induct)
  case (1 b)
  then show ?case by (cases rss') simp_all
next
  case (2 b p ps rs rss)
  then obtain qs qss where r: "rss' = qs # qss" by (cases rss') simp_all
  then show ?case using 2 layout_unique(1) by fastforce
qed simp_all

lemma chain_split:
  assumes "chain b (pre @ p # qs) rss"
  obtains A rs C d tp where "rss = A @ rs # C" "length A = length pre" "chain b qs C" "page_content b p = Some d" "page_layout tp rs d" "tp_next tp = first_id qs"
    "p \<noteq> 0" "addressable p" "backed b p"
  using assms
proof (induction pre arbitrary: rss thesis)
  case Nil
  then show ?case by (cases rss) auto
next
  case (Cons a pre)
  obtain rs' rss' where r: "rss = rs' # rss'" "chain b (pre @ p # qs) rss'" using Cons.prems(2) by (cases rss) auto
  show ?case by (rule Cons.IH [OF _ r(2)], rule Cons.prems(1) [of "rs' # _"]) (simp_all add: r(1))
qed

section \<open>The places of the rows\<close>

fun places :: "page_id_t list \<Rightarrow> bytes list list \<Rightarrow> RID list" where
  "places (p # ps) (rs # rss) = map (\<lambda>i. \<lparr>rid_page = p, rid_row = word_of_nat (Suc i)\<rparr>) [0..<length rs] @ places ps rss"
| "places _ _ = []"

lemma places_lengths: "map length rss' = map length rss \<Longrightarrow> places ps rss' = places ps rss"
proof (induction ps rss arbitrary: rss' rule: places.induct)
  case (1 p ps rs rss)
  obtain x xs where "rss' = x # xs" "length x = length rs" "map length xs = map length rss" using 1(2) by (cases rss') simp_all
  then show ?case using 1(1) [of xs] by simp
qed auto

lemma length_places: "length ps = length rss \<Longrightarrow> length (places ps rss) = length (concat rss)"
  by (induction ps rss rule: places.induct) simp_all

lemma places_append: "length pre = length A \<Longrightarrow> places (pre @ ps) (A @ rss) = places pre A @ places ps rss"
  by (induction pre A rule: places.induct) simp_all

lemma places_at:
  assumes "length pre = length A" "i < length rs"
  shows "drop (length (concat A @ take i rs)) (places (pre @ p # qs) (A @ rs # C)) =
    \<lparr>rid_page = p, rid_row = word_of_nat (Suc i)\<rparr> # drop (length (concat A @ take (Suc i) rs)) (places (pre @ p # qs) (A @ rs # C))"
proof -
  have "drop i [0..<length rs] = i # drop (Suc i) [0..<length rs]" using assms(2) by (simp add: upt_conv_Cons)
  then show ?thesis using assms by (simp add: places_append length_places drop_map min_absorb2)
qed

section \<open>The test of a row\<close>

definition open_to :: "ExecutorContext \<Rightarrow> DB \<Rightarrow> bytes \<Rightarrow> bool" where
  "open_to ctx d r \<longleftrightarrow> rh_flags (read_header r) AND RECORD_DEL = 0 \<and> WX_IsVisible ctx (rh_trx_id (read_header r)) d"

definition picked :: "DoubleOps \<Rightarrow> ExecutorContext \<Rightarrow> DB \<Rightarrow> Schema \<Rightarrow> PhysicalExpression option \<Rightarrow> bytes \<Rightarrow> bool" where
  "picked D ctx d sch flt r \<longleftrightarrow> open_to ctx d r \<and> row_matches D flt (scan_tuple sch r) = Inr True"

text \<open>The row is long enough for its header, and the condition has a value on it where it is tested.\<close>

definition testable :: "DoubleOps \<Rightarrow> ExecutorContext \<Rightarrow> DB \<Rightarrow> Schema \<Rightarrow> PhysicalExpression option \<Rightarrow> bytes \<Rightarrow> bool" where
  "testable D ctx d sch flt r \<longleftrightarrow> 22 \<le> length r \<and> (open_to ctx d r \<longrightarrow> (\<exists>b. row_matches D flt (scan_tuple sch r) = Inr b))"

definition no_conflicts :: "ExecutorContext \<Rightarrow> DB \<Rightarrow> bool" where
  "no_conflicts ctx d \<longleftrightarrow> (\<forall>x. WX_IsVisible ctx x d \<longrightarrow> conflict_check ctx x d = (Inr (), d))"

text \<open>The place a row has in a heap page.\<close>

definition located :: "BufferManager \<Rightarrow> RID \<Rightarrow> bytes \<Rightarrow> bool" where
  "located b rid r \<longleftrightarrow> (\<exists>d tp rs i. page_content b (rid_page rid) = Some d \<and> page_layout tp rs d \<and> i < length rs \<and> unat (rid_row rid) = Suc i \<and> rs ! i = r)"

lemma located_keeps: "located b rid r \<Longrightarrow> keeps_pages b c \<Longrightarrow> located c rid r"
  unfolding located_def keeps_pages_def by blast

text \<open>What the row under the iterator answers.\<close>

definition picked_row :: "DoubleOps \<Rightarrow> ExecutorContext \<Rightarrow> DB \<Rightarrow> Schema \<Rightarrow> PhysicalExpression option \<Rightarrow> bytes \<Rightarrow> (u16 \<times> tx_id_t \<times> Tuple) option" where
  "picked_row D ctx d sch flt r =
     (if picked D ctx d sch flt r then Some (rh_flags (read_header r), rh_trx_id (read_header r), scan_tuple sch r) else None)"

lemma row_position:
  assumes "iter_at n ps b it (r # rest)" "iter_ready it" "\<not> ti_end it"
  obtains pre qs tp rs rss i where "ps = pre @ ti_page_id it # qs" "ti_tp it = Some tp" "pinned n (ti_page_id it) (tp_frame tp) b" "backed b (ti_page_id it)"
    "page_layout tp rs (fdata (tp_frame tp) b)" "unat (ti_row it) = Suc i" "i < length rs" "ti_num_rows it = tp_num_rows tp"
    "tp_table tp = ti_table it" "tp_next tp = first_id qs" "chain b qs rss" "r = rs ! i" "rest = drop (Suc i) rs @ concat rss" "pool_ok b"
    "held (ti_page_id it) (tp_frame tp) b" "unat (rid_row (TI_GetRID it)) = Suc i"
proof -
  obtain pre qs tp rs rss i where t: "ps = pre @ ti_page_id it # qs" "ti_tp it = Some tp" "pinned n (ti_page_id it) (tp_frame tp) b" "backed b (ti_page_id it)"
    "page_layout tp rs (fdata (tp_frame tp) b)" "unat (ti_row it) = Suc i" "i \<le> length rs" "ti_num_rows it = tp_num_rows tp"
    "tp_table tp = ti_table it" "tp_next tp = first_id qs" "chain b qs rss" "r # rest = drop i rs @ concat rss" "pool_ok b" by (rule iter_atE [OF assms(1,3)])
  note cnt = page_layout_count [OF t(5)]
  have i: "i < length rs" using assms(2,3) t(6,8) cnt by (simp add: iter_ready_def word_le_nat_alt)
  have "held (ti_page_id it) (tp_frame tp) b" using t(3,13) by (auto simp: held_def pinned_def pool_ok_def)
  moreover have "unat (rid_row (TI_GetRID it)) = Suc i" using t(6) i cnt by (simp add: TI_GetRID_def)
  moreover have "r = rs ! i" "rest = drop (Suc i) rs @ concat rss" using t(12) i by (simp_all add: Cons_nth_drop_Suc [symmetric])
  ultimately show ?thesis using that t(1-6,8-11,13) i by blast
qed

lemma iter_place:
  assumes it: "iter_at n ps b it (r # rest)" "iter_ready it" and ch: "chain b ps rss" and cut: "concat rss = dn @ r # rest"
  shows "drop (length dn) (places ps rss) = TI_GetRID it # drop (Suc (length dn)) (places ps rss)"
proof -
  have ne: "\<not> ti_end it" using it(1) by (auto simp: iter_at_def)
  obtain pre qs tp rs C i where t: "ps = pre @ ti_page_id it # qs" "ti_tp it = Some tp" "pinned n (ti_page_id it) (tp_frame tp) b" "backed b (ti_page_id it)"
    "page_layout tp rs (fdata (tp_frame tp) b)" "unat (ti_row it) = Suc i" "i < length rs" "ti_num_rows it = tp_num_rows tp"
    "tp_table tp = ti_table it" "tp_next tp = first_id qs" "chain b qs C" "r = rs ! i" "rest = drop (Suc i) rs @ concat C" "pool_ok b"
    "held (ti_page_id it) (tp_frame tp) b" "unat (rid_row (TI_GetRID it)) = Suc i" by (rule row_position [OF it ne])
  have pc: "page_content b (ti_page_id it) = Some (fdata (tp_frame tp) b)" using t(3) by (simp add: fdata_content pinned_def)
  obtain A rs' C' x tq where c: "rss = A @ rs' # C'" "length A = length pre" "chain b qs C'" "page_content b (ti_page_id it) = Some x" "page_layout tq rs' x"
    by (rule chain_split [OF ch [unfolded t(1)]]) blast
  have same: "rs' = rs" "C' = C" using layout_unique(1) [OF t(5)] c(4,5) pc chain_unique [OF t(11) c(3)] by simp_all
  have "concat A @ take i rs @ r # rest = dn @ r # rest" using cut c(1) same t(7,12,13) by (simp add: id_take_nth_drop [symmetric])
  then have dn: "dn = concat A @ take i rs" by (metis append.assoc append_same_eq)
  have "word_of_nat (unat (rid_row (TI_GetRID it))) = rid_row (TI_GetRID it)" by simp
  then have "TI_GetRID it = \<lparr>rid_page = ti_page_id it, rid_row = word_of_nat (Suc i)\<rparr>" unfolding t(16) by (simp add: TI_GetRID_def)
  then show ?thesis using places_at [of pre A i rs "ti_page_id it" qs C] dn c(1,2) same t(1,7) by simp
qed

lemma target_row_run:
  assumes "iter_at n ps (db_bm d) it (r # rest)" "iter_ready it" "\<not> ti_end it"
    and "testable D ctx d (ti_schema it) flt r" "no_conflicts ctx d"
  obtains tp where "ti_tp it = Some tp" "target_row D ctx flt it tp d = (Inr (picked_row D ctx d (ti_schema it) flt r), d)"
    "TP_ReadRecordRollPtr (TI_GetRID it) tp (db_store d) = (Inr (rh_roll_ptr (read_header r)), db_store d)"
    "located (db_bm d) (TI_GetRID it) r" "length r \<le> 4096"
proof -
  obtain pre qs tp rs rss i where t: "ps = pre @ ti_page_id it # qs" "ti_tp it = Some tp" "pinned n (ti_page_id it) (tp_frame tp) (db_bm d)" "backed (db_bm d) (ti_page_id it)"
    "page_layout tp rs (fdata (tp_frame tp) (db_bm d))" "unat (ti_row it) = Suc i" "i < length rs" "ti_num_rows it = tp_num_rows tp"
    "tp_table tp = ti_table it" "tp_next tp = first_id qs" "chain (db_bm d) qs rss" "r = rs ! i" "rest = drop (Suc i) rs @ concat rss" "pool_ok (db_bm d)"
    "held (ti_page_id it) (tp_frame tp) (db_bm d)" "unat (rid_row (TI_GetRID it)) = Suc i" by (rule row_position [OF assms(1-3)])
  have l: "22 \<le> length (rs ! i)" using assms(4) t(12) by (simp add: testable_def)
  note rd = header_reads [OF t(15) _ t(7,16) l, unfolded t(12) [symmetric]]
  have de: "TI_deref it (db_store d) = (Inr (scan_tuple (ti_schema it) r), db_store d)"
    by (rule deref_run [OF assms(1-3)]) (simp add: scan_tuple_def)
  have "located (db_bm d) (TI_GetRID it) r"
    using t(3,5,7,12,16) fdata_content [of "db_bm d" "ti_page_id it" "tp_frame tp"] by (auto simp: located_def TI_GetRID_def pinned_def)
  moreover have "length r \<le> 4096" using record_reads(1) [OF t(15) _ t(7,16) l] t(5,12) by simp
  moreover have "target_row D ctx flt it tp d = (Inr (picked_row D ctx d (ti_schema it) flt r), d)"
    using rd t(5) de assms(4,5)
    by (auto simp: target_row_def Let_def in_store_def comp_simps picked_row_def picked_def open_to_def testable_def no_conflicts_def)
  ultimately show ?thesis using that [of tp] t(2,5) rd(3) by simp
qed

section \<open>The first phase of UPDATE\<close>

text \<open>What is collected for a row: its place, its old header, its bytes and the values the SET clauses give it.\<close>

definition hit_for :: "Schema \<Rightarrow> (entry_id \<times> Value) list \<Rightarrow> BufferManager \<Rightarrow> bytes \<Rightarrow> Hit \<Rightarrow> bool" where
  "hit_for sch sets b r h \<longleftrightarrow> located b (hit_rid h) r \<and> hit_old_bytes h = r \<and> hit_old_trx h = rh_trx_id (read_header r) \<and>
     hit_old_roll_ptr h = rh_roll_ptr (read_header r) \<and> hit_old_flags h = rh_flags (read_header r) \<and>
     (\<exists>vs. Row_Deserialize sch r = Inr (read_header r, vs) \<and> hit_new_values h = foldl apply_set vs sets)"

lemma hit_for_keeps: "hit_for sch sets b r h \<Longrightarrow> keeps_pages b c \<Longrightarrow> hit_for sch sets c r h"
  by (auto simp: hit_for_def intro: located_keeps)

lemma hits_for_keeps:
  "list_all2 (\<lambda>x h. hit_for sch sets b (snd x) h \<and> hit_rid h = fst x) xs hs \<Longrightarrow> keeps_pages b c \<Longrightarrow>
   list_all2 (\<lambda>x h. hit_for sch sets c (snd x) h \<and> hit_rid h = fst x) xs hs"
  by (erule list_all2_mono) (auto intro: hit_for_keeps)

definition readable :: "Schema \<Rightarrow> bytes \<Rightarrow> bool" where
  "readable sch r \<longleftrightarrow> (\<exists>h vs. Row_Deserialize sch r = Inr (h, vs))"

lemma make_hit_run:
  assumes "TP_ReadRecordRollPtr rid tp (db_store d) = (Inr (rh_roll_ptr (read_header r)), db_store d)" "located (db_bm d) rid r" "length r \<le> 4096"
    and "readable (xu_schema xu) r"
  obtains h where "make_hit xu rid (rh_flags (read_header r)) (rh_trx_id (read_header r)) (scan_tuple sch r) tp d = (Inr h, d)"
    "hit_for (xu_schema xu) (xu_sets xu) (db_bm d) r h" "hit_rid h = rid"
proof -
  obtain vs where vs: "Row_Deserialize (xu_schema xu) r = Inr (read_header r, vs)"
    using assms(4) by (auto simp: readable_def Row_Deserialize_def split: if_splits sum.splits)
  have sz: "unat (word_of_nat (length r) :: u16) = length r" using assms(3) by (simp add: unat_u16_small)
  show ?thesis
    by (rule that [of "\<lparr>hit_rid = rid, hit_old_trx = rh_trx_id (read_header r), hit_old_roll_ptr = rh_roll_ptr (read_header r),
        hit_old_flags = rh_flags (read_header r), hit_old_bytes = r, hit_new_values = foldl apply_set vs (xu_sets xu)\<rparr>"])
      (use assms(1,2) vs sz in \<open>simp_all add: make_hit_def scan_tuple_def Tuple_new_def in_store_def comp_simps hit_for_def peek_0_all\<close>)
qed

lemma with_bm_tests [simp]:
  "WX_IsVisible ctx x (with_bm c d) = WX_IsVisible ctx x d" "picked D ctx (with_bm c d) sch flt = picked D ctx d sch flt"
  "testable D ctx (with_bm c d) sch flt = testable D ctx d sch flt" "no_conflicts ctx (with_bm c d) = no_conflicts ctx d"
proof -
  show v: "WX_IsVisible ctx x (with_bm c d) = WX_IsVisible ctx x d" for x by (simp add: WX_IsVisible_def ctx_transaction_def cong: option.case_cong)
  then show "picked D ctx (with_bm c d) sch flt = picked D ctx d sch flt" "testable D ctx (with_bm c d) sch flt = testable D ctx d sch flt"
    by (simp_all add: picked_def testable_def open_to_def fun_eq_iff)
  show "no_conflicts ctx (with_bm c d) = no_conflicts ctx d" using v by (auto simp: no_conflicts_def conflict_check_def comp_simps)
qed

text \<open>A hit with its place.\<close>

abbreviation (input) hit_at :: "Schema \<Rightarrow> (entry_id \<times> Value) list \<Rightarrow> BufferManager \<Rightarrow> RID \<times> bytes \<Rightarrow> Hit \<Rightarrow> bool" where
  "hit_at sch sets b x h \<equiv> hit_for sch sets b (snd x) h \<and> hit_rid h = fst x"

definition collecting :: "DoubleOps \<Rightarrow> nat \<Rightarrow> nat \<Rightarrow> page_id_t list \<Rightarrow> ExecutorContext \<Rightarrow> ExecutorUpdate \<Rightarrow> DB \<Rightarrow> bytes list list \<Rightarrow> bytes list \<Rightarrow> bytes list \<Rightarrow> bool" where
  "collecting D fuel n ps ctx xu d rss dn rows \<longleftrightarrow>
     (\<exists>it. xu_iterator xu = Some it \<and> iter_at n ps (db_bm d) it rows \<and> iter_ready it \<and> ti_schema it = xu_schema xu) \<and>
     chain (db_bm d) ps rss \<and> concat rss = dn @ rows \<and> 1 \<le> n \<and> length ps < fuel \<and> no_conflicts ctx d \<and>
     (\<forall>r \<in> set rows. testable D ctx d (xu_schema xu) (xu_filter xu) r \<and> (picked D ctx d (xu_schema xu) (xu_filter xu) r \<longrightarrow> readable (xu_schema xu) r))"

text \<open>One turn of the loop.\<close>

lemma collect_step:
  assumes "collecting D fuel n ps ctx xu d rss dn (r # rows)"
  obtains it' c rid hs where "collect_hits D fuel (Suc m) ctx xu hits d = collect_hits D fuel m ctx (xu\<lparr>xu_iterator := Some it'\<rparr>) (hits @ hs) (with_bm c d)"
    "keeps_pages (db_bm d) c" "collecting D fuel n ps ctx (xu\<lparr>xu_iterator := Some it'\<rparr>) (with_bm c d) rss (dn @ [r]) rows"
    "drop (length dn) (places ps rss) = rid # drop (Suc (length dn)) (places ps rss)"
    "list_all2 (hit_at (xu_schema xu) (xu_sets xu) c) (filter (\<lambda>x. picked D ctx d (xu_schema xu) (xu_filter xu) (snd x)) [(rid, r)]) hs" "stays (set ps) (db_bm d) c"
proof -
  let ?P = "picked D ctx d (xu_schema xu) (xu_filter xu)"
  obtain it where it: "xu_iterator xu = Some it" "iter_at n ps (db_bm d) it (r # rows)" "iter_ready it" "ti_schema it = xu_schema xu" "1 \<le> n" "length ps < fuel"
    "no_conflicts ctx d" "testable D ctx d (ti_schema it) (xu_filter xu) r" "?P r \<longrightarrow> readable (xu_schema xu) r" using assms by (auto simp: collecting_def)
  have ch: "chain (db_bm d) ps rss" "concat rss = dn @ r # rows" using assms by (simp_all add: collecting_def)
  have ne: "\<not> ti_end it" using it(2) by (auto simp: iter_at_def)
  obtain tp where tp: "ti_tp it = Some tp" "target_row D ctx (xu_filter xu) it tp d = (Inr (picked_row D ctx d (ti_schema it) (xu_filter xu) r), d)"
    "TP_ReadRecordRollPtr (TI_GetRID it) tp (db_store d) = (Inr (rh_roll_ptr (read_header r)), db_store d)"
    "located (db_bm d) (TI_GetRID it) r" "length r \<le> 4096" by (rule target_row_run [OF it(2,3) ne it(8,7)])
  obtain hs where hs: "(case picked_row D ctx d (ti_schema it) (xu_filter xu) r of None \<Rightarrow> ret hits
      | Some (flags, trx, old) \<Rightarrow> bnd (make_hit xu (TI_GetRID it) flags trx old tp) (\<lambda>h. ret (hits @ [h]))) d = (Inr (hits @ hs), d)"
    "list_all2 (hit_at (xu_schema xu) (xu_sets xu) (db_bm d)) (filter (\<lambda>x. ?P (snd x)) [(TI_GetRID it, r)]) hs"
  proof (cases "?P r")
    case True
    then obtain h where "make_hit xu (TI_GetRID it) (rh_flags (read_header r)) (rh_trx_id (read_header r)) (scan_tuple (ti_schema it) r) tp d = (Inr h, d)"
      "hit_for (xu_schema xu) (xu_sets xu) (db_bm d) r h" "hit_rid h = TI_GetRID it" using make_hit_run [OF tp(3-5)] it(9) by metis
    then show ?thesis using that [of "[h]"] True it(4) by (simp add: picked_row_def comp_simps)
  next
    case False
    then show ?thesis using that [of "[]"] it(4) by (simp add: picked_row_def comp_simps)
  qed
  obtain it' c where c: "TI_next fuel it (db_store d) = (Inr it', (db_store d)\<lparr>st_bm := c\<rparr>)" "keeps_pages (db_bm d) c" "iter_at n ps c it' rows" "iter_ready it'"
    "ti_schema it' = ti_schema it" "ti_table it' = ti_table it" "stays (set ps) (db_bm d) c" by (rule next_run [OF it(2,3) ne it(5,6)])
  have "collecting D fuel n ps ctx (xu\<lparr>xu_iterator := Some it'\<rparr>) (with_bm c d) rss (dn @ [r]) rows"
    using assms c(3-5) it(4) chain_keeps [OF ch(1) c(2)] by (simp add: collecting_def)
  moreover have "collect_hits D fuel (Suc m) ctx xu hits d = collect_hits D fuel m ctx (xu\<lparr>xu_iterator := Some it'\<rparr>) (hits @ hs) (with_bm c d)"
    using it(1) ne tp(1,2) hs(1) c(1) by (simp add: in_store_def comp_simps)
  ultimately show ?thesis using that c(2,7) iter_place [OF it(2,3) ch] hits_for_keeps [OF hs(2) c(2)] by blast
qed

lemma collect_run:
  assumes "collecting D fuel n ps ctx xu d rss dn rows" "length rows < m"
  shows "\<exists>xu' hs c. collect_hits D fuel m ctx xu hits d = (Inr (xu', hits @ hs), with_bm c d) \<and> keeps_pages (db_bm d) c \<and> length (bm_free c) = n \<and> stays (set ps) (db_bm d) c \<and>
    (\<exists>it. xu' = xu\<lparr>xu_iterator := Some it\<rparr>) \<and> list_all2 (hit_at (xu_schema xu) (xu_sets xu) c)
      (filter (\<lambda>x. picked D ctx d (xu_schema xu) (xu_filter xu) (snd x)) (zip (drop (length dn) (places ps rss)) rows)) hs"
  using assms
proof (induction rows arbitrary: m xu d hits dn)
  case Nil
  then obtain it k where it: "xu_iterator xu = Some it" "iter_at n ps (db_bm d) it []" "iter_ready it" "m = Suc k" by (cases m) (auto simp: collecting_def)
  have ok: "pool_ok (db_bm d)" using it(2) by (simp add: iter_at_def)
  have same: "\<exists>it. xu = xu\<lparr>xu_iterator := Some it\<rparr>" using it(1) by (cases xu) auto
  have "collect_hits D fuel m ctx xu hits d = (Inr (xu, hits @ []), with_bm (db_bm d) d)" using it(1,4) iter_done [OF it(2,3)] by (simp add: comp_simps)
  then show ?case using same iter_done [OF it(2,3)] keeps_pages_refl [OF ok] stays_refl
    by (intro exI [of _ xu] exI [of _ "[] :: Hit list"] exI [of _ "db_bm d"]) simp
next
  case (Cons r rows)
  then obtain k where k: "m = Suc k" "length rows < k" by (cases m) auto
  let ?P = "\<lambda>x. picked D ctx d (xu_schema xu) (xu_filter xu) (snd x)"
  obtain it' c rid hs where s: "collect_hits D fuel (Suc k) ctx xu hits d = collect_hits D fuel k ctx (xu\<lparr>xu_iterator := Some it'\<rparr>) (hits @ hs) (with_bm c d)"
    "keeps_pages (db_bm d) c" "collecting D fuel n ps ctx (xu\<lparr>xu_iterator := Some it'\<rparr>) (with_bm c d) rss (dn @ [r]) rows"
    "drop (length dn) (places ps rss) = rid # drop (Suc (length dn)) (places ps rss)"
    "list_all2 (hit_at (xu_schema xu) (xu_sets xu) c) (filter ?P [(rid, r)]) hs" "stays (set ps) (db_bm d) c" by (rule collect_step [OF Cons.prems(1)])
  obtain xu' hs' e it'' where e: "collect_hits D fuel k ctx (xu\<lparr>xu_iterator := Some it'\<rparr>) (hits @ hs) (with_bm c d) = (Inr (xu', (hits @ hs) @ hs'), with_bm e d)"
    "keeps_pages c e" "length (bm_free e) = n" "xu' = xu\<lparr>xu_iterator := Some it''\<rparr>"
    "list_all2 (hit_at (xu_schema xu) (xu_sets xu) e) (filter ?P (zip (drop (Suc (length dn)) (places ps rss)) rows)) hs'" "stays (set ps) c e"
    using Cons.IH [OF s(3) k(2), of "hits @ hs"] by auto
  have "list_all2 (hit_at (xu_schema xu) (xu_sets xu) e) (filter ?P (zip (drop (length dn) (places ps rss)) (r # rows))) (hs @ hs')"
    using list_all2_appendI [OF hits_for_keeps [OF s(5) e(2)] e(5)] unfolding s(4) by (simp split: if_splits)
  then show ?case using k(1) s(1) e(1,3,4) keeps_pages_trans [OF s(2) e(2)] stays_trans [OF s(6) e(6), of "set ps"] by (intro exI [of _ xu'] exI [of _ "hs @ hs'"] exI [of _ e]) auto
qed

lemma update_open_run:
  assumes first: "MP_GetFirstPageId_by_name t (db_store d) = (Inr (first_id ps), db_store d)" and ch: "chain (db_bm d) ps rss" and ok: "pool_ok (db_bm d)"
    and free: "1 \<le> length (bm_free (db_bm d))"
    and cat: "Cat_GetTableName (db_catalog d) (xu_table xu) = Inr t" "Cat_table (db_catalog d) (xu_table xu) = Inr te" "xu_schema xu = []" and nc: "no_conflicts ctx d"
    and test: "\<forall>r \<in> set (concat rss). testable D ctx d (TE_GetSchema te) (xu_filter xu) r \<and> (picked D ctx d (TE_GetSchema te) (xu_filter xu) r \<longrightarrow> readable (TE_GetSchema te) r)"
    and fuel: "length ps < fuel" "length (concat rss) < fuel"
  obtains xu1 c xu2 hs e it where "XU_Open fuel xu d = (Inr xu1, with_bm c d)" "collect_hits D fuel fuel ctx xu1 [] (with_bm c d) = (Inr (xu2, hs), with_bm e d)"
    "keeps_pages (db_bm d) e" "stays (set ps) (db_bm d) e" "length (bm_free e) = length (bm_free (db_bm d))"
    "xu1 = xu\<lparr>xu_table_name := t, xu_schema := TE_GetSchema te, xu_iterator := Some it\<rparr>" "xu2 = xu\<lparr>xu_table_name := t, xu_schema := TE_GetSchema te, xu_iterator := xu_iterator xu2\<rparr>"
    "list_all2 (hit_at (TE_GetSchema te) (xu_sets xu) e) (filter (\<lambda>x. picked D ctx d (TE_GetSchema te) (xu_filter xu) (snd x)) (zip (places ps rss) (concat rss))) hs"
proof -
  obtain it c where c: "TableIterator_new fuel t (xu_table xu) (TE_GetSchema te) (db_store d) = (Inr it, (db_store d)\<lparr>st_bm := c\<rparr>)" "keeps_pages (db_bm d) c"
    "iter_at (length (bm_free (db_bm d))) ps c it (concat rss)" "iter_ready it" "ti_schema it = TE_GetSchema te" "ti_table it = xu_table xu" "stays (set ps) (db_bm d) c"
    by (rule new_run_pages [OF first ch ok free fuel(1)])
  let ?xu = "xu\<lparr>xu_table_name := t, xu_schema := TE_GetSchema te, xu_iterator := Some it\<rparr>"
  have op: "XU_Open fuel xu d = (Inr ?xu, with_bm c d)" using cat c(1) by (simp add: XU_Open_def in_store_def comp_simps Let_def)
  have "collecting D fuel (length (bm_free (db_bm d))) ps ctx ?xu (with_bm c d) rss [] (concat rss)"
    using c(3-5) free nc test fuel(1) chain_keeps [OF ch c(2)] by (simp add: collecting_def)
  from collect_run [OF this fuel(2), of "[]"] obtain xu' hs e it' where e: "collect_hits D fuel fuel ctx ?xu [] (with_bm c d) = (Inr (xu', hs), with_bm e d)" "keeps_pages c e"
    "length (bm_free e) = length (bm_free (db_bm d))" "xu' = ?xu\<lparr>xu_iterator := Some it'\<rparr>" "stays (set ps) c e"
    "list_all2 (hit_at (TE_GetSchema te) (xu_sets xu) e) (filter (\<lambda>x. picked D ctx d (TE_GetSchema te) (xu_filter xu) (snd x)) (zip (places ps rss) (concat rss))) hs" by auto
  show ?thesis using that [OF op e(1) keeps_pages_trans [OF c(2) e(2)] stays_trans [OF c(7) e(5)] e(3) refl _ e(6)] e(4) by simp
qed

text \<open>C11.
  The first phase of UPDATE ends and finds exactly the rows to be changed: for a transaction working on a snapshot, opening the executor and collecting returns, for every
  sufficient amount of fuel, the rows of the table that are not marked deleted, whose writer the snapshot sees and that satisfy the condition, in heap order, each with its place, its old
  header and its values after the SET clauses.  No conflict is raised, the contents of all pages are unchanged and all frames are free again.
\<close>

theorem update_collects_matching_rows:
  assumes "pool_ok (db_bm d)" "1 \<le> length (bm_free (db_bm d))" "mp_name_tables (st_meta (db_store d)) t = Some (first_id ps)" "chain (db_bm d) ps rss"
    and "Cat_GetTableName (db_catalog d) (xu_table xu) = Inr t" "Cat_table (db_catalog d) (xu_table xu) = Inr te" "xu_schema xu = []"
    and "tm_run m TransactionManager_new s" "tm_run n s (db_txn d)" "m + n + 1 < 2 ^ 64"
    and "ctx_txn ctx = Some i" "i \<in> set (tm_active (db_txn d))" "tx_read_view (txn_of (db_txn d) i) = Some (CreateReadView i s)"
    and "\<And>r. r \<in> set (concat rss) \<Longrightarrow> testable D ctx d (TE_GetSchema te) (xu_filter xu) r"
    and "\<And>r. r \<in> set (concat rss) \<Longrightarrow> picked D ctx d (TE_GetSchema te) (xu_filter xu) r \<Longrightarrow> readable (TE_GetSchema te) r"
    and "length rss < fuel" "length (concat rss) < fuel"
  shows "\<exists>xu1 d1 xu2 hs d2. XU_Open fuel xu d = (Inr xu1, d1) \<and> collect_hits D fuel fuel ctx xu1 [] d1 = (Inr (xu2, hs), d2) \<and>
    list_all2 (\<lambda>x h. hit_for (TE_GetSchema te) (xu_sets xu) (db_bm d2) (snd x) h \<and> hit_rid h = fst x)
      (filter (\<lambda>x. picked D ctx d (TE_GetSchema te) (xu_filter xu) (snd x)) (zip (places ps rss) (concat rss))) hs \<and>
    (\<forall>q b. page_content (db_bm d) q = Some b \<longrightarrow> page_content (db_bm d2) q = Some b) \<and>
    length (bm_free (db_bm d2)) = length (bm_free (db_bm d)) \<and> db_txn d2 = db_txn d"
proof -
  have first: "MP_GetFirstPageId_by_name t (db_store d) = (Inr (first_id ps), db_store d)" using assms(3) by (simp add: MP_GetFirstPageId_by_name_def comp_simps)
  have nc: "no_conflicts ctx d" using visible_writer_passes(3) [OF assms(8-13)] by (simp add: no_conflicts_def)
  have test: "\<forall>r \<in> set (concat rss). testable D ctx d (TE_GetSchema te) (xu_filter xu) r \<and> (picked D ctx d (TE_GetSchema te) (xu_filter xu) r \<longrightarrow> readable (TE_GetSchema te) r)"
    using assms(14,15) by blast
  have fuel: "length ps < fuel" using assms(4,16) chain_length by fastforce
  obtain xu1 c xu2 hs e it where "XU_Open fuel xu d = (Inr xu1, with_bm c d)" "collect_hits D fuel fuel ctx xu1 [] (with_bm c d) = (Inr (xu2, hs), with_bm e d)"
    "keeps_pages (db_bm d) e" "stays (set ps) (db_bm d) e" "length (bm_free e) = length (bm_free (db_bm d))"
    "xu1 = xu\<lparr>xu_table_name := t, xu_schema := TE_GetSchema te, xu_iterator := Some it\<rparr>" "xu2 = xu\<lparr>xu_table_name := t, xu_schema := TE_GetSchema te, xu_iterator := xu_iterator xu2\<rparr>"
    "list_all2 (hit_at (TE_GetSchema te) (xu_sets xu) e) (filter (\<lambda>x. picked D ctx d (TE_GetSchema te) (xu_filter xu) (snd x)) (zip (places ps rss) (concat rss))) hs"
    by (rule update_open_run [OF first assms(4,1,2,5-7) nc test fuel assms(17)])
  then show ?thesis
    by (intro exI [of _ xu1] exI [of _ "with_bm c d"] exI [of _ xu2] exI [of _ hs] exI [of _ "with_bm e d"]) (simp add: keeps_pages_def)
qed

text \<open>A transaction that updates the only row of the table.\<close>

definition demo_update :: ExecutorUpdate where
  "demo_update = \<lparr>xu_table = 7, xu_sets = [(0, Value_of (VInt 8))], xu_filter = None, xu_iterator = None, xu_schema = [], xu_table_name = [], xu_count = 0, xu_done = False\<rparr>"

definition writer_db :: DB where
  "writer_db = (scan_db [demo_record] [])\<lparr>db_txn := demo_writers\<rparr>"

lemma writer_db_facts:
  "table_rows writer_db ''users'' demo_entry [[demo_record]]" "Cat_GetTableName (db_catalog writer_db) 7 = Inr ''users''"
  "Cat_table (db_catalog writer_db) 7 = Inr demo_entry" "1 \<in> set (tm_active (db_txn writer_db))"
  "tx_read_view (txn_of (db_txn writer_db) 1) = Some (CreateReadView 1 (snd (begin_register TransactionManager_new)))"
proof -
  have "table_rows (scan_db [demo_record] []) ''users'' demo_entry [[demo_record]]" using scan_db_table [of "[demo_record]" "[]"] demo_record_facts(2) by simp
  then show "table_rows writer_db ''users'' demo_entry [[demo_record]]" by (simp add: writer_db_def table_rows_def)
  show "Cat_GetTableName (db_catalog writer_db) 7 = Inr ''users''" "Cat_table (db_catalog writer_db) 7 = Inr demo_entry"
    by (simp_all add: writer_db_def scan_db_def Cat_GetTableName_def Cat_AddTable_def demo_entry_def TE_AddColumn_def TableEntry_new_def Catalog_new_def Cat_table_def)
  show "1 \<in> set (tm_active (db_txn writer_db))"
    "tx_read_view (txn_of (db_txn writer_db) 1) = Some (CreateReadView 1 (snd (begin_register TransactionManager_new)))"
    by (simp_all add: writer_db_def demo_writers_def begin_register_def GetNextTxId_def TransactionManager_new_def take_view_def txn_of_def update_txn_def)
qed

lemma demo_begins: "tm_run 1 TransactionManager_new (snd (begin_register TransactionManager_new))"
  using tm_run_register [OF run_refl, of TransactionManager_new] by (simp add: TransactionManager_new_def)

lemma demo_record_picked:
  assumes "rh_trx_id (read_header r) = 0" "rh_flags (read_header r) = 0" "22 \<le> length r"
  shows "picked D ctx d sch None r" "testable D ctx d sch None r"
  using assms by (auto simp: picked_def testable_def open_to_def row_matches_def WX_IsVisible_def)

lemma update_collects_matching_rows_witness:
  "\<exists>xu1 d1 xu2 h d2. XU_Open 9 demo_update writer_db = (Inr xu1, d1) \<and> collect_hits demo_doubles 9 9 reader xu1 [] d1 = (Inr (xu2, [h]), d2) \<and>
     hit_old_bytes h = demo_record \<and> hit_new_values h = [Value_of (VInt 8), Value_null]"
proof -
  let ?sch = "TE_GetSchema demo_entry"
  note f = writer_db_facts and r = demo_record_facts
  have p: "picked demo_doubles reader writer_db ?sch None demo_record" "testable demo_doubles reader writer_db ?sch None demo_record"
    using r(1,2) by (simp_all add: demo_record_picked)
  have run: "tm_run 1 (snd (begin_register TransactionManager_new)) (db_txn writer_db)" using demo_writers_run by (simp add: writer_db_def)
  have u: "xu_table demo_update = 7" "xu_schema demo_update = []" "xu_filter demo_update = None" by (simp_all add: demo_update_def)
  obtain p where tr: "pool_ok (db_bm writer_db)" "1 \<le> length (bm_free (db_bm writer_db))" "mp_name_tables (st_meta (db_store writer_db)) ''users'' = Some p"
    "heap_chain (db_bm writer_db) p [[demo_record]]" using f(1) by (auto simp: table_rows_def)
  obtain ps where ps: "first_id ps = p" "chain (db_bm writer_db) ps [[demo_record]]" using heap_chain_pages [OF tr(4)] by blast
  have nm: "mp_name_tables (st_meta (db_store writer_db)) ''users'' = Some (first_id ps)" using tr(3) ps(1) by simp
  obtain q where q: "ps = [q]" using chain_length [OF ps(2)] by (cases ps) auto
  obtain xu1 d1 xu2 hs d2 where x: "XU_Open 9 demo_update writer_db = (Inr xu1, d1)" "collect_hits demo_doubles 9 9 reader xu1 [] d1 = (Inr (xu2, hs), d2)"
    "list_all2 (\<lambda>x h. hit_for ?sch (xu_sets demo_update) (db_bm d2) (snd x) h \<and> hit_rid h = fst x)
      (filter (\<lambda>x. picked demo_doubles reader writer_db ?sch None (snd x)) (zip (places ps [[demo_record]]) (concat [[demo_record]]))) hs"
    using update_collects_matching_rows [OF tr(1,2) nm ps(2) _ _ _ demo_begins run _ _ f(4,5), where xu = demo_update and ctx = reader and D = demo_doubles and fuel = 9]
      f(2,3) p r(3) u by (auto simp: readable_def)
  then obtain h where "hs = [h]" "hit_for ?sch [(0, Value_of (VInt 8))] (db_bm d2) demo_record h"
    using p(1) q by (auto simp: demo_update_def list_all2_Cons1)
  then show ?thesis using x(1,2) r(3) by (auto simp: hit_for_def apply_set_def)
qed

end
