(* ===== verification/Delete_Rows.thy ===== *)
theory Delete_Rows
  imports Row_Choice
begin

text \<open>
  What a DELETE does to the table (\<^verbatim>\<open>executor/executor_delete.cpp\<close>).  For every row that is picked the executor appends its current version to the undo log, marks the row deleted under its
  own transaction with a pointer to that version, logs the change, notes it for a rollback and flushes the page; then the iterator moves on, over pages that it has just changed.
  Shown: the whole statement ends, with exactly the picked rows marked, their old versions in the undo log, every other row and every older version untouched, and the frames free again.
\<close>

section \<open>Changing a page of the table\<close>

lemma chain_kept:
  "chain b ps rss \<Longrightarrow> \<forall>q \<in> set ps. \<forall>d. page_content b q = Some d \<longrightarrow> page_content c q = Some d \<Longrightarrow> \<forall>q \<in> set ps. backed b q \<longrightarrow> backed c q \<Longrightarrow> chain c ps rss"
  by (induction b ps rss rule: chain.induct) auto

text \<open>Changing the records of one page of the chain.\<close>

lemma chain_change:
  assumes "chain b (pre @ p # qs) (A @ rs # C)" "length A = length pre" "\<forall>q \<in> set pre \<union> set qs. \<forall>d. page_content b q = Some d \<longrightarrow> page_content c q = Some d"
    and "\<forall>q \<in> set pre \<union> set qs. backed b q \<longrightarrow> backed c q"
    and "page_content c p = Some d'" "page_layout tp' rs' d'" "tp_next tp' = first_id qs" "backed c p"
  shows "chain c (pre @ p # qs) (A @ rs' # C)"
  using assms(1-4)
proof (induction pre arbitrary: A)
  case Nil
  then show ?case using chain_kept [of b qs C c] assms(5-8) by auto
next
  case (Cons a pre)
  then obtain x A' where A: "A = x # A'" "length A' = length pre" by (cases A) auto
  then show ?case using Cons.prems Cons.IH [of A'] A by auto
qed

section \<open>Deleting one row\<close>

text \<open>
  \<open>writable ctx P d logs m k\<close>: there is a transaction, an undo log and a log that holds \<open>logs\<close>, with numbers for \<open>m\<close> more pages and \<open>k\<close> more log records; the page new undo records go to is in
  order and none of the pages \<open>P\<close>.
\<close>

definition writable :: "ExecutorContext \<Rightarrow> page_id_t set \<Rightarrow> DB \<Rightarrow> RecoveredLog list \<Rightarrow> nat \<Rightarrow> nat \<Rightarrow> bool" where
  "writable ctx P d logs m k \<longleftrightarrow> ctx_undo ctx \<and> ctx_log ctx \<and> ctx_txn ctx \<noteq> None \<and> db_log_holds d logs \<and> 49 \<le> lb_capacity (lm_buffer (db_log d)) \<and>
     0 < unat (lm_next_lsn (db_log d)) \<and> unat (lm_next_lsn (db_log d)) + k < 2 ^ 64 \<and> 0 < unat (bm_next_id (db_bm d)) \<and> unat (bm_next_id (db_bm d)) + m \<le> 2 ^ 51 \<and>
     (db_undo_page d \<noteq> 0 \<longrightarrow> db_undo_page d \<notin> P \<and> addressable (db_undo_page d) \<and> backed (db_bm d) (db_undo_page d) \<and>
        (\<exists>x un. page_content (db_bm d) (db_undo_page d) = Some x \<and> undo_layout un x))"

lemma writable_less: "writable ctx P d logs m k \<Longrightarrow> m' \<le> m \<Longrightarrow> k' \<le> k \<Longrightarrow> writable ctx P d logs m' k'"
  by (simp add: writable_def)

lemma meta_rep_pool:
  assumes "meta_rep s its" "bm_inv c" "stays P (st_bm s) c" "0 \<notin> P" "\<And>d. page_content (st_bm s) 0 = Some d \<Longrightarrow> page_content c 0 = Some d"
  shows "meta_rep (s\<lparr>st_bm := c\<rparr>) its"
proof -
  let ?f = "mp_frame (st_meta s)"
  have m: "bm_pages (st_bm s) 0 = Some ?f" using assms(1) by (simp add: meta_rep_def store_ok_def held_def)
  then have c: "bm_pages c 0 = Some ?f" using assms(3,4) by (simp add: stays_def)
  then have "fdata ?f c = fdata ?f (st_bm s)" using assms(5) [OF fdata_content [OF m]] fdata_content [OF c] by simp
  then show ?thesis using assms(1,2) c by (simp add: meta_rep_def store_ok_def held_def mdata_def)
qed

lemma table_ok_evolves:
  assumes "table_ok tp s its rs" "evolves P (st_bm s) c" "0 \<notin> P" "tp_page_id tp \<notin> P"
  shows "table_ok tp (s\<lparr>st_bm := c\<rparr>) its rs"
proof -
  note ok = table_okD [OF assms(1)] and e = evolvesD [OF assms(2)]
  have m: "bm_pages (st_bm s) (tp_page_id tp) = Some (tp_frame tp)" by (rule heldD(2) [OF ok(1)])
  have c: "bm_pages c (tp_page_id tp) = Some (tp_frame tp)" using m e(3) by simp
  have "fdata (tp_frame tp) c = fdata (tp_frame tp) (st_bm s)" using e(6) [OF assms(4) fdata_content [OF m]] fdata_content [OF c] by simp
  moreover have "meta_rep (s\<lparr>st_bm := c\<rparr>) its"
    by (rule meta_rep_pool [OF ok(2) pool_okD(1) [OF e(1)] _ assms(3)]) (use e(3,6) assms(3) in \<open>simp_all add: stays_def\<close>)
  ultimately show ?thesis using ok c pool_okD(1) [OF e(1)] by (simp add: table_ok_def held_def)
qed

lemma version_at_kept:
  assumes "version_at b p r" "evolves P b c" "up_page p \<notin> P"
  shows "version_at c p r"
  using assms evolvesD(6,7) [OF assms(2)] unfolding version_at_def record_at_def by blast

text \<open>Step one: the old version goes to the undo log.\<close>

lemma append_version:
  assumes w: "writable ctx P d logs (Suc m) k" and ok: "pool_ok (db_bm d)" and two: "2 \<le> length (bm_free (db_bm d))"
    and used: "\<And>q. q \<in> P \<Longrightarrow> \<exists>x. page_content (db_bm d) q = Some x" and zero: "0 \<in> P" and r: "r \<noteq> []" "length r \<le> 4052"
  obtains ptr c d' where "append_undo ctx (scan_tuple sch r) trx optr d = (Inr ptr, d')"
    "d' = d\<lparr>db_store := (db_store d)\<lparr>st_bm := c\<rparr>, db_undo_page := up_page ptr\<rparr>"
    "evolves {up_page ptr} (db_bm d) c" "up_page ptr \<notin> P" "version_at c ptr r" "\<forall>q x. version_at (db_bm d) q x \<longrightarrow> version_at c q x"
    "writable ctx P d' logs m k"
proof -
  let ?u = "\<lparr>ul_bm = db_bm d, ul_page = db_undo_page d\<rparr>"
  have inv: "ul_inv ?u" using w ok two by (auto simp: ul_inv_def writable_def)
  have addr: "addressable (bm_next_id (ul_bm ?u))" using w by (simp add: writable_def addressable_def)
  have t: "tuple_holds (scan_tuple sch r) r" using r by (simp add: tuple_holds_def scan_tuple_def Tuple_new_def unat_u16_small)
  obtain p v where v: "ULM_AppendUndoRecord (scan_tuple sch r) trx optr ?u = (Inr p, v)" "undo_appended ?u optr trx r p v"
    using append_undo [OF inv addr t, of trx optr] r(2) by auto
  note a = v(2) [unfolded undo_appended_def ul_inv_def]
  let ?d = "d\<lparr>db_store := (db_store d)\<lparr>st_bm := ul_bm v\<rparr>, db_undo_page := up_page p\<rparr>"
  have run: "Write_Executors.append_undo ctx (scan_tuple sch r) trx optr d = (Inr p, ?d)"
    using w v(1) a by (simp add: append_undo_def writable_def in_undo_def zoom_def)
  have ev: "evolves {up_page p} (db_bm d) (ul_bm v)" using a by simp
  have new: "up_page p \<notin> P"
  proof (cases "up_page p = bm_next_id (db_bm d)")
    case True
    then show ?thesis using used [of "up_page p"] pool_ok_content_below [OF ok] by fastforce
  qed (use a w in \<open>auto simp: writable_def\<close>)
  have va: "version_at (ul_bm v) p r" using a r(1) by (auto simp: version_at_def)
  have old: "version_at (ul_bm v) q x" if "version_at (db_bm d) q x" for q x
    using that a va evolvesD(7) [OF ev, of "up_page q"] unfolding version_at_def by (cases "up_page q = up_page p") auto
  have "writable ctx P ?d logs m k" using w a new by (auto simp: writable_def db_log_holds_def)
  then show ?thesis using that [OF run refl ev new va] old by blast
qed

text \<open>Step two: the row is marked, the change logged and noted, the page flushed.\<close>

definition deleted_row :: "ExecutorContext \<Rightarrow> UndoPointer \<Rightarrow> bytes \<Rightarrow> bytes" where
  "deleted_row ctx ptr r = with_header \<lparr>rh_trx_id = cur_txn ctx, rh_roll_ptr = ptr, rh_flags = rh_flags (read_header r) OR RECORD_DEL\<rparr> r"

lemma log_delete_run:
  assumes row: "table_row tp (db_store d) its rs rid i" and fl: "rh_flags (read_header (rs ! i)) AND RECORD_DEL = 0" and w: "writable ctx P d logs m (Suc k)"
  obtains d' where "log_delete ctx (tp_table tp) rid ptr tp d = (Inr (tp\<lparr>tp_lsn := lm_next_lsn (db_log d)\<rparr>), d')"
    "table_ok (tp\<lparr>tp_lsn := lm_next_lsn (db_log d)\<rparr>) (db_store d') (add_rows (tp_table tp) (- 1) its) (rs[i := deleted_row ctx ptr (rs ! i)])"
    "pg_dirty (frame_of (tp_frame tp) (db_bm d'))" "keeps {META_PAGE_ID, tp_page_id tp} (db_store d) (db_store d')"
    "db_log_holds d' (logs @ [data_record (lm_next_lsn (db_log d)) ctx LR_DELETE_ROW (tp_table tp) rid []])"
    "lm_next_lsn (db_log d') = lm_next_lsn (db_log d) + 1" "lb_capacity (lm_buffer (db_log d')) = lb_capacity (lm_buffer (db_log d))"
    "db_txn d' = db_txn d" "db_undo_page d' = db_undo_page d" "db_catalog d' = db_catalog d"
proof -
  let ?l = "lm_next_lsn (db_log d)" and ?its = "add_rows (tp_table tp) (- 1) its" and ?rs = "rs[i := deleted_row ctx ptr (rs ! i)]"
  have c: "ctx_log ctx" "db_log_holds d logs" "49 + length ([] :: bytes) \<le> lb_capacity (lm_buffer (db_log d))" "?l \<noteq> 0" using w by (auto simp: writable_def)
  obtain u where u: "TP_MarkDelete rid (cur_txn ctx) ptr tp (db_store d) = (Inr (), u)" "table_ok tp u ?its ?rs"
    "pg_dirty (frame_of (tp_frame tp) (st_bm u))" "keeps {META_PAGE_ID, tp_page_id tp} (db_store d) u"
    using MarkDelete_run [OF row fl, of "cur_txn ctx" ptr] unfolding deleted_row_def by blast
  let ?d = "d\<lparr>db_store := u\<rparr>"
  obtain l where l: "LogDataChange ctx LR_DELETE_ROW (tp_table tp) rid [] ?d = (Inr (lm_next_lsn (db_log ?d)), ?d\<lparr>db_log := l\<rparr>)"
    "db_log_holds (?d\<lparr>db_log := l\<rparr>) (logs @ [data_record (lm_next_lsn (db_log ?d)) ctx LR_DELETE_ROW (tp_table tp) rid []])"
    "lm_next_lsn l = lm_next_lsn (db_log ?d) + 1" "lb_capacity (lm_buffer l) = lb_capacity (lm_buffer (db_log ?d))"
    by (rule LogDataChange_run [OF c(1), of ?d logs "[]"]) (use c(2,3) in \<open>simp_all add: db_log_holds_def\<close>)
  obtain x where x: "TP_SetLsn ?l tp u = (Inr (tp\<lparr>tp_lsn := ?l\<rparr>), x)" "table_ok (tp\<lparr>tp_lsn := ?l\<rparr>) x ?its ?rs"
    "pg_dirty (frame_of (tp_frame tp) (st_bm x))" "keeps {tp_page_id tp} u x" by (rule SetLsn_run [OF u(2)])
  have "log_delete ctx (tp_table tp) rid ptr tp d = (Inr (tp\<lparr>tp_lsn := ?l\<rparr>), d\<lparr>db_store := x, db_log := l\<rparr>)"
    using u(1) l(1) x(1) c(4) by (simp add: log_delete_def set_lsn_def in_store_def comp_simps)
  moreover have "keeps {META_PAGE_ID, tp_page_id tp} (db_store d) x" by (rule keeps_trans [OF u(4) x(4)]) simp_all
  ultimately show ?thesis using that [of "d\<lparr>db_store := x, db_log := l\<rparr>"] x(2,3) l(2-4) by (simp add: db_log_holds_def)
qed

lemma mark_row:
  assumes row: "table_row tp (db_store d) its rs rid i" and fl: "rh_flags (read_header (rs ! i)) AND RECORD_DEL = 0" and w: "writable ctx P d logs m (Suc k)"
    and ok: "pool_ok (db_bm d)" and P: "0 \<in> P" "tp_page_id tp \<in> P" and j: "ctx_txn ctx = Some j"
  obtains tp' d' where "bnd (log_delete ctx (tp_table tp) rid ptr tp) (\<lambda>tp'. thn (record_write ctx wrec) (thn (flush_page (tp_frame tp')) (ret tp'))) d = (Inr tp', d')"
    "table_ok tp' (db_store d') (add_rows (tp_table tp) (- 1) its) (rs[i := deleted_row ctx ptr (rs ! i)])"
    "tp' = tp\<lparr>tp_lsn := lm_next_lsn (db_log d)\<rparr>" "evolves {0, tp_page_id tp} (db_bm d) (db_bm d')" "backed (db_bm d') (tp_page_id tp)"
    "db_txn d' = push_write j wrec (db_txn d)" "db_catalog d' = db_catalog d"
    "writable ctx P d' (logs @ [data_record (lm_next_lsn (db_log d)) ctx LR_DELETE_ROW (tp_table tp) rid []]) m k"
proof -
  let ?l = "lm_next_lsn (db_log d)" and ?its = "add_rows (tp_table tp) (- 1) its" and ?rs = "rs[i := deleted_row ctx ptr (rs ! i)]"
  let ?tp = "tp\<lparr>tp_lsn := ?l\<rparr>" and ?logs = "logs @ [data_record ?l ctx LR_DELETE_ROW (tp_table tp) rid []]"
  obtain e where e: "log_delete ctx (tp_table tp) rid ptr tp d = (Inr ?tp, e)" "table_ok ?tp (db_store e) ?its ?rs" "pg_dirty (frame_of (tp_frame tp) (db_bm e))"
    "keeps {META_PAGE_ID, tp_page_id tp} (db_store d) (db_store e)" "db_log_holds e ?logs" "lm_next_lsn (db_log e) = ?l + 1"
    "lb_capacity (lm_buffer (db_log e)) = lb_capacity (lm_buffer (db_log d))" "db_txn e = db_txn d" "db_undo_page e = db_undo_page d" "db_catalog e = db_catalog d"
    by (rule log_delete_run [OF row fl w])
  let ?e = "e\<lparr>db_txn := push_write j wrec (db_txn d)\<rparr>"
  obtain c where c: "flush_page (tp_frame ?tp) ?e = (Inr (), with_bm c ?e)" "table_ok ?tp (db_store (with_bm c ?e)) ?its ?rs"
    "keeps {tp_page_id ?tp} (db_store ?e) (db_store (with_bm c ?e))" "backed c (tp_page_id ?tp)"
    by (rule flush_page_run [of ?tp ?e ?its ?rs]) (use e(2,3) in simp_all)
  have k: "keeps {0, tp_page_id tp} (db_store d) ((db_store e)\<lparr>st_bm := c\<rparr>)" using keeps_trans [OF e(4)] c(3) by simp
  then have ev: "evolves {0, tp_page_id tp} (db_bm d) c" and nx: "bm_next_id c = bm_next_id (db_bm d)" using ok by (simp_all add: keeps_def)
  have nowrap: "unat (?l + 1) = Suc (unat ?l)" using w by (simp add: writable_def unat_plus_simple [THEN iffD1] no_olen_add_nat)
  have apart: "q \<notin> {0, tp_page_id tp}" if "q \<notin> P" for q using that P by auto
  have "writable ctx P (with_bm c ?e) ?logs m k"
    using w e(5-7,9) nowrap nx evolvesD(6,7) [OF ev] apart by (auto simp: writable_def db_log_holds_def)
  moreover have "bnd (log_delete ctx (tp_table tp) rid ptr tp) (\<lambda>tp'. thn (record_write ctx wrec) (thn (flush_page (tp_frame tp')) (ret tp'))) d = (Inr ?tp, with_bm c ?e)"
    using e(1,8) c(1) record_write_run [OF j, of wrec e] by (simp add: comp_simps)
  ultimately show ?thesis using that [of ?tp "with_bm c ?e"] c(2,4) ev e(10) by simp
qed

text \<open>Both steps: what one deletion leaves behind.\<close>

definition undo_entry :: "entry_id \<Rightarrow> RID \<Rightarrow> bytes \<Rightarrow> WriteRecord" where
  "undo_entry table rid r = \<lparr>wr_rid = rid, wr_type = W_DELETE, wr_table_id = table, wr_prev_trx_id = rh_trx_id (read_header r),
     wr_prev_roll_ptr = rh_roll_ptr (read_header r), wr_prev_flags = rh_flags (read_header r)\<rparr>"

definition row_gone :: "page_id_t set \<Rightarrow> page_id_t \<Rightarrow> bytes \<Rightarrow> UndoPointer \<Rightarrow> DB \<Rightarrow> DB \<Rightarrow> bool" where
  "row_gone P p r ptr d d' \<longleftrightarrow> evolves {0, p, up_page ptr} (db_bm d) (db_bm d') \<and> backed (db_bm d') p \<and> up_page ptr \<notin> P \<and> version_at (db_bm d') ptr r \<and>
     (\<forall>q x. up_page q \<notin> P \<longrightarrow> version_at (db_bm d) q x \<longrightarrow> version_at (db_bm d') q x) \<and> db_catalog d' = db_catalog d"

lemma delete_row_run:
  assumes row: "table_row tp (db_store d) its rs rid i" and fl: "rh_flags (read_header (rs ! i)) AND RECORD_DEL = 0" and w: "writable ctx P d logs (Suc m) (Suc k)"
    and ok: "pool_ok (db_bm d)" and two: "2 \<le> length (bm_free (db_bm d))" and used: "\<And>q. q \<in> P \<Longrightarrow> \<exists>x. page_content (db_bm d) q = Some x"
    and P: "0 \<in> P" "tp_page_id tp \<in> P" and j: "ctx_txn ctx = Some j" and len: "length (rs ! i) \<le> 4052"
  obtains ptr l d' rec where "delete_row ctx (tp_table tp) rid (rh_flags (read_header (rs ! i))) (rh_trx_id (read_header (rs ! i))) (scan_tuple sch (rs ! i)) tp d =
      (Inr (tp\<lparr>tp_lsn := l\<rparr>), d')"
    "table_ok (tp\<lparr>tp_lsn := l\<rparr>) (db_store d') (add_rows (tp_table tp) (- 1) its) (rs[i := deleted_row ctx ptr (rs ! i)])" "row_gone P (tp_page_id tp) (rs ! i) ptr d d'"
    "db_txn d' = push_write j (undo_entry (tp_table tp) rid (rs ! i)) (db_txn d)" "writable ctx P d' (logs @ [rec]) m k"
    "rec = data_record (lm_next_lsn (db_log d)) ctx LR_DELETE_ROW (tp_table tp) rid []"
proof -
  let ?r = "rs ! i" and ?w = "undo_entry (tp_table tp) rid (rs ! i)"
  note tr = table_rowD [OF row]
  have rw: "unat (rid_row rid) = Suc i" using row by (simp add: table_row_def)
  note rd = header_reads [OF tr(2) table_okD(4) [OF tr(1)] tr(3) rw tr(4)]
  have ne: "?r \<noteq> []" using tr(4) by auto
  obtain ptr c d1 where a: "append_undo ctx (scan_tuple sch ?r) (rh_trx_id (read_header ?r)) (rh_roll_ptr (read_header ?r)) d = (Inr ptr, d1)"
    "d1 = d\<lparr>db_store := (db_store d)\<lparr>st_bm := c\<rparr>, db_undo_page := up_page ptr\<rparr>" "evolves {up_page ptr} (db_bm d) c" "up_page ptr \<notin> P" "version_at c ptr ?r"
    "\<forall>q x. version_at (db_bm d) q x \<longrightarrow> version_at c q x" "writable ctx P d1 logs m (Suc k)" by (rule append_version [OF w ok two used P(1) ne len])
  have ap: "0 \<notin> {up_page ptr}" "tp_page_id tp \<notin> {up_page ptr}" using a(4) P by auto
  have row1: "table_row tp (db_store d1) its rs rid i" using table_ok_evolves [OF tr(1) a(3) ap] row a(2) by (simp add: table_row_def)
  have ok1: "pool_ok (db_bm d1)" using evolvesD(1) [OF a(3)] a(2) by simp
  obtain tp' d' where b: "bnd (log_delete ctx (tp_table tp) rid ptr tp) (\<lambda>tp'. thn (record_write ctx ?w) (thn (flush_page (tp_frame tp')) (ret tp'))) d1 = (Inr tp', d')"
    "table_ok tp' (db_store d') (add_rows (tp_table tp) (- 1) its) (rs[i := deleted_row ctx ptr ?r])" "tp' = tp\<lparr>tp_lsn := lm_next_lsn (db_log d1)\<rparr>"
    "evolves {0, tp_page_id tp} (db_bm d1) (db_bm d')" "backed (db_bm d') (tp_page_id tp)" "db_txn d' = push_write j ?w (db_txn d1)" "db_catalog d' = db_catalog d1"
    "writable ctx P d' (logs @ [data_record (lm_next_lsn (db_log d1)) ctx LR_DELETE_ROW (tp_table tp) rid []]) m k"
    by (rule mark_row [OF row1 fl a(7) ok1 P j])
  have "delete_row ctx (tp_table tp) rid (rh_flags (read_header ?r)) (rh_trx_id (read_header ?r)) (scan_tuple sch ?r) tp d = (Inr tp', d')"
    using rd(3) a(1) b(1) by (simp add: delete_row_def in_store_def zoom_def bnd_def undo_entry_def)
  moreover have ev: "evolves {0, tp_page_id tp, up_page ptr} (db_bm d) (db_bm d')" by (rule evolves_trans [OF a(3)]) (use b(4) a(2) in auto)
  moreover have "version_at (db_bm d') q x" if "up_page q \<notin> P" "version_at c q x" for q x
    by (rule version_at_kept [OF _ b(4)]) (use that a(2) P in auto)
  ultimately show ?thesis using that b(2,3,5-8) a(2,4-6) by (simp add: row_gone_def)
qed

section \<open>A DELETE in progress\<close>

definition named :: "BufferManager \<Rightarrow> page_id_t \<Rightarrow> bool" where
  "named b p \<longleftrightarrow> (\<exists>d tp rs. page_content b p = Some d \<and> page_layout tp rs d \<and> tp_page_id tp = p)"

text \<open>
  The table consists of the pages \<open>ps\<close> with the records \<open>rss\<close>; the rows \<open>dn\<close> were visited, the rows \<open>rows\<close> are ahead of the iterator.
\<close>

definition deleting :: "ExecutorContext \<Rightarrow> nat \<Rightarrow> page_id_t list \<Rightarrow> Schema \<Rightarrow> entry_id \<Rightarrow> nat \<Rightarrow> TableIterator \<Rightarrow> DB \<Rightarrow> MetaItem list \<Rightarrow> RecoveredLog list \<Rightarrow>
    bytes list list \<Rightarrow> bytes list \<Rightarrow> bytes list \<Rightarrow> bool" where
  "deleting ctx n ps sch table k it d its logs rss dn rows \<longleftrightarrow> iter_at n ps (db_bm d) it rows \<and> iter_ready it \<and> ti_schema it = sch \<and> ti_table it = table \<and>
     chain (db_bm d) ps rss \<and> (\<forall>p \<in> set ps. named (db_bm d) p) \<and> distinct ps \<and> concat rss = dn @ rows \<and>
     meta_rep (db_store d) its \<and> table \<in> mi_id ` set its \<and> 3 \<le> n \<and> writable ctx (insert 0 (set ps)) d logs k k"

lemma deleting_row:
  assumes "deleting ctx n ps sch table k it d its logs rss dn (r # rest)" "22 \<le> length r"
  obtains pre qs A rs C tp i where "ps = pre @ ti_page_id it # qs" "rss = A @ rs # C" "length A = length pre" "dn = concat A @ take i rs" "rest = drop (Suc i) rs @ concat C"
    "r = rs ! i" "ti_tp it = Some tp" "table_row tp (db_store d) its rs (TI_GetRID it) i" "tp_page_id tp = ti_page_id it" "tp_table tp = table"
    "pinned n (ti_page_id it) (tp_frame tp) (db_bm d)" "unat (ti_row it) = Suc i" "ti_num_rows it = tp_num_rows tp" "tp_next tp = first_id qs" "chain (db_bm d) qs C"
    "\<not> ti_end it" "pool_ok (db_bm d)"
proof -
  note D = assms(1) [unfolded deleting_def]
  have it: "iter_at n ps (db_bm d) it (r # rest)" "iter_ready it" using D by simp_all
  have ne: "\<not> ti_end it" using it(1) by (auto simp: iter_at_def)
  obtain pre qs tp rs C i where t: "ps = pre @ ti_page_id it # qs" "ti_tp it = Some tp" "pinned n (ti_page_id it) (tp_frame tp) (db_bm d)" "backed (db_bm d) (ti_page_id it)"
    "page_layout tp rs (fdata (tp_frame tp) (db_bm d))" "unat (ti_row it) = Suc i" "i < length rs" "ti_num_rows it = tp_num_rows tp"
    "tp_table tp = ti_table it" "tp_next tp = first_id qs" "chain (db_bm d) qs C" "r = rs ! i" "rest = drop (Suc i) rs @ concat C" "pool_ok (db_bm d)"
    "held (ti_page_id it) (tp_frame tp) (db_bm d)" "unat (rid_row (TI_GetRID it)) = Suc i" by (rule row_position [OF it ne])
  have pc: "page_content (db_bm d) (ti_page_id it) = Some (fdata (tp_frame tp) (db_bm d))" using t(3) by (simp add: fdata_content pinned_def)
  have ch: "chain (db_bm d) (pre @ ti_page_id it # qs) rss" using D t(1) by simp
  obtain A rs' C' x tq where c: "rss = A @ rs' # C'" "length A = length pre" "chain (db_bm d) qs C'" "page_content (db_bm d) (ti_page_id it) = Some x" "page_layout tq rs' x"
    "ti_page_id it \<noteq> 0" by (rule chain_split [OF ch])
  have same: "rs' = rs" "C' = C" using layout_unique(1) [OF t(5)] c(4,5) pc chain_unique [OF t(11) c(3)] by simp_all
  have "named (db_bm d) (ti_page_id it)" using D t(1) by auto
  then have id: "tp_page_id tp = ti_page_id it" using pc layout_unique(3) [OF t(5)] by (auto simp: named_def)
  have "concat rss = dn @ r # rest" using D by simp
  then have "concat A @ take i rs @ r # rest = dn @ r # rest" using c(1) same t(7,12,13) by (simp add: id_take_nth_drop [symmetric])
  then have dn: "dn = concat A @ take i rs" by (metis append.assoc append_same_eq)
  have "table_row tp (db_store d) its rs (TI_GetRID it) i"
    using D t(5,7,9,12,15,16) id c(6) assms(2) by (simp add: table_row_def table_ok_def)
  moreover have "tp_table tp = table" using D t(9) by simp
  ultimately show ?thesis using that [OF t(1) _ c(2) dn t(13,12,2) _ id _ t(3,6,8,10,11) ne t(14)] c(1) same by simp
qed

lemma chain_pages: "chain b ps rss \<Longrightarrow> p \<in> set ps \<Longrightarrow> p \<noteq> 0 \<and> (\<exists>d. page_content b p = Some d)"
  by (induction b ps rss rule: chain.induct) auto

lemma named_keeps: "named b p \<Longrightarrow> keeps_pages b c \<Longrightarrow> named c p"
  unfolding named_def keeps_pages_def by blast

lemma writable_keeps: "writable ctx P d logs m k \<Longrightarrow> keeps_pages (db_bm d) c \<Longrightarrow> writable ctx P (with_bm c d) logs m k"
  by (auto simp: writable_def keeps_pages_def db_log_holds_def)

text \<open>The iterator moves on.\<close>

lemma deleting_next:
  assumes "deleting ctx n ps sch table k it d its logs rss dn (r # rest)" "length ps < fuel"
  obtains it' c where "TI_next fuel it (db_store d) = (Inr it', (db_store d)\<lparr>st_bm := c\<rparr>)" "keeps_pages (db_bm d) c"
    "deleting ctx n ps sch table k it' (with_bm c d) its logs rss (dn @ [r]) rest"
proof -
  note D = assms(1) [unfolded deleting_def]
  have it: "iter_at n ps (db_bm d) it (r # rest)" "iter_ready it" "1 \<le> n" using D by simp_all
  have ne: "\<not> ti_end it" using it(1) by (auto simp: iter_at_def)
  obtain it' c where c: "TI_next fuel it (db_store d) = (Inr it', (db_store d)\<lparr>st_bm := c\<rparr>)" "keeps_pages (db_bm d) c" "iter_at n ps c it' rest" "iter_ready it'"
    "ti_schema it' = ti_schema it" "ti_table it' = ti_table it" "stays (set ps) (db_bm d) c" by (rule next_run [OF it(1,2) ne it(3) assms(2)])
  have "0 \<notin> set ps" using D chain_pages by blast
  then have "meta_rep (db_store (with_bm c d)) its"
    using D c(2) meta_rep_pool [OF _ _ c(7), of its] by (simp add: keeps_pages_def pool_ok_def)
  then have "deleting ctx n ps sch table k it' (with_bm c d) its logs rss (dn @ [r]) rest"
    using D c(3-6) chain_keeps [OF _ c(2), of ps rss] named_keeps [OF _ c(2)] writable_keeps [OF _ c(2)] by (simp add: deleting_def)
  then show ?thesis using that c(1,2) by blast
qed

text \<open>The row under the iterator is deleted.\<close>

lemma deleting_delete:
  assumes del: "deleting ctx n ps sch table (Suc k) it d its logs rss dn (r # rest)" and len: "22 \<le> length r" "length r \<le> 4052"
    and fl: "rh_flags (read_header r) AND RECORD_DEL = 0" and j: "ctx_txn ctx = Some j"
  obtains tp tp' d' ptr rec rss' where "ti_tp it = Some tp"
    "delete_row ctx table (TI_GetRID it) (rh_flags (read_header r)) (rh_trx_id (read_header r)) (scan_tuple sch r) tp d = (Inr tp', d')"
    "deleting ctx n ps sch table k (it\<lparr>ti_tp := Some tp'\<rparr>) d' (add_rows table (- 1) its) (logs @ [rec]) rss' dn (deleted_row ctx ptr r # rest)"
    "row_gone (insert 0 (set ps)) (ti_page_id it) r ptr d d'" "db_txn d' = push_write j (undo_entry table (TI_GetRID it) r) (db_txn d)"
    "rec = data_record (lm_next_lsn (db_log d)) ctx LR_DELETE_ROW table (TI_GetRID it) []" "map length rss' = map length rss"
proof -
  let ?P = "insert 0 (set ps)" and ?p = "ti_page_id it"
  note D = del [unfolded deleting_def]
  obtain pre qs A rs C tp i where t: "ps = pre @ ?p # qs" "rss = A @ rs # C" "length A = length pre" "dn = concat A @ take i rs" "rest = drop (Suc i) rs @ concat C"
    "r = rs ! i" "ti_tp it = Some tp" "table_row tp (db_store d) its rs (TI_GetRID it) i" "tp_page_id tp = ?p" "tp_table tp = table" "pinned n ?p (tp_frame tp) (db_bm d)"
    "unat (ti_row it) = Suc i" "ti_num_rows it = tp_num_rows tp" "tp_next tp = first_id qs" "chain (db_bm d) qs C" "\<not> ti_end it" "pool_ok (db_bm d)"
    by (rule deleting_row [OF del len(1)])
  have i: "i < length rs" by (rule table_rowD(3) [OF t(8)])
  have w: "writable ctx ?P d logs (Suc k) (Suc k)" and ch: "chain (db_bm d) ps rss" and dist: "distinct ps"
    using D by simp_all
  have two: "2 \<le> length (bm_free (db_bm d))" using pinned_free [OF t(11)] D by simp
  have "\<exists>x. page_content (db_bm d) 0 = Some x" using D fdata_content by (fastforce simp: meta_rep_def store_ok_def held_def)
  then have used: "\<exists>x. page_content (db_bm d) q = Some x" if "q \<in> ?P" for q using that chain_pages [OF ch] by auto
  obtain ptr l d' rec where e: "delete_row ctx table (TI_GetRID it) (rh_flags (read_header r)) (rh_trx_id (read_header r)) (scan_tuple sch r) tp d = (Inr (tp\<lparr>tp_lsn := l\<rparr>), d')"
    "table_ok (tp\<lparr>tp_lsn := l\<rparr>) (db_store d') (add_rows table (- 1) its) (rs[i := deleted_row ctx ptr r])" "row_gone ?P ?p r ptr d d'"
    "db_txn d' = push_write j (undo_entry table (TI_GetRID it) r) (db_txn d)" "writable ctx ?P d' (logs @ [rec]) k k"
    "rec = data_record (lm_next_lsn (db_log d)) ctx LR_DELETE_ROW table (TI_GetRID it) []"
    by (rule delete_row_run [OF t(8) _ w t(17) two used, of j sch]) (use t(1,6,9,10) fl j len(2) in auto)
  let ?tp = "tp\<lparr>tp_lsn := l\<rparr>" and ?rs = "rs[i := deleted_row ctx ptr r]" and ?it = "it\<lparr>ti_tp := Some (tp\<lparr>tp_lsn := l\<rparr>)\<rparr>"
  have g: "evolves {0, ?p, up_page ptr} (db_bm d) (db_bm d')" "backed (db_bm d') ?p" "up_page ptr \<notin> ?P" using e(3) by (simp_all add: row_gone_def)
  note ok = table_okD [OF e(2)] and ev = evolvesD [OF g(1)]
  have pc: "page_content (db_bm d') ?p = Some (fdata (tp_frame tp) (db_bm d'))" using heldD(2) [OF ok(1)] t(9) by (simp add: fdata_content)
  have other: "q \<notin> {0, ?p, up_page ptr}" if "q \<in> set pre \<union> set qs" for q using that t(1) dist g(3) chain_pages [OF ch, of q] by auto
  have c': "chain (db_bm d') ps (A @ ?rs # C)" "chain (db_bm d') qs C"
  proof -
    show "chain (db_bm d') ps (A @ ?rs # C)" unfolding t(1)
      by (rule chain_change [where b = "db_bm d" and rs = rs and tp' = ?tp]) (use ch t(1-3,14) pc ok(4) g(2) ev(6,7) other in auto)
    show "chain (db_bm d') qs C" by (rule chain_kept [OF t(15)]) (use ev(6,7) other in auto)
  qed
  have "named (db_bm d') ?p" using pc ok(4) t(9) unfolding named_def by (intro exI [of _ "fdata (tp_frame tp) (db_bm d')"] exI [of _ ?tp] exI [of _ ?rs]) simp
  moreover have "named (db_bm d') q" if "q \<in> set pre \<union> set qs" for q
  proof -
    have "\<forall>q \<in> set ps. named (db_bm d) q" using D by simp
    then have "named (db_bm d) q" using that t(1) by auto
    then show ?thesis using ev(6) [OF other [OF that]] unfolding named_def by blast
  qed
  ultimately have nm: "\<forall>q \<in> set ps. named (db_bm d') q" using t(1) by auto
  have pin: "pinned n ?p (tp_frame ?tp) (db_bm d')" using t(11) ev(3,4) ev(5) [of ?p "tp_frame tp"] by (simp add: pinned_def)
  have "iter_at n ps (db_bm d') ?it (deleted_row ctx ptr r # rest)"
    by (rule iter_atI [of ps pre ?it qs ?tp n _ ?rs i C]) (use t(1,5,10,12-14,16) D pin g(2) ok(4) c'(2) ev(1) i in \<open>simp_all add: drop_update_swap Cons_nth_drop_Suc [symmetric]\<close>)
  moreover have "concat (A @ ?rs # C) = dn @ deleted_row ctx ptr r # rest" using t(4,5) i by (simp add: upd_conv_take_nth_drop)
  ultimately have "deleting ctx n ps sch table k ?it d' (add_rows table (- 1) its) (logs @ [rec]) (A @ ?rs # C) dn (deleted_row ctx ptr r # rest)"
    using D c'(1) nm ok(2) e(5) by (simp add: deleting_def iter_ready_def)
  moreover have "map length (A @ ?rs # C) = map length rss" using t(2) by simp
  ultimately show ?thesis using that t(7) e(1,3,4,6) by blast
qed

section \<open>The place of the row under the iterator\<close>

lemma deleting_place:
  assumes "deleting ctx n ps sch table k it d its logs rss dn (r # rest)"
  shows "drop (length dn) (places ps rss) = TI_GetRID it # drop (Suc (length dn)) (places ps rss)"
  using assms by (intro iter_place [of n ps "db_bm d" it r rest]) (simp_all add: deleting_def)

section \<open>The loop\<close>

text \<open>Two states of the transaction manager in which every visibility test has the same answer and the same transactions are active.\<close>

definition same_views :: "TransactionManager \<Rightarrow> TransactionManager \<Rightarrow> bool" where
  "same_views s t \<longleftrightarrow> tm_state t = tm_state s \<and> tm_active t = tm_active s \<and> tm_log t = tm_log s \<and> tm_storage t = tm_storage s \<and> (\<forall>i. tx_read_view (txn_of t i) = tx_read_view (txn_of s i) \<and> tx_id (txn_of t i) = tx_id (txn_of s i))"

lemma same_views_push: "same_views s s" "same_views s (push_write j w s)"
  by (simp_all add: same_views_def push_write_def update_txn_def txn_of_def)

lemma same_views_trans: "same_views s t \<Longrightarrow> same_views t u \<Longrightarrow> same_views s u"
  by (simp add: same_views_def)

lemma same_views_sees:
  assumes "same_views (db_txn d) (db_txn e)"
  shows "sees_trx ctx e = sees_trx ctx d" "has_view ctx e = has_view ctx d"
proof -
  have st: "tm_state (db_txn e) = tm_state (db_txn d)" using assms by (simp add: same_views_def)
  show "sees_trx ctx e = sees_trx ctx d"
    using assms st by (simp add: fun_eq_iff sees_trx_def ctx_transaction_def same_views_def IsVisible_def TM_IsAborted_def TM_IsCommitted_def TM_GetState_def
        cong: option.case_cong split: option.split)
  show "has_view ctx e = has_view ctx d" using assms by (simp add: has_view_def ctx_transaction_def same_views_def split: option.split)
qed

lemma same_views_tests:
  assumes "same_views (db_txn d) (db_txn e)"
  shows "picked D ctx e sch flt = picked D ctx d sch flt" "testable D ctx e sch flt = testable D ctx d sch flt" "no_conflicts ctx e = no_conflicts ctx d"
proof -
  have st: "tm_state (db_txn e) = tm_state (db_txn d)" using assms by (simp add: same_views_def)
  have "tx_read_view (txn_of (db_txn e) i) = tx_read_view (txn_of (db_txn d) i)" "tx_id (txn_of (db_txn e) i) = tx_id (txn_of (db_txn d) i)" for i
    using assms by (simp_all add: same_views_def)
  then have v: "WX_IsVisible ctx x e = WX_IsVisible ctx x d" for x
    using st by (simp add: WX_IsVisible_def ctx_transaction_def IsVisible_def TM_IsAborted_def TM_IsCommitted_def TM_GetState_def cong: option.case_cong split: option.split)
  then show "picked D ctx e sch flt = picked D ctx d sch flt" "testable D ctx e sch flt = testable D ctx d sch flt"
    by (simp_all add: picked_def testable_def open_to_def fun_eq_iff)
  show "no_conflicts ctx e = no_conflicts ctx d" using v st by (auto simp: no_conflicts_def conflict_check_def comp_simps TM_GetState_def)
qed

text \<open>What happens to one row.\<close>

definition row_outcome :: "ExecutorContext \<Rightarrow> page_id_t set \<Rightarrow> BufferManager \<Rightarrow> bool \<Rightarrow> bytes \<Rightarrow> bytes \<Rightarrow> bool" where
  "row_outcome ctx P b pick r r' \<longleftrightarrow> (if pick then \<exists>ptr. r' = deleted_row ctx ptr r \<and> version_at b ptr r \<and> up_page ptr \<notin> P else r' = r)"

definition versions_kept :: "page_id_t set \<Rightarrow> BufferManager \<Rightarrow> BufferManager \<Rightarrow> bool" where
  "versions_kept P b c \<longleftrightarrow> (\<forall>q x. up_page q \<notin> P \<longrightarrow> version_at b q x \<longrightarrow> version_at c q x)"

lemma row_outcome_kept: "row_outcome ctx P b pick r r' \<Longrightarrow> versions_kept P b c \<Longrightarrow> row_outcome ctx P c pick r r'"
  unfolding row_outcome_def versions_kept_def by (cases pick) auto

lemma keeps_versions: "keeps_pages b c \<Longrightarrow> versions_kept P b c"
  by (auto simp: versions_kept_def intro: version_at_keeps)

lemma versions_kept_trans: "versions_kept P b c \<Longrightarrow> versions_kept P c e \<Longrightarrow> versions_kept P b e"
  by (auto simp: versions_kept_def)

text \<open>One turn of the loop.\<close>

lemma deleting_less: "deleting ctx n ps sch table (Suc k) it d its logs rss dn rows \<Longrightarrow> deleting ctx n ps sch table k it d its logs rss dn rows"
  by (simp add: deleting_def writable_def)

lemma delete_step:
  assumes del: "deleting ctx n ps sch table (Suc k) it d its logs rss dn (r # rest)" and fuel: "length ps < fuel" and j: "ctx_txn ctx = Some j"
    and test: "no_conflicts ctx d" "testable D ctx d sch (xd_filter xd) r" "p \<longrightarrow> length r \<le> 4052" and p: "p = picked D ctx d sch (xd_filter xd) r"
    and xd: "xd_iterator xd = Some it" "xd_table xd = table"
  obtains it' d2 rss' r' recs where "delete_loop D fuel (Suc m) ctx xd d =
      delete_loop D fuel m ctx (xd\<lparr>xd_iterator := Some it', xd_count := xd_count xd + (if p then 1 else 0)\<rparr>) d2"
    "deleting ctx n ps sch table k it' d2 (if p then add_rows table (- 1) its else its) (logs @ recs) rss' (dn @ [r']) rest" "map length rss' = map length rss"
    "row_outcome ctx (insert 0 (set ps)) (db_bm d2) p r r'" "versions_kept (insert 0 (set ps)) (db_bm d) (db_bm d2)" "db_catalog d2 = db_catalog d"
    "db_txn d2 = (if p then push_write j (undo_entry table (TI_GetRID it) r) (db_txn d) else db_txn d)"
    "recs = (if p then [data_record (lm_next_lsn (db_log d)) ctx LR_DELETE_ROW table (TI_GetRID it) []] else [])"
proof -
  let ?P = "insert 0 (set ps)"
  have it: "iter_at n ps (db_bm d) it (r # rest)" "iter_ready it" "ti_schema it = sch" using del by (simp_all add: deleting_def)
  have ne: "\<not> ti_end it" using it(1) by (auto simp: iter_at_def)
  have len: "22 \<le> length r" using test(2) by (simp add: testable_def)
  obtain tp where tp: "ti_tp it = Some tp" "target_row D ctx (xd_filter xd) it tp d = (Inr (picked_row D ctx d sch (xd_filter xd) r), d)"
    by (rule target_row_run [OF it(1,2) ne, of D ctx "xd_filter xd"]) (use test it(3) in simp_all)
  show ?thesis
  proof (cases p)
    case True
    have fl: "rh_flags (read_header r) AND RECORD_DEL = 0" using True p by (simp add: picked_def open_to_def)
    have len2: "length r \<le> 4052" using True test(3) by simp
    obtain tq tp' d1 ptr rec rss' where e: "ti_tp it = Some tq"
      "delete_row ctx table (TI_GetRID it) (rh_flags (read_header r)) (rh_trx_id (read_header r)) (scan_tuple sch r) tq d = (Inr tp', d1)"
      "deleting ctx n ps sch table k (it\<lparr>ti_tp := Some tp'\<rparr>) d1 (add_rows table (- 1) its) (logs @ [rec]) rss' dn (deleted_row ctx ptr r # rest)"
      "row_gone ?P (ti_page_id it) r ptr d d1" "db_txn d1 = push_write j (undo_entry table (TI_GetRID it) r) (db_txn d)"
      "rec = data_record (lm_next_lsn (db_log d)) ctx LR_DELETE_ROW table (TI_GetRID it) []" "map length rss' = map length rss"
      by (rule deleting_delete [OF del len len2 fl j])
    obtain it' c where c: "TI_next fuel (it\<lparr>ti_tp := Some tp'\<rparr>) (db_store d1) = (Inr it', (db_store d1)\<lparr>st_bm := c\<rparr>)" "keeps_pages (db_bm d1) c"
      "deleting ctx n ps sch table k it' (with_bm c d1) (add_rows table (- 1) its) (logs @ [rec]) rss' (dn @ [deleted_row ctx ptr r]) rest"
      by (rule deleting_next [OF e(3) fuel])
    have "row_outcome ctx ?P c p r (deleted_row ctx ptr r)" "versions_kept ?P (db_bm d) c"
      using True e(4) keeps_versions [OF c(2)] by (auto simp: row_outcome_def row_gone_def versions_kept_def)
    moreover have "delete_loop D fuel (Suc m) ctx xd d = delete_loop D fuel m ctx (xd\<lparr>xd_iterator := Some it', xd_count := xd_count xd + 1\<rparr>) (with_bm c d1)"
      using xd ne tp e(1,2) c(1) True p by (simp add: picked_row_def in_store_def comp_simps)
    ultimately show ?thesis using that [of it' "with_bm c d1" "[rec]" rss' "deleted_row ctx ptr r"] True c(3) e(4-7) by (simp add: row_gone_def)
  next
    case False
    obtain it' c where c: "TI_next fuel it (db_store d) = (Inr it', (db_store d)\<lparr>st_bm := c\<rparr>)" "keeps_pages (db_bm d) c"
      "deleting ctx n ps sch table k it' (with_bm c d) its logs rss (dn @ [r]) rest" by (rule deleting_next [OF deleting_less [OF del] fuel])
    have same: "it\<lparr>ti_tp := Some tp\<rparr> = it" using tp(1) by (cases it) simp
    have nx: "TI_next fuel (it\<lparr>ti_tp := Some tp\<rparr>) (db_store d) = (Inr it', (db_store d)\<lparr>st_bm := c\<rparr>)" unfolding same by (rule c(1))
    have "delete_loop D fuel (Suc m) ctx xd d = delete_loop D fuel m ctx (xd\<lparr>xd_iterator := Some it', xd_count := xd_count xd + 0\<rparr>) (with_bm c d)"
      using xd ne tp nx False p by (simp add: picked_row_def in_store_def comp_simps)
    then show ?thesis using that [of it' "with_bm c d" "[]" rss r] False c(3) keeps_versions [OF c(2)] by (simp add: row_outcome_def)
  qed
qed

text \<open>
  What a DELETE of the picked ones among the rows at the places \<open>rids\<close> adds to the log and to the write set of the transaction.
\<close>

definition delete_records :: "ExecutorContext \<Rightarrow> entry_id \<Rightarrow> (RID \<times> bytes) list \<Rightarrow> RecoveredLog list \<Rightarrow> bool" where
  "delete_records ctx table xs recs \<longleftrightarrow> list_all2 (\<lambda>x rec. \<exists>l. rec = data_record l ctx LR_DELETE_ROW table (fst x) []) xs recs"

definition delete_entries :: "entry_id \<Rightarrow> (RID \<times> bytes) list \<Rightarrow> WriteRecord list" where
  "delete_entries table = map (\<lambda>x. undo_entry table (fst x) (snd x))"

text \<open>\<open>rows_deleted\<close>: what the loop leaves behind, from a state with the rows \<open>dn @ rows\<close> of which \<open>dn\<close> were visited.\<close>

definition rows_deleted :: "(bytes \<Rightarrow> bool) \<Rightarrow> ExecutorContext \<Rightarrow> tx_id_t \<Rightarrow> nat \<Rightarrow> page_id_t list \<Rightarrow> entry_id \<Rightarrow> RID list \<Rightarrow> DB \<Rightarrow> MetaItem list \<Rightarrow> RecoveredLog list \<Rightarrow>
    bytes list list \<Rightarrow> bytes list \<Rightarrow> bytes list \<Rightarrow> DB \<Rightarrow> bool" where
  "rows_deleted pick ctx j n ps table rids d its logs rss dn rows e \<longleftrightarrow>
     (let hit = filter (\<lambda>x. pick (snd x)) (zip rids rows) in
      (\<exists>rss' rows'. chain (db_bm e) ps rss' \<and> map length rss' = map length rss \<and> concat rss' = dn @ rows' \<and>
        list_all2 (\<lambda>r. row_outcome ctx (insert 0 (set ps)) (db_bm e) (pick r) r) rows rows') \<and> (\<forall>p \<in> set ps. named (db_bm e) p) \<and>
      versions_kept (insert 0 (set ps)) (db_bm d) (db_bm e) \<and> meta_rep (db_store e) ((add_rows table (- 1) ^^ length hit) its) \<and>
      (\<exists>recs. db_log_holds e (logs @ recs) \<and> delete_records ctx table hit recs) \<and>
      tx_write_set (txn_of (db_txn e) j) = tx_write_set (txn_of (db_txn d) j) @ delete_entries table hit \<and>
      same_views (db_txn d) (db_txn e) \<and> pool_ok (db_bm e) \<and> length (bm_free (db_bm e)) = n \<and> db_catalog e = db_catalog d)"

lemma rows_deleted_nil:
  assumes "deleting ctx n ps sch table k it d its logs rss dn []"
  shows "rows_deleted pick ctx j n ps table rids d its logs rss dn [] d" "ti_end it"
proof -
  note D = assms [unfolded deleting_def]
  have e: "ti_end it \<and> length (bm_free (db_bm d)) = n" using D iter_done [of n ps "db_bm d" it] by blast
  then show "ti_end it" ..
  have "db_log_holds d (logs @ [])" using D by (simp add: writable_def)
  then show "rows_deleted pick ctx j n ps table rids d its logs rss dn [] d"
    using D e by (auto simp: rows_deleted_def Let_def versions_kept_def delete_records_def delete_entries_def iter_at_def same_views_push intro!: exI [of _ rss] exI [of _ "[] :: RecoveredLog list"])
qed

text \<open>Putting one turn in front of the others.\<close>

lemma rows_deleted_cons:
  assumes rest: "rows_deleted pick ctx j n ps table rids d2 (if pick r then add_rows table (- 1) its else its) (logs @ recs) rss2 (dn @ [r']) rows e"
    and s: "map length rss2 = map length rss" "row_outcome ctx (insert 0 (set ps)) (db_bm d2) (pick r) r r'" "versions_kept (insert 0 (set ps)) (db_bm d) (db_bm d2)"
      "db_catalog d2 = db_catalog d" "db_txn d2 = (if pick r then push_write j (undo_entry table rid r) (db_txn d) else db_txn d)"
      "recs = (if pick r then [data_record l ctx LR_DELETE_ROW table rid []] else [])"
  shows "rows_deleted pick ctx j n ps table (rid # rids) d its logs rss dn (r # rows) e"
proof -
  let ?hit = "filter (\<lambda>x. pick (snd x)) (zip rids rows)" and ?hit' = "filter (\<lambda>x. pick (snd x)) (zip (rid # rids) (r # rows))" and ?P = "insert 0 (set ps)"
  note R = rest [unfolded rows_deleted_def Let_def]
  obtain rss' rows' where x: "chain (db_bm e) ps rss'" "map length rss' = map length rss2" "concat rss' = (dn @ [r']) @ rows'"
    "list_all2 (\<lambda>r. row_outcome ctx ?P (db_bm e) (pick r) r) rows rows'" using R by blast
  obtain recs' where g: "db_log_holds e ((logs @ recs) @ recs')" "delete_records ctx table ?hit recs'" using R by blast
  have vk: "versions_kept ?P (db_bm d2) (db_bm e)" using R by blast
  have "list_all2 (\<lambda>r. row_outcome ctx ?P (db_bm e) (pick r) r) (r # rows) (r' # rows')" using x(4) row_outcome_kept [OF s(2) vk] by simp
  moreover have "versions_kept ?P (db_bm d) (db_bm e)" by (rule versions_kept_trans [OF s(3) vk])
  moreover have "meta_rep (db_store e) ((add_rows table (- 1) ^^ length ?hit') its)" using R by (auto simp: funpow_swap1 split: if_splits)
  moreover have "db_log_holds e (logs @ (recs @ recs'))" "delete_records ctx table ?hit' (recs @ recs')" using g s(6) by (auto simp: delete_records_def)
  moreover have "tx_write_set (txn_of (db_txn e) j) = tx_write_set (txn_of (db_txn d) j) @ delete_entries table ?hit'"
    using R s(5) by (auto simp: delete_entries_def push_write_set)
  moreover have "same_views (db_txn d) (db_txn e)" by (rule same_views_trans [of _ "db_txn d2"]) (use R s(5) same_views_push in simp_all)
  moreover have "concat rss' = dn @ (r' # rows')" "map length rss' = map length rss" using x(2,3) s(1) by simp_all
  ultimately show ?thesis using R x(1) s(4) unfolding rows_deleted_def Let_def by (metis (no_types, lifting))
qed

lemma delete_loop_run:
  assumes "deleting ctx n ps sch table k it d its logs rss dn rows" "length rows \<le> k" "length rows < m" "length ps < fuel" "ctx_txn ctx = Some j" "no_conflicts ctx d"
    and "pick = picked D ctx d sch flt" "\<forall>r \<in> set rows. testable D ctx d sch flt r \<and> (pick r \<longrightarrow> length r \<le> 4052)"
    and "xd_iterator xd = Some it" "xd_table xd = table" "xd_filter xd = flt"
  shows "\<exists>it' e. delete_loop D fuel m ctx xd d = (Inr (xd\<lparr>xd_iterator := Some it', xd_count := xd_count xd + word_of_nat (length (filter pick rows))\<rparr>), e) \<and>
    rows_deleted pick ctx j n ps table (drop (length dn) (places ps rss)) d its logs rss dn rows e"
  using assms
proof (induction rows arbitrary: k it d its logs rss dn m xd)
  case Nil
  obtain m' where "m = Suc m'" using Nil.prems(3) by (cases m) auto
  then have "delete_loop D fuel m ctx xd d = (Inr xd, d)" using Nil.prems(9) rows_deleted_nil(2) [OF Nil.prems(1)] by (simp add: comp_simps)
  moreover have "xd\<lparr>xd_iterator := Some it\<rparr> = xd" using Nil.prems(9) by (cases xd) simp
  ultimately show ?case using rows_deleted_nil(1) [OF Nil.prems(1)] by (intro exI [of _ it] exI [of _ d]) simp
next
  case (Cons r rest)
  obtain k' where k: "k = Suc k'" "length rest \<le> k'" using Cons.prems(2) by (cases k) auto
  obtain m' where m: "m = Suc m'" "length rest < m'" using Cons.prems(3) by (cases m) auto
  have t: "testable D ctx d sch (xd_filter xd) r" "pick r \<longrightarrow> length r \<le> 4052" "pick r = picked D ctx d sch (xd_filter xd) r" "22 \<le> length r"
    using Cons.prems(7,8,11) by (simp_all add: testable_def)
  obtain it' d2 rss2 r' recs where s: "delete_loop D fuel (Suc m') ctx xd d =
      delete_loop D fuel m' ctx (xd\<lparr>xd_iterator := Some it', xd_count := xd_count xd + (if pick r then 1 else 0)\<rparr>) d2"
    "deleting ctx n ps sch table k' it' d2 (if pick r then add_rows table (- 1) its else its) (logs @ recs) rss2 (dn @ [r']) rest" "map length rss2 = map length rss"
    "row_outcome ctx (insert 0 (set ps)) (db_bm d2) (pick r) r r'" "versions_kept (insert 0 (set ps)) (db_bm d) (db_bm d2)" "db_catalog d2 = db_catalog d"
    "db_txn d2 = (if pick r then push_write j (undo_entry table (TI_GetRID it) r) (db_txn d) else db_txn d)"
    "recs = (if pick r then [data_record (lm_next_lsn (db_log d)) ctx LR_DELETE_ROW table (TI_GetRID it) []] else [])"
    by (rule delete_step [OF Cons.prems(1) [unfolded k(1)] Cons.prems(4,5,6) t(1-3) Cons.prems(9,10)])
  let ?xd = "xd\<lparr>xd_iterator := Some it', xd_count := xd_count xd + (if pick r then 1 else 0)\<rparr>"
  have "same_views (db_txn d) (db_txn d2)" using s(7) same_views_push by simp
  note same = same_views_tests [OF this]
  have "\<exists>it'' e. delete_loop D fuel m' ctx ?xd d2 = (Inr (?xd\<lparr>xd_iterator := Some it'', xd_count := xd_count ?xd + word_of_nat (length (filter pick rest))\<rparr>), e) \<and>
      rows_deleted pick ctx j n ps table (drop (length (dn @ [r'])) (places ps rss2)) d2 (if pick r then add_rows table (- 1) its else its) (logs @ recs) rss2 (dn @ [r']) rest e"
    by (rule Cons.IH [OF s(2) k(2) m(2) Cons.prems(4,5)]) (use Cons.prems(6-8,10,11) same in simp_all)
  then obtain it'' e where e: "delete_loop D fuel m' ctx ?xd d2 = (Inr (?xd\<lparr>xd_iterator := Some it'', xd_count := xd_count ?xd + word_of_nat (length (filter pick rest))\<rparr>), e)"
    "rows_deleted pick ctx j n ps table (drop (Suc (length dn)) (places ps rss)) d2 (if pick r then add_rows table (- 1) its else its) (logs @ recs) rss2 (dn @ [r']) rest e"
    using places_lengths [OF s(3)] by auto
  have "rows_deleted pick ctx j n ps table (drop (length dn) (places ps rss)) d its logs rss dn (r # rest) e"
    unfolding deleting_place [OF Cons.prems(1)] by (rule rows_deleted_cons [OF e(2) s(3-8)])
  moreover have "delete_loop D fuel m ctx xd d = (Inr (xd\<lparr>xd_iterator := Some it'', xd_count := xd_count xd + word_of_nat (length (filter pick (r # rest)))\<rparr>), e)"
    using m(1) s(1) e(1) by (simp add: add.assoc)
  ultimately show ?case by blast
qed

section \<open>The statement\<close>

text \<open>\<open>table_at d t i te its ps rss\<close>: the table \<open>t\<close> is known under the id \<open>i\<close>, the catalog page lists it, and its pages \<open>ps\<close> hold the records \<open>rss\<close>.\<close>

definition table_at :: "DB \<Rightarrow> string \<Rightarrow> entry_id \<Rightarrow> TableEntry \<Rightarrow> MetaItem list \<Rightarrow> page_id_t list \<Rightarrow> bytes list list \<Rightarrow> bool" where
  "table_at d t i te its ps rss \<longleftrightarrow> map_of (cat_names (db_catalog d)) t = Some i \<and> Cat_table (db_catalog d) i = Inr te \<and> pool_ok (db_bm d) \<and>
     3 \<le> length (bm_free (db_bm d)) \<and> meta_rep (db_store d) its \<and> i \<in> mi_id ` set its \<and> mp_name_tables (st_meta (db_store d)) t = Some (first_id ps) \<and>
     chain (db_bm d) ps rss \<and> distinct ps \<and> (\<forall>p \<in> set ps. named (db_bm d) p)"

lemma delete_run:
  assumes tab: "table_at d t i te its ps rss" and w: "writable ctx (insert 0 (set ps)) d logs (length (concat rss)) (length (concat rss))" and j: "ctx_txn ctx = Some j"
    and nc: "no_conflicts ctx d" and pick: "pick = picked D ctx d (TE_GetSchema te) (xd_filter xd)"
    and test: "\<forall>r \<in> set (concat rss). testable D ctx d (TE_GetSchema te) (xd_filter xd) r \<and> (pick r \<longrightarrow> length r \<le> 4052)"
    and xd: "xd_table_name xd = t" "xd_schema xd = []" "\<not> xd_done xd" and fuel: "length ps < fuel" "length (concat rss) < fuel"
  obtains xd1 d1 xd2 e where "XD_Open fuel xd d = (Inr xd1, d1)" "XD_Next D fuel ctx xd1 d1 = (Inr xd2, e)"
    "xd_count xd2 = xd_count xd + word_of_nat (length (filter pick (concat rss)))"
    "rows_deleted pick ctx j (length (bm_free (db_bm d))) ps i (places ps rss) d its logs rss [] (concat rss) e"
proof -
  note T = tab [unfolded table_at_def]
  let ?n = "length (bm_free (db_bm d))" and ?sch = "TE_GetSchema te"
  have first: "MP_GetFirstPageId_by_name t (db_store d) = (Inr (first_id ps), db_store d)" using T by (simp add: MP_GetFirstPageId_by_name_def comp_simps)
  have ch: "chain (db_bm d) ps rss" and ok: "pool_ok (db_bm d)" and free: "1 \<le> ?n" using T by simp_all
  obtain it c where c: "TableIterator_new fuel t i ?sch (db_store d) = (Inr it, (db_store d)\<lparr>st_bm := c\<rparr>)" "keeps_pages (db_bm d) c"
    "iter_at ?n ps c it (concat rss)" "iter_ready it" "ti_schema it = ?sch" "ti_table it = i" "stays (set ps) (db_bm d) c"
    by (rule new_run_pages [OF first ch ok free fuel(1)])
  let ?xd = "xd\<lparr>xd_table := i, xd_schema := ?sch, xd_iterator := Some it\<rparr>" and ?d = "with_bm c d"
  have op: "XD_Open fuel xd d = (Inr ?xd, ?d)" using T xd(1,2) c(1) by (simp add: XD_Open_def in_store_def comp_simps Let_def)
  have "0 \<notin> set ps" using chain_pages [OF ch] by blast
  then have "meta_rep (db_store ?d) its" using T c(2) meta_rep_pool [OF _ _ c(7), of its] by (simp add: keeps_pages_def pool_ok_def)
  then have del: "deleting ctx ?n ps ?sch i (length (concat rss)) it ?d its logs rss [] (concat rss)"
    using T c(3-6) chain_keeps [OF ch c(2)] named_keeps [OF _ c(2)] writable_keeps [OF w c(2)] by (simp add: deleting_def)
  obtain it' e where e: "delete_loop D fuel fuel ctx ?xd ?d = (Inr (?xd\<lparr>xd_iterator := Some it', xd_count := xd_count ?xd + word_of_nat (length (filter pick (concat rss)))\<rparr>), e)"
    "rows_deleted pick ctx j ?n ps i (drop (length []) (places ps rss)) ?d its logs rss [] (concat rss) e"
    using delete_loop_run [OF del order_refl fuel(2,1) j, of pick D "xd_filter xd" ?xd] nc pick test by auto
  have "rows_deleted pick ctx j ?n ps i (places ps rss) d its logs rss [] (concat rss) e"
    using e(2) versions_kept_trans [OF keeps_versions [OF c(2)]] by (simp add: rows_deleted_def Let_def)
  moreover have "XD_Next D fuel ctx ?xd ?d = (Inr (?xd\<lparr>xd_iterator := Some it', xd_count := xd_count ?xd + word_of_nat (length (filter pick (concat rss))), xd_done := True\<rparr>), e)"
    using xd(3) e(1) by (simp add: XD_Next_def comp_simps)
  ultimately show ?thesis using that op by fastforce
qed

text \<open>C5.
  A DELETE ends and deletes exactly the picked rows.  For a transaction working on a snapshot, with enough fuel, three free frames, and rows short enough for an undo page: the
  executor returns the number of rows of the table that are not marked deleted, whose writer it sees and that satisfy the condition; in the pages of the table each of these rows
  is marked deleted by the transaction and points to an undo record that holds its old bytes, and all other rows are unchanged; the row count in the catalog page went down by one for
  each; log and write set gained, in order, a record and an entry with the place of each of them; every older version outside the table is still
  there; and all frames are free again.
\<close>

theorem delete_marks_matching_rows:
  assumes "table_at d t i te its ps rss" "writable ctx (insert 0 (set ps)) d logs (length (concat rss)) (length (concat rss))"
    and "tm_run m TransactionManager_new s" "tm_run n s (db_txn d)" "m + n + 1 < 2 ^ 64"
    and "ctx_txn ctx = Some j" "j \<in> set (tm_active (db_txn d))" "tx_read_view (txn_of (db_txn d) j) = Some (CreateReadView j s)"
    and "\<And>r. r \<in> set (concat rss) \<Longrightarrow> testable D ctx d (TE_GetSchema te) (xd_filter xd) r \<and> length r \<le> 4052"
    and "xd_table_name xd = t" "xd_schema xd = []" "\<not> xd_done xd" "xd_count xd = 0" "length ps < fuel" "length (concat rss) < fuel"
  shows "let pick = picked D ctx d (TE_GetSchema te) (xd_filter xd); hit = filter (\<lambda>x. pick (snd x)) (zip (places ps rss) (concat rss)) in
    \<exists>xd1 d1 xd2 e rss' recs. XD_Open fuel xd d = (Inr xd1, d1) \<and> XD_Next D fuel ctx xd1 d1 = (Inr xd2, e) \<and>
      xd_count xd2 = word_of_nat (length (filter pick (concat rss))) \<and> chain (db_bm e) ps rss' \<and> map length rss' = map length rss \<and>
      list_all2 (\<lambda>r. row_outcome ctx (insert 0 (set ps)) (db_bm e) (pick r) r) (concat rss) (concat rss') \<and>
      versions_kept (insert 0 (set ps)) (db_bm d) (db_bm e) \<and> meta_rep (db_store e) ((add_rows i (- 1) ^^ length hit) its) \<and>
      db_log_holds e (logs @ recs) \<and> delete_records ctx i hit recs \<and>
      tx_write_set (txn_of (db_txn e) j) = tx_write_set (txn_of (db_txn d) j) @ delete_entries i hit \<and>
      pool_ok (db_bm e) \<and> length (bm_free (db_bm e)) = length (bm_free (db_bm d))"
proof -
  let ?pick = "picked D ctx d (TE_GetSchema te) (xd_filter xd)"
  have nc: "no_conflicts ctx d" using visible_writer_passes(3) [OF assms(3-8)] by (simp add: no_conflicts_def)
  have test: "\<forall>r \<in> set (concat rss). testable D ctx d (TE_GetSchema te) (xd_filter xd) r \<and> (?pick r \<longrightarrow> length r \<le> 4052)" using assms(9) by blast
  obtain xd1 d1 xd2 e where e: "XD_Open fuel xd d = (Inr xd1, d1)" "XD_Next D fuel ctx xd1 d1 = (Inr xd2, e)"
    "xd_count xd2 = xd_count xd + word_of_nat (length (filter ?pick (concat rss)))"
    "rows_deleted ?pick ctx j (length (bm_free (db_bm d))) ps i (places ps rss) d its logs rss [] (concat rss) e"
    by (rule delete_run [OF assms(1,2,6) nc refl test assms(10-12,14,15)])
  note R = e(4) [unfolded rows_deleted_def Let_def]
  obtain rss' where x: "chain (db_bm e) ps rss'" "map length rss' = map length rss"
    "list_all2 (\<lambda>r. row_outcome ctx (insert 0 (set ps)) (db_bm e) (?pick r) r) (concat rss) (concat rss')" using R by auto
  obtain recs where "db_log_holds e (logs @ recs)" "delete_records ctx i (filter (\<lambda>x. ?pick (snd x)) (zip (places ps rss) (concat rss))) recs" using R by blast
  then show ?thesis unfolding Let_def
    using e(1-3) x R assms(13) by (intro exI [of _ xd1] exI [of _ d1] exI [of _ xd2] exI [of _ e] exI [of _ rss'] exI [of _ recs]) simp
qed

section \<open>What readers see afterwards\<close>

text \<open>A row as a reader sees it through undo records outside the pages \<open>P\<close>.\<close>

definition row_sees_outside :: "page_id_t set \<Rightarrow> ExecutorContext \<Rightarrow> DB \<Rightarrow> nat \<Rightarrow> bytes \<Rightarrow> bytes option \<Rightarrow> bool" where
  "row_sees_outside P ctx d n r x \<longleftrightarrow> 22 \<le> length r \<and>
     (if rh_flags (read_header r) AND RECORD_DEAD \<noteq> 0 then x = None
      else sees (sees_trx ctx d) (\<lambda>q y. version_at (db_bm d) q y \<and> up_page q \<notin> P) n r x)"

lemma deleted_flags: "(f OR RECORD_DEL) AND RECORD_DEAD = f AND (RECORD_DEAD :: u16)"
  by (simp add: bit.conj_disj_distrib2)

lemma row_after:
  assumes "row_sees_outside P rd d n r x" "row_outcome ctx P (db_bm e) p r r'" "versions_kept P (db_bm d) (db_bm e)" "sees_trx rd e = sees_trx rd d" "0 \<in> P" "Suc n \<le> m"
  shows "row_sees rd e m r' (if p \<and> sees_trx rd d (cur_txn ctx) then None else x)"
proof -
  have l: "22 \<le> length r" using assms(1) by (simp add: row_sees_outside_def)
  have mono: "sees (sees_trx rd e) (version_at (db_bm e)) n r x" if "rh_flags (read_header r) AND RECORD_DEAD = 0"
  proof -
    have "sees (sees_trx rd e) (\<lambda>q y. version_at (db_bm d) q y \<and> up_page q \<notin> P) n r x" using assms(1,4) that by (simp add: row_sees_outside_def)
    then show ?thesis by (rule sees_mono) (use assms(3) in \<open>auto simp: versions_kept_def\<close>)
  qed
  show ?thesis
  proof (cases p)
    case False
    then show ?thesis using assms(1,2,6) l mono sees_more [OF mono, of m] by (auto simp: row_sees_def row_sees_outside_def row_outcome_def)
  next
    case True
    then obtain ptr where r': "r' = deleted_row ctx ptr r" "version_at (db_bm e) ptr r" "up_page ptr \<notin> P" using assms(2) by (auto simp: row_outcome_def)
    have h: "read_header r' = \<lparr>rh_trx_id = cur_txn ctx, rh_roll_ptr = ptr, rh_flags = rh_flags (read_header r) OR RECORD_DEL\<rparr>" "22 \<le> length r'"
      using l by (simp_all add: r'(1) deleted_row_def read_with_header)
    have nn: "\<not> UndoPointer_IsNull ptr" using r'(3) assms(5) by (auto simp: UndoPointer_IsNull_def)
    have "sees (sees_trx rd e) (version_at (db_bm e)) (Suc n) r' (if sees_trx rd d (cur_txn ctx) then None else x)" if "rh_flags (read_header r) AND RECORD_DEAD = 0"
    proof (cases "sees_trx rd d (cur_txn ctx)")
      case True
      then show ?thesis using h assms(4) deleted_flag by (auto intro!: sees_here)
    next
      case False
      then show ?thesis using h assms(4) nn r'(2) mono [OF that] by (auto intro!: sees_back)
    qed
    from sees_more [OF this assms(6)] show ?thesis
      using True h assms(1) deleted_flags by (auto simp: row_sees_def row_sees_outside_def)
  qed
qed

lemma add_rows_names: "map (\<lambda>it. (mi_name it, mi_first it)) ((add_rows t c ^^ k) its) = map (\<lambda>it. (mi_name it, mi_first it)) its"
proof (induction k)
  case (Suc k)
  have "map (\<lambda>it. (mi_name it, mi_first it)) (add_rows t c xs) = map (\<lambda>it. (mi_name it, mi_first it)) xs" for xs by (simp add: add_rows_def)
  then show ?case using Suc by simp
qed simp

lemma names_after:
  assumes "meta_rep s its" "meta_rep u ((add_rows t c ^^ k) its)"
  shows "mp_name_tables (st_meta u) = mp_name_tables (st_meta s)"
  using assms by (simp add: meta_rep_def tables_of_def add_rows_names)

text \<open>C6.
  After a DELETE, every reader sees the rows its snapshot entitles it to: a scan by a reader that sees the deleting transaction, such as the transaction itself, leaves the
  deleted rows out, and a scan by any other reader returns exactly what it would have returned before, reading the deleted rows from the undo log.
\<close>

theorem delete_then_scan:
  assumes "table_at d t i te its ps rss" "writable ctx (insert 0 (set ps)) d logs (length (concat rss)) (length (concat rss))"
    and "tm_run m TransactionManager_new s" "tm_run n s (db_txn d)" "m + n + 1 < 2 ^ 64"
    and "ctx_txn ctx = Some j" "j \<in> set (tm_active (db_txn d))" "tx_read_view (txn_of (db_txn d) j) = Some (CreateReadView j s)"
    and "\<And>r. r \<in> set (concat rss) \<Longrightarrow> testable D ctx d (TE_GetSchema te) (xd_filter xd) r \<and> length r \<le> 4052"
    and "xd_table_name xd = t" "xd_schema xd = []" "\<not> xd_done xd" "length ps < fuel" "length (concat rss) < fuel"
    and "has_view rd d" "ctx_undo rd" "list_all2 (row_sees_outside (insert 0 (set ps)) rd d k) (concat rss) xs" "k < fuel" "Suc (length rss) < fuel"
  shows "let gone = (\<lambda>r. picked D ctx d (TE_GetSchema te) (xd_filter xd) r \<and> sees_trx rd d j) in
    \<exists>xd1 d1 xd2 e sq e1 ts e2. XD_Open fuel xd d = (Inr xd1, d1) \<and> XD_Next D fuel ctx xd1 d1 = (Inr xd2, e) \<and>
      SS_Open fuel (ExecutorSeqScan_new t) e = (Inr sq, e1) \<and> scan_all fuel fuel rd sq e1 = (Inr ts, e2) \<and>
      map t_data ts = filter (\<lambda>x. x \<noteq> None) (map2 (\<lambda>r x. if gone r then None else x) (concat rss) xs)"
proof -
  let ?pick = "picked D ctx d (TE_GetSchema te) (xd_filter xd)" and ?P = "insert 0 (set ps)"
  let ?ys = "map2 (\<lambda>r x. if ?pick r \<and> sees_trx rd d j then None else x) (concat rss) xs"
  note T = assms(1) [unfolded table_at_def]
  have nc: "no_conflicts ctx d" using visible_writer_passes(3) [OF assms(3-8)] by (simp add: no_conflicts_def)
  have test: "\<forall>r \<in> set (concat rss). testable D ctx d (TE_GetSchema te) (xd_filter xd) r \<and> (?pick r \<longrightarrow> length r \<le> 4052)" using assms(9) by blast
  obtain xd1 d1 xd2 e where e: "XD_Open fuel xd d = (Inr xd1, d1)" "XD_Next D fuel ctx xd1 d1 = (Inr xd2, e)"
    "rows_deleted ?pick ctx j (length (bm_free (db_bm d))) ps i (places ps rss) d its logs rss [] (concat rss) e"
    by (rule delete_run [OF assms(1,2,6) nc refl test assms(10-14)])
  note R = e(3) [unfolded rows_deleted_def Let_def]
  obtain rss' where x: "chain (db_bm e) ps rss'" "map length rss' = map length rss"
    "list_all2 (\<lambda>r. row_outcome ctx ?P (db_bm e) (?pick r) r) (concat rss) (concat rss')" using R by auto
  have "length rss' = length rss" using arg_cong [OF x(2), of length] by simp
  note len = this list_all2_lengthD [OF x(3)]
  have sv: "same_views (db_txn d) (db_txn e)" and vk: "versions_kept ?P (db_bm d) (db_bm e)" using R by blast+
  have cur: "cur_txn ctx = j" using assms(6) by (simp add: cur_txn_def)
  have see: "list_all2 (row_sees rd e fuel) (concat rss') ?ys"
  proof (rule list_all2_all_nthI)
    show "length (concat rss') = length ?ys" using len list_all2_lengthD [OF assms(17)] by simp
    fix q assume q: "q < length (concat rss')"
    have l: "q < length (concat rss)" "q < length xs" using q len(2) list_all2_lengthD [OF assms(17)] by simp_all
    have "row_sees rd e fuel (concat rss' ! q) (if ?pick (concat rss ! q) \<and> sees_trx rd d (cur_txn ctx) then None else xs ! q)"
      by (rule row_after [OF list_all2_nthD [OF assms(17) l(1)] list_all2_nthD [OF x(3) l(1)] vk same_views_sees(1) [OF sv]]) (use assms(18) in simp_all)
    moreover have "?ys ! q = (if ?pick (concat rss ! q) \<and> sees_trx rd d (cur_txn ctx) then None else xs ! q)" using l by (simp add: cur)
    ultimately show "row_sees rd e fuel (concat rss' ! q) (?ys ! q)" by simp
  qed
  have m: "meta_rep (db_store d) its" "\<exists>q. meta_rep (db_store e) ((add_rows i (- 1) ^^ q) its)" and k: "pool_ok (db_bm e)" "length (bm_free (db_bm e)) = length (bm_free (db_bm d))"
    "db_catalog e = db_catalog d" using T R by blast+
  obtain q where "meta_rep (db_store e) ((add_rows i (- 1) ^^ q) its)" using m(2) by blast
  then have "mp_name_tables (st_meta (db_store e)) t = Some (first_id ps)" using T names_after [OF m(1)] by simp
  then have "table_rows e t te rss'" using T k chain_heap [OF x(1)] by (simp add: table_rows_def)
  then obtain sq e1 ts e2 where "SS_Open fuel (ExecutorSeqScan_new t) e = (Inr sq, e1)" "scan_all fuel fuel rd sq e1 = (Inr ts, with_bm e2 e)"
    "map t_data ts = filter (\<lambda>x. x \<noteq> None) ?ys"
    by (rule scan_snapshot [OF _ _ assms(16) see]) (use assms(14,15,19) len same_views_sees(2) [OF sv] in simp_all)
  then show ?thesis unfolding Let_def using e(1,2) by blast
qed

section \<open>A table with one row\<close>

definition users_item :: MetaItem where
  "users_item = \<lparr>mi_first = 1, mi_name = ''users'', mi_rows = 1, mi_id = 7, mi_last = 1, mi_offset = 24, mi_items = []\<rparr>"

definition table_file :: bytes where
  "table_file = poke 0 (header_words 0 [users_item] @ items_bytes [users_item]) (replicate 4096 0) @ heap_page [demo_record]"

definition table_pool :: BufferManager where
  "table_pool = BufferManager_new (PosixDiskManager_new table_file) 2 (replicate 4096 0)"

definition table_db :: "frame_id \<Rightarrow> BufferManager \<Rightarrow> DB" where
  "table_db f c = demo_db\<lparr>db_store := \<lparr>st_bm = c, st_meta = \<lparr>mp_version = 0, mp_table_size = 1, mp_last_point = word_of_nat (24 + length (items_bytes [users_item])), mp_frame = f,
     mp_name_tables = [''users'' \<mapsto> 1], mp_id_tables = [7 \<mapsto> 1], mp_items = [(7, users_item)]\<rparr>\<rparr>, db_txn := demo_writers, db_catalog := Cat_AddTable demo_entry Catalog_new\<rparr>"

lemma users_item_size: "length (items_bytes [users_item]) = 61"
  by (simp add: items_bytes_def users_item_def item_bytes_split)

lemma table_pool_facts:
  "pool_ok table_pool" "length (bm_free table_pool) = 128" "backed table_pool q" "bm_next_id table_pool = 2"
  "page_content table_pool 0 = Some (poke 0 (header_words 0 [users_item] @ items_bytes [users_item]) (replicate 4096 0))"
  "page_content table_pool 1 = Some (heap_page [demo_record])"
proof -
  have l: "length (header_words 0 [users_item]) = 24" "length (heap_page [demo_record]) = 4096" using demo_record_facts(2)
    by (simp_all add: heap_page_def Let_def)
  have p: "length (poke 0 (header_words 0 [users_item] @ items_bytes [users_item]) (replicate 4096 0)) = 4096" using l users_item_size by simp
  have "bm_inv table_pool" unfolding table_pool_def by (rule bm_inv_new) (simp_all add: PosixDiskManager_new_def)
  then show "pool_ok table_pool"
    using l p by (simp add: pool_ok_def) (simp add: table_pool_def table_file_def BufferManager_new_def PosixDiskManager_new_def ready_def)
  show "length (bm_free table_pool) = 128" "backed table_pool q" "bm_next_id table_pool = 2"
    by (simp_all add: table_pool_def BufferManager_new_def backed_def)
  show "page_content table_pool 0 = Some (poke 0 (header_words 0 [users_item] @ items_bytes [users_item]) (replicate 4096 0))"
    "page_content table_pool 1 = Some (heap_page [demo_record])"
    using l p by (simp_all add: table_pool_def table_file_def BufferManager_new_def PosixDiskManager_new_def page_content_def stored_def peek_def)
qed

lemma table_db_start:
  "\<exists>f c. table_at (table_db f c) ''users'' 7 demo_entry [users_item] [1] [[demo_record]] \<and> writable reader {0, 1} (table_db f c) [] 2 2"
proof -
  note p = table_pool_facts
  have free: "bm_free table_pool \<noteq> []" using p(2) by auto
  obtain f c where c: "held 0 f c" "fdata f c = poke 0 (header_words 0 [users_item] @ items_bytes [users_item]) (replicate 4096 0)" "keeps_pages table_pool c"
    "pinned (length (bm_free table_pool)) 0 f c" by (rule fetch_pinned [OF p(1) free _ p(5)]) (simp_all add: addressable_def)
  note k = c(3) [unfolded keeps_pages_def]
  have fr: "3 \<le> length (bm_free c)" using pinned_free [OF c(4)] p(2) by simp
  have size: "length (header_words 0 [users_item] @ items_bytes [users_item]) = 85" using users_item_size by simp
  have "holds_at 0 (header_words 0 [users_item] @ items_bytes [users_item]) (fdata f c)" "length (fdata f c) = 4096"
    unfolding c(2) using size by (simp_all only: holds_at_poke_same length_poke length_replicate)
  moreover have "layout 24 [users_item]" by (simp add: users_item_def)
  ultimately have "page_rep 0 [users_item] (fdata f c)" unfolding page_rep_def by blast
  then have meta: "meta_rep (db_store (table_db f c)) [users_item]"
    using c(1) by (simp add: meta_rep_def table_db_def store_ok_def mdata_def tables_of_def) (simp add: users_item_def)
  obtain tp where tp: "page_layout tp [demo_record] (heap_page [demo_record])" "tp_next tp = 0" "tp_page_id tp = 1"
    using heap_page_layout [of "[demo_record]"] demo_record_facts(2) by auto
  have pc: "page_content c 1 = Some (heap_page [demo_record])" "backed c 1" using k p(3,6) by blast+
  have "chain c [1] [[demo_record]]" "named c 1" using pc tp by (auto simp: addressable_def named_def)
  moreover have "map_of (cat_names (db_catalog (table_db f c))) ''users'' = Some 7" "Cat_table (db_catalog (table_db f c)) 7 = Inr demo_entry"
    by (simp_all add: table_db_def Cat_AddTable_def Cat_table_def demo_entry_def TE_AddColumn_def TableEntry_new_def Catalog_new_def)
  moreover have "pool_ok (db_bm (table_db f c))" "mp_name_tables (st_meta (db_store (table_db f c))) ''users'' = Some 1" "db_bm (table_db f c) = c"
    using k by (simp_all add: table_db_def)
  ultimately have "table_at (table_db f c) ''users'' 7 demo_entry [users_item] [1] [[demo_record]]"
    using meta fr by (simp add: table_at_def) (simp add: users_item_def)
  moreover have "writable reader {0, 1} (table_db f c) [] 2 2"
    using k p(4) demo_db_log(1,4) demo_db_with_log(2) by (simp add: writable_def table_db_def db_log_holds_def) (simp add: demo_db_def)
  ultimately show ?thesis by blast
qed

lemma table_db_ready:
  "\<exists>f c. table_at (table_db f c) ''users'' 7 demo_entry [users_item] [1] [[demo_record]] \<and> writable reader {0, 1} (table_db f c) [] 1 1"
proof -
  have "writable reader {0, 1} (table_db f c) [] 1 1" if "writable reader {0, 1} (table_db f c) [] 2 2" for f c
    by (rule writable_less [OF that]) simp_all
  then show ?thesis using table_db_start by blast
qed

definition demo_delete :: ExecutorDelete where
  "demo_delete = \<lparr>xd_table_name = ''users'', xd_filter = None, xd_iterator = None, xd_schema = [], xd_table = 0, xd_count = 0, xd_done = False\<rparr>"

lemma table_db_txn:
  "tm_run 1 (snd (begin_register TransactionManager_new)) (db_txn (table_db f c))" "1 \<in> set (tm_active (db_txn (table_db f c)))"
  "tx_read_view (txn_of (db_txn (table_db f c)) 1) = Some (CreateReadView 1 (snd (begin_register TransactionManager_new)))"
  "tx_id (txn_of (db_txn (table_db f c)) 1) = 1"
proof -
  have t: "db_txn (table_db f c) = demo_writers" "db_txn writer_db = demo_writers" by (simp_all add: table_db_def writer_db_def)
  show "tm_run 1 (snd (begin_register TransactionManager_new)) (db_txn (table_db f c))" "1 \<in> set (tm_active (db_txn (table_db f c)))"
    "tx_read_view (txn_of (db_txn (table_db f c)) 1) = Some (CreateReadView 1 (snd (begin_register TransactionManager_new)))"
    using writer_db_facts(4,5) demo_writers_run unfolding t by simp_all
  show "tx_id (txn_of (db_txn (table_db f c)) 1) = 1" unfolding t
    by (simp add: demo_writers_def begin_register_def GetNextTxId_def TransactionManager_new_def take_view_def txn_of_def update_txn_def)
qed

lemma delete_marks_matching_rows_witness:
  "\<exists>d xd1 d1 xd2 e ptr. XD_Open 9 demo_delete d = (Inr xd1, d1) \<and> XD_Next demo_doubles 9 reader xd1 d1 = (Inr xd2, e) \<and> xd_count xd2 = 1 \<and>
     chain (db_bm e) [1] [[deleted_row reader ptr demo_record]] \<and> version_at (db_bm e) ptr demo_record"
proof -
  obtain f c where t: "table_at (table_db f c) ''users'' 7 demo_entry [users_item] [1] [[demo_record]]" "writable reader {0, 1} (table_db f c) [] 1 1"
    using table_db_ready by blast
  note v = table_db_txn [of f c] and p = demo_record_picked [of demo_record demo_doubles reader "table_db f c"]
  have pk: "picked demo_doubles reader (table_db f c) sch None demo_record" "testable demo_doubles reader (table_db f c) sch None demo_record" for sch
    using p demo_record_facts(1,2) by simp_all
  have u: "xd_table_name demo_delete = ''users''" "xd_schema demo_delete = []" "\<not> xd_done demo_delete" "xd_count demo_delete = 0" "xd_filter demo_delete = None"
    by (simp_all add: demo_delete_def)
  obtain xd1 d1 xd2 e rss' where e: "XD_Open 9 demo_delete (table_db f c) = (Inr xd1, d1)" "XD_Next demo_doubles 9 reader xd1 d1 = (Inr xd2, e)" "xd_count xd2 = 1"
    "chain (db_bm e) [1] rss'" "map length rss' = [1]" "list_all2 (\<lambda>r. row_outcome reader {0, 1} (db_bm e) (picked demo_doubles reader (table_db f c) (TE_GetSchema demo_entry) None r) r) [demo_record] (concat rss')"
    using delete_marks_matching_rows [OF t(1) _ demo_begins v(1) _ _ v(2,3), where ctx = reader and logs = "[]" and D = demo_doubles and xd = demo_delete and fuel = 9] t(2) u pk demo_record_facts(2) by (auto simp: Let_def simp del: chain.simps)
  then obtain r' where r': "rss' = [[r']]" by (auto simp: map_eq_Cons_conv length_Suc_conv)
  then obtain ptr where "r' = deleted_row reader ptr demo_record" "version_at (db_bm e) ptr demo_record" using e(6) pk(1) by (auto simp: row_outcome_def)
  then show ?thesis using e(1-4) r' by blast
qed

lemma delete_then_scan_witness:
  "\<exists>d xd1 d1 xd2 e sq e1 e2. XD_Open 9 demo_delete d = (Inr xd1, d1) \<and> XD_Next demo_doubles 9 reader xd1 d1 = (Inr xd2, e) \<and>
     SS_Open 9 (ExecutorSeqScan_new ''users'') e = (Inr sq, e1) \<and> scan_all 9 9 reader sq e1 = (Inr [], e2)"
proof -
  obtain f c where t: "table_at (table_db f c) ''users'' 7 demo_entry [users_item] [1] [[demo_record]]" "writable reader {0, 1} (table_db f c) [] 1 1"
    using table_db_ready by blast
  note v = table_db_txn [of f c] and p = demo_record_picked [of demo_record demo_doubles reader "table_db f c"]
  have pk: "picked demo_doubles reader (table_db f c) sch None demo_record" "testable demo_doubles reader (table_db f c) sch None demo_record" for sch
    using p demo_record_facts(1,2) by simp_all
  have u: "xd_table_name demo_delete = ''users''" "xd_schema demo_delete = []" "\<not> xd_done demo_delete" "xd_filter demo_delete = None"
    by (simp_all add: demo_delete_def)
  have see: "sees_trx reader (table_db f c) 1" "sees_trx reader (table_db f c) 0" "has_view reader (table_db f c)"
    using v(3,4) by (simp_all add: sees_trx_def has_view_def ctx_transaction_def)
  then have r: "list_all2 (row_sees_outside {0, 1} reader (table_db f c) 1) [demo_record] [Some demo_record]"
    using demo_record_facts(1,2) by (auto simp: row_sees_outside_def intro!: sees_now)
  obtain xd1 d1 xd2 e sq e1 ts e2 where e: "XD_Open 9 demo_delete (table_db f c) = (Inr xd1, d1)" "XD_Next demo_doubles 9 reader xd1 d1 = (Inr xd2, e)"
    "SS_Open 9 (ExecutorSeqScan_new ''users'') e = (Inr sq, e1)" "scan_all 9 9 reader sq e1 = (Inr ts, e2)" "map t_data ts = []"
    using delete_then_scan [OF t(1) _ demo_begins v(1) _ _ v(2,3), where ctx = reader and logs = "[]" and D = demo_doubles and xd = demo_delete and fuel = 9
        and rd = reader and k = 1 and xs = "[Some demo_record]"] t(2) u pk demo_record_facts(2) see r
    by (auto simp: Let_def)
  have "ts = []" using e(5) by simp
  then show ?thesis using e(1-4) by blast
qed

end
