(* ===== verification/Restart.thy ===== *)
theory Restart
  imports Session Delete_Rows
begin

text \<open>
  Starting a server on the files of an earlier run (\<^verbatim>\<open>YourSQLTerminal\<close> in \<^verbatim>\<open>main.cpp\<close>, \<^verbatim>\<open>Recover\<close> in \<^verbatim>\<open>transaction/recovery_manager.cpp\<close>).  Shown: what had
  committed before a crash is committed after recovery, whether the redo phase returns or throws; the redo phase returns and changes no page when the pages in
  the file are not behind the log; and the restarted server answers every statement on a table with the error that the table does not exist.
\<close>

section \<open>Visiting a page of the file\<close>

text \<open>
  \<open>serves b\<close>: the stream can be read, a frame is free, and no page in the pool holds bytes that a release would drop.  Nothing is said of the counter
  of page ids, which starts at 1 with every process.
\<close>

definition serves :: "BufferManager \<Rightarrow> bool" where
  "serves b \<longleftrightarrow> bm_inv b \<and> ready (bm_disk b) \<and> bm_free b \<noteq> [] \<and> (\<forall>q. backed b q)"

lemma fetch_serves:
  assumes s: "serves b" and addr: "addressable p" and x: "page_content b p = Some x"
  obtains f c where "BM_FetchPage p b = (Inr f, c)" "held p f c" "fdata f c = x" "ready (bm_disk c)" "\<forall>q. backed c q"
    "pin_count (bm_lru c) f = 1 \<or> bm_free c \<noteq> []" "\<forall>q d. page_content b q = Some d \<longrightarrow> page_content c q = Some d"
proof (cases "bm_pages b p")
  case None
  let ?f = "last (bm_free b)" and ?c = "loaded p (last (bm_free b)) b"
  note S = s [unfolded serves_def]
  have inv: "bm_inv b" and rdy: "ready (bm_disk b)" and free: "bm_free b \<noteq> []" using S by simp_all
  have st: "stored (bm_disk b) p = Some x" using x None by (simp add: page_content_def)
  have run: "BM_FetchPage p b = (Inr ?f, ?c)" by (rule BM_FetchPage_load [OF inv None free])
  note pc = page_content_fetched [OF inv addr rdy x run]
  note ld = loaded_ready [OF inv free None addr rdy st]
  have one: "pin_count (bm_lru ?c) ?f = 1" "bm_disk ?c = bm_disk b"
    unfolding ld using last_free(3) [OF inv free] by (simp_all add: frame_simps)
  have lf: "?f < length (bm_frames b)" using last_free(1) [OF inv free] bm_invD(3) [OF inv] by simp
  have ne: "g \<noteq> ?f" if "bm_pages b q = Some g" for q g using last_free(4) [OF inv free] that by (auto simp: ran_def)
  have "backed ?c q" for q
  proof (cases "q = p")
    case True
    then show ?thesis using pc st one(2) by (simp add: backed_def)
  next
    case False
    have "backed b q" using S by blast
    then show ?thesis using False ne [of q] lf unfolding ld by (auto simp: backed_def frame_simps split: option.splits)
  qed
  moreover have "held p ?f ?c" using bm_inv_loaded [OF inv free None addr] pc by (simp add: held_def)
  ultimately show ?thesis using that [OF run] pc one rdy by (simp add: fdata_def)
next
  case (Some f)
  note S = s [unfolded serves_def]
  have inv: "bm_inv b" and rdy: "ready (bm_disk b)" and free: "bm_free b \<noteq> []" using S by simp_all
  have run: "BM_FetchPage p b = (Inr f, pin_frame f b)" by (rule BM_FetchPage_mapped [OF inv Some])
  note pc = page_content_fetched [OF inv addr rdy x run]
  have "held p f (pin_frame f b)" using bm_inv_pin_mapped [OF inv Some] Some by (simp add: held_def frame_simps)
  moreover have "backed (pin_frame f b) q" for q
  proof -
    have "backed b q" using S by blast
    then show ?thesis by (simp add: backed_def frame_simps split: option.splits)
  qed
  ultimately show ?thesis using that [OF run] pc rdy free by (simp add: fdata_def frame_simps)
qed

lemma release_serves:
  assumes h: "held p f c" and rdy: "ready (bm_disk c)" and bk: "\<forall>q. backed c q" and free: "pin_count (bm_lru c) f = 1 \<or> bm_free c \<noteq> []"
  shows "BM_Release p c = (Inr (), released p f c)" "serves (released p f c)"
    "page_content c q = Some d \<Longrightarrow> page_content (released p f c) q = Some d"
proof -
  note hd = heldD [OF h]
  show "BM_Release p c = (Inr (), released p f c)" by (rule BM_Release_run [OF hd(7,2)])
  show "page_content c q = Some d \<Longrightarrow> page_content (released p f c) q = Some d"
    using page_content_released [OF hd(1,2)] bk by blast
  have "ready (bm_disk (cleaned f c))"
    using rdy stored_wrote_same(2) [of c f] hd bm_invD(4) [OF hd(1,3)] by (simp add: cleaned_def frame_simps)
  moreover have "backed (released p f c) q" for q using backed_released_all [OF hd(1,2)] bk by blast
  ultimately show "serves (released p f c)"
    using bm_inv_released [OF hd(1,2)] free by (auto simp: serves_def released_disk released_free)
qed

section \<open>Redo\<close>

text \<open>
  A record that redo has nothing to do for: it is no row change, it names no page, or its page is in the file or the pool, is a table page, and carries an LSN
  not below that of the record.  The executors stamp a changed page with the LSN of its record before they write the page to the file.
\<close>

definition up_to_date :: "BufferManager \<Rightarrow> RecoveredLog \<Rightarrow> bool" where
  "up_to_date b r \<longleftrightarrow> (is_row_change (rl_type r) \<longrightarrow> (case LogDataPayload_Decode (rl_payload r) of Inl e \<Rightarrow> False
     | Inr p \<Rightarrow> lp_page p = INVALID_PAGE_ID \<or> addressable (lp_page p) \<and>
         (\<exists>x tp rs. page_content b (lp_page p) = Some x \<and> page_layout tp rs x \<and> rl_lsn r \<le> tp_lsn tp)))"

lemma up_to_date_kept:
  assumes "up_to_date b r" "\<forall>q x. page_content b q = Some x \<longrightarrow> page_content c q = Some x"
  shows "up_to_date c r"
  using assms unfolding up_to_date_def by (fastforce split: sum.splits)

lemma redo_record_skips:
  assumes s: "serves (db_bm d)" and u: "up_to_date (db_bm d) r"
  obtains b where "redo_record r d = (Inr (), with_bm b d)" "serves b" "\<forall>q x. page_content (db_bm d) q = Some x \<longrightarrow> page_content b q = Some x"
proof (cases "is_row_change (rl_type r)")
  case False
  then show ?thesis using that [of "db_bm d"] s by (simp add: redo_record_def comp_simps)
next
  case True
  then obtain pl where pl: "LogDataPayload_Decode (rl_payload r) = Inr pl" using u by (auto simp: up_to_date_def split: sum.splits)
  let ?p = "lp_page pl"
  show ?thesis
  proof (cases "?p = INVALID_PAGE_ID")
    case z: True
    then show ?thesis using that [of "db_bm d"] s True pl by (simp add: redo_record_def comp_simps)
  next
    case p: False
    obtain x tq rs where x: "page_content (db_bm d) ?p = Some x" "page_layout tq rs x" "rl_lsn r \<le> tp_lsn tq" "addressable ?p"
      using u True pl p by (auto simp: up_to_date_def)
    obtain f c where c: "BM_FetchPage ?p (db_bm d) = (Inr f, c)" "held ?p f c" "fdata f c = x" "ready (bm_disk c)" "\<forall>q. backed c q"
      "pin_count (bm_lru c) f = 1 \<or> bm_free c \<noteq> []" "\<forall>q d'. page_content (db_bm d) q = Some d' \<longrightarrow> page_content c q = Some d'"
      by (rule fetch_serves [OF s x(4,1)])
    note rel = release_serves [OF c(2,4,5,6)]
    let ?tp = "tq\<lparr>tp_frame := f, tp_table := lp_table pl\<rparr>" and ?s = "db_store (with_bm c d)" and ?b = "released ?p f c"
    have "TablePage_new (lp_table pl) f True ?s = (Inr ?tp, ?s)"
      using TablePage_open_run [of ?p ?tp ?s rs] c(2,3) x(2) by (simp add: page_layout_place)
    moreover have old: "(tp_lsn tq < rl_lsn r) = False" using x(3) by simp
    ultimately have "redo_page r pl f (with_bm c d) = (Inr (), with_bm ?b d)"
      using rel(1) heldD(6) [OF c(2)]
      by (simp add: old redo_page_def in_store_def in_pool_def release_page_def page_id_of_def on_cond_def comp_simps)
    then have "redo_record r d = (Inr (), with_bm ?b d)"
      using True pl p c(1) by (simp add: redo_record_def try_fetch_def in_store_def in_pool_def comp_simps)
    then show ?thesis using that rel(2,3) c(7) by blast
  qed
qed

lemma Redo_skips:
  assumes "serves (db_bm d)" "\<forall>r \<in> set logs. up_to_date (db_bm d) r"
  shows "\<exists>b. Redo logs d = (Inr (), with_bm b d) \<and> serves b \<and> (\<forall>q x. page_content (db_bm d) q = Some x \<longrightarrow> page_content b q = Some x)"
  using assms
proof (induction logs arbitrary: d)
  case Nil
  then show ?case by (intro exI [of _ "db_bm d"]) (simp add: Redo_def comp_simps)
next
  case (Cons r logs)
  have "up_to_date (db_bm d) r" using Cons.prems(2) by simp
  then obtain b where b: "redo_record r d = (Inr (), with_bm b d)" "serves b" "\<forall>q x. page_content (db_bm d) q = Some x \<longrightarrow> page_content b q = Some x"
    by (rule redo_record_skips [OF Cons.prems(1)])
  have "\<forall>r \<in> set logs. up_to_date b r" using Cons.prems(2) up_to_date_kept b(3) by auto
  then obtain c where c: "Redo logs (with_bm b d) = (Inr (), with_bm c (with_bm b d))" "serves c" "\<forall>q x. page_content b q = Some x \<longrightarrow> page_content c q = Some x"
    using Cons.IH [of "with_bm b d"] b(2) by auto
  have "Redo (r # logs) d = (Inr (), with_bm c d)" using b(1) c(1) by (simp add: Redo_def comp_simps)
  then show ?case using b(3) c(2,3) by blast
qed

section \<open>Recovery\<close>

lemma Recover_state:
  assumes "outcome (ReadLog disk) i = Some COMMITTED" "i \<noteq> INVALID_TX_ID" "Recover disk d = (r, e)"
  shows "TM_IsCommitted (db_txn e) i"
proof -
  let ?logs = "ReadLog disk" and ?d = "d\<lparr>db_txn := Analysis (ReadLog disk) (db_txn d)\<rparr>"
  have "?logs \<noteq> []" using assms(1) by (auto simp: outcome_def)
  moreover obtain x f where x: "Redo ?logs ?d = (x, f)" by fastforce
  ultimately have "e = f" using assms(3) by (cases x) (auto simp: Recover_def Let_def on_txn_def comp_simps)
  then have "tm_state (db_txn e) = tm_state (Analysis ?logs (db_txn d))" using steadyD [OF steady_Redo x] by (simp add: tm_alike_def)
  then show ?thesis using assms(1,2) by (simp add: TM_IsCommitted_def Analysis_state)
qed

lemma Recover_returns:
  assumes "serves (db_bm d)" "\<forall>r \<in> set (ReadLog disk). up_to_date (db_bm d) r"
  shows "\<exists>e. Recover disk d = (Inr (length (ReadLog disk)), e) \<and> (\<forall>q x. page_content (db_bm d) q = Some x \<longrightarrow> page_content (db_bm e) q = Some x)"
proof (cases "ReadLog disk = []")
  case True
  then show ?thesis by (intro exI [of _ d]) (simp add: Recover_def comp_simps)
next
  case False
  let ?d = "d\<lparr>db_txn := Analysis (ReadLog disk) (db_txn d)\<rparr>"
  obtain b where "Redo (ReadLog disk) ?d = (Inr (), with_bm b ?d)" "\<forall>q x. page_content (db_bm d) q = Some x \<longrightarrow> page_content b q = Some x"
    using Redo_skips [of ?d "ReadLog disk"] assms by auto
  then show ?thesis using False by (intro exI [of _ "with_bm b ?d"]) (simp add: Recover_def Let_def on_txn_def comp_simps)
qed

text \<open>A server starts on a page file whose row changes are not behind the log.\<close>

definition fresh_pool :: "bytes \<Rightarrow> bytes \<Rightarrow> BufferManager" where
  "fresh_pool pages junk = BufferManager_new (PosixDiskManager_new pages) 1 junk"

lemma fresh_serves:
  assumes "length junk = PAGE_SIZE" "ready (PosixDiskManager_new pages)"
  shows "serves (fresh_pool pages junk)"
proof -
  have "bm_inv (fresh_pool pages junk)"
    unfolding fresh_pool_def by (rule bm_inv_new [OF _ assms(1)]) (simp add: PosixDiskManager_new_def)
  moreover have "backed (fresh_pool pages junk) q" for q by (simp add: fresh_pool_def BufferManager_new_def backed_def)
  ultimately show ?thesis using assms(2) by (simp add: serves_def) (simp add: fresh_pool_def BufferManager_new_def)
qed

lemma terminal_starts:
  assumes "length junk = PAGE_SIZE" "ready (PosixDiskManager_new pages)" "stored (PosixDiskManager_new pages) META_PAGE_ID = Some x"
    and "\<forall>r \<in> set (ReadLog (LogDiskManager_new wal)). up_to_date (fresh_pool pages junk) r"
  obtains t where "YourSQLTerminal_new pages wal junk = Inr t"
proof -
  let ?b = "fresh_pool pages junk"
  let ?f = "last (bm_free ?b)" and ?c = "loaded 0 (last (bm_free ?b)) (fresh_pool pages junk)"
  have s: "serves ?b" by (rule fresh_serves [OF assms(1,2)])
  then have b: "bm_inv ?b" "bm_free ?b \<noteq> []" "ready (bm_disk ?b)" by (simp_all add: serves_def)
  have none: "bm_pages ?b 0 = None" and n: "length (bm_free ?b) = 128" and d: "bm_disk ?b = PosixDiskManager_new pages"
    by (simp_all add: fresh_pool_def BufferManager_new_def)
  have a: "addressable 0" by (simp add: addressable_def)
  have x: "page_content ?b 0 = Some x" using assms(3) none d by (simp add: page_content_def)
  have run: "BM_FetchPage 0 ?b = (Inr ?f, ?c)" by (rule BM_FetchPage_load [OF b(1) none b(2)])
  obtain f c where c: "BM_FetchPage 0 ?b = (Inr f, c)" "held 0 f c" "ready (bm_disk c)" "\<forall>q. backed c q"
    "\<forall>q d'. page_content ?b q = Some d' \<longrightarrow> page_content c q = Some d'" by (rule fetch_serves [OF s a x]) blast
  have "bm_free ?c = butlast (bm_free ?b)"
    using loaded_ready [OF b(1,2) none a b(3), of x] x none by (simp add: page_content_def frame_simps)
  moreover have "butlast (bm_free ?b) \<noteq> []" unfolding length_0_conv [symmetric] length_butlast n by simp
  moreover have "c = ?c" using trans [OF c(1) [symmetric] run] by (elim Pair_inject)
  ultimately have "bm_free c \<noteq> []" by metis
  then have "serves c" using c(3,4) heldD(1) [OF c(2)] by (simp add: serves_def)
  moreover have "\<forall>r \<in> set (ReadLog (LogDiskManager_new wal)). up_to_date c r" using assms(4) up_to_date_kept c(5) by blast
  moreover obtain m where "MetaPage_new ?b = Inr \<lparr>st_bm = c, st_meta = m\<rparr>" using c(1) by (simp add: MetaPage_new_def)
  ultimately show ?thesis
    using that Recover_returns [of "\<lparr>db_store = \<lparr>st_bm = c, st_meta = m\<rparr>, db_undo_page = INVALID_PAGE_ID, db_log = LogManager_new (LogBuffer_new LOG_BUFFER_SIZE (LogDiskManager_new wal)),
      db_txn = TM_SetStorage TransactionManager_new, db_catalog = Catalog_new\<rparr>" "LogDiskManager_new wal"]
    by (auto simp: YourSQLTerminal_new_def Let_def fresh_pool_def)
qed

text \<open>C13.
  Durability across a crash and a restart: let a transaction commit, let the server go on appending records (none of which is a control record of that transaction), and let the
  log file be cut at any byte at or behind the end of the commit record.  Then \<open>Recover\<close>, run on what is left by a server in any state, leaves a transaction manager
  that has the transaction as committed, whether it returns or the redo phase throws; it does return, with the number of records read, and changes no page, when the pages of the
  row changes in the log are not behind the log; and a terminal that starts on any page file and this log has the transaction as committed.
\<close>

theorem commit_survives_crash:
  assumes "db_log_holds d rs" "tm_log (db_txn d)" "i \<in> set (tm_active (db_txn d))" "i \<noteq> INVALID_TX_ID"
    and "TM_Commit i d = (Inr (), d')"
    and "list_all small_payload qs" "\<forall>r \<in> set qs. \<not> is_control i r"
    and "crashed = durable_log d' @ take n (concat (map encode_record qs))"
  shows "TM_IsCommitted (db_txn (snd (Recover (LogDiskManager_new crashed) d0))) i \<and>
    (serves (db_bm d0) \<and> (\<forall>r \<in> set (rs @ qs). up_to_date (db_bm d0) r) \<longrightarrow>
      (\<exists>k e. Recover (LogDiskManager_new crashed) d0 = (Inr k, e) \<and> length rs < k \<and> k \<le> Suc (length rs + length qs) \<and>
        (\<forall>q x. page_content (db_bm d0) q = Some x \<longrightarrow> page_content (db_bm e) q = Some x))) \<and>
    (YourSQLTerminal_new pages crashed junk = Inr t \<longrightarrow> TM_IsCommitted (db_txn (yt_db t)) i)"
proof -
  let ?disk = "LogDiskManager_new crashed"
  let ?r = "recovered (lm_next_lsn (db_log d)) (control i LR_COMMIT)"
  obtain k where k: "ReadLog ?disk = rs @ ?r # take k qs" "outcome (ReadLog ?disk) i = Some COMMITTED"
    by (rule cut_behind_commit [OF assms(1-3,5-8)])
  have st: "TM_IsCommitted (db_txn (snd (Recover ?disk d1))) i" for d1
    using Recover_state [OF k(2) assms(4), of d1] by (cases "Recover ?disk d1") simp
  moreover have "\<exists>k e. Recover ?disk d0 = (Inr k, e) \<and> length rs < k \<and> k \<le> Suc (length rs + length qs) \<and>
        (\<forall>q x. page_content (db_bm d0) q = Some x \<longrightarrow> page_content (db_bm e) q = Some x)"
    if "serves (db_bm d0)" "\<forall>r \<in> set (rs @ qs). up_to_date (db_bm d0) r"
  proof -
    have "up_to_date (db_bm d0) ?r" by (simp add: up_to_date_def recovered_def control_def is_row_change_def)
    then have "\<forall>r \<in> set (ReadLog ?disk). up_to_date (db_bm d0) r" using that(2) k(1) by (auto dest: in_set_takeD)
    from Recover_returns [OF that(1) this] show ?thesis by (auto simp: k(1))
  qed
  moreover have "TM_IsCommitted (db_txn (yt_db t)) i" if new: "YourSQLTerminal_new pages crashed junk = Inr t"
  proof -
    obtain d1 m e where "Recover ?disk d1 = (Inr m, e)" "db_txn (yt_db t) = TM_SetLogManager (db_txn e)"
      using new by (auto simp: YourSQLTerminal_new_def Let_def split: sum.splits prod.splits)
    then show ?thesis using st [of d1] by (simp add: TM_SetLogManager_def TM_IsCommitted_def)
  qed
  ultimately show ?thesis by blast
qed

text \<open>
  The witness: transaction 1 commits, the log goes on with an inserted row and a commit of transaction 2 and is cut within the latter; page 1 of the file carries the LSN of the insertion.
\<close>

definition stamped_file :: bytes where
  "stamped_file = replicate 4096 0 @ poke 0 (tp_header \<lparr>tp_table = 1, tp_frame = 0, tp_version = 0, tp_num_rows = 0, tp_page_id = 1, tp_next = 0,
     tp_lsn = 2, tp_free = 4064\<rparr>) (replicate 4096 0)"

definition later_records :: "RecoveredLog list" where
  "later_records = [\<lparr>rl_lsn = 2, rl_tx_id = 2, rl_type = LogRecordType_code LR_INSERT_ROW,
     rl_payload = LogDataPayload_Encode \<lparr>lp_table = 7, lp_page = 1, lp_row = 1, lp_image = []\<rparr>\<rparr>, recovered 3 (control 2 LR_COMMIT)]"

lemma stamped_file_ready:
  "ready (PosixDiskManager_new stamped_file)" "stored (PosixDiskManager_new stamped_file) 0 = Some (replicate 4096 0)"
  by (simp_all add: stamped_file_def PosixDiskManager_new_def ready_def stored_def peek_def)

lemma later_records_facts:
  "list_all small_payload later_records" "\<forall>r \<in> set later_records. \<not> is_control 1 r"
  "\<forall>r \<in> set later_records. up_to_date (fresh_pool stamped_file (replicate 4096 0)) r"
proof -
  show "list_all small_payload later_records" "\<forall>r \<in> set later_records. \<not> is_control 1 r"
    by (simp_all add: later_records_def small_payload_def LogDataPayload_Encode_def is_control_def recovered_def control_def payload_of_def)
  let ?tp = "\<lparr>tp_table = 1, tp_frame = 0, tp_version = 0, tp_num_rows = 0, tp_page_id = 1, tp_next = 0, tp_lsn = 2, tp_free = 4064\<rparr>"
  let ?x = "poke 0 (tp_header ?tp) (replicate 4096 0)"
  have "page_content (fresh_pool stamped_file (replicate 4096 0)) 1 = Some ?x"
    by (simp add: fresh_pool_def stamped_file_def BufferManager_new_def PosixDiskManager_new_def page_content_def stored_def peek_def)
  moreover have "page_layout ?tp [] ?x" by (simp add: page_layout_def holds_at_poke_same)
  moreover have "LogDataPayload_Decode (LogDataPayload_Encode \<lparr>lp_table = 7, lp_page = 1, lp_row = 1, lp_image = []\<rparr>) = Inr \<lparr>lp_table = 7, lp_page = 1, lp_row = 1, lp_image = []\<rparr>"
    by (rule log_payload_roundtrip) simp
  ultimately show "\<forall>r \<in> set later_records. up_to_date (fresh_pool stamped_file (replicate 4096 0)) r"
    by (auto simp: later_records_def up_to_date_def addressable_def is_row_change_def recovered_def control_def intro: exI [of _ ?tp])
qed

theorem commit_survives_crash_witness:
  "\<exists>d' k e t. TM_Commit 1 demo_db = (Inr (), d') \<and>
     Recover (LogDiskManager_new (durable_log d' @ take 60 (concat (map encode_record later_records))))
       (demo_db\<lparr>db_store := \<lparr>st_bm = fresh_pool stamped_file (replicate 4096 0), st_meta = st_meta (db_store demo_db)\<rparr>\<rparr>) = (Inr k, e) \<and>
     1 \<le> k \<and> TM_IsCommitted (db_txn e) 1 \<and>
     YourSQLTerminal_new stamped_file (durable_log d' @ take 60 (concat (map encode_record later_records))) (replicate 4096 0) = Inr t \<and>
     TM_IsCommitted (db_txn (yt_db t)) 1"
proof -
  have act: "1 \<in> set (tm_active (db_txn demo_db))" "(1 :: tx_id_t) \<noteq> INVALID_TX_ID" using demo_db_log(3) by simp_all
  note fx = later_records_facts and dl = demo_db_log(1,2) and sf = stamped_file_ready
  obtain d' where d': "TM_Commit 1 demo_db = (Inr (), d')" by (rule TM_Commit_run [OF dl act(1)])
  let ?b = "fresh_pool stamped_file (replicate 4096 0)"
  let ?w = "durable_log d' @ take 60 (concat (map encode_record later_records))"
    and ?d = "demo_db\<lparr>db_store := \<lparr>st_bm = ?b, st_meta = st_meta (db_store demo_db)\<rparr>\<rparr>"
  obtain k where k: "ReadLog (LogDiskManager_new ?w) = [] @ recovered (lm_next_lsn (db_log demo_db)) (control 1 LR_COMMIT) # take k later_records"
    by (rule cut_behind_commit [OF dl act(1) d' fx(1,2) refl])
  have "up_to_date ?b (recovered n (control 1 LR_COMMIT))" for n by (simp add: up_to_date_def recovered_def control_def is_row_change_def)
  then have "\<forall>r \<in> set (ReadLog (LogDiskManager_new ?w)). up_to_date ?b r" using k fx(3) by (auto dest: in_set_takeD)
  then obtain t where t: "YourSQLTerminal_new stamped_file ?w (replicate 4096 0) = Inr t"
    using terminal_starts [OF _ sf, of "replicate 4096 0" ?w] by auto
  have "serves (db_bm ?d)" using fresh_serves [OF _ sf(1), of "replicate 4096 0"] by simp
  with commit_survives_crash [OF dl act d' fx(1,2) refl, of 60 ?d stamped_file "replicate 4096 0" t] t fx(3) d' show ?thesis by fastforce
qed

section \<open>The tables of the file\<close>

text \<open>
  The error that reports the table of a statement as unknown.  A \<^verbatim>\<open>SELECT\<close> of several items looks the first one up as a column of the table; an item that is no column, and a
  missing \<^verbatim>\<open>FROM\<close>, is a null pointer before any table is looked up, an \<^verbatim>\<open>INSERT\<close> enters the name it does not find, and the other statements look no table up.
\<close>

fun unknown_table_error :: "BaseStatement \<Rightarrow> err option" where
  "unknown_table_error (SelectStatement es (Some t) w) =
     (case es of e # e' # es' \<Rightarrow> (case e of EColumn n al \<Rightarrow> Some no_table | _ \<Rightarrow> None) | _ \<Rightarrow> Some no_table)"
| "unknown_table_error (DeleteStatement t w) = Some (RuntimeError ''Binder::BoundDeleteStatement table not found'')"
| "unknown_table_error (UpdateStatement t ss w) = Some (RuntimeError ''Binder::BoundUpdateStatement table not found'')"
| "unknown_table_error _ = None"

definition reads_unknown :: "(string \<Rightarrow> hStatement list option) \<Rightarrow> string \<Rightarrow> err \<Rightarrow> bool" where
  "reads_unknown parse l e \<longleftrightarrow> Trim l \<notin> {[], ''exit'', ''quit'', ''help'', ''?''} \<and>
     (case ParserSQL parse (Trim l) of Inr (s # ss) \<Rightarrow> unknown_table_error s = Some e | _ \<Rightarrow> False)"

lemma Bind_unknown:
  assumes "cat_names c = []" "unknown_table_error s = Some e"
  shows "Bind s c = (Inl e, c)"
  using assms
  by (cases s rule: unknown_table_error.cases)
    (auto simp: BoundSelect_def bound_select_list_def BoundStarExpression_def BoundTableRefExpression_def BoundColumnRefExpression_def column_name_of_def
      BoundDelete_def BoundUpdate_def comp_simps split: list.splits BaseExpression.splits)

lemma unknown_is_exception: "unknown_table_error s = Some e \<Longrightarrow> is_exception e"
  by (cases s rule: unknown_table_error.cases) (auto simp: is_exception_def split: list.splits BaseExpression.splits)

lemma ExecuteSQL_unknown:
  assumes "cat_names (db_catalog (yt_db t)) = []" "reads_unknown parse l e"
  shows "ExecuteSQL D fuel parse (Trim l) t = (Inl e, t)" "is_exception e"
proof -
  obtain s ss where s: "ParserSQL parse (Trim l) = Inr (s # ss)" "unknown_table_error s = Some e"
    using assms(2) by (auto simp: reads_unknown_def split: sum.splits list.splits)
  have "in_db (in_catalog (Bind s)) t = (Inl e, t)" using Bind_unknown [OF assms(1) s(2)] by (simp add: in_db_def in_catalog_def zoom_def)
  then show "ExecuteSQL D fuel parse (Trim l) t = (Inl e, t)" using s by (cases s) (auto simp: ExecuteSQL_def comp_simps)
  show "is_exception e" by (rule unknown_is_exception [OF s(2)])
qed

text \<open>
  C38. A restart forgets the tables: whatever the page file and the log hold, every list of lines entered first, each of which is read as a \<^verbatim>\<open>SELECT\<close> of the rows or of columns
  of a table, a \<^verbatim>\<open>DELETE\<close> or an \<^verbatim>\<open>UPDATE\<close>, with any condition the parser accepts, is answered line by line with the error that the table does not exist, and the
  server stays as it was.  The terminal starts with an empty catalog and never reads the catalog page; the witness runs on a file whose catalog page holds the table that is asked for.
\<close>

theorem restart_forgets_tables:
  assumes "YourSQLTerminal_new pages wal junk = Inr t" "list_all2 (reads_unknown parse) ls es"
  shows "Run D fuel parse ls t = (Inr (map R_Error es, False), t)"
proof -
  have c: "cat_names (db_catalog (yt_db t)) = []" using YourSQLTerminal_new_start(2) [OF assms(1)] by (simp add: Catalog_new_def)
  show ?thesis using assms(2)
  proof (induction ls es rule: list_all2_induct)
    case (Cons l ls e es)
    note x = ExecuteSQL_unknown(1) [OF c Cons.hyps(1), of D fuel] ExecuteSQL_unknown(2) [OF c Cons.hyps(1)]
    have "Trim l \<notin> {[], ''exit'', ''quit'', ''help'', ''?''}" using Cons.hyps(1) by (simp add: reads_unknown_def)
    then show ?case using Cons.IH x by (simp add: try_catch_def comp_simps)
  qed (simp add: comp_simps)
qed

text \<open>A server on a file with the catalog of one table, \<^verbatim>\<open>users\<close>, and an empty log.\<close>

definition star_item :: hExpr where
  "star_item = HExpr kExprStar None None 0 0 kOpNone None None"

definition users_parser :: "string \<Rightarrow> hStatement list option" where
  "users_parser sql = (if sql = ''SELECT * FROM users;'' then Some [kStmtSelect [star_item] (Some (kTableName (Some ''users''))) None]
     else if sql = ''DELETE FROM users;'' then Some [kStmtDelete (Some ''users'') None] else None)"

lemma users_started:
  obtains t u where "YourSQLTerminal_new table_file [] (replicate 4096 0) = Inr t" "MP_ReadMata (db_store (yt_db t)) = (Inr (), u)"
    "mp_name_tables (st_meta u) ''users'' = Some 1"
proof -
  let ?j = "replicate 4096 0 :: bytes" and ?disk = "PosixDiskManager_new table_file"
  let ?x = "poke 0 (header_words 0 [users_item] @ items_bytes [users_item]) (replicate 4096 0)"
  let ?b = "fresh_pool table_file ?j"
  have d: "bm_disk table_pool = ?disk" "bm_pages table_pool = (\<lambda>_. None)" by (simp_all add: table_pool_def BufferManager_new_def)
  have rdy: "ready ?disk" using table_pool_facts(1) d by (simp add: pool_ok_def)
  have st: "stored ?disk 0 = Some ?x" using table_pool_facts(5) d by (simp add: page_content_def)
  have log: "ReadLog (LogDiskManager_new []) = []" by (rule ReadLog_records) (simp_all add: LogDiskManager_new_def)
  have b: "bm_inv ?b" "bm_pages ?b 0 = None" "bm_free ?b \<noteq> []" "bm_disk ?b = ?disk"
    using fresh_serves [OF _ rdy, of ?j] by (simp_all add: serves_def) (simp_all add: fresh_pool_def BufferManager_new_def)
  obtain s where s: "MetaPage_new ?b = Inr s" "store_ok s" "no_tables (st_meta s)" "mdata s = ?x"
    by (rule MetaPage_new_ok [OF b(1,2,3)]) (use b(4) rdy st in simp_all)
  have t: "\<exists>t. YourSQLTerminal_new table_file [] ?j = Inr t \<and> db_store (yt_db t) = s"
    using s(1) log by (simp add: YourSQLTerminal_new_def fresh_pool_def Recover_def Let_def ret_def)
  have "page_rep 0 [users_item] ?x"
    unfolding page_rep_def
  proof (intro conjI)
    show "holds_at 0 (header_words 0 [users_item] @ items_bytes [users_item]) ?x" by (rule holds_at_poke_same) (use users_item_size in simp)
  qed (use users_item_size in simp, simp add: users_item_def)
  from ReadMata_run [OF s(2), of 0 "[users_item]"] this s(4)
  have "MP_ReadMata s = (Inr (), s\<lparr>st_meta := (remember_item users_item (st_meta s))\<lparr>mp_version := 0, mp_table_size := 1,
     mp_last_point := word_of_nat (24 + length (items_bytes [users_item]))\<rparr>\<rparr>)" by simp
  then show ?thesis using t that by (auto simp: remember_item_def users_item_def)
qed

theorem restart_forgets_tables_witness:
  "\<exists>t u. YourSQLTerminal_new table_file [] (replicate 4096 0) = Inr t \<and>
    Run demo_doubles 9 users_parser ['' SELECT * FROM users;'', ''DELETE FROM users;''] t =
      (Inr ([R_Error no_table, R_Error (RuntimeError ''Binder::BoundDeleteStatement table not found'')], False), t) \<and>
    MP_ReadMata (db_store (yt_db t)) = (Inr (), u) \<and> mp_name_tables (st_meta u) ''users'' = Some 1"
proof -
  obtain t u where t: "YourSQLTerminal_new table_file [] (replicate 4096 0) = Inr t" "MP_ReadMata (db_store (yt_db t)) = (Inr (), u)"
    "mp_name_tables (st_meta u) ''users'' = Some 1" by (rule users_started)
  have "reads_unknown users_parser '' SELECT * FROM users;'' no_table"
    by (simp add: reads_unknown_def Trim_def is_space_def ParserSQL_def users_parser_def transformSelect_def transformTableRef_def star_item_def str_or_empty_def)
  moreover have "reads_unknown users_parser ''DELETE FROM users;'' (RuntimeError ''Binder::BoundDeleteStatement table not found'')"
    by (simp add: reads_unknown_def Trim_def is_space_def ParserSQL_def users_parser_def transformDelete_def str_or_empty_def)
  ultimately have "list_all2 (reads_unknown users_parser) ['' SELECT * FROM users;'', ''DELETE FROM users;'']
      [no_table, RuntimeError ''Binder::BoundDeleteStatement table not found'']" by simp
  from restart_forgets_tables [OF t(1) this, of demo_doubles 9] show ?thesis using t by auto
qed

end
