(* ===== verification/Index_Pages.thy ===== *)
theory Index_Pages
  imports Meta_Page "HOL-Library.Multiset"
begin

text \<open>
  The pages of the B+ tree: \<^verbatim>\<open>index/index_page.cpp\<close>, \<^verbatim>\<open>index/b_plus_leaf_page.cpp\<close> and \<^verbatim>\<open>index/b_plus_internal_page.cpp\<close>.  A page object keeps a header and an
  array in memory and copies both into the bytes of its page.  The classes are templates: the key and value types are type variables, and their sizes and
  object representations are the record \<open>Elem\<close>.  Not modelled: \<^verbatim>\<open>BPlusLeafPage::ValueAt\<close>, which is ill-formed for every instance, and the index manager and its
  iterator, which reinterpret the bytes of a page as a C++ object with a \<^verbatim>\<open>std::vector\<close> in it.
  Shown: the binary search finds the first position that is not smaller; inserting keeps the array sorted and the page an image of it;
  the number of entries a page object reports is 0 forever, so that nothing that was inserted is found or removed; and an internal page stays empty.
\<close>

section \<open>Header\<close>

datatype IndexPageType = IPT_INVALID | IPT_INTERVAL | IPT_LEAF

fun IndexPageType_code :: "IndexPageType \<Rightarrow> u8" where
  "IndexPageType_code IPT_INVALID = 0"
| "IndexPageType_code IPT_INTERVAL = 1"
| "IndexPageType_code IPT_LEAF = 2"

record IndexPageHeader =
  ih_type :: IndexPageType
  ih_size :: u16
  ih_max_size :: u16
  ih_page_id :: page_id_t
  ih_parent :: page_id_t

text \<open>The padded size of the structure; the fields are written without padding.\<close>

abbreviation (input) INDEX_COMMON_HEADER_SIZE :: nat where "INDEX_COMMON_HEADER_SIZE \<equiv> 24"
abbreviation (input) LEAF_DATA_OFFSET :: nat where "LEAF_DATA_OFFSET \<equiv> 32"
abbreviation (input) INDEX_HEADER_SIZE_OFFSET :: nat where "INDEX_HEADER_SIZE_OFFSET \<equiv> 1"
abbreviation (input) INDEX_HEADER_PARENT_PAGE_ID_OFFSET :: nat where "INDEX_HEADER_PARENT_PAGE_ID_OFFSET \<equiv> 13"

definition IndexPageHeader_zero :: IndexPageHeader where
  "IndexPageHeader_zero = \<lparr>ih_type = IPT_INVALID, ih_size = 0, ih_max_size = 0, ih_page_id = 0, ih_parent = 0\<rparr>"

record IndexPage =
  ip_header :: IndexPageHeader
  ip_page :: "frame_id option"

definition IndexPage_new :: "frame_id option \<Rightarrow> IndexPage" where
  "IndexPage_new p = \<lparr>ip_header = IndexPageHeader_zero, ip_page = p\<rparr>"

text \<open>Copying into and out of \<^verbatim>\<open>page_->data_\<close>.\<close>

definition ip_write :: "nat \<Rightarrow> bytes \<Rightarrow> 'a IndexPage_scheme \<Rightarrow> (BufferManager, unit) comp" where
  "ip_write off bs p = (case ip_page p of None \<Rightarrow> throw MemoryFault | Some f \<Rightarrow> fr_write f off bs)"

definition ip_read :: "nat \<Rightarrow> nat \<Rightarrow> 'a IndexPage_scheme \<Rightarrow> (BufferManager, bytes) comp" where
  "ip_read off n p = (case ip_page p of None \<Rightarrow> throw MemoryFault | Some f \<Rightarrow> fr_read f off n)"

definition ip_dirty :: "'a IndexPage_scheme \<Rightarrow> (BufferManager, unit) comp" where
  "ip_dirty p = (case ip_page p of None \<Rightarrow> throw MemoryFault | Some f \<Rightarrow> fr_dirty f)"

definition IP_Init :: "IndexPageType \<Rightarrow> page_id_t \<Rightarrow> page_id_t \<Rightarrow> u16 \<Rightarrow> 'a IndexPage_scheme \<Rightarrow> (BufferManager, 'a IndexPage_scheme) comp" where
  "IP_Init ty pid parent mx p = (if ip_page p = None then throw (RuntimeError ''IndexPage::Init page_ is nullptr.'')
     else thn (ip_write 0 [IndexPageType_code ty] p) (thn (ip_write 1 (le_bytes 2 (0 :: u16)) p) (thn (ip_write 3 (le_bytes 2 mx) p)
       (thn (ip_write 5 (le_bytes 8 pid) p) (thn (ip_write 13 (le_bytes 8 parent) p) (thn (ip_dirty p)
       (ret (p\<lparr>ip_header := \<lparr>ih_type = ty, ih_size = 0, ih_max_size = mx, ih_page_id = pid, ih_parent = parent\<rparr>\<rparr>))))))))"

definition IP_SetParentPageId :: "page_id_t \<Rightarrow> 'a IndexPage_scheme \<Rightarrow> (BufferManager, unit) comp" where
  "IP_SetParentPageId parent p = thn (ip_write INDEX_HEADER_PARENT_PAGE_ID_OFFSET (le_bytes 8 parent) p) (ip_dirty p)"

definition IP_SetSize :: "u16 \<Rightarrow> 'a IndexPage_scheme \<Rightarrow> (BufferManager, unit) comp" where
  "IP_SetSize n p = thn (ip_write INDEX_HEADER_SIZE_OFFSET (le_bytes 2 n) p) (ip_dirty p)"

definition IP_IsLeafPage :: "'a IndexPage_scheme \<Rightarrow> bool" where
  "IP_IsLeafPage p \<longleftrightarrow> ih_type (ip_header p) = IPT_LEAF"

definition IP_GetSize :: "'a IndexPage_scheme \<Rightarrow> u16" where
  "IP_GetSize p = ih_size (ip_header p)"

text \<open>The sum is an \<^verbatim>\<open>int\<close> and is cut to 16 bits in the call.\<close>

definition IP_IncreaseSize :: "int \<Rightarrow> 'a IndexPage_scheme \<Rightarrow> (BufferManager, unit) comp" where
  "IP_IncreaseSize delta p = thn (IP_SetSize (word_of_int (uint (IP_GetSize p) + delta)) p) (ip_dirty p)"

definition IP_GetParentPageId :: "'a IndexPage_scheme \<Rightarrow> page_id_t" where
  "IP_GetParentPageId p = ih_parent (ip_header p)"

definition IP_GetPageId :: "'a IndexPage_scheme \<Rightarrow> page_id_t" where
  "IP_GetPageId p = ih_page_id (ip_header p)"

definition IP_GetMinSize :: "'a IndexPage_scheme \<Rightarrow> u16" where
  "IP_GetMinSize p = 0"

definition IP_GetMaxSize :: "'a IndexPage_scheme \<Rightarrow> u16" where
  "IP_GetMaxSize p = ih_max_size (ip_header p)"

section \<open>The binary search\<close>

text \<open>\<^verbatim>\<open>std::lower_bound\<close> on the range of \<open>len\<close> entries from \<open>first\<close>.\<close>

function lower_bound :: "('k::linorder \<times> 'v) list \<Rightarrow> 'k \<Rightarrow> nat \<Rightarrow> nat \<Rightarrow> nat" where
  "lower_bound xs k first len = (if len = 0 then first
     else (let half = len div 2; middle = first + half in
       if fst (xs ! middle) < k then lower_bound xs k (Suc middle) (len - half - 1) else lower_bound xs k first half))"
  by pat_completeness auto
termination by (relation "measure (\<lambda>(xs, k, first, len). len)") auto

declare lower_bound.simps [simp del]

section \<open>Leaf pages\<close>

text \<open>Sizes and object representations of the key type, the value type and their pair.\<close>

record ('k, 'v) Elem =
  el_key :: "'k \<Rightarrow> bytes"
  el_val :: "'v \<Rightarrow> bytes"
  el_key_of :: "bytes \<Rightarrow> 'k"
  el_val_of :: "bytes \<Rightarrow> 'v"
  el_key_size :: nat
  el_val_size :: nat
  el_pair_size :: nat

record ('k, 'v) BPlusLeafPage = IndexPage +
  lp_array :: "('k \<times> 'v) list"
  lp_next :: page_id_t

text \<open>
  The constructor reads as many entries as the header of the object says, from behind the common header.  The length that was stored decides how much of the key is filled;
  the value is filled with 8 bytes whatever its size.  Filling an object with a number of bytes that is not its size has no defined result.
\<close>

fun load_items :: "('k, 'v) Elem \<Rightarrow> nat \<Rightarrow> nat \<Rightarrow> IndexPage \<Rightarrow> (BufferManager, ('k \<times> 'v) list) comp" where
  "load_items E 0 off p = ret []"
| "load_items E (Suc n) off p = bnd (ip_read off 8 p) (\<lambda>l. (let len = unat (le_word l :: u64) in
     if len \<noteq> el_key_size E then throw MemoryFault
     else bnd (ip_read (off + 8) len p) (\<lambda>kb. bnd (ip_read (off + 8 + len) 8 p) (\<lambda>vl. (let vlen = unat (le_word vl :: u64) in
       if el_val_size E \<noteq> 8 then throw MemoryFault
       else bnd (ip_read (off + 16 + len) 8 p) (\<lambda>vb. bnd (load_items E n (off + 16 + len + vlen) p) (\<lambda>rest.
         ret ((el_key_of E kb, el_val_of E vb) # rest))))))))"

definition BPlusLeafPage_new :: "('k, 'v) Elem \<Rightarrow> frame_id option \<Rightarrow> (BufferManager, ('k, 'v) BPlusLeafPage) comp" where
  "BPlusLeafPage_new E pg = (let p = IndexPage_new pg in
     bnd (load_items E (unat (IP_GetSize p)) INDEX_COMMON_HEADER_SIZE p) (\<lambda>xs.
     ret \<lparr>ip_header = ip_header p, ip_page = pg, lp_array = xs, lp_next = 0\<rparr>))"

definition LP_GetNextPageId :: "('k, 'v) BPlusLeafPage \<Rightarrow> (BufferManager, page_id_t) comp" where
  "LP_GetNextPageId p = bnd (ip_read INDEX_COMMON_HEADER_SIZE 8 p) (\<lambda>b. ret (le_word b))"

definition LP_SetNextPageId :: "page_id_t \<Rightarrow> ('k, 'v) BPlusLeafPage \<Rightarrow> (BufferManager, unit) comp" where
  "LP_SetNextPageId q p = thn (ip_write INDEX_COMMON_HEADER_SIZE (le_bytes 8 q) p) (ip_dirty p)"

definition LP_Init :: "page_id_t \<Rightarrow> page_id_t \<Rightarrow> u16 \<Rightarrow> ('k, 'v) BPlusLeafPage \<Rightarrow> (BufferManager, ('k, 'v) BPlusLeafPage) comp" where
  "LP_Init pid parent mx p = bnd (IP_Init IPT_LEAF pid parent mx p) (\<lambda>p'. bnd (LP_GetNextPageId p') (\<lambda>q. ret (p'\<lparr>lp_next := q\<rparr>)))"

text \<open>The static \<^verbatim>\<open>GetMaxSize\<close> of the leaf page hides that of the base class: a bound by the size of a pair, not of a stored entry.\<close>

definition LP_GetMaxSize :: "('k, 'v) Elem \<Rightarrow> nat" where
  "LP_GetMaxSize E = (PAGE_SIZE - 24 - 8) div el_pair_size E"

definition LP_KeyAt :: "nat \<Rightarrow> ('k, 'v) BPlusLeafPage \<Rightarrow> 'k res" where
  "LP_KeyAt i p = (if i < length (lp_array p) then Inr (fst (lp_array p ! i)) else Inl MemoryFault)"

definition LP_LowerBound :: "'k::linorder \<Rightarrow> ('k, 'v) BPlusLeafPage \<Rightarrow> nat" where
  "LP_LowerBound k p = lower_bound (lp_array p) k 0 (length (lp_array p))"

text \<open>The entries with the key, from position \<open>i\<close> on; \<open>n\<close> counts the positions left.\<close>

fun collect_key :: "nat \<Rightarrow> nat \<Rightarrow> 'k \<Rightarrow> ('k, 'v) BPlusLeafPage \<Rightarrow> 'v list res" where
  "collect_key 0 i k p = Inr []"
| "collect_key (Suc n) i k p = (case LP_KeyAt i p of Inl e \<Rightarrow> Inl e
     | Inr k' \<Rightarrow> if k' \<noteq> k then Inr [] else (case collect_key n (Suc i) k p of Inl e \<Rightarrow> Inl e | Inr vs \<Rightarrow> Inr (snd (lp_array p ! i) # vs)))"

definition LP_Lookup :: "'k::linorder \<Rightarrow> 'v list \<Rightarrow> ('k, 'v) BPlusLeafPage \<Rightarrow> ('v list \<times> bool) res" where
  "LP_Lookup k result p = (if lp_array p = [] then Inr (result, False)
     else (let start = LP_LowerBound k p; n = unat (IP_GetSize p) in
       if n \<le> start then Inr (result, False)
       else case LP_KeyAt start p of Inl e \<Rightarrow> Inl e
         | Inr k' \<Rightarrow> if k' \<noteq> k then Inr (result, False)
             else (case collect_key (n - start) start k p of Inl e \<Rightarrow> Inl e | Inr vs \<Rightarrow> Inr (result @ vs, True))))"

definition item_bytes :: "('k, 'v) Elem \<Rightarrow> 'k \<times> 'v \<Rightarrow> bytes" where
  "item_bytes E kv = le_bytes 8 (word_of_nat (el_key_size E) :: u64) @ el_key E (fst kv) @ le_bytes 8 (word_of_nat (el_val_size E) :: u64) @ el_val E (snd kv)"

fun write_items :: "('k, 'v) Elem \<Rightarrow> nat \<Rightarrow> ('k \<times> 'v) list \<Rightarrow> 'a IndexPage_scheme \<Rightarrow> (BufferManager, unit) comp" where
  "write_items E off [] p = ret ()"
| "write_items E off (kv # xs) p = thn (ip_write off (item_bytes E kv) p) (write_items E (off + length (item_bytes E kv)) xs p)"

definition LP_SerializeToPage :: "('k, 'v) Elem \<Rightarrow> ('k, 'v) BPlusLeafPage \<Rightarrow> (BufferManager, unit) comp" where
  "LP_SerializeToPage E p = thn (write_items E LEAF_DATA_OFFSET (lp_array p) p) (ip_dirty p)"

definition insert_at :: "nat \<Rightarrow> 'a \<Rightarrow> 'a list \<Rightarrow> 'a list" where
  "insert_at i x xs = take i xs @ x # drop i xs"

definition LP_Insert :: "('k::linorder, 'v) Elem \<Rightarrow> 'k \<Rightarrow> 'v \<Rightarrow> ('k, 'v) BPlusLeafPage \<Rightarrow> (BufferManager, ('k, 'v) BPlusLeafPage \<times> bool) comp" where
  "LP_Insert E k v p = (if LP_GetMaxSize E \<le> unat (IP_GetSize p) then ret (p, False)
     else (let p' = p\<lparr>lp_array := insert_at (LP_LowerBound k p) (k, v) (lp_array p)\<rparr> in
       thn (IP_IncreaseSize 1 p') (thn (LP_SerializeToPage E p') (ret (p', True)))))"

text \<open>The bytes of the first \<open>n\<close> entries, from the lengths stored in the page.\<close>

fun used_bytes :: "nat \<Rightarrow> nat \<Rightarrow> ('k, 'v) BPlusLeafPage \<Rightarrow> (BufferManager, nat) comp" where
  "used_bytes 0 off p = ret off"
| "used_bytes (Suc n) off p = bnd (ip_read off 8 p) (\<lambda>kl. (let off1 = off + 8 + unat (le_word kl :: u64) in
     bnd (ip_read off1 8 p) (\<lambda>vl. used_bytes n (off1 + 8 + unat (le_word vl :: u64)) p)))"

definition LP_GetUsedBytes :: "('k, 'v) BPlusLeafPage \<Rightarrow> (BufferManager, nat) comp" where
  "LP_GetUsedBytes p = bnd (used_bytes (unat (IP_GetSize p)) LEAF_DATA_OFFSET p) (\<lambda>e. ret (e - LEAF_DATA_OFFSET))"

text \<open>The entries are read from the page; the bytes behind the first one with the key are moved over it.  The array in memory is not changed.\<close>

fun remove_items :: "('k, 'v) Elem \<Rightarrow> 'k \<Rightarrow> nat \<Rightarrow> nat \<Rightarrow> ('k, 'v) BPlusLeafPage \<Rightarrow> (BufferManager, int) comp" where
  "remove_items E k 0 off p = ret 0"
| "remove_items E k (Suc n) off p = bnd (ip_read off 8 p) (\<lambda>kl. (let klen = unat (le_word kl :: u64) in
     if klen \<noteq> el_key_size E then throw MemoryFault
     else bnd (ip_read (off + 8) klen p) (\<lambda>kb. bnd (ip_read (off + 8 + klen) 8 p) (\<lambda>vl. (let vlen = unat (le_word vl :: u64); behind = off + 16 + klen + vlen in
       if vlen \<noteq> el_val_size E then throw MemoryFault
       else bnd (ip_read (off + 16 + klen) vlen p) (\<lambda>_. if el_key_of E kb = k then bnd (LP_GetUsedBytes p) (\<lambda>used. bnd (ip_read behind (LEAF_DATA_OFFSET + used - behind) p) (\<lambda>rest.
         thn (ip_write off rest p) (thn (IP_IncreaseSize (- 1) p) (thn (ip_dirty p) (ret 1)))))
       else remove_items E k n behind p))))))"

definition LP_Remove :: "('k, 'v) Elem \<Rightarrow> 'k \<Rightarrow> ('k, 'v) BPlusLeafPage \<Rightarrow> (BufferManager, int) comp" where
  "LP_Remove E k p = (if lp_array p = [] then ret 0 else remove_items E k (unat (IP_GetSize p)) LEAF_DATA_OFFSET p)"

section \<open>Internal pages\<close>

record 'k BPlusInternalPage = IndexPage +
  np_array :: "('k \<times> page_id_t) list"

definition BPlusInternalPage_new :: "frame_id option \<Rightarrow> 'k BPlusInternalPage" where
  "BPlusInternalPage_new pg = \<lparr>ip_header = IndexPageHeader_zero, ip_page = pg, np_array = []\<rparr>"

definition NP_Init :: "page_id_t \<Rightarrow> page_id_t \<Rightarrow> int \<Rightarrow> 'k BPlusInternalPage \<Rightarrow> (BufferManager, 'k BPlusInternalPage) comp" where
  "NP_Init pid parent mx p = IP_Init IPT_INTERVAL pid parent (word_of_int mx) p"

text \<open>\<^verbatim>\<open>array_[index]\<close> with an \<^verbatim>\<open>int\<close>.\<close>

definition np_has :: "int \<Rightarrow> 'k BPlusInternalPage \<Rightarrow> bool" where
  "np_has i p \<longleftrightarrow> 0 \<le> i \<and> nat i < length (np_array p)"

definition NP_KeyAt :: "int \<Rightarrow> 'k BPlusInternalPage \<Rightarrow> 'k res" where
  "NP_KeyAt i p = (if np_has i p then Inr (fst (np_array p ! nat i)) else Inl MemoryFault)"

definition NP_ValueAt :: "int \<Rightarrow> 'k BPlusInternalPage \<Rightarrow> page_id_t res" where
  "NP_ValueAt i p = (if np_has i p then Inr (snd (np_array p ! nat i)) else Inl MemoryFault)"

definition NP_SetValueAt :: "('k, 'v) Elem \<Rightarrow> int \<Rightarrow> page_id_t \<Rightarrow> 'k BPlusInternalPage \<Rightarrow> (BufferManager, 'k BPlusInternalPage) comp" where
  "NP_SetValueAt E i child p = (if \<not> np_has i p then throw MemoryFault
     else thn (ip_write (INDEX_COMMON_HEADER_SIZE + nat i * (el_key_size E + 8) + 8 + el_key_size E) (le_bytes 8 child) p)
       (thn (ip_dirty p) (ret (p\<lparr>np_array := (np_array p)[nat i := (fst (np_array p ! nat i), child)]\<rparr>))))"

definition NP_SetKeyAt :: "('k, 'v) Elem \<Rightarrow> int \<Rightarrow> 'k \<Rightarrow> 'k BPlusInternalPage \<Rightarrow> (BufferManager, 'k BPlusInternalPage) comp" where
  "NP_SetKeyAt E i k p = (if \<not> np_has i p then throw MemoryFault
     else thn (ip_write (INDEX_COMMON_HEADER_SIZE + nat i * (el_key_size E + 8) + 8) (el_key E k) p)
       (thn (ip_dirty p) (ret (p\<lparr>np_array := (np_array p)[nat i := (k, snd (np_array p ! nat i))]\<rparr>))))"

definition NP_Remove :: "int \<Rightarrow> 'k BPlusInternalPage \<Rightarrow> (BufferManager, 'k BPlusInternalPage) comp" where
  "NP_Remove i p = (if \<not> np_has i p then throw (RuntimeError ''BPlusInternalPage::Remove: Invalid index'')
     else (let p' = p\<lparr>np_array := take (nat i) (np_array p) @ drop (Suc (nat i)) (np_array p)\<rparr> in
       thn (IP_IncreaseSize (- 1) p') (ret p')))"

definition NP_LookupChild :: "'k::linorder \<Rightarrow> 'k BPlusInternalPage \<Rightarrow> page_id_t res" where
  "NP_LookupChild k p = NP_ValueAt (int (lower_bound (np_array p) k 0 (length (np_array p)))) p"

fun find_child :: "page_id_t \<Rightarrow> ('k \<times> page_id_t) list \<Rightarrow> nat option" where
  "find_child q [] = None"
| "find_child q (x # xs) = (if snd x = q then Some 0 else map_option Suc (find_child q xs))"

definition NP_InsertAfter :: "page_id_t \<Rightarrow> 'k \<Rightarrow> page_id_t \<Rightarrow> 'k BPlusInternalPage \<Rightarrow> (BufferManager, 'k BPlusInternalPage) comp" where
  "NP_InsertAfter old k new p = (case find_child old (np_array p) of None \<Rightarrow> ret p
     | Some i \<Rightarrow> (let p' = p\<lparr>np_array := insert_at (Suc i) (k, new) (np_array p)\<rparr> in thn (IP_IncreaseSize 1 p') (ret p')))"

section \<open>Searching and inserting\<close>

text \<open>What the pages rely on: a position with the smaller keys in front of it and no smaller key behind.\<close>

locale search =
  fixes pos :: "('k::linorder \<times> 'v) list \<Rightarrow> 'k \<Rightarrow> nat"
  assumes pos_bound: "pos xs k \<le> length xs"
    and pos_below: "sorted (map fst xs) \<Longrightarrow> i < pos xs k \<Longrightarrow> fst (xs ! i) < k"
    and pos_above: "sorted (map fst xs) \<Longrightarrow> pos xs k \<le> i \<Longrightarrow> i < length xs \<Longrightarrow> k \<le> fst (xs ! i)"
begin

lemma pos_takeWhile:
  assumes "sorted (map fst xs)"
  shows "pos xs k = length (takeWhile (\<lambda>x. fst x < k) xs)"
proof -
  let ?n = "length (takeWhile (\<lambda>x. fst x < k) xs)"
  have le: "?n \<le> length xs" by (rule length_takeWhile_le)
  have "\<not> pos xs k < ?n"
  proof
    assume a: "pos xs k < ?n"
    then have "xs ! pos xs k = takeWhile (\<lambda>x. fst x < k) xs ! pos xs k" by (simp add: takeWhile_nth)
    then have "fst (xs ! pos xs k) < k" using a nth_mem set_takeWhileD by metis
    then show False using pos_above [OF assms order_refl, of k] a le by simp
  qed
  moreover have "\<not> ?n < pos xs k" using pos_below [OF assms, of ?n k] nth_length_takeWhile [of "\<lambda>x. fst x < k" xs] pos_bound [of xs k] by fastforce
  ultimately show ?thesis by simp
qed

lemma insert_sorted:
  assumes "sorted (map fst xs)"
  shows "sorted (map fst (insert_at (pos xs k) (k, v) xs))"
proof -
  let ?n = "pos xs k"
  have "fst x \<le> k" if "x \<in> set (take ?n xs)" for x
    using that pos_below [OF assms] pos_bound [of xs k] by (auto simp: in_set_conv_nth intro: less_imp_le)
  moreover have "k \<le> fst x" if "x \<in> set (drop ?n xs)" for x
    using that pos_above [OF assms, of k] by (auto simp: in_set_conv_nth)
  moreover have "sorted (map fst (take ?n xs))" "sorted (map fst (drop ?n xs))"
    using assms by (simp_all add: sorted_wrt_take sorted_wrt_drop take_map [symmetric] drop_map [symmetric])
  ultimately show ?thesis by (fastforce simp: insert_at_def sorted_append)
qed

end

lemma insert_at_content: "mset (insert_at i x xs) = add_mset x (mset xs)" "length (insert_at i x xs) = Suc (length xs)"
proof -
  have "mset (take i xs) + mset (drop i xs) = mset xs" by (metis append_take_drop_id mset_append)
  then show "mset (insert_at i x xs) = add_mset x (mset xs)" by (simp add: insert_at_def)
  show "length (insert_at i x xs) = Suc (length xs)" by (simp add: insert_at_def)
qed

lemma lower_bound_0: "lower_bound xs k first 0 = first"
  by (simp add: lower_bound.simps)

lemma lower_bound_right: "len \<noteq> 0 \<Longrightarrow> fst (xs ! (first + len div 2)) < k \<Longrightarrow>
    lower_bound xs k first len = lower_bound xs k (Suc (first + len div 2)) (len - len div 2 - 1)"
  by (subst lower_bound.simps) (simp add: Let_def)

lemma lower_bound_left: "len \<noteq> 0 \<Longrightarrow> \<not> fst (xs ! (first + len div 2)) < k \<Longrightarrow> lower_bound xs k first len = lower_bound xs k first (len div 2)"
  by (subst lower_bound.simps) (simp add: Let_def)

lemma lower_bound_range: "lower_bound xs k first len \<le> first + len"
proof (induction len arbitrary: first rule: less_induct)
  case (less len)
  consider "len = 0" | "len \<noteq> 0" "fst (xs ! (first + len div 2)) < k" | "len \<noteq> 0" "\<not> fst (xs ! (first + len div 2)) < k" by blast
  then show ?case
  proof cases
    case 2
    then show ?thesis using less [of "len - len div 2 - 1" "Suc (first + len div 2)"] by (simp add: lower_bound_right)
  next
    case 3
    then show ?thesis using less [of "len div 2" first] by (simp add: lower_bound_left)
  qed (simp add: lower_bound_0)
qed

lemma lower_bound_splits:
  assumes sort: "sorted (map fst xs)" and "first + len \<le> length xs" "\<And>i. i < first \<Longrightarrow> fst (xs ! i) < k"
    and "\<And>i. first + len \<le> i \<Longrightarrow> i < length xs \<Longrightarrow> k \<le> fst (xs ! i)"
  shows "(\<forall>i < lower_bound xs k first len. fst (xs ! i) < k) \<and> (\<forall>i. lower_bound xs k first len \<le> i \<longrightarrow> i < length xs \<longrightarrow> k \<le> fst (xs ! i))"
  using assms(2-)
proof (induction len arbitrary: first rule: less_induct)
  case (less len)
  let ?m = "first + len div 2"
  have mono: "fst (xs ! i) \<le> fst (xs ! j)" if "i \<le> j" "j < length xs" for i j using that sorted_nth_mono [OF sort, of i j] by simp
  consider "len = 0" | "len \<noteq> 0" "fst (xs ! ?m) < k" | "len \<noteq> 0" "\<not> fst (xs ! ?m) < k" by blast
  then show ?case
  proof cases
    case 1
    then show ?thesis using less.prems by (simp add: lower_bound_0)
  next
    case 2
    have e: "Suc ?m + (len - len div 2 - 1) = first + len" using 2(1) by linarith
    have m: "?m < length xs" using less.prems(1) 2(1) by linarith
    have "fst (xs ! i) < k" if "i < Suc ?m" for i using mono [of i ?m] m that 2(2) by (simp add: less_Suc_eq_le order_le_less_trans)
    then show ?thesis
      unfolding lower_bound_right [OF 2] by (intro less.IH) (use 2(1) less.prems(1,3) e in auto)
  next
    case 3
    have "?m \<le> length xs" using less.prems(1) by linarith
    moreover have "k \<le> fst (xs ! i)" if "?m \<le> i" "i < length xs" for i using mono [OF that] 3(2) by simp
    ultimately show ?thesis
      unfolding lower_bound_left [OF 3] by (intro less.IH) (use 3(1) less.prems(2) in auto)
  qed
qed

interpretation lower: search "\<lambda>xs k. lower_bound xs k 0 (length xs)"
proof
  fix xs :: "('a \<times> 'b) list" and k :: 'a and i
  show "lower_bound xs k 0 (length xs) \<le> length xs" using lower_bound_range [of xs k 0 "length xs"] by simp
  note s = lower_bound_splits [of xs 0 "length xs" k]
  show "sorted (map fst xs) \<Longrightarrow> i < lower_bound xs k 0 (length xs) \<Longrightarrow> fst (xs ! i) < k" using s by simp
  show "sorted (map fst xs) \<Longrightarrow> lower_bound xs k 0 (length xs) \<le> i \<Longrightarrow> i < length xs \<Longrightarrow> k \<le> fst (xs ! i)" using s by simp
qed

section \<open>The image of the array\<close>

definition elem_ok :: "('k, 'v) Elem \<Rightarrow> bool" where
  "elem_ok E \<longleftrightarrow> (\<forall>k. length (el_key E k) = el_key_size E) \<and> (\<forall>v. length (el_val E v) = el_val_size E)"

definition image_bytes :: "('k, 'v) Elem \<Rightarrow> ('k \<times> 'v) list \<Rightarrow> bytes" where
  "image_bytes E xs = concat (map (item_bytes E) xs)"

definition item_size :: "('k, 'v) Elem \<Rightarrow> nat" where
  "item_size E = 16 + el_key_size E + el_val_size E"

lemma length_item: "elem_ok E \<Longrightarrow> length (item_bytes E kv) = item_size E"
  by (simp add: elem_ok_def item_bytes_def item_size_def)

lemma length_image: "elem_ok E \<Longrightarrow> length (image_bytes E xs) = length xs * item_size E"
  by (induction xs) (simp_all add: image_bytes_def length_item)

lemma write_items_run:
  assumes "held pid f b" "ip_page p = Some f" "off + length (image_bytes E xs) \<le> PAGE_SIZE"
  shows "write_items E off xs p b = (Inr (), put f (poke off (image_bytes E xs) (fdata f b)) b)"
  using assms
proof (induction xs arbitrary: off b)
  case Nil
  then show ?case using put_same [OF Nil(1)] by (simp add: image_bytes_def comp_simps poke_def)
next
  case (Cons kv xs)
  let ?i = "item_bytes E kv" and ?r = "image_bytes E xs" and ?b = "put f (poke off (item_bytes E kv) (fdata f b)) b"
  have im: "image_bytes E (kv # xs) = ?i @ ?r" by (simp add: image_bytes_def)
  have len: "length (fdata f b) = PAGE_SIZE" by (rule heldD(5) [OF Cons.prems(1)])
  have fit: "off + length ?i \<le> PAGE_SIZE" "off + length ?i + length ?r \<le> PAGE_SIZE" using Cons.prems(3) by (simp_all add: im)
  have h: "held pid f ?b" using only_frame_held [OF only_frame_put [OF Cons.prems(1)] Cons.prems(1)] fit len by simp
  have w: "ip_write off ?i p b = (Inr (), ?b)" using fr_write_put [OF Cons.prems(1) fit(1)] Cons.prems(2) by (simp add: ip_write_def)
  show ?case
    using Cons.IH [OF h Cons.prems(2) fit(2)] w fit len
    by (simp add: comp_simps im fdata_put [OF Cons.prems(1)] poke_poke_adjacent)
qed

lemma write_items_overrun:
  assumes "held pid f b" "ip_page p = Some f" "PAGE_SIZE < off + length (image_bytes E xs)" "off \<le> PAGE_SIZE"
  shows "\<exists>c. write_items E off xs p b = (Inl MemoryFault, c)"
  using assms
proof (induction xs arbitrary: off b)
  case (Cons kv xs)
  let ?i = "item_bytes E kv" and ?b = "put f (poke off (item_bytes E kv) (fdata f b)) b"
  have im: "image_bytes E (kv # xs) = ?i @ image_bytes E xs" by (simp add: image_bytes_def)
  have len: "length (fdata f b) = PAGE_SIZE" by (rule heldD(5) [OF Cons.prems(1)])
  show ?case
  proof (cases "off + length ?i \<le> PAGE_SIZE")
    case True
    have h: "held pid f ?b" using only_frame_held [OF only_frame_put [OF Cons.prems(1)] Cons.prems(1)] True len by simp
    have w: "ip_write off ?i p b = (Inr (), ?b)" using fr_write_put [OF Cons.prems(1) True] Cons.prems(2) by (simp add: ip_write_def)
    show ?thesis using Cons.IH [OF h Cons.prems(2) _ True] Cons.prems(3) w by (simp add: comp_simps im add.assoc)
  next
    case False
    then have "ip_write off ?i p b = (Inl MemoryFault, b)"
      using Cons.prems(2) len by (simp add: ip_write_def fr_write_def comp_simps mem_write_def flip: fdata_def)
    then show ?thesis by (simp add: comp_simps)
  qed
qed (simp add: image_bytes_def)

lemma IncreaseSize_run:
  assumes "held pid f b" "ip_page p = Some f"
  obtains c where "IP_IncreaseSize delta p b = (Inr (), c)" "only_frame f b c" "fdata f c = poke 1 (le_bytes 2 (word_of_int (uint (IP_GetSize p) + delta) :: u16)) (fdata f b)"
proof -
  let ?d = "poke 1 (le_bytes 2 (word_of_int (uint (IP_GetSize p) + delta) :: u16)) (fdata f b)"
  let ?u = "put f ?d b"
  have l: "length ?d = PAGE_SIZE" using heldD(5) [OF assms(1)] by simp
  note o1 = only_frame_put [OF assms(1) l]
  note h1 = only_frame_held [OF o1 assms(1)]
  note o2 = only_frame_dirty [OF h1]
  note h2 = only_frame_held [OF o2 h1]
  note o3 = only_frame_dirty [OF h2]
  let ?dirty = "on_frame f (\<lambda>p. p\<lparr>pg_dirty := True\<rparr>)"
  have "fr_write f 1 (le_bytes 2 (word_of_int (uint (IP_GetSize p) + delta) :: u16)) b = (Inr (), ?u)"
    using fr_write_put [OF assms(1), of 1 "le_bytes 2 (word_of_int (uint (IP_GetSize p) + delta) :: u16)"] by simp
  then have "IP_IncreaseSize delta p b = (Inr (), ?dirty (?dirty ?u))"
    using assms(2) by (simp add: IP_IncreaseSize_def IP_SetSize_def ip_write_def ip_dirty_def comp_simps)
  moreover have "fdata f (?dirty (?dirty ?u)) = ?d" using fdata_dirty [OF h2] fdata_dirty [OF h1] fdata_put [OF assms(1)] by simp
  ultimately show ?thesis using that only_frame_trans [OF only_frame_trans [OF o1 o2] o3] by blast
qed

text \<open>Inserting, with the size the object reports below its bound.\<close>

lemma Insert_run:
  assumes "held pid f b" "ip_page p = Some f" "unat (IP_GetSize p) < LP_GetMaxSize E" "LEAF_DATA_OFFSET + length (image_bytes E ys) \<le> PAGE_SIZE"
    and ys: "ys = insert_at (LP_LowerBound k p) (k, v) (lp_array p)"
  obtains c where "LP_Insert E k v p b = (Inr (p\<lparr>lp_array := ys\<rparr>, True), c)" "only_frame f b c" "holds_at LEAF_DATA_OFFSET (image_bytes E ys) (fdata f c)"
proof -
  let ?p = "p\<lparr>lp_array := ys\<rparr>"
  obtain u where u: "IP_IncreaseSize 1 ?p b = (Inr (), u)" "only_frame f b u" by (rule IncreaseSize_run [OF assms(1), of ?p 1]) (use assms(2) in auto)
  note hu = only_frame_held [OF u(2) assms(1)]
  let ?w = "put f (poke 32 (image_bytes E ys) (fdata f u)) u" and ?dirty = "on_frame f (\<lambda>p. p\<lparr>pg_dirty := True\<rparr>)"
  have l: "length (poke 32 (image_bytes E ys) (fdata f u)) = PAGE_SIZE" using heldD(5) [OF hu] assms(4) by simp
  note ow = only_frame_put [OF hu l]
  note hw = only_frame_held [OF ow hu]
  have "LP_SerializeToPage E ?p u = (Inr (), ?dirty ?w)"
    using write_items_run [OF hu, of ?p 32 E ys] assms(2,4) by (simp add: LP_SerializeToPage_def ip_dirty_def comp_simps)
  then have "LP_Insert E k v p b = (Inr (?p, True), ?dirty ?w)" using u(1) assms(3) ys by (simp add: LP_Insert_def Let_def comp_simps)
  moreover have "holds_at LEAF_DATA_OFFSET (image_bytes E ys) (fdata f (?dirty ?w))"
    using fdata_dirty [OF hw] fdata_put [OF hu] heldD(5) [OF hu] assms(4) by (simp add: holds_at_poke_same)
  ultimately show ?thesis using that only_frame_trans [OF only_frame_trans [OF u(2) ow] only_frame_dirty [OF hw]] by blast
qed

text \<open>
  The binary search of a leaf page computes what a search from the front would: the number of entries with a smaller key.
\<close>

theorem leaf_lower_bound_linear:
  assumes "sorted (map fst (lp_array p))"
  shows "LP_LowerBound k p = length (takeWhile (\<lambda>x. fst x < k) (lp_array p))"
  using lower.pos_takeWhile [OF assms] by (simp add: LP_LowerBound_def)

definition int_elem :: "(int, int) Elem" where
  "int_elem = \<lparr>el_key = (\<lambda>i. le_bytes 4 (word_of_int i :: u32)), el_val = (\<lambda>i. le_bytes 4 (word_of_int i :: u32)),
     el_key_of = (\<lambda>b. sint (le_word b :: u32)), el_val_of = (\<lambda>b. sint (le_word b :: u32)), el_key_size = 4, el_val_size = 4, el_pair_size = 8\<rparr>"

definition demo_leaf :: "(int \<times> int) list \<Rightarrow> (int, int) BPlusLeafPage" where
  "demo_leaf xs = \<lparr>ip_header = IndexPageHeader_zero, ip_page = Some 5, lp_array = xs, lp_next = 0\<rparr>"

lemma leaf_lower_bound_linear_witness: "LP_LowerBound 5 (demo_leaf [(2, 1), (5, 1), (5, 2), (9, 1)]) = 1"
  using leaf_lower_bound_linear [of "demo_leaf [(2, 1), (5, 1), (5, 2), (9, 1)]" 5] by (simp add: demo_leaf_def)

text \<open>C39.
  Inserting into a leaf page whose bytes have room for one more entry: the array of the page stays sorted and gains exactly the new entry, the bytes behind the header
  are the image of the array in its order, and no other page changes.  Where the bytes do not suffice, although the bound of the class is not reached, the
  insertion writes outside the page.
\<close>

theorem leaf_insert_sorted_image:
  assumes "held pid f b" "ip_page p = Some f" "elem_ok E" "sorted (map fst (lp_array p))" "unat (IP_GetSize p) < LP_GetMaxSize E"
  shows "if LEAF_DATA_OFFSET + (length (lp_array p) + 1) * item_size E \<le> PAGE_SIZE
    then \<exists>p' c. LP_Insert E k v p b = (Inr (p', True), c) \<and> sorted (map fst (lp_array p')) \<and> mset (lp_array p') = add_mset (k, v) (mset (lp_array p)) \<and>
      holds_at LEAF_DATA_OFFSET (concat (map (item_bytes E) (lp_array p'))) (fdata f c) \<and> only_frame f b c
    else \<exists>c. LP_Insert E k v p b = (Inl MemoryFault, c)"
proof -
  let ?ys = "insert_at (LP_LowerBound k p) (k, v) (lp_array p)"
  have l: "length (image_bytes E ?ys) = (length (lp_array p) + 1) * item_size E" by (simp add: length_image [OF assms(3)] insert_at_content)
  have s: "sorted (map fst ?ys)" using lower.insert_sorted [OF assms(4)] by (simp add: LP_LowerBound_def)
  show ?thesis
  proof (cases "LEAF_DATA_OFFSET + length (image_bytes E ?ys) \<le> PAGE_SIZE")
    case True
    obtain c where "LP_Insert E k v p b = (Inr (p\<lparr>lp_array := ?ys\<rparr>, True), c)" "only_frame f b c" "holds_at LEAF_DATA_OFFSET (image_bytes E ?ys) (fdata f c)"
      by (rule Insert_run [OF assms(1,2,5) True refl])
    then show ?thesis
      using True s l unfolding image_bytes_def
      by (auto simp: insert_at_content intro!: exI [of _ "p\<lparr>lp_array := ?ys\<rparr>"] exI [of _ c])
  next
    case False
    let ?p = "p\<lparr>lp_array := ?ys\<rparr>"
    obtain u where u: "IP_IncreaseSize 1 ?p b = (Inr (), u)" "only_frame f b u" by (rule IncreaseSize_run [OF assms(1), of ?p 1]) (use assms(2) in auto)
    obtain c where "write_items E 32 ?ys ?p u = (Inl MemoryFault, c)"
      using write_items_overrun [OF only_frame_held [OF u(2) assms(1)], of ?p 32 E ?ys] assms(2) False by auto
    then have "LP_Insert E k v p b = (Inl MemoryFault, c)" using u(1) assms(5) by (simp add: LP_Insert_def LP_SerializeToPage_def Let_def comp_simps)
    then show ?thesis using False l by auto
  qed
qed

lemma int_elem_ok: "elem_ok int_elem" "item_size int_elem = 24" "LP_GetMaxSize int_elem = 508"
  by (simp_all add: elem_ok_def int_elem_def item_size_def LP_GetMaxSize_def)

lemma leaf_insert_sorted_image_witness:
  "\<exists>f b p' c. LP_Insert int_elem 5 7 \<lparr>ip_header = IndexPageHeader_zero, ip_page = Some f, lp_array = [(2, 1), (9, 1)], lp_next = 0\<rparr> b = (Inr (p', True), c) \<and>
     sorted (map fst (lp_array p')) \<and> mset (lp_array p') = {#(5, 7), (2, 1), (9, 1)#} \<and> only_frame f b c"
proof -
  obtain s where s: "store_ok s" using opened_store by blast
  then have h: "held 0 (mp_frame (st_meta s)) (st_bm s)" by (simp add: store_ok_def)
  let ?p = "\<lparr>ip_header = IndexPageHeader_zero, ip_page = Some (mp_frame (st_meta s)), lp_array = [(2, 1), (9, 1)], lp_next = 0\<rparr> :: (int, int) BPlusLeafPage"
  have "unat (IP_GetSize ?p) < LP_GetMaxSize int_elem" by (simp add: IP_GetSize_def IndexPageHeader_zero_def int_elem_ok)
  from leaf_insert_sorted_image [OF h _ int_elem_ok(1) _ this, of 5 7] show ?thesis by (auto simp: int_elem_ok)
qed

section \<open>What a leaf page forgets\<close>

text \<open>The leaf objects a program can have: constructed on some page and changed by the operations, while the bytes of the pages may change in any way.\<close>

inductive leaf_object :: "('k::linorder, 'v) Elem \<Rightarrow> ('k, 'v) BPlusLeafPage \<Rightarrow> bool" for E where
  leaf_new: "BPlusLeafPage_new E pg b = (Inr p, c) \<Longrightarrow> leaf_object E p"
| leaf_init: "leaf_object E p \<Longrightarrow> LP_Init pid parent mx p b = (Inr q, c) \<Longrightarrow> leaf_object E q"
| leaf_insert: "leaf_object E p \<Longrightarrow> LP_Insert E k v p b = (Inr (q, r), c) \<Longrightarrow> leaf_object E q"

lemma leaf_new_empty: "BPlusLeafPage_new E pg b = (Inr \<lparr>ip_header = IndexPageHeader_zero, ip_page = pg, lp_array = [], lp_next = 0\<rparr>, b)"
  by (simp add: BPlusLeafPage_new_def IndexPage_new_def IP_GetSize_def IndexPageHeader_zero_def Let_def comp_simps)

lemma IP_Init_size: "IP_Init ty pid parent mx p b = (Inr q, c) \<Longrightarrow> IP_GetSize q = 0"
  by (auto simp: IP_Init_def thn_Inr_iff comp_simps IP_GetSize_def split: if_splits)

lemma LP_Insert_size: "LP_Insert E k v p b = (Inr (q, r), c) \<Longrightarrow> IP_GetSize q = IP_GetSize p"
  by (auto simp: LP_Insert_def thn_Inr_iff comp_simps Let_def IP_GetSize_def split: if_splits)

lemma leaf_size_0: "leaf_object E p \<Longrightarrow> IP_GetSize p = 0"
proof (induction rule: leaf_object.induct)
  case (leaf_new pg b p c)
  then show ?case by (auto simp: leaf_new_empty IP_GetSize_def IndexPageHeader_zero_def)
next
  case (leaf_init p pid parent mx b q c)
  then obtain q' b' where "IP_Init IPT_LEAF pid parent mx p b = (Inr q', b')" "IP_GetSize q = IP_GetSize q'"
    by (auto simp: LP_Init_def bnd_Inr_iff comp_simps IP_GetSize_def)
  then show ?case using IP_Init_size by metis
qed (use LP_Insert_size in metis)

text \<open>C40.
  Nothing that is inserted into a leaf page is ever found again.  \<^verbatim>\<open>SetSize\<close> changes the size in the bytes of the page but not in the header of the object, which
  \<^verbatim>\<open>GetSize\<close> reads: after every history of a leaf object the reported size is 0, so that directly after a successful insertion the lookup of the key
  finds nothing, removing it removes nothing, and an object constructed anew on the same page is empty.
\<close>

theorem leaf_insert_is_lost:
  assumes "leaf_object E p" "LP_Insert E k v p b = (Inr (q, True), c)"
  shows "IP_GetSize q = 0 \<and> LP_Lookup k found q = Inr (found, False) \<and> LP_Remove E k q c = (Inr 0, c) \<and>
    (\<exists>n. BPlusLeafPage_new E (ip_page q) c = (Inr n, c) \<and> lp_array n = [])"
proof -
  have "leaf_object E q" by (rule leaf_insert [OF assms])
  then have "IP_GetSize q = 0" by (rule leaf_size_0)
  then show ?thesis by (simp add: LP_Lookup_def LP_Remove_def Let_def comp_simps leaf_new_empty)
qed

lemma leaf_insert_is_lost_witness:
  "\<exists>p b q c. BPlusLeafPage_new int_elem (ip_page p) b = (Inr p, b) \<and> LP_Insert int_elem 10 100 p b = (Inr (q, True), c) \<and> LP_Lookup 10 [] q = Inr ([], False)"
proof -
  obtain s where s: "store_ok s" using opened_store by blast
  then have h: "held 0 (mp_frame (st_meta s)) (st_bm s)" by (simp add: store_ok_def)
  let ?p = "\<lparr>ip_header = IndexPageHeader_zero, ip_page = Some (mp_frame (st_meta s)), lp_array = [], lp_next = 0\<rparr> :: (int, int) BPlusLeafPage"
  have n: "BPlusLeafPage_new int_elem (ip_page ?p) (st_bm s) = (Inr ?p, st_bm s)" by (simp add: leaf_new_empty)
  have m: "unat (IP_GetSize ?p) < LP_GetMaxSize int_elem" by (simp add: IP_GetSize_def IndexPageHeader_zero_def int_elem_ok)
  have "LEAF_DATA_OFFSET + length (image_bytes int_elem (insert_at (LP_LowerBound 10 ?p) (10, 100) (lp_array ?p))) \<le> PAGE_SIZE"
    by (simp add: length_image int_elem_ok insert_at_content)
  then obtain c where "LP_Insert int_elem 10 100 ?p (st_bm s) = (Inr (?p\<lparr>lp_array := insert_at (LP_LowerBound 10 ?p) (10, 100) (lp_array ?p)\<rparr>, True), c)"
    using Insert_run [OF h _ m _ refl, of 10 100] by auto
  with leaf_insert_is_lost [OF leaf_new [OF n] this, of "[]"] n show ?thesis by blast
qed

section \<open>Internal pages stay empty\<close>

inductive internal_object :: "('k::linorder, 'v) Elem \<Rightarrow> 'k BPlusInternalPage \<Rightarrow> bool" for E where
  internal_new: "internal_object E (BPlusInternalPage_new pg)"
| internal_init: "internal_object E p \<Longrightarrow> NP_Init pid parent mx p b = (Inr q, c) \<Longrightarrow> internal_object E q"
| internal_value: "internal_object E p \<Longrightarrow> NP_SetValueAt E i child p b = (Inr q, c) \<Longrightarrow> internal_object E q"
| internal_key: "internal_object E p \<Longrightarrow> NP_SetKeyAt E i k p b = (Inr q, c) \<Longrightarrow> internal_object E q"
| internal_insert: "internal_object E p \<Longrightarrow> NP_InsertAfter old k new p b = (Inr q, c) \<Longrightarrow> internal_object E q"
| internal_remove: "internal_object E p \<Longrightarrow> NP_Remove i p b = (Inr q, c) \<Longrightarrow> internal_object E q"

lemma NP_Init_array: "NP_Init pid parent mx p b = (Inr q, c) \<Longrightarrow> np_array q = np_array p"
  by (auto simp: NP_Init_def IP_Init_def thn_Inr_iff comp_simps split: if_splits)

lemma internal_empty: "internal_object E p \<Longrightarrow> np_array p = []"
  by (induction rule: internal_object.induct)
    (auto simp: BPlusInternalPage_new_def NP_Init_array NP_SetValueAt_def NP_SetKeyAt_def NP_InsertAfter_def NP_Remove_def np_has_def comp_simps)

text \<open>An internal page never gets an entry.  Its constructor does not read the page, entries are only added behind an existing one, and setting a key or a child writes to an
  existing one: whatever was done to an internal page, \<^verbatim>\<open>SetKeyAt\<close>, \<^verbatim>\<open>SetValueAt\<close> and \<^verbatim>\<open>LookupChild\<close> access the empty array, and \<^verbatim>\<open>InsertAfter\<close> does nothing.
\<close>

theorem internal_page_stays_empty:
  assumes "internal_object E p"
  shows "NP_SetKeyAt E i k p b = (Inl MemoryFault, b) \<and> NP_SetValueAt E i child p b = (Inl MemoryFault, b) \<and> NP_LookupChild k p = Inl MemoryFault \<and>
    NP_InsertAfter old k new p b = (Inr p, b)"
  using internal_empty [OF assms]
  by (simp add: NP_SetKeyAt_def NP_SetValueAt_def NP_LookupChild_def NP_ValueAt_def NP_InsertAfter_def np_has_def comp_simps)

lemma internal_page_stays_empty_witness: "NP_LookupChild (10 :: int) (BPlusInternalPage_new (Some 3)) = Inl MemoryFault"
  using internal_page_stays_empty [OF internal_new [of int_elem "Some 3"], of 0 10] by blast

end
