(* ===== verification/Stored_Table.thy ===== *)
theory Stored_Table
  imports Delete_Rows
begin

text \<open>
  A table as it is between two operations on its pages, and the visit of one page: fetch it, build the page object, work, flush and release.  Rollback and the second phase of UPDATE consist of such visits
  (\<^verbatim>\<open>transaction/transaction_manager.cpp\<close>, \<^verbatim>\<open>executor/executor_update.cpp\<close>).
\<close>

section \<open>A table between two statements\<close>

definition stored_table :: "nat \<Rightarrow> page_id_t list \<Rightarrow> entry_id \<Rightarrow> DB \<Rightarrow> MetaItem list \<Rightarrow> bytes list list \<Rightarrow> bool" where
  "stored_table n ps t d its rss \<longleftrightarrow> pool_ok (db_bm d) \<and> length (bm_free (db_bm d)) = n \<and> chain (db_bm d) ps rss \<and> distinct ps \<and> (\<forall>p \<in> set ps. named (db_bm d) p) \<and>
     meta_rep (db_store d) its \<and> t \<in> mi_id ` set its"

lemma row_index:
  assumes "length ps = length rss" "j < length (concat rss)"
  obtains pre p qs A rs C k where "ps = pre @ p # qs" "rss = A @ rs # C" "length A = length pre" "k < length rs"
    "places ps rss ! j = \<lparr>rid_page = p, rid_row = word_of_nat (Suc k)\<rparr>" "concat rss ! j = rs ! k" "\<And>x. concat (A @ rs[k := x] # C) = (concat rss)[j := x]"
  using assms
proof (induction ps rss arbitrary: j thesis rule: places.induct)
  case (1 p ps rs rss)
  show ?case
  proof (cases "j < length rs")
    case True
    show ?thesis by (rule "1.prems"(1) [of "[]" p ps "[]" rs rss j]) (use True in \<open>simp_all add: nth_append list_update_append1\<close>)
  next
    case False
    have lt: "j - length rs < length (concat rss)" using False "1.prems"(3) by simp
    obtain pre q qs A rs' C k where h: "ps = pre @ q # qs" "rss = A @ rs' # C" "length A = length pre" "k < length rs'"
      "places ps rss ! (j - length rs) = \<lparr>rid_page = q, rid_row = word_of_nat (Suc k)\<rparr>" "concat rss ! (j - length rs) = rs' ! k"
      "\<And>x. concat (A @ rs'[k := x] # C) = (concat rss)[j - length rs := x]"
      by (rule "1.IH" [OF _ _ lt]) (use "1.prems"(2) in simp_all)
    show ?thesis
    proof (rule "1.prems"(1) [of "p # pre" q qs "rs # A" rs' C k])
      show "concat ((rs # A) @ rs'[k := x] # C) = (concat (rs # rss))[j := x]" for x
        using h(7) [of x] False by (simp add: list_update_append)
    qed (use h False in \<open>simp_all add: nth_append\<close>)
  qed
qed simp_all

section \<open>Visiting a page\<close>

lemma enter_page:
  assumes st: "stored_table n ps t d its rss" and n: "1 \<le> n" and at: "ps = pre @ p # qs" "rss = A @ rs # C" "length A = length pre"
  obtains tp c where "BM_FetchPage p (db_bm d) = (Inr (tp_frame tp), c)"
    "TablePage_new t (tp_frame tp) True (db_store (with_bm c d)) = (Inr tp, db_store (with_bm c d))" "table_ok tp (db_store (with_bm c d)) its rs"
    "tp_table tp = t" "tp_page_id tp = p" "tp_next tp = first_id qs" "keeps_pages (db_bm d) c" "pinned n p (tp_frame tp) c"
proof -
  note S = st [unfolded stored_table_def]
  have ch: "chain (db_bm d) (pre @ p # qs) rss" using S at(1) by simp
  obtain A' rs' C' x tq where h: "rss = A' @ rs' # C'" "length A' = length pre" "page_content (db_bm d) p = Some x" "page_layout tq rs' x" "tp_next tq = first_id qs"
    "p \<noteq> 0" "addressable p" by (rule chain_split [OF ch])
  have rs: "rs' = rs" using h(1,2) at(2,3) by simp
  have "named (db_bm d) p" using S at(1) by simp
  then have id: "tp_page_id tq = p" using h(3) layout_unique(3) [OF h(4)] by (auto simp: named_def)
  have ok: "pool_ok (db_bm d)" and free: "bm_free (db_bm d) \<noteq> []" using S n by auto
  obtain f c where c: "BM_FetchPage p (db_bm d) = (Inr f, c)" "held p f c" "fdata f c = x" "keeps_pages (db_bm d) c"
    "pinned (length (bm_free (db_bm d))) p f c" "stays {} (db_bm d) c" by (rule fetch_pinned [OF ok free h(7,3)])
  let ?tp = "tq\<lparr>tp_frame := f, tp_table := t\<rparr>" and ?s = "db_store (with_bm c d)"
  have lay: "page_layout ?tp rs (tdata f ?s)" using c(3) h(4) rs by (simp add: page_layout_place)
  have new: "TablePage_new t f True ?s = (Inr ?tp, ?s)" using TablePage_open_run [of p ?tp ?s rs] c(2) lay by simp
  have "meta_rep ?s its" using meta_rep_pool [OF _ _ c(6), of its] S c(4) by (simp add: keeps_pages_def pool_ok_def)
  then have "table_ok ?tp ?s its rs" using c(2) lay id h(6) S by (simp add: table_ok_def)
  then show ?thesis using that [of ?tp c] c(1,4,5) new id h(5) S by simp
qed

text \<open>The object of a changed and flushed page is dropped and its frame given back.\<close>

lemma release_visit:
  assumes "table_ok tp (db_store d) its rs" "pinned n (tp_page_id tp) (tp_frame tp) (db_bm d)" "backed (db_bm d) (tp_page_id tp)" "pool_ok (db_bm d)"
  obtains b x where "release_page (tp_frame tp) d = (Inr (), with_bm b d)" "keeps_pages (db_bm d) b" "length (bm_free b) = n" "meta_rep (db_store (with_bm b d)) its"
    "page_content b (tp_page_id tp) = Some x" "page_layout tp rs x" "backed b (tp_page_id tp)" "pool_ok b"
proof -
  note ok = table_okD [OF assms(1)]
  obtain b where b: "BM_Release (tp_page_id tp) (db_bm d) = (Inr (), b)" "keeps_pages (db_bm d) b" "length (bm_free b) = n" "stays {tp_page_id tp} (db_bm d) b"
    by (rule release_pinned [OF assms(4,2,3)])
  note k = b(2) [unfolded keeps_pages_def]
  have "meta_rep (db_store (with_bm b d)) its" using meta_rep_pool [OF ok(2) _ b(4)] k ok(7) by (simp add: pool_ok_def)
  moreover have "release_page (tp_frame tp) d = (Inr (), with_bm b d)"
    using heldD(6) [OF ok(1)] b(1) by (simp add: release_page_def page_id_of_def in_pool_def in_store_def comp_simps)
  moreover have "page_content b (tp_page_id tp) = Some (fdata (tp_frame tp) (db_bm d))" using fdata_content [OF heldD(2) [OF ok(1)]] k by blast
  ultimately show ?thesis using that b(2,3) ok(4) assms(3) k by blast
qed

lemma leave_page:
  assumes st: "stored_table n ps t d its rss" and at: "ps = pre @ p # qs" "rss = A @ rs # C" "length A = length pre"
    and c: "keeps_pages (db_bm d) c" "pinned n p (tp_frame tp) c" and ev: "evolves {0, p} c (db_bm d2)" "bm_next_id (db_bm d2) = bm_next_id c"
    and tp: "table_ok tp (db_store d2) its2 rs2" "tp_page_id tp = p" "tp_next tp = first_id qs" "tp_table tp = t" and bk: "backed (db_bm d2) p"
  obtains b where "release_page (tp_frame tp) d2 = (Inr (), with_bm b d2)" "stored_table n ps t (with_bm b d2) its2 (A @ rs2 # C)"
    "versions_kept (insert 0 (set ps)) (db_bm d) b" "bm_next_id b = bm_next_id (db_bm d)" "\<forall>q. q \<notin> {0, p} \<longrightarrow> backed (db_bm d) q \<longrightarrow> backed b q"
    "\<forall>q x. q \<notin> {0, p} \<longrightarrow> page_content (db_bm d) q = Some x \<longrightarrow> page_content b q = Some x"
proof -
  note S = st [unfolded stored_table_def]
  let ?f = "tp_frame tp" and ?P = "insert 0 (set ps)"
  have pin: "pinned n p ?f (db_bm d2)" using c(2) evolvesD(3,4) [OF ev(1)] evolvesD(5) [OF ev(1), of p ?f] by (simp add: pinned_def)
  obtain b x where b: "release_page ?f d2 = (Inr (), with_bm b d2)" "keeps_pages (db_bm d2) b" "length (bm_free b) = n" "meta_rep (db_store (with_bm b d2)) its2"
    "page_content b (tp_page_id tp) = Some x" "page_layout tp rs2 x" "backed b (tp_page_id tp)" "pool_ok b"
    by (rule release_visit [OF tp(1), of n]) (use pin tp(2) bk evolvesD(1) [OF ev(1)] in simp_all)
  note ok = table_okD [OF tp(1)]
  have kept: "page_content b q = Some y" if "q \<notin> {0, p}" "page_content (db_bm d) q = Some y" for q y
    using that c(1) evolvesD(6) [OF ev(1)] b(2) unfolding keeps_pages_def by blast
  have bkd: "backed b q" if "q \<notin> {0, p}" "backed (db_bm d) q" for q using that c(1) evolvesD(7) [OF ev(1)] b(2) unfolding keeps_pages_def by blast
  have ne: "q \<notin> {0, p}" if "q \<in> set pre \<union> set qs" for q using that S at(1) chain_pages [of "db_bm d" ps rss q] by auto
  have "chain b ps (A @ rs2 # C)" unfolding at(1)
    by (rule chain_change [where b = "db_bm d" and rs = rs and tp' = tp]) (use S at kept bkd ne b(5-7) tp(2,3) in auto)
  moreover have "named b q" if "q \<in> set ps" for q
  proof (cases "q = p")
    case True
    then show ?thesis using b(5,6) tp(2) unfolding named_def by blast
  next
    case False
    then show ?thesis using that S at(1) kept [OF ne [of q]] unfolding named_def by fastforce
  qed
  ultimately have "stored_table n ps t (with_bm b d2) its2 (A @ rs2 # C)" using b(3,4,8) S ok(3) tp(4) by (simp add: stored_table_def)
  moreover have "versions_kept ?P (db_bm d) b"
    using keeps_versions [OF c(1)] version_at_kept [OF _ ev(1)] keeps_versions [OF b(2)] at(1) unfolding versions_kept_def by auto
  ultimately show ?thesis using that [OF b(1)] ev(2) c(1) b(2) kept bkd by (simp add: keeps_pages_def)
qed

text \<open>The same after a flush, for work that marked the page as changed.\<close>

lemma flush_and_leave:
  assumes st: "stored_table n ps t d its rss" and at: "ps = pre @ p # qs" "rss = A @ rs # C" "length A = length pre"
    and c: "keeps_pages (db_bm d) c" "pinned n p (tp_frame tp) c" and w: "keeps {0, p} (db_store (with_bm c d)) (db_store d2)"
    and tp: "table_ok tp (db_store d2) its2 rs2" "tp_page_id tp = p" "tp_next tp = first_id qs" "tp_table tp = t" and dirty: "pg_dirty (frame_of (tp_frame tp) (db_bm d2))"
  obtains b where "thn (flush_page (tp_frame tp)) (release_page (tp_frame tp)) d2 = (Inr (), with_bm b d2)" "stored_table n ps t (with_bm b d2) its2 (A @ rs2 # C)"
    "versions_kept (insert 0 (set ps)) (db_bm d) b" "bm_next_id b = bm_next_id (db_bm d)" "\<forall>q. q \<notin> {0, p} \<longrightarrow> backed (db_bm d) q \<longrightarrow> backed b q"
    "\<forall>q x. q \<notin> {0, p} \<longrightarrow> page_content (db_bm d) q = Some x \<longrightarrow> page_content b q = Some x"
proof -
  obtain b1 where b1: "flush_page (tp_frame tp) d2 = (Inr (), with_bm b1 d2)" "table_ok tp (db_store (with_bm b1 d2)) its2 rs2"
    "keeps {tp_page_id tp} (db_store d2) (db_store (with_bm b1 d2))" "backed b1 (tp_page_id tp)" by (rule flush_page_run [OF tp(1) dirty]) blast
  have kp: "keeps {0, p} (db_store (with_bm c d)) (db_store (with_bm b1 d2))" by (rule keeps_trans [OF w b1(3)]) (simp_all add: tp(2))
  have "pool_ok c" using c(1) by (simp add: keeps_pages_def)
  then have ev: "evolves {0, p} c b1" "bm_next_id b1 = bm_next_id c" using kp by (simp_all add: keeps_def)
  obtain b where "release_page (tp_frame tp) (with_bm b1 d2) = (Inr (), with_bm b (with_bm b1 d2))" "stored_table n ps t (with_bm b (with_bm b1 d2)) its2 (A @ rs2 # C)"
    "versions_kept (insert 0 (set ps)) (db_bm d) b" "bm_next_id b = bm_next_id (db_bm d)" "\<forall>q. q \<notin> {0, p} \<longrightarrow> backed (db_bm d) q \<longrightarrow> backed b q"
    "\<forall>q x. q \<notin> {0, p} \<longrightarrow> page_content (db_bm d) q = Some x \<longrightarrow> page_content b q = Some x"
    by (rule leave_page [OF st at c, of "with_bm b1 d2" its2 rs2]) (use ev b1(2,4) tp(2-4) in simp_all)
  then show ?thesis using that [of b] b1(1) by (simp add: comp_simps)
qed

section \<open>Visiting a row\<close>

text \<open>A row of the table is reached through its place; and after its record was replaced, the page is flushed and given back.\<close>

lemma visit_row:
  assumes st: "stored_table n ps t d its rss" and n: "1 \<le> n" and j: "j < length (concat rss)" and r: "22 \<le> length (concat rss ! j)"
  obtains tp c rs i where "BM_FetchPage (rid_page (places ps rss ! j)) (db_bm d) = (Inr (tp_frame tp), c)"
    "TablePage_new t (tp_frame tp) True (db_store (with_bm c d)) = (Inr tp, db_store (with_bm c d))" "tp_table tp = t"
    "table_row tp (db_store (with_bm c d)) its rs (places ps rss ! j) i" "rs ! i = concat rss ! j"
    "\<And>d2 its2 x. keeps {META_PAGE_ID, tp_page_id tp} (db_store (with_bm c d)) (db_store d2) \<Longrightarrow> table_ok tp (db_store d2) its2 (rs[i := x]) \<Longrightarrow>
       pg_dirty (frame_of (tp_frame tp) (db_bm d2)) \<Longrightarrow>
       \<exists>b rss'. thn (flush_page (tp_frame tp)) (release_page (tp_frame tp)) d2 = (Inr (), with_bm b d2) \<and> stored_table n ps t (with_bm b d2) its2 rss' \<and>
         concat rss' = (concat rss)[j := x] \<and> map length rss' = map length rss \<and> versions_kept (insert 0 (set ps)) (db_bm d) b"
proof -
  have len: "length ps = length rss" using st chain_length by (auto simp: stored_table_def)
  obtain pre p qs A rs C i where at: "ps = pre @ p # qs" "rss = A @ rs # C" "length A = length pre" and i: "i < length rs"
    "places ps rss ! j = \<lparr>rid_page = p, rid_row = word_of_nat (Suc i)\<rparr>" "concat rss ! j = rs ! i" "\<And>x. concat (A @ rs[i := x] # C) = (concat rss)[j := x]"
    by (rule row_index [OF len j]) blast
  obtain tp c where c: "BM_FetchPage p (db_bm d) = (Inr (tp_frame tp), c)"
    "TablePage_new t (tp_frame tp) True (db_store (with_bm c d)) = (Inr tp, db_store (with_bm c d))" "table_ok tp (db_store (with_bm c d)) its rs"
    "tp_table tp = t" "tp_page_id tp = p" "tp_next tp = first_id qs" "keeps_pages (db_bm d) c" "pinned n p (tp_frame tp) c"
    by (rule enter_page [OF st n at])
  have "i < 1024" using page_layout_count [OF table_okD(4) [OF c(3)]] i(1) by simp
  then have "unat (rid_row (places ps rss ! j)) = Suc i" using i(2) by (simp add: unat_of_nat take_bit_eq_mod del: of_nat_Suc)
  then have tr: "table_row tp (db_store (with_bm c d)) its rs (places ps rss ! j) i" using c(3) i(1,3) r by (simp add: table_row_def)
  have leave: "\<exists>b rss'. thn (flush_page (tp_frame tp)) (release_page (tp_frame tp)) d2 = (Inr (), with_bm b d2) \<and> stored_table n ps t (with_bm b d2) its2 rss' \<and>
      concat rss' = (concat rss)[j := x] \<and> map length rss' = map length rss \<and> versions_kept (insert 0 (set ps)) (db_bm d) b"
    if k: "keeps {META_PAGE_ID, tp_page_id tp} (db_store (with_bm c d)) (db_store d2)" and ok: "table_ok tp (db_store d2) its2 (rs[i := x])"
      and dirty: "pg_dirty (frame_of (tp_frame tp) (db_bm d2))" for d2 its2 x
  proof -
    obtain b where "thn (flush_page (tp_frame tp)) (release_page (tp_frame tp)) d2 = (Inr (), with_bm b d2)" "stored_table n ps t (with_bm b d2) its2 (A @ rs[i := x] # C)"
      "versions_kept (insert 0 (set ps)) (db_bm d) b"
      by (rule flush_and_leave [OF st at c(7,8) _ ok c(5,6,4) dirty]) (use k c(5) in simp)
    then show ?thesis using i(4) at(2) by (intro exI [of _ b] exI [of _ "A @ rs[i := x] # C"]) simp
  qed
  show ?thesis by (rule that [of tp c rs i]) (use c(1,2,4) i(2,3) tr leave in simp_all)
qed

end
