(* ===== verification/Rollback_Rows.thy ===== *)
theory Rollback_Rows
  imports Stored_Table
begin

text \<open>
  What a rollback does to the table (\<^verbatim>\<open>RollbackWrites\<close>, \<^verbatim>\<open>Abort\<close> in \<^verbatim>\<open>transaction/transaction_manager.cpp\<close>).  Every entry of the write set names a place; its page is fetched, the
  old header of the row is written back, the page is flushed and released.  Shown: aborting a transaction that ran a DELETE ends, and the table holds the records it held before, byte for
  byte, with the old row count in the catalog page.
\<close>

section \<open>Taking back one deletion\<close>

lemma undo_delete_step:
  assumes st: "stored_table n ps t d its rss" and n: "1 \<le> n" and j: "j < length (concat rss)" and row: "concat rss ! j = deleted_row ctx ptr r"
    and r: "22 \<le> length r" "rh_flags (read_header r) AND RECORD_DEL = 0"
  obtains b rss' where "undo_write (undo_entry t (places ps rss ! j) r) d = (Inr (), d\<lparr>db_store := b\<rparr>)" "stored_table n ps t (d\<lparr>db_store := b\<rparr>) (add_rows t 1 its) rss'"
    "concat rss' = (concat rss)[j := r]" "map length rss' = map length rss" "versions_kept (insert 0 (set ps)) (db_bm d) (st_bm b)"
proof -
  let ?h = "read_header r" and ?rid = "places ps rss ! j"
  have l: "22 \<le> length (concat rss ! j)" using length_with_header [OF r(1)] r(1) by (simp add: row deleted_row_def)
  obtain tp c rs k where c: "BM_FetchPage (rid_page ?rid) (db_bm d) = (Inr (tp_frame tp), c)"
    "TablePage_new t (tp_frame tp) True (db_store (with_bm c d)) = (Inr tp, db_store (with_bm c d))" "tp_table tp = t"
    "table_row tp (db_store (with_bm c d)) its rs ?rid k" "rs ! k = concat rss ! j"
    "\<And>d2 its2 x. keeps {META_PAGE_ID, tp_page_id tp} (db_store (with_bm c d)) (db_store d2) \<Longrightarrow> table_ok tp (db_store d2) its2 (rs[k := x]) \<Longrightarrow>
       pg_dirty (frame_of (tp_frame tp) (db_bm d2)) \<Longrightarrow>
       \<exists>b rss'. thn (flush_page (tp_frame tp)) (release_page (tp_frame tp)) d2 = (Inr (), with_bm b d2) \<and> stored_table n ps t (with_bm b d2) its2 rss' \<and>
         concat rss' = (concat rss)[j := x] \<and> map length rss' = map length rss \<and> versions_kept (insert 0 (set ps)) (db_bm d) b"
    by (rule visit_row [OF st n j l]) blast
  let ?s = "db_store (with_bm c d)"
  have rw: "rs ! k = with_header \<lparr>rh_trx_id = cur_txn ctx, rh_roll_ptr = ptr, rh_flags = rh_flags ?h OR RECORD_DEL\<rparr> r" using c(5) row by (simp add: deleted_row_def)
  have fl: "(rh_flags ?h OR RECORD_DEL) AND RECORD_DEL \<noteq> 0" using deleted_flag by simp
  have eta: "\<lparr>rh_trx_id = rh_trx_id ?h, rh_roll_ptr = rh_roll_ptr ?h, rh_flags = rh_flags ?h\<rparr> = ?h" by simp
  have new: "read_header (rs ! k) = \<lparr>rh_trx_id = cur_txn ctx, rh_roll_ptr = ptr, rh_flags = rh_flags ?h OR RECORD_DEL\<rparr>"
    and old: "with_header \<lparr>rh_trx_id = rh_trx_id ?h, rh_roll_ptr = rh_roll_ptr ?h, rh_flags = rh_flags ?h\<rparr> (rs ! k) = r"
    unfolding rw eta using r(1) with_header_same [OF r(1)] by (simp_all add: read_with_header with_header_twice)
  obtain u where u: "TP_RestoreRecord ?rid (rh_trx_id ?h) (rh_roll_ptr ?h) (rh_flags ?h) tp ?s = (Inr (), u)" "table_ok tp u (add_rows t 1 its) (rs[k := r])"
    "pg_dirty (frame_of (tp_frame tp) (st_bm u))" "keeps {META_PAGE_ID, tp_page_id tp} ?s u"
    by (rule RestoreRecord_run [OF c(4), of "rh_trx_id ?h" "rh_roll_ptr ?h" "rh_flags ?h"]) (use c(3) r(2) fl new old in simp)
  let ?d = "d\<lparr>db_store := u\<rparr>"
  obtain b rss' where b: "thn (flush_page (tp_frame tp)) (release_page (tp_frame tp)) ?d = (Inr (), with_bm b ?d)" "stored_table n ps t (with_bm b ?d) (add_rows t 1 its) rss'"
    "concat rss' = (concat rss)[j := r]" "map length rss' = map length rss" "versions_kept (insert 0 (set ps)) (db_bm d) b"
    using c(6) [of ?d "add_rows t 1 its" r] u(2-4) by auto
  have "undo_write (undo_entry t ?rid r) d = (Inr (), with_bm b ?d)"
    using c(1,2) u(1) b(1) by (simp add: undo_write_def undo_entry_def in_pool_def in_store_def comp_simps)
  then show ?thesis using that [of "u\<lparr>st_bm := b\<rparr>" rss'] b(2-5) by simp
qed

section \<open>Taking back all of them\<close>

text \<open>The rows at the places \<open>js\<close> are deleted, all others are as in \<open>orig\<close>.\<close>

definition deleted_at :: "ExecutorContext \<Rightarrow> nat list \<Rightarrow> bytes list \<Rightarrow> bytes list \<Rightarrow> bool" where
  "deleted_at ctx js orig rows \<longleftrightarrow> distinct js \<and> length rows = length orig \<and> (\<forall>j < length orig. j \<notin> set js \<longrightarrow> rows ! j = orig ! j) \<and>
     (\<forall>j \<in> set js. j < length orig \<and> 22 \<le> length (orig ! j) \<and> rh_flags (read_header (orig ! j)) AND RECORD_DEL = 0 \<and> (\<exists>ptr. rows ! j = deleted_row ctx ptr (orig ! j)))"

lemma undo_deletes:
  assumes "stored_table n ps t d its rss" "1 \<le> n" "deleted_at ctx js orig (concat rss)"
  shows "\<exists>b rss'. for_each (map (\<lambda>j. undo_entry t (places ps rss ! j) (orig ! j)) js) undo_write d = (Inr (), d\<lparr>db_store := b\<rparr>) \<and>
    stored_table n ps t (d\<lparr>db_store := b\<rparr>) ((add_rows t 1 ^^ length js) its) rss' \<and> concat rss' = orig \<and> map length rss' = map length rss \<and>
    versions_kept (insert 0 (set ps)) (db_bm d) (st_bm b)"
  using assms
proof (induction js arbitrary: d its rss)
  case Nil
  have "concat rss = orig" using Nil.prems(3) by (intro nth_equalityI) (simp_all add: deleted_at_def)
  then show ?case using Nil.prems(1) by (intro exI [of _ "db_store d"] exI [of _ rss]) (simp add: comp_simps versions_kept_def)
next
  case (Cons j js)
  note D = Cons.prems(3) [unfolded deleted_at_def]
  obtain ptr where j: "j < length (concat rss)" "concat rss ! j = deleted_row ctx ptr (orig ! j)" "22 \<le> length (orig ! j)"
    "rh_flags (read_header (orig ! j)) AND RECORD_DEL = 0" using D by auto
  obtain b rss' where b: "undo_write (undo_entry t (places ps rss ! j) (orig ! j)) d = (Inr (), d\<lparr>db_store := b\<rparr>)" "stored_table n ps t (d\<lparr>db_store := b\<rparr>) (add_rows t 1 its) rss'"
    "concat rss' = (concat rss)[j := orig ! j]" "map length rss' = map length rss" "versions_kept (insert 0 (set ps)) (db_bm d) (st_bm b)"
    by (rule undo_delete_step [OF Cons.prems(1,2) j])
  have "deleted_at ctx js orig (concat rss')"
    unfolding deleted_at_def b(3) using D j(1) by (auto simp: nth_list_update)
  then obtain c rss'' where c: "for_each (map (\<lambda>j. undo_entry t (places ps rss' ! j) (orig ! j)) js) undo_write (d\<lparr>db_store := b\<rparr>) = (Inr (), d\<lparr>db_store := c\<rparr>)"
    "stored_table n ps t (d\<lparr>db_store := c\<rparr>) ((add_rows t 1 ^^ length js) (add_rows t 1 its)) rss''" "concat rss'' = orig" "map length rss'' = map length rss'"
    "versions_kept (insert 0 (set ps)) (st_bm b) (st_bm c)" using Cons.IH [OF b(2) Cons.prems(2)] by auto
  show ?case using b(1,4,5) c places_lengths [OF b(4)] versions_kept_trans [of _ _ "st_bm b"]
    by (intro exI [of _ c] exI [of _ rss'']) (auto simp: comp_simps funpow_swap1)
qed

text \<open>The row count goes down and up again; a count of zero would stay there on the way down.\<close>

lemma rows_down_up: "h \<le> unat n \<Longrightarrow> ((\<lambda>x. rows_after x 1) ^^ h) (((\<lambda>x. rows_after x (- 1)) ^^ h) n) = n"
proof (induction h arbitrary: n)
  case (Suc h)
  have n: "0 < n" using Suc.prems by (simp add: word_less_nat_alt)
  then have d: "rows_after n (- 1) = n - 1" "rows_after (n - 1) 1 = n" by (auto simp: rows_after_def word_less_nat_alt)
  have "unat (n - 1) = unat n - 1" using n by (subst unat_sub) (simp_all add: word_less_nat_alt word_le_nat_alt)
  then have "h \<le> unat (n - 1)" using Suc.prems by simp
  note ih = Suc.IH [OF this]
  have down: "((\<lambda>x. rows_after x (- 1)) ^^ Suc h) n = ((\<lambda>x. rows_after x (- 1)) ^^ h) (rows_after n (- 1))"
    using funpow_swap1 [of "\<lambda>x. rows_after x (- 1)" h n] by simp
  have up: "((\<lambda>x. rows_after x 1) ^^ Suc h) y = rows_after (((\<lambda>x. rows_after x 1) ^^ h) y) 1" for y by simp
  show ?case unfolding down up d(1) ih by (rule d(2))
qed simp

lemma add_rows_funpow: "(add_rows t c ^^ h) its = map (\<lambda>it. if mi_id it = t then it\<lparr>mi_rows := ((\<lambda>x. rows_after x c) ^^ h) (mi_rows it)\<rparr> else it) its"
  by (induction h) (auto simp: add_rows_def map_idI)

lemma add_rows_funpow_ids: "mi_id ` set ((add_rows t c ^^ h) its) = mi_id ` set its"
  by (induction h) simp_all

lemma add_rows_back:
  assumes "\<forall>it \<in> set its. mi_id it = t \<longrightarrow> h \<le> unat (mi_rows it)"
  shows "(add_rows t 1 ^^ h) ((add_rows t (- 1) ^^ h) its) = its"
  unfolding add_rows_funpow using assms rows_down_up by (auto intro!: map_idI)

section \<open>The statement\<close>

text \<open>The write set of a DELETE, by the positions of the rows.\<close>

lemma delete_entries_at:
  assumes "length rids = length rows"
  shows "delete_entries t (filter (\<lambda>x. pick (snd x)) (zip rids rows)) =
    map (\<lambda>j. undo_entry t (rids ! j) (rows ! j)) (filter (\<lambda>j. pick (rows ! j)) [0..<length rows])"
    "length (filter (\<lambda>x. pick (snd x)) (zip rids rows)) = length (filter (\<lambda>j. pick (rows ! j)) [0..<length rows])"
proof -
  have "zip rids rows = map (\<lambda>j. (rids ! j, rows ! j)) [0..<length rows]" using assms by (intro nth_equalityI) simp_all
  then show "delete_entries t (filter (\<lambda>x. pick (snd x)) (zip rids rows)) = map (\<lambda>j. undo_entry t (rids ! j) (rows ! j)) (filter (\<lambda>j. pick (rows ! j)) [0..<length rows])"
    "length (filter (\<lambda>x. pick (snd x)) (zip rids rows)) = length (filter (\<lambda>j. pick (rows ! j)) [0..<length rows])"
    by (simp_all add: delete_entries_def filter_map comp_def)
qed

lemma concat_same: "map length xss = map length yss \<Longrightarrow> concat xss = concat yss \<Longrightarrow> xss = yss"
proof (induction xss arbitrary: yss)
  case (Cons xs xss)
  then show ?case by (cases yss) auto
qed simp

lemma TM_Abort_run:
  assumes "for_each (rev (tx_write_set (txn_of (db_txn d) i))) undo_write d = (Inr (), d\<lparr>db_store := b\<rparr>)" "tm_storage (db_txn d)"
    and "db_log_holds d rs" "tm_log (db_txn d)" "i \<in> set (tm_active (db_txn d))"
  defines "logs \<equiv> rs @ [recovered (lm_next_lsn (db_log d)) (control i LR_ABORT)]"
  obtains e where "TM_Abort i d = (Inr (), e)" "db_txn e = finish_txn i ABORTED (db_txn d)" "durable_log e = concat (map encode_record logs)"
    "db_store e = b" "db_catalog e = db_catalog d" "db_log_holds e logs"
proof -
  let ?d = "d\<lparr>db_store := b, db_txn := finish_txn i ABORTED (db_txn d)\<rparr>"
  have "db_log_holds ?d rs" "tm_log (db_txn ?d)" using assms(3,4) by (simp_all add: db_log_holds_def finish_txn_def update_txn_def)
  then obtain l where l: "log_and_flush i LR_ABORT ?d = (Inr (), ?d\<lparr>db_log := l\<rparr>)" "db_log_holds (?d\<lparr>db_log := l\<rparr>) logs"
    "durable_log (?d\<lparr>db_log := l\<rparr>) = concat (map encode_record logs)"
    unfolding logs_def using log_and_flush_run [of ?d rs i LR_ABORT] by auto
  have "TM_Abort i d = (Inr (), ?d\<lparr>db_log := l\<rparr>)" using assms(1,2,5) l(1) by (simp add: TM_Abort_def RollbackWrites_def on_txn_def comp_simps)
  then show ?thesis using that l(2,3) by simp
qed

lemma abort_after_delete:
  assumes del: "rows_deleted pick ctx j (length (bm_free (db_bm d))) ps i (places ps rss) d its logs rss [] (concat rss) d2" and tab: "table_at d t i te its ps rss"
    and rows: "\<forall>r \<in> set (concat rss). 22 \<le> length r \<and> (pick r \<longrightarrow> rh_flags (read_header r) AND RECORD_DEL = 0)"
    and ws: "tx_write_set (txn_of (db_txn d) j) = []" and tm: "tm_storage (db_txn d)" "tm_log (db_txn d)" "j \<in> set (tm_active (db_txn d))"
  defines "h \<equiv> length (filter pick (concat rss))"
  obtains e recs where "TM_Abort j d2 = (Inr (), e)" "table_at e t i te ((add_rows i 1 ^^ h) ((add_rows i (- 1) ^^ h) its)) ps rss" "db_txn e = finish_txn j ABORTED (db_txn d2)"
    "durable_log e = concat (map encode_record (logs @ recs @ [recovered (lm_next_lsn (db_log d2)) (control j LR_ABORT)]))"
    "versions_kept (insert 0 (set ps)) (db_bm d) (db_bm e)"
proof -
  let ?rows = "concat rss" and ?P = "insert 0 (set ps)" and ?n = "length (bm_free (db_bm d))"
  let ?js = "filter (\<lambda>j. pick (?rows ! j)) [0..<length ?rows]"
  note T = tab [unfolded table_at_def] and R = del [unfolded rows_deleted_def Let_def]
  obtain rss' where x: "chain (db_bm d2) ps rss'" "map length rss' = map length rss" "list_all2 (\<lambda>r. row_outcome ctx ?P (db_bm d2) (pick r) r) ?rows (concat rss')" using R by auto
  obtain recs where recs: "db_log_holds d2 (logs @ recs)" using R by blast
  have len: "length (places ps rss) = length ?rows" using T chain_length length_places by blast
  note ents = delete_entries_at(1) [OF len, of i pick] delete_entries_at(2) [OF len, of pick]
  have same: "same_views (db_txn d) (db_txn d2)" using R by blast
  have ids: "mi_id ` set ((add_rows i (- 1) ^^ k) its) = mi_id ` set its" for k by (induction k) simp_all
  have st: "stored_table ?n ps i d2 ((add_rows i (- 1) ^^ length ?js) its) rss'" using R T x(1) ents(2) ids by (simp add: stored_table_def)
  have da: "deleted_at ctx (rev ?js) ?rows (concat rss')"
  proof -
    have "22 \<le> length (?rows ! j) \<and> (pick (?rows ! j) \<longrightarrow> rh_flags (read_header (?rows ! j)) AND RECORD_DEL = 0)" if "j < length ?rows" for j
      using rows nth_mem [OF that] by blast
    moreover have "row_outcome ctx ?P (db_bm d2) (pick (?rows ! j)) (?rows ! j) (concat rss' ! j)" if "j < length ?rows" for j
      using list_all2_nthD [OF x(3) that] .
    then have "if pick (?rows ! j) then \<exists>ptr. concat rss' ! j = deleted_row ctx ptr (?rows ! j) else concat rss' ! j = ?rows ! j" if "j < length ?rows" for j
      using that unfolding row_outcome_def by metis
    ultimately show ?thesis using list_all2_lengthD [OF x(3)] unfolding deleted_at_def by simp
  qed
  obtain b rss2 where b: "for_each (map (\<lambda>j. undo_entry i (places ps rss' ! j) (?rows ! j)) (rev ?js)) undo_write d2 = (Inr (), d2\<lparr>db_store := b\<rparr>)"
    "stored_table ?n ps i (d2\<lparr>db_store := b\<rparr>) ((add_rows i 1 ^^ length (rev ?js)) ((add_rows i (- 1) ^^ length ?js) its)) rss2" "concat rss2 = ?rows" "map length rss2 = map length rss'"
    "versions_kept ?P (db_bm d2) (st_bm b)" using undo_deletes [OF st _ da] T by auto
  let ?its = "(add_rows i 1 ^^ h) ((add_rows i (- 1) ^^ h) its)"
  have "filter pick ?rows = map ((!) ?rows) ?js" using filter_map [of pick "(!) ?rows" "[0..<length ?rows]"] by (simp add: map_nth comp_def)
  then have undone: "(add_rows i 1 ^^ length (rev ?js)) ((add_rows i (- 1) ^^ length ?js) its) = ?its" by (simp add: h_def)
  have rss2: "rss2 = rss" using concat_same [of rss2 rss] b(3,4) x(2) by simp
  have "rev (tx_write_set (txn_of (db_txn d2) j)) = map (\<lambda>j. undo_entry i (places ps rss' ! j) (?rows ! j)) (rev ?js)"
    using R ws ents(1) places_lengths [OF x(2)] by (simp add: rev_map)
  then have run: "for_each (rev (tx_write_set (txn_of (db_txn d2) j))) undo_write d2 = (Inr (), d2\<lparr>db_store := b\<rparr>)" using b(1) by simp
  obtain e where e: "TM_Abort j d2 = (Inr (), e)" "db_txn e = finish_txn j ABORTED (db_txn d2)"
    "durable_log e = concat (map encode_record ((logs @ recs) @ [recovered (lm_next_lsn (db_log d2)) (control j LR_ABORT)]))" "db_store e = b" "db_catalog e = db_catalog d2"
    by (rule TM_Abort_run [OF run _ recs]) (use tm same in \<open>simp_all add: same_views_def\<close>)
  have "meta_rep b ?its" using b(2) undone by (simp add: stored_table_def)
  then have "mp_name_tables (st_meta b) = mp_name_tables (st_meta (db_store d))"
    using T by (simp add: meta_rep_def tables_of_def add_rows_names)
  moreover have "mi_id ` set ?its = mi_id ` set its" by (simp add: add_rows_funpow_ids ids)
  ultimately have "table_at e t i te ?its ps rss" using b(2) undone rss2 e(4,5) T R by (simp add: table_at_def stored_table_def)
  moreover have "versions_kept ?P (db_bm d) (db_bm e)" unfolding e(4) by (rule versions_kept_trans [OF _ b(5)]) (use R in blast)
  ultimately show ?thesis using that [OF e(1) _ e(2)] e(3) by simp
qed

text \<open>C9.
  An aborted DELETE leaves no trace in the table.  A transaction working on a snapshot, with an empty write set, runs a DELETE and is aborted; the condition evaluates on
  every record, and no record is longer than 4052 bytes, so that its undo record fits into a page: the abort returns, the pages of the table hold the
  records they held before the statement, byte for byte, whether live, deleted or dead, the transaction is aborted and no longer active, the log file ends with its abort record, and every
  older version outside the table is still there.  The row count in the catalog was counted down once for every row deleted and is counted up as often; since counting down stops
  at zero, it is the old count if that was not below the number of rows deleted, and the catalog page is then the old one.
\<close>

theorem aborted_delete_leaves_no_trace:
  assumes "table_at d t i te its ps rss" "writable ctx (insert 0 (set ps)) d logs (length (concat rss)) (length (concat rss))"
    and "tm_run m TransactionManager_new s" "tm_run n s (db_txn d)" "m + n + 1 < 2 ^ 64"
    and "ctx_txn ctx = Some j" "j \<in> set (tm_active (db_txn d))" "tx_read_view (txn_of (db_txn d) j) = Some (CreateReadView j s)"
    and "\<And>r. r \<in> set (concat rss) \<Longrightarrow> testable D ctx d (TE_GetSchema te) (xd_filter xd) r \<and> length r \<le> 4052"
    and "xd_table_name xd = t" "xd_schema xd = []" "\<not> xd_done xd" "length ps < fuel" "length (concat rss) < fuel"
    and "tx_write_set (txn_of (db_txn d) j) = []" "tm_storage (db_txn d)" "tm_log (db_txn d)"
    and "h = length (filter (picked D ctx d (TE_GetSchema te) (xd_filter xd)) (concat rss))"
  shows "\<exists>xd1 d1 xd2 d2 e recs. XD_Open fuel xd d = (Inr xd1, d1) \<and> XD_Next D fuel ctx xd1 d1 = (Inr xd2, d2) \<and> TM_Abort j d2 = (Inr (), e) \<and>
    table_at e t i te ((add_rows i 1 ^^ h) ((add_rows i (- 1) ^^ h) its)) ps rss \<and>
    ((\<forall>it \<in> set its. mi_id it = i \<longrightarrow> h \<le> unat (mi_rows it)) \<longrightarrow> table_at e t i te its ps rss) \<and>
    tm_state (db_txn e) j = Some ABORTED \<and> j \<notin> set (tm_active (db_txn e)) \<and>
    durable_log e = concat (map encode_record (logs @ recs @ [recovered (lm_next_lsn (db_log d2)) (control j LR_ABORT)])) \<and>
    versions_kept (insert 0 (set ps)) (db_bm d) (db_bm e)"
proof -
  let ?pick = "picked D ctx d (TE_GetSchema te) (xd_filter xd)" and ?rows = "concat rss" and ?P = "insert 0 (set ps)" and ?n = "length (bm_free (db_bm d))"
  have nc: "no_conflicts ctx d" using visible_writer_passes(3) [OF assms(3-8)] by (simp add: no_conflicts_def)
  have test: "\<forall>r \<in> set ?rows. testable D ctx d (TE_GetSchema te) (xd_filter xd) r \<and> (?pick r \<longrightarrow> length r \<le> 4052)" using assms(9) by blast
  obtain xd1 d1 xd2 d2 where e: "XD_Open fuel xd d = (Inr xd1, d1)" "XD_Next D fuel ctx xd1 d1 = (Inr xd2, d2)"
    "rows_deleted ?pick ctx j ?n ps i (places ps rss) d its logs rss [] ?rows d2"
    by (rule delete_run [OF assms(1,2,6) nc refl test assms(10-14)])
  have rows: "\<forall>r \<in> set ?rows. 22 \<le> length r \<and> (?pick r \<longrightarrow> rh_flags (read_header r) AND RECORD_DEL = 0)"
    using test by (auto simp: testable_def picked_def open_to_def)
  let ?its = "(add_rows i 1 ^^ h) ((add_rows i (- 1) ^^ h) its)"
  obtain f recs where f: "TM_Abort j d2 = (Inr (), f)" "table_at f t i te ?its ps rss" "db_txn f = finish_txn j ABORTED (db_txn d2)"
    "durable_log f = concat (map encode_record (logs @ recs @ [recovered (lm_next_lsn (db_log d2)) (control j LR_ABORT)]))"
    "versions_kept (insert 0 (set ps)) (db_bm d) (db_bm f)"
    by (rule abort_after_delete [OF e(3) assms(1) rows assms(15-17,7), folded assms(18)])
  moreover have "table_at f t i te its ps rss" if "\<forall>it \<in> set its. mi_id it = i \<longrightarrow> h \<le> unat (mi_rows it)"
    using f(2) unfolding add_rows_back [OF that] .
  ultimately show ?thesis using e(1,2)
    by (intro exI [of _ xd1] exI [of _ d1] exI [of _ xd2] exI [of _ d2] exI [of _ f] exI [of _ recs]) simp
qed

text \<open>The table with one row again, under a transaction manager that logs and rolls back.\<close>

definition server_db :: "frame_id \<Rightarrow> BufferManager \<Rightarrow> DB" where
  "server_db f c = (table_db f c)\<lparr>db_txn := TM_SetLogManager (TM_SetStorage demo_writers)\<rparr>"

lemma server_db_txn:
  "tm_run 1 (snd (begin_register TransactionManager_new)) (db_txn (server_db f c))" "1 \<in> set (tm_active (db_txn (server_db f c)))"
  "tx_read_view (txn_of (db_txn (server_db f c)) 1) = Some (CreateReadView 1 (snd (begin_register TransactionManager_new)))"
  "tx_write_set (txn_of (db_txn (server_db f c)) 1) = []" "tm_storage (db_txn (server_db f c))" "tm_log (db_txn (server_db f c))"
proof -
  have "tm_run 1 (snd (begin_register TransactionManager_new)) (TM_SetStorage demo_writers)" using run_step [OF demo_writers_run sets_storage] by (simp add: TM_SetStorage_def)
  from run_step [OF this sets_log] show "tm_run 1 (snd (begin_register TransactionManager_new)) (db_txn (server_db f c))"
    by (simp add: TM_SetLogManager_def server_db_def)
  show "1 \<in> set (tm_active (db_txn (server_db f c)))"
    "tx_read_view (txn_of (db_txn (server_db f c)) 1) = Some (CreateReadView 1 (snd (begin_register TransactionManager_new)))"
    using table_db_txn(2,3) [of f c] by (simp_all add: server_db_def table_db_def TM_SetLogManager_def TM_SetStorage_def txn_of_def)
  show "tx_write_set (txn_of (db_txn (server_db f c)) 1) = []" "tm_storage (db_txn (server_db f c))" "tm_log (db_txn (server_db f c))"
    by (simp_all add: server_db_def demo_writers_def begin_register_def GetNextTxId_def TransactionManager_new_def take_view_def txn_of_def update_txn_def
        TM_SetLogManager_def TM_SetStorage_def)
qed

lemma aborted_delete_leaves_no_trace_witness:
  "\<exists>d xd1 d1 xd2 d2 e. XD_Open 9 demo_delete d = (Inr xd1, d1) \<and> XD_Next demo_doubles 9 reader xd1 d1 = (Inr xd2, d2) \<and> TM_Abort 1 d2 = (Inr (), e) \<and>
     chain (db_bm e) [1] [[demo_record]] \<and> meta_rep (db_store e) [users_item] \<and> tm_state (db_txn e) 1 = Some ABORTED"
proof -
  obtain f c where t: "table_at (table_db f c) ''users'' 7 demo_entry [users_item] [1] [[demo_record]]" "writable reader {0, 1} (table_db f c) [] 1 1"
    using table_db_ready by blast
  then have t: "table_at (server_db f c) ''users'' 7 demo_entry [users_item] [1] [[demo_record]]" "writable reader {0, 1} (server_db f c) [] 1 1"
    by (simp_all add: table_at_def writable_def server_db_def db_log_holds_def)
  note v = server_db_txn [of f c] and p = demo_record_picked [of demo_record demo_doubles reader "server_db f c"]
  have pk: "testable demo_doubles reader (server_db f c) sch None demo_record" "picked demo_doubles reader (server_db f c) sch None demo_record" for sch
    using p demo_record_facts(1,2) by simp_all
  have u: "xd_table_name demo_delete = ''users''" "xd_schema demo_delete = []" "\<not> xd_done demo_delete" "xd_filter demo_delete = None"
    by (simp_all add: demo_delete_def)
  obtain xd1 d1 xd2 d2 e where "XD_Open 9 demo_delete (server_db f c) = (Inr xd1, d1)" "XD_Next demo_doubles 9 reader xd1 d1 = (Inr xd2, d2)"
    "TM_Abort 1 d2 = (Inr (), e)" "table_at e ''users'' 7 demo_entry [users_item] [1] [[demo_record]]" "tm_state (db_txn e) 1 = Some ABORTED"
    using aborted_delete_leaves_no_trace [OF t(1) _ demo_begins v(1) _ _ v(2,3) _ _ _ _ _ _ v(4-6) refl, where ctx = reader and logs = "[]" and D = demo_doubles
        and xd = demo_delete and fuel = 9] t(2) u pk demo_record_facts(2) by (auto simp: users_item_def)
  then show ?thesis unfolding table_at_def by blast
qed

end
