(* ===== verification/Table_Growth.thy ===== *)
theory Table_Growth
  imports Stored_Table
begin

text \<open>
  How a table grows (\<^verbatim>\<open>executor/executor_insert.cpp\<close>, \<^verbatim>\<open>executor/executor_update.cpp\<close>): a record goes to the last page of the table; when the page has no room for it a new page is allocated,
  linked behind the last one and noted in the catalog page.  Shown: in both cases the records of the table are the old ones followed by the new one.
\<close>

section \<open>A new page in the pool\<close>

lemma new_pinned:
  assumes ok: "pool_ok b" and free: "bm_free b \<noteq> []" and addr: "addressable (bm_next_id b)"
  obtains f c where "BM_NewPage b = (Inr f, c)" "held (bm_next_id b) f c" "pool_ok c" "bm_next_id c = bm_next_id b + 1"
    "\<forall>q d. page_content b q = Some d \<longrightarrow> page_content c q = Some d" "\<forall>q. q \<noteq> bm_next_id b \<longrightarrow> backed b q \<longrightarrow> backed c q"
    "\<forall>q g. bm_pages b q = Some g \<longrightarrow> q \<noteq> bm_next_id b \<and> bm_pages c q = Some g \<and> pin_count (bm_lru c) g = pin_count (bm_lru b) g"
    "pin_count (bm_lru c) f = 1" "Suc (length (bm_free c)) = length (bm_free b)"
proof -
  let ?f = "last (bm_free b)" and ?i = "bm_next_id b" and ?c = "allocated (last (bm_free b)) b"
  note p = pool_okD [OF ok]
  have new: "bm_pages b ?i = None" by (rule pool_ok_fresh [OF ok]) simp
  have run: "BM_NewPage b = (Inr ?f, ?c)" by (rule BM_NewPage_run [OF p(1) free])
  obtain f c where s: "BM_NewPage b = (Inr f, c)" "held ?i f c" "pool_ok c" "\<forall>q d. page_content b q = Some d \<longrightarrow> page_content c q = Some d"
    by (rule new_session [OF ok free addr])
  have fc: "f = ?f" "c = ?c" using s(1) run by auto
  have f: "?f < length (bm_frames b)" using last_free(1) [OF p(1) free] bm_invD(3) [OF p(1)] by simp
  have ne: "g \<noteq> ?f" if "bm_pages b q = Some g" for q g using last_free(4) [OF p(1) free] that by (auto simp: ran_def)
  have old: "q \<noteq> ?i" if "bm_pages b q = Some g" for q g using new that by auto
  have "bm_next_id ?c = ?i + 1" "pin_count (bm_lru ?c) ?f = 1" "Suc (length (bm_free ?c)) = length (bm_free b)"
    using last_free(3) [OF p(1) free] f free by (simp_all add: allocated_def frame_simps)
  moreover have "\<forall>q. q \<noteq> ?i \<longrightarrow> backed b q \<longrightarrow> backed ?c q"
    using f ne by (auto simp: backed_def allocated_def frame_simps split: option.splits)
  moreover have "\<forall>q g. bm_pages b q = Some g \<longrightarrow> q \<noteq> ?i \<and> bm_pages ?c q = Some g \<and> pin_count (bm_lru ?c) g = pin_count (bm_lru b) g"
    using f ne old by (auto simp: allocated_def frame_simps)
  ultimately show ?thesis using that s fc by blast
qed

lemma release_others:
  assumes "BM_Release pid b = (Inr (), c)" "pool_ok b" "bm_pages b pid = Some f" "bm_pages b q = Some g" "q \<noteq> pid"
  shows "bm_pages c q = Some g" "pin_count (bm_lru c) g = pin_count (bm_lru b) g"
proof -
  have c: "c = released pid f b" using assms(1) BM_Release_run [OF pool_okD(3) [OF assms(2)] assms(3)] by simp
  have "g \<noteq> f" using mapped_inj [OF pool_okD(1) [OF assms(2)] assms(4), of pid] assms(3,5) by auto
  then show "bm_pages c q = Some g" "pin_count (bm_lru c) g = pin_count (bm_lru b) g"
    using assms(4,5) unfolding c by (simp_all add: released_pages) (auto simp: released_def Let_def frame_simps)
qed

section \<open>Linking it\<close>

lemma page_layout_next:
  assumes "page_layout tp rs d"
  shows "page_layout (tp\<lparr>tp_next := q\<rparr>) rs (poke 0 (tp_header (tp\<lparr>tp_next := q\<rparr>)) d)"
  using assms unfolding page_layout_def by (auto intro!: holds_at_poke_same holds_at_poke_disjoint)

lemma SetNextPageId_run:
  assumes "table_ok tp s its rs"
  obtains u where "TP_SetNextPageId q tp s = (Inr (tp\<lparr>tp_next := q\<rparr>), u)" "table_ok (tp\<lparr>tp_next := q\<rparr>) u its rs"
    "pg_dirty (frame_of (tp_frame tp) (st_bm u))" "keeps {tp_page_id tp} s u"
proof -
  let ?tp = "tp\<lparr>tp_next := q\<rparr>"
  let ?s = "tput (tp_frame tp) (poke 0 (tp_header ?tp) (tdata (tp_frame tp) s)) s"
  note ok = table_okD [OF assms]
  note p = table_ok_tput [OF assms page_layout_next [OF ok(4)], of q]
  have t: "table_ok ?tp ?s its rs" "keeps {tp_page_id tp} s ?s" using p by simp_all
  have "TP_SetNextPageId q tp s = (Inr ?tp, tdirty (tp_frame tp) ?s)"
    using WriteHeader_run [of "tp_page_id tp" ?tp s] ok(1) by (simp add: TP_SetNextPageId_def Let_def comp_simps)
  then show ?thesis using that [of "tdirty (tp_frame tp) ?s"] table_ok_tdirty [OF t(1)] keeps_trans [OF t(2), of "{tp_page_id tp}"] by simp
qed

lemma UpdateTableLastId_run:
  assumes ok: "table_ok tp s (xs @ it # ys) rs" and t: "mi_id it = tp_table tp"
  obtains u where "MP_UpdateTableLastId (tp_table tp) q s = (Inr (), u)" "table_ok tp u (xs @ it\<lparr>mi_last := q\<rparr> # ys) rs" "keeps {0} s u"
proof -
  note o = table_okD [OF ok]
  obtain u where u: "MP_UpdateTableLastId (mi_id it) q s = (Inr (), u)" "meta_rep u (xs @ it\<lparr>mi_last := q\<rparr> # ys)" "meta_only s u"
    by (rule UpdateTableLastId_effect [OF o(2)]) blast
  note fr = meta_only_frame [OF u(3) o(6)]
  have "table_ok tp u (xs @ it\<lparr>mi_last := q\<rparr> # ys) rs" using fr(1,2) o u(2) t by (simp add: table_ok_def)
  then show ?thesis using that u(1,3) t meta_only_keeps [OF u(3) o(5)] by simp
qed

lemma allocate_run:
  assumes tp: "table_ok tp (db_store d) (xs @ it # ys) rs" "tp_table tp = t" "mi_id it = t" and pin: "pinned n (tp_page_id tp) (tp_frame tp) (db_bm d)"
    and bk: "backed (db_bm d) (tp_page_id tp)" and ok: "pool_ok (db_bm d)" and n: "3 \<le> n" and addr: "addressable (bm_next_id (db_bm d))"
  obtains tp2 b x where "AllocateAndLinkNewPage t tp d = (Inr tp2, d\<lparr>db_store := b\<rparr>)" "table_ok tp2 b (xs @ it\<lparr>mi_last := bm_next_id (db_bm d)\<rparr> # ys) []"
    "tp_page_id tp2 = bm_next_id (db_bm d)" "tp_next tp2 = 0" "tp_table tp2 = t" "unat (tp_free tp2) = 4064"
    "pinned n (bm_next_id (db_bm d)) (tp_frame tp2) (st_bm b)" "pool_ok (st_bm b)" "bm_next_id (st_bm b) = bm_next_id (db_bm d) + 1"
    "page_content (st_bm b) (tp_page_id tp) = Some x" "page_layout (tp\<lparr>tp_next := bm_next_id (db_bm d)\<rparr>) rs x" "backed (st_bm b) (tp_page_id tp)"
    "\<forall>q y. q \<notin> {0, tp_page_id tp, bm_next_id (db_bm d)} \<longrightarrow> page_content (db_bm d) q = Some y \<longrightarrow> page_content (st_bm b) q = Some y"
    "\<forall>q. q \<notin> {0, tp_page_id tp, bm_next_id (db_bm d)} \<longrightarrow> backed (db_bm d) q \<longrightarrow> backed (st_bm b) q"
proof -
  let ?new = "bm_next_id (db_bm d)" and ?p = "tp_page_id tp" and ?f = "tp_frame tp" and ?its = "xs @ it # ys"
  note o = table_okD [OF tp(1)]
  have m: "bm_pages (db_bm d) ?p = Some ?f" by (rule heldD(2) [OF o(1)])
  have free: "bm_free (db_bm d) \<noteq> []" using pinned_free [OF pin] n by auto
  obtain g c where c: "BM_NewPage (db_bm d) = (Inr g, c)" "held ?new g c" "pool_ok c" "bm_next_id c = ?new + 1"
    "\<forall>q y. page_content (db_bm d) q = Some y \<longrightarrow> page_content c q = Some y" "\<forall>q. q \<noteq> ?new \<longrightarrow> backed (db_bm d) q \<longrightarrow> backed c q"
    "\<forall>q h. bm_pages (db_bm d) q = Some h \<longrightarrow> q \<noteq> ?new \<and> bm_pages c q = Some h \<and> pin_count (bm_lru c) h = pin_count (bm_lru (db_bm d)) h"
    "pin_count (bm_lru c) g = 1" "Suc (length (bm_free c)) = length (bm_free (db_bm d))" by (rule new_pinned [OF ok free addr])
  let ?d1 = "with_bm c d"
  have pn: "?p \<noteq> ?new" and mc: "bm_pages c ?p = Some ?f" using c(7) m by blast+
  have "bm_pages (db_bm d) 0 \<noteq> None" using o(2) by (simp add: meta_rep_def store_ok_def held_def)
  then have n0: "?new \<noteq> 0" using c(7) by fastforce
  have "meta_rep (db_store ?d1) ?its" by (simp, rule meta_rep_pool [OF o(2) pool_okD(1) [OF c(3)], of "{}"]) (use c(5,7) in \<open>simp_all add: stays_def\<close>)
  moreover have "fdata ?f c = fdata ?f (db_bm d)" using c(5) fdata_content [OF m] fdata_content [OF mc] by simp
  ultimately have t1: "table_ok tp (db_store ?d1) ?its rs" using o mc pool_okD(1) [OF c(3)] by (simp add: table_ok_def held_def)
  obtain u where u: "TP_SetNextPageId ?new tp (db_store ?d1) = (Inr (tp\<lparr>tp_next := ?new\<rparr>), u)" "table_ok (tp\<lparr>tp_next := ?new\<rparr>) u ?its rs"
    "pg_dirty (frame_of ?f (st_bm u))" "keeps {?p} (db_store ?d1) u" by (rule SetNextPageId_run [OF t1])
  let ?tp = "tp\<lparr>tp_next := ?new\<rparr>" and ?d2 = "d\<lparr>db_store := u\<rparr>"
  obtain c2 where c2: "flush_page (tp_frame ?tp) ?d2 = (Inr (), with_bm c2 ?d2)" "table_ok ?tp (db_store (with_bm c2 ?d2)) ?its rs"
    "keeps {tp_page_id ?tp} (db_store ?d2) (db_store (with_bm c2 ?d2))" "backed c2 (tp_page_id ?tp)"
    by (rule flush_page_run [of ?tp ?d2 ?its rs]) (use u(2,3) in simp_all)
  note o2 = table_okD [OF c2(2)]
  have fl: "in_pool (BM_Flush ?p) ?d2 = (Inr (), with_bm c2 ?d2)"
    using c2(1) heldD(6) [OF table_okD(1) [OF u(2)]] by (simp add: flush_page_def page_id_of_def comp_simps)
  have k2: "keeps {?p} (db_store ?d1) (db_store (with_bm c2 ?d2))" by (rule keeps_trans [OF u(4), of "{?p}"]) (use c2(3) in simp_all)
  have ev: "evolves {?p} c c2" and nx: "bm_next_id c2 = ?new + 1" using k2 c(3,4) by (simp_all add: keeps_def)
  note E = evolvesD [OF ev]
  have pin2: "pinned (n - 1) ?p ?f c2" using pin mc E(3,4) E(5) [OF mc] c(7,9) m n by (auto simp: pinned_def)
  obtain c3 where c3: "BM_Release ?p c2 = (Inr (), c3)" "keeps_pages c2 c3" "length (bm_free c3) = n - 1" "stays {?p} c2 c3"
    by (rule release_pinned [OF E(1) pin2]) (use c2(4) in simp)
  have mg: "bm_pages c2 ?new = Some g" using heldD(2) [OF c(2)] E(3) by simp
  have m2: "bm_pages c2 ?p = Some ?f" using mc E(3) by simp
  note ro = release_others [OF c3(1) E(1) m2 mg pn [symmetric]]
  have ok3: "pool_ok c3" using c3(2) by (simp add: keeps_pages_def)
  let ?s3 = "u\<lparr>st_bm := c3\<rparr>"
  have m3: "meta_rep ?s3 ?its" using meta_rep_pool [OF o2(2) pool_okD(1) [OF ok3], of "{?p}"] c3(2,4) o2(7) by (simp add: keeps_pages_def)
  have h3: "theld ?new g ?s3" and t3: "t \<in> mi_id ` set ?its" using ro(1) pool_okD(1) [OF ok3] tp(3) by (auto simp: held_def)
  obtain tp2 v where v: "TablePage_new t g False ?s3 = (Inr tp2, v)" "table_ok tp2 v ?its []" "tp_page_id tp2 = ?new" "tp_frame tp2 = g" "tp_table tp2 = t"
    "unat (tp_free tp2) = PAGE_SIZE - HEADER_SIZE" "tp_next tp2 = 0" "tp_lsn tp2 = 0" "pg_dirty (frame_of g (st_bm v))" "keeps {?new} ?s3 v" "tab_only g ?s3 v"
    by (rule TablePage_init_run [OF h3 n0 m3 t3])
  obtain b where b: "MP_UpdateTableLastId (tp_table tp2) ?new v = (Inr (), b)" "table_ok tp2 b (xs @ it\<lparr>mi_last := ?new\<rparr> # ys) []" "keeps {0} v b"
    by (rule UpdateTableLastId_run [OF v(2)]) (use v(5) tp(3) in simp)
  have kp: "keeps {0, ?new} ?s3 b" by (rule keeps_trans [OF v(10) b(3)]) simp_all
  then have e3: "evolves {0, ?new} c3 (st_bm b)" and nx3: "bm_next_id (st_bm b) = ?new + 1" using ok3 nx c3(2) by (simp_all add: keeps_def keeps_pages_def)
  note E3 = evolvesD [OF e3]
  have run: "AllocateAndLinkNewPage t tp d = (Inr tp2, d\<lparr>db_store := b\<rparr>)"
  proof -
    have "page_id_of ?f d = (Inr ?p, d)" "page_id_of g ?d1 = (Inr ?new, ?d1)" using heldD(6) [OF o(1)] heldD(6) [OF c(2)] by (simp_all add: page_id_of_def comp_simps)
    moreover have "in_pool BM_NewPage d = (Inr g, ?d1)" "in_pool (BM_Release ?p) (with_bm c2 ?d2) = (Inr (), d\<lparr>db_store := ?s3\<rparr>)"
      using c(1) c3(1) by (simp_all add: in_pool_def in_store_def comp_simps)
    ultimately show ?thesis using u(1) fl v(1,5) b(1) by (simp add: AllocateAndLinkNewPage_def in_store_def comp_simps)
  qed
  have "pinned n ?new (tp_frame tp2) (st_bm b)" using E3(3,4) E3(5) [OF ro(1)] ro E(5) [of ?new g] heldD(2) [OF c(2)] c(8) c3(3) v(4) n by (simp add: pinned_def)
  moreover have "page_content (st_bm b) ?p = Some (fdata ?f c2)" "backed (st_bm b) ?p"
    using fdata_content [OF m2] c3(2) E3(6,7) [of ?p] pn o(7) c2(4) by (auto simp: keeps_pages_def)
  moreover have "page_layout ?tp rs (fdata ?f c2)" using o2(4) by simp
  moreover have "page_content (st_bm b) q = Some y" if "q \<notin> {0, ?p, ?new}" "page_content (db_bm d) q = Some y" for q y
    using that c(5) E(6) [of q] c3(2) E3(6) [of q] by (simp add: keeps_pages_def)
  moreover have "backed (st_bm b) q" if "q \<notin> {0, ?p, ?new}" "backed (db_bm d) q" for q
    using that c(6) E(7) [of q] c3(2) E3(7) [of q] by (simp add: keeps_pages_def)
  moreover have "unat (tp_free tp2) = 4064" using v(6) by simp
  ultimately show ?thesis using that [OF run b(2) v(3,7,5)] E3(1) nx3 by blast
qed

section \<open>Appending a record\<close>

definition write_version :: "ExecutorContext \<Rightarrow> entry_id \<Rightarrow> Tuple \<Rightarrow> TablePage \<Rightarrow> (DB, RID) comp" where
  "write_version ctx table t tp = bnd (in_store (TP_InsertTuple t tp)) (\<lambda>(tp2, r).
     (let rid = (case r of Some rid \<Rightarrow> rid | None \<Rightarrow> \<lparr>rid_page = 0, rid_row = 0\<rparr>) in
      bnd (log_insert ctx table rid t tp2) (\<lambda>tp3. thn (release_page (tp_frame tp3)) (ret rid))))"

lemma write_version_run:
  assumes tp: "table_ok tp (db_store d) its rs" "tp_table tp = t" and pin: "pinned n (tp_page_id tp) (tp_frame tp) (db_bm d)" and ok: "pool_ok (db_bm d)"
    and tup: "tuple_holds tup r" "length r + SLOT_SIZE \<le> unat (tp_free tp)"
    and log: "ctx_log ctx" "db_log_holds d logs" "49 + length r \<le> lb_capacity (lm_buffer (db_log d))" "lm_next_lsn (db_log d) \<noteq> 0"
  defines "rid \<equiv> \<lparr>rid_page = tp_page_id tp, rid_row = word_of_nat (Suc (length rs))\<rparr>"
  obtains e x tp' where "write_version ctx t tup tp d = (Inr rid, e)" "length (bm_free (db_bm e)) = n" "pool_ok (db_bm e)" "meta_rep (db_store e) (add_rows t 1 its)"
    "page_content (db_bm e) (tp_page_id tp) = Some x" "page_layout tp' (rs @ [r]) x" "tp_next tp' = tp_next tp" "tp_page_id tp' = tp_page_id tp" "backed (db_bm e) (tp_page_id tp)"
    "\<forall>q y. q \<notin> {0, tp_page_id tp} \<longrightarrow> page_content (db_bm d) q = Some y \<longrightarrow> page_content (db_bm e) q = Some y"
    "\<forall>q. q \<notin> {0, tp_page_id tp} \<longrightarrow> backed (db_bm d) q \<longrightarrow> backed (db_bm e) q" "bm_next_id (db_bm e) = bm_next_id (db_bm d)"
    "db_txn e = db_txn d" "db_catalog e = db_catalog d" "db_undo_page e = db_undo_page d" "db_log_holds e (logs @ [data_record (lm_next_lsn (db_log d)) ctx LR_INSERT_ROW t rid r])"
    "lm_next_lsn (db_log e) = lm_next_lsn (db_log d) + 1" "lb_capacity (lm_buffer (db_log e)) = lb_capacity (lm_buffer (db_log d))"
proof -
  let ?p = "tp_page_id tp" and ?its = "add_rows t 1 its"
  obtain u where u: "TP_InsertTuple tup tp (db_store d) = (Inr (inserted tup tp, Some rid), u)" "table_ok (inserted tup tp) u ?its (rs @ [r])"
    "pg_dirty (frame_of (tp_frame tp) (st_bm u))" "keeps {META_PAGE_ID, ?p} (db_store d) u" using InsertTuple_run [OF tp(1) tup] tp(2) unfolding rid_def by metis
  let ?d = "d\<lparr>db_store := u\<rparr>" and ?tp = "(inserted tup tp)\<lparr>tp_lsn := lm_next_lsn (db_log d)\<rparr>"
  have same: "tp_page_id (inserted tup tp) = ?p" "tp_frame (inserted tup tp) = tp_frame tp" "tp_next (inserted tup tp) = tp_next tp" by (simp_all add: inserted_def)
  have lg: "db_log_holds ?d logs" using log(2) by (simp add: db_log_holds_def)
  obtain e where e: "log_insert ctx t rid tup (inserted tup tp) ?d = (Inr ?tp, e)" "table_ok ?tp (db_store e) ?its (rs @ [r])" "on_disk ?tp (db_bm e) (rs @ [r])"
    "keeps {?p} u (db_store e)" "db_txn e = db_txn d" "db_catalog e = db_catalog d" "db_log_holds e (logs @ [data_record (lm_next_lsn (db_log d)) ctx LR_INSERT_ROW t rid r])"
    "backed (db_bm e) ?p" "lm_next_lsn (db_log e) = lm_next_lsn (db_log d) + 1" "lb_capacity (lm_buffer (db_log e)) = lb_capacity (lm_buffer (db_log d))"
    "db_undo_page e = db_undo_page d"
    by (rule log_insert_run [of "inserted tup tp" ?d ?its "rs @ [r]" tup r ctx logs t rid]) (use u(2) tup(1) log(1,3,4) lg same in simp_all)
  have k: "keeps {0, ?p} (db_store d) (db_store e)" by (rule keeps_trans [OF u(4) e(4)]) simp_all
  have ev: "evolves {0, ?p} (db_bm d) (db_bm e)" and nx: "bm_next_id (db_bm e) = bm_next_id (db_bm d)" using k ok by (simp_all add: keeps_def)
  note E = evolvesD [OF ev]
  have pe: "pinned n ?p (tp_frame tp) (db_bm e)" using pin E(3,4) E(5) [of ?p "tp_frame tp"] by (simp add: pinned_def)
  obtain b x where b: "release_page (tp_frame ?tp) e = (Inr (), with_bm b e)" "keeps_pages (db_bm e) b" "length (bm_free b) = n" "meta_rep (db_store (with_bm b e)) ?its"
    "page_content b (tp_page_id ?tp) = Some x" "page_layout ?tp (rs @ [r]) x" "backed b (tp_page_id ?tp)" "pool_ok b"
    by (rule release_visit [OF e(2), of n]) (use pe e(8) E(1) same in simp_all)
  have "write_version ctx t tup tp d = (Inr rid, with_bm b e)"
    using u(1) e(1) b(1) same by (simp add: write_version_def in_store_def comp_simps Let_def)
  moreover have "page_content b q = Some y" if "q \<notin> {0, ?p}" "page_content (db_bm d) q = Some y" for q y using E(6) [OF that] b(2) by (simp add: keeps_pages_def)
  moreover have "backed b q" if "q \<notin> {0, ?p}" "backed (db_bm d) q" for q using E(7) [OF that] b(2) by (simp add: keeps_pages_def)
  moreover have "db_log_holds (with_bm b e) (logs @ [data_record (lm_next_lsn (db_log d)) ctx LR_INSERT_ROW t rid r])" using e(7) by (simp add: db_log_holds_def)
  ultimately show ?thesis using that [of "with_bm b e" x ?tp] b(2-8) e(5,6,9-11) nx same by (simp add: keeps_pages_def)
qed

text \<open>The end of the chain is replaced.\<close>

lemma chain_extend:
  assumes "chain b (pre @ [p]) (A @ [rs])" "length A = length pre" "\<forall>q \<in> set pre. \<forall>y. page_content b q = Some y \<longrightarrow> page_content c q = Some y"
    and "\<forall>q \<in> set pre. backed b q \<longrightarrow> backed c q" "chain c (p # qs) (rs' # C)"
  shows "chain c (pre @ p # qs) (A @ rs' # C)"
  using assms(1-4)
proof (induction pre arbitrary: A)
  case (Cons a pre)
  then obtain x A' where A: "A = x # A'" "length A' = length pre" by (cases A) auto
  have "first_id (pre @ [p]) = first_id (pre @ p # qs)" by (cases pre) simp_all
  then show ?case using Cons.prems Cons.IH [of A'] A by auto
qed (use assms(5) in simp)

lemma stored_table_extend:
  assumes st: "stored_table n (pre @ [p]) t d its (A @ [rs])" and len: "length A = length pre"
    and kept: "\<forall>q \<in> set pre. \<forall>y. page_content (db_bm d) q = Some y \<longrightarrow> page_content (db_bm e) q = Some y" "\<forall>q \<in> set pre. backed (db_bm d) q \<longrightarrow> backed (db_bm e) q"
    and tail: "chain (db_bm e) (p # qs) (rs' # C)" "\<forall>q \<in> set (p # qs). named (db_bm e) q" "distinct (pre @ p # qs)"
    and rest: "pool_ok (db_bm e)" "length (bm_free (db_bm e)) = n" "meta_rep (db_store e) its'" "t \<in> mi_id ` set its'"
  shows "stored_table n (pre @ p # qs) t e its' (A @ rs' # C)"
proof -
  note S = st [unfolded stored_table_def]
  have ch: "chain (db_bm d) (pre @ [p]) (A @ [rs])" using S by simp
  have "chain (db_bm e) (pre @ p # qs) (A @ rs' # C)" by (rule chain_extend [OF ch len kept tail(1)])
  moreover have "named (db_bm e) q" if "q \<in> set pre" for q
    using that S kept(1) unfolding named_def by fastforce
  ultimately show ?thesis using tail(2,3) rest by (auto simp: stored_table_def)
qed

definition noted :: "entry_id \<Rightarrow> page_id_t \<Rightarrow> MetaItem list \<Rightarrow> MetaItem list" where
  "noted t q = map (\<lambda>it. if mi_id it = t then it\<lparr>mi_last := q\<rparr> else it)"

definition growing :: "nat \<Rightarrow> page_id_t list \<Rightarrow> entry_id \<Rightarrow> DB \<Rightarrow> MetaItem list \<Rightarrow> bytes list list \<Rightarrow> bool" where
  "growing n ps t d its rss \<longleftrightarrow> stored_table n ps t d its rss \<and> ps \<noteq> [] \<and> (\<forall>it \<in> set its. mi_id it = t \<longrightarrow> mi_last it = last ps)"

lemma noted_located:
  assumes "distinct (map mi_id (xs @ it # ys))"
  shows "noted (mi_id it) q (xs @ it # ys) = xs @ it\<lparr>mi_last := q\<rparr> # ys"
proof -
  have "noted (mi_id it) q zs = zs" if "mi_id it \<notin> mi_id ` set zs" for zs
    using that unfolding noted_def by (intro map_idI) (simp add: image_iff, metis)
  then show ?thesis using assms by (simp add: noted_def)
qed

lemma noted_ids: "mi_id ` set (noted t q its) = mi_id ` set its"
proof -
  have "map mi_id (noted t q its) = map mi_id its" by (simp add: noted_def)
  then show ?thesis by (metis list.set_map)
qed

lemma noted_same:
  assumes "\<forall>it \<in> set its. mi_id it = t \<longrightarrow> mi_last it = q"
  shows "noted t q its = its"
proof -
  have "it\<lparr>mi_last := q\<rparr> = it" if "mi_last it = q" for it :: MetaItem using that by (cases it) simp
  then show ?thesis using assms unfolding noted_def by (intro map_idI) simp
qed

lemma growing_last: "\<forall>it \<in> set (add_rows t c (noted t q its)). mi_id it = t \<longrightarrow> mi_last it = q"
proof
  fix it assume "it \<in> set (add_rows t c (noted t q its))"
  then obtain x where "it = (\<lambda>y. if mi_id y = t then y\<lparr>mi_rows := rows_after (mi_rows y) c\<rparr> else y) (if mi_id x = t then x\<lparr>mi_last := q\<rparr> else x)"
    unfolding add_rows_def noted_def by (auto simp only: set_map image_iff)
  then show "mi_id it = t \<longrightarrow> mi_last it = q" by (cases "mi_id x = t") simp_all
qed

lemma kept_versions:
  assumes kept: "\<forall>q y. q \<notin> P \<longrightarrow> page_content b q = Some y \<longrightarrow> page_content c q = Some y" "\<forall>q. q \<notin> P \<longrightarrow> backed b q \<longrightarrow> backed c q"
  shows "versions_kept P b c"
  unfolding versions_kept_def
proof (intro allI impI)
  fix q x assume q: "up_page q \<notin> P" "version_at b q x"
  then obtain ptr trx where v: "addressable (up_page q)" "backed b (up_page q)" "x \<noteq> []" "record_at b q (undo_bytes ptr trx x)" unfolding version_at_def by blast
  then have "record_at c q (undo_bytes ptr trx x)" using kept(1) q(1) unfolding record_at_def by metis
  then show "version_at c q x" using v kept(2) q(1) unfolding version_at_def by blast
qed

end
