(* ===== verification/Update_Rows.thy ===== *)
theory Update_Rows
  imports Rollback_Rows Table_Growth
begin

text \<open>
  The second phase of UPDATE (\<^verbatim>\<open>executor/executor_update.cpp\<close>): every row that was collected is marked deleted with a pointer to its old version in the undo log, and its new version, with the same
  pointer, is appended to the table.
\<close>

section \<open>A new version is appended\<close>

lemma InsertNewVersion_by_page:
  "InsertNewVersion ctx t tup = bnd (in_store (item_at t)) (\<lambda>it. bnd (open_last_page t it) (\<lambda>(f, rd).
     bnd (in_store (TablePage_new t f rd)) (\<lambda>tp. bnd (page_with_space t tup tp) (write_version ctx t tup))))"
  by (simp add: InsertNewVersion_def write_version_def [abs_def])

text \<open>What \<^verbatim>\<open>InsertTuple\<close> and the log leave alone or extend.\<close>

definition logged_insert :: "ExecutorContext \<Rightarrow> entry_id \<Rightarrow> RID \<Rightarrow> bytes \<Rightarrow> RecoveredLog list \<Rightarrow> DB \<Rightarrow> DB \<Rightarrow> bool" where
  "logged_insert ctx t rid r logs d e \<longleftrightarrow> db_txn e = db_txn d \<and> db_catalog e = db_catalog d \<and> db_undo_page e = db_undo_page d \<and>
     db_log_holds e (logs @ [data_record (lm_next_lsn (db_log d)) ctx LR_INSERT_ROW t rid r]) \<and> lm_next_lsn (db_log e) = lm_next_lsn (db_log d) + 1 \<and>
     lb_capacity (lm_buffer (db_log e)) = lb_capacity (lm_buffer (db_log d))"

text \<open>
  \<open>appended\<close>: the records of the table are followed by \<open>r\<close> at the place \<open>rid\<close>; at most one page was added, one that did not exist before; all other pages are as they were.
\<close>

definition appended :: "nat \<Rightarrow> entry_id \<Rightarrow> MetaItem list \<Rightarrow> page_id_t list \<Rightarrow> bytes list list \<Rightarrow> RID \<Rightarrow> bytes \<Rightarrow> page_id_t list \<Rightarrow> bytes list list \<Rightarrow> DB \<Rightarrow> DB \<Rightarrow> bool" where
  "appended n t its ps rss rid r ps' rss' d e \<longleftrightarrow> growing n ps' t e (add_rows t 1 (noted t (last ps') its)) rss' \<and> concat rss' = concat rss @ [r] \<and>
     places ps' rss' = places ps rss @ [rid] \<and> (\<exists>zs. ps' = ps @ zs \<and> length zs \<le> 1 \<and> (\<forall>q \<in> set zs. page_content (db_bm d) q = None)) \<and>
     unat (bm_next_id (db_bm e)) \<le> Suc (unat (bm_next_id (db_bm d))) \<and> unat (bm_next_id (db_bm d)) \<le> unat (bm_next_id (db_bm e)) \<and>
     (\<forall>q y. q \<notin> insert 0 (set ps') \<longrightarrow> page_content (db_bm d) q = Some y \<longrightarrow> page_content (db_bm e) q = Some y) \<and>
     (\<forall>q. q \<notin> insert 0 (set ps') \<longrightarrow> backed (db_bm d) q \<longrightarrow> backed (db_bm e) q)"

lemma places_last: "length pre = length A \<Longrightarrow> places (pre @ [p]) (A @ [rs @ [r]]) = places (pre @ [p]) (A @ [rs]) @ [\<lparr>rid_page = p, rid_row = word_of_nat (Suc (length rs))\<rparr>]"
  by (simp add: places_append)

lemma row_in_place:
  assumes g: "growing n (pre @ [p]) t d its (A @ [rs])" and len: "length A = length pre" and c: "keeps_pages (db_bm d) c" "pinned n p (tp_frame tp) c"
    and tp: "table_ok tp (db_store (with_bm c d)) its rs" "tp_table tp = t" "tp_page_id tp = p" "tp_next tp = 0"
    and tup: "tuple_holds tup r" "length r + SLOT_SIZE \<le> unat (tp_free tp)"
    and log: "ctx_log ctx" "db_log_holds d logs" "49 + length r \<le> lb_capacity (lm_buffer (db_log d))" "lm_next_lsn (db_log d) \<noteq> 0"
  defines "rid \<equiv> \<lparr>rid_page = p, rid_row = word_of_nat (Suc (length rs))\<rparr>"
  shows "\<exists>e. write_version ctx t tup tp (with_bm c d) = (Inr rid, e) \<and> appended n t its (pre @ [p]) (A @ [rs]) rid r (pre @ [p]) (A @ [rs @ [r]]) d e \<and>
    logged_insert ctx t rid r logs d e"
proof -
  let ?d = "with_bm c d" and ?its = "add_rows t 1 its"
  have st: "stored_table n (pre @ [p]) t d its (A @ [rs])" using g by (simp add: growing_def)
  note S = st [unfolded stored_table_def] and k = c(1) [unfolded keeps_pages_def]
  have lg: "db_log_holds ?d logs" using log(2) by (simp add: db_log_holds_def)
  have pin: "pinned n (tp_page_id tp) (tp_frame tp) (db_bm ?d)" "pool_ok (db_bm ?d)" and lim: "49 + length r \<le> lb_capacity (lm_buffer (db_log ?d))" "lm_next_lsn (db_log ?d) \<noteq> 0"
    using c k log(3,4) tp(3) by simp_all
  obtain e x tp' where e: "write_version ctx t tup tp ?d = (Inr \<lparr>rid_page = tp_page_id tp, rid_row = word_of_nat (Suc (length rs))\<rparr>, e)" "length (bm_free (db_bm e)) = n" "pool_ok (db_bm e)"
    "meta_rep (db_store e) ?its" "page_content (db_bm e) (tp_page_id tp) = Some x" "page_layout tp' (rs @ [r]) x" "tp_next tp' = tp_next tp" "tp_page_id tp' = tp_page_id tp"
    "backed (db_bm e) (tp_page_id tp)" "\<forall>q y. q \<notin> {0, tp_page_id tp} \<longrightarrow> page_content (db_bm ?d) q = Some y \<longrightarrow> page_content (db_bm e) q = Some y"
    "\<forall>q. q \<notin> {0, tp_page_id tp} \<longrightarrow> backed (db_bm ?d) q \<longrightarrow> backed (db_bm e) q" "bm_next_id (db_bm e) = bm_next_id (db_bm ?d)"
    "db_txn e = db_txn ?d" "db_catalog e = db_catalog ?d" "db_undo_page e = db_undo_page ?d"
    "db_log_holds e (logs @ [data_record (lm_next_lsn (db_log ?d)) ctx LR_INSERT_ROW t \<lparr>rid_page = tp_page_id tp, rid_row = word_of_nat (Suc (length rs))\<rparr> r])"
    "lm_next_lsn (db_log e) = lm_next_lsn (db_log ?d) + 1" "lb_capacity (lm_buffer (db_log e)) = lb_capacity (lm_buffer (db_log ?d))"
    by (rule write_version_run [OF tp(1,2) pin tup log(1) lg lim])
  note e = e [unfolded tp(3,4)]
  have k1: "page_content (db_bm d) q = Some y \<Longrightarrow> page_content c q = Some y" "backed (db_bm d) q \<Longrightarrow> backed c q" for q y using k by blast+
  have e10: "\<forall>q y. q \<notin> {0, p} \<longrightarrow> page_content c q = Some y \<longrightarrow> page_content (db_bm e) q = Some y" "\<forall>q. q \<notin> {0, p} \<longrightarrow> backed c q \<longrightarrow> backed (db_bm e) q"
    using e(10,11) by simp_all
  have kept: "\<forall>q y. q \<notin> {0, p} \<longrightarrow> page_content (db_bm d) q = Some y \<longrightarrow> page_content (db_bm e) q = Some y" "\<forall>q. q \<notin> {0, p} \<longrightarrow> backed (db_bm d) q \<longrightarrow> backed (db_bm e) q"
    using k1 e10 by blast+
  have ch: "chain (db_bm d) (pre @ [p]) (A @ [rs])" and dist: "p \<notin> set pre" using S by simp_all
  have pre: "q \<notin> {0, p}" if "q \<in> set pre" for q using chain_pages [OF ch, of q] dist that by auto
  have tail: "chain (db_bm e) [p] [rs @ [r]]" using table_okD(7) [OF tp(1)] heldD(8) [OF table_okD(1) [OF tp(1)]] tp(3) e(5-7,9) by auto
  have nm: "\<forall>q \<in> set [p]. named (db_bm e) q" using e(5,6,8) unfolding named_def by auto
  have kp: "\<forall>q \<in> set pre. \<forall>y. page_content (db_bm d) q = Some y \<longrightarrow> page_content (db_bm e) q = Some y" "\<forall>q \<in> set pre. backed (db_bm d) q \<longrightarrow> backed (db_bm e) q"
    using kept pre by blast+
  have ids: "t \<in> mi_id ` set ?its" and di: "distinct (pre @ [p])" using S by simp_all
  have new: "stored_table n (pre @ [p]) t e ?its (A @ [rs @ [r]])" by (rule stored_table_extend [OF st len kp tail nm di e(3,2,4) ids])
  have same: "noted t p its = its" using g by (intro noted_same) (simp add: growing_def)
  have "\<forall>it \<in> set ?its. mi_id it = t \<longrightarrow> mi_last it = p" using growing_last [of t 1 p its] unfolding same .
  then have "growing n (pre @ [p]) t e ?its (A @ [rs @ [r]])" using new by (simp add: growing_def)
  then have "appended n t its (pre @ [p]) (A @ [rs]) rid r (pre @ [p]) (A @ [rs @ [r]]) d e"
    using places_last [OF len [symmetric], of p rs r] kept e(12) k by (simp add: appended_def rid_def same)
  moreover have "logged_insert ctx t rid r logs d e" using e(13-18) by (simp add: logged_insert_def rid_def)
  ultimately show ?thesis using e(1) unfolding rid_def by blast
qed

text \<open>The page \<open>new\<close> that did not exist before is linked behind the last one and holds the new record.\<close>

lemma appended_by_page:
  assumes st: "stored_table n (pre @ [p]) t d its (A @ [rs])" and len: "length A = length pre" and new: "new = bm_next_id (db_bm d)" "new \<noteq> 0" "addressable new" and p: "addressable p"
    and last: "page_content (db_bm e) p = Some x" "page_layout tpx rs x" "tp_next tpx = new" "tp_page_id tpx = p" "backed (db_bm e) p"
    and page: "page_content (db_bm e) new = Some y" "page_layout tpy [r] y" "tp_next tpy = 0" "tp_page_id tpy = new" "backed (db_bm e) new"
    and kept: "\<And>q z. q \<notin> {0, p, new} \<Longrightarrow> page_content (db_bm d) q = Some z \<Longrightarrow> page_content (db_bm e) q = Some z" "\<And>q. q \<notin> {0, p, new} \<Longrightarrow> backed (db_bm d) q \<Longrightarrow> backed (db_bm e) q"
    and rest: "pool_ok (db_bm e)" "length (bm_free (db_bm e)) = n" "meta_rep (db_store e) (add_rows t 1 (noted t new its))" "bm_next_id (db_bm e) = new + 1"
  shows "appended n t its (pre @ [p]) (A @ [rs]) \<lparr>rid_page = new, rid_row = 1\<rparr> r (pre @ [p, new]) (A @ [rs, [r]]) d e"
proof -
  note S = st [unfolded stored_table_def]
  let ?its = "add_rows t 1 (noted t new its)"
  have ok: "pool_ok (db_bm d)" and ch: "chain (db_bm d) (pre @ [p]) (A @ [rs])" and dist: "distinct (pre @ [p])" using S by simp_all
  have fresh: "page_content (db_bm d) new = None" using pool_ok_fresh(2) [OF ok, of new] by (simp add: new(1))
  have old: "q \<noteq> 0 \<and> q \<noteq> new" if "q \<in> set (pre @ [p])" for q using chain_pages [OF ch that] fresh by auto
  have tail: "chain (db_bm e) (p # [new]) (rs # [[r]])" using old [of p] new(2,3) p last page by auto
  have "named (db_bm e) p" using last unfolding named_def by (intro exI [of _ x] exI [of _ tpx] exI [of _ rs]) simp
  moreover have "named (db_bm e) new" using page unfolding named_def by (intro exI [of _ y] exI [of _ tpy] exI [of _ "[r]"]) simp
  ultimately have nm: "\<forall>q \<in> set (p # [new]). named (db_bm e) q" by simp
  have pre: "q \<notin> {0, p, new}" if "q \<in> set pre" for q using old [of q] dist that by auto
  have kp: "\<forall>q \<in> set pre. \<forall>y. page_content (db_bm d) q = Some y \<longrightarrow> page_content (db_bm e) q = Some y" "\<forall>q \<in> set pre. backed (db_bm d) q \<longrightarrow> backed (db_bm e) q"
    using kept pre by blast+
  have di: "distinct (pre @ p # [new])" using dist old by auto
  have ids: "t \<in> mi_id ` set ?its" using S noted_ids by simp
  have "stored_table n (pre @ p # [new]) t e ?its (A @ rs # [[r]])" by (rule stored_table_extend [OF st len kp tail nm di rest(1-3) ids])
  moreover have "\<forall>it \<in> set ?its. mi_id it = t \<longrightarrow> mi_last it = new" by (rule growing_last)
  ultimately have gr: "growing n (pre @ [p, new]) t e ?its (A @ [rs, [r]])" by (simp add: growing_def)
  have "places (pre @ [p, new]) (A @ [rs, [r]]) = places (pre @ [p]) (A @ [rs]) @ [\<lparr>rid_page = new, rid_row = 1\<rparr>]" using len by (simp add: places_append)
  moreover have "unat (bm_next_id (db_bm e)) = Suc (unat (bm_next_id (db_bm d)))"
  proof -
    have "unat new + unat (1 :: u64) < 2 ^ 64" using new(3) by (simp add: addressable_def)
    then show ?thesis using rest(4) new(1) by (subst rest(4), subst unat_add_u64) simp_all
  qed
  ultimately show ?thesis using gr kept fresh by (simp add: appended_def)
qed

lemma row_on_new_page:
  assumes g: "growing n (pre @ [p]) t d its (A @ [rs])" and len: "length A = length pre" and c: "keeps_pages (db_bm d) c" "pinned n p (tp_frame tp) c"
    and tp: "table_ok tp (db_store (with_bm c d)) its rs" "tp_table tp = t" "tp_page_id tp = p" and n: "3 \<le> n" and addr: "addressable (bm_next_id (db_bm d))"
    and tup: "tuple_holds tup r" "length r \<le> 4060"
    and log: "ctx_log ctx" "db_log_holds d logs" "49 + length r \<le> lb_capacity (lm_buffer (db_log d))" "lm_next_lsn (db_log d) \<noteq> 0"
  defines "new \<equiv> bm_next_id (db_bm d)"
  defines "rid \<equiv> \<lparr>rid_page = new, rid_row = 1\<rparr>"
  shows "\<exists>tp2 d2 e. AllocateAndLinkNewPage t tp (with_bm c d) = (Inr tp2, d2) \<and> write_version ctx t tup tp2 d2 = (Inr rid, e) \<and>
    appended n t its (pre @ [p]) (A @ [rs]) rid r (pre @ [p, new]) (A @ [rs, [r]]) d e \<and> logged_insert ctx t rid r logs d e"
proof -
  let ?d = "with_bm c d"
  have st: "stored_table n (pre @ [p]) t d its (A @ [rs])" using g by (simp add: growing_def)
  note S = st [unfolded stored_table_def] and k = c(1) [unfolded keeps_pages_def]
  obtain xs it ys where sp: "its = xs @ it # ys" "mi_id it = t" using S by (metis image_iff split_list)
  have "distinct (map mi_id its)" using S by (simp add: meta_rep_def tables_of_def)
  then have nt: "noted t new its = xs @ it\<lparr>mi_last := new\<rparr> # ys" using noted_located [of xs it ys new] sp by simp
  have nx: "bm_next_id (db_bm ?d) = new" using k by (simp add: new_def)
  have tp1: "table_ok tp (db_store ?d) (xs @ it # ys) rs" using tp(1) sp(1) by simp
  have bkp: "backed (db_bm d) p" "page_content (db_bm d) p \<noteq> None" using S chain_split [of "db_bm d" pre p "[]" "A @ [rs]"] by auto
  have a: "pinned n (tp_page_id tp) (tp_frame tp) (db_bm ?d)" "backed (db_bm ?d) (tp_page_id tp)" "pool_ok (db_bm ?d)" "addressable (bm_next_id (db_bm ?d))"
    using c k bkp(1) tp(3) addr by simp_all
  obtain tp2 b x where b: "AllocateAndLinkNewPage t tp ?d = (Inr tp2, ?d\<lparr>db_store := b\<rparr>)" "table_ok tp2 b (xs @ it\<lparr>mi_last := bm_next_id (db_bm ?d)\<rparr> # ys) []"
    "tp_page_id tp2 = bm_next_id (db_bm ?d)" "tp_next tp2 = 0" "tp_table tp2 = t" "unat (tp_free tp2) = 4064"
    "pinned n (bm_next_id (db_bm ?d)) (tp_frame tp2) (st_bm b)" "pool_ok (st_bm b)" "bm_next_id (st_bm b) = bm_next_id (db_bm ?d) + 1"
    "page_content (st_bm b) (tp_page_id tp) = Some x" "page_layout (tp\<lparr>tp_next := bm_next_id (db_bm ?d)\<rparr>) rs x" "backed (st_bm b) (tp_page_id tp)"
    "\<forall>q y. q \<notin> {0, tp_page_id tp, bm_next_id (db_bm ?d)} \<longrightarrow> page_content (db_bm ?d) q = Some y \<longrightarrow> page_content (st_bm b) q = Some y"
    "\<forall>q. q \<notin> {0, tp_page_id tp, bm_next_id (db_bm ?d)} \<longrightarrow> backed (db_bm ?d) q \<longrightarrow> backed (st_bm b) q"
    by (rule allocate_run [OF tp1 tp(2) sp(2) a(1-3) n a(4)])
  note b = b [unfolded tp(3) nx nt [symmetric]]
  let ?d2 = "?d\<lparr>db_store := b\<rparr>" and ?its = "add_rows t 1 (noted t new its)"
  have t2: "table_ok tp2 (db_store ?d2) (noted t new its) []" and lg: "db_log_holds ?d2 logs" and lim: "49 + length r \<le> lb_capacity (lm_buffer (db_log ?d2))" "lm_next_lsn (db_log ?d2) \<noteq> 0"
    and pin: "pinned n (tp_page_id tp2) (tp_frame tp2) (db_bm ?d2)" "pool_ok (db_bm ?d2)" and room: "length r + SLOT_SIZE \<le> unat (tp_free tp2)"
    using b(2,3,6-8) log(2-4) tup(2) by (simp_all add: db_log_holds_def)
  obtain e y tp' where e: "write_version ctx t tup tp2 ?d2 = (Inr \<lparr>rid_page = tp_page_id tp2, rid_row = word_of_nat (Suc (length ([] :: bytes list)))\<rparr>, e)" "length (bm_free (db_bm e)) = n" "pool_ok (db_bm e)"
    "meta_rep (db_store e) ?its" "page_content (db_bm e) (tp_page_id tp2) = Some y" "page_layout tp' ([] @ [r]) y" "tp_next tp' = tp_next tp2" "tp_page_id tp' = tp_page_id tp2"
    "backed (db_bm e) (tp_page_id tp2)" "\<forall>q y. q \<notin> {0, tp_page_id tp2} \<longrightarrow> page_content (db_bm ?d2) q = Some y \<longrightarrow> page_content (db_bm e) q = Some y"
    "\<forall>q. q \<notin> {0, tp_page_id tp2} \<longrightarrow> backed (db_bm ?d2) q \<longrightarrow> backed (db_bm e) q" "bm_next_id (db_bm e) = bm_next_id (db_bm ?d2)"
    "db_txn e = db_txn ?d2" "db_catalog e = db_catalog ?d2" "db_undo_page e = db_undo_page ?d2"
    "db_log_holds e (logs @ [data_record (lm_next_lsn (db_log ?d2)) ctx LR_INSERT_ROW t \<lparr>rid_page = tp_page_id tp2, rid_row = word_of_nat (Suc (length ([] :: bytes list)))\<rparr> r])"
    "lm_next_lsn (db_log e) = lm_next_lsn (db_log ?d2) + 1" "lb_capacity (lm_buffer (db_log e)) = lb_capacity (lm_buffer (db_log ?d2))"
    by (rule write_version_run [OF t2 b(5) pin tup(1) room log(1) lg lim])
  note e = e [unfolded b(3,4)]
  have ch: "chain (db_bm d) (pre @ [p]) (A @ [rs])" using S by simp
  have fresh: "page_content (db_bm d) new = None" using pool_ok_fresh(2) [of "db_bm d" new] S by (simp add: new_def)
  have n0: "new \<noteq> 0" using table_okD(7) [OF t2] b(3) by simp
  have pp: "p \<noteq> 0" "p \<noteq> new" using chain_pages [OF ch, of p] fresh by auto
  have k1: "page_content (db_bm d) q = Some z \<Longrightarrow> page_content c q = Some z" "backed (db_bm d) q \<Longrightarrow> backed c q" for q z using k by blast+
  have b13: "page_content c q = Some z \<Longrightarrow> page_content (st_bm b) q = Some z" "backed c q \<Longrightarrow> backed (st_bm b) q" if "q \<notin> {0, p, new}" for q z
    using b(13,14) that by simp_all
  have e10: "page_content (st_bm b) q = Some z \<Longrightarrow> page_content (db_bm e) q = Some z" "backed (st_bm b) q \<Longrightarrow> backed (db_bm e) q" if "q \<notin> {0, new}" for q z
    using e(10,11) that by simp_all
  have kept: "page_content (db_bm d) q = Some z \<Longrightarrow> page_content (db_bm e) q = Some z" "backed (db_bm d) q \<Longrightarrow> backed (db_bm e) q" if "q \<notin> {0, p, new}" for q z
    using k1(1) [of q z] k1(2) [of q] b13(1) [OF that, of z] b13(2) [OF that] e10(1) [of q z] e10(2) [of q] that by simp_all
  have pe: "page_content (db_bm e) p = Some x" "backed (db_bm e) p" using e10(1) [of p x] e10(2) [of p] b(10,12) pp by simp_all
  have "addressable p" "addressable new" using heldD(8) [OF table_okD(1) [OF tp(1)]] tp(3) addr by (simp_all add: new_def)
  then have "appended n t its (pre @ [p]) (A @ [rs]) rid r (pre @ [p, new]) (A @ [rs, [r]]) d e"
    unfolding rid_def using st len n0 pe b(9,11) e(2-9,12) tp(3) kept
    by (intro appended_by_page [where tpx = "tp\<lparr>tp_next := new\<rparr>" and tpy = tp' and x = x and y = y]) (simp_all add: new_def)
  moreover have "logged_insert ctx t rid r logs d e" using e(13-18) by (simp add: logged_insert_def rid_def)
  ultimately show ?thesis using b(1) e(1) by (auto simp: rid_def)
qed

lemma insert_version_run:
  assumes g: "growing n ps t d its rss" and n: "3 \<le> n" and addr: "addressable (bm_next_id (db_bm d))" and tup: "tuple_holds tup r" "length r \<le> 4060"
    and log: "ctx_log ctx" "db_log_holds d logs" "49 + length r \<le> lb_capacity (lm_buffer (db_log d))" "lm_next_lsn (db_log d) \<noteq> 0"
  obtains e rid ps' rss' where "InsertNewVersion ctx t tup d = (Inr rid, e)" "appended n t its ps rss rid r ps' rss' d e" "logged_insert ctx t rid r logs d e"
proof -
  have st: "stored_table n ps t d its rss" using g by (simp add: growing_def)
  note S = st [unfolded stored_table_def]
  obtain pre p where ps: "ps = pre @ [p]" using g by (metis growing_def rev_exhaust)
  have "length ps = length rss" using S chain_length by blast
  then obtain A rs where rss: "rss = A @ [rs]" "length A = length pre" using ps by (cases rss rule: rev_exhaust) auto
  have n1: "1 \<le> n" using n by simp
  obtain tp c where c: "BM_FetchPage p (db_bm d) = (Inr (tp_frame tp), c)"
    "TablePage_new t (tp_frame tp) True (db_store (with_bm c d)) = (Inr tp, db_store (with_bm c d))" "table_ok tp (db_store (with_bm c d)) its rs"
    "tp_table tp = t" "tp_page_id tp = p" "tp_next tp = first_id []" "keeps_pages (db_bm d) c" "pinned n p (tp_frame tp) c"
    by (rule enter_page [OF st n1 ps rss])
  obtain xs it ys where sp: "its = xs @ it # ys" "mi_id it = t" using S by (metis image_iff split_list)
  have "mp_item t (db_store d) = Some it" using mp_item_located [of "db_store d" xs it ys] S sp by simp
  then have item: "in_store (item_at t) d = (Inr it, d)" by (simp add: item_at_def in_store_def comp_simps)
  have "mi_last it = p" using g sp ps by (simp add: growing_def)
  then have opened: "open_last_page t it d = (Inr (tp_frame tp, True), with_bm c d)"
    using c(1) table_okD(7) [OF c(3)] c(5) by (simp add: open_last_page_def in_pool_def in_store_def comp_simps)
  have run: "InsertNewVersion ctx t tup d = bnd (page_with_space t tup tp) (write_version ctx t tup) (with_bm c d)"
    using item opened c(2) by (simp add: InsertNewVersion_by_page in_store_def comp_simps)
  have fit: "TP_HasSpaceFor (t_size tup) tp \<longleftrightarrow> length r + SLOT_SIZE \<le> unat (tp_free tp)" using tup(1) by (simp add: TP_HasSpaceFor_def tuple_holds_def)
  have g': "growing n (pre @ [p]) t d its (A @ [rs])" using g ps rss by simp
  show ?thesis
  proof (cases "TP_HasSpaceFor (t_size tup) tp")
    case True
    then show ?thesis using row_in_place [OF g' rss(2) c(7,8,3-5) _ tup(1) _ log] that run c(6) fit ps rss(1) by (auto simp: page_with_space_def comp_simps)
  next
    case False
    then show ?thesis using row_on_new_page [OF g' rss(2) c(7,8,3-5) n addr tup log] that run ps rss(1) by (auto simp: page_with_space_def comp_simps)
  qed
qed

section \<open>The old version is marked\<close>

lemma growing_evolves:
  assumes g: "growing n ps t d its rss" and ev: "evolves Q (db_bm d) c" and out: "Q \<inter> insert 0 (set ps) = {}" and e: "db_store e = (db_store d)\<lparr>st_bm := c\<rparr>"
  shows "growing n ps t e its rss"
proof -
  note G = g [unfolded growing_def stored_table_def] and E = evolvesD [OF ev]
  have q: "q \<notin> Q" if "q \<in> insert 0 (set ps)" for q using that out by auto
  have "chain c ps rss" by (rule chain_kept [of "db_bm d"]) (use G E(6,7) q in auto)
  moreover have "\<forall>p \<in> set ps. named c p" using G E(6) q unfolding named_def by blast
  moreover have "meta_rep (db_store e) its" unfolding e
    by (rule meta_rep_pool [OF _ pool_okD(1) [OF E(1)], of _ _ "{}"]) (use G E(3,6) q in \<open>auto simp: stays_def\<close>)
  ultimately show ?thesis using G E(1,4) e by (simp add: growing_def stored_table_def)
qed

lemma growing_rows: "growing n ps t d its rss \<Longrightarrow> stored_table n ps t e (add_rows t c its) rss' \<Longrightarrow> growing n ps t e (add_rows t c its) rss'"
  using growing_last [of t c "last ps" its] noted_same [of its t "last ps"] by (simp add: growing_def)

lemma mark_old_run:
  assumes g: "growing n ps t d its rss" and n: "3 \<le> n" and j: "j < length (concat rss)" "concat rss ! j = r" and r: "22 \<le> length r" "rh_flags (read_header r) AND RECORD_DEL = 0"
    and w: "writable ctx (insert 0 (set ps)) d logs m (Suc k)"
  obtains e rss' where "mark_old_version ctx t (places ps rss ! j) ptr d = (Inr (), e)" "growing n ps t e (add_rows t (- 1) its) rss'"
    "concat rss' = (concat rss)[j := deleted_row ctx ptr r]" "map length rss' = map length rss" "versions_kept (insert 0 (set ps)) (db_bm d) (db_bm e)"
    "writable ctx (insert 0 (set ps)) e (logs @ [data_record (lm_next_lsn (db_log d)) ctx LR_DELETE_ROW t (places ps rss ! j) []]) m k"
    "db_txn e = db_txn d" "db_catalog e = db_catalog d" "lb_capacity (lm_buffer (db_log e)) = lb_capacity (lm_buffer (db_log d))" "bm_next_id (db_bm e) = bm_next_id (db_bm d)"
proof -
  let ?P = "insert 0 (set ps)" and ?rid = "places ps rss ! j" and ?its = "add_rows t (- 1) its" and ?l = "lm_next_lsn (db_log d)"
  have st: "stored_table n ps t d its rss" using g by (simp add: growing_def)
  have len: "length ps = length rss" using st chain_length by (auto simp: stored_table_def)
  obtain pre p qs A rs C i where at: "ps = pre @ p # qs" "rss = A @ rs # C" "length A = length pre" and i: "i < length rs"
    "?rid = \<lparr>rid_page = p, rid_row = word_of_nat (Suc i)\<rparr>" "concat rss ! j = rs ! i" "\<And>x. concat (A @ rs[i := x] # C) = (concat rss)[j := x]"
    by (rule row_index [OF len j(1)]) blast
  have n1: "1 \<le> n" using n by simp
  obtain tp c where c: "BM_FetchPage p (db_bm d) = (Inr (tp_frame tp), c)"
    "TablePage_new t (tp_frame tp) True (db_store (with_bm c d)) = (Inr tp, db_store (with_bm c d))" "table_ok tp (db_store (with_bm c d)) its rs"
    "tp_table tp = t" "tp_page_id tp = p" "tp_next tp = first_id qs" "keeps_pages (db_bm d) c" "pinned n p (tp_frame tp) c"
    by (rule enter_page [OF st n1 at])
  let ?d = "with_bm c d" and ?tp = "tp\<lparr>tp_lsn := ?l\<rparr>"
  have rs: "rs ! i = r" using i(3) j(2) by simp
  have "i < 1024" using page_layout_count [OF table_okD(4) [OF c(3)]] i(1) by simp
  then have "unat (rid_row ?rid) = Suc i" using i(2) by (simp add: unat_of_nat take_bit_eq_mod del: of_nat_Suc)
  then have tr: "table_row tp (db_store ?d) its rs ?rid i" using c(3) i(1) rs r(1) by (simp add: table_row_def)
  have fl: "rh_flags (read_header (rs ! i)) AND RECORD_DEL = 0" using rs r(2) by simp
  obtain d' where d': "log_delete ctx (tp_table tp) ?rid ptr tp ?d = (Inr (tp\<lparr>tp_lsn := lm_next_lsn (db_log ?d)\<rparr>), d')"
    "table_ok (tp\<lparr>tp_lsn := lm_next_lsn (db_log ?d)\<rparr>) (db_store d') (add_rows (tp_table tp) (- 1) its) (rs[i := deleted_row ctx ptr (rs ! i)])"
    "pg_dirty (frame_of (tp_frame tp) (db_bm d'))" "keeps {META_PAGE_ID, tp_page_id tp} (db_store ?d) (db_store d')"
    "db_log_holds d' (logs @ [data_record (lm_next_lsn (db_log ?d)) ctx LR_DELETE_ROW (tp_table tp) ?rid []])"
    "lm_next_lsn (db_log d') = lm_next_lsn (db_log ?d) + 1" "lb_capacity (lm_buffer (db_log d')) = lb_capacity (lm_buffer (db_log ?d))"
    "db_txn d' = db_txn ?d" "db_undo_page d' = db_undo_page ?d" "db_catalog d' = db_catalog ?d"
    by (rule log_delete_run [OF tr fl writable_keeps [OF w c(7)]])
  have f: "tp_frame ?tp = tp_frame tp" by simp
  obtain b where b: "thn (flush_page (tp_frame ?tp)) (release_page (tp_frame ?tp)) d' = (Inr (), with_bm b d')" "stored_table n ps t (with_bm b d') ?its (A @ rs[i := deleted_row ctx ptr r] # C)"
    "versions_kept ?P (db_bm d) b" "bm_next_id b = bm_next_id (db_bm d)" "\<forall>q. q \<notin> {0, p} \<longrightarrow> backed (db_bm d) q \<longrightarrow> backed b q"
    "\<forall>q x. q \<notin> {0, p} \<longrightarrow> page_content (db_bm d) q = Some x \<longrightarrow> page_content b q = Some x"
    by (rule flush_and_leave [OF st at c(7) c(8) [folded f], of d' ?its "rs[i := deleted_row ctx ptr r]"]) (use d'(2-4) c(4-6) rs in simp_all)
  have "mark_old_version ctx t ?rid ptr d = (Inr (), with_bm b d')"
    using i(2) c(1,2,4) d'(1) b(1) by (simp add: mark_old_version_def in_pool_def in_store_def comp_simps)
  moreover have "unat (?l + 1) = Suc (unat ?l)" using w by (simp add: writable_def unat_plus_simple [THEN iffD1] no_olen_add_nat)
  then have "writable ctx ?P (with_bm b d') (logs @ [data_record ?l ctx LR_DELETE_ROW t ?rid []]) m k"
    using w d'(5-7,9) b(4-6) c(4) at(1) by (auto simp: writable_def db_log_holds_def)
  ultimately show ?thesis using that [of "with_bm b d'"] growing_rows [OF g b(2)] i(4) at(2) b(3,4) d'(7,8,10) by simp
qed

section \<open>One row is updated\<close>

text \<open>Undo records stay outside a table that grows, and so does the page new ones go to.\<close>

lemma appended_versions:
  assumes a: "appended n t its ps rss rid r ps' rss' d e" and q: "up_page q \<notin> insert 0 (set ps)" "version_at (db_bm d) q x"
  shows "up_page q \<notin> insert 0 (set ps')" "version_at (db_bm e) q x"
proof -
  obtain zs where zs: "ps' = ps @ zs" "\<forall>q \<in> set zs. page_content (db_bm d) q = None" using a by (auto simp: appended_def)
  have "page_content (db_bm d) (up_page q) \<noteq> None" using q(2) by (auto simp: version_at_def record_at_def)
  then show out: "up_page q \<notin> insert 0 (set ps')" using zs q(1) by auto
  have "versions_kept (insert 0 (set ps')) (db_bm d) (db_bm e)" by (rule kept_versions) (use a in \<open>unfold appended_def, blast+\<close>)
  then show "version_at (db_bm e) q x" using out q(2) by (simp add: versions_kept_def)
qed

lemma appended_writable:
  assumes w: "writable ctx (insert 0 (set ps)) d logs (Suc m) (Suc k)" and a: "appended n t its ps rss rid r ps' rss' d e" and l: "logged_insert ctx t rid r logs d e"
  shows "writable ctx (insert 0 (set ps')) e (logs @ [data_record (lm_next_lsn (db_log d)) ctx LR_INSERT_ROW t rid r]) m k"
proof -
  let ?l = "lm_next_lsn (db_log d)" and ?u = "db_undo_page d"
  obtain zs where zs: "ps' = ps @ zs" "\<forall>q \<in> set zs. page_content (db_bm d) q = None" using a by (auto simp: appended_def)
  have kept: "\<forall>q y. q \<notin> insert 0 (set ps') \<longrightarrow> page_content (db_bm d) q = Some y \<longrightarrow> page_content (db_bm e) q = Some y"
    "\<forall>q. q \<notin> insert 0 (set ps') \<longrightarrow> backed (db_bm d) q \<longrightarrow> backed (db_bm e) q" using a by (simp_all add: appended_def)
  have nx: "unat (bm_next_id (db_bm e)) \<le> Suc (unat (bm_next_id (db_bm d)))" "unat (bm_next_id (db_bm d)) \<le> unat (bm_next_id (db_bm e))" using a by (simp_all add: appended_def)
  have lsn: "unat (?l + 1) = Suc (unat ?l)" using w by (simp add: writable_def unat_plus_simple [THEN iffD1] no_olen_add_nat)
  have "?u \<notin> insert 0 (set ps') \<and> backed (db_bm e) ?u \<and> (\<exists>x un. page_content (db_bm e) ?u = Some x \<and> undo_layout un x)" if "?u \<noteq> 0"
  proof -
    have "?u \<notin> insert 0 (set ps) \<and> backed (db_bm d) ?u \<and> (\<exists>x un. page_content (db_bm d) ?u = Some x \<and> undo_layout un x)" using w that by (simp add: writable_def)
    then obtain x un where u: "?u \<notin> insert 0 (set ps)" "backed (db_bm d) ?u" "page_content (db_bm d) ?u = Some x" "undo_layout un x" by blast
    then have "?u \<notin> insert 0 (set ps')" using zs by auto
    then show ?thesis using u kept by blast
  qed
  then show ?thesis using w l nx lsn by (simp add: writable_def logged_insert_def)
qed

definition storable :: "Schema \<Rightarrow> nat \<Rightarrow> Value list \<Rightarrow> bool" where
  "storable sch N vs \<longleftrightarrow> (case (ser_meta (map ce_type sch) vs, ser_payload (map ce_type sch) vs) of
     (Inr (m, sz), Inr pl) \<Rightarrow> PAYLOAD_OFFSET + length m + length pl \<le> N | _ \<Rightarrow> False)"

text \<open>The record of a new version.\<close>

definition new_record :: "Schema \<Rightarrow> ExecutorContext \<Rightarrow> UndoPointer \<Rightarrow> Value list \<Rightarrow> bytes" where
  "new_record sch ctx ptr vs = (case Row_Serialize sch \<lparr>rh_trx_id = cur_txn ctx, rh_roll_ptr = ptr, rh_flags = 0\<rparr> vs of Inl _ \<Rightarrow> [] | Inr (d, _) \<Rightarrow> d)"

lemma storable_record:
  assumes "storable sch N vs"
  shows "Row_Serialize sch \<lparr>rh_trx_id = cur_txn ctx, rh_roll_ptr = ptr, rh_flags = 0\<rparr> vs = Inr (new_record sch ctx ptr vs, length (new_record sch ctx ptr vs))"
    "length (new_record sch ctx ptr vs) \<le> N" "22 \<le> length (new_record sch ctx ptr vs)"
    "read_header (new_record sch ctx ptr vs) = \<lparr>rh_trx_id = cur_txn ctx, rh_roll_ptr = ptr, rh_flags = 0\<rparr>"
proof -
  obtain m sz pl where s: "ser_meta (map ce_type sch) vs = Inr (m, sz)" "ser_payload (map ce_type sch) vs = Inr pl" "PAYLOAD_OFFSET + length m + length pl \<le> N"
    using assms by (auto simp: storable_def split: sum.splits)
  have l: "length m = length sch" "length pl = sz" using ser_sizes [OF s(1,2)] by simp_all
  let ?h = "\<lparr>rh_trx_id = cur_txn ctx, rh_roll_ptr = ptr, rh_flags = 0\<rparr>"
  have nr: "new_record sch ctx ptr vs = header_bytes ?h @ m @ pl" using s by (simp add: new_record_def Row_Serialize_def)
  show "Row_Serialize sch ?h vs = Inr (new_record sch ctx ptr vs, length (new_record sch ctx ptr vs))"
    "length (new_record sch ctx ptr vs) \<le> N" "22 \<le> length (new_record sch ctx ptr vs)" "read_header (new_record sch ctx ptr vs) = ?h"
    unfolding nr read_header_bytes using s l by (simp_all add: Row_Serialize_def)
qed

definition old_entry :: "entry_id \<Rightarrow> RID \<times> bytes \<Rightarrow> WriteRecord" where
  "old_entry t x = \<lparr>wr_rid = fst x, wr_type = W_UPDATE_DELETE_OLD, wr_table_id = t, wr_prev_trx_id = rh_trx_id (read_header (snd x)),
     wr_prev_roll_ptr = rh_roll_ptr (read_header (snd x)), wr_prev_flags = rh_flags (read_header (snd x))\<rparr>"

definition of_row :: "Hit \<Rightarrow> RID \<times> bytes \<Rightarrow> bool" where
  "of_row h x \<longleftrightarrow> hit_rid h = fst x \<and> hit_old_bytes h = snd x \<and> hit_old_trx h = rh_trx_id (read_header (snd x)) \<and>
     hit_old_roll_ptr h = rh_roll_ptr (read_header (snd x)) \<and> hit_old_flags h = rh_flags (read_header (snd x))"

lemma hit_tuple: "Tuple_new\<lparr>t_data := Some r, t_size := word_of_nat (length r)\<rparr> = scan_tuple [] r"
  by (simp add: scan_tuple_def Tuple_new_def)

lemma growing_txn: "growing n ps t (d\<lparr>db_txn := x\<rparr>) its rss = growing n ps t d its rss" "writable ctx P (d\<lparr>db_txn := x\<rparr>) logs m k = writable ctx P d logs m k"
  by (simp_all add: growing_def stored_table_def writable_def db_log_holds_def)

lemma growing_used: "growing n ps t d its rss \<Longrightarrow> q \<in> insert 0 (set ps) \<Longrightarrow> \<exists>x. page_content (db_bm d) q = Some x"
  using chain_pages [of "db_bm d" ps rss q] fdata_content [of "db_bm d" 0]
  by (auto simp: growing_def stored_table_def meta_rep_def store_ok_def held_def)

text \<open>Undo records outside one set of pages are still there, outside another.\<close>

definition versions_move :: "page_id_t set \<Rightarrow> page_id_t set \<Rightarrow> BufferManager \<Rightarrow> BufferManager \<Rightarrow> bool" where
  "versions_move P Q b c \<longleftrightarrow> (\<forall>q x. up_page q \<notin> P \<longrightarrow> version_at b q x \<longrightarrow> up_page q \<notin> Q \<and> version_at c q x)"

lemma versions_move_trans: "versions_move P Q b c \<Longrightarrow> versions_move Q R c e \<Longrightarrow> versions_move P R b e"
  unfolding versions_move_def by blast

lemma keeps_move: "keeps_pages b c \<Longrightarrow> versions_move P P b c"
  using keeps_versions [of b c P] by (simp add: versions_move_def versions_kept_def)

text \<open>One row goes and one comes: the catalog page counts as many rows as before, but at least one, and names the last page.\<close>

definition turned :: "entry_id \<Rightarrow> page_id_t \<Rightarrow> MetaItem list \<Rightarrow> MetaItem list" where
  "turned t q = map (\<lambda>it. if mi_id it = t then it\<lparr>mi_rows := max 1 (mi_rows it), mi_last := q\<rparr> else it)"

lemma rows_balanced: "add_rows t 1 (noted t q (add_rows t (- 1) its)) = turned t q its"
proof -
  have "rows_after (rows_after x (- 1)) 1 = max 1 x" for x
    using word_less_1 [of x] by (auto simp: rows_after_def max_def not_le)
  then show ?thesis by (simp add: add_rows_def noted_def turned_def)
qed

lemma turned_last:
  assumes "growing n ps t d (turned t q its) rss"
  shows "last ps = q"
proof -
  have g: "t \<in> mi_id ` set (turned t q its)" "\<forall>it \<in> set (turned t q its). mi_id it = t \<longrightarrow> mi_last it = last ps"
    using assms unfolding growing_def stored_table_def by blast+
  have "\<forall>it \<in> set (turned t q its). mi_id it = t \<longrightarrow> mi_last it = q"
    using growing_last [of t 1 q "add_rows t (- 1) its"] unfolding rows_balanced .
  then show ?thesis using g by (metis imageE)
qed

lemma turned_again: "turned t q (turned t p its) = turned t q its"
  by (simp add: turned_def)

lemma update_row_run:
  assumes g: "growing n ps t d its rss" and n: "3 \<le> n" and j: "j < length (concat rss)" "concat rss ! j = r"
    and r: "22 \<le> length r" "length r \<le> 4052" "rh_flags (read_header r) AND RECORD_DEL = 0" and h: "of_row h (places ps rss ! j, r)"
    and new: "storable sch N (hit_new_values h)" "N \<le> 4060" "49 + N \<le> lb_capacity (lm_buffer (db_log d))"
    and w: "writable ctx (insert 0 (set ps)) d logs (Suc (Suc m)) (Suc (Suc k))" and i: "ctx_txn ctx = Some i"
  obtains e ptr ps' rss' rid l1 l2 where "update_row ctx t sch h d = (Inr (), e)" "growing n ps' t e (turned t (last ps') its) rss'"
    "concat rss' = (concat rss)[j := deleted_row ctx ptr r] @ [new_record sch ctx ptr (hit_new_values h)]" "places ps' rss' = places ps rss @ [rid]" "\<exists>zs. ps' = ps @ zs \<and> length zs \<le> 1"
    "version_at (db_bm e) ptr r" "up_page ptr \<notin> insert 0 (set ps')"
    "versions_move (insert 0 (set ps)) (insert 0 (set ps')) (db_bm d) (db_bm e)"
    "writable ctx (insert 0 (set ps')) e (logs @ [data_record l1 ctx LR_DELETE_ROW t (places ps rss ! j) [],
       data_record l2 ctx LR_INSERT_ROW t rid (new_record sch ctx ptr (hit_new_values h))]) m k"
    "db_txn e = push_write i (WriteRecord_new rid W_UPDATE_INSERT_NEW t) (push_write i (old_entry t (places ps rss ! j, r)) (db_txn d))"
    "db_catalog e = db_catalog d" "lb_capacity (lm_buffer (db_log e)) = lb_capacity (lm_buffer (db_log d))"
proof -
  let ?P = "insert 0 (set ps)" and ?rid = "places ps rss ! j" and ?h = "read_header r"
  note hit = h [unfolded of_row_def, simplified]
  have ok: "pool_ok (db_bm d)" and two: "2 \<le> length (bm_free (db_bm d))" using g n by (simp_all add: growing_def stored_table_def)
  have ne: "r \<noteq> []" using r(1) by auto
  have z: "0 \<in> ?P" by simp
  obtain ptr c d1 where a: "append_undo ctx (scan_tuple [] r) (rh_trx_id ?h) (rh_roll_ptr ?h) d = (Inr ptr, d1)"
    "d1 = d\<lparr>db_store := (db_store d)\<lparr>st_bm := c\<rparr>, db_undo_page := up_page ptr\<rparr>" "evolves {up_page ptr} (db_bm d) c" "up_page ptr \<notin> ?P" "version_at c ptr r"
    "\<forall>q x. version_at (db_bm d) q x \<longrightarrow> version_at c q x" "writable ctx ?P d1 logs (Suc m) (Suc (Suc k))"
    by (rule append_version [OF w ok two growing_used [OF g] z ne r(2)])
  have g1: "growing n ps t d1 its rss" by (rule growing_evolves [OF g a(3)]) (use a(2,4) in auto)
  obtain d2 rss2 where d2: "mark_old_version ctx t ?rid ptr d1 = (Inr (), d2)" "growing n ps t d2 (add_rows t (- 1) its) rss2"
    "concat rss2 = (concat rss)[j := deleted_row ctx ptr r]" "map length rss2 = map length rss" "versions_kept ?P (db_bm d1) (db_bm d2)"
    "writable ctx ?P d2 (logs @ [data_record (lm_next_lsn (db_log d1)) ctx LR_DELETE_ROW t ?rid []]) (Suc m) (Suc k)"
    "db_txn d2 = db_txn d1" "db_catalog d2 = db_catalog d1" "lb_capacity (lm_buffer (db_log d2)) = lb_capacity (lm_buffer (db_log d1))" "bm_next_id (db_bm d2) = bm_next_id (db_bm d1)"
    by (rule mark_old_run [OF g1 n j r(1,3) a(7)])
  let ?w1 = "old_entry t (?rid, r)" and ?r' = "new_record sch ctx ptr (hit_new_values h)" and ?logs = "logs @ [data_record (lm_next_lsn (db_log d1)) ctx LR_DELETE_ROW t ?rid []]"
  let ?d3 = "d2\<lparr>db_txn := push_write i ?w1 (db_txn d2)\<rparr>" and ?tup = "Tuple_new\<lparr>t_data := Some ?r', t_size := word_of_nat (length ?r'), t_schema := sch\<rparr>"
  note sr = storable_record [OF new(1), of ctx ptr]
  have th: "tuple_holds ?tup ?r'" and len: "length ?r' \<le> 4060" using sr(2) new(2) by (simp_all add: tuple_holds_def unat_u16_small)
  have w3: "writable ctx ?P ?d3 ?logs (Suc m) (Suc k)" and g3: "growing n ps t ?d3 (add_rows t (- 1) its) rss2" using d2(2,6) by (simp_all add: growing_txn)
  have cap: "lb_capacity (lm_buffer (db_log ?d3)) = lb_capacity (lm_buffer (db_log d))" using d2(9) a(2) by simp
  have lg: "ctx_log ctx" "db_log_holds ?d3 ?logs" "49 + length ?r' \<le> lb_capacity (lm_buffer (db_log ?d3))" "lm_next_lsn (db_log ?d3) \<noteq> 0"
    using w3 new(3) sr(2) unfolding cap by (auto simp: writable_def)
  have addr: "addressable (bm_next_id (db_bm ?d3))" using w3 by (simp add: writable_def addressable_def)
  obtain e rid ps' rss' where e: "InsertNewVersion ctx t ?tup ?d3 = (Inr rid, e)" "appended n t (add_rows t (- 1) its) ps rss2 rid ?r' ps' rss' ?d3 e" "logged_insert ctx t rid ?r' ?logs ?d3 e"
    by (rule insert_version_run [OF g3 n addr th len lg])
  let ?e = "e\<lparr>db_txn := push_write i (WriteRecord_new rid W_UPDATE_INSERT_NEW t) (db_txn e)\<rparr>"
  have "update_row ctx t sch h d = (Inr (), ?e)"
    using hit a(1) sr(1) d2(1) e(1) by (simp add: update_row_def hit_tuple comp_simps record_write_run [OF i] old_entry_def)
  moreover
  have ver: "up_page q \<notin> insert 0 (set ps') \<and> version_at (db_bm ?e) q x" if "up_page q \<notin> ?P" "version_at c q x" for q x
  proof -
    have "version_at (db_bm ?d3) q x" using that d2(5) a(2) by (simp add: versions_kept_def)
    then show ?thesis using appended_versions [OF e(2) that(1)] by simp
  qed
  from ver a(6) have "versions_move ?P (insert 0 (set ps')) (db_bm d) (db_bm ?e)" unfolding versions_move_def by blast
  moreover have "version_at (db_bm ?e) ptr r" "up_page ptr \<notin> insert 0 (set ps')" using ver [OF a(4,5)] by simp_all
  moreover have "writable ctx (insert 0 (set ps')) ?e (?logs @ [data_record (lm_next_lsn (db_log ?d3)) ctx LR_INSERT_ROW t rid ?r']) m k"
    unfolding growing_txn by (rule appended_writable [OF w3 e(2,3)])
  moreover have "growing n ps' t ?e (turned t (last ps') its) rss'" "concat rss' = concat rss2 @ [?r']" "places ps' rss' = places ps rss @ [rid]"
    using e(2) places_lengths [OF d2(4)] by (simp_all add: appended_def growing_txn rows_balanced)
  moreover have "\<exists>zs. ps' = ps @ zs \<and> length zs \<le> 1" using e(2) unfolding appended_def by blast
  moreover have "db_txn e = push_write i ?w1 (db_txn d)" "db_catalog e = db_catalog d" "lb_capacity (lm_buffer (db_log e)) = lb_capacity (lm_buffer (db_log d))"
    using e(3) d2(7-9) a(2) by (simp_all add: logged_insert_def)
  ultimately show ?thesis
    using that [of ?e ps' rss' ptr rid "lm_next_lsn (db_log d1)" "lm_next_lsn (db_log ?d3)"] d2(3) by simp
qed

section \<open>All rows are updated\<close>

text \<open>
  The rows after the old versions were marked, one undo pointer for each picked row; and what an UPDATE adds to the log and to the write set, for the pairs of an old row and the
  row that replaces it.
\<close>

fun marked_rows :: "(bytes \<Rightarrow> bool) \<Rightarrow> ExecutorContext \<Rightarrow> bytes list \<Rightarrow> UndoPointer list \<Rightarrow> bytes list" where
  "marked_rows pick ctx (r # rows) (ptr # ptrs) = (if pick r then deleted_row ctx ptr r # marked_rows pick ctx rows ptrs else r # marked_rows pick ctx rows (ptr # ptrs))"
| "marked_rows pick ctx rows [] = rows"
| "marked_rows pick ctx [] ptrs = []"

lemma marked_pick: "pick r \<Longrightarrow> marked_rows pick ctx (r # rows) (ptr # ptrs) = deleted_row ctx ptr r # marked_rows pick ctx rows ptrs"
  by simp

lemma marked_skip: "\<not> pick r \<Longrightarrow> marked_rows pick ctx (r # rows) ptrs = r # marked_rows pick ctx rows ptrs"
  by (cases ptrs) simp_all

primrec update_records :: "ExecutorContext \<Rightarrow> entry_id \<Rightarrow> ((RID \<times> bytes) \<times> (RID \<times> bytes)) list \<Rightarrow> RecoveredLog list \<Rightarrow> bool" where
  "update_records ctx t [] recs \<longleftrightarrow> recs = []"
| "update_records ctx t (x # xs) recs \<longleftrightarrow> (\<exists>l1 l2 rest. recs = data_record l1 ctx LR_DELETE_ROW t (fst (fst x)) [] # data_record l2 ctx LR_INSERT_ROW t (fst (snd x)) (snd (snd x)) # rest \<and>
     update_records ctx t xs rest)"

definition update_entries :: "entry_id \<Rightarrow> ((RID \<times> bytes) \<times> (RID \<times> bytes)) list \<Rightarrow> WriteRecord list" where
  "update_entries t xs = concat (map (\<lambda>x. [old_entry t (fst x), WriteRecord_new (fst (snd x)) W_UPDATE_INSERT_NEW t]) xs)"

text \<open>
  \<open>rows_updated\<close>: what the loop over the hits leaves behind, from a state with the rows \<open>dn @ rows @ ns\<close> whose \<open>rows\<close> are at the places \<open>rids\<close>: the picked rows are marked
  with pointers to their old versions, and a new row with the same pointer was appended for each.
\<close>

definition rows_updated :: "(bytes \<Rightarrow> bool) \<Rightarrow> ExecutorContext \<Rightarrow> tx_id_t \<Rightarrow> nat \<Rightarrow> Schema \<Rightarrow> entry_id \<Rightarrow> RID list \<Rightarrow> DB \<Rightarrow> MetaItem list \<Rightarrow> RecoveredLog list \<Rightarrow>
    page_id_t list \<Rightarrow> bytes list list \<Rightarrow> bytes list \<Rightarrow> bytes list \<Rightarrow> bytes list \<Rightarrow> Value list list \<Rightarrow> DB \<Rightarrow> bool" where
  "rows_updated pick ctx i n sch t rids d its logs ps rss dn rows ns vss e \<longleftrightarrow>
     (\<exists>ps' rss' its' ptrs rids' recs.
        (let hit = filter (\<lambda>x. pick (snd x)) (zip rids rows); new = map2 (new_record sch ctx) ptrs vss in
         growing n ps' t e its' rss' \<and> its' = (if hit = [] then its else turned t (last ps') its) \<and> length ptrs = length hit \<and> length rids' = length hit \<and> length vss = length hit \<and>
         concat rss' = dn @ marked_rows pick ctx rows ptrs @ ns @ new \<and> places ps' rss' = places ps rss @ rids' \<and> (\<exists>zs. ps' = ps @ zs \<and> length zs \<le> length hit) \<and>
         list_all2 (\<lambda>x ptr. version_at (db_bm e) ptr (snd x) \<and> up_page ptr \<notin> insert 0 (set ps')) hit ptrs \<and>
         versions_move (insert 0 (set ps)) (insert 0 (set ps')) (db_bm d) (db_bm e) \<and>
         db_log_holds e (logs @ recs) \<and> update_records ctx t (zip hit (zip rids' new)) recs \<and>
         tx_write_set (txn_of (db_txn e) i) = tx_write_set (txn_of (db_txn d) i) @ update_entries t (zip hit (zip rids' new)) \<and>
         same_views (db_txn d) (db_txn e) \<and> db_catalog e = db_catalog d))"

lemma rows_updatedE:
  assumes "rows_updated pick ctx i n sch t rids d its logs ps rss [] rows [] vss e"
  defines "hit \<equiv> filter (\<lambda>x. pick (snd x)) (zip rids rows)"
  obtains ps' rss' ptrs rids' recs where "growing n ps' t e (if hit = [] then its else turned t (last ps') its) rss'"
    "length ptrs = length hit" "length rids' = length hit" "concat rss' = marked_rows pick ctx rows ptrs @ map2 (new_record sch ctx) ptrs vss"
    "places ps' rss' = places ps rss @ rids'" "\<exists>zs. ps' = ps @ zs \<and> length zs \<le> length hit"
    "list_all2 (\<lambda>x ptr. version_at (db_bm e) ptr (snd x) \<and> up_page ptr \<notin> insert 0 (set ps')) hit ptrs"
    "versions_move (insert 0 (set ps)) (insert 0 (set ps')) (db_bm d) (db_bm e)" "db_log_holds e (logs @ recs)"
    "update_records ctx t (zip hit (zip rids' (map2 (new_record sch ctx) ptrs vss))) recs"
    "tx_write_set (txn_of (db_txn e) i) = tx_write_set (txn_of (db_txn d) i) @ update_entries t (zip hit (zip rids' (map2 (new_record sch ctx) ptrs vss)))"
    "same_views (db_txn d) (db_txn e)" "db_catalog e = db_catalog d"
  using assms(1) unfolding rows_updated_def Let_def hit_def [symmetric] append_Nil by blast

lemma rows_updated_nil:
  assumes "growing n ps t d its rss" "concat rss = dn @ ns" "db_log_holds d logs"
  shows "rows_updated pick ctx i n sch t rids d its logs ps rss dn [] ns [] d"
  unfolding rows_updated_def using assms
  by (intro exI [of _ ps] exI [of _ rss] exI [of _ its] exI [of _ "[]"])
    (simp add: versions_move_def update_entries_def same_views_push)

lemma rows_updated_zip:
  assumes "zip rids rows = zip rids' rows"
  shows "rows_updated pick ctx i n sch t rids d its logs ps rss dn rows ns vss e = rows_updated pick ctx i n sch t rids' d its logs ps rss dn rows ns vss e"
  unfolding rows_updated_def assms by (rule refl)

lemma rows_updated_from:
  assumes "rows_updated pick ctx i n sch t rids (with_bm c d) its logs ps rss dn rows ns vss e" "keeps_pages (db_bm d) c"
  shows "rows_updated pick ctx i n sch t rids d its logs ps rss dn rows ns vss e"
proof -
  have "versions_move (insert 0 (set ps)) Q (db_bm (with_bm c d)) (db_bm e) \<Longrightarrow> versions_move (insert 0 (set ps)) Q (db_bm d) (db_bm e)" for Q
    using versions_move_trans [OF keeps_move [OF assms(2)]] by simp
  moreover have "db_txn (with_bm c d) = db_txn d" "db_catalog (with_bm c d) = db_catalog d" by simp_all
  ultimately show ?thesis using assms(1) unfolding rows_updated_def Let_def by (elim exE) (intro exI, fastforce)
qed

lemma rows_updated_skip:
  assumes "rows_updated pick ctx i n sch t rids d its logs ps rss (dn @ [r]) rows ns vss e" "\<not> pick r"
  shows "rows_updated pick ctx i n sch t (rid # rids) d its logs ps rss dn (r # rows) ns vss e"
  using assms unfolding rows_updated_def by (simp add: marked_skip)

text \<open>Putting the update of one row in front of the others.\<close>

lemma rows_updated_cons:
  assumes rest: "rows_updated pick ctx i n sch t rids d1 (turned t (last ps1) its) (logs @ recs) ps1 rss1 (dn @ [deleted_row ctx ptr r]) rows (ns @ [new_record sch ctx ptr vs]) vss e"
    and pick: "pick r" and pl: "places ps1 rss1 = places ps rss @ [nid]"
    and ver: "version_at (db_bm d1) ptr r" "up_page ptr \<notin> insert 0 (set ps1)" "versions_move (insert 0 (set ps)) (insert 0 (set ps1)) (db_bm d) (db_bm d1)"
    and zs: "\<exists>zs. ps1 = ps @ zs \<and> length zs \<le> 1"
    and recs: "recs = [data_record l1 ctx LR_DELETE_ROW t rid [], data_record l2 ctx LR_INSERT_ROW t nid (new_record sch ctx ptr vs)]"
    and txn: "db_txn d1 = push_write i (WriteRecord_new nid W_UPDATE_INSERT_NEW t) (push_write i (old_entry t (rid, r)) (db_txn d))" and cat: "db_catalog d1 = db_catalog d"
  shows "rows_updated pick ctx i n sch t (rid # rids) d its logs ps rss dn (r # rows) ns (vs # vss) e"
proof -
  let ?hit = "filter (\<lambda>x. pick (snd x)) (zip rids rows)" and ?its = "turned t (last ps1) its"
  obtain ps' rss' its' ptrs rids' recs' where R: "growing n ps' t e its' rss'" "its' = (if ?hit = [] then ?its else turned t (last ps') ?its)"
    "length ptrs = length ?hit" "length rids' = length ?hit" "length vss = length ?hit"
    "concat rss' = (dn @ [deleted_row ctx ptr r]) @ marked_rows pick ctx rows ptrs @ (ns @ [new_record sch ctx ptr vs]) @ map2 (new_record sch ctx) ptrs vss"
    "places ps' rss' = places ps1 rss1 @ rids'" "list_all2 (\<lambda>x ptr. version_at (db_bm e) ptr (snd x) \<and> up_page ptr \<notin> insert 0 (set ps')) ?hit ptrs"
    "versions_move (insert 0 (set ps1)) (insert 0 (set ps')) (db_bm d1) (db_bm e)" "db_log_holds e ((logs @ recs) @ recs')"
    "update_records ctx t (zip ?hit (zip rids' (map2 (new_record sch ctx) ptrs vss))) recs'"
    "tx_write_set (txn_of (db_txn e) i) = tx_write_set (txn_of (db_txn d1) i) @ update_entries t (zip ?hit (zip rids' (map2 (new_record sch ctx) ptrs vss)))"
    "same_views (db_txn d1) (db_txn e)" "db_catalog e = db_catalog d1" "\<exists>zs. ps' = ps1 @ zs \<and> length zs \<le> length ?hit" using rest unfolding rows_updated_def Let_def by blast
  have last: "its' = turned t (last ps') its" using R(1,2) turned_last [of n ps' t e "last ps1" its rss'] by (auto simp: turned_again split: if_splits)
  have zs': "\<exists>zs. ps' = ps @ zs \<and> length zs \<le> Suc (length ?hit)" using zs R(15) by fastforce
  have v: "version_at (db_bm e) ptr r" "up_page ptr \<notin> insert 0 (set ps')" using ver(1,2) R(9) by (auto simp: versions_move_def)
  have mv: "versions_move (insert 0 (set ps)) (insert 0 (set ps')) (db_bm d) (db_bm e)" by (rule versions_move_trans [OF ver(3) R(9)])
  have sv: "same_views (db_txn d) (db_txn e)" by (rule same_views_trans [OF _ R(13)]) (use txn same_views_push same_views_trans in metis)
  have rec: "update_records ctx t (((rid, r), nid, new_record sch ctx ptr vs) # zip ?hit (zip rids' (map2 (new_record sch ctx) ptrs vss))) (recs @ recs')"
    using R(11) recs by auto
  show ?thesis unfolding rows_updated_def Let_def
    by (intro exI [of _ ps'] exI [of _ rss'] exI [of _ its'] exI [of _ "ptr # ptrs"] exI [of _ "nid # rids'"] exI [of _ "recs @ recs'"])
      (use R pick pl zs' v mv sv rec last txn cat in \<open>simp add: update_entries_def push_write_set\<close>)
qed

lemma update_loop_run:
  assumes "growing n ps t d its rss" "concat rss = dn @ rows @ ns" "length dn = k" and n: "3 \<le> n" and N: "N \<le> 4060" and i: "ctx_txn ctx = Some i"
    and "49 + N \<le> lb_capacity (lm_buffer (db_log d))"
    and "list_all2 (\<lambda>x h. of_row h x \<and> storable sch N (hit_new_values h)) (filter (\<lambda>x. pick (snd x)) (zip (drop k (places ps rss)) rows)) hs"
    and "\<forall>r \<in> set rows. pick r \<longrightarrow> 22 \<le> length r \<and> length r \<le> 4052 \<and> rh_flags (read_header r) AND RECORD_DEL = 0"
    and "writable ctx (insert 0 (set ps)) d logs (2 * length hs) (2 * length hs)"
  shows "\<exists>e. for_each hs (update_row ctx t sch) d = (Inr (), e) \<and>
    rows_updated pick ctx i n sch t (drop k (places ps rss)) d its logs ps rss dn rows ns (map hit_new_values hs) e"
  using assms(1-3,7-10)
proof (induction rows arbitrary: ps d its rss dn k ns hs logs)
  case Nil
  then show ?case using rows_updated_nil [OF Nil.prems(1), of dn ns logs] by (simp add: comp_simps writable_def)
next
  case (Cons r rows)
  let ?pl = "places ps rss" and ?P = "\<lambda>x. pick (snd x)"
  have st: "stored_table n ps t d its rss" using Cons.prems(1) by (simp add: growing_def)
  then have "length ps = length rss" using chain_length by (auto simp: stored_table_def)
  then have len: "length ?pl = length (concat rss)" by (rule length_places)
  have k: "k < length (concat rss)" "concat rss ! k = r" using Cons.prems(2,3) by (auto simp: nth_append)
  then have dr: "drop k ?pl = ?pl ! k # drop (Suc k) ?pl" using len by (simp add: Cons_nth_drop_Suc)
  show ?case
  proof (cases "pick r")
    case False
    have "list_all2 (\<lambda>x h. of_row h x \<and> storable sch N (hit_new_values h)) (filter ?P (zip (drop (Suc k) ?pl) rows)) hs"
      using Cons.prems(5) False unfolding dr by simp
    then obtain e where "for_each hs (update_row ctx t sch) d = (Inr (), e)"
      "rows_updated pick ctx i n sch t (drop (Suc k) ?pl) d its logs ps rss (dn @ [r]) rows ns (map hit_new_values hs) e"
      using Cons.IH [OF Cons.prems(1), of "dn @ [r]" ns "Suc k" hs logs] Cons.prems by auto
    then show ?thesis using rows_updated_skip False unfolding dr by blast
  next
    case True
    have "list_all2 (\<lambda>x h. of_row h x \<and> storable sch N (hit_new_values h)) ((?pl ! k, r) # filter ?P (zip (drop (Suc k) ?pl) rows)) hs"
      using Cons.prems(5) True unfolding dr by simp
    then obtain h hs' where hs: "hs = h # hs'" "of_row h (?pl ! k, r)" "storable sch N (hit_new_values h)"
      "list_all2 (\<lambda>x h. of_row h x \<and> storable sch N (hit_new_values h)) (filter ?P (zip (drop (Suc k) ?pl) rows)) hs'" by (auto simp: list_all2_Cons1)
    have r: "22 \<le> length r" "length r \<le> 4052" "rh_flags (read_header r) AND RECORD_DEL = 0" using Cons.prems(6) True by simp_all
    have w: "writable ctx (insert 0 (set ps)) d logs (Suc (Suc (2 * length hs'))) (Suc (Suc (2 * length hs')))" using Cons.prems(7) hs(1) by simp
    obtain e ptr ps' rss' rid l1 l2 where e: "update_row ctx t sch h d = (Inr (), e)" "growing n ps' t e (turned t (last ps') its) rss'"
      "concat rss' = (concat rss)[k := deleted_row ctx ptr r] @ [new_record sch ctx ptr (hit_new_values h)]" "places ps' rss' = ?pl @ [rid]" "\<exists>zs. ps' = ps @ zs \<and> length zs \<le> 1"
      "version_at (db_bm e) ptr r" "up_page ptr \<notin> insert 0 (set ps')" "versions_move (insert 0 (set ps)) (insert 0 (set ps')) (db_bm d) (db_bm e)"
      "writable ctx (insert 0 (set ps')) e (logs @ [data_record l1 ctx LR_DELETE_ROW t (?pl ! k) [],
         data_record l2 ctx LR_INSERT_ROW t rid (new_record sch ctx ptr (hit_new_values h))]) (2 * length hs') (2 * length hs')"
      "db_txn e = push_write i (WriteRecord_new rid W_UPDATE_INSERT_NEW t) (push_write i (old_entry t (?pl ! k, r)) (db_txn d))"
      "db_catalog e = db_catalog d" "lb_capacity (lm_buffer (db_log e)) = lb_capacity (lm_buffer (db_log d))"
      by (rule update_row_run [OF Cons.prems(1) n k r hs(2,3) N Cons.prems(4) w i])
    have rows: "concat rss' = (dn @ [deleted_row ctx ptr r]) @ rows @ (ns @ [new_record sch ctx ptr (hit_new_values h)])"
      using e(3) Cons.prems(2,3) by (simp add: list_update_append)
    have dl: "length (dn @ [deleted_row ctx ptr r]) = Suc k" using Cons.prems(3) by simp
    have "length rows \<le> length (drop (Suc k) ?pl)" using len Cons.prems(2,3) by simp
    then have zp: "zip (drop (Suc k) (places ps' rss')) rows = zip (drop (Suc k) ?pl) rows" unfolding e(4) using k(1) len by (simp add: zip_append1)
    then have "list_all2 (\<lambda>x h. of_row h x \<and> storable sch N (hit_new_values h)) (filter ?P (zip (drop (Suc k) (places ps' rss')) rows)) hs'" using hs(4) by simp
    then obtain e' where e': "for_each hs' (update_row ctx t sch) e = (Inr (), e')" "rows_updated pick ctx i n sch t (drop (Suc k) (places ps' rss')) e (turned t (last ps') its)
        (logs @ [data_record l1 ctx LR_DELETE_ROW t (?pl ! k) [], data_record l2 ctx LR_INSERT_ROW t rid (new_record sch ctx ptr (hit_new_values h))]) ps' rss'
        (dn @ [deleted_row ctx ptr r]) rows (ns @ [new_record sch ctx ptr (hit_new_values h)]) (map hit_new_values hs') e'"
      using Cons.IH [OF e(2) rows dl _ _ _ e(9)] Cons.prems(4,6) e(12) by auto
    have "rows_updated pick ctx i n sch t (?pl ! k # drop (Suc k) ?pl) d its logs ps rss dn (r # rows) ns (hit_new_values h # map hit_new_values hs') e'"
      by (rule rows_updated_cons [OF e'(2) [unfolded rows_updated_zip [OF zp]] True e(4,6-8,5) refl e(10,11)])
    then show ?thesis using e(1) e'(1) hs(1) unfolding dr by (simp add: comp_simps)
  qed
qed

section \<open>The statement\<close>

lemma growing_keeps:
  assumes "growing n ps t d its rss" "keeps_pages (db_bm d) c" "stays (set ps) (db_bm d) c" "length (bm_free c) = n"
  shows "growing n ps t (with_bm c d) its rss"
proof -
  have ch: "chain (db_bm d) ps rss" and m: "meta_rep (db_store d) its" using assms(1) by (simp_all add: growing_def stored_table_def)
  have "0 \<notin> set ps" using chain_pages [OF ch] by blast
  then have "meta_rep (db_store (with_bm c d)) its" using m assms(2) meta_rep_pool [OF _ _ assms(3), of its] by (simp add: keeps_pages_def pool_ok_def)
  then show ?thesis using assms chain_keeps [OF ch assms(2)] named_keeps [OF _ assms(2)] by (auto simp: growing_def stored_table_def keeps_pages_def)
qed

text \<open>The values a row gets.\<close>

definition new_values :: "Schema \<Rightarrow> (entry_id \<times> Value) list \<Rightarrow> bytes \<Rightarrow> Value list \<Rightarrow> bool" where
  "new_values sch sets r vs \<longleftrightarrow> (\<exists>ws. Row_Deserialize sch r = Inr (read_header r, ws) \<and> vs = foldl apply_set ws sets)"

lemma hits_values: "list_all2 (hit_at sch sets b) xs hs \<Longrightarrow> list_all2 (\<lambda>x vs. new_values sch sets (snd x) vs) xs (map hit_new_values hs)"
  unfolding list_all2_map2 by (erule list_all2_mono) (auto simp: hit_for_def new_values_def)

lemma values_storable: "list_all2 (new_values sch sets) rs vss \<Longrightarrow> (\<And>r vs. r \<in> set rs \<Longrightarrow> new_values sch sets r vs \<Longrightarrow> storable sch N vs) \<Longrightarrow> list_all2 (\<lambda>r vs. storable sch N vs) rs vss"
  by (induction rule: list_all2_induct) auto

lemma hits_storable:
  assumes "list_all2 (hit_at sch sets b) xs hs" "\<And>x vs. x \<in> set xs \<Longrightarrow> new_values sch sets (snd x) vs \<Longrightarrow> storable sch N vs"
  shows "list_all2 (\<lambda>x h. of_row h x \<and> storable sch N (hit_new_values h)) xs hs"
  using assms by (induction rule: list_all2_induct) (auto simp: hit_for_def new_values_def of_row_def)

text \<open>\<open>open_table\<close>: a table that is known and has pages, the last of which the catalog page names.\<close>

definition open_table :: "DB \<Rightarrow> string \<Rightarrow> entry_id \<Rightarrow> TableEntry \<Rightarrow> MetaItem list \<Rightarrow> page_id_t list \<Rightarrow> bytes list list \<Rightarrow> bool" where
  "open_table d t i te its ps rss \<longleftrightarrow> table_at d t i te its ps rss \<and> Cat_GetTableName (db_catalog d) i = Inr t \<and> ps \<noteq> [] \<and> (\<forall>it \<in> set its. mi_id it = i \<longrightarrow> mi_last it = last ps)"

lemma update_run:
  assumes tab: "open_table d t i te its ps rss" and w: "writable ctx (insert 0 (set ps)) d logs (2 * length (concat rss)) (2 * length (concat rss))" and j: "ctx_txn ctx = Some j"
    and nc: "no_conflicts ctx d" and pick: "pick = picked D ctx d (TE_GetSchema te) (xu_filter xu)" and N: "N \<le> 4060" "49 + N \<le> lb_capacity (lm_buffer (db_log d))"
    and test: "\<And>r. r \<in> set (concat rss) \<Longrightarrow> testable D ctx d (TE_GetSchema te) (xu_filter xu) r \<and> length r \<le> 4052"
    and new: "\<And>r. r \<in> set (concat rss) \<Longrightarrow> pick r \<Longrightarrow> readable (TE_GetSchema te) r \<and> (\<forall>vs. new_values (TE_GetSchema te) (xu_sets xu) r vs \<longrightarrow> storable (TE_GetSchema te) N vs)"
    and xu: "xu_table xu = i" "xu_schema xu = []" "\<not> xu_done xu" "xu_count xu = 0" and fuel: "length ps < fuel" "length (concat rss) < fuel"
  obtains xu1 d1 xu2 e vss where "XU_Open fuel xu d = (Inr xu1, d1)" "XU_Next D fuel ctx xu1 d1 = (Inr xu2, e)"
    "xu_count xu2 = word_of_nat (length (filter (\<lambda>x. pick (snd x)) (zip (places ps rss) (concat rss))))"
    "list_all2 (\<lambda>x vs. new_values (TE_GetSchema te) (xu_sets xu) (snd x) vs) (filter (\<lambda>x. pick (snd x)) (zip (places ps rss) (concat rss))) vss"
    "rows_updated pick ctx j (length (bm_free (db_bm d))) (TE_GetSchema te) i (places ps rss) d its logs ps rss [] (concat rss) [] vss e"
proof -
  let ?n = "length (bm_free (db_bm d))" and ?sch = "TE_GetSchema te" and ?hit = "filter (\<lambda>x. pick (snd x)) (zip (places ps rss) (concat rss))"
  note T = tab [unfolded open_table_def table_at_def]
  have first: "MP_GetFirstPageId_by_name t (db_store d) = (Inr (first_id ps), db_store d)" using T by (simp add: MP_GetFirstPageId_by_name_def comp_simps)
  have ch: "chain (db_bm d) ps rss" and ok: "pool_ok (db_bm d)" and free: "1 \<le> ?n" "3 \<le> ?n" and cat: "Cat_GetTableName (db_catalog d) (xu_table xu) = Inr t" "Cat_table (db_catalog d) (xu_table xu) = Inr te"
    using T xu(1) by simp_all
  have t1: "\<forall>r \<in> set (concat rss). testable D ctx d ?sch (xu_filter xu) r \<and> (picked D ctx d ?sch (xu_filter xu) r \<longrightarrow> readable ?sch r)" using test new pick by blast
  obtain xu1 c xu2 hs e it where o: "XU_Open fuel xu d = (Inr xu1, with_bm c d)" "collect_hits D fuel fuel ctx xu1 [] (with_bm c d) = (Inr (xu2, hs), with_bm e d)"
    "keeps_pages (db_bm d) e" "stays (set ps) (db_bm d) e" "length (bm_free e) = length (bm_free (db_bm d))"
    "xu1 = xu\<lparr>xu_table_name := t, xu_schema := ?sch, xu_iterator := Some it\<rparr>" "xu2 = xu\<lparr>xu_table_name := t, xu_schema := ?sch, xu_iterator := xu_iterator xu2\<rparr>"
    "list_all2 (hit_at ?sch (xu_sets xu) e) (filter (\<lambda>x. picked D ctx d ?sch (xu_filter xu) (snd x)) (zip (places ps rss) (concat rss))) hs"
    by (rule update_open_run [OF first ch ok free(1) cat xu(2) nc t1 fuel])
  note hs = o(8) [folded pick]
  let ?e = "with_bm e d"
  have g: "growing ?n ps i ?e its rss" by (rule growing_keeps [OF _ o(3,4,5)]) (use T in \<open>simp add: growing_def stored_table_def\<close>)
  have in_hit: "x \<in> set ?hit \<Longrightarrow> snd x \<in> set (concat rss) \<and> pick (snd x)" for x by (cases x) (auto dest: set_zip_rightD simp del: set_concat)
  have st: "list_all2 (\<lambda>x h. of_row h x \<and> storable ?sch N (hit_new_values h)) (filter (\<lambda>x. pick (snd x)) (zip (drop 0 (places ps rss)) (concat rss))) hs"
    unfolding drop_0 by (rule hits_storable [OF hs]) (use new in_hit in blast)
  have "length hs = length ?hit" using list_all2_lengthD [OF hs] by simp
  then have "length hs \<le> length (concat rss)" using length_filter_le [of "\<lambda>x. pick (snd x)" "zip (places ps rss) (concat rss)"] by simp
  then have we: "writable ctx (insert 0 (set ps)) ?e logs (2 * length hs) (2 * length hs)" by (intro writable_less [OF writable_keeps [OF w o(3)]]) simp_all
  have rw: "\<forall>r \<in> set (concat rss). pick r \<longrightarrow> 22 \<le> length r \<and> length r \<le> 4052 \<and> rh_flags (read_header r) AND RECORD_DEL = 0"
    using test pick by (simp add: testable_def picked_def open_to_def)
  have cap: "49 + N \<le> lb_capacity (lm_buffer (db_log ?e))" using N(2) by simp
  obtain f where f: "for_each hs (update_row ctx i ?sch) ?e = (Inr (), f)"
    "rows_updated pick ctx j ?n ?sch i (drop 0 (places ps rss)) ?e its logs ps rss [] (concat rss) [] (map hit_new_values hs) f"
    using update_loop_run [OF g _ _ free(2) N(1) j cap st rw we, of "[]" "[]"] by auto
  have "rows_updated pick ctx j ?n ?sch i (places ps rss) d its logs ps rss [] (concat rss) [] (map hit_new_values hs) f"
    using rows_updated_from [OF f(2) o(3)] by simp
  moreover have "XU_Next D fuel ctx xu1 (with_bm c d) = (Inr (xu2\<lparr>xu_done := True, xu_count := xu_count xu2 + word_of_nat (length hs)\<rparr>), f)"
    using o(2,6) f(1) xu(1,3) by (simp add: XU_Next_def comp_simps)
  moreover have "xu_count xu2 = 0" using o(7) xu(4) by (cases xu2) simp
  ultimately show ?thesis using that [OF o(1)] hits_values [OF hs] \<open>length hs = length ?hit\<close> by simp
qed


section \<open>What readers see afterwards\<close>

lemma hits_rows: "length rids = length rows \<Longrightarrow> list_all2 (\<lambda>x. P (snd x)) (filter (\<lambda>x. pick (snd x)) (zip rids rows)) ys \<Longrightarrow> list_all2 P (filter pick rows) ys"
  by (induction rids rows arbitrary: ys rule: list_induct2) (auto simp: list_all2_Cons1 split: if_splits)

text \<open>The values of the reader for the rows that were picked.\<close>

definition seen_of_picked :: "(bytes \<Rightarrow> bool) \<Rightarrow> bytes list \<Rightarrow> bytes option list \<Rightarrow> bytes option list" where
  "seen_of_picked pick rows xs = map snd (filter (\<lambda>y. pick (fst y)) (zip rows xs))"

lemma seen_of_picked_sees: "list_all2 P rows xs \<Longrightarrow> list_all2 P (filter pick rows) (seen_of_picked pick rows xs)"
  by (induction rule: list_all2_induct) (simp_all add: seen_of_picked_def)

lemma map2_second: "length xs = length ys \<Longrightarrow> map2 (\<lambda>x. If False z) xs ys = ys"
  by (induction xs ys rule: list_induct2) simp_all

lemma marked_sees:
  assumes "list_all2 (row_sees_outside P rd d k) rows xs" "list_all2 (\<lambda>r ptr. version_at (db_bm e) ptr r \<and> up_page ptr \<notin> P) (filter pick rows) ptrs"
    and rest: "versions_kept P (db_bm d) (db_bm e)" "sees_trx rd e = sees_trx rd d" "0 \<in> P" "Suc k \<le> m"
  shows "list_all2 (row_sees rd e m) (marked_rows pick ctx rows ptrs) (map2 (\<lambda>r x. if pick r \<and> sees_trx rd d (cur_txn ctx) then None else x) rows xs)"
  using assms(1,2)
proof (induction rows xs arbitrary: ptrs rule: list_all2_induct)
  case (Cons r rows x xs)
  show ?case
  proof (cases "pick r")
    case True
    then obtain ptr ptrs' where p: "ptrs = ptr # ptrs'" "version_at (db_bm e) ptr r" "up_page ptr \<notin> P" "list_all2 (\<lambda>r ptr. version_at (db_bm e) ptr r \<and> up_page ptr \<notin> P) (filter pick rows) ptrs'"
      using Cons.prems by (auto simp: list_all2_Cons1)
    have "row_outcome ctx P (db_bm e) True r (deleted_row ctx ptr r)" using p(2,3) by (auto simp: row_outcome_def)
    from row_after [OF Cons.hyps(1) this rest] Cons.IH [OF p(4)] show ?thesis using True p(1) by simp
  next
    case False
    have "row_outcome ctx P (db_bm e) False r r" by (simp add: row_outcome_def)
    from row_after [OF Cons.hyps(1) this rest] Cons.IH [of ptrs] show ?thesis using False Cons.prems by (simp add: marked_skip)
  qed
next
  case Nil
  then show ?case by simp
qed

text \<open>The new version itself for a reader that sees its writer, what the old one shows for any other.\<close>

lemma new_row_sees:
  assumes "row_sees_outside P rd d k r x" "rh_flags (read_header r) AND RECORD_DEAD = 0" "version_at (db_bm e) ptr r" "up_page ptr \<noteq> 0" "storable sch N vs"
    and rest: "versions_kept P (db_bm d) (db_bm e)" "sees_trx rd e = sees_trx rd d" "Suc k \<le> m"
  shows "row_sees rd e m (new_record sch ctx ptr vs) (if sees_trx rd d (cur_txn ctx) then Some (new_record sch ctx ptr vs) else x)"
proof -
  note s = storable_record [OF assms(5), of ctx ptr]
  have "sees (sees_trx rd d) (\<lambda>q y. version_at (db_bm d) q y \<and> up_page q \<notin> P) k r x" using assms(1,2) by (simp add: row_sees_outside_def)
  then have old: "sees (sees_trx rd e) (version_at (db_bm e)) k r x" unfolding rest(2) by (rule sees_mono) (use rest(1) in \<open>auto simp: versions_kept_def\<close>)
  have "sees (sees_trx rd e) (version_at (db_bm e)) (Suc k) (new_record sch ctx ptr vs) (if sees_trx rd d (cur_txn ctx) then Some (new_record sch ctx ptr vs) else x)"
  proof (cases "sees_trx rd d (cur_txn ctx)")
    case True
    then show ?thesis using s(3,4) rest(2) by (auto intro!: sees_here)
  next
    case False
    then show ?thesis using s(3,4) rest(2) assms(3,4) old by (auto intro!: sees_back simp: UndoPointer_IsNull_def)
  qed
  from sees_more [OF this rest(3)] show ?thesis using s(3,4) by (simp add: row_sees_def)
qed

lemma new_rows_see:
  assumes "list_all2 (row_sees_outside P rd d k) rs xs" "\<forall>r \<in> set rs. rh_flags (read_header r) AND RECORD_DEAD = 0"
    and "list_all2 (\<lambda>r ptr. version_at (db_bm e) ptr r \<and> up_page ptr \<noteq> 0) rs ptrs" "list_all2 (\<lambda>r vs. storable sch N vs) rs vss"
    and rest: "versions_kept P (db_bm d) (db_bm e)" "sees_trx rd e = sees_trx rd d" "Suc k \<le> m"
  shows "list_all2 (row_sees rd e m) (map2 (new_record sch ctx) ptrs vss) (if sees_trx rd d (cur_txn ctx) then map Some (map2 (new_record sch ctx) ptrs vss) else xs)"
  using assms(1-4)
proof (induction rs xs arbitrary: ptrs vss rule: list_all2_induct)
  case (Cons r rs x xs)
  then obtain ptr ptrs' vs vss' where p: "ptrs = ptr # ptrs'" "vss = vs # vss'" "version_at (db_bm e) ptr r" "up_page ptr \<noteq> 0" "storable sch N vs"
    "list_all2 (\<lambda>r ptr. version_at (db_bm e) ptr r \<and> up_page ptr \<noteq> 0) rs ptrs'" "list_all2 (\<lambda>r vs. storable sch N vs) rs vss'" by (auto simp: list_all2_Cons1)
  have "rh_flags (read_header r) AND RECORD_DEAD = 0" using Cons.prems(1) by simp
  from new_row_sees [OF Cons.hyps(1) this p(3-5) rest, of ctx] Cons.IH [OF _ p(6,7)] show ?case using p(1,2) Cons.prems(1) by (auto split: if_splits)
qed simp

lemma turned_names:
  assumes "meta_rep s its" "meta_rep u (if h then its else turned t q its)"
  shows "mp_name_tables (st_meta u) = mp_name_tables (st_meta s)"
proof -
  have "map (\<lambda>it. (mi_name it, mi_first it)) (turned t q its) = map (\<lambda>it. (mi_name it, mi_first it)) its" by (simp add: turned_def)
  then show ?thesis using assms by (simp add: meta_rep_def tables_of_def split: if_splits)
qed

text \<open>A scan of the table after an UPDATE.\<close>

lemma scan_after_update:
  assumes tab: "open_table d t i te its ps rss" and up: "rows_updated pick ctx j (length (bm_free (db_bm d))) (TE_GetSchema te) i (places ps rss) d its logs ps rss [] (concat rss) [] vss e"
    and vss: "list_all2 (\<lambda>r vs. storable (TE_GetSchema te) N vs) (filter pick (concat rss)) vss"
    and dead: "\<forall>r \<in> set (concat rss). pick r \<longrightarrow> rh_flags (read_header r) AND RECORD_DEAD = 0"
    and rd: "has_view rd d" "ctx_undo rd" "list_all2 (row_sees_outside (insert 0 (set ps)) rd d k) (concat rss) xs" and cur: "cur_txn ctx = j"
    and fuel: "k < fuel" "Suc (length rss + length (concat rss)) < fuel" "2 * length (concat rss) < fuel"
  obtains sq e1 ts e2 ptrs where "SS_Open fuel (ExecutorSeqScan_new t) e = (Inr sq, e1)" "scan_all fuel fuel rd sq e1 = (Inr ts, e2)" "length ptrs = length vss"
    "map t_data ts = filter (\<lambda>x. x \<noteq> None) (map2 (\<lambda>r x. if pick r \<and> sees_trx rd d j then None else x) (concat rss) xs @
       (if sees_trx rd d j then map Some (map2 (new_record (TE_GetSchema te) ctx) ptrs vss) else seen_of_picked pick (concat rss) xs))"
proof -
  let ?P = "insert 0 (set ps)" and ?hit = "filter (\<lambda>x. pick (snd x)) (zip (places ps rss) (concat rss))" and ?new = "\<lambda>ptrs. map2 (new_record (TE_GetSchema te) ctx) ptrs vss"
  note T = tab [unfolded open_table_def table_at_def]
  have "length ps = length rss" using T chain_length by blast
  note len = length_places [OF this] this
  obtain ps' rss' ptrs rids recs where R: "growing (length (bm_free (db_bm d))) ps' i e (if ?hit = [] then its else turned i (last ps') its) rss'"
    "length ptrs = length ?hit" "length rids = length ?hit" "concat rss' = marked_rows pick ctx (concat rss) ptrs @ ?new ptrs"
    "places ps' rss' = places ps rss @ rids" "\<exists>zs. ps' = ps @ zs \<and> length zs \<le> length ?hit"
    "list_all2 (\<lambda>x ptr. version_at (db_bm e) ptr (snd x) \<and> up_page ptr \<notin> insert 0 (set ps')) ?hit ptrs"
    "versions_move ?P (insert 0 (set ps')) (db_bm d) (db_bm e)" "db_log_holds e (logs @ recs)"
    "update_records ctx i (zip ?hit (zip rids (?new ptrs))) recs"
    "tx_write_set (txn_of (db_txn e) j) = tx_write_set (txn_of (db_txn d) j) @ update_entries i (zip ?hit (zip rids (?new ptrs)))"
    "same_views (db_txn d) (db_txn e)" "db_catalog e = db_catalog d" by (rule rows_updatedE [OF up])
  note G = R(1) [unfolded growing_def stored_table_def] and sv = same_views_sees [OF R(12)]
  have hl: "length ?hit \<le> length (concat rss)" using length_filter_le [of "\<lambda>x. pick (snd x)" "zip (places ps rss) (concat rss)"] by simp
  have vk: "versions_kept ?P (db_bm d) (db_bm e)" using R(8) by (simp add: versions_move_def versions_kept_def)
  have ptrs: "list_all2 (\<lambda>r ptr. version_at (db_bm e) ptr r \<and> up_page ptr \<notin> ?P) (filter pick (concat rss)) ptrs"
    by (rule hits_rows [OF len(1)], rule list_all2_mono [OF R(7)]) (use R(6) in auto)
  have p0: "list_all2 (\<lambda>r ptr. version_at (db_bm e) ptr r \<and> up_page ptr \<noteq> 0) (filter pick (concat rss)) ptrs" by (rule list_all2_mono [OF ptrs]) simp
  have m: "Suc k \<le> fuel" using fuel(1) by simp
  have z: "0 \<in> ?P" by simp
  have old: "list_all2 (row_sees rd e fuel) (marked_rows pick ctx (concat rss) ptrs) (map2 (\<lambda>r x. if pick r \<and> sees_trx rd d j then None else x) (concat rss) xs)"
    using marked_sees [OF rd(3) ptrs vk sv(1) z m, of ctx] unfolding cur .
  have d': "\<forall>r \<in> set (filter pick (concat rss)). rh_flags (read_header r) AND RECORD_DEAD = 0" using dead by auto
  have new: "list_all2 (row_sees rd e fuel) (?new ptrs) (if sees_trx rd d j then map Some (?new ptrs) else seen_of_picked pick (concat rss) xs)"
    using new_rows_see [OF seen_of_picked_sees [OF rd(3)] d' p0 vss vk sv(1) m, of ctx] unfolding cur .
  have see: "list_all2 (row_sees rd e fuel) (concat rss') (map2 (\<lambda>r x. if pick r \<and> sees_trx rd d j then None else x) (concat rss) xs @
      (if sees_trx rd d j then map Some (?new ptrs) else seen_of_picked pick (concat rss) xs))"
    unfolding R(4) by (rule list_all2_appendI [OF old new])
  have md: "meta_rep (db_store d) its" using T by simp
  have "mp_name_tables (st_meta (db_store e)) = mp_name_tables (st_meta (db_store d))"
    using G turned_names [OF md, of "db_store e" "?hit = []" i "last ps'"] by simp
  moreover have "first_id ps' = first_id ps" using R(6) T by (cases ps) auto
  ultimately have tr: "table_rows e t te rss'" using T G R(13) chain_heap [of "db_bm e" ps' rss'] by (simp add: table_rows_def)
  have "length rss' = length ps'" using G chain_length by fastforce
  then have f1: "Suc (length rss') < fuel" using R(6) len(2) hl fuel(2) by auto
  have "length (marked_rows pick ctx (concat rss) ptrs) = length (concat rss)" using list_all2_lengthD [OF old] list_all2_lengthD [OF rd(3)] by simp
  then have f2: "length (concat rss') < fuel" using R(2,4) hl fuel(3) by simp
  have "has_view rd e" using rd(1) sv(2) by simp
  then obtain sq e1 ts e2 where "SS_Open fuel (ExecutorSeqScan_new t) e = (Inr sq, e1)" "scan_all fuel fuel rd sq e1 = (Inr ts, with_bm e2 e)"
    "map t_data ts = filter (\<lambda>x. x \<noteq> None) (map2 (\<lambda>r x. if pick r \<and> sees_trx rd d j then None else x) (concat rss) xs @
      (if sees_trx rd d j then map Some (?new ptrs) else seen_of_picked pick (concat rss) xs))" by (rule scan_snapshot [OF tr _ rd(2) see f1 f2])
  moreover have "length ptrs = length vss" using list_all2_lengthD [OF ptrs] list_all2_lengthD [OF vss] by simp
  ultimately show ?thesis using that by blast
qed


section \<open>A table with one row\<close>

lemma table_db_open:
  assumes "table_at (table_db f c) ''users'' 7 demo_entry [users_item] [1] [[demo_record]]"
  shows "open_table (table_db f c) ''users'' 7 demo_entry [users_item] [1] [[demo_record]]"
proof -
  have "Cat_GetTableName (db_catalog (table_db f c)) 7 = Inr ''users''"
    by (simp add: table_db_def Cat_GetTableName_def Cat_AddTable_def demo_entry_def TE_AddColumn_def TableEntry_new_def Catalog_new_def)
  then show ?thesis using assms by (simp add: open_table_def) (simp add: users_item_def)
qed

lemma table_db_log: "lb_capacity (lm_buffer (db_log (table_db f c))) = 8192"
  by (simp add: table_db_def demo_db_def LogManager_new_def LogBuffer_new_def)

lemma demo_update_fields:
  "xu_table demo_update = 7" "xu_schema demo_update = []" "xu_filter demo_update = None" "\<not> xu_done demo_update" "xu_count demo_update = 0"
  by (simp_all add: demo_update_def)

lemma demo_new_values:
  "new_values (TE_GetSchema demo_entry) (xu_sets demo_update) demo_record vs \<longleftrightarrow> vs = [Value_of (VInt 8), Value_null]"
  using demo_record_facts(3) by (simp add: new_values_def demo_update_def apply_set_def)

lemma demo_storable: "storable (TE_GetSchema demo_entry) 4060 [Value_of (VInt 8), Value_null]" "readable (TE_GetSchema demo_entry) demo_record"
proof -
  have "map ce_type (TE_GetSchema demo_entry) = [CT_INTEGER, CT_VARCHAR]" by (simp add: demo_entry_def TE_AddColumn_def TableEntry_new_def TE_GetSchema_def)
  then show "storable (TE_GetSchema demo_entry) 4060 [Value_of (VInt 8), Value_null]"
    by (simp add: storable_def value_size_def Value_of_def Value_null_def value_bytes_def GetInt_def)
  show "readable (TE_GetSchema demo_entry) demo_record" using demo_record_facts(3) by (simp add: readable_def)
qed


text \<open>A second transaction that began before the first one updates the row.\<close>

abbreviation (input) other_reader :: ExecutorContext where "other_reader \<equiv> \<lparr>ctx_txn = Some 2, ctx_undo = True, ctx_tm = True, ctx_log = True\<rparr>"

definition two_db :: "frame_id \<Rightarrow> BufferManager \<Rightarrow> DB" where
  "two_db f c = (table_db f c)\<lparr>db_txn := take_view 2 demo_writers\<rparr>"

lemma two_db_facts:
  "tm_run 1 (snd (begin_register TransactionManager_new)) (db_txn (two_db f c))" "1 \<in> set (tm_active (db_txn (two_db f c)))"
  "tx_read_view (txn_of (db_txn (two_db f c)) 1) = Some (CreateReadView 1 (snd (begin_register TransactionManager_new)))"
  "has_view other_reader (two_db f c)" "\<not> sees_trx other_reader (two_db f c) 1"
proof -
  have a: "2 \<in> set (tm_active demo_writers)" "tm_next (take_view 2 demo_writers) = tm_next demo_writers"
    by (simp_all add: demo_writers_def begin_register_def GetNextTxId_def TransactionManager_new_def take_view_def)
  from run_step [OF demo_writers_run takes_view [OF a(1)]] a(2) show "tm_run 1 (snd (begin_register TransactionManager_new)) (db_txn (two_db f c))" by (simp add: two_db_def)
  show "1 \<in> set (tm_active (db_txn (two_db f c)))" "tx_read_view (txn_of (db_txn (two_db f c)) 1) = Some (CreateReadView 1 (snd (begin_register TransactionManager_new)))"
    "has_view other_reader (two_db f c)" "\<not> sees_trx other_reader (two_db f c) 1"
    by (simp_all add: two_db_def has_view_def sees_trx_def ctx_transaction_def IsVisible_def CreateReadView_def TM_IsAborted_def TM_IsCommitted_def TM_GetState_def
        demo_writers_def begin_register_def GetNextTxId_def TransactionManager_new_def take_view_def txn_of_def update_txn_def)
qed


end
