(* ===== verification/Insert_Rows.thy ===== *)
theory Insert_Rows
  imports Update_Rows Executors
begin

text \<open>
  INSERT with VALUES as a whole (\<^verbatim>\<open>executor/executor_insert.cpp\<close>, \<^verbatim>\<open>executor/executor_values.cpp\<close>): the executor is opened on the last page of the table, the row of VALUES is appended,
  on a new page where the last one is full, and closing gives the page back.  Shown: what the statement leaves in the table, the catalog page, the log and the write set, and what a
  scan returns afterwards.
\<close>

section \<open>The steps of INSERT\<close>

text \<open>INSERT appends as UPDATE appends a new version; only the write set is extended before the page is released.\<close>

lemma release_txn: "release_page f d = (Inr (), e) \<Longrightarrow> release_page f (d\<lparr>db_txn := x\<rparr>) = (Inr (), e\<lparr>db_txn := x\<rparr>)"
  by (auto simp: release_page_def page_id_of_def in_pool_def in_store_def zoom_def comp_simps split: prod.splits)

lemma release_keeps_txn: "release_page f d = (Inr (), e) \<Longrightarrow> db_txn e = db_txn d"
  by (auto simp: release_page_def page_id_of_def in_pool_def in_store_def zoom_def comp_simps split: prod.splits)

lemma in_store_catalog: "in_store m d = (r, e) \<Longrightarrow> db_catalog e = db_catalog d" "in_pool k d = (r', e) \<Longrightarrow> db_catalog e = db_catalog d"
  by (auto simp: in_pool_def in_store_def zoom_def split: prod.splits)

lemma open_last_page_catalog:
  assumes "open_last_page t it d = (Inr x, e)"
  shows "db_catalog e = db_catalog d"
proof (cases "mi_last it = 0")
  case True
  then obtain f d1 p d2 d3 d4 where s: "in_pool BM_NewPage d = (Inr f, d1)" "page_id_of f d1 = (Inr p, d2)" "in_store (MP_UpdateTableLastId t p) d2 = (Inr (), d3)"
    "on_cond (mi_first it = 0) (in_store (MP_UpdateTableFirstId t p)) d3 = (Inr (), d4)" "e = d4"
    using assms unfolding open_last_page_def by (simp add: bnd_Inr_iff thn_Inr_iff) (auto simp: ret_def)
  have "d2 = d1" using s(2) by (simp add: page_id_of_def gets_def)
  moreover have "db_catalog d4 = db_catalog d3" using s(4) in_store_catalog(1) by (auto simp: on_cond_def ret_def split: if_splits)
  ultimately show ?thesis using in_store_catalog s(1,3,5) by metis
next
  case False
  then obtain f where "in_pool (BM_FetchPage (mi_last it)) d = (Inr f, e)" using assms unfolding open_last_page_def by (simp add: bnd_Inr_iff) (auto simp: ret_def)
  then show ?thesis by (rule in_store_catalog(2))
qed

lemma places_pages: "rid \<in> set (places ps rss) \<Longrightarrow> rid_page rid \<in> set ps"
  by (induction ps rss rule: places.induct) auto

lemma insert_by_version:
  assumes v: "InsertNewVersion ctx t tup d = (Inr rid, e)" and it: "mp_item t (db_store d) = Some it" "mi_id it = t" and rid: "rid_page rid \<noteq> 0"
    and j: "ctx_txn ctx = Some j" and xi: "xi_table xi = t"
  obtains tp d1 tp' d2 where "XI_open_page xi d = (Inr (xi\<lparr>xi_page := Some tp\<rparr>), d1)" "db_catalog d1 = db_catalog d" "insert_tuple ctx t tup tp d1 = (Inr tp', d2)"
    "release_page (tp_frame tp') d2 = (Inr (), e\<lparr>db_txn := push_write j (WriteRecord_new rid W_INSERT t) (db_txn e)\<rparr>)"
proof -
  have item: "in_store (item_at t) d = (Inr it, d)" using it(1) by (simp add: item_at_def in_store_def comp_simps)
  obtain f rd d0 tp d1 tp1 d11 tp2 r d12 tp3 d13 where s: "open_last_page t it d = (Inr (f, rd), d0)" "in_store (TablePage_new t f rd) d0 = (Inr tp, d1)"
    "page_with_space t tup tp d1 = (Inr tp1, d11)" "in_store (TP_InsertTuple tup tp1) d11 = (Inr (tp2, r), d12)"
    "log_insert ctx t (case r of Some rid \<Rightarrow> rid | None \<Rightarrow> \<lparr>rid_page = 0, rid_row = 0\<rparr>) tup tp2 d12 = (Inr tp3, d13)" "release_page (tp_frame tp3) d13 = (Inr (), e)"
    "rid = (case r of Some rid \<Rightarrow> rid | None \<Rightarrow> \<lparr>rid_page = 0, rid_row = 0\<rparr>)"
    using v item by (auto simp: InsertNewVersion_def bnd_Inr_iff thn_Inr_iff Let_def ret_def split: prod.splits)
  have r: "r = Some rid" using rid s(7) by (cases r) simp_all
  have li: "log_insert ctx t rid tup tp2 d12 = (Inr tp3, d13)" using s(5) r by simp
  let ?w = "push_write j (WriteRecord_new rid W_INSERT t) (db_txn d13)"
  have "insert_tuple ctx t tup tp d1 = (Inr tp3, d13\<lparr>db_txn := ?w\<rparr>)"
    using s(3,4) r li by (simp add: insert_tuple_def comp_simps record_write_run [OF j])
  moreover have "db_catalog d1 = db_catalog d" using open_last_page_catalog [OF s(1)] s(2) by (auto simp: in_store_def zoom_def split: prod.splits)
  moreover have "XI_open_page xi d = (Inr (xi\<lparr>xi_page := Some tp\<rparr>), d1)" using it(1,2) xi s(1,2) by (simp add: XI_open_page_def comp_simps)
  moreover have "release_page (tp_frame tp3) (d13\<lparr>db_txn := ?w\<rparr>) = (Inr (), e\<lparr>db_txn := push_write j (WriteRecord_new rid W_INSERT t) (db_txn e)\<rparr>)"
    using release_txn [OF s(6)] release_keeps_txn [OF s(6)] by simp
  ultimately show ?thesis using that by blast
qed

section \<open>The first row of a table\<close>

text \<open>A table without pages gets its first one; the catalog page names it as the first and the last page.\<close>

lemma first_page_run:
  assumes ok: "pool_ok (db_bm d)" and n: "length (bm_free (db_bm d)) = n" "1 \<le> n" and m: "meta_rep (db_store d) (xs @ it # ys)" and it: "mi_id it = t" "mi_last it = 0" "mi_first it = 0"
    and addr: "addressable (bm_next_id (db_bm d))"
  defines "new \<equiv> bm_next_id (db_bm d)"
  obtains tp a b where "open_last_page t it d = (Inr (tp_frame tp, False), d\<lparr>db_store := a\<rparr>)" "TablePage_new t (tp_frame tp) False a = (Inr tp, b)"
    "table_ok tp b (xs @ it\<lparr>mi_last := new, mi_first := new\<rparr> # ys) []" "tp_page_id tp = new" "tp_next tp = 0" "tp_table tp = t" "unat (tp_free tp) = 4064" "new \<noteq> 0"
    "pinned n new (tp_frame tp) (st_bm b)" "pool_ok (st_bm b)" "bm_next_id (st_bm b) = new + 1"
    "\<And>q y. q \<notin> {0, new} \<Longrightarrow> page_content (db_bm d) q = Some y \<Longrightarrow> page_content (st_bm b) q = Some y" "\<And>q. q \<notin> {0, new} \<Longrightarrow> backed (db_bm d) q \<Longrightarrow> backed (st_bm b) q"
proof -
  let ?it1 = "it\<lparr>mi_last := new\<rparr>" and ?it2 = "it\<lparr>mi_last := new, mi_first := new\<rparr>"
  have free: "bm_free (db_bm d) \<noteq> []" using n by auto
  obtain g c where c: "BM_NewPage (db_bm d) = (Inr g, c)" "held new g c" "pool_ok c" "bm_next_id c = new + 1"
    "\<forall>q y. page_content (db_bm d) q = Some y \<longrightarrow> page_content c q = Some y" "\<forall>q. q \<noteq> new \<longrightarrow> backed (db_bm d) q \<longrightarrow> backed c q"
    "\<forall>q h. bm_pages (db_bm d) q = Some h \<longrightarrow> q \<noteq> new \<and> bm_pages c q = Some h \<and> pin_count (bm_lru c) h = pin_count (bm_lru (db_bm d)) h"
    "pin_count (bm_lru c) g = 1" "Suc (length (bm_free c)) = length (bm_free (db_bm d))" unfolding new_def by (rule new_pinned [OF ok free addr])
  let ?d1 = "with_bm c d" and ?s1 = "db_store (with_bm c d)"
  have "bm_pages (db_bm d) 0 \<noteq> None" using m by (simp add: meta_rep_def store_ok_def held_def)
  then have n0: "new \<noteq> 0" using c(7) by fastforce
  have m1: "meta_rep ?s1 (xs @ it # ys)" by (simp, rule meta_rep_pool [OF m pool_okD(1) [OF c(3)], of "{}"]) (use c(5,7) in \<open>simp_all add: stays_def\<close>)
  obtain u where u: "MP_UpdateTableLastId (mi_id it) new ?s1 = (Inr (), u)" "meta_rep u (xs @ ?it1 # ys)" "meta_only ?s1 u" by (rule UpdateTableLastId_effect [OF m1]) blast
  obtain v where v: "MP_UpdateTableFirstId (mi_id ?it1) new u = (Inr (), v)" "meta_rep v (xs @ ?it2 # ys)" "meta_only u v"
    by (rule UpdateTableFirstId_effect [OF u(2)]) simp
  have so: "store_ok ?s1" using m1 by (simp add: meta_rep_def)
  have mo: "meta_only ?s1 v" by (rule meta_only_trans [OF u(3) v(3)])
  have "theld new g ?s1" using c(2) by simp
  then have g: "g \<noteq> mp_frame (st_meta ?s1)" using held_inj [of new g c 0] n0 so by (auto simp: store_ok_def)
  have hv: "theld new g v" by (rule meta_only_frame(1) [OF mo g]) (use c(2) in simp)
  have tv: "t \<in> mi_id ` set (xs @ ?it2 # ys)" using it(1) by simp
  obtain tp b where b: "TablePage_new t g False v = (Inr tp, b)" "table_ok tp b (xs @ ?it2 # ys) []" "tp_page_id tp = new" "tp_frame tp = g" "tp_table tp = t"
    "unat (tp_free tp) = PAGE_SIZE - HEADER_SIZE" "tp_next tp = 0" "tp_lsn tp = 0" "pg_dirty (frame_of g (st_bm b))" "keeps {new} v b" "tab_only g v b"
    by (rule TablePage_init_run [OF hv n0 v(2) tv])
  have k: "keeps {0, new} ?s1 b" by (rule keeps_trans [OF meta_only_keeps [OF mo so] b(10)]) simp_all
  then have ev: "evolves {0, new} c (st_bm b)" and nx: "bm_next_id (st_bm b) = new + 1" using c(3,4) by (simp_all add: keeps_def)
  note E = evolvesD [OF ev]
  have "page_id_of g ?d1 = (Inr new, ?d1)" using heldD(6) [OF c(2)] by (simp add: page_id_of_def comp_simps)
  moreover have "in_pool BM_NewPage d = (Inr g, ?d1)" using c(1) by (simp add: in_pool_def in_store_def comp_simps)
  ultimately have run: "open_last_page t it d = (Inr (tp_frame tp, False), d\<lparr>db_store := v\<rparr>)"
    using it u(1) v(1) b(4) by (simp add: open_last_page_def in_store_def comp_simps)
  have "bm_pages c new = Some g" by (rule heldD(2) [OF c(2)])
  then have "pinned n new (tp_frame tp) (st_bm b)" using E(3,4) E(5) [of new g] c(8,9) n b(4) by (simp add: pinned_def)
  moreover have "page_content (st_bm b) q = Some y" if "q \<notin> {0, new}" "page_content (db_bm d) q = Some y" for q y using that c(5) E(6) [of q] by simp
  moreover have "backed (st_bm b) q" if "q \<notin> {0, new}" "backed (db_bm d) q" for q using that c(6) E(7) [of q] by simp
  ultimately show ?thesis using that [OF run _ b(2,3,7,5) _ n0] b(1,4,6) E(1) nx by simp
qed

definition started :: "entry_id \<Rightarrow> page_id_t \<Rightarrow> MetaItem list \<Rightarrow> MetaItem list" where
  "started t q = map (\<lambda>it. if mi_id it = t then it\<lparr>mi_last := q, mi_first := q\<rparr> else it)"

lemma started_located:
  assumes "distinct (map mi_id (xs @ it # ys))"
  shows "started (mi_id it) q (xs @ it # ys) = xs @ it\<lparr>mi_last := q, mi_first := q\<rparr> # ys"
proof -
  have "started (mi_id it) q zs = zs" if "mi_id it \<notin> mi_id ` set zs" for zs
    using that unfolding started_def by (intro map_idI) (simp add: image_iff, metis)
  then show ?thesis using assms by (simp add: started_def)
qed

lemma started_ids: "mi_id ` set (started t q its) = mi_id ` set its"
proof -
  have "map mi_id (started t q its) = map mi_id its" by (simp add: started_def)
  then show ?thesis by (metis set_map)
qed

lemma started_last: "\<forall>it \<in> set (add_rows t c (started t q its)). mi_id it = t \<longrightarrow> mi_last it = q"
proof
  fix it assume "it \<in> set (add_rows t c (started t q its))"
  then show "mi_id it = t \<longrightarrow> mi_last it = q"
    unfolding add_rows_def started_def by (auto simp only: set_map image_iff) (simp_all split: if_splits)
qed

text \<open>\<open>known_table\<close>: a table as INSERT finds it, with pages or still without.\<close>

definition known_table :: "DB \<Rightarrow> string \<Rightarrow> entry_id \<Rightarrow> TableEntry \<Rightarrow> MetaItem list \<Rightarrow> page_id_t list \<Rightarrow> bytes list list \<Rightarrow> bool" where
  "known_table d t i te its ps rss \<longleftrightarrow> table_at d t i te its ps rss \<and> Cat_GetTableName (db_catalog d) i = Inr t \<and>
     (\<forall>it \<in> set its. mi_id it = i \<longrightarrow> mi_last it = (if ps = [] then 0 else last ps) \<and> (ps = [] \<longrightarrow> mi_first it = 0 \<and> mi_name it = t))"

lemma known_open: "known_table d t i te its ps rss \<Longrightarrow> ps \<noteq> [] \<Longrightarrow> open_table d t i te its ps rss" "open_table d t i te its ps rss \<Longrightarrow> known_table d t i te its ps rss"
  by (auto simp: known_table_def open_table_def)

definition grown :: "entry_id \<Rightarrow> page_id_t list \<Rightarrow> page_id_t list \<Rightarrow> MetaItem list \<Rightarrow> MetaItem list" where
  "grown i ps ps' its = add_rows i 1 ((if ps = [] then started else noted) i (last ps') its)"

lemma first_version_run:
  assumes tab: "known_table d t i te its [] []" and addr: "addressable (bm_next_id (db_bm d))" and tup: "tuple_holds tup r" "length r \<le> 4060"
    and log: "ctx_log ctx" "db_log_holds d logs" "49 + length r \<le> lb_capacity (lm_buffer (db_log d))" "lm_next_lsn (db_log d) \<noteq> 0"
  defines "new \<equiv> bm_next_id (db_bm d)"
  defines "rid \<equiv> \<lparr>rid_page = new, rid_row = 1\<rparr>"
  obtains e where "InsertNewVersion ctx i tup d = (Inr rid, e)" "growing (length (bm_free (db_bm d))) [new] i e (grown i [] [new] its) [[r]]" "logged_insert ctx i rid r logs d e"
    "mp_name_tables (st_meta (db_store e)) t = Some new" "versions_move {0} {0, new} (db_bm d) (db_bm e)"
proof -
  let ?n = "length (bm_free (db_bm d))" and ?its = "add_rows i 1 (started i new its)"
  note T = tab [unfolded known_table_def table_at_def]
  have ok: "pool_ok (db_bm d)" and n: "3 \<le> ?n" and md: "meta_rep (db_store d) its" using T by simp_all
  obtain xs it ys where sp: "its = xs @ it # ys" "mi_id it = i" using T by (metis image_iff split_list)
  have it: "mp_item i (db_store d) = Some it" using mp_item_located [of "db_store d" xs it ys] md sp by simp
  have z: "mi_last it = 0" "mi_first it = 0" "mi_name it = t" using T sp by simp_all
  have m: "meta_rep (db_store d) (xs @ it # ys)" and n1: "1 \<le> ?n" using md sp(1) n by simp_all
  obtain tp a b where b: "open_last_page i it d = (Inr (tp_frame tp, False), d\<lparr>db_store := a\<rparr>)" "TablePage_new i (tp_frame tp) False a = (Inr tp, b)"
    "table_ok tp b (xs @ it\<lparr>mi_last := new, mi_first := new\<rparr> # ys) []" "tp_page_id tp = new" "tp_next tp = 0" "tp_table tp = i" "unat (tp_free tp) = 4064" "new \<noteq> 0"
    "pinned ?n new (tp_frame tp) (st_bm b)" "pool_ok (st_bm b)" "bm_next_id (st_bm b) = new + 1"
    "\<And>q y. q \<notin> {0, new} \<Longrightarrow> page_content (db_bm d) q = Some y \<Longrightarrow> page_content (st_bm b) q = Some y" "\<And>q. q \<notin> {0, new} \<Longrightarrow> backed (db_bm d) q \<Longrightarrow> backed (st_bm b) q"
    unfolding new_def by (rule first_page_run [OF ok refl n1 m sp(2) z(1,2) addr]) blast
  have "distinct (map mi_id its)" using md by (simp add: meta_rep_def tables_of_def)
  then have its: "xs @ it\<lparr>mi_last := new, mi_first := new\<rparr> # ys = started i new its" using started_located [of xs it ys new] sp by simp
  let ?d = "d\<lparr>db_store := b\<rparr>"
  have tok: "table_ok tp (db_store ?d) (started i new its) []" and lg: "db_log_holds ?d logs" and lim: "49 + length r \<le> lb_capacity (lm_buffer (db_log ?d))" "lm_next_lsn (db_log ?d) \<noteq> 0"
    and pin: "pinned ?n (tp_page_id tp) (tp_frame tp) (db_bm ?d)" "pool_ok (db_bm ?d)" and room: "length r + SLOT_SIZE \<le> unat (tp_free tp)"
    using b(3,4,7,9,10) log(2-4) tup(2) its by (simp_all add: db_log_holds_def)
  obtain e y tp' where e: "write_version ctx i tup tp ?d = (Inr \<lparr>rid_page = tp_page_id tp, rid_row = word_of_nat (Suc (length ([] :: bytes list)))\<rparr>, e)" "length (bm_free (db_bm e)) = ?n" "pool_ok (db_bm e)"
    "meta_rep (db_store e) ?its" "page_content (db_bm e) (tp_page_id tp) = Some y" "page_layout tp' ([] @ [r]) y" "tp_next tp' = tp_next tp" "tp_page_id tp' = tp_page_id tp"
    "backed (db_bm e) (tp_page_id tp)" "\<forall>q y. q \<notin> {0, tp_page_id tp} \<longrightarrow> page_content (db_bm ?d) q = Some y \<longrightarrow> page_content (db_bm e) q = Some y"
    "\<forall>q. q \<notin> {0, tp_page_id tp} \<longrightarrow> backed (db_bm ?d) q \<longrightarrow> backed (db_bm e) q" "bm_next_id (db_bm e) = bm_next_id (db_bm ?d)"
    "db_txn e = db_txn ?d" "db_catalog e = db_catalog ?d" "db_undo_page e = db_undo_page ?d"
    "db_log_holds e (logs @ [data_record (lm_next_lsn (db_log ?d)) ctx LR_INSERT_ROW i \<lparr>rid_page = tp_page_id tp, rid_row = word_of_nat (Suc (length ([] :: bytes list)))\<rparr> r])"
    "lm_next_lsn (db_log e) = lm_next_lsn (db_log ?d) + 1" "lb_capacity (lm_buffer (db_log e)) = lb_capacity (lm_buffer (db_log ?d))"
    by (rule write_version_run [OF tok b(6) pin tup(1) room log(1) lg lim])
  note e = e [unfolded b(4,5)]
  have "TP_HasSpaceFor (t_size tup) tp" using tup room by (simp add: TP_HasSpaceFor_def tuple_holds_def)
  moreover have "in_store (item_at i) d = (Inr it, d)" using it by (simp add: item_at_def in_store_def comp_simps)
  ultimately have run: "InsertNewVersion ctx i tup d = (Inr rid, e)"
    using b(1,2) e(1) by (simp add: InsertNewVersion_by_page page_with_space_def in_store_def comp_simps rid_def)
  have fresh: "page_content (db_bm d) new = None" using pool_ok_fresh(2) [OF ok, of new] by (simp add: new_def)
  have kept: "page_content (db_bm d) q = Some z \<Longrightarrow> page_content (db_bm e) q = Some z" "backed (db_bm d) q \<Longrightarrow> backed (db_bm e) q" if "q \<notin> {0, new}" for q z
    using b(12) [OF that, of z] b(13) [OF that] e(10,11) that by auto
  have chn: "chain (db_bm e) [new] [[r]]" using b(8) addr e(5-7,9) by (auto simp: new_def)
  have nm: "named (db_bm e) new" using e(5,6,8) unfolding named_def by (intro exI [of _ y] exI [of _ tp'] exI [of _ "[r]"]) simp
  have "i \<in> mi_id ` set ?its" using T started_ids by simp
  then have "stored_table ?n [new] i e ?its [[r]]" using e(2-4) chn nm by (simp add: stored_table_def del: chain.simps)
  then have gr: "growing ?n [new] i e (grown i [] [new] its) [[r]]" using started_last [of i 1 new its] by (simp add: growing_def grown_def)
  have lgd: "logged_insert ctx i rid r logs d e" using e(13-18) by (simp add: logged_insert_def rid_def)
  have name: "mp_name_tables (st_meta (db_store e)) t = Some new"
  proof -
    have "add_rows i 1 (started i new its) = xs @ it\<lparr>mi_last := new, mi_first := new, mi_rows := rows_after (mi_rows it) 1\<rparr> # ys"
      unfolding its [symmetric] using add_rows_located [of xs "it\<lparr>mi_last := new, mi_first := new\<rparr>" ys 1] \<open>distinct (map mi_id its)\<close> sp by simp
    then show ?thesis using tables_first(1) [of "db_store e" xs _ ys] e(4) z(3) by fastforce
  qed
  have "up_page q \<notin> {0, new} \<and> version_at (db_bm e) q x" if "up_page q \<notin> {0}" "version_at (db_bm d) q x" for q x
  proof -
    have "page_content (db_bm d) (up_page q) \<noteq> None" using that(2) by (auto simp: version_at_def record_at_def)
    then have out: "up_page q \<notin> {0, new}" using that(1) fresh by auto
    then show ?thesis using that(2) kept [OF out] by (auto simp: version_at_def record_at_def)
  qed
  then have "versions_move {0} {0, new} (db_bm d) (db_bm e)" by (simp add: versions_move_def)
  then show ?thesis using that [OF run gr lgd name] by blast
qed

text \<open>Both cases together.\<close>

lemma known_version_run:
  assumes tab: "known_table d t i te its ps rss" and addr: "addressable (bm_next_id (db_bm d))" and tup: "tuple_holds tup r" "length r \<le> 4060"
    and log: "ctx_log ctx" "db_log_holds d logs" "49 + length r \<le> lb_capacity (lm_buffer (db_log d))" "lm_next_lsn (db_log d) \<noteq> 0"
  obtains e rid ps' rss' where "InsertNewVersion ctx i tup d = (Inr rid, e)" "growing (length (bm_free (db_bm d))) ps' i e (grown i ps ps' its) rss'" "logged_insert ctx i rid r logs d e"
    "concat rss' = concat rss @ [r]" "places ps' rss' = places ps rss @ [rid]" "length ps' \<le> Suc (length ps)" "mp_name_tables (st_meta (db_store e)) t = Some (first_id ps')"
    "versions_move (insert 0 (set ps)) (insert 0 (set ps')) (db_bm d) (db_bm e)"
proof (cases "ps = []")
  case True
  then have rss: "rss = []" using tab chain_length [of "db_bm d" ps rss] by (auto simp: known_table_def table_at_def)
  let ?new = "bm_next_id (db_bm d)"
  obtain e where "InsertNewVersion ctx i tup d = (Inr \<lparr>rid_page = ?new, rid_row = 1\<rparr>, e)" "growing (length (bm_free (db_bm d))) [?new] i e (grown i [] [?new] its) [[r]]"
    "logged_insert ctx i \<lparr>rid_page = ?new, rid_row = 1\<rparr> r logs d e" "mp_name_tables (st_meta (db_store e)) t = Some ?new" "versions_move {0} {0, ?new} (db_bm d) (db_bm e)"
    by (rule first_version_run [OF tab [unfolded True rss] addr tup log])
  then show ?thesis using that True rss by simp
next
  case False
  have op: "open_table d t i te its ps rss" by (rule known_open(1) [OF tab False])
  note T = op [unfolded open_table_def table_at_def]
  have g: "growing (length (bm_free (db_bm d))) ps i d its rss" and n: "3 \<le> length (bm_free (db_bm d))" using T by (simp_all add: growing_def stored_table_def)
  obtain e rid ps' rss' where e: "InsertNewVersion ctx i tup d = (Inr rid, e)" "appended (length (bm_free (db_bm d))) i its ps rss rid r ps' rss' d e" "logged_insert ctx i rid r logs d e"
    by (rule insert_version_run [OF g n addr tup log])
  note A = e(2) [unfolded appended_def]
  have g': "growing (length (bm_free (db_bm d))) ps' i e (grown i ps ps' its) rss'" using A False by (simp add: grown_def)
  obtain zs where zs: "ps' = ps @ zs" "length zs \<le> 1" using A by blast
  have "map (\<lambda>it. (mi_name it, mi_first it)) (grown i ps ps' its) = map (\<lambda>it. (mi_name it, mi_first it)) its" using False by (simp add: grown_def add_rows_def noted_def)
  then have "mp_name_tables (st_meta (db_store e)) = mp_name_tables (st_meta (db_store d))" using T g' by (simp add: growing_def stored_table_def meta_rep_def tables_of_def)
  moreover have "first_id ps' = first_id ps" using zs(1) False by (cases ps) auto
  ultimately have "mp_name_tables (st_meta (db_store e)) t = Some (first_id ps')" using T by simp
  moreover have "versions_move (insert 0 (set ps)) (insert 0 (set ps')) (db_bm d) (db_bm e)" using appended_versions [OF e(2)] by (simp add: versions_move_def)
  moreover have "concat rss' = concat rss @ [r]" "places ps' rss' = places ps rss @ [rid]" using A by blast+
  ultimately show ?thesis using that [OF e(1) g' e(3)] zs by simp
qed

section \<open>The statement\<close>

definition values_plan :: "entry_id \<Rightarrow> entry_id list \<Rightarrow> Value list \<Rightarrow> PhysicalOperator" where
  "values_plan i ids vs = PhysicalInsert i ids (PhysicalValues ids vs i)"

text \<open>The tree of executors runs the steps one after the other.\<close>

lemma execute_insert_run:
  assumes cat: "Cat_table (db_catalog d) i = Inr te" and vals: "full_values ids vs (TE_GetColumnIds te) = Inr ws"
    and ser: "Row_Serialize (TE_GetSchema te) \<lparr>rh_trx_id = cur_txn ctx, rh_roll_ptr = null_ptr, rh_flags = 0\<rparr> ws = Inr (r, length r)" and fuel: "2 \<le> fuel"
    and enter: "XI_open_page xi d = (Inr (xi\<lparr>xi_page := Some tp\<rparr>), d1)" "db_catalog d1 = db_catalog d" "xi = \<lparr>xi_table = i, xi_column_ids = ids, xi_page = None\<rparr>"
    and ins: "insert_tuple ctx i (Tuple_new\<lparr>t_data := Some r, t_size := word_of_nat (length r), t_schema := TE_GetSchema te\<rparr>) tp d1 = (Inr tp', d2)"
    and close: "release_page (tp_frame tp') d2 = (Inr (), e)"
  shows "\<exists>x. BuildExecutor (db_catalog d) (values_plan i ids vs) = Inr x \<and> ExecuteInsert D fuel ctx x d = (Inr (), e)"
proof -
  let ?xv = "\<lparr>xv_table = i, xv_column_ids = ids, xv_values = vs, xv_row = None, xv_used = False\<rparr>"
  let ?xv1 = "?xv\<lparr>xv_row := Some (TE_GetSchema te, ws), xv_used := False\<rparr>" and ?xi1 = "xi\<lparr>xi_page := Some tp\<rparr>"
  have c: "cat_tables (db_catalog d) i = Some (Some te)" using cat by (simp add: Cat_table_def split: option.splits)
  have build: "BuildExecutor (db_catalog d) (values_plan i ids vs) = Inr (XInsert xi (XValues ?xv))" using c enter(3) by (simp add: values_plan_def)
  have o: "X_Open fuel (XInsert xi (XValues ?xv)) d = (Inr (XInsert ?xi1 (XValues ?xv1)), d1)"
    using enter(1,2) c vals by (simp add: XV_Open_def comp_simps)
  obtain k where k: "fuel = Suc (Suc k)" using fuel that [of "fuel - 2"] by simp
  have n: "X_Next D fuel ctx fuel (XInsert ?xi1 (XValues ?xv1)) Tuple_new d1 =
      (Inr (XInsert (xi\<lparr>xi_page := Some tp'\<rparr>) (XValues (?xv1\<lparr>xv_used := True\<rparr>)), Tuple_new\<lparr>t_data := Some r, t_size := word_of_nat (length r), t_schema := TE_GetSchema te\<rparr>, True), d2)"
    unfolding k using ser ins enter(3) by (simp add: XV_Next_def comp_simps)
  have cl: "X_Close (XInsert (xi\<lparr>xi_page := Some tp'\<rparr>) (XValues (?xv1\<lparr>xv_used := True\<rparr>))) d2 =
      (Inr (XInsert (xi\<lparr>xi_page := None\<rparr>) (XValues (XV_Close (?xv1\<lparr>xv_used := True\<rparr>)))), e)"
    using close by (simp add: XI_release_def comp_simps)
  show ?thesis using build o n cl by (simp add: ExecuteInsert_def comp_simps)
qed

lemma insert_values_run:
  assumes tab: "known_table d t i te its ps rss" and w: "writable ctx (insert 0 (set ps)) d logs 1 1" and j: "ctx_txn ctx = Some j"
    and vals: "full_values ids vs (TE_GetColumnIds te) = Inr ws" and st: "storable (TE_GetSchema te) N ws" "N \<le> 4060" "49 + N \<le> lb_capacity (lm_buffer (db_log d))" and fuel: "2 \<le> fuel"
  defines "r \<equiv> new_record (TE_GetSchema te) ctx null_ptr ws"
  obtains x e ps' rss' rid l where "BuildExecutor (db_catalog d) (values_plan i ids vs) = Inr x" "ExecuteInsert D fuel ctx x d = (Inr (), e)"
    "open_table e t i te (grown i ps ps' its) ps' rss'" "concat rss' = concat rss @ [r]" "places ps' rss' = places ps rss @ [rid]" "length ps' \<le> Suc (length ps)"
    "db_log_holds e (logs @ [data_record l ctx LR_INSERT_ROW i rid r])" "db_txn e = push_write j (WriteRecord_new rid W_INSERT i) (db_txn d)"
    "versions_move (insert 0 (set ps)) (insert 0 (set ps')) (db_bm d) (db_bm e)" "length (bm_free (db_bm e)) = length (bm_free (db_bm d))"
proof -
  let ?n = "length (bm_free (db_bm d))" and ?tup = "Tuple_new\<lparr>t_data := Some r, t_size := word_of_nat (length r), t_schema := TE_GetSchema te\<rparr>"
  let ?xi = "\<lparr>xi_table = i, xi_column_ids = ids, xi_page = None\<rparr>"
  note T = tab [unfolded known_table_def table_at_def] and sr = storable_record [OF st(1), of ctx null_ptr, folded r_def]
  have th: "tuple_holds ?tup r" "length r \<le> 4060" using sr(2) st(2) by (simp_all add: tuple_holds_def unat_u16_small)
  have lg: "ctx_log ctx" "db_log_holds d logs" "49 + length r \<le> lb_capacity (lm_buffer (db_log d))" "lm_next_lsn (db_log d) \<noteq> 0"
    using w st(3) sr(2) by (auto simp: writable_def)
  have addr: "addressable (bm_next_id (db_bm d))" using w by (simp add: writable_def addressable_def)
  obtain e rid ps' rss' where e: "InsertNewVersion ctx i ?tup d = (Inr rid, e)" "growing ?n ps' i e (grown i ps ps' its) rss'" "logged_insert ctx i rid r logs d e"
    "concat rss' = concat rss @ [r]" "places ps' rss' = places ps rss @ [rid]" "length ps' \<le> Suc (length ps)" "mp_name_tables (st_meta (db_store e)) t = Some (first_id ps')"
    "versions_move (insert 0 (set ps)) (insert 0 (set ps')) (db_bm d) (db_bm e)" by (rule known_version_run [OF tab addr th lg])
  note L = e(3) [unfolded logged_insert_def] and g' = e(2) [unfolded growing_def stored_table_def]
  have ch: "chain (db_bm e) ps' rss'" using g' by simp
  have "rid \<in> set (places ps' rss')" using e(5) by simp
  then have rid: "rid_page rid \<noteq> 0" using places_pages chain_pages [OF ch] by blast
  obtain xs it ys where sp: "its = xs @ it # ys" "mi_id it = i" using T by (metis image_iff split_list)
  have it: "mp_item i (db_store d) = Some it" using mp_item_located [of "db_store d" xs it ys] T sp by simp
  have xt: "xi_table ?xi = i" by simp
  let ?e = "e\<lparr>db_txn := push_write j (WriteRecord_new rid W_INSERT i) (db_txn e)\<rparr>"
  obtain tp d1 tp' d2 where s: "XI_open_page ?xi d = (Inr (?xi\<lparr>xi_page := Some tp\<rparr>), d1)" "db_catalog d1 = db_catalog d" "insert_tuple ctx i ?tup tp d1 = (Inr tp', d2)"
    "release_page (tp_frame tp') d2 = (Inr (), ?e)" by (rule insert_by_version [OF e(1) it sp(2) rid j xt])
  have cat: "Cat_table (db_catalog d) i = Inr te" using T by simp
  obtain x where x: "BuildExecutor (db_catalog d) (values_plan i ids vs) = Inr x" "ExecuteInsert D fuel ctx x d = (Inr (), ?e)"
    using execute_insert_run [OF cat vals sr(1) fuel s(1,2) refl s(3,4)] by blast
  have "open_table ?e t i te (grown i ps ps' its) ps' rss'"
    using T g' L e(7) unfolding open_table_def table_at_def by simp
  moreover have "db_log_holds ?e (logs @ [data_record (lm_next_lsn (db_log d)) ctx LR_INSERT_ROW i rid r])" using L by (simp add: db_log_holds_def)
  moreover have "length (bm_free (db_bm ?e)) = ?n" using g' by simp
  moreover have "db_txn ?e = push_write j (WriteRecord_new rid W_INSERT i) (db_txn d)" using L by simp
  moreover have "versions_move (insert 0 (set ps)) (insert 0 (set ps')) (db_bm d) (db_bm ?e)" using e(8) by simp
  ultimately show ?thesis using that [OF x] e(4-6) by blast
qed

text \<open>C3.
  INSERT with VALUES appends exactly one row.  For a known table, with pages or still without, values that serialize and a transaction with logging: the factory builds the executors of the plan and running
  them returns; the records of the table are the old ones, at their places, followed by the record of the full list of values (missing columns null) with the transaction as its
  writer, on the first page of the table or a new one linked behind the last where that is full; the catalog page counts one row more and names the pages, the log gains one record with the place and the bytes of the row
  and the write set the entry a rollback needs; all versions stay readable and all frames are free again.
\<close>

theorem insert_values_appends:
  assumes "known_table d t i te its ps rss" "writable ctx (insert 0 (set ps)) d logs 1 1" "ctx_txn ctx = Some j"
    and "full_values ids vs (TE_GetColumnIds te) = Inr ws" "storable (TE_GetSchema te) N ws" "N \<le> 4060" "49 + N \<le> lb_capacity (lm_buffer (db_log d))" "2 \<le> fuel"
  shows "let r = new_record (TE_GetSchema te) ctx null_ptr ws in
    \<exists>x e ps' rss' rid l. BuildExecutor (db_catalog d) (values_plan i ids vs) = Inr x \<and> ExecuteInsert D fuel ctx x d = (Inr (), e) \<and>
      open_table e t i te (grown i ps ps' its) ps' rss' \<and> concat rss' = concat rss @ [r] \<and> places ps' rss' = places ps rss @ [rid] \<and>
      db_log_holds e (logs @ [data_record l ctx LR_INSERT_ROW i rid r]) \<and>
      tx_write_set (txn_of (db_txn e) j) = tx_write_set (txn_of (db_txn d) j) @ [WriteRecord_new rid W_INSERT i] \<and>
      versions_move (insert 0 (set ps)) (insert 0 (set ps')) (db_bm d) (db_bm e) \<and> length (bm_free (db_bm e)) = length (bm_free (db_bm d))"
proof -
  obtain x e ps' rss' rid l where R: "BuildExecutor (db_catalog d) (values_plan i ids vs) = Inr x" "ExecuteInsert D fuel ctx x d = (Inr (), e)"
    "open_table e t i te (grown i ps ps' its) ps' rss'" "concat rss' = concat rss @ [new_record (TE_GetSchema te) ctx null_ptr ws]" "places ps' rss' = places ps rss @ [rid]"
    "length ps' \<le> Suc (length ps)" "db_log_holds e (logs @ [data_record l ctx LR_INSERT_ROW i rid (new_record (TE_GetSchema te) ctx null_ptr ws)])"
    "db_txn e = push_write j (WriteRecord_new rid W_INSERT i) (db_txn d)"
    "versions_move (insert 0 (set ps)) (insert 0 (set ps')) (db_bm d) (db_bm e)" "length (bm_free (db_bm e)) = length (bm_free (db_bm d))"
    by (rule insert_values_run [OF assms])
  have ws: "tx_write_set (txn_of (db_txn e) j) = tx_write_set (txn_of (db_txn d) j) @ [WriteRecord_new rid W_INSERT i]" unfolding R(8) by (rule push_write_set)
  show ?thesis unfolding Let_def
    by (rule exI [of _ x], rule exI [of _ e], rule exI [of _ ps'], rule exI [of _ rss'], rule exI [of _ rid], rule exI [of _ l], intro conjI) (rule R(1-5,7,9,10) ws)+
qed

lemma new_row_seen:
  assumes "storable sch N vs" "0 < m"
  shows "row_sees rd e m (new_record sch ctx null_ptr vs) (if sees_trx rd e (cur_txn ctx) then Some (new_record sch ctx null_ptr vs) else None)"
proof -
  note s = storable_record [OF assms(1), of ctx null_ptr]
  obtain k where m: "m = Suc k" using assms(2) by (cases m) auto
  show ?thesis using s(3,4) unfolding m row_sees_def by (auto intro!: sees_here sees_end simp: UndoPointer_IsNull_def)
qed

text \<open>C4.
  After an INSERT, a scan by a reader that sees the inserting transaction returns the rows it returned before, followed by the new one; a scan by any other reader returns what it
  returned before.
\<close>

theorem insert_then_scan:
  assumes "known_table d t i te its ps rss" "writable ctx (insert 0 (set ps)) d logs 1 1" "ctx_txn ctx = Some j"
    and "full_values ids vs (TE_GetColumnIds te) = Inr ws" "storable (TE_GetSchema te) N ws" "N \<le> 4060" "49 + N \<le> lb_capacity (lm_buffer (db_log d))" "2 \<le> fuel"
    and "has_view rd d" "ctx_undo rd" "list_all2 (row_sees_outside (insert 0 (set ps)) rd d k) (concat rss) xs"
    and "k < fuel" "Suc (Suc (length rss)) < fuel" "Suc (length (concat rss)) < fuel"
  shows "\<exists>x e sq e1 ts e2. BuildExecutor (db_catalog d) (values_plan i ids vs) = Inr x \<and> ExecuteInsert D fuel ctx x d = (Inr (), e) \<and>
    SS_Open fuel (ExecutorSeqScan_new t) e = (Inr sq, e1) \<and> scan_all fuel fuel rd sq e1 = (Inr ts, e2) \<and>
    map t_data ts = filter (\<lambda>x. x \<noteq> None) (xs @ [if sees_trx rd d j then Some (new_record (TE_GetSchema te) ctx null_ptr ws) else None])"
proof -
  let ?r = "new_record (TE_GetSchema te) ctx null_ptr ws" and ?P = "insert 0 (set ps)"
  obtain x e ps' rss' rid l where R: "BuildExecutor (db_catalog d) (values_plan i ids vs) = Inr x" "ExecuteInsert D fuel ctx x d = (Inr (), e)"
    "open_table e t i te (grown i ps ps' its) ps' rss'" "concat rss' = concat rss @ [?r]" "places ps' rss' = places ps rss @ [rid]"
    "length ps' \<le> Suc (length ps)" "db_log_holds e (logs @ [data_record l ctx LR_INSERT_ROW i rid ?r])" "db_txn e = push_write j (WriteRecord_new rid W_INSERT i) (db_txn d)"
    "versions_move ?P (insert 0 (set ps')) (db_bm d) (db_bm e)" "length (bm_free (db_bm e)) = length (bm_free (db_bm d))"
    by (rule insert_values_run [OF assms(1-8)])
  have "same_views (db_txn d) (db_txn e)" unfolding R(8) by (rule same_views_push(2))
  note sv = same_views_sees [OF this]
  have vk: "versions_kept ?P (db_bm d) (db_bm e)" using R(9) by (simp add: versions_move_def versions_kept_def)
  have f: "Suc k \<le> fuel" "0 < fuel" using assms(8,12) by simp_all
  have z: "0 \<in> ?P" by simp
  have "row_sees rd e fuel r y" if "row_sees_outside ?P rd d k r y" for r y
  proof -
    have "row_outcome ctx ?P (db_bm e) False r r" by (simp add: row_outcome_def)
    from row_after [OF that this vk sv(1) z f(1)] show ?thesis by simp
  qed
  then have old: "list_all2 (row_sees rd e fuel) (concat rss) xs" by (rule list_all2_mono [OF assms(11)])
  have cur: "cur_txn ctx = j" using assms(3) by (simp add: cur_txn_def)
  have new: "row_sees rd e fuel ?r (if sees_trx rd d j then Some ?r else None)" using new_row_seen [OF assms(5) f(2), of rd e ctx] sv(1) cur by simp
  have see: "list_all2 (row_sees rd e fuel) (concat rss') (xs @ [if sees_trx rd d j then Some ?r else None])"
    unfolding R(4) by (rule list_all2_appendI [OF old]) (use new in simp)
  note T = R(3) [unfolded open_table_def table_at_def]
  have tr: "table_rows e t te rss'" using T chain_heap [of "db_bm e" ps' rss'] by (simp add: table_rows_def)
  have "length ps = length rss" "length ps' = length rss'" using assms(1) T chain_length by (auto simp: known_table_def table_at_def)
  then have l: "Suc (length rss') < fuel" "length (concat rss') < fuel" using R(4,6) assms(13,14) by simp_all
  have hv: "has_view rd e" using assms(9) sv(2) by simp
  obtain sq e1 ts e2 where S: "SS_Open fuel (ExecutorSeqScan_new t) e = (Inr sq, e1)" "scan_all fuel fuel rd sq e1 = (Inr ts, with_bm e2 e)"
    "map t_data ts = filter (\<lambda>x. x \<noteq> None) (xs @ [if sees_trx rd d j then Some ?r else None])" by (rule scan_snapshot [OF tr hv assms(10) see l])
  show ?thesis
    by (rule exI [of _ x], rule exI [of _ e], rule exI [of _ sq], rule exI [of _ e1], rule exI [of _ ts], rule exI [of _ "with_bm e2 e"], intro conjI) (rule R(1,2) S)+
qed

section \<open>A table with one row\<close>

lemma demo_full_values: "full_values [0] [Value_of (VInt 8)] (TE_GetColumnIds demo_entry) = Inr [Value_of (VInt 8), Value_null]"
  by (simp add: demo_entry_def TE_GetColumnIds_def TE_AddColumn_def TableEntry_new_def)

lemma insert_values_appends_witness:
  "\<exists>d x e ps' rss'. BuildExecutor (db_catalog d) (values_plan 7 [0] [Value_of (VInt 8)]) = Inr x \<and> ExecuteInsert demo_doubles 9 reader x d = (Inr (), e) \<and> chain (db_bm e) ps' rss' \<and>
     concat rss' = [demo_record, new_record (TE_GetSchema demo_entry) reader null_ptr [Value_of (VInt 8), Value_null]]"
proof -
  obtain f c where t: "table_at (table_db f c) ''users'' 7 demo_entry [users_item] [1] [[demo_record]]" "writable reader {0, 1} (table_db f c) [] 1 1"
    using table_db_ready by blast
  have w: "writable reader (insert 0 (set [1])) (table_db f c) [] 1 1" using t(2) by simp
  obtain x e ps' rss' where e: "BuildExecutor (db_catalog (table_db f c)) (values_plan 7 [0] [Value_of (VInt 8)]) = Inr x" "ExecuteInsert demo_doubles 9 reader x (table_db f c) = (Inr (), e)"
    "open_table e ''users'' 7 demo_entry (grown 7 [1] ps' [users_item]) ps' rss'"
    "concat rss' = concat [[demo_record]] @ [new_record (TE_GetSchema demo_entry) reader null_ptr [Value_of (VInt 8), Value_null]]"
    using insert_values_appends [OF known_open(2) [OF table_db_open [OF t(1)]] w _ demo_full_values demo_storable(1), of 1 9 demo_doubles] table_db_log [of f c] by (auto simp: Let_def)
  have "chain (db_bm e) ps' rss'" using e(3) by (simp add: open_table_def table_at_def)
  then show ?thesis using e(1,2,4) by (intro exI [of _ "table_db f c"] exI [of _ x] exI [of _ e] exI [of _ ps'] exI [of _ rss']) simp
qed

lemma insert_then_scan_witness:
  "\<exists>d x e sq e1 ts e2. BuildExecutor (db_catalog d) (values_plan 7 [0] [Value_of (VInt 8)]) = Inr x \<and> ExecuteInsert demo_doubles 9 reader x d = (Inr (), e) \<and>
     SS_Open 9 (ExecutorSeqScan_new ''users'') e = (Inr sq, e1) \<and> scan_all 9 9 reader sq e1 = (Inr ts, e2) \<and>
     map t_data ts = [Some demo_record, Some (new_record (TE_GetSchema demo_entry) reader null_ptr [Value_of (VInt 8), Value_null])]"
proof -
  obtain f c where t: "table_at (table_db f c) ''users'' 7 demo_entry [users_item] [1] [[demo_record]]" "writable reader {0, 1} (table_db f c) [] 1 1"
    using table_db_ready by blast
  let ?d = "table_db f c"
  have w: "writable reader (insert 0 (set [1])) ?d [] 1 1" using t(2) by simp
  have see: "sees_trx reader ?d 1" "sees_trx reader ?d 0" "has_view reader ?d"
    using table_db_txn(3,4) [of f c] by (simp_all add: sees_trx_def has_view_def ctx_transaction_def)
  then have r: "list_all2 (row_sees_outside (insert 0 (set [1])) reader ?d 1) (concat [[demo_record]]) [Some demo_record]"
    using demo_record_facts(1,2) by (auto simp: row_sees_outside_def intro!: sees_now)
  obtain x e sq e1 ts e2 where e: "BuildExecutor (db_catalog ?d) (values_plan 7 [0] [Value_of (VInt 8)]) = Inr x" "ExecuteInsert demo_doubles 9 reader x ?d = (Inr (), e)"
    "SS_Open 9 (ExecutorSeqScan_new ''users'') e = (Inr sq, e1)" "scan_all 9 9 reader sq e1 = (Inr ts, e2)"
    "map t_data ts = [Some demo_record, Some (new_record (TE_GetSchema demo_entry) reader null_ptr [Value_of (VInt 8), Value_null])]"
    using insert_then_scan [OF known_open(2) [OF table_db_open [OF t(1)]] w _ demo_full_values demo_storable(1) _ _ _ see(3) _ r, of 1 9 demo_doubles] table_db_log [of f c] see(1) by auto
  show ?thesis
    by (rule exI [of _ ?d], rule exI [of _ x], rule exI [of _ e], rule exI [of _ sq], rule exI [of _ e1], rule exI [of _ ts], rule exI [of _ e2], intro conjI) (rule e)+
qed

end
