(* ===== verification/Rollback_Updates.thy ===== *)
theory Rollback_Updates
  imports Update_Rows
begin

text \<open>
  What a rollback does after an UPDATE (\<^verbatim>\<open>RollbackWrites\<close>, \<^verbatim>\<open>Abort\<close> in \<^verbatim>\<open>transaction/transaction_manager.cpp\<close>).  From the end of the write set, every new version is marked dead and
  every old one gets its header back.  Shown: the table holds the records it held before, byte for byte and at their places, followed by dead records only.
\<close>

section \<open>Taking back the update of one row\<close>

definition dead_row :: "bytes \<Rightarrow> bytes" where
  "dead_row r = with_header ((read_header r)\<lparr>rh_flags := rh_flags (read_header r) OR RECORD_DEAD\<rparr>) r"

lemma undo_insert_step:
  assumes st: "stored_table n ps t d its rss" and n: "1 \<le> n" and j: "j < length (concat rss)" and r: "22 \<le> length (concat rss ! j)" "rh_flags (read_header (concat rss ! j)) = 0"
  obtains b rss' where "undo_write (WriteRecord_new (places ps rss ! j) W_UPDATE_INSERT_NEW t) d = (Inr (), d\<lparr>db_store := b\<rparr>)"
    "stored_table n ps t (d\<lparr>db_store := b\<rparr>) (add_rows t (- 1) its) rss'" "concat rss' = (concat rss)[j := dead_row (concat rss ! j)]" "map length rss' = map length rss"
    "versions_kept (insert 0 (set ps)) (db_bm d) (st_bm b)"
proof -
  let ?rid = "places ps rss ! j" and ?r = "concat rss ! j"
  obtain tp c rs k where c: "BM_FetchPage (rid_page ?rid) (db_bm d) = (Inr (tp_frame tp), c)"
    "TablePage_new t (tp_frame tp) True (db_store (with_bm c d)) = (Inr tp, db_store (with_bm c d))" "tp_table tp = t"
    "table_row tp (db_store (with_bm c d)) its rs ?rid k" "rs ! k = ?r"
    "\<And>d2 its2 x. keeps {META_PAGE_ID, tp_page_id tp} (db_store (with_bm c d)) (db_store d2) \<Longrightarrow> table_ok tp (db_store d2) its2 (rs[k := x]) \<Longrightarrow>
       pg_dirty (frame_of (tp_frame tp) (db_bm d2)) \<Longrightarrow>
       \<exists>b rss'. thn (flush_page (tp_frame tp)) (release_page (tp_frame tp)) d2 = (Inr (), with_bm b d2) \<and> stored_table n ps t (with_bm b d2) its2 rss' \<and>
         concat rss' = (concat rss)[j := x] \<and> map length rss' = map length rss \<and> versions_kept (insert 0 (set ps)) (db_bm d) b"
    by (rule visit_row [OF st n j r(1)]) blast
  let ?s = "db_store (with_bm c d)"
  obtain u where u: "TP_MarkDead ?rid tp ?s = (Inr (), u)" "table_ok tp u (add_rows t (- 1) its) (rs[k := dead_row ?r])"
    "pg_dirty (frame_of (tp_frame tp) (st_bm u))" "keeps {META_PAGE_ID, tp_page_id tp} ?s u"
    by (rule MarkDead_run [OF c(4)]) (use c(3,5) r(2) in \<open>simp add: dead_row_def\<close>)
  let ?d = "d\<lparr>db_store := u\<rparr>"
  obtain b rss' where b: "thn (flush_page (tp_frame tp)) (release_page (tp_frame tp)) ?d = (Inr (), with_bm b ?d)" "stored_table n ps t (with_bm b ?d) (add_rows t (- 1) its) rss'"
    "concat rss' = (concat rss)[j := dead_row ?r]" "map length rss' = map length rss" "versions_kept (insert 0 (set ps)) (db_bm d) b"
    using c(6) [of ?d "add_rows t (- 1) its" "dead_row ?r"] u(2-4) by auto
  have "undo_write (WriteRecord_new ?rid W_UPDATE_INSERT_NEW t) d = (Inr (), with_bm b ?d)"
    using c(1,2) u(1) b(1) by (simp add: undo_write_def WriteRecord_new_def in_pool_def in_store_def comp_simps)
  then show ?thesis using that [of "u\<lparr>st_bm := b\<rparr>" rss'] b(2-5) by simp
qed

text \<open>The two entries that belong to one row, in the order in which they are undone.\<close>

definition pair_undo :: "entry_id \<Rightarrow> RID list \<Rightarrow> bytes list \<Rightarrow> nat \<times> nat \<Rightarrow> WriteRecord list" where
  "pair_undo t pl rows x = [WriteRecord_new (pl ! snd x) W_UPDATE_INSERT_NEW t, old_entry t (pl ! fst x, rows ! fst x)]"

lemma undo_old_entry: "undo_write (old_entry t (rid, r)) = undo_write (undo_entry t rid r)"
  by (simp add: undo_write_def old_entry_def undo_entry_def)

text \<open>
  \<open>half_undone\<close>: at the positions of the pairs \<open>xs\<close>, first components, the rows of \<open>final\<close> are marked deleted; at the second ones the new versions are still alive; all other
  rows are those of \<open>final\<close>.
\<close>

definition half_undone :: "ExecutorContext \<Rightarrow> (nat \<times> nat) list \<Rightarrow> bytes list \<Rightarrow> bytes list \<Rightarrow> bool" where
  "half_undone ctx xs final rows \<longleftrightarrow> length rows = length final \<and> distinct (map fst xs @ map snd xs) \<and>
     (\<forall>i < length final. i \<notin> set (map fst xs @ map snd xs) \<longrightarrow> rows ! i = final ! i) \<and>
     (\<forall>x \<in> set xs. fst x < length final \<and> 22 \<le> length (final ! fst x) \<and> rh_flags (read_header (final ! fst x)) AND RECORD_DEL = 0 \<and>
        (\<exists>ptr. rows ! fst x = deleted_row ctx ptr (final ! fst x)) \<and>
        snd x < length final \<and> 22 \<le> length (rows ! snd x) \<and> rh_flags (read_header (rows ! snd x)) = 0 \<and> final ! snd x = dead_row (rows ! snd x))"

lemma half_undone_step:
  assumes h: "half_undone ctx ((j, k) # xs) final rows"
  shows "half_undone ctx xs final (rows[k := final ! k, j := final ! j])"
proof -
  note H = h [unfolded half_undone_def]
  let ?rows = "rows[k := final ! k, j := final ! j]"
  have len: "length rows = length final" "j < length final" "k < length final" using H by auto
  have at: "?rows ! i = (if i = j \<or> i = k then final ! i else rows ! i)" if "i < length final" for i
    using that len by (auto simp: nth_list_update)
  have out: "j \<notin> set (map fst xs @ map snd xs)" "k \<notin> set (map fst xs @ map snd xs)" and di: "distinct (map fst xs @ map snd xs)" using H by auto
  have rest: "?rows ! i = final ! i" if "i < length final" "i \<notin> set (map fst xs @ map snd xs)" for i
    using at [OF that(1)] H that by auto
  have same: "?rows ! fst x = rows ! fst x" "?rows ! snd x = rows ! snd x" if "x \<in> set xs" for x
  proof -
    have "fst x < length final" "snd x < length final" using H that by auto
    moreover have "fst x \<noteq> j" "fst x \<noteq> k" "snd x \<noteq> j" "snd x \<noteq> k" using that out by force+
    ultimately show "?rows ! fst x = rows ! fst x" "?rows ! snd x = rows ! snd x" using at by simp_all
  qed
  show ?thesis unfolding half_undone_def using len(1) di rest same H by simp
qed

lemma add_rows_pair:
  assumes "\<forall>it \<in> set its. mi_id it = t \<longrightarrow> 0 < mi_rows it"
  shows "add_rows t 1 (add_rows t (- 1) its) = its"
  using add_rows_back [of its t 1] assms by (simp add: word_less_nat_alt Suc_le_eq)

lemma undo_pair_step:
  assumes st: "stored_table n ps t d its rss" and n: "1 \<le> n" and h: "half_undone ctx (x # xs) final (concat rss)"
    and cnt: "\<forall>it \<in> set its. mi_id it = t \<longrightarrow> 0 < mi_rows it"
  obtains b rss' where "for_each (pair_undo t (places ps rss) final x) undo_write d = (Inr (), d\<lparr>db_store := b\<rparr>)"
    "stored_table n ps t (d\<lparr>db_store := b\<rparr>) its rss'" "half_undone ctx xs final (concat rss')" "map length rss' = map length rss"
    "versions_kept (insert 0 (set ps)) (db_bm d) (st_bm b)"
proof -
  note H = h [unfolded half_undone_def]
  obtain j k where x: "x = (j, k)" by (cases x)
  obtain ptr where j: "j < length (concat rss)" "22 \<le> length (final ! j)" "rh_flags (read_header (final ! j)) AND RECORD_DEL = 0" "concat rss ! j = deleted_row ctx ptr (final ! j)"
    and k: "k < length (concat rss)" "22 \<le> length (concat rss ! k)" "rh_flags (read_header (concat rss ! k)) = 0" "final ! k = dead_row (concat rss ! k)" "j \<noteq> k"
    using H x by auto
  obtain b1 rss1 where b1: "undo_write (WriteRecord_new (places ps rss ! k) W_UPDATE_INSERT_NEW t) d = (Inr (), d\<lparr>db_store := b1\<rparr>)"
    "stored_table n ps t (d\<lparr>db_store := b1\<rparr>) (add_rows t (- 1) its) rss1" "concat rss1 = (concat rss)[k := dead_row (concat rss ! k)]" "map length rss1 = map length rss"
    "versions_kept (insert 0 (set ps)) (db_bm d) (st_bm b1)" by (rule undo_insert_step [OF st n k(1-3)])
  have j1: "j < length (concat rss1)" "concat rss1 ! j = deleted_row ctx ptr (final ! j)" using j(1,4) k(5) b1(3) by simp_all
  obtain b rss2 where b: "undo_write (undo_entry t (places ps rss1 ! j) (final ! j)) (d\<lparr>db_store := b1\<rparr>) = (Inr (), d\<lparr>db_store := b1\<rparr>\<lparr>db_store := b\<rparr>)"
    "stored_table n ps t (d\<lparr>db_store := b1\<rparr>\<lparr>db_store := b\<rparr>) (add_rows t 1 (add_rows t (- 1) its)) rss2" "concat rss2 = (concat rss1)[j := final ! j]" "map length rss2 = map length rss1"
    "versions_kept (insert 0 (set ps)) (db_bm (d\<lparr>db_store := b1\<rparr>)) (st_bm b)" by (rule undo_delete_step [OF b1(2) n j1 j(2,3)])
  have rows: "concat rss2 = (concat rss)[k := final ! k, j := final ! j]" using b(3) b1(3) k(4) by simp
  have "half_undone ctx xs final (concat rss2)" unfolding rows by (rule half_undone_step [OF h [unfolded x]])
  moreover have "for_each (pair_undo t (places ps rss) final x) undo_write d = (Inr (), d\<lparr>db_store := b\<rparr>)"
    using b1(1) b(1) places_lengths [OF b1(4)] x by (simp add: pair_undo_def undo_old_entry comp_simps)
  moreover have "stored_table n ps t (d\<lparr>db_store := b\<rparr>) its rss2" using b(2) add_rows_pair [OF cnt] by simp
  moreover have "versions_kept (insert 0 (set ps)) (db_bm d) (st_bm b)" by (rule versions_kept_trans [OF b1(5)]) (use b(5) in simp)
  ultimately show ?thesis using that b(4) b1(4) by simp
qed

lemma for_each_append: "for_each (xs @ ys) f = thn (for_each xs f) (for_each ys f)"
  by (induction xs) (auto simp: fun_eq_iff thn_def bnd_def ret_def split: prod.splits sum.splits)

lemma undo_pairs:
  assumes "stored_table n ps t d its rss" "1 \<le> n" "half_undone ctx xs final (concat rss)" "xs = [] \<or> (\<forall>it \<in> set its. mi_id it = t \<longrightarrow> 0 < mi_rows it)"
  shows "\<exists>b rss'. for_each (concat (map (pair_undo t (places ps rss) final) xs)) undo_write d = (Inr (), d\<lparr>db_store := b\<rparr>) \<and>
    stored_table n ps t (d\<lparr>db_store := b\<rparr>) its rss' \<and> concat rss' = final \<and> map length rss' = map length rss \<and> versions_kept (insert 0 (set ps)) (db_bm d) (st_bm b)"
  using assms
proof (induction xs arbitrary: d rss)
  case Nil
  have "concat rss = final" using Nil.prems(3) by (intro nth_equalityI) (simp_all add: half_undone_def)
  then show ?case using Nil.prems(1) by (intro exI [of _ "db_store d"] exI [of _ rss]) (simp add: comp_simps versions_kept_def)
next
  case (Cons x xs)
  then have cnt: "\<forall>it \<in> set its. mi_id it = t \<longrightarrow> 0 < mi_rows it" by simp
  obtain b rss' where b: "for_each (pair_undo t (places ps rss) final x) undo_write d = (Inr (), d\<lparr>db_store := b\<rparr>)"
    "stored_table n ps t (d\<lparr>db_store := b\<rparr>) its rss'" "half_undone ctx xs final (concat rss')" "map length rss' = map length rss"
    "versions_kept (insert 0 (set ps)) (db_bm d) (st_bm b)" by (rule undo_pair_step [OF Cons.prems(1-3) cnt])
  obtain c rss'' where c: "for_each (concat (map (pair_undo t (places ps rss') final) xs)) undo_write (d\<lparr>db_store := b\<rparr>) = (Inr (), d\<lparr>db_store := c\<rparr>)"
    "stored_table n ps t (d\<lparr>db_store := c\<rparr>) its rss''" "concat rss'' = final" "map length rss'' = map length rss'" "versions_kept (insert 0 (set ps)) (st_bm b) (st_bm c)"
    using Cons.IH [OF b(2) Cons.prems(2) b(3)] cnt by auto
  show ?case using b(1,4,5) c places_lengths [OF b(4)] versions_kept_trans [of _ _ "st_bm b"]
    by (intro exI [of _ c] exI [of _ rss'']) (auto simp: comp_simps for_each_append)
qed

section \<open>The write set of an UPDATE\<close>

text \<open>The positions of the picked rows.\<close>

definition picked_at :: "(bytes \<Rightarrow> bool) \<Rightarrow> bytes list \<Rightarrow> nat list" where
  "picked_at pick rows = filter (\<lambda>j. pick (rows ! j)) [0..<length rows]"

lemma marked_rows_at:
  "length ptrs = length (filter pick rows) \<Longrightarrow> list_all2 (\<lambda>r r'. if pick r then \<exists>ptr. r' = deleted_row ctx ptr r else r' = r) rows (marked_rows pick ctx rows ptrs)"
proof (induction rows arbitrary: ptrs)
  case (Cons r rows)
  then show ?case by (cases "pick r"; cases ptrs) (auto simp: marked_skip)
qed (cases ptrs, simp_all)

lemma hits_at:
  assumes "length rids = length rows"
  shows "filter (\<lambda>x. pick (snd x)) (zip rids rows) = map (\<lambda>j. (rids ! j, rows ! j)) (picked_at pick rows)"
proof -
  have "zip rids rows = map (\<lambda>j. (rids ! j, rows ! j)) [0..<length rows]" using assms by (intro nth_equalityI) simp_all
  then show ?thesis by (simp add: picked_at_def filter_map comp_def)
qed

lemma picked_rows_at: "filter pick rows = map (\<lambda>j. rows ! j) (picked_at pick rows)"
proof -
  have "rows = map (\<lambda>j. rows ! j) [0..<length rows]" by (simp add: map_nth)
  then have "filter pick rows = filter pick (map (\<lambda>j. rows ! j) [0..<length rows])" by (rule arg_cong)
  then show ?thesis by (simp add: picked_at_def filter_map comp_def)
qed

text \<open>The entries of an UPDATE from their end, by the positions of the old and the new versions.\<close>

lemma update_entries_at:
  assumes len: "length rids = length js" "length new = length js" and pl: "\<forall>j \<in> set js. j < length pl" and rows: "\<forall>j \<in> set js. j < length rows"
  shows "rev (update_entries t (zip (map (\<lambda>j. (pl ! j, rows ! j)) js) (zip rids new))) =
    concat (map (pair_undo t (pl @ rids) (rows @ news)) (rev (zip js [length pl..<length pl + length js])))"
proof -
  have "map (\<lambda>x. rev [old_entry t (fst x), WriteRecord_new (fst (snd x)) W_UPDATE_INSERT_NEW t]) (zip (map (\<lambda>j. (pl ! j, rows ! j)) js) (zip rids new)) =
      map (pair_undo t (pl @ rids) (rows @ news)) (zip js [length pl..<length pl + length js])"
    using len pl rows by (intro nth_equalityI) (simp_all add: pair_undo_def nth_append)
  then show ?thesis by (simp add: update_entries_def rev_concat rev_map comp_def) (metis map_map rev_map)
qed

text \<open>The table after an UPDATE, as the rollback finds it.\<close>

lemma half_undone_start:
  assumes old: "list_all2 (\<lambda>r r'. if pick r then \<exists>ptr. r' = deleted_row ctx ptr r else r' = r) rows olds" and new: "length new = length (picked_at pick rows)"
    and rows: "\<forall>r \<in> set rows. pick r \<longrightarrow> 22 \<le> length r \<and> rh_flags (read_header r) AND RECORD_DEL = 0"
    and news: "\<forall>r \<in> set new. 22 \<le> length r \<and> rh_flags (read_header r) = 0"
  shows "half_undone ctx (rev (zip (picked_at pick rows) [length rows..<length rows + length (picked_at pick rows)])) (rows @ map dead_row new) (olds @ new)"
proof -
  let ?js = "picked_at pick rows" and ?m = "length (picked_at pick rows)" and ?L = "length rows"
  have len: "length olds = ?L" using list_all2_lengthD [OF old] by simp
  have js: "distinct ?js" "j \<in> set ?js \<longleftrightarrow> j < ?L \<and> pick (rows ! j)" for j by (auto simp: picked_at_def)
  have fs: "map fst (rev (zip ?js [?L..<?L + ?m])) = rev ?js" "map snd (rev (zip ?js [?L..<?L + ?m])) = rev [?L..<?L + ?m]"
    by (simp_all add: rev_map [symmetric])
  have at: "if pick (rows ! j) then \<exists>ptr. olds ! j = deleted_row ctx ptr (rows ! j) else olds ! j = rows ! j" if "j < ?L" for j
    using list_all2_nthD [OF old that] .
  have rest: "(olds @ new) ! i = (rows @ map dead_row new) ! i" if "i < length (rows @ map dead_row new)" "i \<notin> set (rev ?js @ rev [?L..<?L + ?m])" for i
    using that at [of i] js(2) [of i] new len by (auto simp: nth_append)
  have pairs: "fst x < ?L \<and> pick (rows ! fst x) \<and> ?L \<le> snd x \<and> snd x < ?L + ?m" if "x \<in> set (rev (zip ?js [?L..<?L + ?m]))" for x
  proof -
    have "(fst x, snd x) \<in> set (zip ?js [?L..<?L + ?m])" using that by simp
    from set_zip_leftD [OF this] set_zip_rightD [OF this] show ?thesis using js(2) [of "fst x"] by auto
  qed
  show ?thesis unfolding half_undone_def fs
  proof (intro conjI ballI)
    fix x assume "x \<in> set (rev (zip ?js [?L..<?L + ?m]))"
    note p = pairs [OF this]
    have r: "rows ! fst x \<in> set rows" "new ! (snd x - ?L) \<in> set new" using p new by auto
    show "fst x < length (rows @ map dead_row new)" "22 \<le> length ((rows @ map dead_row new) ! fst x)"
      "rh_flags (read_header ((rows @ map dead_row new) ! fst x)) AND RECORD_DEL = 0" "\<exists>ptr. (olds @ new) ! fst x = deleted_row ctx ptr ((rows @ map dead_row new) ! fst x)"
      "snd x < length (rows @ map dead_row new)" "22 \<le> length ((olds @ new) ! snd x)" "rh_flags (read_header ((olds @ new) ! snd x)) = 0"
      "(rows @ map dead_row new) ! snd x = dead_row ((olds @ new) ! snd x)"
      using p r rows news at [of "fst x"] new len by (auto simp: nth_append)
  qed (use js(1,2) rest new len in auto)
qed

section \<open>The abort\<close>

lemma turned_counts: "\<forall>it \<in> set (turned t q its). mi_id it = t \<longrightarrow> 0 < mi_rows it"
proof
  fix it assume "it \<in> set (turned t q its)"
  then obtain x where x: "x \<in> set its" "it = (if mi_id x = t then x\<lparr>mi_rows := max 1 (mi_rows x), mi_last := q\<rparr> else x)" by (auto simp only: turned_def set_map image_iff)
  have "0 < max 1 (mi_rows x)" by (auto simp: max_def word_gt_0)
  then show "mi_id it = t \<longrightarrow> 0 < mi_rows it" unfolding x(2) by simp
qed

lemma new_rows_alive:
  assumes "list_all2 (\<lambda>r vs. storable sch N vs) rs vss"
  shows "\<forall>x \<in> set (map2 (new_record sch ctx) ptrs vss). 22 \<le> length x \<and> rh_flags (read_header x) = 0"
proof
  fix x assume "x \<in> set (map2 (new_record sch ctx) ptrs vss)"
  then obtain ptr vs where x: "x = new_record sch ctx ptr vs" "vs \<in> set vss" by (auto dest: set_zip_rightD)
  then have "storable sch N vs" using assms by (auto simp: list_all2_conv_all_nth in_set_conv_nth)
  then show "22 \<le> length x \<and> rh_flags (read_header x) = 0" using storable_record(3,4) x(1) by simp
qed

lemma abort_after_update:
  assumes tab: "open_table d t i te its ps rss" and up: "rows_updated pick ctx j (length (bm_free (db_bm d))) (TE_GetSchema te) i (places ps rss) d its logs ps rss [] (concat rss) [] vss d2"
    and vss: "list_all2 (\<lambda>r vs. storable (TE_GetSchema te) N vs) (filter pick (concat rss)) vss"
    and rows: "\<forall>r \<in> set (concat rss). pick r \<longrightarrow> 22 \<le> length r \<and> rh_flags (read_header r) AND RECORD_DEL = 0"
    and ws: "tx_write_set (txn_of (db_txn d) j) = []" and tm: "tm_storage (db_txn d)" "tm_log (db_txn d)" "j \<in> set (tm_active (db_txn d))"
  obtains e ps' rss' new recs where "TM_Abort j d2 = (Inr (), e)" "open_table e t i te (if filter pick (concat rss) = [] then its else turned i (last ps') its) ps' rss'"
    "concat rss' = concat rss @ map dead_row new" "length new = length (filter pick (concat rss))" "\<exists>rids. places ps' rss' = places ps rss @ rids"
    "db_txn e = finish_txn j ABORTED (db_txn d2)"
    "durable_log e = concat (map encode_record (logs @ recs @ [recovered (lm_next_lsn (db_log d2)) (control j LR_ABORT)]))"
    "versions_move (insert 0 (set ps)) (insert 0 (set ps')) (db_bm d) (db_bm e)"
proof -
  let ?n = "length (bm_free (db_bm d))" and ?rows = "concat rss" and ?pl = "places ps rss" and ?js = "picked_at pick (concat rss)"
  let ?hit = "filter (\<lambda>x. pick (snd x)) (zip (places ps rss) (concat rss))" and ?new = "\<lambda>ptrs. map2 (new_record (TE_GetSchema te) ctx) ptrs vss"
  note T = tab [unfolded open_table_def table_at_def]
  have len: "length ?pl = length ?rows" using T chain_length length_places by blast
  note hits = hits_at [OF len, of pick]
  obtain ps' rss' ptrs rids recs where R: "growing ?n ps' i d2 (if ?hit = [] then its else turned i (last ps') its) rss'"
    "length ptrs = length ?hit" "length rids = length ?hit" "concat rss' = marked_rows pick ctx ?rows ptrs @ ?new ptrs"
    "places ps' rss' = ?pl @ rids" "\<exists>zs. ps' = ps @ zs \<and> length zs \<le> length ?hit"
    "list_all2 (\<lambda>x ptr. version_at (db_bm d2) ptr (snd x) \<and> up_page ptr \<notin> insert 0 (set ps')) ?hit ptrs"
    "versions_move (insert 0 (set ps)) (insert 0 (set ps')) (db_bm d) (db_bm d2)" "db_log_holds d2 (logs @ recs)"
    "update_records ctx i (zip ?hit (zip rids (?new ptrs))) recs"
    "tx_write_set (txn_of (db_txn d2) j) = tx_write_set (txn_of (db_txn d) j) @ update_entries i (zip ?hit (zip rids (?new ptrs)))"
    "same_views (db_txn d) (db_txn d2)" "db_catalog d2 = db_catalog d" by (rule rows_updatedE [OF up])
  let ?new = "?new ptrs" and ?its = "if ?hit = [] then its else turned i (last ps') its" and ?final = "?rows @ map dead_row (map2 (new_record (TE_GetSchema te) ctx) ptrs vss)"
  have m: "length ?hit = length ?js" "length (filter pick ?rows) = length ?js" using hits picked_rows_at [of pick ?rows] by simp_all
  have lv: "length vss = length ?js" using list_all2_lengthD [OF vss] m(2) by simp
  have ln: "length rids = length ?js" "length ?new = length ?js" using R(2,3) m(1) lv by simp_all
  have jl: "\<forall>j \<in> set ?js. j < length ?pl" "\<forall>j \<in> set ?js. j < length ?rows" using len by (auto simp: picked_at_def)
  let ?xs = "rev (zip ?js [length ?rows..<length ?rows + length ?js])"
  have ents: "rev (tx_write_set (txn_of (db_txn d2) j)) = concat (map (pair_undo i (places ps' rss') ?final) ?xs)"
    using update_entries_at [OF ln jl, of i "map dead_row ?new"] R(5,11) ws hits len by simp
  have half: "half_undone ctx ?xs ?final (concat rss')" unfolding R(4)
    by (rule half_undone_start [OF marked_rows_at ln(2) rows new_rows_alive [OF vss]]) (use R(2) m in simp)
  have st: "stored_table ?n ps' i d2 ?its rss'" using R(1) by (simp add: growing_def)
  have cnt: "?xs = [] \<or> (\<forall>it \<in> set ?its. mi_id it = i \<longrightarrow> 0 < mi_rows it)" using turned_counts [of i "last ps'" its] m(1) by auto
  have n1: "1 \<le> ?n" using T by simp
  obtain b rss2 where b: "for_each (concat (map (pair_undo i (places ps' rss') ?final) ?xs)) undo_write d2 = (Inr (), d2\<lparr>db_store := b\<rparr>)"
    "stored_table ?n ps' i (d2\<lparr>db_store := b\<rparr>) ?its rss2" "concat rss2 = ?final" "map length rss2 = map length rss'" "versions_kept (insert 0 (set ps')) (db_bm d2) (st_bm b)"
    using undo_pairs [OF st n1 half cnt] by blast
  obtain e where e: "TM_Abort j d2 = (Inr (), e)" "db_txn e = finish_txn j ABORTED (db_txn d2)"
    "durable_log e = concat (map encode_record ((logs @ recs) @ [recovered (lm_next_lsn (db_log d2)) (control j LR_ABORT)]))" "db_store e = b" "db_catalog e = db_catalog d2"
    by (rule TM_Abort_run [OF b(1) [folded ents] _ R(9)]) (use tm R(12) in \<open>simp_all add: same_views_def\<close>)
  have "mp_name_tables (st_meta b) = mp_name_tables (st_meta (db_store d))"
    using T b(2) turned_names [of "db_store d" its b "?hit = []" i "last ps'"] by (simp add: stored_table_def)
  moreover have "first_id ps' = first_id ps" "ps' \<noteq> []" using R(6) T by (cases ps; auto)+
  moreover have "\<forall>it \<in> set ?its. mi_id it = i \<longrightarrow> mi_last it = last ps'" using R(1) by (simp add: growing_def)
  moreover have "?n = length (bm_free (st_bm b))" using b(2) by (simp add: stored_table_def)
  moreover have "Cat_GetTableName (db_catalog e) i = Inr t" "map_of (cat_names (db_catalog e)) t = Some i" "Cat_table (db_catalog e) i = Inr te" using T e(5) R(13) by simp_all
  ultimately have "open_table e t i te ?its ps' rss2" using T b(2) e(4) unfolding open_table_def table_at_def stored_table_def by simp
  moreover have "(?hit = []) = (filter pick ?rows = [])" using m by (metis length_0_conv)
  moreover have "versions_move (insert 0 (set ps)) (insert 0 (set ps')) (db_bm d) (db_bm e)" unfolding e(4)
    by (rule versions_move_trans [OF R(8)]) (use b(5) in \<open>simp add: versions_move_def versions_kept_def\<close>)
  moreover have "\<exists>rids. places ps' rss2 = ?pl @ rids" using R(5) places_lengths [OF b(4)] by simp
  ultimately show ?thesis using that [OF e(1) _ b(3) _ _ e(2)] e(3) ln(2) m(2) by simp
qed



end
