(* ===== verification/Spec2Isabelle.thy ===== *)
theory Spec2Isabelle
  imports Restart Index_Pages Insert_Rows Rollback_Updates
begin

text \<open>
  \<^bold>\<open>YourSQL\<close> is a small SQL server in C++ (\<^verbatim>\<open>src/src/\<close>): a terminal reads SQL text, a parser library builds a syntax tree, the server transforms, binds and plans the
  statement, and a tree of executors runs it on slotted pages behind a buffer pool, with multi-version records, an undo log, a write-ahead log and crash recovery.  This
  library models the server from its source and states what makes its parts correct.  All paths below are relative to \<^verbatim>\<open>src/src/\<close>.

  \<^bold>\<open>How the code is modelled.\<close>  Machine integers are words of their width.  A computation is a function from a state to a result and a new state (\<open>comp\<close> in \<open>Prelude\<close>):
  \<open>Inl e\<close> is an exception, and the state at the throw is kept, since the code has no transactional memory.  Besides the exceptions of the code three errors exist:
  \<open>MemoryFault\<close> for every access C++ leaves undefined (reads and writes outside a page, null pointers), \<open>SignedOverflow\<close> for \<^verbatim>\<open>int\<close> arithmetic, and \<open>OutOfFuel\<close>.
  Loops whose end depends on the data on disk (page chains, version chains, drivers over executors) carry fuel; a statement that such a loop answers is always
  proved for every sufficient amount of fuel, with the bound written out.  All other loops are recursion on the data.  A pointer to a page is the number of its frame.

  \<^bold>\<open>Storage.\<close>
  \<^item> \<open>Prelude\<close>: types of \<^verbatim>\<open>include/common/type.h\<close>, errors, the state monad with exceptions, byte strings (\<open>peek\<close>, \<open>poke\<close>, little endian words).
  \<^item> \<open>Disk\<close>: page frames, the page file with the fail bit of its stream (\<^verbatim>\<open>storage/posix_disk_manager.cpp\<close>), the append-only log file (\<^verbatim>\<open>storage/log_disk_manager.cpp\<close>).
  \<^item> \<open>Lru\<close>, \<open>Buffer_Pool\<close>: the replacement policy, with pin counts of type \<^verbatim>\<open>int\<close>, and the pool (\<^verbatim>\<open>include/buffer/lru_manager.h\<close>, \<^verbatim>\<open>buffer/buffer_manager.cpp\<close>).  A fetch returns
    the contents of the page; a release keeps all contents, except those of a page that was never written and is not dirty; whatever calls are made, a frame is free or pinned, so that
    the eviction code is dead and a full pool throws; the frames in use are mapped as long as \<^verbatim>\<open>NewPage\<close> is not given an id that is in use, which happens after a restart;
    a fetch past the end of the file makes later fetches stale.
  \<^item> \<open>Frame_Access\<close>, \<open>Page_Session\<close>: access to the bytes of a frame, and the pattern fetch--work--release with what it keeps.
  \<^item> \<open>Row_Codec\<close>: values, columns, tuples and the row format (\<^verbatim>\<open>storage/page/row.cpp\<close>), with what every row of the schema reads back as: itself, but for booleans, which read back as true, and
    \<^verbatim>\<open>VARCHAR2\<close>, which cannot be read.
  \<^item> \<open>Meta_Page\<close>: the catalog page (\<^verbatim>\<open>buffer/meta_page.cpp\<close>): a representation of the tables by the bytes of page 0, adding and updating tables, reloading, and the
    overrun of the space check.
  \<^item> \<open>Table_Page\<close>: the slotted page (\<^verbatim>\<open>storage/page/table_page.cpp\<close>) as a list of records: inserting refines appending, what was inserted is scanned back, marking
    deleted and restoring are exact.
  \<^item> \<open>Index_Pages\<close>: the pages of the B+ tree (\<^verbatim>\<open>index/index_page.cpp\<close>, \<^verbatim>\<open>index/b_plus_leaf_page.cpp\<close>, \<^verbatim>\<open>index/b_plus_internal_page.cpp\<close>): the binary search, sorted insertion and its
    image in the page, and the number of entries that is never updated.

  \<^bold>\<open>Transactions.\<close>
  \<^item> \<open>Undo_Log\<close>: undo pages and their manager (\<^verbatim>\<open>transaction/undo_log.cpp\<close>, \<^verbatim>\<open>undo_log_manager.cpp\<close>): appended versions are read back and stay readable.
  \<^item> \<open>Wal\<close>, \<open>Log_Threads\<close>: log records, the double buffer and the log manager (\<^verbatim>\<open>include/log/*.h\<close>, \<^verbatim>\<open>log/*.cpp\<close>).  \<open>Wal\<close> is the sequential view, with the round trip through
    the file and torn tails; \<open>Log_Threads\<close> is the step relation of client and flush threads with the queues of their condition variables: with one client it refines an
    append-only log; a thread that waits is woken, whatever the number of clients; with two clients bytes can be lost.
  \<^item> \<open>Transactions\<close>: transaction manager and read views (\<^verbatim>\<open>transaction/transaction_manager.cpp\<close>, \<^verbatim>\<open>read_view.cpp\<close>), with snapshot isolation over all reachable states.
  \<^item> \<open>Database\<close>: the state of the server, commit, abort and rollback; a commit that returns is in the log file.
  \<^item> \<open>Recovery\<close>: \<^verbatim>\<open>transaction/recovery_manager.cpp\<close>; the outcomes rebuilt from the log, and the transactions not in the log, which become visible.

  \<^bold>\<open>SQL.\<close>
  \<^item> \<open>Schema_Catalog\<close>: tables as the front end knows them (\<^verbatim>\<open>catalog/\<close>), converted from and to catalog items.
  \<^item> \<open>Expressions\<close>: physical expressions (\<^verbatim>\<open>include/planner/physical/expression/\<close>), with type soundness.
  \<^item> \<open>Sql_Front\<close>: transformer, binder and planner (\<^verbatim>\<open>parser/\<close>, \<^verbatim>\<open>binder/\<close>, \<^verbatim>\<open>planner/\<close>): the compiled condition means what the SQL condition means; every other condition is
    refused with an exception, except those with an operand the planner cannot do without, which are a null pointer.
  \<^item> \<open>Table_Scan\<close>: table iterator and sequential scan (\<^verbatim>\<open>buffer/table_iterator.cpp\<close>, \<^verbatim>\<open>executor/executor_seq_scan.cpp\<close>): a scan delivers exactly the rows of the snapshot.
  \<^item> \<open>Write_Executors\<close>: the executors of VALUES, INSERT, DELETE, UPDATE and CREATE TABLE (\<^verbatim>\<open>executor/executor_*.cpp\<close>).
  \<^item> \<open>Row_Choice\<close>: which rows DELETE and UPDATE work on: the test of a row, and the first phase of UPDATE, which ends with exactly the rows to be changed.
  \<^item> \<open>Delete_Rows\<close>: a DELETE as a whole: what it does to the table, the undo log, the log and the write set, and what every reader sees afterwards.
  \<^item> \<open>Stored_Table\<close>, \<open>Rollback_Rows\<close>: a table between two operations, the visit of one of its pages, and the rollback of a DELETE: an abort gives back the records, byte for byte.
  \<^item> \<open>Table_Growth\<close>: how a record is appended to a table, on the last page or on a new page linked behind it.
  \<^item> \<open>Insert_Rows\<close>: INSERT with VALUES from the plan to the closed executors, into a table with pages or still without, and what a scan returns afterwards.
  \<^item> \<open>Update_Rows\<close>: the second phase of UPDATE and the whole statement: the picked rows are marked and a new version is appended for each; what a scan returns afterwards, to
    readers that see the update and to those that do not, which get every changed row twice.
  \<^item> \<open>Rollback_Updates\<close>: the rollback of an UPDATE: an abort gives back the old records and leaves the new versions behind as dead records.
  \<^item> \<open>Executors\<close>: filter, projection, the factory and the drivers (\<^verbatim>\<open>executor/execute.cpp\<close>): a SELECT prints exactly the matching rows of the snapshot.
  \<^item> \<open>Server_Frame\<close>, \<open>Session\<close>: what executors leave alone, and the terminal (\<^verbatim>\<open>main.cpp\<close>): start, session, execution of a statement, input loop; the transaction
    of a session is always active.
  \<^item> \<open>Restart\<close>: a server that starts on the files of an earlier run: the redo phase, the survival of committed transactions, and the tables it does not know.

  \<^bold>\<open>Interfaces.\<close>  Locales state what one part relies on: the replacement policy in \<open>Lru\<close>, the contents of pages for the clients of the pool in \<open>Disk\<close> and \<open>Buffer_Pool\<close>, a page
  of records in \<open>Table_Page\<close>, a search in \<open>Index_Pages\<close>, a store of versions in \<open>Table_Scan\<close>, a source of rows for the drivers in \<open>Executors\<close>.  Each is interpreted on the definitions of the model.

  \<^bold>\<open>Parameters.\<close>  The SQL parser (a git submodule) is the argument \<open>parse\<close>; the arithmetic on \<^verbatim>\<open>double\<close> is the record \<open>DoubleOps\<close>; the initial contents of memory is \<open>junk\<close>.

  \<^bold>\<open>Not modelled.\<close>  The layout of printed tables and log messages; devices that fail to write; the lock manager, an empty class; the optimizer and the physical
  transformers, which nothing calls; the index manager and its iterator (\<^verbatim>\<open>index/b_plus_index_manager.cpp\<close>, \<^verbatim>\<open>b_plus_index_iterator.cpp\<close>), which nothing instantiates and
  which reinterpret the bytes of a page as a C++ object with a vector in it.
\<close>

end
